(* ===== verification/Prelude.thy ===== *)
theory Prelude
  imports Main "HOL-Library.Word"
begin

text \<open>
  The vocabulary every component theory shares.

  \<^item> The machine integers of \<^verbatim>\<open>lib/types.h\<close> as words of their width.
  \<^item> \<open>kerr\<close>: the ways in which a call of the kernel never comes back. A failed
    \<^verbatim>\<open>ASSERT\<close> or a \<^verbatim>\<open>PANIC\<close> ends in \<^verbatim>\<open>panic_spin\<close>, whose last statement is
    \<^verbatim>\<open>while (1) {}\<close>; an access through \<^verbatim>\<open>NULL\<close> or outside an object has no meaning in C;
    a loop may fail to end; the kernel may touch a page that is not mapped.
  \<^item> \<open>'a res\<close>: a pure computation that may fail in one of these ways.
  \<^item> \<open>('a, 's) run\<close>: what a kernel call does to a state \<open>'s\<close>: it returns (\<open>Ret\<close>), it
    switches to another task before it returns (\<open>Sleep\<close>, with the state in which that other
    task goes on), or it fails (\<open>Fail\<close>).
\<close>

section \<open>Machine integers (lib/types.h)\<close>

type_synonym u8 = "8 word"
type_synonym u16 = "16 word"
type_synonym u32 = "32 word"
type_synonym u64 = "64 word"

section \<open>Failures and results\<close>

datatype kerr =
    AssertFail    \<comment> \<open>\<^verbatim>\<open>ASSERT(c)\<close> with \<open>c\<close> false\<close>
  | Panicked      \<comment> \<open>an explicit \<^verbatim>\<open>PANIC(...)\<close>\<close>
  | NullDeref     \<comment> \<open>an access through \<^verbatim>\<open>NULL\<close>\<close>
  | OutOfBounds   \<comment> \<open>an access outside the object\<close>
  | Diverges      \<comment> \<open>a loop that does not end\<close>
  | PageFault     \<comment> \<open>an access to a page that is not mapped, which no handler can serve\<close>

type_synonym 'a res = "kerr + 'a"

datatype ('a, 's) run = Ret 'a 's | Sleep 's | Fail kerr

type_synonym ('s, 'a) kcall = "'s \<Rightarrow> ('a, 's) run"

definition ret :: "'a \<Rightarrow> ('s, 'a) kcall" where
  "ret x s = Ret x s"

definition fail :: "kerr \<Rightarrow> ('s, 'a) kcall" where
  "fail e s = Fail e"

definition bnd :: "('s, 'a) kcall \<Rightarrow> ('a \<Rightarrow> ('s, 'b) kcall) \<Rightarrow> ('s, 'b) kcall" where
  "bnd m k s = (case m s of Ret x t \<Rightarrow> k x t | Sleep t \<Rightarrow> Sleep t | Fail e \<Rightarrow> Fail e)"

definition kget :: "('s \<Rightarrow> 'a) \<Rightarrow> ('s, 'a) kcall" where
  "kget f s = Ret (f s) s"

definition kput :: "('s \<Rightarrow> 's) \<Rightarrow> ('s, unit) kcall" where
  "kput f s = Ret () (f s)"

text \<open>\<^verbatim>\<open>ASSERT(c)\<close> of \<^verbatim>\<open>kernel/debug.h\<close>, compiled in because the Makefile sets no
  \<^verbatim>\<open>NDEBUG\<close>.\<close>

definition ASSERT :: "bool \<Rightarrow> ('s, unit) kcall" where
  "ASSERT c = (if c then ret () else fail AssertFail)"

definition PANIC :: "('s, 'a) kcall" where
  "PANIC = fail Panicked"

text \<open>A pure computation run as a kernel call; a computation on one field of the state.\<close>

definition of_res :: "'a res \<Rightarrow> ('s, 'a) kcall" where
  "of_res r = (case r of Inl e \<Rightarrow> fail e | Inr x \<Rightarrow> ret x)"

definition on_field ::
  "('s \<Rightarrow> 't) \<Rightarrow> (('t \<Rightarrow> 't) \<Rightarrow> 's \<Rightarrow> 's) \<Rightarrow> ('t \<Rightarrow> ('a \<times> 't) res) \<Rightarrow> ('s, 'a) kcall" where
  "on_field sel upd f s =
     (case f (sel s) of Inl e \<Rightarrow> Fail e | Inr (x, t) \<Rightarrow> Ret x (upd (\<lambda>_. t) s))"

definition on_field' ::
  "('s \<Rightarrow> 't) \<Rightarrow> (('t \<Rightarrow> 't) \<Rightarrow> 's \<Rightarrow> 's) \<Rightarrow> ('t \<Rightarrow> 't res) \<Rightarrow> ('s, unit) kcall" where
  "on_field' sel upd f s =
     (case f (sel s) of Inl e \<Rightarrow> Fail e | Inr t \<Rightarrow> Ret () (upd (\<lambda>_. t) s))"

text \<open>\<^verbatim>\<open>for (i = a; i != a + n; ++i) body(i)\<close>\<close>

fun for_range :: "nat \<Rightarrow> nat \<Rightarrow> (nat \<Rightarrow> ('s, unit) kcall) \<Rightarrow> ('s, unit) kcall" where
  "for_range a 0 body = ret ()"
| "for_range a (Suc n) body = bnd (body a) (\<lambda>_. for_range (Suc a) n body)"

named_theorems run_simps "unfolding of the run combinators"
named_theorems kdefs "the definitions of the kernel's operations"

lemmas run_defs [run_simps] =
  ret_def fail_def bnd_def kget_def kput_def ASSERT_def PANIC_def of_res_def
  on_field_def on_field'_def

section \<open>Running to a return\<close>

lemma bnd_Ret_iff:
  "bnd m k s = Ret y u \<longleftrightarrow> (\<exists>x t. m s = Ret x t \<and> k x t = Ret y u)"
  by (auto simp: bnd_def split: run.splits)

lemma bnd_run [simp]:
  "m s = Ret x t \<Longrightarrow> bnd m k s = k x t"
  "m s = Sleep t \<Longrightarrow> bnd m k s = Sleep t"
  "m s = Fail e \<Longrightarrow> bnd m k s = Fail e"
  by (simp_all add: bnd_def)

lemma bnd_basic [simp]:
  "bnd (kget f) k1 s = k1 (f s) s" "bnd (kput g) k2 s = k2 () (g s)" "bnd (ret x) k3 s = k3 x s"
  "bnd (fail e) k4 s = Fail e" "bnd (ASSERT c) k5 s = (if c then k5 () s else Fail AssertFail)"
  by (simp_all add: bnd_def kget_def kput_def ret_def fail_def ASSERT_def)

lemma bnd_assoc: "bnd (bnd m k) k' = bnd m (\<lambda>x. bnd (k x) k')"
  by (rule ext) (simp add: bnd_def split: run.splits)

lemma bnd_of_res [simp]:
  "bnd (of_res (Inr x)) k s = k x s" "bnd (of_res (Inl e)) k s = Fail e"
  by (simp_all add: of_res_def)

lemma for_range_inv:
  assumes "P a s"
    and "\<And>i s. a \<le> i \<Longrightarrow> i < a + n \<Longrightarrow> P i s \<Longrightarrow> \<exists>t. body i s = Ret () t \<and> P (Suc i) t"
  shows "\<exists>t. for_range a n body s = Ret () t \<and> P (a + n) t"
  using assms
proof (induction n arbitrary: a s)
  case 0
  then show ?case by (simp add: ret_def)
next
  case (Suc n)
  obtain t where t: "body a s = Ret () t" and P: "P (Suc a) t"
    using Suc.prems(2)[of a s] Suc.prems(1) by auto
  have "\<exists>u. for_range (Suc a) n body t = Ret () u \<and> P (Suc a + n) u"
    using P by (rule Suc.IH) (simp add: Suc.prems(2))
  with t show ?case by simp
qed

end
