(* ===== verification/CString.thy ===== *)
theory CString
  imports Prelude
begin

text \<open>
  The string functions of \<^verbatim>\<open>lib/string.c\<close> over a byte memory: a list of bytes, addressed by position, outside
  which every access is \<open>OutOfBounds\<close>. A \<^verbatim>\<open>char\<close> is signed, as on AMD64. The functions copy and compare from low
  to high addresses, so that overlapping arguments behave as they do in the code.

  \<open>cstr m p xs\<close> says that the string \<open>xs\<close>, without its terminating zero, stands at \<open>p\<close>.
\<close>

section \<open>The code\<close>

type_synonym mem = "u8 list"

definition ld :: "mem \<Rightarrow> nat \<Rightarrow> u8 res" where
  "ld m p = (if p < length m then Inr (m ! p) else Inl OutOfBounds)"

definition st :: "mem \<Rightarrow> nat \<Rightarrow> u8 \<Rightarrow> mem res" where
  "st m p b = (if p < length m then Inr (m[p := b]) else Inl OutOfBounds)"

definition rbind :: "'a res \<Rightarrow> ('a \<Rightarrow> 'b res) \<Rightarrow> 'b res" where
  "rbind r f = (case r of Inl e \<Rightarrow> Inl e | Inr x \<Rightarrow> f x)"

lemma rbind_simps [simp]: "rbind (Inl e) f = Inl e" "rbind (Inr x) f = f x"
  by (simp_all add: rbind_def)

lemma rbind_cong [fundef_cong]:
  "r = r' \<Longrightarrow> (\<And>x. r' = Inr x \<Longrightarrow> f x = g x) \<Longrightarrow> rbind r f = rbind r' g"
  by (cases r') simp_all

text \<open>The value of a \<^verbatim>\<open>char\<close>.\<close>

definition char_val :: "u8 \<Rightarrow> int" where "char_val b = sint b"

lemma char_val_eq [simp]: "char_val x = char_val y \<longleftrightarrow> x = y" "char_val x = 0 \<longleftrightarrow> x = 0" "0 = char_val x \<longleftrightarrow> x = 0"
proof -
  show eq: "char_val x = char_val y \<longleftrightarrow> x = y" for x y by (auto simp: char_val_def intro: signed_word_eqI)
  show "char_val x = 0 \<longleftrightarrow> x = 0" "0 = char_val x \<longleftrightarrow> x = 0" using eq[of x 0] by (auto simp: char_val_def)
qed

lemma char_val_0 [simp]: "char_val 0 = 0"
  by simp

fun memcpy :: "mem \<Rightarrow> nat \<Rightarrow> nat \<Rightarrow> nat \<Rightarrow> mem res" where
  "memcpy m dst src 0 = Inr m"
| "memcpy m dst src (Suc n) =
     rbind (ld m src) (\<lambda>b. rbind (st m dst b) (\<lambda>m. memcpy m (Suc dst) (Suc src) n))"

fun memset :: "mem \<Rightarrow> nat \<Rightarrow> u8 \<Rightarrow> nat \<Rightarrow> mem res" where
  "memset m dst v 0 = Inr m"
| "memset m dst v (Suc n) = rbind (st m dst v) (\<lambda>m. memset m (Suc dst) v n)"

fun memcmp :: "mem \<Rightarrow> nat \<Rightarrow> nat \<Rightarrow> nat \<Rightarrow> int res" where
  "memcmp m a b 0 = Inr 0"
| "memcmp m a b (Suc n) =
     rbind (ld m a) (\<lambda>x. rbind (ld m b) (\<lambda>y.
     if x \<noteq> y then Inr (char_val x - char_val y) else memcmp m (Suc a) (Suc b) n))"

text \<open>The loops over strings end at the end of the memory at the latest.\<close>

function strcpy_loop :: "mem \<Rightarrow> nat \<Rightarrow> nat \<Rightarrow> mem res" where
  "strcpy_loop m dst src =
     (if src < length m \<and> dst < length m
      then let b = m ! src; m = m[dst := b] in
           if b \<noteq> 0 then strcpy_loop m (Suc dst) (Suc src) else Inr m
      else Inl OutOfBounds)"
  by pat_completeness auto
termination by (relation "measure (\<lambda>(m, dst, src). length m - src)") auto

definition strcpy :: "mem \<Rightarrow> nat \<Rightarrow> nat \<Rightarrow> (nat \<times> mem) res" where
  "strcpy m dst src = rbind (strcpy_loop m dst src) (\<lambda>m. Inr (dst, m))"

function strcmp :: "mem \<Rightarrow> nat \<Rightarrow> nat \<Rightarrow> int res" where
  "strcmp m a b =
     (if a < length m \<and> b < length m
      then if m ! a \<noteq> 0 \<and> m ! a = m ! b then strcmp m (Suc a) (Suc b)
           else Inr (char_val (m ! a) - char_val (m ! b))
      else Inl OutOfBounds)"
  by pat_completeness auto
termination by (relation "measure (\<lambda>(m, a, b). length m - a)") auto

text \<open>\<^verbatim>\<open>while (str[len++]) {}\<close> leaves \<open>len\<close> one past the zero.\<close>

function strlen_loop :: "mem \<Rightarrow> nat \<Rightarrow> nat \<Rightarrow> nat res" where
  "strlen_loop m str len =
     (if str + len < length m
      then if m ! (str + len) \<noteq> 0 then strlen_loop m str (Suc len) else Inr (Suc len)
      else Inl OutOfBounds)"
  by pat_completeness auto
termination by (relation "measure (\<lambda>(m, str, len). length m - (str + len))") auto

definition strlen :: "mem \<Rightarrow> nat \<Rightarrow> nat res" where
  "strlen m str = rbind (strlen_loop m str 0) (\<lambda>len. Inr (len - 1))"

function strrchr_loop :: "mem \<Rightarrow> nat \<Rightarrow> u8 \<Rightarrow> nat option \<Rightarrow> nat option res" where
  "strrchr_loop m str ch last_char =
     (if str < length m
      then if m ! str \<noteq> 0
           then strrchr_loop m (Suc str) ch (if m ! str = ch then Some str else last_char)
           else Inr last_char
      else Inl OutOfBounds)"
  by pat_completeness auto
termination by (relation "measure (\<lambda>(m, str, ch, l). length m - str)") auto

definition strrchr :: "mem \<Rightarrow> nat \<Rightarrow> u8 \<Rightarrow> nat option res" where
  "strrchr m str ch = strrchr_loop m str ch None"

function strchr :: "mem \<Rightarrow> nat \<Rightarrow> u8 \<Rightarrow> nat option res" where
  "strchr m str ch =
     (if str < length m
      then if m ! str \<noteq> 0 then if m ! str = ch then Inr (Some str) else strchr m (Suc str) ch
           else Inr None
      else Inl OutOfBounds)"
  by pat_completeness auto
termination by (relation "measure (\<lambda>(m, str, ch). length m - str)") auto

declare strcpy_loop.simps [simp del] strcmp.simps [simp del] strlen_loop.simps [simp del]
  strrchr_loop.simps [simp del] strchr.simps [simp del]

section \<open>Blocks of memory\<close>

definition bytes :: "mem \<Rightarrow> nat \<Rightarrow> nat \<Rightarrow> u8 list" where
  "bytes m p n = take n (drop p m)"

lemma length_bytes: "p + n \<le> length m \<Longrightarrow> length (bytes m p n) = n"
  by (simp add: bytes_def)

lemma nth_bytes: "p + n \<le> length m \<Longrightarrow> k < n \<Longrightarrow> bytes m p n ! k = m ! (p + k)"
  by (simp add: bytes_def)

text \<open>\<^verbatim>\<open>memcpy\<close> copies correctly whenever the destination does not start inside the source.\<close>

lemma memcpy_ok:
  assumes "src + n \<le> length m" "dst + n \<le> length m" "dst \<le> src \<or> src + n \<le> dst"
  shows "\<exists>m'. memcpy m dst src n = Inr m' \<and> length m' = length m \<and>
    (\<forall>i < length m. m' ! i = (if dst \<le> i \<and> i < dst + n then m ! (src + (i - dst)) else m ! i))"
  using assms
proof (induction n arbitrary: m dst src)
  case (Suc n)
  let ?m = "m[dst := m ! src]"
  have step: "memcpy m dst src (Suc n) = memcpy ?m (Suc dst) (Suc src) n"
    using Suc.prems by (simp add: ld_def st_def)
  have "Suc dst \<le> Suc src \<or> Suc src + n \<le> Suc dst" using Suc.prems(3) by auto
  then obtain m' where m': "memcpy ?m (Suc dst) (Suc src) n = Inr m'" "length m' = length m"
      "\<forall>i < length m. m' ! i = (if Suc dst \<le> i \<and> i < Suc dst + n then ?m ! (Suc src + (i - Suc dst)) else ?m ! i)"
    using Suc.IH[of "Suc src" ?m "Suc dst"] Suc.prems by auto
  have "m' ! i = (if dst \<le> i \<and> i < dst + Suc n then m ! (src + (i - dst)) else m ! i)" if i: "i < length m" for i
  proof (cases "Suc dst \<le> i \<and> i < Suc dst + n")
    case True
    then have "Suc src + (i - Suc dst) = src + (i - dst)" "src + (i - dst) \<noteq> dst" using Suc.prems(3) by auto
    then show ?thesis using True m'(3) i by auto
  next
    case False
    then show ?thesis using m'(3) i Suc.prems by (auto simp: nth_list_update)
  qed
  then show ?case using step m' by auto
qed auto

lemma memset_ok:
  assumes "dst + n \<le> length m"
  shows "\<exists>m'. memset m dst v n = Inr m' \<and> length m' = length m \<and>
    (\<forall>i < length m. m' ! i = (if dst \<le> i \<and> i < dst + n then v else m ! i))"
  using assms
proof (induction n arbitrary: m dst)
  case (Suc n)
  let ?m = "m[dst := v]"
  obtain m' where m': "memset ?m (Suc dst) v n = Inr m'" "length m' = length m"
      "\<forall>i < length m. m' ! i = (if Suc dst \<le> i \<and> i < Suc dst + n then v else ?m ! i)"
    using Suc.IH[of "Suc dst" ?m] Suc.prems by auto
  have "m' ! i = (if dst \<le> i \<and> i < dst + Suc n then v else m ! i)" if "i < length m" for i
    using m'(3) that Suc.prems by (auto simp: nth_list_update)
  moreover have "memset m dst v (Suc n) = Inr m'" using m'(1) Suc.prems by (simp add: st_def)
  ultimately show ?case using m'(2) by blast
qed auto

lemma memcmp_ok:
  assumes "a + n \<le> length m" "b + n \<le> length m"
  shows "\<exists>r. memcmp m a b n = Inr r \<and> (r = 0 \<longleftrightarrow> bytes m a n = bytes m b n)"
  using assms
proof (induction n arbitrary: a b)
  case (Suc n)
  have split: "bytes m p (Suc n) = m ! p # bytes m (Suc p) n" if "p < length m" for p
    using that by (simp add: bytes_def Cons_nth_drop_Suc[symmetric])
  show ?case using Suc.IH[of "Suc a" "Suc b"] Suc.prems split[of a] split[of b] by (auto simp: ld_def)
qed (simp add: bytes_def)

section \<open>Strings\<close>

fun cstr :: "mem \<Rightarrow> nat \<Rightarrow> u8 list \<Rightarrow> bool" where
  "cstr m p [] \<longleftrightarrow> p < length m \<and> m ! p = 0"
| "cstr m p (x # xs) \<longleftrightarrow> p < length m \<and> m ! p = x \<and> x \<noteq> 0 \<and> cstr m (Suc p) xs"

lemma cstr_bound: "cstr m p xs \<Longrightarrow> p + length xs < length m"
  by (induction xs arbitrary: p) force+

lemma cstr_nonzero: "cstr m p xs \<Longrightarrow> 0 \<notin> set xs"
  by (induction xs arbitrary: p) auto

lemma cstr_unique: "cstr m p xs \<Longrightarrow> cstr m p ys \<Longrightarrow> xs = ys"
proof (induction xs arbitrary: p ys)
  case Nil
  then show ?case by (cases ys) auto
next
  case (Cons x xs)
  then show ?case by (cases ys) auto
qed

lemma cstr_frame:
  "cstr m p xs \<Longrightarrow> length m' = length m \<Longrightarrow> (\<And>i. p \<le> i \<Longrightarrow> i \<le> p + length xs \<Longrightarrow> m' ! i = m ! i) \<Longrightarrow> cstr m' p xs"
proof (induction xs arbitrary: p)
  case (Cons x xs)
  then show ?case using Cons.IH[of "Suc p"] by auto
qed auto

lemma strlen_loop_ok: "cstr m (p + k) xs \<Longrightarrow> strlen_loop m p k = Inr (Suc (k + length xs))"
proof (induction xs arbitrary: k)
  case Nil
  then show ?case by (subst strlen_loop.simps) simp
next
  case (Cons x xs)
  then show ?case using Cons.IH[of "Suc k"] by (subst strlen_loop.simps) simp
qed

lemma strlen_ok: "cstr m p xs \<Longrightarrow> strlen m p = Inr (length xs)"
  using strlen_loop_ok[of m p 0 xs] by (simp add: strlen_def)

lemma strcmp_step:
  assumes "cstr m a xs" "cstr m b ys"
  shows "strcmp m a b = (if xs \<noteq> [] \<and> ys \<noteq> [] \<and> hd xs = hd ys then strcmp m (Suc a) (Suc b)
    else Inr (char_val (hd (xs @ [0])) - char_val (hd (ys @ [0]))))"
  using assms by (subst strcmp.simps) (cases xs; cases ys; auto)

lemma strcmp_ok:
  assumes "cstr m a xs" "cstr m b ys"
  shows "\<exists>r. strcmp m a b = Inr r \<and> (r = 0 \<longleftrightarrow> xs = ys)"
  using assms
proof (induction xs arbitrary: a b ys)
  case Nil
  then show ?case using strcmp_step[OF Nil] cstr_nonzero[OF Nil(2)] by (cases ys) auto
next
  case (Cons x xs)
  show ?case
  proof (cases "ys \<noteq> [] \<and> x = hd ys")
    case True
    then obtain zs where ys: "ys = x # zs" by (cases ys) auto
    then show ?thesis using Cons.IH[of "Suc a" "Suc b" zs] Cons.prems strcmp_step[OF Cons.prems] by auto
  next
    case False
    then show ?thesis
      using strcmp_step[OF Cons.prems] Cons.prems by (cases ys) auto
  qed
qed

text \<open>The first and the last place of a character.\<close>

lemma strchr_ok:
  "cstr m p xs \<Longrightarrow> strchr m p ch =
     Inr (if ch \<in> set xs then Some (p + length (takeWhile (\<lambda>x. x \<noteq> ch) xs)) else None)"
proof (induction xs arbitrary: p)
  case Nil
  then show ?case by (subst strchr.simps) simp
next
  case (Cons x xs)
  then show ?case using Cons.IH[of "Suc p"] by (subst strchr.simps) auto
qed

lemma strrchr_loop_ok:
  "cstr m p xs \<Longrightarrow> strrchr_loop m p ch l =
     Inr (if ch \<in> set xs then Some (p + (length xs - 1 - length (takeWhile (\<lambda>x. x \<noteq> ch) (rev xs)))) else l)"
proof (induction xs arbitrary: p l)
  case Nil
  then show ?case by (subst strrchr_loop.simps) simp
next
  case (Cons x xs)
  have "length (takeWhile (\<lambda>x. x \<noteq> ch) (rev xs)) < length xs" if "ch \<in> set xs"
    using that by (metis (mono_tags, lifting) length_rev length_takeWhile_le linorder_not_less nth_length_takeWhile set_rev set_takeWhileD takeWhile_eq_all_conv le_neq_implies_less takeWhile_eq_take take_all)
  then show ?case
    using Cons.IH[of "Suc p"] Cons.prems
    by (subst strrchr_loop.simps) (auto simp: takeWhile_append2 takeWhile_append)
qed

lemma strcpy_loop_ok:
  assumes "cstr m src xs" "dst + length xs < length m" "dst \<le> src \<or> src + length xs < dst"
  shows "\<exists>m'. strcpy_loop m dst src = Inr m' \<and> length m' = length m \<and>
    (\<forall>i < length m. m' ! i = (if dst \<le> i \<and> i \<le> dst + length xs then (xs @ [0]) ! (i - dst) else m ! i))"
  using assms
proof (induction xs arbitrary: m src dst)
  case Nil
  then show ?case by (subst strcpy_loop.simps) (auto simp: Let_def nth_list_update)
next
  case (Cons x xs)
  let ?m = "m[dst := x]"
  have src: "src < length m" "m ! src = x" "x \<noteq> 0" "cstr m (Suc src) xs" using Cons.prems(1) by auto
  have "cstr ?m (Suc src) xs"
    using Cons.prems(3) by (intro cstr_frame[OF src(4)]) auto
  then obtain m' where m': "strcpy_loop ?m (Suc dst) (Suc src) = Inr m'" "length m' = length m"
      "\<forall>i < length m. m' ! i = (if Suc dst \<le> i \<and> i \<le> Suc dst + length xs then (xs @ [0]) ! (i - Suc dst) else ?m ! i)"
    using Cons.IH[of ?m "Suc src" "Suc dst"] Cons.prems by auto
  have "m' ! i = (if dst \<le> i \<and> i \<le> dst + length (x # xs) then ((x # xs) @ [0]) ! (i - dst) else m ! i)"
    if i: "i < length m" for i
  proof (cases "i = dst")
    case True
    then show ?thesis using m'(3) i by simp
  next
    case False
    then show ?thesis using m'(3) i by (auto simp: nth_Cons' Suc_diff_Suc[symmetric])
  qed
  moreover have "strcpy_loop m dst src = Inr m'"
    using m'(1) src Cons.prems(2) by (subst strcpy_loop.simps) simp
  ultimately show ?case using m'(2) by blast
qed

lemma cstr_nth:
  "0 \<notin> set xs \<Longrightarrow> p + length xs < length m \<Longrightarrow> (\<And>i. i \<le> length xs \<Longrightarrow> m ! (p + i) = (xs @ [0]) ! i) \<Longrightarrow> cstr m p xs"
proof (induction xs arbitrary: p)
  case (Cons x xs)
  have "m ! (Suc p + i) = (xs @ [0]) ! i" if "i \<le> length xs" for i using Cons.prems(3)[of "Suc i"] that by simp
  moreover have "m ! p = x" using Cons.prems(3)[of 0] by simp
  ultimately show ?case using Cons.IH[of "Suc p"] Cons.prems(1,2) by simp
qed simp

lemma length_strcpy: "strcpy_loop m dst src = Inr m' \<Longrightarrow> length m' = length m"
proof (induction m dst src rule: strcpy_loop.induct)
  case (1 m dst src)
  then show ?case
    by (subst (asm) strcpy_loop.simps) (auto simp: Let_def split: if_splits)
qed

section \<open>Properties\<close>

text \<open>\<^verbatim>\<open>strcpy\<close> copies a string, with its zero, to any place with room for it that does not start inside the
  string, and changes no other byte; \<^verbatim>\<open>strlen\<close> of the copy is its length and \<^verbatim>\<open>strcmp\<close> of the two copies is 0
  when they do not overlap.\<close>

theorem strcpy_copies:
  assumes "cstr m src xs" "dst + length xs < length m" "dst + length xs < src \<or> src + length xs < dst"
  shows "\<exists>m'. strcpy m dst src = Inr (dst, m') \<and> cstr m' dst xs \<and> cstr m' src xs \<and>
    strlen m' dst = Inr (length xs) \<and> strcmp m' dst src = Inr 0 \<and>
    (\<forall>i < length m. (i < dst \<or> dst + length xs < i) \<longrightarrow> m' ! i = m ! i) \<and> length m' = length m"
proof -
  obtain m' where m': "strcpy_loop m dst src = Inr m'" "length m' = length m"
      "\<forall>i < length m. m' ! i = (if dst \<le> i \<and> i \<le> dst + length xs then (xs @ [0]) ! (i - dst) else m ! i)"
    using strcpy_loop_ok[OF assms(1,2)] assms(3) by auto
  have d: "cstr m' dst xs"
    using cstr_nonzero[OF assms(1)] assms(2) m'(2,3) by (intro cstr_nth) auto
  have s: "cstr m' src xs"
    using m'(2,3) assms(3) cstr_bound[OF assms(1)] by (intro cstr_frame[OF assms(1)]) auto
  show ?thesis
    using m' d s strlen_ok[OF d] strcmp_ok[OF d s] by (auto simp: strcpy_def)
qed

theorem strcpy_copies_witness:
  "\<exists>m'. strcpy [104, 105, 0, 7, 7, 7] 3 0 = Inr (3, m') \<and> strlen m' 3 = Inr 2 \<and> strcmp m' 3 0 = Inr 0"
  using strcpy_copies[of "[104, 105, 0, 7, 7, 7]" 0 "[104, 105]" 3] by auto

text \<open>\<^verbatim>\<open>strcmp\<close> decides equality of strings and \<^verbatim>\<open>memcmp\<close> equality of blocks; \<^verbatim>\<open>strchr\<close> finds the first and
  \<^verbatim>\<open>strrchr\<close> the last place of a character. None of them reads past the zero or the block.\<close>

theorem string_searches:
  assumes "cstr m a xs" "cstr m b ys"
  shows "(\<exists>r. strcmp m a b = Inr r \<and> (r = 0 \<longleftrightarrow> xs = ys)) \<and>
    strchr m a ch = Inr (if ch \<in> set xs then Some (a + length (takeWhile (\<lambda>x. x \<noteq> ch) xs)) else None) \<and>
    strrchr m a ch = Inr (if ch \<in> set xs
      then Some (a + (length xs - 1 - length (takeWhile (\<lambda>x. x \<noteq> ch) (rev xs)))) else None) \<and>
    (\<exists>r. memcmp m a b (min (length xs) (length ys)) = Inr r \<and>
      (r = 0 \<longleftrightarrow> bytes m a (min (length xs) (length ys)) = bytes m b (min (length xs) (length ys))))"
proof (intro conjI)
  show "\<exists>r. strcmp m a b = Inr r \<and> (r = 0 \<longleftrightarrow> xs = ys)" by (rule strcmp_ok[OF assms])
  show "\<exists>r. memcmp m a b (min (length xs) (length ys)) = Inr r \<and>
      (r = 0 \<longleftrightarrow> bytes m a (min (length xs) (length ys)) = bytes m b (min (length xs) (length ys)))"
    using cstr_bound[OF assms(1)] cstr_bound[OF assms(2)] by (intro memcmp_ok) auto
qed (use strchr_ok[OF assms(1), of ch] strrchr_loop_ok[OF assms(1), of ch] in \<open>auto simp: strrchr_def\<close>)

theorem string_searches_witness:
  "strrchr [47, 97, 47, 98, 0] 0 47 = Inr (Some 2) \<and> strchr [47, 97, 47, 98, 0] 0 47 = Inr (Some 0)"
  using string_searches[of "[47, 97, 47, 98, 0]" 0 "[47, 97, 47, 98]" 0 "[47, 97, 47, 98]" 47] by simp

text \<open>\<^verbatim>\<open>memcpy\<close> moves a block of bytes correctly to every destination that does not start inside the block,
  overlapping or not, and \<^verbatim>\<open>memset\<close> fills exactly the block it is given.\<close>

theorem memcpy_memset:
  assumes "src + n \<le> length m" "dst + n \<le> length m" "dst \<le> src \<or> src + n \<le> dst"
  shows "(\<exists>m'. memcpy m dst src n = Inr m' \<and> length m' = length m \<and> bytes m' dst n = bytes m src n \<and>
      (\<forall>i < length m. (i < dst \<or> dst + n \<le> i) \<longrightarrow> m' ! i = m ! i)) \<and>
    (\<exists>m'. memset m dst v n = Inr m' \<and> length m' = length m \<and> bytes m' dst n = replicate n v \<and>
      (\<forall>i < length m. (i < dst \<or> dst + n \<le> i) \<longrightarrow> m' ! i = m ! i))"
proof
  obtain m' where m': "memcpy m dst src n = Inr m'" "length m' = length m"
      "\<forall>i < length m. m' ! i = (if dst \<le> i \<and> i < dst + n then m ! (src + (i - dst)) else m ! i)"
    using memcpy_ok[OF assms] by auto
  have "bytes m' dst n = bytes m src n"
    using m' assms by (intro nth_equalityI) (auto simp: length_bytes nth_bytes)
  then show "\<exists>m'. memcpy m dst src n = Inr m' \<and> length m' = length m \<and> bytes m' dst n = bytes m src n \<and>
      (\<forall>i < length m. (i < dst \<or> dst + n \<le> i) \<longrightarrow> m' ! i = m ! i)" using m' by auto
  obtain c where c: "memset m dst v n = Inr c" "length c = length m"
      "\<forall>i < length m. c ! i = (if dst \<le> i \<and> i < dst + n then v else m ! i)"
    using memset_ok[OF assms(2)] by auto
  have "bytes c dst n = replicate n v"
    using c assms by (intro nth_equalityI) (auto simp: length_bytes nth_bytes)
  then show "\<exists>m'. memset m dst v n = Inr m' \<and> length m' = length m \<and> bytes m' dst n = replicate n v \<and>
      (\<forall>i < length m. (i < dst \<or> dst + n \<le> i) \<longrightarrow> m' ! i = m ! i)" using c by auto
qed

theorem memcpy_memset_witness:
  "\<exists>m'. memcpy [1, 2, 3, 4] 0 1 3 = Inr m' \<and> bytes m' 0 3 = [2, 3, 4]"
  using memcpy_memset[of 1 3 "[1, 2, 3, 4]" 0 0] by (auto simp: bytes_def)

end
