(* ===== verification/Stdio.thy ===== *)
theory Stdio
  imports CString
begin

text \<open>
  The formatted output of \<^verbatim>\<open>lib/stdio.c\<close>: \<^verbatim>\<open>itoa\<close> and \<^verbatim>\<open>vsprintf\<close>, over the byte memory of \<^verbatim>\<open>CString\<close>.

  The variable arguments are the list of 8-byte slots that \<^verbatim>\<open>args += 8\<close> steps through. \<open>render\<close> is the
  specification: the output as a function of the format and the arguments, on lists; \<^verbatim>\<open>vsprintf\<close> is shown to write
  exactly it. \<^verbatim>\<open>printf\<close> and \<^verbatim>\<open>sprintf\<close> take the address of their arguments from the register \<^verbatim>\<open>rbp\<close> and are not modelled
  further.
\<close>

section \<open>The code\<close>

definition digit_char :: "nat \<Rightarrow> u8" where
  "digit_char m = (if m < 10 then of_nat m + 48 else of_nat m + 65 - 10)"

text \<open>\<^verbatim>\<open>value\<close> is a \<^verbatim>\<open>uint64_t\<close>, divided and reduced without wrapping. A base below 2 recurses for ever.\<close>

function itoa :: "mem \<Rightarrow> nat \<Rightarrow> nat \<Rightarrow> nat \<Rightarrow> (mem \<times> nat) res" where
  "itoa m val buf base =
     (if base < 2 then Inl Diverges
      else rbind (if val div base \<noteq> 0 then itoa m (val div base) buf base else Inr (m, buf)) (\<lambda>(m, buf).
           rbind (st m buf (digit_char (val mod base))) (\<lambda>m.
           Inr (m, Suc buf))))"
  by pat_completeness auto
termination
proof (relation "measure (\<lambda>(m, v, b, base). v)", goal_cases)
  case (2 m val buf base)
  then have "0 < val" by (cases val) auto
  then show ?case using 2 by (simp add: not_less)
qed simp

declare itoa.simps [simp del]

lemma itoa_length: "itoa m val buf base = Inr (m', buf') \<Longrightarrow> length m' = length m"
proof (induction m val buf base arbitrary: m' buf' rule: itoa.induct)
  case (1 m val buf base)
  obtain m1 b1 where r: "(if val div base \<noteq> 0 then itoa m (val div base) buf base else Inr (m, buf)) = Inr (m1, b1)"
      "st m1 b1 (digit_char (val mod base)) = Inr m'" "\<not> base < 2"
    using "1.prems" by (subst (asm) itoa.simps) (auto simp: rbind_def split: if_splits sum.splits)
  have "length m1 = length m" using r(1,3) "1.IH"[of m1 b1] by (auto split: if_splits)
  then show ?case using r(2) by (auto simp: st_def split: if_splits)
qed

text \<open>The \<^verbatim>\<open>int\<close> and the \<^verbatim>\<open>int64_t\<close> in an argument slot, what \<^verbatim>\<open>0 - x\<close> makes of a negative one, and the
  \<^verbatim>\<open>uint64_t\<close> that \<^verbatim>\<open>itoa\<close> gets.\<close>

definition neg32 :: "u64 \<Rightarrow> bool" where "neg32 w \<longleftrightarrow> sint (ucast w :: u32) < 0"
definition neg64 :: "u64 \<Rightarrow> bool" where "neg64 w \<longleftrightarrow> sint w < 0"
definition abs32 :: "u64 \<Rightarrow> nat" where
  "abs32 w = unat (scast (if neg32 w then 0 - (ucast w :: u32) else ucast w) :: u64)"
definition abs64 :: "u64 \<Rightarrow> nat" where "abs64 w = unat (if neg64 w then 0 - w else w)"
definition hex32 :: "u64 \<Rightarrow> nat" where "hex32 w = unat (scast (ucast w :: u32) :: u64)"

definition minus_sign :: "bool \<Rightarrow> mem \<Rightarrow> nat \<Rightarrow> (mem \<times> nat) res" where
  "minus_sign neg m str = (if neg then rbind (st m str 45) (\<lambda>m. Inr (m, Suc str)) else Inr (m, str))"

definition slot :: "u64 list \<Rightarrow> (u64 \<times> u64 list) res" where
  "slot args = (case args of [] \<Rightarrow> Inl OutOfBounds | a # args \<Rightarrow> Inr (a, args))"

text \<open>\<^verbatim>\<open>idx = *(++format)\<close> at the end of a conversion.\<close>

definition next_idx ::
  "nat \<Rightarrow> u64 list \<Rightarrow> mem \<times> nat \<Rightarrow> (mem \<times> nat \<times> nat \<times> u8 \<times> u64 list) res" where
  "next_idx format args x = (case x of (m, str) \<Rightarrow>
     rbind (ld m (Suc format)) (\<lambda>idx. Inr (m, str, Suc format, idx, args)))"

text \<open>One conversion, from the percent sign at \<^verbatim>\<open>format\<close> on: the outer \<^verbatim>\<open>switch\<close>. A character it does not know is
  left to be the next \<^verbatim>\<open>idx\<close>.\<close>

definition conversion ::
  "mem \<Rightarrow> nat \<Rightarrow> nat \<Rightarrow> u64 list \<Rightarrow> (mem \<times> nat \<times> nat \<times> u8 \<times> u64 list) res" where
  "conversion m str format args =
     rbind (ld m (Suc format)) (\<lambda>idx.
     let format = Suc format in
     if idx = of_char (CHR ''l'')
     then rbind (ld m (Suc format)) (\<lambda>idx.
          let format = Suc format in
          if idx = of_char (CHR ''d'')
          then rbind (slot args) (\<lambda>(a, args).
               rbind (minus_sign (neg64 a) m str) (\<lambda>(m, str).
               rbind (itoa m (abs64 a) str 10) (next_idx format args)))
          else if idx = of_char (CHR ''x'')
          then rbind (slot args) (\<lambda>(a, args). rbind (itoa m (unat a) str 16) (next_idx format args))
          else Inr (m, str, format, idx, args))
     else if idx = of_char (CHR ''s'')
     then rbind (slot args) (\<lambda>(a, args).
          rbind (strcpy m str (unat a)) (\<lambda>(_, m).
          rbind (strlen m (unat a)) (\<lambda>len. next_idx format args (m, str + len))))
     else if idx = of_char (CHR ''c'')
     then rbind (slot args) (\<lambda>(a, args).
          rbind (st m str (ucast a)) (\<lambda>m. next_idx format args (m, Suc str)))
     else if idx = of_char (CHR ''d'')
     then rbind (slot args) (\<lambda>(a, args).
          rbind (minus_sign (neg32 a) m str) (\<lambda>(m, str).
          rbind (itoa m (abs32 a) str 10) (next_idx format args)))
     else if idx = of_char (CHR ''x'')
     then rbind (slot args) (\<lambda>(a, args). rbind (itoa m (hex32 a) str 16) (next_idx format args))
     else Inr (m, str, format, idx, args))"

lemma rbind_Inr: "rbind r f = Inr y \<longleftrightarrow> (\<exists>x. r = Inr x \<and> f x = Inr y)"
  by (cases r) simp_all

lemma st_length: "st m p b = Inr m' \<Longrightarrow> length m' = length m"
  by (auto simp: st_def split: if_splits)

lemma next_idx_props:
  "next_idx format args (m1, str) = Inr (m', str', format', idx', args') \<Longrightarrow>
   m' = m1 \<and> format' = Suc format \<and> Suc format < length m1"
  by (auto simp: next_idx_def ld_def rbind_Inr split: if_splits)

lemma conversion_progress:
  assumes "conversion m str format args = Inr (m', str', format', idx', args')"
  shows "length m' = length m \<and> format < format' \<and> format' < length m"
  using assms unfolding conversion_def Let_def
  by (auto simp: rbind_Inr slot_def minus_sign_def strcpy_def ld_def split: if_splits list.splits
      dest!: next_idx_props itoa_length st_length length_strcpy)

function vsprintf_loop :: "mem \<Rightarrow> nat \<Rightarrow> nat \<Rightarrow> u8 \<Rightarrow> u64 list \<Rightarrow> (mem \<times> nat) res" where
  "vsprintf_loop m str format idx args =
     (if idx = 0 then Inr (m, str)
      else if idx \<noteq> of_char (CHR ''%'')
      then rbind (st m str idx) (\<lambda>m.
           rbind (ld m (Suc format)) (\<lambda>idx.
           vsprintf_loop m (Suc str) (Suc format) idx args))
      else rbind (conversion m str format args) (\<lambda>(m, str, format, idx, args).
           vsprintf_loop m str format idx args))"
  by pat_completeness auto
termination
  by (relation "measure (\<lambda>(m, str, format, idx, args). length m - format)")
    (auto simp: ld_def split: if_splits dest!: st_length conversion_progress)

declare vsprintf_loop.simps [simp del]

definition vsprintf :: "mem \<Rightarrow> nat \<Rightarrow> nat \<Rightarrow> u64 list \<Rightarrow> (nat \<times> mem) res" where
  "vsprintf m str format args =
     rbind (ld m format) (\<lambda>idx.
     rbind (vsprintf_loop m str format idx args) (\<lambda>(m, str').
     rbind (st m str' 0) (\<lambda>m.
     rbind (strlen m str) (\<lambda>len. Inr (len, m)))))"

section \<open>The specification\<close>

text \<open>The digits of a number.\<close>

function digits :: "nat \<Rightarrow> nat \<Rightarrow> u8 list" where
  "digits base n = (if base < 2 then [] else (if n div base \<noteq> 0 then digits base (n div base) else []) @ [digit_char (n mod base)])"
  by pat_completeness auto
termination
proof (relation "measure snd", goal_cases)
  case (2 base n)
  then have "0 < n" by (cases n) auto
  then show ?case using 2 by (simp add: not_less)
qed simp

declare digits.simps [simp del]

definition digit_value :: "u8 \<Rightarrow> nat" where
  "digit_value b = (if b < 58 then unat b - 48 else unat b - 55)"

definition number :: "nat \<Rightarrow> u8 list \<Rightarrow> nat" where
  "number base = foldl (\<lambda>n b. base * n + digit_value b) 0"

lemma digit_value_all: "list_all (\<lambda>m. digit_value (digit_char m) = m) [0..<16]"
  by code_simp

lemma digit_value_char: "m < 16 \<Longrightarrow> digit_value (digit_char m) = m"
  using digit_value_all by (simp add: list_all_iff)

text \<open>Reading the digits gives the number back.\<close>

lemma number_digits: "2 \<le> base \<Longrightarrow> base \<le> 16 \<Longrightarrow> number base (digits base n) = n"
proof (induction base n rule: digits.induct)
  case (1 base n)
  have "n mod base < base" using "1.prems" by simp
  then have "n mod base < 16" using "1.prems" by linarith
  then have d: "digit_value (digit_char (n mod base)) = n mod base" by (rule digit_value_char)
  show ?case
  proof (cases "n div base = 0")
    case True
    then have "n mod base = n" using "1.prems" by (metis add_0 div_mult_mod_eq mult_zero_left)
    then show ?thesis using True "1.prems" d by (subst digits.simps) (simp add: number_def)
  next
    case False
    then have "number base (digits base (n div base)) = n div base" using 1 by simp
    then show ?thesis using False "1.prems" d by (subst digits.simps) (simp add: number_def)
  qed
qed

text \<open>What a conversion prints: \<open>S\<close> gives the string at an address. The result is the output, the rest of the format
  and the rest of the arguments.\<close>

definition signed_digits :: "bool \<Rightarrow> nat \<Rightarrow> u8 list" where
  "signed_digits neg n = (if neg then [45] else []) @ digits 10 n"

definition conv_arg ::
  "u64 list \<Rightarrow> u8 list \<Rightarrow> (u64 \<Rightarrow> u8 list option) \<Rightarrow> (u8 list \<times> u8 list \<times> u64 list) option" where
  "conv_arg args rest out = (case args of [] \<Rightarrow> None | a # args \<Rightarrow>
     (case out a of None \<Rightarrow> None | Some out \<Rightarrow> Some (out, rest, args)))"

definition conv ::
  "(nat \<Rightarrow> u8 list option) \<Rightarrow> u8 list \<Rightarrow> u64 list \<Rightarrow> (u8 list \<times> u8 list \<times> u64 list) option" where
  "conv S f args =
     (case f of
        [] \<Rightarrow> Some ([], [], args)
      | k # f' \<Rightarrow>
          if k = of_char (CHR ''l'')
          then (case f' of
                  [] \<Rightarrow> Some ([], [], args)
                | j # f'' \<Rightarrow>
                    if j = of_char (CHR ''d'') then conv_arg args f'' (\<lambda>a. Some (signed_digits (neg64 a) (abs64 a)))
                    else if j = of_char (CHR ''x'') then conv_arg args f'' (\<lambda>a. Some (digits 16 (unat a)))
                    else Some ([], f', args))
          else if k = of_char (CHR ''s'') then conv_arg args f' (\<lambda>a. S (unat a))
          else if k = of_char (CHR ''c'') then conv_arg args f' (\<lambda>a. Some [ucast a])
          else if k = of_char (CHR ''d'') then conv_arg args f' (\<lambda>a. Some (signed_digits (neg32 a) (abs32 a)))
          else if k = of_char (CHR ''x'') then conv_arg args f' (\<lambda>a. Some (digits 16 (hex32 a)))
          else Some ([], f, args))"

lemma conv_shorter: "conv S f args = Some (out, f', args') \<Longrightarrow> length f' \<le> length f"
  by (auto simp: conv_def conv_arg_def split: list.splits option.splits if_splits)

function render :: "(nat \<Rightarrow> u8 list option) \<Rightarrow> u8 list \<Rightarrow> u64 list \<Rightarrow> u8 list option" where
  "render S [] args = Some []"
| "render S (c # f) args =
     (if c \<noteq> of_char (CHR ''%'') then map_option (Cons c) (render S f args)
      else case conv S f args of
             None \<Rightarrow> None
           | Some (out, f', args') \<Rightarrow> map_option (append out) (render S f' args'))"
  by pat_completeness auto
termination by (relation "measure (\<lambda>(S, f, args). length f)") (auto simp: less_Suc_eq_le dest: conv_shorter)

section \<open>Writing output\<close>

text \<open>\<open>out\<close> is written at \<open>p\<close>; the byte after it may be touched too, by the zero that \<^verbatim>\<open>strcpy\<close> writes.\<close>

definition writes :: "mem \<Rightarrow> nat \<Rightarrow> u8 list \<Rightarrow> mem \<Rightarrow> bool" where
  "writes m p out m' \<longleftrightarrow> length m' = length m \<and> (\<forall>k < length out. m' ! (p + k) = out ! k) \<and>
     (\<forall>i < length m. i < p \<or> p + length out < i \<longrightarrow> m' ! i = m ! i)"

lemma writes_Nil [simp]: "writes m p [] m"
  by (simp add: writes_def)

lemma writes_append:
  assumes "writes m p a m1" "writes m1 (p + length a) b m2" "p + length a \<le> length m"
  shows "writes m p (a @ b) m2"
proof -
  have "m2 ! (p + k) = (a @ b) ! k" if "k < length a + length b" for k
  proof (cases "k < length a")
    case True
    then show ?thesis using assms by (simp add: writes_def nth_append)
  next
    case False
    then have "k - length a < length b" using that by simp
    then have "m2 ! (p + length a + (k - length a)) = b ! (k - length a)" using assms(2) unfolding writes_def by blast
    then show ?thesis using False by (simp add: nth_append)
  qed
  then show ?thesis using assms by (auto simp: writes_def)
qed

lemma writes_byte: "p < length m \<Longrightarrow> writes m p [b] (m[p := b])"
  by (auto simp: writes_def nth_list_update)

lemma writes_cstr:
  assumes "writes m p out m'" "cstr m q xs" "q + length xs < p \<or> p + length out < q"
  shows "cstr m' q xs"
  using assms(2)
proof (rule cstr_frame)
  show "length m' = length m" using assms(1) by (simp add: writes_def)
  show "m' ! i = m ! i" if "q \<le> i" "i \<le> q + length xs" for i
    using assms(1,3) that cstr_bound[OF assms(2)] by (auto simp: writes_def)
qed

lemma itoa_ok:
  assumes "2 \<le> base" "buf + length (digits base v) \<le> length m"
  shows "\<exists>m'. itoa m v buf base = Inr (m', buf + length (digits base v)) \<and> writes m buf (digits base v) m'"
  using assms
proof (induction base v rule: digits.induct)
  case (1 base n)
  let ?pre = "if n div base \<noteq> 0 then digits base (n div base) else []"
  have d: "digits base n = ?pre @ [digit_char (n mod base)]"
    using "1.prems"(1) by (subst digits.simps) simp
  have "\<exists>m1. (if n div base \<noteq> 0 then itoa m (n div base) buf base else Inr (m, buf)) = Inr (m1, buf + length ?pre)
      \<and> writes m buf ?pre m1"
    using "1.IH" "1.prems" d by auto
  then obtain m1 where m1: "(if n div base \<noteq> 0 then itoa m (n div base) buf base else Inr (m, buf)) = Inr (m1, buf + length ?pre)"
      "writes m buf ?pre m1" by blast
  have len: "buf + length ?pre < length m1" using "1.prems"(2) m1(2) d by (simp add: writes_def)
  have w: "writes m buf (digits base n) (m1[buf + length ?pre := digit_char (n mod base)])"
    unfolding d by (rule writes_append[OF m1(2) writes_byte[OF len]]) (use len m1(2) in \<open>simp add: writes_def\<close>)
  have "itoa m n buf base = Inr (m1[buf + length ?pre := digit_char (n mod base)], buf + length (digits base n))"
    using "1.prems"(1) m1(1) len d by (subst itoa.simps) (simp add: st_def)
  then show ?case using w by blast
qed

lemma signed_ok:
  assumes "buf + length (signed_digits neg v) \<le> length m"
  shows "\<exists>m'. rbind (minus_sign neg m buf) (\<lambda>(m, str). itoa m v str 10) = Inr (m', buf + length (signed_digits neg v))
     \<and> writes m buf (signed_digits neg v) m'"
proof (cases neg)
  case False
  then show ?thesis using assms itoa_ok[of 10 buf v m] by (simp add: signed_digits_def minus_sign_def)
next
  case True
  then have l: "buf < length m" "Suc buf + length (digits 10 v) \<le> length (m[buf := 45])"
    using assms by (auto simp: signed_digits_def)
  obtain m' where m': "itoa (m[buf := 45]) v (Suc buf) 10 = Inr (m', Suc buf + length (digits 10 v))"
      "writes (m[buf := 45]) (Suc buf) (digits 10 v) m'"
    using itoa_ok[OF _ l(2)] by auto
  have "writes m buf ([45] @ digits 10 v) m'" using writes_append[OF writes_byte[OF l(1)]] m'(2) l(1) by simp
  then show ?thesis using True m'(1) l(1) by (simp add: signed_digits_def minus_sign_def st_def)
qed

text \<open>\<open>strs S m lo hi\<close>: the strings \<open>S\<close> speaks of are in memory, outside the output.\<close>

definition strs :: "(nat \<Rightarrow> u8 list option) \<Rightarrow> mem \<Rightarrow> nat \<Rightarrow> nat \<Rightarrow> bool" where
  "strs S m lo hi \<longleftrightarrow> (\<forall>p xs. S p = Some xs \<longrightarrow> cstr m p xs \<and> (p + length xs < lo \<or> hi \<le> p))"

lemma strs_writes:
  assumes "strs S m lo hi" "writes m lo out m'" "lo + length out < hi"
  shows "strs S m' (lo + length out) hi"
  using assms(1,3) writes_cstr[OF assms(2)] unfolding strs_def by force

lemma strcpy_writes:
  assumes "cstr m q xs" "p + length xs < length m" "q + length xs < p \<or> p + length xs < q"
  shows "\<exists>m'. strcpy m p q = Inr (p, m') \<and> writes m p xs m' \<and> strlen m' q = Inr (length xs)"
proof -
  obtain m' where m': "strcpy_loop m p q = Inr m'" "length m' = length m"
      "\<forall>i < length m. m' ! i = (if p \<le> i \<and> i \<le> p + length xs then (xs @ [0]) ! (i - p) else m ! i)"
    using strcpy_loop_ok[OF assms(1,2)] assms(3) by auto
  then have w: "writes m p xs m'" using assms(2) by (auto simp: writes_def nth_append)
  have "cstr m' q xs" using writes_cstr[OF w assms(1,3)] .
  then show ?thesis using m'(1) w by (auto simp: strcpy_def strlen_ok)
qed

text \<open>A format \<open>f\<close> stands at \<open>q\<close>, outside the output that starts at \<open>lo\<close> and ends below \<open>hi\<close>.\<close>

definition fmt_at :: "mem \<Rightarrow> nat \<Rightarrow> u8 list \<Rightarrow> nat \<Rightarrow> nat \<Rightarrow> bool" where
  "fmt_at m q f lo hi \<longleftrightarrow> cstr m q f \<and> (q + length f < lo \<or> hi \<le> q)"

lemma fmt_at_writes:
  assumes "fmt_at m q f lo hi" "writes m lo out m'" "lo + length out < hi"
  shows "fmt_at m' q f (lo + length out) hi"
  using assms(1,3) writes_cstr[OF assms(2)] by (force simp: fmt_at_def)

lemma fmt_at_tl: "fmt_at m q (c # f) lo hi \<Longrightarrow> fmt_at m (Suc q) f lo hi"
  by (auto simp: fmt_at_def)

lemma fmt_at_ld: "fmt_at m q f lo hi \<Longrightarrow> ld m q = Inr (hd (f @ [0]))"
  by (cases f) (auto simp: fmt_at_def ld_def)

lemma fmt_at_chars: "fmt_at m q f lo hi \<Longrightarrow> 0 \<notin> set f"
  by (auto simp: fmt_at_def dest: cstr_nonzero)

text \<open>What a conversion does once its argument is printed.\<close>

definition converted :: "mem \<Rightarrow> nat \<Rightarrow> nat \<Rightarrow> u8 list \<Rightarrow> u8 list \<Rightarrow> u64 list \<Rightarrow>
    (mem \<times> nat \<times> nat \<times> u8 \<times> u64 list) res \<Rightarrow> bool" where
  "converted m lo hi out f args r \<longleftrightarrow> (\<exists>m' q'. r = Inr (m', lo + length out, q', hd (f @ [0]), args) \<and>
     writes m lo out m' \<and> fmt_at m' q' f (lo + length out) hi)"

lemma next_idx_converted:
  assumes "fmt_at m q (c # f) lo hi" "writes m lo out m'" "lo + length out < hi"
  shows "converted m lo hi out f args (next_idx q args (m', lo + length out))"
proof -
  have f: "fmt_at m' (Suc q) f (lo + length out) hi"
    using fmt_at_writes[OF fmt_at_tl[OF assms(1)] assms(2,3)] .
  then show ?thesis using fmt_at_ld[OF f] assms(2) by (auto simp: converted_def next_idx_def)
qed

lemma itoa_converted:
  assumes "fmt_at m q (c # f) lo hi" "2 \<le> base" "lo + length (digits base v) < hi" "hi \<le> length m"
  shows "converted m lo hi (digits base v) f args (rbind (itoa m v lo base) (next_idx q args))"
  using itoa_ok[of base lo v m] next_idx_converted[OF assms(1) _ assms(3)] assms by auto

lemma signed_converted:
  assumes "fmt_at m q (c # f) lo hi" "lo + length (signed_digits neg v) < hi" "hi \<le> length m"
  shows "converted m lo hi (signed_digits neg v) f args
     (rbind (minus_sign neg m lo) (\<lambda>(m, str). rbind (itoa m v str 10) (next_idx q args)))"
proof -
  obtain m' where m': "rbind (minus_sign neg m lo) (\<lambda>(m, str). itoa m v str 10) = Inr (m', lo + length (signed_digits neg v))"
      "writes m lo (signed_digits neg v) m'" using signed_ok[of lo neg v m] assms by auto
  have "rbind (minus_sign neg m lo) (\<lambda>(m, str). rbind (itoa m v str 10) (next_idx q args)) =
      next_idx q args (m', lo + length (signed_digits neg v))"
    using m'(1) by (auto simp: rbind_Inr)
  then show ?thesis using next_idx_converted[OF assms(1) m'(2) assms(2)] by simp
qed

lemma string_converted:
  assumes "fmt_at m q (c # f) lo hi" "strs S m lo hi" "S p = Some xs" "lo + length xs < hi" "hi \<le> length m"
  shows "converted m lo hi xs f args
     (rbind (strcpy m lo p) (\<lambda>(_, m). rbind (strlen m p) (\<lambda>len. next_idx q args (m, lo + len))))"
proof -
  have "cstr m p xs" "p + length xs < lo \<or> lo + length xs < p" using assms unfolding strs_def by force+
  then obtain m' where "strcpy m lo p = Inr (lo, m')" "writes m lo xs m'" "strlen m' p = Inr (length xs)"
    using strcpy_writes[of m p xs lo] assms(4,5) by auto
  then show ?thesis using next_idx_converted[OF assms(1) _ assms(4)] by simp
qed

lemma char_converted:
  assumes "fmt_at m q (c # f) lo hi" "Suc lo < hi" "hi \<le> length m"
  shows "converted m lo hi [b] f args (rbind (st m lo b) (\<lambda>m. next_idx q args (m, Suc lo)))"
  using next_idx_converted[OF assms(1) writes_byte[of lo m b]] assms by (simp add: st_def)

lemma nothing_converted:
  "fmt_at m q f lo hi \<Longrightarrow> converted m lo hi [] f args (Inr (m, lo, q, hd (f @ [0]), args))"
  by (auto simp: converted_def)

lemma conversion_ok:
  assumes "conv S f args = Some (out, f', args')" "fmt_at m q (p # f) lo hi" "strs S m lo hi"
    "lo + length out < hi" "hi \<le> length m"
  shows "converted m lo hi out f' args' (conversion m lo q args)"
proof -
  note f = fmt_at_tl[OF assms(2)]
  note simps = conversion_def conv_def conv_arg_def fmt_at_ld[OF f] slot_def Let_def
  show ?thesis
  proof (cases f)
    case Nil
    then show ?thesis using assms(1) nothing_converted[OF f] by (simp add: simps)
  next
    case (Cons k g)
    note fk = f[unfolded Cons]
    show ?thesis
    proof (cases "k = of_char (CHR ''l'')")
      case True
      note g = fmt_at_tl[OF fk]
      show ?thesis
      proof (cases g)
        case Nil
        then show ?thesis using assms(1) True Cons nothing_converted[OF g] fmt_at_ld[OF g] by (simp add: simps)
      next
        case (Cons j h)
        then show ?thesis
          using assms(1,4,5) True \<open>f = k # g\<close> nothing_converted[OF g] fmt_at_ld[OF g]
            signed_converted[OF g[unfolded Cons]] itoa_converted[OF g[unfolded Cons], of 16]
          by (auto simp: simps split: list.splits if_splits)
      qed
    next
      case False
      then show ?thesis
        using assms(1,4,5) Cons nothing_converted[OF f] string_converted[OF fk assms(3)] char_converted[OF fk]
          signed_converted[OF fk] itoa_converted[OF fk, of 16]
        by (auto simp: simps split: list.splits if_splits option.splits)
    qed
  qed
qed

lemma writes_byte_append:
  assumes "p < length m" "writes (m[p := b]) (Suc p) out m'"
  shows "writes m p (b # out) m'"
  using writes_append[OF writes_byte[of p m b], of out m'] assms by simp

lemma vsprintf_loop_ok:
  assumes "render S f args = Some out" "fmt_at m q f lo hi" "strs S m lo hi" "lo + length out < hi" "hi \<le> length m"
  shows "\<exists>m'. vsprintf_loop m lo q (hd (f @ [0])) args = Inr (m', lo + length out) \<and> writes m lo out m'"
  using assms
proof (induction S f args arbitrary: m q lo out rule: render.induct)
  case (1 S args)
  then show ?case by (subst vsprintf_loop.simps) simp
next
  case (2 S c f args)
  have c: "c \<noteq> 0" using fmt_at_chars[OF "2.prems"(2)] by auto
  show ?case
  proof (cases "c = of_char (CHR ''%'')")
    case False
    then obtain o' where o: "out = c # o'" "render S f args = Some o'" using "2.prems"(1) by auto
    have w: "writes m lo [c] (m[lo := c])" using "2.prems"(4,5) by (intro writes_byte) simp
    have f: "fmt_at (m[lo := c]) (Suc q) f (Suc lo) hi"
      using fmt_at_writes[OF fmt_at_tl[OF "2.prems"(2)] w] "2.prems"(4) o(1) by simp
    have "strs S (m[lo := c]) (Suc lo) hi" using strs_writes[OF "2.prems"(3) w] "2.prems"(4) o(1) by simp
    then obtain m' where "vsprintf_loop (m[lo := c]) (Suc lo) (Suc q) (hd (f @ [0])) args = Inr (m', Suc lo + length o')"
        "writes (m[lo := c]) (Suc lo) o' m'"
      using "2.IH"(1)[OF False o(2) f] "2.prems"(4,5) o(1) by auto
    then show ?thesis
      using c False o(1) "2.prems"(4,5) fmt_at_ld[OF f] writes_byte_append[of lo m c o' m']
      by (subst vsprintf_loop.simps) (simp add: st_def)
  next
    case True
    then obtain a f' args' o' where o: "conv S f args = Some (a, f', args')" "render S f' args' = Some o'" "out = a @ o'"
      using "2.prems"(1) by (auto split: option.splits)
    have "converted m lo hi a f' args' (conversion m lo q args)"
      using conversion_ok[OF o(1) "2.prems"(2,3) _ "2.prems"(5)] "2.prems"(4) o(3) by simp
    then obtain m1 q' where m1: "conversion m lo q args = Inr (m1, lo + length a, q', hd (f' @ [0]), args')"
        "writes m lo a m1" "fmt_at m1 q' f' (lo + length a) hi"
      by (auto simp: converted_def)
    have "strs S m1 (lo + length a) hi" "length m1 = length m"
      using strs_writes[OF "2.prems"(3) m1(2)] "2.prems"(4) o(3) m1(2) by (auto simp: writes_def)
    then obtain m' where "vsprintf_loop m1 (lo + length a) q' (hd (f' @ [0])) args' = Inr (m', lo + length a + length o')"
        "writes m1 (lo + length a) o' m'"
      using "2.IH"(2)[of "(a, f', args')" a "(f', args')" f' args' o' m1 q' "lo + length a"] True o m1 "2.prems"(4,5) by auto
    then show ?thesis
      using True m1 o(3) writes_append[OF m1(2)] "2.prems"(4,5) by (subst vsprintf_loop.simps) (simp add: add.assoc)
  qed
qed

section \<open>Properties\<close>

text \<open>C17. \<^verbatim>\<open>vsprintf\<close> implements the formatting specification: whenever the format, the strings named by the arguments
  and the output buffer are apart and the buffer has room, it returns, writes exactly the text \<open>C18. render\<close> prescribes
  followed by a zero, changes no byte outside, and returns the length of the text up to its first zero.\<close>

theorem vsprintf_renders:
  assumes "cstr m format f" "format + length f < str \<or> str + room \<le> format"
    and "\<forall>p xs. S p = Some xs \<longrightarrow> cstr m p xs \<and> (p + length xs < str \<or> str + room \<le> p)"
    and "render S f args = Some out" "length out < room" "str + room \<le> length m"
  shows "\<exists>m'. vsprintf m str format args = Inr (length (takeWhile (\<lambda>b. b \<noteq> 0) out), m') \<and>
     bytes m' str (Suc (length out)) = out @ [0] \<and> length m' = length m \<and>
     (\<forall>i < length m. i < str \<or> str + length out < i \<longrightarrow> m' ! i = m ! i)"
proof -
  have f: "fmt_at m format f str (str + room)" "strs S m str (str + room)"
    using assms(1-3) by (auto simp: fmt_at_def strs_def)
  obtain m1 where m1: "vsprintf_loop m str format (hd (f @ [0])) args = Inr (m1, str + length out)" "writes m str out m1"
    using vsprintf_loop_ok[OF assms(4) f] assms(5,6) by auto
  let ?m = "m1[str + length out := 0]" and ?xs = "takeWhile (\<lambda>b. b \<noteq> 0) out"
  have len: "length ?m = length m" "str + length out < length m" using m1(2) assms(5,6) by (auto simp: writes_def)
  have nth: "?m ! (str + k) = (out @ [0]) ! k" if "k \<le> length out" for k
    using m1(2) that len by (cases "k = length out") (auto simp: writes_def nth_append nth_list_update)
  have x: "length ?xs \<le> length out" by (rule length_takeWhile_le)
  have "cstr ?m str ?xs"
  proof (rule cstr_nth)
    show "0 \<notin> set ?xs" by (auto dest: set_takeWhileD)
    show "str + length ?xs < length ?m" using x len by simp
    show "?m ! (str + i) = (?xs @ [0]) ! i" if i: "i \<le> length ?xs" for i
    proof (cases "i < length ?xs")
      case True
      then show ?thesis using nth[of i] x by (simp add: nth_append takeWhile_nth)
    next
      case False
      then have "(out @ [0]) ! i = 0" using i nth_length_takeWhile[of "\<lambda>b. b \<noteq> 0" out] x by (cases "i < length out") (auto simp: nth_append)
      moreover have "i = length ?xs" "i \<le> length out" using False i x by auto
      ultimately show ?thesis using nth[of i] by simp
    qed
  qed
  then have "strlen ?m str = Inr (length ?xs)" by (rule strlen_ok)
  moreover have "bytes ?m str (Suc (length out)) = out @ [0]"
    using nth len by (intro nth_equalityI) (auto simp: length_bytes nth_bytes)
  ultimately show ?thesis
    using m1 fmt_at_ld[OF f(1)] len by (auto simp: vsprintf_def st_def writes_def)
qed

definition demo_text :: "char list \<Rightarrow> u8 list" where "demo_text = map of_char"

definition demo_mem :: mem where
  "demo_mem = demo_text ''%s=%d %lx'' @ [0] @ demo_text ''ab'' @ [0] @ replicate 20 1"

theorem vsprintf_renders_witness:
  "\<exists>m'. vsprintf demo_mem 13 0 [10, -5, 255] = Inr (8, m') \<and>
     bytes m' 13 9 = demo_text ''ab=-5 FF'' @ [0]"
proof -
  define S where "S = (\<lambda>p::nat. if p = 10 then Some (demo_text ''ab'') else None)"
  have "render S (demo_text ''%s=%d %lx'') [10, -5, 255] = Some (demo_text ''ab=-5 FF'')"
    unfolding S_def by code_simp
  moreover have "cstr demo_mem 0 (demo_text ''%s=%d %lx'')" "cstr demo_mem 10 (demo_text ''ab'')" by code_simp+
  moreover have "length (demo_text ''%s=%d %lx'') = 9" "length (demo_text ''ab=-5 FF'') = 8" "length demo_mem = 33"
      "length (demo_text ''ab'') = 2" "length (takeWhile (\<lambda>b. b \<noteq> 0) (demo_text ''ab=-5 FF'')) = 8" by code_simp+
  moreover have "\<forall>p xs. S p = Some xs \<longrightarrow> cstr demo_mem p xs \<and> (p + length xs < 13 \<or> 13 + 20 \<le> p)"
    using calculation by (simp add: S_def)
  ultimately show ?thesis
    using vsprintf_renders[of demo_mem 0 "demo_text ''%s=%d %lx''" 13 20 S "[10, -5, 255]" "demo_text ''ab=-5 FF''"]
    by (simp del: split_paired_All) blast
qed

text \<open>Reading the text of a number back gives the number: \<^verbatim>\<open>itoa\<close> in any base up to 16 writes digits, and their
  value in that base is the number it was given.\<close>

theorem itoa_roundtrip:
  assumes "2 \<le> base" "base \<le> 16" "buf + length (digits base v) \<le> length m"
  shows "\<exists>m' buf'. itoa m v buf base = Inr (m', buf') \<and> number base (bytes m' buf (buf' - buf)) = v"
proof -
  obtain m' where m': "itoa m v buf base = Inr (m', buf + length (digits base v))" "writes m buf (digits base v) m'"
    using itoa_ok[OF assms(1,3)] by blast
  have "bytes m' buf (length (digits base v)) = digits base v"
    using m'(2) assms(3) by (intro nth_equalityI) (auto simp: writes_def length_bytes nth_bytes)
  then show ?thesis using m'(1) number_digits[OF assms(1,2)] by auto
qed

theorem itoa_roundtrip_witness:
  "\<exists>m' buf'. itoa (replicate 8 0) 2024 1 16 = Inr (m', buf') \<and> number 16 (bytes m' 1 (buf' - 1)) = 2024"
proof -
  have "length (digits 16 2024) = 3" by code_simp
  then show ?thesis using itoa_roundtrip[of 16 1 2024 "replicate 8 0"] by simp
qed

end
