(* ===== verification/DList.thy ===== *)
theory DList
  imports Prelude
begin

text \<open>
  The intrusive doubly linked list of \<^verbatim>\<open>lib/list.h\<close> and \<^verbatim>\<open>lib/list.c\<close>, on which the
  scheduler, the semaphores, the block allocator and the inode cache are built.

  The memory that holds the \<^verbatim>\<open>struct list_elem\<close> objects is a heap from element pointers
  \<open>'p\<close> to their two fields; \<^verbatim>\<open>NULL\<close> is \<open>None\<close>. A \<^verbatim>\<open>struct list\<close> is the pair of the pointers
  to its embedded \<^verbatim>\<open>head\<close> and \<^verbatim>\<open>tail\<close> elements. \<open>dlist h l xs\<close> says that the list \<open>l\<close> is well
  formed in \<open>h\<close> and holds the elements \<open>xs\<close> in order; every operation is shown to be the
  corresponding operation on \<open>xs\<close>, and to leave every element outside the list alone.
\<close>

section \<open>The code\<close>

record 'p list_elem =
  e_prev :: "'p option"
  e_next :: "'p option"

record 'p list_struct =
  l_head :: 'p
  l_tail :: 'p

type_synonym 'p heap = "'p \<Rightarrow> 'p list_elem"

text \<open>Reads and writes of a field through a pointer that may be \<^verbatim>\<open>NULL\<close>.\<close>

definition rd_prev :: "'p heap \<Rightarrow> 'p option \<Rightarrow> 'p option res" where
  "rd_prev h p = (case p of None \<Rightarrow> Inl NullDeref | Some a \<Rightarrow> Inr (e_prev (h a)))"

definition rd_next :: "'p heap \<Rightarrow> 'p option \<Rightarrow> 'p option res" where
  "rd_next h p = (case p of None \<Rightarrow> Inl NullDeref | Some a \<Rightarrow> Inr (e_next (h a)))"

definition wr_prev :: "'p heap \<Rightarrow> 'p option \<Rightarrow> 'p option \<Rightarrow> 'p heap res" where
  "wr_prev h p v = (case p of None \<Rightarrow> Inl NullDeref | Some a \<Rightarrow> Inr (h(a := (h a)\<lparr>e_prev := v\<rparr>)))"

definition wr_next :: "'p heap \<Rightarrow> 'p option \<Rightarrow> 'p option \<Rightarrow> 'p heap res" where
  "wr_next h p v = (case p of None \<Rightarrow> Inl NullDeref | Some a \<Rightarrow> Inr (h(a := (h a)\<lparr>e_next := v\<rparr>)))"

definition andthen :: "'a res \<Rightarrow> ('a \<Rightarrow> 'b res) \<Rightarrow> 'b res" where
  "andthen r f = (case r of Inl e \<Rightarrow> Inl e | Inr x \<Rightarrow> f x)"

lemma andthen_simps [simp]: "andthen (Inl e) f = Inl e" "andthen (Inr x) f = f x"
  by (simp_all add: andthen_def)

definition list_init :: "'p heap \<Rightarrow> 'p list_struct \<Rightarrow> 'p heap" where
  "list_init h l =
     (let h = h(l_head l := (h (l_head l))\<lparr>e_prev := None\<rparr>);
          h = h(l_head l := (h (l_head l))\<lparr>e_next := Some (l_tail l)\<rparr>);
          h = h(l_tail l := (h (l_tail l))\<lparr>e_prev := Some (l_head l)\<rparr>)
      in h(l_tail l := (h (l_tail l))\<lparr>e_next := None\<rparr>))"

definition list_empty :: "'p heap \<Rightarrow> 'p list_struct \<Rightarrow> bool" where
  "list_empty h l \<longleftrightarrow> e_next (h (l_head l)) = Some (l_tail l)"

definition list_insert_before :: "'p heap \<Rightarrow> 'p option \<Rightarrow> 'p \<Rightarrow> 'p heap res" where
  "list_insert_before h pelem inserted =
     andthen (wr_next h (Some inserted) pelem) (\<lambda>h.
     andthen (rd_prev h pelem) (\<lambda>before.
     andthen (wr_prev h (Some inserted) before) (\<lambda>h.
     andthen (rd_prev h pelem) (\<lambda>before.
     andthen (wr_next h before (Some inserted)) (\<lambda>h.
     wr_prev h pelem (Some inserted))))))"

definition list_remove :: "'p heap \<Rightarrow> 'p option \<Rightarrow> 'p heap res" where
  "list_remove h pelem =
     andthen (rd_prev h pelem) (\<lambda>before.
     andthen (rd_next h pelem) (\<lambda>after.
     andthen (wr_next h before after) (\<lambda>h.
     andthen (rd_next h pelem) (\<lambda>after.
     andthen (rd_prev h pelem) (\<lambda>before.
     wr_prev h after before)))))"

definition list_push :: "'p heap \<Rightarrow> 'p list_struct \<Rightarrow> 'p \<Rightarrow> 'p heap res" where
  "list_push h l pelem = list_insert_before h (e_next (h (l_head l))) pelem"

definition list_append :: "'p heap \<Rightarrow> 'p list_struct \<Rightarrow> 'p \<Rightarrow> 'p heap res" where
  "list_append h l pelem = list_insert_before h (Some (l_tail l)) pelem"

text \<open>\<^verbatim>\<open>list_pop\<close> returns the pointer it read before the removal.\<close>

definition list_pop :: "'p heap \<Rightarrow> 'p list_struct \<Rightarrow> ('p option \<times> 'p heap) res" where
  "list_pop h l =
     (let pelem = e_next (h (l_head l))
      in andthen (list_remove h (e_next (h (l_head l)))) (\<lambda>h. Inr (pelem, h)))"

text \<open>The two loops over a list; \<open>None\<close> is the loop that does not end.\<close>

partial_function (option) elem_find_from ::
  "'p heap \<Rightarrow> 'p list_struct \<Rightarrow> 'p \<Rightarrow> 'p option \<Rightarrow> bool res option" where
  "elem_find_from h l pelem ielem =
     (if ielem = Some (l_tail l) then Some (Inr False)
      else if ielem = Some pelem then Some (Inr True)
      else (case ielem of None \<Rightarrow> Some (Inl NullDeref)
            | Some a \<Rightarrow> elem_find_from h l pelem (e_next (h a))))"

definition elem_find :: "'p heap \<Rightarrow> 'p list_struct \<Rightarrow> 'p \<Rightarrow> bool res" where
  "elem_find h l pelem =
     (case elem_find_from h l pelem (e_next (h (l_head l))) of
        None \<Rightarrow> Inl Diverges | Some r \<Rightarrow> r)"

partial_function (option) list_traversal_from ::
  "'p heap \<Rightarrow> 'p list_struct \<Rightarrow> ('p \<Rightarrow> bool) \<Rightarrow> 'p option \<Rightarrow> 'p option res option" where
  "list_traversal_from h l func elem =
     (if elem = Some (l_tail l) then Some (Inr None)
      else (case elem of None \<Rightarrow> Some (Inl NullDeref)
            | Some a \<Rightarrow> if func a then Some (Inr (Some a))
                        else list_traversal_from h l func (e_next (h a))))"

definition list_traversal :: "'p heap \<Rightarrow> 'p list_struct \<Rightarrow> ('p \<Rightarrow> bool) \<Rightarrow> 'p option res" where
  "list_traversal h l func =
     (case list_traversal_from h l func (e_next (h (l_head l))) of
        None \<Rightarrow> Inl Diverges | Some r \<Rightarrow> r)"

lemmas list_ops_defs = list_insert_before_def list_remove_def rd_prev_def rd_next_def
  wr_prev_def wr_next_def

section \<open>The list a heap holds\<close>

fun linked :: "'p heap \<Rightarrow> 'p list \<Rightarrow> bool" where
  "linked h (x # y # zs) \<longleftrightarrow>
     e_next (h x) = Some y \<and> e_prev (h y) = Some x \<and> linked h (y # zs)"
| "linked h _ \<longleftrightarrow> True"

abbreviation chain :: "'p list_struct \<Rightarrow> 'p list \<Rightarrow> 'p list" where
  "chain l xs \<equiv> l_head l # xs @ [l_tail l]"

definition dlist :: "'p heap \<Rightarrow> 'p list_struct \<Rightarrow> 'p list \<Rightarrow> bool" where
  "dlist h l xs \<longleftrightarrow> distinct (chain l xs) \<and> linked h (chain l xs) \<and>
     e_prev (h (l_head l)) = None \<and> e_next (h (l_tail l)) = None"

lemma in_set_tlD: "x \<in> set (tl xs) \<Longrightarrow> x \<in> set xs"
  by (cases xs) auto

lemma linked_append:
  "linked h (xs @ a # ys) \<longleftrightarrow> linked h (xs @ [a]) \<and> linked h (a # ys)"
proof (induction xs)
  case (Cons x xs)
  then show ?case by (cases xs) auto
qed simp

lemma linked_cong:
  assumes "\<And>x. x \<in> set (butlast xs) \<Longrightarrow> e_next (h' x) = e_next (h x)"
    and "\<And>x. x \<in> set (tl xs) \<Longrightarrow> e_prev (h' x) = e_prev (h x)"
  shows "linked h' xs = linked h xs"
  using assms by (induction h xs rule: linked.induct) auto

lemma linked_upd_other: "a \<notin> set xs \<Longrightarrow> linked (h(a := e)) xs = linked h xs"
  by (rule linked_cong) (auto dest: in_set_butlastD in_set_tlD)

lemma dlist_frame:
  assumes "dlist h l xs" and "\<And>x. x \<in> set (chain l xs) \<Longrightarrow> h' x = h x"
  shows "dlist h' l xs"
proof -
  have "linked h' (chain l xs) = linked h (chain l xs)"
    by (rule linked_cong) (use assms(2) in \<open>auto simp: butlast_append\<close>)
  then show ?thesis using assms by (simp add: dlist_def)
qed

lemma dlist_unique:
  assumes "dlist h l xs" and "dlist h l ys"
  shows "xs = ys"
proof -
  have "\<lbrakk>linked h (a # xs @ [t]); linked h (a # ys @ [t]); t \<notin> set xs; t \<notin> set ys\<rbrakk> \<Longrightarrow> xs = ys"
    for a t
  proof (induction xs arbitrary: a ys)
    case Nil
    then show ?case by (cases ys) auto
  next
    case (Cons x xs)
    then show ?case by (cases ys) auto
  qed
  then show ?thesis using assms by (auto simp: dlist_def)
qed

section \<open>What each operation does to the list\<close>

lemma list_insert_before_eq:
  assumes "a \<noteq> b" "n \<noteq> a" "n \<noteq> b" "e_prev (h b) = Some a"
  shows "list_insert_before h (Some b) n =
    Inr (h(n := (h n)\<lparr>e_next := Some b, e_prev := Some a\<rparr>,
           a := (h a)\<lparr>e_next := Some n\<rparr>,
           b := (h b)\<lparr>e_prev := Some n\<rparr>))"
  using assms by (auto simp: list_ops_defs fun_eq_iff)

lemma list_remove_eq:
  assumes "a \<noteq> x" "x \<noteq> b" "a \<noteq> b" "e_prev (h x) = Some a" "e_next (h x) = Some b"
  shows "list_remove h (Some x) =
    Inr (h(a := (h a)\<lparr>e_next := Some b\<rparr>, b := (h b)\<lparr>e_prev := Some a\<rparr>))"
  using assms by (auto simp: list_ops_defs fun_eq_iff)

lemma linked_splice:
  assumes "linked h (us @ a # b # vs)" "distinct (us @ a # b # vs)" "n \<notin> set (us @ a # b # vs)"
    and h': "h' = h(n := (h n)\<lparr>e_next := Some b, e_prev := Some a\<rparr>,
           a := (h a)\<lparr>e_next := Some n\<rparr>, b := (h b)\<lparr>e_prev := Some n\<rparr>)"
  shows "linked h' (us @ a # n # b # vs)"
proof -
  have ab: "linked h (us @ [a])" "linked h (b # vs)"
    using assms(1) by (auto simp: linked_append[of h us a "b # vs"])
  have "linked h' (us @ [a]) = linked h (us @ [a])"
    by (rule linked_cong) (use assms(2,3) in \<open>auto simp: h' dest: in_set_tlD\<close>)
  moreover have "linked h' (b # vs) = linked h (b # vs)"
    by (rule linked_cong) (use assms(2,3) in \<open>auto simp: h' simp del: butlast.simps dest: in_set_butlastD\<close>)
  ultimately have "linked h' (us @ [a])" "linked h' (b # vs)" using ab by auto
  moreover have "e_next (h' a) = Some n" "e_prev (h' n) = Some a"
      "e_next (h' n) = Some b" "e_prev (h' b) = Some n"
    using assms(2,3) by (auto simp: h')
  ultimately show ?thesis by (simp add: linked_append[of h' us a "n # b # vs"])
qed

lemma linked_unsplice:
  assumes "linked h (us @ a # x # b # vs)" "distinct (us @ a # x # b # vs)"
    and h': "h' = h(a := (h a)\<lparr>e_next := Some b\<rparr>, b := (h b)\<lparr>e_prev := Some a\<rparr>)"
  shows "linked h' (us @ a # b # vs)"
proof -
  have ab: "linked h (us @ [a])" "linked h (b # vs)"
    using assms(1) by (auto simp: linked_append[of h us a "x # b # vs"])
  have "linked h' (us @ [a]) = linked h (us @ [a])"
    by (rule linked_cong) (use assms(2) in \<open>auto simp: h' dest: in_set_tlD\<close>)
  moreover have "linked h' (b # vs) = linked h (b # vs)"
    by (rule linked_cong) (use assms(2) in \<open>auto simp: h' simp del: butlast.simps dest: in_set_butlastD\<close>)
  ultimately have "linked h' (us @ [a])" "linked h' (b # vs)" using ab by auto
  moreover have "e_next (h' a) = Some b" "e_prev (h' b) = Some a"
    using assms(2) by (auto simp: h')
  ultimately show ?thesis by (simp add: linked_append[of h' us a "b # vs"])
qed

text \<open>Two heaps that differ on the elements \<open>S\<close> at most.\<close>

definition agree_off :: "'p set \<Rightarrow> ('p \<Rightarrow> 'e) \<Rightarrow> ('p \<Rightarrow> 'e) \<Rightarrow> bool" where
  "agree_off S h h' \<longleftrightarrow> (\<forall>x. x \<notin> S \<longrightarrow> h' x = h x)"

lemma agree_offD: "agree_off S h h' \<Longrightarrow> x \<notin> S \<Longrightarrow> h' x = h x"
  by (simp add: agree_off_def)

lemma agree_off_trans:
  "agree_off S h h' \<Longrightarrow> agree_off T h' h'' \<Longrightarrow> agree_off (S \<union> T) h h''"
  by (simp add: agree_off_def)

lemma agree_off_mono: "agree_off S h h' \<Longrightarrow> S \<subseteq> T \<Longrightarrow> agree_off T h h'"
  by (auto simp: agree_off_def)

lemma insert_between:
  assumes dl: "dlist h l (xs @ ys)" and n: "n \<notin> set (chain l (xs @ ys))"
  shows "\<exists>h'. list_insert_before h (Some (hd (ys @ [l_tail l]))) n = Inr h' \<and>
    dlist h' l (xs @ n # ys) \<and> agree_off (set (chain l (xs @ n # ys))) h h'"
proof -
  define us where "us = butlast (l_head l # xs)"
  define a where "a = last (l_head l # xs)"
  define b where "b = hd (ys @ [l_tail l])"
  define vs where "vs = tl (ys @ [l_tail l])"
  have front: "l_head l # xs = us @ [a]" unfolding us_def a_def by simp
  have rear: "ys @ [l_tail l] = b # vs" unfolding b_def vs_def by simp
  have ch: "chain l (xs @ ys) = us @ a # b # vs" using front rear by simp
  have ch': "chain l (xs @ n # ys) = us @ a # n # b # vs" using front rear by simp
  define h' where "h' = h(n := (h n)\<lparr>e_next := Some b, e_prev := Some a\<rparr>,
           a := (h a)\<lparr>e_next := Some n\<rparr>, b := (h b)\<lparr>e_prev := Some n\<rparr>)"
  have d: "distinct (us @ a # b # vs)" and lk: "linked h (us @ a # b # vs)"
    using dl unfolding dlist_def ch by blast+
  have nn: "n \<notin> set (us @ a # b # vs)" using n unfolding ch by blast
  have "e_prev (h b) = Some a" using lk by (simp add: linked_append[of h us a "b # vs"])
  then have "list_insert_before h (Some b) n = Inr h'"
    unfolding h'_def using d nn by (intro list_insert_before_eq) auto
  moreover have "linked h' (chain l (xs @ n # ys))"
    unfolding ch' by (rule linked_splice[OF lk d nn h'_def])
  moreover have "distinct (chain l (xs @ n # ys))" unfolding ch' using d nn by auto
  moreover have "e_prev (h' (l_head l)) = None" "e_next (h' (l_tail l)) = None"
    using dl n d ch by (auto simp: dlist_def h'_def a_def b_def hd_append)
  moreover have "agree_off (set (chain l (xs @ n # ys))) h h'"
    unfolding ch' by (auto simp: agree_off_def h'_def)
  ultimately show ?thesis by (auto simp: dlist_def b_def)
qed

lemma remove_between:
  assumes dl: "dlist h l (xs @ x # ys)"
  shows "\<exists>h'. list_remove h (Some x) = Inr h' \<and> dlist h' l (xs @ ys) \<and>
    agree_off (set (chain l (xs @ ys))) h h'"
proof -
  define us where "us = butlast (l_head l # xs)"
  define a where "a = last (l_head l # xs)"
  define b where "b = hd (ys @ [l_tail l])"
  define vs where "vs = tl (ys @ [l_tail l])"
  have front: "l_head l # xs = us @ [a]" unfolding us_def a_def by simp
  have rear: "ys @ [l_tail l] = b # vs" unfolding b_def vs_def by simp
  have ch: "chain l (xs @ x # ys) = us @ a # x # b # vs" using front rear by simp
  have ch': "chain l (xs @ ys) = us @ a # b # vs" using front rear by simp
  define h' where "h' = h(a := (h a)\<lparr>e_next := Some b\<rparr>, b := (h b)\<lparr>e_prev := Some a\<rparr>)"
  have d: "distinct (us @ a # x # b # vs)" and lk: "linked h (us @ a # x # b # vs)"
    using dl unfolding dlist_def ch by blast+
  have "e_prev (h x) = Some a" "e_next (h x) = Some b"
    using lk by (simp_all add: linked_append[of h us a "x # b # vs"])
  then have "list_remove h (Some x) = Inr h'"
    unfolding h'_def using d by (intro list_remove_eq) auto
  moreover have "linked h' (chain l (xs @ ys))"
    unfolding ch' by (rule linked_unsplice[OF lk d h'_def])
  moreover have "distinct (chain l (xs @ ys))" unfolding ch' using d by auto
  moreover have "e_prev (h' (l_head l)) = None" "e_next (h' (l_tail l)) = None"
    using dl d ch by (auto simp: dlist_def h'_def a_def b_def hd_append)
  moreover have "agree_off (set (chain l (xs @ ys))) h h'"
    unfolding ch' by (auto simp: agree_off_def h'_def)
  ultimately show ?thesis by (auto simp: dlist_def)
qed

lemma dlist_first: "dlist h l xs \<Longrightarrow> e_next (h (l_head l)) = Some (hd (xs @ [l_tail l]))"
  by (cases xs) (auto simp: dlist_def)

lemma list_init_dlist:
  assumes "l_head l \<noteq> l_tail l"
  shows "dlist (list_init h l) l [] \<and> agree_off {l_head l, l_tail l} h (list_init h l)"
  using assms by (auto simp: dlist_def list_init_def agree_off_def)

lemma list_empty_iff: "dlist h l xs \<Longrightarrow> list_empty h l \<longleftrightarrow> xs = []"
  by (cases xs) (auto simp: list_empty_def dlist_def)

lemma list_push_dlist:
  assumes "dlist h l xs" "n \<notin> set (chain l xs)"
  shows "\<exists>h'. list_push h l n = Inr h' \<and> dlist h' l (n # xs) \<and>
    agree_off (set (chain l (n # xs))) h h'"
  using insert_between[of h l "[]" xs n] assms by (simp add: list_push_def dlist_first)

lemma list_append_dlist:
  assumes "dlist h l xs" "n \<notin> set (chain l xs)"
  shows "\<exists>h'. list_append h l n = Inr h' \<and> dlist h' l (xs @ [n]) \<and>
    agree_off (set (chain l (xs @ [n]))) h h'"
  using insert_between[of h l xs "[]" n] assms by (simp add: list_append_def)

lemma list_pop_dlist:
  assumes "dlist h l (x # xs)"
  shows "\<exists>h'. list_pop h l = Inr (Some x, h') \<and> dlist h' l xs \<and>
    agree_off (set (chain l xs)) h h'"
  using remove_between[of h l "[]" x xs] assms
  by (auto simp: list_pop_def Let_def dlist_first[OF assms])

section \<open>The loops end, with the right answer\<close>

lemma elem_find_from_linked:
  assumes "linked h (x # ys @ [l_tail l])" "l_tail l \<notin> set ys"
  shows "elem_find_from h l p (e_next (h x)) = Some (Inr (p \<in> set ys))"
  using assms
proof (induction ys arbitrary: x)
  case Nil
  then show ?case by (simp add: elem_find_from.simps)
next
  case (Cons y ys)
  then show ?case by (auto simp: elem_find_from.simps[of h l p "Some y"])
qed

lemma list_traversal_from_linked:
  assumes "linked h (x # ys @ [l_tail l])" "l_tail l \<notin> set ys"
  shows "list_traversal_from h l f (e_next (h x)) = Some (Inr (List.find f ys))"
  using assms
proof (induction ys arbitrary: x)
  case Nil
  then show ?case by (simp add: list_traversal_from.simps)
next
  case (Cons y ys)
  then show ?case by (auto simp: list_traversal_from.simps[of h l f "Some y"])
qed

lemma elem_find_dlist: "dlist h l xs \<Longrightarrow> elem_find h l p = Inr (p \<in> set xs)"
  using elem_find_from_linked[of h "l_head l" xs l p] by (simp add: elem_find_def dlist_def)

lemma list_traversal_dlist: "dlist h l xs \<Longrightarrow> list_traversal h l f = Inr (List.find f xs)"
  using list_traversal_from_linked[of h "l_head l" xs l f]
  by (simp add: list_traversal_def dlist_def)

section \<open>The interface the kernel's lists are used through\<close>

text \<open>
  \<open>holds h l xs\<close> is the contents of the list \<open>l\<close>, \<open>ends l\<close> the elements that belong to the list
  itself. Every operation changes the elements of its list only.
\<close>

locale elem_list =
  fixes holds :: "('p \<Rightarrow> 'e) \<Rightarrow> 'l \<Rightarrow> 'p list \<Rightarrow> bool"
    and ends :: "'l \<Rightarrow> 'p set"
    and push :: "('p \<Rightarrow> 'e) \<Rightarrow> 'l \<Rightarrow> 'p \<Rightarrow> ('p \<Rightarrow> 'e) res"
    and append :: "('p \<Rightarrow> 'e) \<Rightarrow> 'l \<Rightarrow> 'p \<Rightarrow> ('p \<Rightarrow> 'e) res"
    and pop :: "('p \<Rightarrow> 'e) \<Rightarrow> 'l \<Rightarrow> ('p option \<times> ('p \<Rightarrow> 'e)) res"
    and remove :: "('p \<Rightarrow> 'e) \<Rightarrow> 'p option \<Rightarrow> ('p \<Rightarrow> 'e) res"
    and find :: "('p \<Rightarrow> 'e) \<Rightarrow> 'l \<Rightarrow> 'p \<Rightarrow> bool res"
  assumes push_law: "holds h l xs \<Longrightarrow> n \<notin> ends l \<union> set xs \<Longrightarrow>
      \<exists>h'. push h l n = Inr h' \<and> holds h' l (n # xs) \<and> agree_off (ends l \<union> insert n (set xs)) h h'"
    and append_law: "holds h l xs \<Longrightarrow> n \<notin> ends l \<union> set xs \<Longrightarrow>
      \<exists>h'. append h l n = Inr h' \<and> holds h' l (xs @ [n]) \<and> agree_off (ends l \<union> insert n (set xs)) h h'"
    and pop_law: "holds h l (x # xs) \<Longrightarrow>
      \<exists>h'. pop h l = Inr (Some x, h') \<and> holds h' l xs \<and> agree_off (ends l \<union> set xs) h h'"
    and remove_law: "holds h l (xs @ x # ys) \<Longrightarrow>
      \<exists>h'. remove h (Some x) = Inr h' \<and> holds h' l (xs @ ys) \<and> agree_off (ends l \<union> set (xs @ ys)) h h'"
    and find_law: "holds h l xs \<Longrightarrow> find h l p = Inr (p \<in> set xs)"
    and frame_law: "holds h l xs \<Longrightarrow> (\<And>x. x \<in> ends l \<union> set xs \<Longrightarrow> h' x = h x) \<Longrightarrow> holds h' l xs"
    and holds_ok: "holds h l xs \<Longrightarrow> distinct xs \<and> ends l \<inter> set xs = {}"
begin

lemma agree_holds:
  assumes "holds h l xs" "agree_off S h h'" "S \<inter> (ends l \<union> set xs) = {}"
  shows "holds h' l xs"
  using assms by (blast intro: frame_law dest: agree_offD)

lemma append_pop:
  assumes "holds h l []" "n \<notin> ends l"
  shows "\<exists>h1 h2. append h l n = Inr h1 \<and> pop h1 l = Inr (Some n, h2) \<and> holds h2 l []"
proof -
  obtain h1 where "append h l n = Inr h1" "holds h1 l [n]"
    using append_law[OF assms(1)] assms(2) by auto
  with pop_law[of h1 l n "[]"] show ?thesis by auto
qed

lemma push_pop:
  assumes "holds h l xs" "n \<notin> ends l \<union> set xs"
  shows "\<exists>h1 h2. push h l n = Inr h1 \<and> pop h1 l = Inr (Some n, h2) \<and> holds h2 l xs"
proof -
  obtain h1 where "push h l n = Inr h1" "holds h1 l (n # xs)"
    using push_law[OF assms] by auto
  with pop_law[of h1 l n xs] show ?thesis by auto
qed

text \<open>The first element of one list becomes the first of another; both stay lists.\<close>

lemma pop_push_move:
  assumes "holds h l (x # xs)" "holds h m ys"
    and disj: "(ends l \<union> set (x # xs)) \<inter> (ends m \<union> set ys) = {}"
  shows "\<exists>h1 h2. pop h l = Inr (Some x, h1) \<and> push h1 m x = Inr h2 \<and>
    holds h2 l xs \<and> holds h2 m (x # ys) \<and>
    agree_off (ends l \<union> ends m \<union> set (x # xs) \<union> set ys) h h2"
proof -
  obtain h1 where h1: "pop h l = Inr (Some x, h1)" "holds h1 l xs"
      "agree_off (ends l \<union> set xs) h h1"
    using pop_law[OF assms(1)] by auto
  have "holds h1 m ys"
    using assms(2) h1(3) disj by (rule_tac agree_holds) auto
  then obtain h2 where h2: "push h1 m x = Inr h2" "holds h2 m (x # ys)"
      "agree_off (ends m \<union> insert x (set ys)) h1 h2"
    using push_law[of h1 m ys x] disj by auto
  have x: "x \<notin> ends l \<union> set xs" using holds_ok[OF assms(1)] by auto
  then have "holds h2 l xs"
    using h1(2) h2(3) disj by (rule_tac agree_holds) auto
  moreover have "agree_off (ends l \<union> ends m \<union> set (x # xs) \<union> set ys) h h2"
    by (rule agree_off_mono[OF agree_off_trans[OF h1(3) h2(3)]]) auto
  ultimately show ?thesis using h1 h2 by blast
qed

end

interpretation dl: elem_list dlist "\<lambda>l. {l_head l, l_tail l}"
  list_push list_append list_pop list_remove elem_find
proof (unfold_locales, goal_cases)
  case (1 h l xs n)
  then show ?case using list_push_dlist[of h l xs n] by (auto simp: insert_commute)
next
  case (2 h l xs n)
  then show ?case using list_append_dlist[of h l xs n] by (auto simp: insert_commute)
next
  case (3 h l x xs)
  then show ?case using list_pop_dlist[of h l x xs] by (auto simp: insert_commute)
next
  case (4 h l xs x ys)
  then show ?case using remove_between[of h l xs x ys] by (auto simp: insert_commute)
next
  case (5 h l xs p)
  then show ?case by (rule elem_find_dlist)
next
  case (6 h l xs h')
  then show ?case by (intro dlist_frame[OF 6(1)]) auto
next
  case (7 h l xs)
  then show ?case by (auto simp: dlist_def)
qed

section \<open>Properties\<close>

text \<open>C13. The four updates of \<^verbatim>\<open>lib/list.c\<close> are the list operations they are named after: on a
  well formed list that holds \<open>xs @ x # ys\<close> and a node \<open>n\<close> outside it, \<^verbatim>\<open>list_push\<close> puts \<open>n\<close>
  first, \<^verbatim>\<open>list_append\<close> last, \<^verbatim>\<open>list_insert_before\<close> right before \<open>x\<close>, and \<^verbatim>\<open>list_remove\<close> takes
  \<open>x\<close> out, without touching any element outside the list.\<close>

theorem list_updates_refine:
  assumes "dlist h l (xs @ x # ys)" "n \<notin> set (chain l (xs @ x # ys))"
  shows "(\<exists>h'. list_push h l n = Inr h' \<and> dlist h' l (n # xs @ x # ys) \<and>
            agree_off (set (chain l (n # xs @ x # ys))) h h') \<and>
         (\<exists>h'. list_append h l n = Inr h' \<and> dlist h' l (xs @ x # ys @ [n]) \<and>
            agree_off (set (chain l (xs @ x # ys @ [n]))) h h') \<and>
         (\<exists>h'. list_insert_before h (Some x) n = Inr h' \<and> dlist h' l (xs @ n # x # ys) \<and>
            agree_off (set (chain l (xs @ n # x # ys))) h h') \<and>
         (\<exists>h'. list_remove h (Some x) = Inr h' \<and> dlist h' l (xs @ ys) \<and>
            agree_off (set (chain l (xs @ ys))) h h')"
  using list_push_dlist[OF assms] list_append_dlist[OF assms]
    insert_between[OF assms(1), of n] assms(2) remove_between[OF assms(1)]
  by simp

text \<open>A two-element list, built by the code from uninitialised memory.\<close>

definition demo_list :: "nat list_struct" where
  "demo_list = \<lparr>l_head = 0, l_tail = 1\<rparr>"

definition demo_heap :: "nat heap" where
  "demo_heap = (case list_append (list_init (\<lambda>_. \<lparr>e_prev = None, e_next = None\<rparr>) demo_list) demo_list 2
     of Inl _ \<Rightarrow> undefined | Inr h \<Rightarrow>
       (case list_append h demo_list 3 of Inl _ \<Rightarrow> undefined | Inr h' \<Rightarrow> h'))"

lemma demo_heap_dlist: "dlist demo_heap demo_list ([2] @ 3 # [])"
  by (simp add: demo_heap_def demo_list_def list_init_def list_append_def list_ops_defs dlist_def)

theorem list_updates_refine_witness:
  "\<exists>h'. list_remove demo_heap (Some 3) = Inr h' \<and> dlist h' demo_list [2]"
  using list_updates_refine[OF demo_heap_dlist, of 4] by (auto simp: demo_list_def)

text \<open>C16. \<^verbatim>\<open>elem_find\<close> and \<^verbatim>\<open>list_traversal\<close> end on every well formed list, without a \<^verbatim>\<open>NULL\<close>
  access: the first says whether the element is in the list, the second returns the first
  element the callback accepts, or \<^verbatim>\<open>NULL\<close>.\<close>

theorem list_searches_terminate:
  assumes "dlist h l xs"
  shows "elem_find h l p = Inr (p \<in> set xs) \<and> list_traversal h l f = Inr (List.find f xs)"
  using assms by (simp add: elem_find_dlist list_traversal_dlist)

theorem list_searches_terminate_witness:
  "elem_find demo_heap demo_list 3 = Inr True \<and> list_traversal demo_heap demo_list odd = Inr (Some 3)"
  using list_searches_terminate[OF demo_heap_dlist] by simp

text \<open>\<^verbatim>\<open>list_pop\<close> hands back the elements in the order of the list: what was pushed last comes
  out first, and what was appended to an empty list comes out of it.\<close>

theorem list_pop_order:
  assumes "dlist h l xs" "n \<notin> {l_head l, l_tail l} \<union> set xs"
  shows "(\<exists>h1 h2. list_push h l n = Inr h1 \<and> list_pop h1 l = Inr (Some n, h2) \<and> dlist h2 l xs) \<and>
    (xs = [] \<longrightarrow> (\<exists>h1 h2. list_append h l n = Inr h1 \<and> list_pop h1 l = Inr (Some n, h2) \<and> dlist h2 l []))"
  using dl.push_pop[OF assms] dl.append_pop[of h l n] assms by auto

theorem list_pop_order_witness:
  "\<exists>h1 h2. list_push demo_heap demo_list 4 = Inr h1 \<and> list_pop h1 demo_list = Inr (Some 4, h2) \<and>
     dlist h2 demo_list [2, 3]"
  using list_pop_order[OF demo_heap_dlist, of 4] by (simp add: demo_list_def)

end
