(* ===== verification/Bitmap.thy ===== *)
theory Bitmap
  imports Prelude
begin

text \<open>
  The bitmap of \<^verbatim>\<open>lib/bitmap.h\<close> and \<^verbatim>\<open>lib/bitmap.c\<close>, from which the two memory pools and the
  pid pool allocate.

  \<^verbatim>\<open>bits\<close> is the array the \<^verbatim>\<open>bits\<close> pointer leads to; an access outside it is \<open>OutOfBounds\<close>.
  Indices are natural numbers: a \<^verbatim>\<open>size_t\<close> index wraps only after it has left every array.
\<close>

unbundle bit_operations_syntax

section \<open>The code\<close>

record bitmap =
  bytes_len :: nat
  bits :: "u8 list"

definition bitmap_init :: "bitmap \<Rightarrow> bitmap res" where
  "bitmap_init btmp =
     (if bytes_len btmp \<le> length (bits btmp)
      then Inr (btmp\<lparr>bits := replicate (bytes_len btmp) 0 @ drop (bytes_len btmp) (bits btmp)\<rparr>)
      else Inl OutOfBounds)"

definition bitmap_read :: "bitmap \<Rightarrow> nat \<Rightarrow> u8 res" where
  "bitmap_read btmp idx =
     (let bit_idx = idx mod 8; byte_idx = idx div 8
      in if byte_idx < length (bits btmp)
         then Inr (drop_bit bit_idx (bits btmp ! byte_idx) AND 1)
         else Inl OutOfBounds)"

definition bitmap_set :: "bitmap \<Rightarrow> nat \<Rightarrow> u8 \<Rightarrow> bitmap res" where
  "bitmap_set btmp idx value =
     (if \<not> (value = 0 \<or> value = 1) then Inl AssertFail
      else let bit_idx = idx mod 8; byte_idx = idx div 8
      in if byte_idx < length (bits btmp)
         then Inr (if value \<noteq> 0
           then btmp\<lparr>bits := (bits btmp)[byte_idx := bits btmp ! byte_idx OR push_bit bit_idx 1]\<rparr>
           else btmp\<lparr>bits := (bits btmp)[byte_idx := bits btmp ! byte_idx AND NOT (push_bit bit_idx 1)]\<rparr>)
         else Inl OutOfBounds)"

text \<open>\<^verbatim>\<open>for (; j != cnt; ++j) if (1 == bitmap_read(btmp, i + j)) break;\<close>\<close>

function scan_run :: "bitmap \<Rightarrow> nat \<Rightarrow> nat \<Rightarrow> nat \<Rightarrow> nat res" where
  "scan_run btmp i cnt j =
     (if j = cnt then Inr j
      else (case bitmap_read btmp (i + j) of
              Inl e \<Rightarrow> Inl e
            | Inr b \<Rightarrow> if b = 1 then Inr j else scan_run btmp i cnt (Suc j)))"
  by pat_completeness auto
termination
  by (relation "measure (\<lambda>(btmp, i, cnt, j). 8 * length (bits btmp) - (i + j))")
    (auto simp: bitmap_read_def Let_def split: if_splits)

text \<open>\<^verbatim>\<open>for (k = 0; k != cnt; ++k) bitmap_set(btmp, i + k, 1);\<close>\<close>

fun set_run :: "bitmap \<Rightarrow> nat \<Rightarrow> nat \<Rightarrow> nat \<Rightarrow> bitmap res" where
  "set_run btmp i k 0 = Inr btmp"
| "set_run btmp i k (Suc n) =
     (case bitmap_set btmp (i + k) 1 of
        Inl e \<Rightarrow> Inl e | Inr btmp' \<Rightarrow> set_run btmp' i (Suc k) n)"

text \<open>The outer loop from \<open>i\<close> on; \<^verbatim>\<open>i += j\<close> is followed by the loop's own \<^verbatim>\<open>++i\<close>.\<close>

function alloc_from :: "bitmap \<Rightarrow> nat \<Rightarrow> nat \<Rightarrow> (int \<times> bitmap) res" where
  "alloc_from btmp cnt i =
     (if i < 8 * bytes_len btmp
      then (case bitmap_read btmp i of
              Inl e \<Rightarrow> Inl e
            | Inr b \<Rightarrow>
                if b = 0
                then (case scan_run btmp i cnt 1 of
                        Inl e \<Rightarrow> Inl e
                      | Inr j \<Rightarrow>
                          if j = cnt
                          then (case set_run btmp i 0 cnt of
                                  Inl e \<Rightarrow> Inl e | Inr btmp' \<Rightarrow> Inr (int i, btmp'))
                          else alloc_from btmp cnt (Suc (i + j)))
                else alloc_from btmp cnt (Suc i))
      else Inr (-1, btmp))"
  by pat_completeness auto
termination
  by (relation "measure (\<lambda>(btmp, cnt, i). 8 * bytes_len btmp - i)") auto

definition bitmap_alloc :: "bitmap \<Rightarrow> nat \<Rightarrow> (int \<times> bitmap) res" where
  "bitmap_alloc btmp cnt = alloc_from btmp cnt 0"

declare scan_run.simps [simp del] alloc_from.simps [simp del]

section \<open>The set of bits a bitmap holds\<close>

abbreviation nbits :: "bitmap \<Rightarrow> nat" where
  "nbits btmp \<equiv> 8 * length (bits btmp)"

definition bit_at :: "bitmap \<Rightarrow> nat \<Rightarrow> bool" where
  "bit_at btmp i = bit (bits btmp ! (i div 8)) (i mod 8)"

definition used :: "bitmap \<Rightarrow> nat set" where
  "used btmp = {i. i < nbits btmp \<and> bit_at btmp i}"

definition bitmap_wf :: "bitmap \<Rightarrow> bool" where
  "bitmap_wf btmp \<longleftrightarrow> bytes_len btmp = length (bits btmp)"

definition free_run :: "bitmap \<Rightarrow> nat \<Rightarrow> nat \<Rightarrow> bool" where
  "free_run btmp cnt i \<longleftrightarrow> i + cnt \<le> nbits btmp \<and> {i..<i + cnt} \<inter> used btmp = {}"

lemma drop_bit_and_1: "drop_bit n (w :: u8) AND 1 = of_bool (bit w n)"
  by (simp add: and_one_eq mod_2_eq_odd bit_iff_odd_drop_bit)

lemma bitmap_read_eq:
  "bitmap_read btmp i = (if i < nbits btmp then Inr (of_bool (bit_at btmp i)) else Inl OutOfBounds)"
proof -
  have "i div 8 < length (bits btmp) \<longleftrightarrow> i < nbits btmp" by auto
  then show ?thesis by (simp add: bitmap_read_def Let_def drop_bit_and_1 bit_at_def)
qed

lemma in_used: "i \<in> used btmp \<longleftrightarrow> i < nbits btmp \<and> bit_at btmp i"
  by (simp add: used_def)

lemma bitmap_set_ok:
  assumes "i < nbits btmp" "v = 0 \<or> v = 1"
  shows "\<exists>btmp'. bitmap_set btmp i v = Inr btmp' \<and> bytes_len btmp' = bytes_len btmp \<and>
    length (bits btmp') = length (bits btmp) \<and>
    used btmp' = (if v = 1 then insert i (used btmp) else used btmp - {i})"
proof -
  have i: "i div 8 < length (bits btmp)" using assms(1) by auto
  have div_mod: "j = i \<longleftrightarrow> j div 8 = i div 8 \<and> j mod 8 = i mod 8" for j :: nat
    by (metis div_mult_mod_eq)
  define btmp' where "btmp' = (if v \<noteq> 0
    then btmp\<lparr>bits := (bits btmp)[i div 8 := bits btmp ! (i div 8) OR push_bit (i mod 8) 1]\<rparr>
    else btmp\<lparr>bits := (bits btmp)[i div 8 := bits btmp ! (i div 8) AND NOT (push_bit (i mod 8) 1)]\<rparr>)"
  have "bitmap_set btmp i v = Inr btmp'"
    using assms i by (auto simp: bitmap_set_def btmp'_def Let_def)
  moreover have "bit_at btmp' j = (if j = i then v = 1 else bit_at btmp j)" if "j < nbits btmp" for j
  proof -
    have "j div 8 < length (bits btmp)" using that by auto
    then show ?thesis
      using assms(2) i div_mod[of j]
      by (auto simp: btmp'_def bit_at_def nth_list_update bit_simps)
  qed
  moreover have "length (bits btmp') = length (bits btmp)" "bytes_len btmp' = bytes_len btmp"
    by (simp_all add: btmp'_def)
  ultimately show ?thesis
    using assms by (intro exI[of _ btmp']) (auto simp: used_def split: if_splits)
qed

section \<open>The two inner loops\<close>

lemma scan_run_Inr:
  assumes "scan_run btmp i cnt j = Inr m" "j \<le> cnt"
  shows "j \<le> m \<and> m \<le> cnt \<and> (\<forall>k. j \<le> k \<and> k < m \<longrightarrow> i + k < nbits btmp \<and> \<not> bit_at btmp (i + k)) \<and>
    (m \<noteq> cnt \<longrightarrow> i + m < nbits btmp \<and> bit_at btmp (i + m))"
  using assms
proof (induction btmp i cnt j rule: scan_run.induct)
  case (1 btmp i cnt j)
  show ?case
  proof (cases "j = cnt \<or> i + j < nbits btmp \<and> bit_at btmp (i + j)")
    case True
    with "1.prems" show ?thesis
      by (auto simp: scan_run.simps[of btmp i cnt j] bitmap_read_eq split: if_splits)
  next
    case False
    then have step: "i + j < nbits btmp" "\<not> bit_at btmp (i + j)" "j < cnt"
        "scan_run btmp i cnt (Suc j) = Inr m"
      using "1.prems" by (auto simp: scan_run.simps[of btmp i cnt j] bitmap_read_eq split: if_splits)
    have rd: "bitmap_read btmp (i + j) = Inr 0" using step(1,2) by (simp add: bitmap_read_eq)
    have IH: "Suc j \<le> m \<and> m \<le> cnt \<and>
        (\<forall>k. Suc j \<le> k \<and> k < m \<longrightarrow> i + k < nbits btmp \<and> \<not> bit_at btmp (i + k)) \<and>
        (m \<noteq> cnt \<longrightarrow> i + m < nbits btmp \<and> bit_at btmp (i + m))"
      by (rule "1.IH"[OF _ rd _ step(4)]) (use step(3) in auto)
    moreover have "i + k < nbits btmp \<and> \<not> bit_at btmp (i + k)" if "j \<le> k" "k < m" for k
      using IH step(1,2) that by (cases "k = j") auto
    ultimately show ?thesis using Suc_leD by blast
  qed
qed

lemma scan_run_Inl:
  assumes "scan_run btmp i cnt j = Inl e" "j \<le> cnt"
  shows "e = OutOfBounds \<and> nbits btmp < i + cnt \<and>
    (\<forall>k. i + j \<le> k \<and> k < nbits btmp \<longrightarrow> \<not> bit_at btmp k)"
  using assms
proof (induction btmp i cnt j rule: scan_run.induct)
  case (1 btmp i cnt j)
  show ?case
  proof (cases "i + j < nbits btmp")
    case False
    with "1.prems" show ?thesis
      by (auto simp: scan_run.simps[of btmp i cnt j] bitmap_read_eq split: if_splits)
  next
    case True
    then have step: "\<not> bit_at btmp (i + j)" "j \<noteq> cnt" "scan_run btmp i cnt (Suc j) = Inl e"
      using "1.prems" by (auto simp: scan_run.simps[of btmp i cnt j] bitmap_read_eq split: if_splits)
    then have "e = OutOfBounds \<and> nbits btmp < i + cnt \<and>
        (\<forall>k. i + Suc j \<le> k \<and> k < nbits btmp \<longrightarrow> \<not> bit_at btmp k)"
      using "1.IH"[of 0] True "1.prems" by (simp add: bitmap_read_eq)
    moreover have "k = i + j \<or> i + Suc j \<le> k" if "i + j \<le> k" for k using that by auto
    ultimately show ?thesis using step(1) by auto
  qed
qed

lemma set_run_ok:
  assumes "i + k + n \<le> nbits btmp"
  shows "\<exists>btmp'. set_run btmp i k n = Inr btmp' \<and> bytes_len btmp' = bytes_len btmp \<and>
    length (bits btmp') = length (bits btmp) \<and> used btmp' = used btmp \<union> {i + k..<i + k + n}"
  using assms
proof (induction n arbitrary: k btmp)
  case (Suc n)
  obtain b1 where b1: "bitmap_set btmp (i + k) 1 = Inr b1" "bytes_len b1 = bytes_len btmp"
      "length (bits b1) = length (bits btmp)" "used b1 = insert (i + k) (used btmp)"
    using bitmap_set_ok[of "i + k" btmp 1] Suc.prems by auto
  obtain b2 where b2: "set_run b1 i (Suc k) n = Inr b2" "bytes_len b2 = bytes_len b1"
      "length (bits b2) = length (bits b1)" "used b2 = used b1 \<union> {i + Suc k..<i + Suc k + n}"
    using Suc.IH[of "Suc k" b1] Suc.prems b1 by auto
  note b2(4)
  moreover have "{i + k..<i + k + Suc n} = insert (i + k) {i + Suc k..<i + Suc k + n}" by auto
  ultimately have "used b2 = used btmp \<union> {i + k..<i + k + Suc n}" using b1(4) by blast
  then show ?case using b1 b2 by simp
qed simp

section \<open>First fit\<close>

text \<open>
  What \<^verbatim>\<open>bitmap_alloc\<close> does in every case. When no run of \<open>cnt\<close> clear bits lies inside the map it
  returns \<^verbatim>\<open>-1\<close> only if the last bit is set: otherwise the scan runs past the end of \<^verbatim>\<open>bits\<close>.
\<close>

definition alloc_result :: "bitmap \<Rightarrow> nat \<Rightarrow> (int \<times> bitmap) res \<Rightarrow> bool" where
  "alloc_result btmp cnt r \<longleftrightarrow>
     (if \<exists>i. free_run btmp cnt i
      then \<exists>i btmp'. r = Inr (int i, btmp') \<and> free_run btmp cnt i \<and>
             (\<forall>i' < i. \<not> free_run btmp cnt i') \<and>
             used btmp' = used btmp \<union> {i..<i + cnt} \<and>
             bytes_len btmp' = bytes_len btmp \<and> length (bits btmp') = length (bits btmp)
      else if nbits btmp = 0 \<or> bit_at btmp (nbits btmp - 1)
      then r = Inr (-1, btmp) else r = Inl OutOfBounds)"

lemma no_free_run_mono:
  assumes "\<forall>i' < i. \<not> free_run btmp cnt i'" "i + j < nbits btmp" "bit_at btmp (i + j)" "j < cnt"
  shows "\<forall>i' < Suc (i + j). \<not> free_run btmp cnt i'"
proof (intro allI impI)
  fix i' assume "i' < Suc (i + j)"
  show "\<not> free_run btmp cnt i'"
  proof (cases "i' < i")
    case False
    then have "i + j \<in> {i'..<i' + cnt}" using \<open>i' < Suc (i + j)\<close> assms(4) by auto
    then show ?thesis using assms(2,3) by (auto simp: free_run_def in_used)
  qed (use assms(1) in simp)
qed

lemma alloc_from_result:
  assumes "bitmap_wf btmp" "0 < cnt" "\<forall>i' < i. \<not> free_run btmp cnt i'"
    and "i = 0 \<or> i \<le> nbits btmp \<and> bit_at btmp (i - 1)"
  shows "alloc_result btmp cnt (alloc_from btmp cnt i)"
  using assms
proof (induction btmp cnt i rule: alloc_from.induct)
  case (1 btmp cnt i)
  note eq = alloc_from.simps[of btmp cnt i]
  have len: "8 * bytes_len btmp = nbits btmp" using "1.prems"(1) by (simp add: bitmap_wf_def)
  consider (stop) "nbits btmp \<le> i" | (set) "i < nbits btmp" "bit_at btmp i"
    | (clear) "i < nbits btmp" "\<not> bit_at btmp i" by linarith
  then show ?case
  proof cases
    case stop
    have "\<not> free_run btmp cnt i'" for i'
      using stop "1.prems"(2,3) by (cases "i' < i") (auto simp: free_run_def)
    then show ?thesis
      using stop len "1.prems"(4) by (auto simp: eq alloc_result_def)
  next
    case set
    have "\<forall>i' < Suc i. \<not> free_run btmp cnt i'"
      using no_free_run_mono[OF "1.prems"(3), of 0] set "1.prems"(2) by simp
    then show ?thesis
      using set len "1.IH"(2)[of 1] "1.prems"(1,2) by (simp add: eq bitmap_read_eq)
  next
    case clear
    then have eq': "alloc_from btmp cnt i = (case scan_run btmp i cnt 1 of Inl e \<Rightarrow> Inl e
        | Inr j \<Rightarrow> if j = cnt then (case set_run btmp i 0 cnt of Inl e \<Rightarrow> Inl e
             | Inr btmp' \<Rightarrow> Inr (int i, btmp')) else alloc_from btmp cnt (Suc (i + j)))"
      using len by (simp add: eq bitmap_read_eq)
    show ?thesis
    proof (cases "scan_run btmp i cnt 1")
      case (Inl e)
      then have e: "e = OutOfBounds" "nbits btmp < i + cnt"
          "\<forall>k. i + 1 \<le> k \<and> k < nbits btmp \<longrightarrow> \<not> bit_at btmp k"
        using scan_run_Inl[OF Inl] "1.prems"(2) by auto
      have "\<not> bit_at btmp (nbits btmp - 1)"
      proof (cases "nbits btmp - 1 = i")
        case False
        then have "i + 1 \<le> nbits btmp - 1 \<and> nbits btmp - 1 < nbits btmp" using clear by linarith
        then show ?thesis using e(3) by blast
      qed (use clear in simp)
      moreover have "\<not> free_run btmp cnt i'" for i'
        using "1.prems"(3) e(2) by (cases "i' < i") (auto simp: free_run_def)
      ultimately show ?thesis using Inl e clear by (auto simp: eq' alloc_result_def)
    next
      case (Inr j)
      note sr = scan_run_Inr[OF Inr]
      show ?thesis
      proof (cases "j = cnt")
        case True
        have clr: "i + k < nbits btmp \<and> \<not> bit_at btmp (i + k)" if "k < cnt" for k
          using sr clear that True "1.prems"(2) by (cases k) auto
        have "i + cnt \<le> nbits btmp" using clr[of "cnt - 1"] "1.prems"(2) by auto
        moreover have "k \<notin> used btmp" if "i \<le> k" "k < i + cnt" for k
          using clr[of "k - i"] that by (auto simp: in_used)
        ultimately have "free_run btmp cnt i" by (auto simp: free_run_def)
        moreover obtain b where "set_run btmp i 0 cnt = Inr b" "bytes_len b = bytes_len btmp"
            "length (bits b) = length (bits btmp)" "used b = used btmp \<union> {i..<i + cnt}"
          using set_run_ok[of i 0 cnt btmp] \<open>i + cnt \<le> nbits btmp\<close> by auto
        ultimately show ?thesis
          using Inr True "1.prems"(3) unfolding alloc_result_def eq' by auto
      next
        case False
        then have j: "j < cnt" "i + j < nbits btmp" "bit_at btmp (i + j)" using sr "1.prems"(2) by auto
        have "\<forall>i' < Suc (i + j). \<not> free_run btmp cnt i'"
          using no_free_run_mono[OF "1.prems"(3) j(2,3,1)] .
        then show ?thesis
          using "1.IH"(1)[OF _ _ _ Inr False] clear len j "1.prems"(1,2) Inr False
          by (simp add: eq' bitmap_read_eq)
      qed
    qed
  qed
qed

lemma bitmap_alloc_result: "bitmap_wf btmp \<Longrightarrow> 0 < cnt \<Longrightarrow> alloc_result btmp cnt (bitmap_alloc btmp cnt)"
  unfolding bitmap_alloc_def by (rule alloc_from_result) auto

lemma free_run_1: "free_run btmp 1 i \<longleftrightarrow> i < nbits btmp \<and> i \<notin> used btmp"
  by (auto simp: free_run_def)

lemma bitmap_alloc_one_total:
  assumes "bitmap_wf btmp"
  shows "\<exists>r btmp'. bitmap_alloc btmp 1 = Inr (r, btmp')"
proof (cases "\<exists>i. free_run btmp 1 i")
  case True
  then show ?thesis using bitmap_alloc_result[OF assms, of 1] by (auto simp: alloc_result_def)
next
  case False
  have "nbits btmp = 0 \<or> bit_at btmp (nbits btmp - 1)"
  proof (cases "nbits btmp = 0")
    case nonempty: False
    have "\<not> free_run btmp 1 (nbits btmp - 1)" using False by blast
    then show ?thesis using nonempty unfolding free_run_1 in_used by linarith
  qed simp
  then show ?thesis using bitmap_alloc_result[OF assms, of 1] False by (auto simp: alloc_result_def)
qed

section \<open>The interface the pools allocate through\<close>

text \<open>
  Runs of slots numbered from 0: \<open>alloc a n\<close> takes \<open>n\<close> consecutive free slots or answers \<open>-1\<close>,
  \<open>release a i\<close> gives one slot back.
\<close>

locale run_allocator =
  fixes inv :: "'a \<Rightarrow> bool"
    and capacity :: "'a \<Rightarrow> nat"
    and taken :: "'a \<Rightarrow> nat set"
    and alloc :: "'a \<Rightarrow> nat \<Rightarrow> (int \<times> 'a) res"
    and release :: "'a \<Rightarrow> nat \<Rightarrow> 'a res"
  assumes alloc_taken: "inv a \<Longrightarrow> 0 < n \<Longrightarrow> alloc a n = Inr (r, a') \<Longrightarrow> r \<noteq> -1 \<Longrightarrow>
      0 \<le> r \<and> nat r + n \<le> capacity a \<and> {nat r..<nat r + n} \<inter> taken a = {} \<and>
      taken a' = taken a \<union> {nat r..<nat r + n} \<and> inv a' \<and> capacity a' = capacity a"
    and alloc_none: "inv a \<Longrightarrow> 0 < n \<Longrightarrow> alloc a n = Inr (-1, a') \<Longrightarrow>
      a' = a \<and> (\<forall>i. i + n \<le> capacity a \<longrightarrow> {i..<i + n} \<inter> taken a \<noteq> {})"
    and alloc_one: "inv a \<Longrightarrow> \<exists>r a'. alloc a 1 = Inr (r, a')"
    and release_taken: "inv a \<Longrightarrow> i < capacity a \<Longrightarrow>
      \<exists>a'. release a i = Inr a' \<and> taken a' = taken a - {i} \<and> inv a' \<and> capacity a' = capacity a"
    and taken_bound: "taken a \<subseteq> {..<capacity a}"
begin

lemma alloc_one_cases:
  assumes "inv a"
  shows "(\<exists>i a'. alloc a 1 = Inr (int i, a') \<and> i < capacity a \<and> i \<notin> taken a \<and>
      taken a' = insert i (taken a) \<and> inv a' \<and> capacity a' = capacity a) \<or>
    (alloc a 1 = Inr (-1, a) \<and> taken a = {..<capacity a})"
proof -
  obtain r a' where r: "alloc a 1 = Inr (r, a')" using alloc_one[OF assms] by auto
  show ?thesis
  proof (cases "r = -1")
    case True
    have "i \<in> taken a" if "i < capacity a" for i
      using alloc_none[OF assms, of 1 a'] r True that by force
    then show ?thesis
      using alloc_none[OF assms, of 1 a'] r True taken_bound[of a] by auto
  next
    case False
    have rr: "0 \<le> r" "nat r + 1 \<le> capacity a" "{nat r..<nat r + 1} \<inter> taken a = {}"
        "taken a' = taken a \<union> {nat r..<nat r + 1}" "inv a'" "capacity a' = capacity a"
      using alloc_taken[OF assms _ r False] by auto
    then have "alloc a 1 = Inr (int (nat r), a') \<and> nat r < capacity a \<and> nat r \<notin> taken a \<and>
        taken a' = insert (nat r) (taken a) \<and> inv a' \<and> capacity a' = capacity a"
      using r by auto
    then show ?thesis by blast
  qed
qed

text \<open>Two allocations in a row never share a slot; releasing a fresh slot undoes the allocation.\<close>

lemma alloc_alloc_disjoint:
  assumes "inv a" "0 < m" "0 < n" "alloc a m = Inr (r, a')" "r \<noteq> -1"
    and "alloc a' n = Inr (q, a'')" "q \<noteq> -1"
  shows "{nat r..<nat r + m} \<inter> {nat q..<nat q + n} = {}"
proof -
  have "taken a' = taken a \<union> {nat r..<nat r + m}" "inv a'"
    using alloc_taken[OF assms(1,2,4,5)] by auto
  moreover have "{nat q..<nat q + n} \<inter> taken a' = {}"
    using alloc_taken[OF \<open>inv a'\<close> assms(3,6,7)] by auto
  ultimately show ?thesis by blast
qed

lemma alloc_release:
  assumes "inv a" "alloc a 1 = Inr (int i, a')"
  shows "\<exists>a''. release a' i = Inr a'' \<and> taken a'' = taken a \<and> inv a'' \<and> capacity a'' = capacity a"
proof -
  have a': "i < capacity a" "i \<notin> taken a" "taken a' = insert i (taken a)" "inv a'"
      "capacity a' = capacity a"
    using alloc_taken[OF assms(1) _ assms(2)] by auto
  then obtain a'' where "release a' i = Inr a''" "taken a'' = taken a' - {i}" "inv a''"
      "capacity a'' = capacity a'"
    using release_taken[of a' i] by auto
  then show ?thesis using a' by auto
qed

end

interpretation bm: run_allocator bitmap_wf nbits used bitmap_alloc "\<lambda>b i. bitmap_set b i 0"
proof (unfold_locales, goal_cases)
  case (1 a n r a')
  then show ?case
    using bitmap_alloc_result[of a n]
    by (auto simp: alloc_result_def free_run_def bitmap_wf_def split: if_splits)
next
  case (2 a n a')
  then show ?case
    using bitmap_alloc_result[of a n] by (auto simp: alloc_result_def free_run_def split: if_splits)
next
  case (3 a)
  then show ?case by (rule bitmap_alloc_one_total)
next
  case (4 a i)
  then show ?case using bitmap_set_ok[of i a 0] by (auto simp: bitmap_wf_def)
next
  case (5 a)
  then show ?case by (auto simp: used_def)
qed

section \<open>Properties\<close>

text \<open>C12. First fit. If some run of \<open>cnt\<close> clear bits lies inside the map, \<^verbatim>\<open>bitmap_alloc\<close> returns the
  start of the first such run and sets exactly its bits.\<close>

theorem bitmap_alloc_first_fit:
  assumes "bitmap_wf btmp" "0 < cnt" "free_run btmp cnt i0"
  shows "\<exists>i btmp'. bitmap_alloc btmp cnt = Inr (int i, btmp') \<and> free_run btmp cnt i \<and>
    (\<forall>i' < i. \<not> free_run btmp cnt i') \<and> used btmp' = used btmp \<union> {i..<i + cnt} \<and> bitmap_wf btmp'"
  using bitmap_alloc_result[OF assms(1,2)] assms(1,3)
  by (auto simp: alloc_result_def bitmap_wf_def split: if_splits)

definition demo_bitmap :: bitmap where
  "demo_bitmap = \<lparr>bytes_len = 2, bits = [0xF7, 0x0F]\<rparr>"

lemma used_list: "used btmp = set (filter (bit_at btmp) [0..<nbits btmp])"
  by (auto simp: used_def)

lemma used_demo: "used demo_bitmap = {0, 1, 2, 4, 5, 6, 7, 8, 9, 10, 11}"
  by (simp add: used_list demo_bitmap_def bit_at_def upt_rec) (simp add: numeral_eq_Suc)

theorem bitmap_alloc_first_fit_witness:
  "bitmap_wf demo_bitmap \<and> free_run demo_bitmap 4 12 \<and>
   (\<exists>i btmp'. bitmap_alloc demo_bitmap 4 = Inr (int i, btmp') \<and> free_run demo_bitmap 4 i \<and> bitmap_wf btmp')"
proof -
  have wf: "bitmap_wf demo_bitmap" and fr: "free_run demo_bitmap 4 12"
    by (simp_all add: bitmap_wf_def free_run_def used_demo) (simp_all add: demo_bitmap_def)
  show ?thesis using wf fr bitmap_alloc_first_fit[OF wf _ fr] by auto
qed

text \<open>C15. When no run of \<open>cnt\<close> clear bits lies inside the map, the answer depends on the last bit: if it
  is set the call returns \<open>-1\<close> and changes nothing; if it is clear, the inner scan reads \<^verbatim>\<open>bits\<close>
  past its end.\<close>

theorem bitmap_alloc_no_run:
  assumes "bitmap_wf btmp" "0 < cnt" "\<forall>i. \<not> free_run btmp cnt i"
  shows "bitmap_alloc btmp cnt =
    (if nbits btmp = 0 \<or> bit_at btmp (nbits btmp - 1) then Inr (-1, btmp) else Inl OutOfBounds)"
  using bitmap_alloc_result[OF assms(1,2)] assms(3) by (auto simp: alloc_result_def)

theorem bitmap_alloc_no_run_witness:
  "bitmap_alloc \<lparr>bytes_len = 1, bits = [0x7F]\<rparr> 2 = Inl OutOfBounds"
proof -
  let ?b = "\<lparr>bytes_len = 1, bits = [0x7F]\<rparr> :: bitmap"
  have u: "used ?b = {0, 1, 2, 3, 4, 5, 6}"
    by (simp add: used_list bit_at_def upt_rec) (simp add: numeral_eq_Suc)
  have "\<not> free_run ?b 2 i" for i
  proof
    assume fr: "free_run ?b 2 i"
    then have "i \<le> 6" by (simp add: free_run_def)
    moreover have "i \<in> {i..<i + 2}" by simp
    then have "i \<notin> used ?b" using fr unfolding free_run_def by blast
    ultimately show False unfolding u by auto
  qed
  then show ?thesis
    using bitmap_alloc_no_run[of ?b 2] by (simp add: bitmap_wf_def bit_at_def)
qed

text \<open>\<^verbatim>\<open>bitmap_set\<close> and \<^verbatim>\<open>bitmap_read\<close> agree: a read after a write of \<open>v\<close> at \<open>i\<close> gives \<open>v\<close> at \<open>i\<close> and
  the old bit everywhere else.\<close>

theorem bitmap_read_set:
  assumes "i < nbits btmp" "j < nbits btmp" "v = 0 \<or> v = 1"
  shows "\<exists>btmp'. bitmap_set btmp i v = Inr btmp' \<and>
    bitmap_read btmp' j = (if j = i then Inr v else bitmap_read btmp j)"
proof -
  obtain b where b: "bitmap_set btmp i v = Inr b" "length (bits b) = length (bits btmp)"
      "used b = (if v = 1 then insert i (used btmp) else used btmp - {i})"
    using bitmap_set_ok[OF assms(1,3)] by auto
  have "bit_at b j \<longleftrightarrow> (if j = i then v = 1 else bit_at btmp j)"
    using in_used[of j b] in_used[of j btmp] b(2,3) assms by (auto split: if_splits)
  then show ?thesis using b assms by (auto simp: bitmap_read_eq)
qed

theorem bitmap_read_set_witness:
  "\<exists>btmp'. bitmap_set demo_bitmap 3 1 = Inr btmp' \<and> bitmap_read btmp' 3 = Inr 1"
  using bitmap_read_set[of 3 demo_bitmap 3 1] by (simp add: demo_bitmap_def)

end
