(* ===== verification/Kernel_State.thy ===== *)
theory Kernel_State
  imports DList Bitmap
begin

text \<open>
  The state the kernel's core works on: the processor's interrupt flag and \<^verbatim>\<open>cr3\<close>, the
  \<^verbatim>\<open>tss\<close>, the task structures, the list links, the semaphores and the two memory pools.

  Objects are named, not placed: every \<^verbatim>\<open>struct list_elem\<close>, \<^verbatim>\<open>struct list\<close> and
  \<^verbatim>\<open>struct semaphore\<close> of the program has a constructor, so that two different objects never
  overlap, as in C. An element that is a field of a page-allocated structure is named by the
  address of that structure, and \<^verbatim>\<open>elem2entry\<close> takes the address out of the name again.
  Structures are kept in one table per type, indexed by address.
\<close>

unbundle bit_operations_syntax

section \<open>The named objects\<close>

datatype sema =
    KernelPoolLock        \<comment> \<open>\<^verbatim>\<open>kernel_mem_pool.lock\<close>\<close>
  | PhyPoolLock           \<comment> \<open>\<^verbatim>\<open>phy_mem_pool.lock\<close>\<close>
  | DescLock nat          \<comment> \<open>\<^verbatim>\<open>k_block_descs[i].lock\<close>\<close>
  | PidLock               \<comment> \<open>\<^verbatim>\<open>pid_pool.pid_lock\<close>\<close>
  | ConsoleLock           \<comment> \<open>\<^verbatim>\<open>console.console_lock\<close>\<close>
  | IoSema u64            \<comment> \<open>\<^verbatim>\<open>ioq->iosema\<close> of the queue at an address\<close>
  | OpenInodesLock        \<comment> \<open>\<^verbatim>\<open>open_inodes_lock\<close>\<close>
  | FsBitmapLock          \<comment> \<open>\<^verbatim>\<open>fs_bitmap_lock\<close>\<close>
  | FileTableLock         \<comment> \<open>\<^verbatim>\<open>file_table_lock\<close>\<close>
  | InodeLock u64         \<comment> \<open>\<^verbatim>\<open>inode->inode_lock\<close>\<close>
  | ChannelLock nat       \<comment> \<open>\<^verbatim>\<open>channels[i].lock\<close>\<close>
  | DiskDone nat          \<comment> \<open>\<^verbatim>\<open>channels[i].disk_done\<close>\<close>

datatype lst =
    ReadyTasks            \<comment> \<open>\<^verbatim>\<open>ready_tasks_list\<close>\<close>
  | AllTasks              \<comment> \<open>\<^verbatim>\<open>all_tasks_list\<close>\<close>
  | OpenInodes            \<comment> \<open>\<^verbatim>\<open>open_inodes\<close>\<close>
  | FreeList nat          \<comment> \<open>\<^verbatim>\<open>k_block_descs[i].free_list\<close>\<close>
  | Waiters sema          \<comment> \<open>\<^verbatim>\<open>psema->waiters\<close>\<close>

datatype elem =
    HeadOf lst | TailOf lst
  | GeneralTag u64        \<comment> \<open>\<^verbatim>\<open>task->general_tag\<close>\<close>
  | AllListTag u64        \<comment> \<open>\<^verbatim>\<open>task->all_list_tag\<close>\<close>
  | InodeTag u64          \<comment> \<open>\<^verbatim>\<open>inode->inode_tag\<close>\<close>
  | FreeElem u64          \<comment> \<open>\<^verbatim>\<open>block->free_elem\<close>\<close>

definition lst_of :: "lst \<Rightarrow> elem list_struct" where
  "lst_of l = \<lparr>l_head = HeadOf l, l_tail = TailOf l\<rparr>"

lemma lst_of_ends [simp]: "l_head (lst_of l) = HeadOf l" "l_tail (lst_of l) = TailOf l"
  by (simp_all add: lst_of_def)

section \<open>Tasks (task/task.h)\<close>

datatype intr_stat = intr_off | intr_on

datatype task_status =
  TASK_RUNNING | TASK_READY | TASK_BLOCKED | TASK_HANGING | TASK_WAITING | TASK_DIED

record intr_stack =
  is_sregs :: u64
  is_rsi :: u64
  is_rdi :: u64
  is_rbp :: u64
  is_err_code :: u64
  is_rip :: u64
  is_cs :: u64
  is_rflags :: u64
  is_rsp :: u64
  is_ss :: u64

record addr_space =
  vaddr :: "u64 list"
  filesz :: "u64 list"
  heap_start :: u64
  heap_end :: u64

record switch_stack =
  ss_rsi :: u64
  ss_rdi :: u64
  ss_r15 :: u64
  ss_r14 :: u64
  ss_r13 :: u64
  ss_r12 :: u64
  ss_rbx :: u64
  ss_rbp :: u64
  ss_rip :: u64

text \<open>The two list elements of a task are the elements \<open>GeneralTag\<close> and \<open>AllListTag\<close> of its address;
  \<open>t_intr_stack\<close> is the frame that \<^verbatim>\<open>task->intr_stack\<close> points to, at the end of the task's page.\<close>

record task_struct =
  t_rbp :: u64
  t_pml4 :: u64
  t_pid :: int
  t_prio :: u8
  t_ticks :: u8
  t_status :: task_status
  t_parent_task :: u64
  t_addr_space :: addr_space
  t_fd_table :: "int list"
  t_intr_stack :: intr_stack
  t_switch_stack :: switch_stack
  t_exit_status :: int
  t_stack_magic :: u64

definition MAX_FILES_OPEN_PER_PROC :: nat where "MAX_FILES_OPEN_PER_PROC = 32"
definition STACK_MAGIC :: u64 where "STACK_MAGIC = 0x474d575a5a46594c"
definition DEFAULT_STACK :: u64 where "DEFAULT_STACK = 0x800000000000"
definition PG_SIZE :: u64 where "PG_SIZE = 4096"
definition kernel_addr_base :: u64 where "kernel_addr_base = 0xffff800000000000"

section \<open>Memory pools and arenas (kernel/memory.c)\<close>

record mem_pool =
  mp_start :: u64
  pool_bitmap :: bitmap

record arena =
  a_desc :: nat
  free_block_cnt :: u64

section \<open>The state\<close>

record kstate =
  intr_flag :: intr_stat
  ist1 :: u64
  ist2 :: u64
  cr3 :: u64
  frame :: u64
  links :: "elem heap"
  tasks :: "u64 \<Rightarrow> task_struct"
  idle_task :: u64
  init_proc :: u64
  sema_value :: "sema \<Rightarrow> u8"
  pid_bitmap :: bitmap
  pid_start :: int
  kernel_mem_pool :: mem_pool
  phy_mem_pool :: mem_pool
  block_sizes :: "nat \<Rightarrow> u64"
  arenas :: "u64 \<Rightarrow> arena"
  clock_ticks :: u64

text \<open>Record updates are kept in the order of the fields.\<close>

lemma upd_order [simp]:
  fixes s :: "'z kstate_scheme"
  shows
  "intr_flag_update f_intr_flag (ist2_update f_ist2 s) = ist2_update f_ist2 (intr_flag_update f_intr_flag s)"
  "intr_flag_update f_intr_flag (cr3_update f_cr3 s) = cr3_update f_cr3 (intr_flag_update f_intr_flag s)"
  "intr_flag_update f_intr_flag (frame_update f_frame s) = frame_update f_frame (intr_flag_update f_intr_flag s)"
  "intr_flag_update f_intr_flag (links_update f_links s) = links_update f_links (intr_flag_update f_intr_flag s)"
  "intr_flag_update f_intr_flag (tasks_update f_tasks s) = tasks_update f_tasks (intr_flag_update f_intr_flag s)"
  "intr_flag_update f_intr_flag (sema_value_update f_sema_value s) = sema_value_update f_sema_value (intr_flag_update f_intr_flag s)"
  "intr_flag_update f_intr_flag (pid_bitmap_update f_pid_bitmap s) = pid_bitmap_update f_pid_bitmap (intr_flag_update f_intr_flag s)"
  "intr_flag_update f_intr_flag (kernel_mem_pool_update f_kernel_mem_pool s) = kernel_mem_pool_update f_kernel_mem_pool (intr_flag_update f_intr_flag s)"
  "intr_flag_update f_intr_flag (phy_mem_pool_update f_phy_mem_pool s) = phy_mem_pool_update f_phy_mem_pool (intr_flag_update f_intr_flag s)"
  "intr_flag_update f_intr_flag (arenas_update f_arenas s) = arenas_update f_arenas (intr_flag_update f_intr_flag s)"
  "intr_flag_update f_intr_flag (clock_ticks_update f_clock_ticks s) = clock_ticks_update f_clock_ticks (intr_flag_update f_intr_flag s)"
  "ist2_update f_ist2 (cr3_update f_cr3 s) = cr3_update f_cr3 (ist2_update f_ist2 s)"
  "ist2_update f_ist2 (frame_update f_frame s) = frame_update f_frame (ist2_update f_ist2 s)"
  "ist2_update f_ist2 (links_update f_links s) = links_update f_links (ist2_update f_ist2 s)"
  "ist2_update f_ist2 (tasks_update f_tasks s) = tasks_update f_tasks (ist2_update f_ist2 s)"
  "ist2_update f_ist2 (sema_value_update f_sema_value s) = sema_value_update f_sema_value (ist2_update f_ist2 s)"
  "ist2_update f_ist2 (pid_bitmap_update f_pid_bitmap s) = pid_bitmap_update f_pid_bitmap (ist2_update f_ist2 s)"
  "ist2_update f_ist2 (kernel_mem_pool_update f_kernel_mem_pool s) = kernel_mem_pool_update f_kernel_mem_pool (ist2_update f_ist2 s)"
  "ist2_update f_ist2 (phy_mem_pool_update f_phy_mem_pool s) = phy_mem_pool_update f_phy_mem_pool (ist2_update f_ist2 s)"
  "ist2_update f_ist2 (arenas_update f_arenas s) = arenas_update f_arenas (ist2_update f_ist2 s)"
  "ist2_update f_ist2 (clock_ticks_update f_clock_ticks s) = clock_ticks_update f_clock_ticks (ist2_update f_ist2 s)"
  "cr3_update f_cr3 (frame_update f_frame s) = frame_update f_frame (cr3_update f_cr3 s)"
  "cr3_update f_cr3 (links_update f_links s) = links_update f_links (cr3_update f_cr3 s)"
  "cr3_update f_cr3 (tasks_update f_tasks s) = tasks_update f_tasks (cr3_update f_cr3 s)"
  "cr3_update f_cr3 (sema_value_update f_sema_value s) = sema_value_update f_sema_value (cr3_update f_cr3 s)"
  "cr3_update f_cr3 (pid_bitmap_update f_pid_bitmap s) = pid_bitmap_update f_pid_bitmap (cr3_update f_cr3 s)"
  "cr3_update f_cr3 (kernel_mem_pool_update f_kernel_mem_pool s) = kernel_mem_pool_update f_kernel_mem_pool (cr3_update f_cr3 s)"
  "cr3_update f_cr3 (phy_mem_pool_update f_phy_mem_pool s) = phy_mem_pool_update f_phy_mem_pool (cr3_update f_cr3 s)"
  "cr3_update f_cr3 (arenas_update f_arenas s) = arenas_update f_arenas (cr3_update f_cr3 s)"
  "cr3_update f_cr3 (clock_ticks_update f_clock_ticks s) = clock_ticks_update f_clock_ticks (cr3_update f_cr3 s)"
  "frame_update f_frame (links_update f_links s) = links_update f_links (frame_update f_frame s)"
  "frame_update f_frame (tasks_update f_tasks s) = tasks_update f_tasks (frame_update f_frame s)"
  "frame_update f_frame (sema_value_update f_sema_value s) = sema_value_update f_sema_value (frame_update f_frame s)"
  "frame_update f_frame (pid_bitmap_update f_pid_bitmap s) = pid_bitmap_update f_pid_bitmap (frame_update f_frame s)"
  "frame_update f_frame (kernel_mem_pool_update f_kernel_mem_pool s) = kernel_mem_pool_update f_kernel_mem_pool (frame_update f_frame s)"
  "frame_update f_frame (phy_mem_pool_update f_phy_mem_pool s) = phy_mem_pool_update f_phy_mem_pool (frame_update f_frame s)"
  "frame_update f_frame (arenas_update f_arenas s) = arenas_update f_arenas (frame_update f_frame s)"
  "frame_update f_frame (clock_ticks_update f_clock_ticks s) = clock_ticks_update f_clock_ticks (frame_update f_frame s)"
  "links_update f_links (tasks_update f_tasks s) = tasks_update f_tasks (links_update f_links s)"
  "links_update f_links (sema_value_update f_sema_value s) = sema_value_update f_sema_value (links_update f_links s)"
  "links_update f_links (pid_bitmap_update f_pid_bitmap s) = pid_bitmap_update f_pid_bitmap (links_update f_links s)"
  "links_update f_links (kernel_mem_pool_update f_kernel_mem_pool s) = kernel_mem_pool_update f_kernel_mem_pool (links_update f_links s)"
  "links_update f_links (phy_mem_pool_update f_phy_mem_pool s) = phy_mem_pool_update f_phy_mem_pool (links_update f_links s)"
  "links_update f_links (arenas_update f_arenas s) = arenas_update f_arenas (links_update f_links s)"
  "links_update f_links (clock_ticks_update f_clock_ticks s) = clock_ticks_update f_clock_ticks (links_update f_links s)"
  "tasks_update f_tasks (sema_value_update f_sema_value s) = sema_value_update f_sema_value (tasks_update f_tasks s)"
  "tasks_update f_tasks (pid_bitmap_update f_pid_bitmap s) = pid_bitmap_update f_pid_bitmap (tasks_update f_tasks s)"
  "tasks_update f_tasks (kernel_mem_pool_update f_kernel_mem_pool s) = kernel_mem_pool_update f_kernel_mem_pool (tasks_update f_tasks s)"
  "tasks_update f_tasks (phy_mem_pool_update f_phy_mem_pool s) = phy_mem_pool_update f_phy_mem_pool (tasks_update f_tasks s)"
  "tasks_update f_tasks (arenas_update f_arenas s) = arenas_update f_arenas (tasks_update f_tasks s)"
  "tasks_update f_tasks (clock_ticks_update f_clock_ticks s) = clock_ticks_update f_clock_ticks (tasks_update f_tasks s)"
  "sema_value_update f_sema_value (pid_bitmap_update f_pid_bitmap s) = pid_bitmap_update f_pid_bitmap (sema_value_update f_sema_value s)"
  "sema_value_update f_sema_value (kernel_mem_pool_update f_kernel_mem_pool s) = kernel_mem_pool_update f_kernel_mem_pool (sema_value_update f_sema_value s)"
  "sema_value_update f_sema_value (phy_mem_pool_update f_phy_mem_pool s) = phy_mem_pool_update f_phy_mem_pool (sema_value_update f_sema_value s)"
  "sema_value_update f_sema_value (arenas_update f_arenas s) = arenas_update f_arenas (sema_value_update f_sema_value s)"
  "sema_value_update f_sema_value (clock_ticks_update f_clock_ticks s) = clock_ticks_update f_clock_ticks (sema_value_update f_sema_value s)"
  "pid_bitmap_update f_pid_bitmap (kernel_mem_pool_update f_kernel_mem_pool s) = kernel_mem_pool_update f_kernel_mem_pool (pid_bitmap_update f_pid_bitmap s)"
  "pid_bitmap_update f_pid_bitmap (phy_mem_pool_update f_phy_mem_pool s) = phy_mem_pool_update f_phy_mem_pool (pid_bitmap_update f_pid_bitmap s)"
  "pid_bitmap_update f_pid_bitmap (arenas_update f_arenas s) = arenas_update f_arenas (pid_bitmap_update f_pid_bitmap s)"
  "pid_bitmap_update f_pid_bitmap (clock_ticks_update f_clock_ticks s) = clock_ticks_update f_clock_ticks (pid_bitmap_update f_pid_bitmap s)"
  "kernel_mem_pool_update f_kernel_mem_pool (phy_mem_pool_update f_phy_mem_pool s) = phy_mem_pool_update f_phy_mem_pool (kernel_mem_pool_update f_kernel_mem_pool s)"
  "kernel_mem_pool_update f_kernel_mem_pool (arenas_update f_arenas s) = arenas_update f_arenas (kernel_mem_pool_update f_kernel_mem_pool s)"
  "kernel_mem_pool_update f_kernel_mem_pool (clock_ticks_update f_clock_ticks s) = clock_ticks_update f_clock_ticks (kernel_mem_pool_update f_kernel_mem_pool s)"
  "phy_mem_pool_update f_phy_mem_pool (arenas_update f_arenas s) = arenas_update f_arenas (phy_mem_pool_update f_phy_mem_pool s)"
  "phy_mem_pool_update f_phy_mem_pool (clock_ticks_update f_clock_ticks s) = clock_ticks_update f_clock_ticks (phy_mem_pool_update f_phy_mem_pool s)"
  "arenas_update f_arenas (clock_ticks_update f_clock_ticks s) = clock_ticks_update f_clock_ticks (arenas_update f_arenas s)"
  by simp_all

text \<open>Updates of one task's fields.\<close>

definition upd_task :: "u64 \<Rightarrow> (task_struct \<Rightarrow> task_struct) \<Rightarrow> ('z kstate_scheme, unit) kcall" where
  "upd_task t f = kput (\<lambda>s. s\<lparr>tasks := (tasks s)(t := f (tasks s t))\<rparr>)"

definition get_task :: "u64 \<Rightarrow> ('z kstate_scheme, task_struct) kcall" where
  "get_task t = kget (\<lambda>s. tasks s t)"

definition set_status :: "u64 \<Rightarrow> task_status \<Rightarrow> ('z kstate_scheme, unit) kcall" where
  "set_status t st = upd_task t (\<lambda>t. t\<lparr>t_status := st\<rparr>)"

text \<open>The list operations on the links of the state.\<close>

definition k_list_init :: "lst \<Rightarrow> ('z kstate_scheme, unit) kcall" where
  "k_list_init l = kput (\<lambda>s. s\<lparr>links := list_init (links s) (lst_of l)\<rparr>)"

definition k_list_empty :: "lst \<Rightarrow> ('z kstate_scheme, bool) kcall" where
  "k_list_empty l = kget (\<lambda>s. list_empty (links s) (lst_of l))"

definition k_list_push :: "lst \<Rightarrow> elem \<Rightarrow> ('z kstate_scheme, unit) kcall" where
  "k_list_push l e = on_field' links links_update (\<lambda>h. list_push h (lst_of l) e)"

definition k_list_append :: "lst \<Rightarrow> elem \<Rightarrow> ('z kstate_scheme, unit) kcall" where
  "k_list_append l e = on_field' links links_update (\<lambda>h. list_append h (lst_of l) e)"

definition k_list_remove :: "elem \<Rightarrow> ('z kstate_scheme, unit) kcall" where
  "k_list_remove e = on_field' links links_update (\<lambda>h. list_remove h (Some e))"

definition k_list_pop :: "lst \<Rightarrow> ('z kstate_scheme, elem option) kcall" where
  "k_list_pop l = on_field links links_update (\<lambda>h. list_pop h (lst_of l))"

definition k_elem_find :: "lst \<Rightarrow> elem \<Rightarrow> ('z kstate_scheme, bool) kcall" where
  "k_elem_find l e = bnd (kget links) (\<lambda>h. of_res (elem_find h (lst_of l) e))"

definition k_list_traversal :: "lst \<Rightarrow> (elem \<Rightarrow> bool) \<Rightarrow> ('z kstate_scheme, elem option) kcall" where
  "k_list_traversal l f = bnd (kget links) (\<lambda>h. of_res (list_traversal h (lst_of l) f))"

text \<open>\<^verbatim>\<open>elem2entry(struct task_struct, general_tag, p)\<close> and its kin. A pointer to an element that is
  not the named field of such a structure leads outside every object.\<close>

definition entry_general :: "elem option \<Rightarrow> u64 res" where
  "entry_general p = (case p of Some (GeneralTag t) \<Rightarrow> Inr t | _ \<Rightarrow> Inl OutOfBounds)"

definition entry_all_list :: "elem option \<Rightarrow> u64 res" where
  "entry_all_list p = (case p of Some (AllListTag t) \<Rightarrow> Inr t | _ \<Rightarrow> Inl OutOfBounds)"

definition entry_free_elem :: "elem option \<Rightarrow> u64 res" where
  "entry_free_elem p = (case p of Some (FreeElem b) \<Rightarrow> Inr b | _ \<Rightarrow> Inl OutOfBounds)"

lemma entry_simps [simp]:
  "entry_general (Some (GeneralTag t)) = Inr t"
  "entry_all_list (Some (AllListTag t)) = Inr t"
  "entry_free_elem (Some (FreeElem b)) = Inr b"
  by (simp_all add: entry_general_def entry_all_list_def entry_free_elem_def)

lemmas state_defs [run_simps] =
  upd_task_def get_task_def set_status_def k_list_init_def k_list_empty_def k_list_push_def
  k_list_append_def k_list_remove_def k_list_pop_def k_elem_find_def k_list_traversal_def

section \<open>Lists of tasks\<close>

text \<open>\<open>tq s l ts\<close>: the list \<open>l\<close> holds the general tags of the tasks \<open>ts\<close>.\<close>

definition tq :: "'z kstate_scheme \<Rightarrow> lst \<Rightarrow> u64 list \<Rightarrow> bool" where
  "tq s l ts \<longleftrightarrow> dlist (links s) (lst_of l) (map GeneralTag ts)"

definition tags :: "lst \<Rightarrow> u64 list \<Rightarrow> elem set" where
  "tags l ts = {HeadOf l, TailOf l} \<union> GeneralTag ` set ts"

lemma tq_distinct: "tq s l ts \<Longrightarrow> distinct ts"
  by (auto simp: tq_def dlist_def distinct_map)

lemma tq_links: "links s' = links s \<Longrightarrow> tq s' l ts = tq s l ts"
  by (simp add: tq_def)

lemma tags_simps [simp]:
  "HeadOf m \<in> tags l ts \<longleftrightarrow> m = l" "TailOf m \<in> tags l ts \<longleftrightarrow> m = l"
  "GeneralTag t \<in> tags l ts \<longleftrightarrow> t \<in> set ts" "AllListTag t \<notin> tags l ts"
  "InodeTag t \<notin> tags l ts" "FreeElem t \<notin> tags l ts"
  by (auto simp: tags_def)

lemma tags_disjoint: "l \<noteq> m \<Longrightarrow> set ts \<inter> set us = {} \<Longrightarrow> tags l ts \<inter> tags m us = {}"
  by (auto simp: tags_def)

lemma tq_frame:
  assumes "tq s m us" "agree_off S (links s) (links s')" "S \<inter> tags m us = {}"
  shows "tq s' m us"
  using assms dl.agree_holds[of "links s" "lst_of m" "map GeneralTag us" S "links s'"]
  by (simp add: tq_def tags_def insert_commute)

lemma tq_empty: "tq s l ts \<Longrightarrow> list_empty (links s) (lst_of l) \<longleftrightarrow> ts = []"
  by (simp add: tq_def list_empty_iff)

lemma tq_find: "tq s l ts \<Longrightarrow> elem_find (links s) (lst_of l) (GeneralTag t) = Inr (t \<in> set ts)"
  by (auto simp: tq_def elem_find_dlist)

lemma tq_append:
  assumes "tq s l ts" "t \<notin> set ts"
  shows "\<exists>h. list_append (links s) (lst_of l) (GeneralTag t) = Inr h \<and>
    tq (s\<lparr>links := h\<rparr>) l (ts @ [t]) \<and> agree_off (tags l (t # ts)) (links s) h"
  using dl.append_law[of "links s" "lst_of l" "map GeneralTag ts" "GeneralTag t"] assms
  by (auto simp: tq_def tags_def insert_commute)

lemma tq_push:
  assumes "tq s l ts" "t \<notin> set ts"
  shows "\<exists>h. list_push (links s) (lst_of l) (GeneralTag t) = Inr h \<and>
    tq (s\<lparr>links := h\<rparr>) l (t # ts) \<and> agree_off (tags l (t # ts)) (links s) h"
  using dl.push_law[of "links s" "lst_of l" "map GeneralTag ts" "GeneralTag t"] assms
  by (auto simp: tq_def tags_def insert_commute)

lemma tq_pop:
  assumes "tq s l (t # ts)"
  shows "\<exists>h. list_pop (links s) (lst_of l) = Inr (Some (GeneralTag t), h) \<and>
    tq (s\<lparr>links := h\<rparr>) l ts \<and> agree_off (tags l ts) (links s) h"
  using dl.pop_law[of "links s" "lst_of l" "GeneralTag t" "map GeneralTag ts"] assms
  by (auto simp: tq_def tags_def insert_commute)

section \<open>Lists of other structures\<close>

text \<open>\<open>nq c s l xs\<close>: the list \<open>l\<close> holds the elements that constructor \<open>c\<close> gives to the structures \<open>xs\<close>.\<close>

definition node :: "(u64 \<Rightarrow> elem) \<Rightarrow> bool" where
  "node c \<longleftrightarrow> inj c \<and> (\<forall>x l. c x \<noteq> HeadOf l \<and> c x \<noteq> TailOf l)"

lemma node_tags [simp]: "node AllListTag" "node InodeTag" "node FreeElem"
  by (auto simp: node_def inj_def)

definition nq :: "(u64 \<Rightarrow> elem) \<Rightarrow> 'z kstate_scheme \<Rightarrow> lst \<Rightarrow> u64 list \<Rightarrow> bool" where
  "nq c s l xs \<longleftrightarrow> dlist (links s) (lst_of l) (map c xs)"

definition nels :: "(u64 \<Rightarrow> elem) \<Rightarrow> lst \<Rightarrow> u64 set \<Rightarrow> elem set" where
  "nels c l xs = {HeadOf l, TailOf l} \<union> c ` xs"

lemma nq_links: "links s' = links s \<Longrightarrow> nq c s' l xs = nq c s l xs"
  by (simp add: nq_def)

lemma nq_distinct: "nq c s l xs \<Longrightarrow> distinct xs"
  by (auto simp: nq_def dlist_def distinct_map)

lemma nq_empty: "nq c s l xs \<Longrightarrow> list_empty (links s) (lst_of l) \<longleftrightarrow> xs = []"
  by (simp add: nq_def list_empty_iff)

lemma nq_find: "nq c s l xs \<Longrightarrow> node c \<Longrightarrow> elem_find (links s) (lst_of l) (c x) = Inr (x \<in> set xs)"
  by (auto simp: nq_def elem_find_dlist node_def inj_def)

lemma nq_frame:
  assumes "nq c s l xs" "agree_off S (links s) (links s')" "S \<inter> nels c l (set xs) = {}"
  shows "nq c s' l xs"
  using assms dl.agree_holds[of "links s" "lst_of l" "map c xs" S "links s'"]
  by (simp add: nq_def nels_def insert_commute)

lemma nq_push:
  assumes "nq c s l xs" "node c" "x \<notin> set xs"
  shows "\<exists>h. list_push (links s) (lst_of l) (c x) = Inr h \<and> nq c (s\<lparr>links := h\<rparr>) l (x # xs) \<and>
    agree_off (nels c l (set (x # xs))) (links s) h"
  using dl.push_law[of "links s" "lst_of l" "map c xs" "c x"] assms
  by (auto simp: nq_def nels_def node_def inj_def insert_commute)

lemma nq_append:
  assumes "nq c s l xs" "node c" "x \<notin> set xs"
  shows "\<exists>h. list_append (links s) (lst_of l) (c x) = Inr h \<and> nq c (s\<lparr>links := h\<rparr>) l (xs @ [x]) \<and>
    agree_off (nels c l (set (x # xs))) (links s) h"
  using dl.append_law[of "links s" "lst_of l" "map c xs" "c x"] assms
  by (auto simp: nq_def nels_def node_def inj_def insert_commute)

lemma nq_pop:
  assumes "nq c s l (x # xs)"
  shows "\<exists>h. list_pop (links s) (lst_of l) = Inr (Some (c x), h) \<and> nq c (s\<lparr>links := h\<rparr>) l xs \<and>
    agree_off (nels c l (set (x # xs))) (links s) h"
  using dl.pop_law[of "links s" "lst_of l" "c x" "map c xs"] assms
  by (auto simp: nq_def nels_def insert_commute elim!: agree_off_mono)

lemma nq_remove:
  assumes "nq c s l xs" "x \<in> set xs"
  shows "\<exists>h. list_remove (links s) (Some (c x)) = Inr h \<and> nq c (s\<lparr>links := h\<rparr>) l (remove1 x xs) \<and>
    agree_off (nels c l (set xs)) (links s) h"
proof -
  obtain ys zs where xs: "xs = ys @ x # zs" "x \<notin> set ys" using split_list_first[OF assms(2)] by blast
  then obtain h where "list_remove (links s) (Some (c x)) = Inr h" "dlist h (lst_of l) (map c (ys @ zs))"
      "agree_off ({HeadOf l, TailOf l} \<union> c ` set (ys @ zs)) (links s) h"
    using dl.remove_law[of "links s" "lst_of l" "map c ys" "c x" "map c zs"] assms(1)
    by (auto simp: nq_def insert_commute image_Un)
  moreover have "remove1 x xs = ys @ zs" using xs by (simp add: remove1_append)
  ultimately show ?thesis
    using xs by (intro exI[of _ h]) (auto simp: nq_def nels_def elim!: agree_off_mono)
qed

end
