(* ===== verification/Sched.thy ===== *)
theory Sched
  imports Kernel_State
begin

text \<open>
  The scheduler: the interrupt flag of \<^verbatim>\<open>kernel/intr.c\<close>, \<^verbatim>\<open>running_task\<close>, \<^verbatim>\<open>schedule\<close>,
  \<^verbatim>\<open>task_block\<close>, \<^verbatim>\<open>task_unblock\<close> and \<^verbatim>\<open>task_yield\<close> of \<^verbatim>\<open>task/task.c\<close>, and the timer interrupt of
  \<^verbatim>\<open>device/timer.c\<close>.

  \<^verbatim>\<open>switch_to\<close> of \<^verbatim>\<open>task/switch.S\<close> gives the processor to another task; the call that led to it
  is then at \<open>Sleep\<close>, and goes on after the call of \<^verbatim>\<open>schedule\<close> when the task is switched to
  again. Its register save area is represented by the frame pointer it stores in the task.

  \<open>sched_ok s cur rs ws\<close> is the invariant: \<open>cur\<close> is the task the \<^verbatim>\<open>tss\<close> names, \<open>rs\<close> the contents
  of the ready list, \<open>ws p\<close> the waiters of semaphore \<open>p\<close>. Every operation is shown to run without a
  failed \<^verbatim>\<open>ASSERT\<close> from a state with the invariant and to do what the same operation does on the
  abstract queues.
\<close>

unbundle bit_operations_syntax

section \<open>The code\<close>

definition get_intr_stat :: "('z kstate_scheme, intr_stat) kcall" where
  "get_intr_stat = kget intr_flag"

definition set_intr_stat :: "intr_stat \<Rightarrow> ('z kstate_scheme, intr_stat) kcall" where
  "set_intr_stat stat =
     bnd get_intr_stat (\<lambda>old_stat.
     bnd (if old_stat \<noteq> stat
          then (case stat of
                  intr_off \<Rightarrow> kput (\<lambda>s. s\<lparr>intr_flag := intr_off\<rparr>)
                | intr_on \<Rightarrow> kput (\<lambda>s. s\<lparr>intr_flag := intr_on\<rparr>))
          else ret ()) (\<lambda>_.
     ret old_stat))"

definition running_task :: "('z kstate_scheme, u64) kcall" where
  "running_task =
     bnd (kget (\<lambda>s. ist2 s - PG_SIZE)) (\<lambda>task.
     bnd (ASSERT (task AND 0xfff = 0)) (\<lambda>_.
     ret task))"

definition blockable :: "task_status \<Rightarrow> bool" where
  "blockable st \<longleftrightarrow> st = TASK_BLOCKED \<or> st = TASK_HANGING \<or> st = TASK_WAITING"

definition task_unblock :: "u64 \<Rightarrow> ('z kstate_scheme, unit) kcall" where
  "task_unblock task =
     bnd (get_task task) (\<lambda>t.
     bnd (ASSERT (blockable (t_status t))) (\<lambda>_.
     bnd (set_intr_stat intr_off) (\<lambda>old_stat.
     bnd (k_elem_find ReadyTasks (GeneralTag task)) (\<lambda>found.
     bnd (ASSERT (\<not> found)) (\<lambda>_.
     bnd (k_list_push ReadyTasks (GeneralTag task)) (\<lambda>_.
     bnd (set_intr_stat old_stat) (\<lambda>_.
     ret ())))))))"

text \<open>\<^verbatim>\<open>switch_to(prev, next)\<close>: store the frame of \<open>prev\<close>, load the page table and the frame of
  \<open>next\<close>. With \<open>prev = next\<close> it just returns.\<close>

definition switch_to :: "u64 \<Rightarrow> u64 \<Rightarrow> ('z kstate_scheme, unit) kcall" where
  "switch_to prv nxt =
     bnd (kget frame) (\<lambda>rbp.
     bnd (upd_task prv (\<lambda>t. t\<lparr>t_rbp := rbp\<rparr>)) (\<lambda>_.
     bnd (get_task nxt) (\<lambda>t.
     bnd (kput (\<lambda>s. s\<lparr>cr3 := t_pml4 t - kernel_addr_base\<rparr>)) (\<lambda>_.
     bnd (kput (\<lambda>s. s\<lparr>frame := t_rbp t\<rparr>)) (\<lambda>_.
     (if prv = nxt then ret () else Sleep))))))"

definition schedule :: "('z kstate_scheme, unit) kcall" where
  "schedule =
     bnd get_intr_stat (\<lambda>stat.
     bnd (ASSERT (intr_off = stat)) (\<lambda>_.
     bnd running_task (\<lambda>cur_task.
     bnd (get_task cur_task) (\<lambda>t.
     bnd (if t_status t = TASK_RUNNING
          then bnd (set_status cur_task TASK_READY) (\<lambda>_.
               bnd (ASSERT (t_ticks t = 0)) (\<lambda>_.
               bnd (upd_task cur_task (\<lambda>t. t\<lparr>t_ticks := t_prio t\<rparr>)) (\<lambda>_.
               bnd (k_elem_find ReadyTasks (GeneralTag cur_task)) (\<lambda>found.
               bnd (ASSERT (\<not> found)) (\<lambda>_.
               k_list_append ReadyTasks (GeneralTag cur_task))))))
          else ret ()) (\<lambda>_.
     bnd (k_list_empty ReadyTasks) (\<lambda>empty.
     bnd (if empty then bnd (kget idle_task) task_unblock else ret ()) (\<lambda>_.
     bnd (k_list_pop ReadyTasks) (\<lambda>p.
     bnd (of_res (entry_general p)) (\<lambda>nxt.
     bnd (set_status nxt TASK_RUNNING) (\<lambda>_.
     bnd (kput (\<lambda>s. s\<lparr>ist2 := nxt + PG_SIZE\<rparr>)) (\<lambda>_.
     switch_to cur_task nxt)))))))))))"

definition task_block :: "task_status \<Rightarrow> ('z kstate_scheme, unit) kcall" where
  "task_block status =
     bnd (ASSERT (status = TASK_BLOCKED \<or> status = TASK_HANGING \<or> status = TASK_WAITING)) (\<lambda>_.
     bnd (set_intr_stat intr_off) (\<lambda>old_stat.
     bnd running_task (\<lambda>cur.
     bnd (set_status cur status) (\<lambda>_.
     bnd schedule (\<lambda>_.
     bnd (set_intr_stat old_stat) (\<lambda>_.
     ret ()))))))"

definition task_yield :: "('z kstate_scheme, unit) kcall" where
  "task_yield =
     bnd running_task (\<lambda>cur.
     bnd (set_intr_stat intr_off) (\<lambda>old_stat.
     bnd (k_elem_find ReadyTasks (GeneralTag cur)) (\<lambda>found.
     bnd (ASSERT (\<not> found)) (\<lambda>_.
     bnd (k_list_append ReadyTasks (GeneralTag cur)) (\<lambda>_.
     bnd (set_status cur TASK_READY) (\<lambda>_.
     bnd schedule (\<lambda>_.
     bnd (set_intr_stat old_stat) (\<lambda>_.
     ret ()))))))))"

text \<open>The handler of interrupt \<^verbatim>\<open>0x20\<close>. An interrupt gate clears the interrupt flag before it runs.\<close>

definition intr_time_handle :: "('z kstate_scheme, unit) kcall" where
  "intr_time_handle =
     bnd running_task (\<lambda>cur_task.
     bnd (get_task cur_task) (\<lambda>t.
     bnd (ASSERT (t_stack_magic t = STACK_MAGIC)) (\<lambda>_.
     bnd (kput (\<lambda>s. s\<lparr>clock_ticks := clock_ticks s + 1\<rparr>)) (\<lambda>_.
     (if t_ticks t = 0 then schedule
      else upd_task cur_task (\<lambda>t. t\<lparr>t_ticks := t_ticks t - 1\<rparr>))))))"

lemmas sched_ops_defs [kdefs] =
  get_intr_stat_def set_intr_stat_def running_task_def task_unblock_def switch_to_def
  schedule_def task_block_def task_yield_def intr_time_handle_def

section \<open>The invariant\<close>

definition aligned :: "u64 \<Rightarrow> bool" where
  "aligned t \<longleftrightarrow> t AND 0xfff = 0"

definition sched_ok ::
  "'z kstate_scheme \<Rightarrow> u64 \<Rightarrow> u64 list \<Rightarrow> (sema \<Rightarrow> u64 list) \<Rightarrow> bool" where
  "sched_ok s cur rs ws \<longleftrightarrow>
     ist2 s = cur + PG_SIZE \<and> aligned cur \<and> aligned (idle_task s) \<and> list_all aligned rs \<and>
     (\<forall>p. list_all aligned (ws p)) \<and>
     tq s ReadyTasks rs \<and> (\<forall>p. tq s (Waiters p) (ws p)) \<and>
     (\<forall>p. set rs \<inter> set (ws p) = {}) \<and> (\<forall>p q. p \<noteq> q \<longrightarrow> set (ws p) \<inter> set (ws q) = {}) \<and>
     (\<forall>p. \<forall>t \<in> set (ws p). t_status (tasks s t) = TASK_BLOCKED) \<and>
     (\<forall>p. idle_task s \<notin> set (ws p)) \<and>
     (idle_task s \<in> set rs \<or> blockable (t_status (tasks s (idle_task s))) \<or>
      idle_task s = cur \<and> t_status (tasks s (idle_task s)) = TASK_RUNNING)"

text \<open>\<open>run_ok\<close>: the state in which a task runs its own code, outside the scheduler.\<close>

definition run_ok ::
  "'z kstate_scheme \<Rightarrow> u64 \<Rightarrow> u64 list \<Rightarrow> (sema \<Rightarrow> u64 list) \<Rightarrow> bool" where
  "run_ok s cur rs ws \<longleftrightarrow> sched_ok s cur rs ws \<and> cur \<notin> set rs \<and> (\<forall>p. cur \<notin> set (ws p)) \<and>
     t_status (tasks s cur) = TASK_RUNNING"

text \<open>The state after \<open>nxt\<close> was dispatched in place of \<open>cur\<close>, with links \<open>h\<close>.\<close>

definition dispatched :: "'z kstate_scheme \<Rightarrow> u64 \<Rightarrow> u64 \<Rightarrow> elem heap \<Rightarrow> 'z kstate_scheme" where
  "dispatched s cur nxt h =
     (let ts = (tasks s)(nxt := (tasks s nxt)\<lparr>t_status := TASK_RUNNING\<rparr>);
          ts = ts(cur := (ts cur)\<lparr>t_rbp := frame s\<rparr>)
      in s\<lparr>links := h, tasks := ts, ist2 := nxt + PG_SIZE,
           cr3 := t_pml4 (ts nxt) - kernel_addr_base, frame := t_rbp (ts nxt)\<rparr>)"

definition switched :: "u64 \<Rightarrow> u64 \<Rightarrow> 's \<Rightarrow> (unit, 's) run" where
  "switched cur nxt s = (if cur = nxt then Ret () s else Sleep s)"

lemma dispatched_simps [simp]:
  "links (dispatched s c n h) = h" "ist2 (dispatched s c n h) = n + PG_SIZE"
  "idle_task (dispatched s c n h) = idle_task s" "init_proc (dispatched s c n h) = init_proc s"
  "sema_value (dispatched s c n h) = sema_value s" "intr_flag (dispatched s c n h) = intr_flag s"
  "kernel_mem_pool (dispatched s c n h) = kernel_mem_pool s"
  "phy_mem_pool (dispatched s c n h) = phy_mem_pool s"
  "pid_bitmap (dispatched s c n h) = pid_bitmap s"
  "clock_ticks (dispatched s c n h) = clock_ticks s"
  "t_status (tasks (dispatched s c n h) t) = (if t = n then TASK_RUNNING else t_status (tasks s t))"
  "t_ticks (tasks (dispatched s c n h) t) = t_ticks (tasks s t)"
  "t_prio (tasks (dispatched s c n h) t) = t_prio (tasks s t)"
  "t_pid (tasks (dispatched s c n h) t) = t_pid (tasks s t)"
  "t_parent_task (tasks (dispatched s c n h) t) = t_parent_task (tasks s t)"
  "t_pml4 (tasks (dispatched s c n h) t) = t_pml4 (tasks s t)"
  "t_stack_magic (tasks (dispatched s c n h) t) = t_stack_magic (tasks s t)"
  "cr3 (dispatched s c n h) = t_pml4 (tasks s n) - kernel_addr_base"
  by (simp_all add: dispatched_def Let_def)

lemma set_intr_stat_eq [simp]:
  "set_intr_stat v s = Ret (intr_flag s) (s\<lparr>intr_flag := v\<rparr>)"
  by (cases v) (simp_all add: set_intr_stat_def get_intr_stat_def run_simps)

lemma intr_flag_same [simp]: "intr_flag s = v \<Longrightarrow> s\<lparr>intr_flag := v\<rparr> = s"
  by simp

lemma running_task_eq [simp]:
  "ist2 s = cur + PG_SIZE \<Longrightarrow> aligned cur \<Longrightarrow> running_task s = Ret cur s"
  by (simp add: running_task_def run_simps aligned_def)

section \<open>What each operation does\<close>

lemma sched_okD:
  assumes "sched_ok s cur rs ws"
  shows "ist2 s = cur + PG_SIZE" "aligned cur" "aligned (idle_task s)" "list_all aligned rs"
    "tq s ReadyTasks rs" "tq s (Waiters p) (ws p)" "set rs \<inter> set (ws p) = {}"
    "list_all aligned (ws p)" "idle_task s \<notin> set (ws p)"
    "t \<in> set (ws p) \<Longrightarrow> t_status (tasks s t) = TASK_BLOCKED"
  using assms by (simp_all add: sched_ok_def)

text \<open>The invariant reads four things of the state.\<close>

lemma sched_ok_cong:
  assumes "ist2 s' = ist2 s" "idle_task s' = idle_task s" "links s' = links s"
    "\<And>t. t_status (tasks s' t) = t_status (tasks s t)"
  shows "sched_ok s' cur rs ws = sched_ok s cur rs ws"
  using assms by (simp add: sched_ok_def tq_def)

lemma run_ok_cong:
  assumes "ist2 s' = ist2 s" "idle_task s' = idle_task s" "links s' = links s"
    "\<And>t. t_status (tasks s' t) = t_status (tasks s t)"
  shows "run_ok s' cur rs ws = run_ok s cur rs ws"
  using sched_ok_cong[OF assms] assms(4) by (simp add: run_ok_def)

lemma sched_ok_upd [simp]:
  "sched_ok (intr_flag_update f_intr_flag s) cur rs ws = sched_ok s cur rs ws"
  "sched_ok (cr3_update f_cr3 s) cur rs ws = sched_ok s cur rs ws"
  "sched_ok (frame_update f_frame s) cur rs ws = sched_ok s cur rs ws"
  "sched_ok (sema_value_update f_sema_value s) cur rs ws = sched_ok s cur rs ws"
  "sched_ok (pid_bitmap_update f_pid_bitmap s) cur rs ws = sched_ok s cur rs ws"
  "sched_ok (kernel_mem_pool_update f_kernel_mem_pool s) cur rs ws = sched_ok s cur rs ws"
  "sched_ok (phy_mem_pool_update f_phy_mem_pool s) cur rs ws = sched_ok s cur rs ws"
  "sched_ok (arenas_update f_arenas s) cur rs ws = sched_ok s cur rs ws"
  "sched_ok (clock_ticks_update f_clock_ticks s) cur rs ws = sched_ok s cur rs ws"
  by (simp_all cong: sched_ok_cong)

lemma run_ok_upd [simp]:
  "run_ok (intr_flag_update f_intr_flag s) cur rs ws = run_ok s cur rs ws"
  "run_ok (cr3_update f_cr3 s) cur rs ws = run_ok s cur rs ws"
  "run_ok (frame_update f_frame s) cur rs ws = run_ok s cur rs ws"
  "run_ok (sema_value_update f_sema_value s) cur rs ws = run_ok s cur rs ws"
  "run_ok (pid_bitmap_update f_pid_bitmap s) cur rs ws = run_ok s cur rs ws"
  "run_ok (kernel_mem_pool_update f_kernel_mem_pool s) cur rs ws = run_ok s cur rs ws"
  "run_ok (phy_mem_pool_update f_phy_mem_pool s) cur rs ws = run_ok s cur rs ws"
  "run_ok (arenas_update f_arenas s) cur rs ws = run_ok s cur rs ws"
  "run_ok (clock_ticks_update f_clock_ticks s) cur rs ws = run_ok s cur rs ws"
  by (simp_all cong: run_ok_cong)

lemma task_unblock_ok:
  assumes "tq s ReadyTasks rs" "t \<notin> set rs" "blockable (t_status (tasks s t))"
  shows "\<exists>h. task_unblock t s = Ret () (s\<lparr>links := h\<rparr>) \<and> tq (s\<lparr>links := h\<rparr>) ReadyTasks (t # rs) \<and>
    agree_off (tags ReadyTasks (t # rs)) (links s) h"
proof -
  obtain h where h: "list_push (links s) (lst_of ReadyTasks) (GeneralTag t) = Inr h"
      "tq (s\<lparr>links := h\<rparr>) ReadyTasks (t # rs)" "agree_off (tags ReadyTasks (t # rs)) (links s) h"
    using tq_push[OF assms(1,2)] by blast
  then show ?thesis
    using assms tq_find[OF assms(1), of t]
    by (intro exI[of _ h]) (simp add: task_unblock_def run_simps)
qed

lemma task_unblock_fails:
  assumes "tq s ReadyTasks rs" "t \<in> set rs \<or> \<not> blockable (t_status (tasks s t))"
  shows "task_unblock t s = Fail AssertFail"
  using assms tq_find[OF assms(1), of t] by (auto simp: task_unblock_def run_simps)

text \<open>The queue \<^verbatim>\<open>schedule\<close> pops from: the ready list, or the idle task alone.\<close>

definition candidates :: "'z kstate_scheme \<Rightarrow> u64 list \<Rightarrow> u64 list" where
  "candidates s rs = (if rs = [] then [idle_task s] else rs)"

lemma candidates_nonempty [simp]: "candidates s rs \<noteq> []"
  by (simp add: candidates_def)

lemma sched_ok_dispatched:
  assumes ok: "sched_ok s cur rs ws" and q: "candidates s rs = nxt # qs"
    and ready: "tq (s\<lparr>links := h\<rparr>) ReadyTasks qs"
    and off: "agree_off (tags ReadyTasks (idle_task s # rs)) (links s) h"
    and idle: "cur = nxt \<or> t_status (tasks s cur) \<noteq> TASK_RUNNING"
  shows "run_ok (dispatched s cur nxt h) nxt qs ws"
proof -
  have al: "aligned nxt" "list_all aligned qs" and sub: "set qs \<subseteq> set rs"
      and nr: "nxt = idle_task s \<or> nxt \<in> set rs" and dis: "distinct (nxt # qs)"
    using q sched_okD(2-4)[OF ok] tq_distinct[OF sched_okD(5)[OF ok]]
    by (auto simp: candidates_def split: if_splits)
  have nw: "nxt \<notin> set (ws p)" for p
    using nr sched_okD(7,9)[OF ok, of p] by auto
  have w: "tq (dispatched s cur nxt h) (Waiters p) (ws p)" for p
  proof (rule tq_frame[OF sched_okD(6)[OF ok, of p]])
    show "agree_off (tags ReadyTasks (idle_task s # rs)) (links s) (links (dispatched s cur nxt h))"
      using off by simp
    show "tags ReadyTasks (idle_task s # rs) \<inter> tags (Waiters p) (ws p) = {}"
      using sched_okD(7,9)[OF ok, of p] by (intro tags_disjoint) auto
  qed
  have "tq (dispatched s cur nxt h) ReadyTasks qs" using ready by (simp add: tq_def)
  moreover have "idle_task s \<in> set qs \<or> blockable (t_status (tasks s (idle_task s))) \<or> idle_task s = nxt"
    using ok q idle by (auto simp: sched_ok_def candidates_def split: if_splits)
  ultimately show ?thesis
    unfolding run_ok_def
  proof (intro conjI allI)
    show "sched_ok (dispatched s cur nxt h) nxt qs ws"
      using ok al sub nw w \<open>tq (dispatched s cur nxt h) ReadyTasks qs\<close>
        \<open>idle_task s \<in> set qs \<or> blockable (t_status (tasks s (idle_task s))) \<or> idle_task s = nxt\<close>
      by (fastforce simp: sched_ok_def)
  qed (use dis nw in auto)
qed

lemma schedule_core:
  assumes ok: "sched_ok s cur rs ws" and "intr_flag s = intr_off"
    and st: "t_status (tasks s cur) \<noteq> TASK_RUNNING"
    and q: "candidates s rs = nxt # qs"
  shows "\<exists>h. schedule s = switched cur nxt (dispatched s cur nxt h) \<and>
    run_ok (dispatched s cur nxt h) nxt qs ws \<and>
    agree_off (tags ReadyTasks (idle_task s # rs)) (links s) h"
proof -
  note run = running_task_eq[OF sched_okD(1,2)[OF ok]]
  have "\<exists>h1. (if list_empty (links s) (lst_of ReadyTasks)
        then task_unblock (idle_task s) s = Ret () (s\<lparr>links := h1\<rparr>) else h1 = links s) \<and>
      tq (s\<lparr>links := h1\<rparr>) ReadyTasks (nxt # qs) \<and>
      agree_off (tags ReadyTasks (idle_task s # rs)) (links s) h1"
  proof (cases "rs = []")
    case True
    have "blockable (t_status (tasks s (idle_task s)))"
      using ok st True by (auto simp: sched_ok_def)
    then show ?thesis
      using task_unblock_ok[of s "[]" "idle_task s"] True q sched_okD(5)[OF ok]
        tq_empty[OF sched_okD(5)[OF ok]]
      by (auto simp: candidates_def)
  next
    case False
    then show ?thesis
      using q sched_okD(5)[OF ok] tq_empty[OF sched_okD(5)[OF ok]]
      by (auto simp: candidates_def agree_off_def)
  qed
  then obtain h1 where h1: "if list_empty (links s) (lst_of ReadyTasks)
        then task_unblock (idle_task s) s = Ret () (s\<lparr>links := h1\<rparr>) else h1 = links s"
      "tq (s\<lparr>links := h1\<rparr>) ReadyTasks (nxt # qs)"
      "agree_off (tags ReadyTasks (idle_task s # rs)) (links s) h1" by blast
  obtain h where h: "list_pop h1 (lst_of ReadyTasks) = Inr (Some (GeneralTag nxt), h)"
      "tq (s\<lparr>links := h\<rparr>) ReadyTasks qs" "agree_off (tags ReadyTasks qs) h1 h"
    using tq_pop[OF h1(2)] by auto
  have "set qs \<subseteq> set rs" using q by (auto simp: candidates_def split: if_splits)
  then have off: "agree_off (tags ReadyTasks (idle_task s # rs)) (links s) h"
    by (intro agree_off_mono[OF agree_off_trans[OF h1(3) h(3)]]) (auto simp: tags_def)
  have "schedule s = switched cur nxt (dispatched s cur nxt h)"
    using h1(1) h(1) st assms(2) run
    by (auto simp: schedule_def get_intr_stat_def run_simps switch_to_def switched_def
        dispatched_def Let_def split: if_splits)
  then show ?thesis using sched_ok_dispatched[OF ok q h(2) off] off st by blast
qed

text \<open>A task that leaves the processor with status \<open>st\<close>, interrupts off.\<close>

definition leaving :: "'z kstate_scheme \<Rightarrow> u64 \<Rightarrow> task_status \<Rightarrow> 'z kstate_scheme" where
  "leaving s cur st =
     s\<lparr>intr_flag := intr_off, tasks := (tasks s)(cur := (tasks s cur)\<lparr>t_status := st\<rparr>)\<rparr>"

lemma leaving_simps [simp]:
  "links (leaving s c st) = links s" "idle_task (leaving s c st) = idle_task s"
  "intr_flag (leaving s c st) = intr_off" "sema_value (leaving s c st) = sema_value s"
  "ist2 (leaving s c st) = ist2 s" "tq (leaving s c st) l ts = tq s l ts"
  "t_status (tasks (leaving s c st) t) = (if t = c then st else t_status (tasks s t))"
  "candidates (leaving s c st) rs = candidates s rs"
  by (simp_all add: leaving_def tq_def candidates_def)

lemma switched_bnd:
  "m s = switched cur nxt t \<Longrightarrow> cur \<noteq> nxt \<Longrightarrow> bnd m k s = Sleep t"
  "m s = switched cur cur t \<Longrightarrow> bnd m k s = k () t"
  by (simp_all add: switched_def)

lemma task_block_ok:
  assumes "blockable st" and ok: "sched_ok (leaving s cur st) cur rs ws"
    and q: "candidates s rs = nxt # qs" and "cur \<noteq> nxt"
  shows "\<exists>h. task_block st s = Sleep (dispatched (leaving s cur st) cur nxt h) \<and>
    run_ok (dispatched (leaving s cur st) cur nxt h) nxt qs ws \<and>
    agree_off (tags ReadyTasks (idle_task s # rs)) (links s) h"
proof -
  let ?s = "leaving s cur st"
  have "running_task (s\<lparr>intr_flag := intr_off\<rparr>) = Ret cur (s\<lparr>intr_flag := intr_off\<rparr>)"
    using sched_okD(1,2)[OF ok] by (intro running_task_eq) auto
  then have "task_block st s = bnd schedule (\<lambda>_. bnd (set_intr_stat (intr_flag s)) (\<lambda>_. ret ())) ?s"
    using assms(1) by (auto simp: task_block_def run_simps blockable_def leaving_def)
  moreover obtain h where "schedule ?s = switched cur nxt (dispatched ?s cur nxt h)"
      "run_ok (dispatched ?s cur nxt h) nxt qs ws"
      "agree_off (tags ReadyTasks (idle_task s # rs)) (links s) h"
    using schedule_core[OF ok, of nxt qs] assms(1) q by (auto simp: blockable_def)
  ultimately show ?thesis using assms(4) switched_bnd(1) by fastforce
qed

lemma sched_ok_leaving:
  assumes "run_ok s cur rs ws" "blockable st"
  shows "sched_ok (leaving s cur st) cur rs ws"
  using assms by (auto simp: run_ok_def sched_ok_def)

text \<open>The running task at the end of the ready list.\<close>

lemma sched_ok_requeue:
  assumes ok: "run_ok s cur rs ws"
    and tq': "tq (s\<lparr>links := h\<rparr>) ReadyTasks (rs @ [cur])"
    and off: "agree_off (tags ReadyTasks (cur # rs)) (links s) h"
    and ts: "\<And>t. t_status (ts t) = (if t = cur then TASK_READY else t_status (tasks s t))"
  shows "sched_ok (s\<lparr>links := h, tasks := ts\<rparr>) cur (rs @ [cur]) ws"
proof -
  have sok: "sched_ok s cur rs ws" and nw: "cur \<notin> set (ws p)" for p
    using ok by (auto simp: run_ok_def)
  have "tq (s\<lparr>links := h\<rparr>) (Waiters p) (ws p)" for p
  proof (rule tq_frame[OF sched_okD(6)[OF sok, of p]])
    show "agree_off (tags ReadyTasks (cur # rs)) (links s) (links (s\<lparr>links := h\<rparr>))" using off by simp
    show "tags ReadyTasks (cur # rs) \<inter> tags (Waiters p) (ws p) = {}"
      using sched_okD(7)[OF sok, of p] nw by (intro tags_disjoint) auto
  qed
  then show ?thesis
    using sok tq' nw ts by (auto simp: sched_ok_def tq_def)
qed

lemma task_yield_ok:
  assumes ok: "run_ok s cur rs ws" and q: "rs @ [cur] = nxt # qs"
  shows "\<exists>h. task_yield s =
      (if cur = nxt then Ret () ((dispatched (leaving s cur TASK_READY) cur nxt h)\<lparr>intr_flag := intr_flag s\<rparr>)
       else Sleep (dispatched (leaving s cur TASK_READY) cur nxt h)) \<and>
    run_ok (dispatched (leaving s cur TASK_READY) cur nxt h) nxt qs ws"
proof -
  have sok: "sched_ok s cur rs ws" and nr: "cur \<notin> set rs" using ok by (auto simp: run_ok_def)
  obtain h0 where h0: "list_append (links s) (lst_of ReadyTasks) (GeneralTag cur) = Inr h0"
      "tq (s\<lparr>links := h0\<rparr>) ReadyTasks (rs @ [cur])" "agree_off (tags ReadyTasks (cur # rs)) (links s) h0"
    using tq_append[OF sched_okD(5)[OF sok] nr] by blast
  let ?s = "(leaving s cur TASK_READY)\<lparr>links := h0\<rparr>"
  have "sched_ok (s\<lparr>links := h0, tasks := tasks ?s\<rparr>) cur (rs @ [cur]) ws"
    by (rule sched_ok_requeue[OF ok h0(2,3)]) simp
  then have "sched_ok ?s cur (rs @ [cur]) ws"
    by (rule sched_ok_cong[THEN iffD1, rotated -1]) (simp_all add: leaving_def)
  then obtain h where h: "schedule ?s = switched cur nxt (dispatched ?s cur nxt h)"
      "run_ok (dispatched ?s cur nxt h) nxt qs ws"
    using schedule_core[of ?s cur "rs @ [cur]" ws nxt qs] q
    by (auto simp: candidates_def)
  have d: "dispatched ?s cur nxt h = dispatched (leaving s cur TASK_READY) cur nxt h"
    by (simp add: dispatched_def Let_def leaving_def)
  have "task_yield s = bnd schedule (\<lambda>_. bnd (set_intr_stat (intr_flag s)) (\<lambda>_. ret ())) ?s"
    using sched_okD(1,2)[OF sok] tq_find[OF sched_okD(5)[OF sok], of cur] nr h0(1)
    by (simp add: task_yield_def run_simps leaving_def)
  then show ?thesis
    using h unfolding d by (intro exI[of _ h]) (auto simp: run_simps switched_def)
qed

lemma schedule_preempts:
  assumes ok: "run_ok s cur rs ws" and "intr_flag s = intr_off" "t_ticks (tasks s cur) = 0"
    and q: "rs @ [cur] = nxt # qs"
  shows "\<exists>h. let s1 = s\<lparr>tasks := (tasks s)(cur := (tasks s cur)\<lparr>t_status := TASK_READY,
                      t_ticks := t_prio (tasks s cur)\<rparr>)\<rparr>
    in schedule s = switched cur nxt (dispatched s1 cur nxt h) \<and>
       run_ok (dispatched s1 cur nxt h) nxt qs ws"
proof -
  have sok: "sched_ok s cur rs ws" and nr: "cur \<notin> set rs" and st: "t_status (tasks s cur) = TASK_RUNNING"
    using ok by (auto simp: run_ok_def)
  obtain h0 where h0: "list_append (links s) (lst_of ReadyTasks) (GeneralTag cur) = Inr h0"
      "tq (s\<lparr>links := h0\<rparr>) ReadyTasks (rs @ [cur])" "agree_off (tags ReadyTasks (cur # rs)) (links s) h0"
    using tq_append[OF sched_okD(5)[OF sok] nr] by blast
  define s1 where "s1 = s\<lparr>tasks := (tasks s)(cur := (tasks s cur)\<lparr>t_status := TASK_READY,
                      t_ticks := t_prio (tasks s cur)\<rparr>)\<rparr>"
  let ?s = "s1\<lparr>links := h0\<rparr>"
  have "sched_ok (s\<lparr>links := h0, tasks := tasks s1\<rparr>) cur (rs @ [cur]) ws"
    by (rule sched_ok_requeue[OF ok h0(2,3)]) (simp add: s1_def)
  then have sok1: "sched_ok ?s cur (rs @ [cur]) ws"
    by (rule sched_ok_cong[THEN iffD1, rotated -1]) (simp_all add: s1_def)
  then obtain h where h: "schedule ?s = switched cur nxt (dispatched ?s cur nxt h)"
      "run_ok (dispatched ?s cur nxt h) nxt qs ws"
    using schedule_core[of ?s cur "rs @ [cur]" ws nxt qs] q assms(2)
    by (auto simp: candidates_def s1_def)
  have d: "dispatched ?s cur nxt h = dispatched s1 cur nxt h"
    by (simp add: dispatched_def Let_def s1_def)
  have "schedule s = schedule ?s"
    using sched_okD(1,2)[OF sok] tq_find[OF sched_okD(5)[OF sok], of cur] nr h0(1) st assms(2,3)
    by (simp add: schedule_def run_simps s1_def get_intr_stat_def)
  then show ?thesis using h unfolding d s1_def[symmetric] Let_def by metis
qed

lemma intr_time_handle_ok:
  assumes ok: "run_ok s cur rs ws" and "intr_flag s = intr_off"
    and magic: "t_stack_magic (tasks s cur) = STACK_MAGIC"
  shows "if t_ticks (tasks s cur) = 0
    then \<exists>s'. intr_time_handle s = switched cur (hd (rs @ [cur])) s' \<and>
           run_ok s' (hd (rs @ [cur])) (tl (rs @ [cur])) ws \<and>
           clock_ticks s' = clock_ticks s + 1 \<and> t_ticks (tasks s' cur) = t_prio (tasks s cur) \<and>
           idle_task s' = idle_task s \<and> sema_value s' = sema_value s
    else \<exists>s'. intr_time_handle s = Ret () s' \<and> run_ok s' cur rs ws \<and>
           clock_ticks s' = clock_ticks s + 1 \<and> t_ticks (tasks s' cur) = t_ticks (tasks s cur) - 1 \<and>
           idle_task s' = idle_task s \<and> sema_value s' = sema_value s"
proof -
  have sok: "sched_ok s cur rs ws" using ok by (simp add: run_ok_def)
  let ?s = "s\<lparr>clock_ticks := clock_ticks s + 1\<rparr>"
  have ok': "run_ok ?s cur rs ws" using ok by simp
  have eq: "intr_time_handle s = (if t_ticks (tasks s cur) = 0 then schedule
      else upd_task cur (\<lambda>t. t\<lparr>t_ticks := t_ticks t - 1\<rparr>)) ?s"
    using sched_okD(1,2)[OF sok] magic by (simp add: intr_time_handle_def run_simps)
  show ?thesis
  proof (cases "t_ticks (tasks s cur) = 0")
    case True
    obtain nxt qs where q: "rs @ [cur] = nxt # qs" by (cases "rs @ [cur]") auto
    show ?thesis
      using schedule_preempts[OF ok' _ _ q] assms(2) True q by (auto simp: eq Let_def)
  next
    case False
    let ?t = "?s\<lparr>tasks := (tasks s)(cur := (tasks s cur)\<lparr>t_ticks := t_ticks (tasks s cur) - 1\<rparr>)\<rparr>"
    have "run_ok ?t cur rs ws" by (rule run_ok_cong[THEN iffD2, OF _ _ _ _ ok']) auto
    then show ?thesis using False by (simp add: eq run_simps)
  qed
qed

section \<open>The abstract run queue\<close>

text \<open>
  What the scheduler promises, without links and structures: a running task, a queue of ready
  tasks and the idle task that runs when the queue is empty.
\<close>

record runq =
  rq_cur :: u64
  rq_ready :: "u64 list"
  rq_idle :: u64

definition rq_next :: "runq \<Rightarrow> runq" where
  "rq_next q = (case rq_ready q of [] \<Rightarrow> q\<lparr>rq_cur := rq_idle q\<rparr>
                | t # ts \<Rightarrow> q\<lparr>rq_cur := t, rq_ready := ts\<rparr>)"

datatype sched_op = Yield | Block task_status | Unblock u64 | Tick

fun rq_step :: "sched_op \<Rightarrow> bool \<Rightarrow> runq \<Rightarrow> runq" where
  "rq_step Yield _ q = rq_next (q\<lparr>rq_ready := rq_ready q @ [rq_cur q]\<rparr>)"
| "rq_step (Block _) _ q = rq_next q"
| "rq_step (Unblock t) _ q = q\<lparr>rq_ready := t # rq_ready q\<rparr>"
| "rq_step Tick expired q =
     (if expired then rq_next (q\<lparr>rq_ready := rq_ready q @ [rq_cur q]\<rparr>) else q)"

fun sched_call :: "sched_op \<Rightarrow> ('z kstate_scheme, unit) kcall" where
  "sched_call Yield = task_yield"
| "sched_call (Block st) = task_block st"
| "sched_call (Unblock t) = task_unblock t"
| "sched_call Tick = intr_time_handle"

text \<open>When each operation may be called.\<close>

fun sched_pre :: "sched_op \<Rightarrow> 'z kstate_scheme \<Rightarrow> u64 \<Rightarrow> u64 list \<Rightarrow> (sema \<Rightarrow> u64 list) \<Rightarrow> bool" where
  "sched_pre Yield s cur rs ws \<longleftrightarrow> True"
| "sched_pre (Block st) s cur rs ws \<longleftrightarrow> blockable st \<and> (rs = [] \<longrightarrow> cur \<noteq> idle_task s)"
| "sched_pre (Unblock t) s cur rs ws \<longleftrightarrow> blockable (t_status (tasks s t)) \<and> t \<notin> set rs \<and>
     aligned t \<and> (\<forall>p. t \<notin> set (ws p))"
| "sched_pre Tick s cur rs ws \<longleftrightarrow>
     intr_flag s = intr_off \<and> t_stack_magic (tasks s cur) = STACK_MAGIC"

definition runq_of :: "'z kstate_scheme \<Rightarrow> u64 \<Rightarrow> u64 list \<Rightarrow> runq" where
  "runq_of s cur rs = \<lparr>rq_cur = cur, rq_ready = rs, rq_idle = idle_task s\<rparr>"

definition refines_runq ::
  "(unit, 'z kstate_scheme) run \<Rightarrow> u64 \<Rightarrow> runq \<Rightarrow> (sema \<Rightarrow> u64 list) \<Rightarrow> bool" where
  "refines_runq r cur q ws \<longleftrightarrow>
     (\<exists>s'. r = switched cur (rq_cur q) s' \<and> run_ok s' (rq_cur q) (rq_ready q) ws \<and>
           idle_task s' = rq_idle q)"

lemma runq_of_next:
  assumes "rs @ [cur] = nxt # qs"
  shows "rq_next ((runq_of s cur rs)\<lparr>rq_ready := rs @ [cur]\<rparr>) = \<lparr>rq_cur = nxt, rq_ready = qs, rq_idle = idle_task s\<rparr>"
  using assms by (simp add: runq_of_def rq_next_def)

lemma run_ok_push:
  assumes ok: "run_ok s cur rs ws" and t: "t \<notin> set rs" "aligned t" "\<forall>p. t \<notin> set (ws p)" "t \<noteq> cur"
    and "tq (s\<lparr>links := h\<rparr>) ReadyTasks (t # rs)" "agree_off (tags ReadyTasks (t # rs)) (links s) h"
  shows "run_ok (s\<lparr>links := h\<rparr>) cur (t # rs) ws"
proof -
  have sok: "sched_ok s cur rs ws" using ok by (simp add: run_ok_def)
  have "tq (s\<lparr>links := h\<rparr>) (Waiters p) (ws p)" for p
  proof (rule tq_frame[OF sched_okD(6)[OF sok, of p]])
    show "agree_off (tags ReadyTasks (t # rs)) (links s) (links (s\<lparr>links := h\<rparr>))" using assms(7) by simp
    show "tags ReadyTasks (t # rs) \<inter> tags (Waiters p) (ws p) = {}"
      using sched_okD(7)[OF sok, of p] t by (intro tags_disjoint) auto
  qed
  then show ?thesis using ok t assms(6) by (auto simp: run_ok_def sched_ok_def)
qed

lemma sched_refines:
  assumes ok: "run_ok s cur rs ws" and pre: "sched_pre c s cur rs ws"
  shows "refines_runq (sched_call c s) cur
    (rq_step c (t_ticks (tasks s cur) = 0) (runq_of s cur rs)) ws"
proof (cases c)
  case Yield
  obtain nxt qs where q: "rs @ [cur] = nxt # qs" by (cases "rs @ [cur]") auto
  obtain h where h: "task_yield s =
      (if cur = nxt then Ret () ((dispatched (leaving s cur TASK_READY) cur nxt h)\<lparr>intr_flag := intr_flag s\<rparr>)
       else Sleep (dispatched (leaving s cur TASK_READY) cur nxt h))"
      "run_ok (dispatched (leaving s cur TASK_READY) cur nxt h) nxt qs ws"
    using task_yield_ok[OF ok q] by blast
  have "run_ok ((dispatched (leaving s cur TASK_READY) cur nxt h)\<lparr>intr_flag := intr_flag s\<rparr>) nxt qs ws"
    using h(2) by simp
  then show ?thesis
    using h Yield q runq_of_next[OF q, of s] by (auto simp: refines_runq_def switched_def runq_of_def)
next
  case (Block st)
  obtain nxt qs where q: "candidates s rs = nxt # qs" by (cases "candidates s rs") auto
  have "cur \<noteq> nxt" using q ok pre Block by (auto simp: candidates_def run_ok_def split: if_splits)
  moreover have st: "blockable st" using pre Block by simp
  ultimately obtain h where "task_block st s = Sleep (dispatched (leaving s cur st) cur nxt h)"
      "run_ok (dispatched (leaving s cur st) cur nxt h) nxt qs ws"
    using task_block_ok[OF st sched_ok_leaving[OF ok st] q] by blast
  then show ?thesis
    using \<open>cur \<noteq> nxt\<close> Block q
    by (auto simp: refines_runq_def switched_def runq_of_def rq_next_def candidates_def split: if_splits list.splits)
next
  case (Unblock t)
  have sok: "sched_ok s cur rs ws" and "t \<noteq> cur" using ok pre Unblock by (auto simp: run_ok_def blockable_def)
  then show ?thesis
    using task_unblock_ok[OF sched_okD(5)[OF sok], of t] run_ok_push[OF ok, of t] pre Unblock
    by (auto simp: refines_runq_def switched_def runq_of_def)
next
  case Tick
  obtain nxt qs where q: "rs @ [cur] = nxt # qs" by (cases "rs @ [cur]") auto
  show ?thesis
    using intr_time_handle_ok[OF ok] pre Tick q runq_of_next[OF q, of s]
    by (fastforce simp: refines_runq_def switched_def runq_of_def split: if_splits)
qed

section \<open>Runs of the scheduler\<close>

text \<open>The state a call leaves to the task that runs next, whether or not it switched.\<close>

definition after :: "(unit, 's) run \<Rightarrow> 's option" where
  "after r = (case r of Ret _ s \<Rightarrow> Some s | Sleep s \<Rightarrow> Some s | Fail _ \<Rightarrow> None)"

lemma after_switched [simp]: "after (switched c n s) = Some s"
  by (simp add: after_def switched_def)

text \<open>One \<^verbatim>\<open>task_yield\<close> after another, each by the task that is then running, with interrupts in any state.\<close>

fun yields :: "intr_stat list \<Rightarrow> 'z kstate_scheme \<Rightarrow> 'z kstate_scheme option" where
  "yields [] s = Some s"
| "yields (i # is) s = Option.bind (after (task_yield (s\<lparr>intr_flag := i\<rparr>))) (yields is)"

text \<open>\<open>n\<close> timer interrupts in a row.\<close>

fun time_passes :: "nat \<Rightarrow> 'z kstate_scheme \<Rightarrow> 'z kstate_scheme option" where
  "time_passes 0 s = Some s"
| "time_passes (Suc n) s = Option.bind (after (intr_time_handle (s\<lparr>intr_flag := intr_off\<rparr>))) (time_passes n)"

lemma yields_rotate:
  assumes "run_ok s cur rs ws"
  shows "\<exists>s'. yields is s = Some s' \<and>
    run_ok s' (hd (rotate (length is) (cur # rs))) (tl (rotate (length is) (cur # rs))) ws"
  using assms
proof (induction "is" arbitrary: s cur rs)
  case (Cons i "is")
  let ?s = "s\<lparr>intr_flag := i\<rparr>"
  obtain nxt qs where q: "rs @ [cur] = nxt # qs" by (cases "rs @ [cur]") auto
  have "refines_runq (task_yield ?s) cur (rq_step Yield (t_ticks (tasks ?s cur) = 0) (runq_of ?s cur rs)) ws"
    using sched_refines[of ?s cur rs ws Yield] Cons.prems by simp
  then obtain s' where s': "after (task_yield ?s) = Some s'" "run_ok s' nxt qs ws"
    using q runq_of_next[OF q, of ?s] by (auto simp: refines_runq_def runq_of_def)
  have "rotate (length (i # is)) (cur # rs) = rotate (length is) (nxt # qs)"
    using q by (simp add: rotate1_rotate_swap)
  then show ?case using Cons.IH[OF s'(2)] s'(1) by simp
qed simp

lemma time_passes_slice:
  assumes "run_ok s cur rs ws" "t_stack_magic (tasks s cur) = STACK_MAGIC"
    and "n \<le> unat (t_ticks (tasks s cur))"
  shows "\<exists>s'. time_passes n s = Some s' \<and> run_ok s' cur rs ws \<and>
    t_ticks (tasks s' cur) = t_ticks (tasks s cur) - of_nat n \<and>
    clock_ticks s' = clock_ticks s + of_nat n"
  using assms
proof (induction n arbitrary: s)
  case (Suc n)
  let ?s = "s\<lparr>intr_flag := intr_off\<rparr>"
  have nz: "t_ticks (tasks s cur) \<noteq> 0" and n: "n \<le> unat (t_ticks (tasks s cur)) - 1"
    using Suc.prems(3) by auto
  have sok: "sched_ok ?s cur rs ws" using Suc.prems(1) by (simp add: run_ok_def)
  let ?t = "?s\<lparr>tasks := (tasks s)(cur := (tasks s cur)\<lparr>t_ticks := t_ticks (tasks s cur) - 1\<rparr>),
      clock_ticks := clock_ticks s + 1\<rparr>"
  have eq: "intr_time_handle ?s = Ret () ?t"
    using sched_okD(1,2)[OF sok] Suc.prems(2) nz by (simp add: intr_time_handle_def run_simps)
  have "unat (t_ticks (tasks s cur) - 1) = unat (t_ticks (tasks s cur)) - 1"
    using nz by (simp add: unat_minus_one)
  moreover have "run_ok ?t cur rs ws"
    by (rule run_ok_cong[THEN iffD2, OF _ _ _ _ Suc.prems(1)]) auto
  ultimately obtain s' where "time_passes n ?t = Some s'" "run_ok s' cur rs ws"
      "t_ticks (tasks s' cur) = t_ticks (tasks ?t cur) - of_nat n"
      "clock_ticks s' = clock_ticks ?t + of_nat n"
    using Suc.IH[of ?t] Suc.prems(2) n by auto
  then show ?case by (simp add: eq after_def algebra_simps)
qed simp

section \<open>A state to run the scheduler in\<close>

definition empty_links :: "elem heap" where
  "empty_links e = (case e of
     HeadOf l \<Rightarrow> \<lparr>e_prev = None, e_next = Some (TailOf l)\<rparr>
   | TailOf l \<Rightarrow> \<lparr>e_prev = Some (HeadOf l), e_next = None\<rparr>
   | _ \<Rightarrow> \<lparr>e_prev = None, e_next = None\<rparr>)"

lemma empty_links_dlist: "dlist empty_links (lst_of l) []"
  by (simp add: dlist_def empty_links_def)

definition demo_task :: "task_status \<Rightarrow> u8 \<Rightarrow> task_struct" where
  "demo_task st n = \<lparr>t_rbp = 0, t_pml4 = 0xffff800000100000, t_pid = 1, t_prio = 30, t_ticks = n,
     t_status = st, t_parent_task = 0x1000,
     t_addr_space = \<lparr>vaddr = replicate 4 0, filesz = replicate 4 0, heap_start = 0, heap_end = 0\<rparr>,
     t_fd_table = replicate 32 (-1),
     t_intr_stack = \<lparr>is_sregs = 0, is_rsi = 0, is_rdi = 0, is_rbp = 0, is_err_code = 0, is_rip = 0,
       is_cs = 0, is_rflags = 0, is_rsp = 0, is_ss = 0\<rparr>,
     t_switch_stack = \<lparr>ss_rsi = 0, ss_rdi = 0, ss_r15 = 0, ss_r14 = 0, ss_r13 = 0, ss_r12 = 0,
       ss_rbx = 0, ss_rbp = 0, ss_rip = 0\<rparr>,
     t_exit_status = 0, t_stack_magic = STACK_MAGIC\<rparr>"

text \<open>The main task at \<open>0x1000\<close> runs, the idle task at \<open>0x2000\<close> is ready.\<close>

definition demo_state :: kstate where
  "demo_state = \<lparr>intr_flag = intr_off, ist1 = 0, ist2 = 0x2000, cr3 = 0x100000, frame = 0,
     links = empty_links
       (HeadOf ReadyTasks := \<lparr>e_prev = None, e_next = Some (GeneralTag 0x2000)\<rparr>,
        GeneralTag 0x2000 := \<lparr>e_prev = Some (HeadOf ReadyTasks), e_next = Some (TailOf ReadyTasks)\<rparr>,
        TailOf ReadyTasks := \<lparr>e_prev = Some (GeneralTag 0x2000), e_next = None\<rparr>),
     tasks = (\<lambda>t. if t = 0x1000 then demo_task TASK_RUNNING 3 else demo_task TASK_READY 30),
     idle_task = 0x2000, init_proc = 0x1000, sema_value = (\<lambda>_. 1),
     pid_bitmap = \<lparr>bytes_len = 1, bits = [3]\<rparr>, pid_start = 0,
     kernel_mem_pool = \<lparr>mp_start = 0xffff800000104000, pool_bitmap = \<lparr>bytes_len = 1, bits = [3]\<rparr>\<rparr>,
     phy_mem_pool = \<lparr>mp_start = 0, pool_bitmap = \<lparr>bytes_len = 1, bits = [3]\<rparr>\<rparr>,
     block_sizes = (\<lambda>i. 16 * 2 ^ i), arenas = (\<lambda>_. \<lparr>a_desc = 0, free_block_cnt = 0\<rparr>),
     clock_ticks = 0\<rparr>"

lemma demo_state_run_ok: "run_ok demo_state 0x1000 [0x2000] (\<lambda>_. [])"
proof -
  have "tq demo_state (Waiters p) []" for p
    by (simp add: tq_def demo_state_def dlist_def empty_links_def)
  moreover have "tq demo_state ReadyTasks [0x2000]"
    by (simp add: tq_def demo_state_def dlist_def empty_links_def)
  moreover have "ist2 demo_state = 0x1000 + PG_SIZE" "idle_task demo_state = 0x2000"
      "t_status (tasks demo_state 0x1000) = TASK_RUNNING"
    by (simp_all add: demo_state_def PG_SIZE_def demo_task_def)
  ultimately show ?thesis by (simp add: run_ok_def sched_ok_def aligned_def)
qed

lemma demo_state_simps [simp]:
  "intr_flag demo_state = intr_off" "idle_task demo_state = 0x2000"
  "t_status (tasks demo_state 0x1000) = TASK_RUNNING" "t_ticks (tasks demo_state 0x1000) = 3"
  "t_stack_magic (tasks demo_state 0x1000) = STACK_MAGIC" "clock_ticks demo_state = 0"
  "sema_value demo_state p = 1"
  by (simp_all add: demo_state_def demo_task_def)

section \<open>Properties\<close>

text \<open>C2. The scheduler refines the abstract run queue. From a state with the invariant, called where it
  may be called, each of \<^verbatim>\<open>task_yield\<close>, \<^verbatim>\<open>task_block\<close>, \<^verbatim>\<open>task_unblock\<close> and the timer interrupt fails
  no \<^verbatim>\<open>ASSERT\<close>, dispatches the task the abstract queue dispatches, leaves the abstract queue in the
  linked lists and keeps the invariant.\<close>

theorem scheduler_refines_run_queue:
  assumes "run_ok s cur rs ws" "sched_pre c s cur rs ws"
  shows "refines_runq (sched_call c s) cur
    (rq_step c (t_ticks (tasks s cur) = 0) (runq_of s cur rs)) ws"
  by (rule sched_refines[OF assms])

theorem scheduler_refines_run_queue_witness:
  "\<exists>s'. task_block TASK_WAITING demo_state = Sleep s' \<and> run_ok s' 0x2000 [] (\<lambda>_. [])"
  using scheduler_refines_run_queue[OF demo_state_run_ok, of "Block TASK_WAITING"]
  by (auto simp: refines_runq_def runq_of_def rq_next_def switched_def blockable_def)

text \<open>Round robin. However often the running task yields, the scheduler runs through the tasks in the
  order of the queue: after \<open>n\<close> yields the running task and the ready list are the original ones
  rotated by \<open>n\<close>. Hence a ready task in position \<open>k\<close> runs after \<open>k + 1\<close> yields.\<close>

theorem yields_round_robin:
  assumes "run_ok s cur rs ws"
  shows "\<exists>s'. yields is s = Some s' \<and>
    run_ok s' (hd (rotate (length is) (cur # rs))) (tl (rotate (length is) (cur # rs))) ws"
  by (rule yields_rotate[OF assms])

theorem yields_round_robin_witness:
  "\<exists>s'. yields [intr_on] demo_state = Some s' \<and> run_ok s' 0x2000 [0x1000] (\<lambda>_. [])"
  using yields_round_robin[OF demo_state_run_ok, of "[intr_on]"] by simp

text \<open>Time slices. A task with \<open>k\<close> ticks left keeps the processor through exactly \<open>k\<close> timer
  interrupts, which count its ticks down to zero and advance the clock by \<open>k\<close>; the next one puts it
  at the end of the queue with a full slice of \<^verbatim>\<open>prio\<close> ticks and runs the first ready task.\<close>

theorem time_slice:
  assumes "run_ok s cur rs ws" "t_stack_magic (tasks s cur) = STACK_MAGIC"
    and "t_ticks (tasks s cur) = k"
  shows "\<exists>s'. time_passes (unat k) s = Some s' \<and> run_ok s' cur rs ws \<and>
    t_ticks (tasks s' cur) = 0 \<and> clock_ticks s' = clock_ticks s + ucast k"
proof -
  obtain s' where s': "time_passes (unat k) s = Some s'" "run_ok s' cur rs ws"
      "t_ticks (tasks s' cur) = k - of_nat (unat k)" "clock_ticks s' = clock_ticks s + of_nat (unat k)"
    using time_passes_slice[OF assms(1,2), of "unat k"] assms(3) by auto
  moreover have "of_nat (unat k) = (ucast k :: u64)" by simp
  ultimately show ?thesis by auto
qed

theorem time_slice_witness:
  "\<exists>s'. time_passes 3 demo_state = Some s' \<and> run_ok s' 0x1000 [0x2000] (\<lambda>_. []) \<and>
     t_ticks (tasks s' 0x1000) = 0 \<and> clock_ticks s' = 3"
  using time_slice[OF demo_state_run_ok, of 3] by simp

text \<open>\<^verbatim>\<open>task_unblock\<close> of a task that is already in the ready list, or whose status is not one of
  \<^verbatim>\<open>BLOCKED\<close>, \<^verbatim>\<open>HANGING\<close> and \<^verbatim>\<open>WAITING\<close>, stops the kernel in a failed \<^verbatim>\<open>ASSERT\<close>.\<close>

theorem task_unblock_misuse:
  assumes "run_ok s cur rs ws" "t \<in> set rs \<or> \<not> blockable (t_status (tasks s t))"
  shows "task_unblock t s = Fail AssertFail"
  using assms task_unblock_fails[of s rs t] by (auto simp: run_ok_def sched_ok_def)

theorem task_unblock_misuse_witness: "task_unblock 0x2000 demo_state = Fail AssertFail"
  by (rule task_unblock_misuse[OF demo_state_run_ok]) simp

end
