(* ===== verification/Sync.thy ===== *)
theory Sync
  imports Sched
begin

text \<open>
  The semaphores of \<^verbatim>\<open>task/sync.c\<close>, which every lock of the kernel is made of.

  \<^verbatim>\<open>sema_down\<close> may sleep inside its loop. \<open>sema_down_from\<close> is the call from the head of the loop on,
  and \<open>sema_down_resume\<close> what the sleeping task does when it is dispatched again. The loop has fuel;
  \<open>sema_down_loop_fuel\<close> shows that one round is enough in every state with the scheduler's invariant,
  because \<^verbatim>\<open>task_block\<close> then ends in another task.

  The second half runs any number of tasks that take and release locks, yield and are preempted, as a
  step relation, and proves mutual exclusion and that no wakeup is lost.
\<close>

section \<open>The code\<close>

definition get_value :: "sema \<Rightarrow> ('z kstate_scheme, u8) kcall" where
  "get_value p = kget (\<lambda>s. sema_value s p)"

definition set_value :: "sema \<Rightarrow> u8 \<Rightarrow> ('z kstate_scheme, unit) kcall" where
  "set_value p v = kput (\<lambda>s. s\<lparr>sema_value := (sema_value s)(p := v)\<rparr>)"

definition sema_init :: "sema \<Rightarrow> u8 \<Rightarrow> ('z kstate_scheme, unit) kcall" where
  "sema_init p value =
     bnd (ASSERT (value = 0 \<or> value = 1)) (\<lambda>_.
     bnd (set_value p value) (\<lambda>_.
     k_list_init (Waiters p)))"

text \<open>\<^verbatim>\<open>while (psema->value == 0) { ... task_block(TASK_BLOCKED); }\<close>\<close>

fun sema_down_loop :: "nat \<Rightarrow> sema \<Rightarrow> u64 \<Rightarrow> ('z kstate_scheme, unit) kcall" where
  "sema_down_loop 0 p current = fail Diverges"
| "sema_down_loop (Suc n) p current =
     bnd (get_value p) (\<lambda>v.
     if v = 0
     then bnd (k_elem_find (Waiters p) (GeneralTag current)) (\<lambda>found.
          bnd (ASSERT (\<not> found)) (\<lambda>_.
          bnd (k_list_append (Waiters p) (GeneralTag current)) (\<lambda>_.
          bnd (task_block TASK_BLOCKED) (\<lambda>_.
          sema_down_loop n p current))))
     else ret ())"

definition sema_down_from :: "sema \<Rightarrow> u64 \<Rightarrow> intr_stat \<Rightarrow> ('z kstate_scheme, unit) kcall" where
  "sema_down_from p current old_stat =
     bnd (sema_down_loop 2 p current) (\<lambda>_.
     bnd (get_value p) (\<lambda>v.
     bnd (set_value p (v - 1)) (\<lambda>_.
     bnd (get_value p) (\<lambda>v.
     bnd (ASSERT (v = 0)) (\<lambda>_.
     bnd (set_intr_stat old_stat) (\<lambda>_.
     ret ()))))))"

definition sema_down :: "sema \<Rightarrow> ('z kstate_scheme, unit) kcall" where
  "sema_down p =
     bnd (set_intr_stat intr_off) (\<lambda>old_stat.
     bnd running_task (\<lambda>current.
     sema_down_from p current old_stat))"

text \<open>The rest of \<^verbatim>\<open>sema_down\<close> of a task that went to sleep in \<^verbatim>\<open>task_block\<close>: \<^verbatim>\<open>task_block\<close> restores the
  interrupt flag it was called with, which is off, and returns to the loop.\<close>

definition sema_down_resume :: "sema \<Rightarrow> u64 \<Rightarrow> intr_stat \<Rightarrow> ('z kstate_scheme, unit) kcall" where
  "sema_down_resume p current old_stat =
     bnd (set_intr_stat intr_off) (\<lambda>_. sema_down_from p current old_stat)"

definition sema_up :: "sema \<Rightarrow> ('z kstate_scheme, unit) kcall" where
  "sema_up p =
     bnd (set_intr_stat intr_off) (\<lambda>old_stat.
     bnd (get_value p) (\<lambda>v.
     bnd (ASSERT (v = 0)) (\<lambda>_.
     bnd (k_list_empty (Waiters p)) (\<lambda>empty.
     bnd (if \<not> empty
          then bnd (k_list_pop (Waiters p)) (\<lambda>e.
               bnd (of_res (entry_general e)) (\<lambda>thread_blocked.
               task_unblock thread_blocked))
          else ret ()) (\<lambda>_.
     bnd (get_value p) (\<lambda>v.
     bnd (set_value p (v + 1)) (\<lambda>_.
     bnd (get_value p) (\<lambda>v.
     bnd (ASSERT (v = 1)) (\<lambda>_.
     bnd (set_intr_stat old_stat) (\<lambda>_.
     ret ()))))))))))"

lemmas sync_defs [kdefs] = sema_init_def sema_down_from_def sema_down_def sema_down_resume_def sema_up_def

lemmas value_defs [run_simps] = get_value_def set_value_def

section \<open>What each operation does\<close>

lemma sema_init_eq:
  "v = 0 \<or> v = 1 \<Longrightarrow> sema_init p v s =
     Ret () (s\<lparr>links := list_init (links s) (lst_of (Waiters p)), sema_value := (sema_value s)(p := v)\<rparr>)"
  by (auto simp: sema_init_def run_simps)

lemma sema_down_from_taken:
  assumes "sema_value s p = 1"
  shows "sema_down_from p cur old s = Ret () (s\<lparr>intr_flag := old, sema_value := (sema_value s)(p := 0)\<rparr>)"
  using assms by (simp add: sema_down_from_def run_simps numeral_2_eq_2)

lemma sched_ok_disjoint: "sched_ok s cur rs ws \<Longrightarrow> p \<noteq> q \<Longrightarrow> set (ws p) \<inter> set (ws q) = {}"
  unfolding sched_ok_def by blast

lemma run_okD:
  assumes "run_ok s cur rs ws"
  shows "sched_ok s cur rs ws" "cur \<notin> set rs" "cur \<notin> set (ws p)" "t_status (tasks s cur) = TASK_RUNNING"
  using assms by (simp_all add: run_ok_def)

lemma sched_ok_wait:
  assumes ok: "run_ok s cur rs ws" and "cur \<noteq> idle_task s"
    and tq': "tq (s\<lparr>links := h\<rparr>) (Waiters p) (ws p @ [cur])"
    and off: "agree_off (tags (Waiters p) (cur # ws p)) (links s) h"
  shows "sched_ok (leaving (s\<lparr>links := h\<rparr>) cur TASK_BLOCKED) cur rs (ws(p := ws p @ [cur]))"
proof -
  have sok: "sched_ok s cur rs ws" and nr: "cur \<notin> set rs" and nw: "cur \<notin> set (ws q)" for q
    using ok by (auto simp: run_ok_def)
  have frame: "tq (s\<lparr>links := h\<rparr>) l us"
    if "tq s l us" "l \<noteq> Waiters p" "set (cur # ws p) \<inter> set us = {}" for l us
    using tq_frame[OF that(1), of "tags (Waiters p) (cur # ws p)" "s\<lparr>links := h\<rparr>"] off that(2,3)
      tags_disjoint[of "Waiters p" l "cur # ws p" us] by auto
  have "tq (s\<lparr>links := h\<rparr>) (Waiters q) (ws q)" if "q \<noteq> p" for q
    using frame[OF sched_okD(6)[OF sok, of q]] that sok nw by (auto simp: sched_ok_def)
  moreover have "tq (s\<lparr>links := h\<rparr>) ReadyTasks rs"
    using frame[OF sched_okD(5)[OF sok]] sched_okD(7)[OF sok, of p] nr by auto
  ultimately show ?thesis
    using sok nr nw tq' assms(2) by (auto simp: sched_ok_def blockable_def)
qed

text \<open>A \<^verbatim>\<open>sema_down\<close> of a semaphore at 0 puts the running task at the end of the waiters and dispatches
  the next task.\<close>

lemma sema_down_loop_sleeps:
  assumes ok: "run_ok s cur rs ws" and "cur \<noteq> idle_task s" "sema_value s p = 0"
    and q: "candidates s rs = nxt # qs"
  shows "\<exists>s'. sema_down_loop (Suc n) p cur s = Sleep s' \<and> run_ok s' nxt qs (ws(p := ws p @ [cur])) \<and>
    sema_value s' = sema_value s \<and> idle_task s' = idle_task s \<and>
    (\<forall>t. t_stack_magic (tasks s' t) = t_stack_magic (tasks s t))"
proof -
  have sok: "sched_ok s cur rs ws" and nw: "cur \<notin> set (ws p)" using ok by (auto simp: run_ok_def)
  obtain h where h: "list_append (links s) (lst_of (Waiters p)) (GeneralTag cur) = Inr h"
      "tq (s\<lparr>links := h\<rparr>) (Waiters p) (ws p @ [cur])" "agree_off (tags (Waiters p) (cur # ws p)) (links s) h"
    using tq_append[OF sched_okD(6)[OF sok] nw] by blast
  let ?s = "s\<lparr>links := h\<rparr>"
  have "cur \<noteq> nxt" using q ok assms(2) by (auto simp: run_ok_def candidates_def split: if_splits)
  moreover have "candidates ?s rs = nxt # qs" using q by (auto simp: candidates_def split: if_splits)
  moreover have "blockable TASK_BLOCKED" by (simp add: blockable_def)
  ultimately obtain h' where h': "task_block TASK_BLOCKED ?s =
        Sleep (dispatched (leaving ?s cur TASK_BLOCKED) cur nxt h')"
      "run_ok (dispatched (leaving ?s cur TASK_BLOCKED) cur nxt h') nxt qs (ws(p := ws p @ [cur]))"
    using task_block_ok[OF _ sched_ok_wait[OF ok assms(2) h(2,3)]] by blast
  have "sema_down_loop (Suc n) p cur s = Sleep (dispatched (leaving ?s cur TASK_BLOCKED) cur nxt h')"
    using assms(3) tq_find[OF sched_okD(6)[OF sok, of p], of cur] nw h(1) h'(1) by (simp add: run_simps)
  then show ?thesis using h'(2) by (simp add: leaving_def)
qed

text \<open>The fuel of the loop does not matter.\<close>

lemma sema_down_loop_fuel:
  assumes "run_ok s cur rs ws" "cur \<noteq> idle_task s"
  shows "sema_down_loop (Suc n) p cur s = sema_down_loop 1 p cur s"
proof (cases "sema_value s p = 0")
  case True
  obtain nxt qs where q: "candidates s rs = nxt # qs" by (cases "candidates s rs") auto
  have "cur \<notin> set (ws p)" "tq s (Waiters p) (ws p)" using assms(1) by (auto simp: run_ok_def sched_ok_def)
  show ?thesis
    using sema_down_loop_sleeps[OF assms True q, of n] sema_down_loop_sleeps[OF assms True q, of 0]
    by (auto simp: run_simps split: run.splits if_splits sum.splits)
next
  case False
  then show ?thesis by (simp add: run_simps)
qed

text \<open>\<^verbatim>\<open>sema_up\<close> puts the first waiter in front of the ready list.\<close>

lemma sched_ok_take:
  assumes ok: "run_ok s cur rs ws" and w: "ws p = t # us"
    and tq': "tq (s\<lparr>links := h\<rparr>) (Waiters p) us"
    and off: "agree_off (tags (Waiters p) us) (links s) h"
  shows "run_ok (s\<lparr>links := h\<rparr>) cur rs (ws(p := us))"
proof -
  have sok: "sched_ok s cur rs ws" using ok by (auto simp: run_ok_def)
  have disj: "set us \<inter> set (ws q) = {}" if "q \<noteq> p" for q
    using sched_ok_disjoint[OF sok that] w by auto
  have frame: "tq (s\<lparr>links := h\<rparr>) l vs"
    if "tq s l vs" "l \<noteq> Waiters p" "set us \<inter> set vs = {}" for l vs
    using tq_frame[OF that(1), of "tags (Waiters p) us" "s\<lparr>links := h\<rparr>"] off that(2,3)
      tags_disjoint[of "Waiters p" l us vs] by auto
  have "tq (s\<lparr>links := h\<rparr>) (Waiters q) (ws q)" if "q \<noteq> p" for q
    using frame[OF sched_okD(6)[OF sok, of q]] that disj by auto
  moreover have "tq (s\<lparr>links := h\<rparr>) ReadyTasks rs"
    using frame[OF sched_okD(5)[OF sok]] sched_okD(7)[OF sok, of p] w by auto
  moreover have "set rs \<inter> set ((ws(p := us)) q) = {}" "list_all aligned ((ws(p := us)) q)"
      "idle_task s \<notin> set ((ws(p := us)) q)" "cur \<notin> set ((ws(p := us)) q)"
      "\<forall>x \<in> set ((ws(p := us)) q). t_status (tasks s x) = TASK_BLOCKED" for q
    using sched_okD(7-9)[OF sok, of q] sched_okD(10)[OF sok, of _ q] ok w
    by (auto simp: run_ok_def)
  moreover have "set ((ws(p := us)) q) \<inter> set ((ws(p := us)) r) = {}" if "q \<noteq> r" for q r
    using disj[of q] disj[of r] that sched_ok_disjoint[OF sok that] by (auto split: if_splits)
  ultimately show ?thesis
    using ok tq' unfolding run_ok_def sched_ok_def by simp
qed

definition woken :: "u64 list \<Rightarrow> u64 list \<Rightarrow> u64 list" where
  "woken us rs = (case us of [] \<Rightarrow> rs | t # _ \<Rightarrow> t # rs)"

lemma sema_up_ok:
  assumes ok: "run_ok s cur rs ws" and v: "sema_value s p = 0"
  shows "\<exists>h. sema_up p s = Ret () (s\<lparr>links := h, sema_value := (sema_value s)(p := 1)\<rparr>) \<and>
    run_ok (s\<lparr>links := h\<rparr>) cur (woken (ws p) rs) (ws(p := tl (ws p)))"
proof -
  have sok: "sched_ok s cur rs ws" using ok by (auto simp: run_ok_def)
  note w = sched_okD(6)[OF sok, of p]
  show ?thesis
  proof (cases "ws p")
    case Nil
    then have "list_empty (links s) (lst_of (Waiters p))" "ws(p := []) = ws"
      using tq_empty[OF w] by auto
    then show ?thesis
      using v ok Nil by (intro exI[of _ "links s"]) (simp add: sema_up_def run_simps woken_def)
  next
    case (Cons t us)
    obtain h where h: "list_pop (links s) (lst_of (Waiters p)) = Inr (Some (GeneralTag t), h)"
        "tq (s\<lparr>links := h\<rparr>) (Waiters p) us" "agree_off (tags (Waiters p) us) (links s) h"
      using tq_pop[of s "Waiters p" t us] w Cons by auto
    let ?s = "s\<lparr>links := h\<rparr>"
    have ok': "run_ok ?s cur rs (ws(p := us))" by (rule sched_ok_take[OF ok Cons h(2,3)])
    have t: "t \<in> set (ws p)" "t \<notin> set us" using Cons tq_distinct[OF w] by auto
    have nr: "t \<notin> set rs" "aligned t" "t \<noteq> cur" "blockable (t_status (tasks s t))"
      using t(1) sched_okD(7,8)[OF sok, of p] sched_okD(10)[OF sok t(1)] run_okD(3)[OF ok, of p] Cons
      by (auto simp: blockable_def)
    have nw: "\<forall>q. t \<notin> set ((ws(p := us)) q)"
    proof
      show "t \<notin> set ((ws(p := us)) q)" for q
        using t sched_ok_disjoint[OF sok, of p q] by (cases "q = p") auto
    qed
    let ?o = "?s\<lparr>intr_flag := intr_off\<rparr>"
    have "tq ?o ReadyTasks rs" using ok' by (simp add: run_ok_def sched_ok_def tq_def)
    then obtain h' where h': "task_unblock t ?o = Ret () (?o\<lparr>links := h'\<rparr>)"
        "tq (?o\<lparr>links := h'\<rparr>) ReadyTasks (t # rs)" "agree_off (tags ReadyTasks (t # rs)) (links ?o) h'"
      using task_unblock_ok[of ?o rs t] nr by auto
    have "tq (?s\<lparr>links := h'\<rparr>) ReadyTasks (t # rs)" using h'(2) by (simp add: tq_def)
    then have "run_ok (?s\<lparr>links := h'\<rparr>) cur (t # rs) (ws(p := us))"
      by (rule run_ok_push[OF ok' nr(1,2) nw nr(3)]) (use h'(3) in simp)
    moreover have "\<not> list_empty (links s) (lst_of (Waiters p))" using tq_empty[OF w] Cons by simp
    moreover have "task_unblock t (s\<lparr>intr_flag := intr_off, links := h\<rparr>) =
        Ret () (s\<lparr>intr_flag := intr_off, links := h'\<rparr>)"
      using h'(1) by simp
    ultimately show ?thesis
      using v h(1) Cons by (intro exI[of _ h']) (simp add: sema_up_def run_simps woken_def)
  qed
qed

section \<open>Uncontended locks\<close>

text \<open>The state in which a lock is taken without waiting and given back without waking anybody.\<close>

definition lock_free :: "'z kstate_scheme \<Rightarrow> sema \<Rightarrow> bool" where
  "lock_free s p \<longleftrightarrow> sema_value s p = 1 \<and> tq s (Waiters p) []"

definition cur_ok :: "'z kstate_scheme \<Rightarrow> bool" where
  "cur_ok s \<longleftrightarrow> aligned (ist2 s - PG_SIZE)"

definition locked :: "sema \<Rightarrow> 'z kstate_scheme \<Rightarrow> 'z kstate_scheme" where
  "locked p s = s\<lparr>sema_value := (sema_value s)(p := 0)\<rparr>"

definition unlocked :: "sema \<Rightarrow> 'z kstate_scheme \<Rightarrow> 'z kstate_scheme" where
  "unlocked p s = s\<lparr>sema_value := (sema_value s)(p := 1)\<rparr>"

lemma sema_down_free:
  assumes "lock_free s p" "cur_ok s"
  shows "sema_down p s = Ret () (locked p s)"
proof -
  have "running_task (s\<lparr>intr_flag := intr_off\<rparr>) = Ret (ist2 s - PG_SIZE) (s\<lparr>intr_flag := intr_off\<rparr>)"
    using assms(2) by (intro running_task_eq) (simp_all add: cur_ok_def)
  then show ?thesis
    using assms(1) sema_down_from_taken[of "s\<lparr>intr_flag := intr_off\<rparr>" p]
    by (simp add: sema_down_def lock_free_def locked_def)
qed

lemma sema_up_free:
  assumes "sema_value s p = 0" "tq s (Waiters p) []"
  shows "sema_up p s = Ret () (unlocked p s)"
  using assms tq_empty[OF assms(2)] by (simp add: sema_up_def run_simps unlocked_def)

text \<open>A contract that every lock of the kernel is used under: taken when free, the body keeps the lock's
  own fields, given back.\<close>

locale lock_discipline =
  fixes down up :: "'l \<Rightarrow> ('s, unit) kcall"
    and free held :: "'l \<Rightarrow> 's \<Rightarrow> bool"
    and lockd unlockd :: "'l \<Rightarrow> 's \<Rightarrow> 's"
  assumes down_free: "free p s \<Longrightarrow> down p s = Ret () (lockd p s) \<and> held p (lockd p s)"
    and up_held: "held p s \<Longrightarrow> up p s = Ret () (unlockd p s) \<and> free p (unlockd p s)"
begin

lemma section_runs:
  assumes "free p s" "body (lockd p s) = Ret x t" "held p t"
  shows "bnd (down p) (\<lambda>_. bnd body (\<lambda>x. bnd (up p) (\<lambda>_. k x))) s = k x (unlockd p t)"
    "free p (unlockd p t)"
  using down_free[OF assms(1)] up_held[OF assms(3)] assms(2) by simp_all

lemma section_fails:
  assumes "free p s" "body (lockd p s) = Fail e"
  shows "bnd (down p) (\<lambda>_. bnd body k) s = Fail e"
  using down_free[OF assms(1)] assms(2) by simp

end

definition sema_free :: "sema \<Rightarrow> 'z kstate_scheme \<Rightarrow> bool" where
  "sema_free p s \<longleftrightarrow> lock_free s p \<and> cur_ok s"

definition sema_held :: "sema \<Rightarrow> 'z kstate_scheme \<Rightarrow> bool" where
  "sema_held p s \<longleftrightarrow> sema_value s p = 0 \<and> tq s (Waiters p) [] \<and> cur_ok s"

interpretation lk: lock_discipline sema_down sema_up sema_free sema_held locked unlocked
proof (unfold_locales, goal_cases)
  case (1 p s)
  then show ?case
    using sema_down_free[of s p] by (simp add: sema_free_def sema_held_def lock_free_def locked_def tq_def cur_ok_def)
next
  case (2 p s)
  then show ?case
    using sema_up_free[of s p] by (simp add: sema_free_def sema_held_def lock_free_def unlocked_def tq_def cur_ok_def)
qed

lemma unlocked_locked [simp]: "sema_value s p = 1 \<Longrightarrow> unlocked p (locked p s) = s"
  by (cases s) (auto simp: unlocked_def locked_def fun_upd_idem_iff)


section \<open>Tasks that use locks\<close>

text \<open>
  Any number of tasks that take and release locks in any order, yield and are preempted. Two ghost
  fields say what the program counters of the tasks say: \<open>holds t\<close>, the locks whose \<^verbatim>\<open>sema_down\<close> has
  returned in \<open>t\<close> and whose \<^verbatim>\<open>sema_up\<close> has not been called, and \<open>wants t\<close>, the lock whose \<^verbatim>\<open>sema_down\<close> \<open>t\<close>
  sleeps in, with the interrupt state that call is to restore.
\<close>

record 'z lockcfg =
  ks :: "'z kstate_scheme"
  holds :: "u64 \<Rightarrow> sema set"
  wants :: "u64 \<Rightarrow> (sema \<times> intr_stat) option"

definition cur_of :: "'z kstate_scheme \<Rightarrow> u64" where
  "cur_of s = ist2 s - PG_SIZE"

text \<open>Semaphores that start at 1: all but \<^verbatim>\<open>disk_done\<close>, which starts at 0 and is raised by an interrupt.\<close>

definition is_lock :: "sema \<Rightarrow> bool" where
  "is_lock p \<longleftrightarrow> (case p of DiskDone _ \<Rightarrow> False | _ \<Rightarrow> True)"

inductive lock_step :: "'z lockcfg \<Rightarrow> 'z lockcfg \<Rightarrow> bool" where
  down_returns:
    "is_lock p \<Longrightarrow> t = cur_of (ks c) \<Longrightarrow> t \<noteq> idle_task (ks c) \<Longrightarrow> wants c t = None \<Longrightarrow>
     sema_down p (ks c) = Ret () s' \<Longrightarrow>
     lock_step c (c\<lparr>ks := s', holds := (holds c)(t := insert p (holds c t))\<rparr>)"
| down_sleeps:
    "is_lock p \<Longrightarrow> t = cur_of (ks c) \<Longrightarrow> t \<noteq> idle_task (ks c) \<Longrightarrow> wants c t = None \<Longrightarrow>
     sema_down p (ks c) = Sleep s' \<Longrightarrow>
     lock_step c (c\<lparr>ks := s', wants := (wants c)(t := Some (p, intr_flag (ks c)))\<rparr>)"
| resume_returns:
    "t = cur_of (ks c) \<Longrightarrow> wants c t = Some (p, i) \<Longrightarrow>
     sema_down_resume p t i (ks c) = Ret () s' \<Longrightarrow>
     lock_step c (c\<lparr>ks := s', holds := (holds c)(t := insert p (holds c t)), wants := (wants c)(t := None)\<rparr>)"
| resume_sleeps:
    "t = cur_of (ks c) \<Longrightarrow> wants c t = Some (p, i) \<Longrightarrow>
     sema_down_resume p t i (ks c) = Sleep s' \<Longrightarrow> lock_step c (c\<lparr>ks := s'\<rparr>)"
| up:
    "t = cur_of (ks c) \<Longrightarrow> wants c t = None \<Longrightarrow> p \<in> holds c t \<Longrightarrow>
     sema_up p (ks c) = Ret () s' \<Longrightarrow>
     lock_step c (c\<lparr>ks := s', holds := (holds c)(t := holds c t - {p})\<rparr>)"
| yield:
    "wants c (cur_of (ks c)) = None \<Longrightarrow> after (task_yield (ks c)) = Some s' \<Longrightarrow>
     lock_step c (c\<lparr>ks := s'\<rparr>)"
| tick:
    "wants c (cur_of (ks c)) = None \<Longrightarrow> t_stack_magic (tasks (ks c) (cur_of (ks c))) = STACK_MAGIC \<Longrightarrow>
     after (intr_time_handle ((ks c)\<lparr>intr_flag := intr_off\<rparr>)) = Some s' \<Longrightarrow>
     lock_step c (c\<lparr>ks := s'\<rparr>)"
| idle:
    "wants c (cur_of (ks c)) = None \<Longrightarrow> cur_of (ks c) = idle_task (ks c) \<Longrightarrow>
     after (task_block TASK_BLOCKED (ks c)) = Some s' \<Longrightarrow> lock_step c (c\<lparr>ks := s'\<rparr>)"
| own_code:
    "wants c (cur_of (ks c)) = None \<Longrightarrow> lock_step c (c\<lparr>ks := (ks c)\<lparr>intr_flag := i\<rparr>\<rparr>)"

text \<open>The invariant, with the contents of the queues.\<close>

definition lock_inv_at :: "'z lockcfg \<Rightarrow> u64 \<Rightarrow> u64 list \<Rightarrow> (sema \<Rightarrow> u64 list) \<Rightarrow> bool" where
  "lock_inv_at c cur rs ws \<longleftrightarrow> run_ok (ks c) cur rs ws \<and>
     (\<forall>p. is_lock p \<longrightarrow> sema_value (ks c) p = of_bool (\<forall>t. p \<notin> holds c t)) \<and>
     (\<forall>p t u. p \<in> holds c t \<and> p \<in> holds c u \<longrightarrow> t = u) \<and>
     (\<forall>t. holds c t \<subseteq> {p. is_lock p}) \<and>
     (\<forall>t p i. wants c t = Some (p, i) \<longrightarrow> is_lock p \<and> t \<noteq> idle_task (ks c) \<and>
        (t = cur \<or> t \<in> set rs \<or> t \<in> set (ws p))) \<and>
     (\<forall>p. \<forall>t \<in> set (ws p). \<exists>i. wants c t = Some (p, i)) \<and>
     (\<forall>p. ws p \<noteq> [] \<longrightarrow> (\<exists>t. p \<in> holds c t) \<or>
        (\<exists>t i. wants c t = Some (p, i) \<and> (t = cur \<or> t \<in> set rs)))"

definition lock_inv :: "'z lockcfg \<Rightarrow> bool" where
  "lock_inv c \<longleftrightarrow> (\<exists>cur rs ws. lock_inv_at c cur rs ws)"

lemma cur_of_run_ok: "run_ok s cur rs ws \<Longrightarrow> cur_of s = cur"
  by (simp add: run_ok_def sched_ok_def cur_of_def)

lemma lock_invD:
  assumes "lock_inv_at c cur rs ws"
  shows "run_ok (ks c) cur rs ws" "cur_of (ks c) = cur"
    "is_lock p \<Longrightarrow> sema_value (ks c) p = of_bool (\<forall>t. p \<notin> holds c t)"
    "p \<in> holds c t \<Longrightarrow> p \<in> holds c u \<Longrightarrow> t = u" "p \<in> holds c t \<Longrightarrow> is_lock p"
    "wants c t = Some (p, i) \<Longrightarrow> is_lock p \<and> t \<noteq> idle_task (ks c) \<and> (t = cur \<or> t \<in> set rs \<or> t \<in> set (ws p))"
    "t \<in> set (ws p) \<Longrightarrow> \<exists>i. wants c t = Some (p, i)"
    "ws p \<noteq> [] \<Longrightarrow> (\<exists>t. p \<in> holds c t) \<or> (\<exists>t i. wants c t = Some (p, i) \<and> (t = cur \<or> t \<in> set rs))"
  using assms cur_of_run_ok[of "ks c" cur rs ws] unfolding lock_inv_at_def by (blast+)

text \<open>Steps that only move tasks between the processor and the ready list.\<close>

lemma lock_inv_moves:
  assumes inv: "lock_inv_at c cur rs ws" and ok: "run_ok s' cur' rs' ws"
    and same: "sema_value s' = sema_value (ks c)" "idle_task s' = idle_task (ks c)"
    and moves: "insert cur (set rs) - {idle_task (ks c)} \<subseteq> insert cur' (set rs')
        \<or> insert cur (set rs) \<subseteq> insert cur' (set rs')"
  shows "lock_inv_at (c\<lparr>ks := s'\<rparr>) cur' rs' ws"
proof -
  have mv: "t = cur' \<or> t \<in> set rs'" if "wants c t = Some (p, i)" "t = cur \<or> t \<in> set rs" for t p i
    using lock_invD(6)[OF inv that(1)] that(2) moves by blast
  show ?thesis
    unfolding lock_inv_at_def
  proof (intro conjI allI impI ballI)
    fix t p i assume w: "wants (c\<lparr>ks := s'\<rparr>) t = Some (p, i)"
    show "is_lock p" "t \<noteq> idle_task (ks (c\<lparr>ks := s'\<rparr>))" "t = cur' \<or> t \<in> set rs' \<or> t \<in> set (ws p)"
      using lock_invD(6)[OF inv, of t p i] w mv[of t p i] same by auto
  next
    fix p assume "ws p \<noteq> []"
    then show "(\<exists>t. p \<in> holds (c\<lparr>ks := s'\<rparr>) t) \<or>
        (\<exists>t i. wants (c\<lparr>ks := s'\<rparr>) t = Some (p, i) \<and> (t = cur' \<or> t \<in> set rs'))"
      using lock_invD(8)[OF inv] mv by auto metis
  qed (use ok same lock_invD[OF inv] in auto)
qed

lemma task_block_after:
  assumes ok: "run_ok s cur rs ws" and st: "blockable st" and q: "candidates s rs = nxt # qs"
  shows "\<exists>s'. after (task_block st s) = Some s' \<and> run_ok s' nxt qs ws \<and>
    sema_value s' = sema_value s \<and> idle_task s' = idle_task s"
proof (cases "cur = nxt")
  case False
  then show ?thesis
    using task_block_ok[OF st sched_ok_leaving[OF ok st] q] by (auto simp: after_def)
next
  case True
  let ?s = "leaving s cur st"
  note sok = sched_ok_leaving[OF ok st]
  have "running_task (s\<lparr>intr_flag := intr_off\<rparr>) = Ret cur (s\<lparr>intr_flag := intr_off\<rparr>)"
    using sched_okD(1,2)[OF sok] by (intro running_task_eq) auto
  then have "task_block st s = bnd schedule (\<lambda>_. bnd (set_intr_stat (intr_flag s)) (\<lambda>_. ret ())) ?s"
    using st by (auto simp: task_block_def run_simps blockable_def leaving_def)
  then show ?thesis
    using schedule_core[OF sok, of nxt qs] st q True
    by (auto simp: blockable_def switched_def run_simps after_def)
qed

lemma lock_inv_takes:
  assumes inv: "lock_inv_at c cur rs ws" and p: "is_lock p" "sema_value (ks c) p = 1"
    and w: "wants c cur = None \<or> (\<exists>i. wants c cur = Some (p, i))"
  shows "lock_inv_at (c\<lparr>ks := (ks c)\<lparr>intr_flag := i, sema_value := (sema_value (ks c))(p := 0)\<rparr>,
      holds := (holds c)(cur := insert p (holds c cur)), wants := (wants c)(cur := None)\<rparr>) cur rs ws"
proof -
  note D = lock_invD[OF inv]
  have nobody: "p \<notin> holds c t" for t using D(3)[OF p(1)] p(2) by (auto split: if_splits)
  have "cur \<notin> set (ws q)" for q using run_okD(3)[OF D(1)] .
  then show ?thesis
    unfolding lock_inv_at_def
  proof (intro conjI allI impI ballI, goal_cases)
    case (2 q)
    then show ?case using D(3)[of q] by auto
  next
    case (7 t r j)
    then show ?case using D(6)[of t r j] by (auto split: if_splits)
  next
    case (9 q)
    consider u where "q \<in> holds c u" | u j where "wants c u = Some (q, j)" "u \<noteq> cur" "u \<in> set rs"
      | "q = p" using D(8)[of q] 9 w by fastforce
    then show ?case
    proof cases
      case (1 u)
      then show ?thesis by (intro disjI1 exI[of _ u]) auto
    next
      case (2 u j)
      then show ?thesis by (intro disjI2 exI[of _ u]) simp
    next
      case 3
      then show ?thesis by (intro disjI1 exI[of _ cur]) simp
    qed
  qed (use D nobody w p(1) in \<open>auto split: if_splits\<close>)
qed

lemma lock_inv_waits:
  assumes inv: "lock_inv_at c cur rs ws" and p: "is_lock p" "sema_value (ks c) p = 0"
    and w: "wants c cur = None \<or> (\<exists>i. wants c cur = Some (p, i))" and idle: "cur \<noteq> idle_task (ks c)"
    and q: "candidates (ks c) rs = nxt # qs"
    and ok: "run_ok s' nxt qs (ws(p := ws p @ [cur]))"
    and same: "sema_value s' = sema_value (ks c)" "idle_task s' = idle_task (ks c)"
  shows "lock_inv_at (c\<lparr>ks := s', wants := (wants c)(cur := Some (p, i))\<rparr>) nxt qs (ws(p := ws p @ [cur]))"
proof -
  note D = lock_invD[OF inv]
  have held: "\<exists>t. p \<in> holds c t" using D(3)[OF p(1)] p(2) by (auto split: if_splits)
  have mv: "t = nxt \<or> t \<in> set qs" if "t \<in> set rs" for t
    using q that by (auto simp: candidates_def split: if_splits)
  have nc: "cur \<notin> set (ws r)" for r using run_okD(3)[OF D(1)] .
  show ?thesis
    unfolding lock_inv_at_def
  proof (intro conjI allI impI ballI, goal_cases)
    case (7 t r j)
    then show ?case using D(6)[of t r j] mv[of t] by (auto split: if_splits)
  next
    case (8 r t)
    then show ?case using D(7)[of t r] nc by (auto split: if_splits)
  next
    case (9 r)
    show ?case
    proof (cases "r = p \<or> (\<exists>t. r \<in> holds c t)")
      case False
      then obtain t j where t: "wants c t = Some (r, j)" "t = cur \<or> t \<in> set rs"
        using D(8)[of r] 9 by auto
      then have "t \<noteq> cur" using w False by auto
      then show ?thesis using t mv[of t] by (intro disjI2 exI[of _ t]) auto
    qed (use held in auto)
  qed (use D ok same idle p(1) in \<open>auto split: if_splits\<close>)
qed

lemma lock_inv_gives:
  assumes inv: "lock_inv_at c cur rs ws" and p: "p \<in> holds c cur"
    and ok: "run_ok s' cur (woken (ws p) rs) (ws(p := tl (ws p)))"
    and same: "sema_value s' = (sema_value (ks c))(p := 1)" "idle_task s' = idle_task (ks c)"
  shows "lock_inv_at (c\<lparr>ks := s', holds := (holds c)(cur := holds c cur - {p})\<rparr>)
    cur (woken (ws p) rs) (ws(p := tl (ws p)))"
proof -
  note D = lock_invD[OF inv]
  have others: "p \<notin> holds c t" if "t \<noteq> cur" for t using D(4)[OF p] that by auto
  have wk: "t \<in> set (woken (ws p) rs)" if "t \<in> set rs" for t
    using that by (auto simp: woken_def split: list.splits)
  show ?thesis
    unfolding lock_inv_at_def
  proof (intro conjI allI impI ballI, goal_cases)
    case (2 r)
    then show ?case using D(3)[of r] others same p by (cases "r = p") (auto split: if_splits)
  next
    case (6 t r j)
    then show ?case using D(6)[of t r j] same by simp
  next
    case (7 t r j)
    then show ?case using D(6)[of t r j] wk[of t] by (cases "ws p") (auto simp: woken_def)
  next
    case (8 r t)
    then show ?case using D(7)[of t r] by (cases "ws p") (auto split: if_splits)
  next
    case (9 r)
    show ?case
    proof (cases "r = p")
      case True
      then obtain t us where "ws p = t # us" using 9 by (cases "ws p") auto
      then show ?thesis using D(7)[of t p] True by (auto simp: woken_def)
    next
      case False
      then consider u where "r \<in> holds c u" | u j where "wants c u = Some (r, j)" "u = cur \<or> u \<in> set rs"
        using D(8)[of r] 9 by auto
      then show ?thesis
      proof cases
        case (1 u)
        then show ?thesis using False by (intro disjI1 exI[of _ u]) auto
      next
        case (2 u j)
        then show ?thesis using wk by (intro disjI2 exI[of _ u]) auto
      qed
    qed
  qed (use D ok same others in \<open>auto split: if_splits\<close>)
qed

text \<open>What \<^verbatim>\<open>sema_down\<close> of the running task does, from the start or after a sleep.\<close>

lemma sema_down_cases:
  assumes ok: "run_ok s cur rs ws" and "cur \<noteq> idle_task s" and v: "sema_value s p = 0 \<or> sema_value s p = 1"
    and q: "candidates s rs = nxt # qs"
  shows "sema_value s p = 1 \<and>
      sema_down_from p cur i s = Ret () (s\<lparr>intr_flag := i, sema_value := (sema_value s)(p := 0)\<rparr>) \<or>
    sema_value s p = 0 \<and> (\<exists>s'. sema_down_from p cur i s = Sleep s' \<and>
      run_ok s' nxt qs (ws(p := ws p @ [cur])) \<and> sema_value s' = sema_value s \<and> idle_task s' = idle_task s)"
proof (cases "sema_value s p = 1")
  case True
  then show ?thesis by (simp add: sema_down_from_taken)
next
  case False
  then have v0: "sema_value s p = 0" using v by simp
  then show ?thesis
    using sema_down_loop_sleeps[OF ok assms(2) v0 q, of 1] by (auto simp: sema_down_from_def numeral_2_eq_2)
qed

lemma sema_down_start:
  assumes "run_ok s cur rs ws"
  shows "sema_down p s = sema_down_from p cur (intr_flag s) (s\<lparr>intr_flag := intr_off\<rparr>)"
  using running_task_eq[of "s\<lparr>intr_flag := intr_off\<rparr>" cur] sched_okD(1,2)[OF run_okD(1)[OF assms]]
  by (simp add: sema_down_def)

lemma intr_flag_twice [simp]: "s\<lparr>intr_flag := i, intr_flag := j\<rparr> = s\<lparr>intr_flag := j\<rparr>"
  by simp

lemma lock_inv_down:
  assumes inv: "lock_inv_at c cur rs ws" and p: "is_lock p" and idle: "cur \<noteq> idle_task (ks c)"
    and w: "wants c cur = None \<or> (\<exists>i. wants c cur = Some (p, i))"
  shows "(\<exists>s'. sema_down_from p cur i ((ks c)\<lparr>intr_flag := intr_off\<rparr>) = Ret () s' \<and>
       lock_inv (c\<lparr>ks := s', holds := (holds c)(cur := insert p (holds c cur)), wants := (wants c)(cur := None)\<rparr>)) \<or>
    (\<exists>s'. sema_down_from p cur i ((ks c)\<lparr>intr_flag := intr_off\<rparr>) = Sleep s' \<and>
       (\<forall>j. lock_inv (c\<lparr>ks := s', wants := (wants c)(cur := Some (p, j))\<rparr>)))"
proof -
  note D = lock_invD[OF inv]
  obtain nxt qs where q: "candidates (ks c) rs = nxt # qs" by (cases "candidates (ks c) rs") auto
  let ?s = "(ks c)\<lparr>intr_flag := intr_off\<rparr>"
  have v: "sema_value ?s p = 0 \<or> sema_value ?s p = 1" using D(3)[OF p] by (cases "\<forall>t. p \<notin> holds c t") simp_all
  have q': "candidates ?s rs = nxt # qs" using q by (auto simp: candidates_def split: if_splits)
  have ok: "run_ok ?s cur rs ws" using D(1) by simp
  have idle': "cur \<noteq> idle_task ?s" using idle by simp
  consider (taken) "sema_value (ks c) p = 1"
      "sema_down_from p cur i ?s = Ret () ((ks c)\<lparr>intr_flag := i, sema_value := (sema_value (ks c))(p := 0)\<rparr>)"
    | (slept) s' where "sema_value (ks c) p = 0" "sema_down_from p cur i ?s = Sleep s'"
      "run_ok s' nxt qs (ws(p := ws p @ [cur]))" "sema_value s' = sema_value (ks c)" "idle_task s' = idle_task (ks c)"
    using sema_down_cases[OF ok idle' v q', of i] by auto
  then show ?thesis
  proof cases
    case taken
    then show ?thesis using lock_inv_takes[OF inv p taken(1) w, of i] unfolding lock_inv_def by blast
  next
    case slept
    then show ?thesis
      using lock_inv_waits[OF inv p slept(1) w idle q slept(3-5)] unfolding lock_inv_def by blast
  qed
qed

text \<open>Every step keeps the invariant.\<close>

lemma lock_inv_yields:
  assumes inv: "lock_inv_at c cur rs ws" and "after (task_yield (ks c)) = Some s'"
  shows "lock_inv (c\<lparr>ks := s'\<rparr>)"
proof -
  note D = lock_invD[OF inv]
  obtain nxt qs where q: "rs @ [cur] = nxt # qs" by (cases "rs @ [cur]") auto
  have "set (rs @ [cur]) = set (nxt # qs)" unfolding q ..
  then have "insert cur (set rs) \<subseteq> insert nxt (set qs)" by auto
  moreover have "run_ok s' nxt qs ws \<and> sema_value s' = sema_value (ks c) \<and> idle_task s' = idle_task (ks c)"
    using task_yield_ok[OF D(1) q] assms(2) by (auto simp: after_def split: if_splits)
  ultimately show ?thesis using lock_inv_moves[OF inv] unfolding lock_inv_def by blast
qed

lemma lock_inv_ticks:
  assumes inv: "lock_inv_at c cur rs ws" and "t_stack_magic (tasks (ks c) cur) = STACK_MAGIC"
    and "after (intr_time_handle ((ks c)\<lparr>intr_flag := intr_off\<rparr>)) = Some s'"
  shows "lock_inv (c\<lparr>ks := s'\<rparr>)"
proof -
  note D = lock_invD[OF inv]
  let ?s = "(ks c)\<lparr>intr_flag := intr_off\<rparr>"
  obtain nxt qs where q: "rs @ [cur] = nxt # qs" by (cases "rs @ [cur]") auto
  have "set (rs @ [cur]) = set (nxt # qs)" unfolding q ..
  then have sub: "insert cur (set rs) \<subseteq> insert nxt (set qs)" by auto
  have "(run_ok s' nxt qs ws \<or> run_ok s' cur rs ws) \<and> sema_value s' = sema_value (ks c) \<and>
      idle_task s' = idle_task (ks c)"
    using intr_time_handle_ok[of ?s cur rs ws] D(1) assms(2,3) q
    by (auto simp: after_def switched_def split: if_splits)
  then show ?thesis
    using lock_inv_moves[OF inv, of s' nxt qs] lock_inv_moves[OF inv, of s' cur rs] sub
    unfolding lock_inv_def by blast
qed

lemma lock_inv_idles:
  assumes inv: "lock_inv_at c cur rs ws" and "cur = idle_task (ks c)"
    and "after (task_block TASK_BLOCKED (ks c)) = Some s'"
  shows "lock_inv (c\<lparr>ks := s'\<rparr>)"
proof -
  note D = lock_invD[OF inv]
  obtain nxt qs where q: "candidates (ks c) rs = nxt # qs" by (cases "candidates (ks c) rs") auto
  then have "set rs \<subseteq> insert nxt (set qs)" by (auto simp: candidates_def split: if_splits)
  then have "insert cur (set rs) - {idle_task (ks c)} \<subseteq> insert nxt (set qs)" using assms(2) by auto
  moreover have "run_ok s' nxt qs ws \<and> sema_value s' = sema_value (ks c) \<and> idle_task s' = idle_task (ks c)"
    using task_block_after[OF D(1) _ q, of TASK_BLOCKED] assms(3) by (auto simp: blockable_def)
  ultimately show ?thesis using lock_inv_moves[OF inv] unfolding lock_inv_def by blast
qed

lemma lock_inv_ups:
  assumes inv: "lock_inv_at c cur rs ws" and "p \<in> holds c cur"
  shows "\<exists>s'. sema_up p (ks c) = Ret () s' \<and> lock_inv (c\<lparr>ks := s', holds := (holds c)(cur := holds c cur - {p})\<rparr>)"
proof -
  note D = lock_invD[OF inv]
  have "sema_value (ks c) p = 0" using D(3)[OF D(5)[OF assms(2)]] assms(2) by auto
  then obtain h where h: "sema_up p (ks c) = Ret () ((ks c)\<lparr>links := h, sema_value := (sema_value (ks c))(p := 1)\<rparr>)"
      "run_ok ((ks c)\<lparr>links := h\<rparr>) cur (woken (ws p) rs) (ws(p := tl (ws p)))"
    using sema_up_ok[OF D(1)] by blast
  then show ?thesis using lock_inv_gives[OF assms, of "(ks c)\<lparr>links := h, sema_value := (sema_value (ks c))(p := 1)\<rparr>"]
    unfolding lock_inv_def by auto
qed

lemma lock_inv_step:
  assumes step: "lock_step c c'" and "lock_inv c"
  shows "lock_inv c'"
proof -
  obtain cur rs ws where inv: "lock_inv_at c cur rs ws" using assms(2) by (auto simp: lock_inv_def)
  note D = lock_invD[OF inv]
  note start = sema_down_start[OF D(1)]
  show ?thesis
    using step
  proof (cases rule: lock_step.cases)
    case (down_returns p t s')
    moreover have "(wants c)(cur := None) = wants c" using down_returns D(2) by auto
    ultimately show ?thesis
      using lock_inv_down[OF inv, of p "intr_flag (ks c)"] D(2) start[of p] by auto
  next
    case (down_sleeps p t s')
    then show ?thesis using lock_inv_down[OF inv, of p "intr_flag (ks c)"] D(2) start[of p] by auto
  next
    case (resume_returns t p i s')
    then show ?thesis
      using lock_inv_down[OF inv, of p i] D(2) D(6)[of cur p i] by (auto simp: sema_down_resume_def)
  next
    case (resume_sleeps t p i s')
    moreover have "c\<lparr>ks := s', wants := (wants c)(cur := Some (p, i))\<rparr> = c\<lparr>ks := s'\<rparr>"
      using resume_sleeps D(2) by (simp add: fun_upd_idem)
    moreover have "sema_down_from p cur i ((ks c)\<lparr>intr_flag := intr_off\<rparr>) = Sleep s'" "is_lock p"
        "cur \<noteq> idle_task (ks c)" "wants c cur = Some (p, i)"
      using resume_sleeps D(2) D(6)[of cur p i] by (auto simp: sema_down_resume_def)
    ultimately show ?thesis using lock_inv_down[OF inv, of p i] by (metis run.inject(2) run.distinct(1))
  next
    case (up t p s')
    then show ?thesis using lock_inv_ups[OF inv, of p] D(2) by auto
  next
    case (yield s')
    then show ?thesis using lock_inv_yields[OF inv] by simp
  next
    case (tick s')
    then show ?thesis using lock_inv_ticks[OF inv] D(2) by simp
  next
    case (idle s')
    then show ?thesis using lock_inv_idles[OF inv] D(2) by simp
  next
    case (own_code i)
    then show ?thesis
      using lock_inv_moves[OF inv, of "(ks c)\<lparr>intr_flag := i\<rparr>" cur rs] D(1) unfolding lock_inv_def by auto
  qed
qed

section \<open>Properties\<close>

text \<open>Tasks that hold and want nothing, all locks at 1, no waiters.\<close>

definition lock_init :: "'z lockcfg \<Rightarrow> bool" where
  "lock_init c \<longleftrightarrow> (\<exists>cur rs. run_ok (ks c) cur rs (\<lambda>_. [])) \<and> (\<forall>p. is_lock p \<longrightarrow> sema_value (ks c) p = 1) \<and>
     holds c = (\<lambda>_. {}) \<and> wants c = (\<lambda>_. None)"

lemma lock_init_inv: "lock_init c \<Longrightarrow> lock_inv c"
  by (auto simp: lock_init_def lock_inv_def lock_inv_at_def)

lemma lock_inv_reachable: "lock_step\<^sup>*\<^sup>* c c' \<Longrightarrow> lock_inv c \<Longrightarrow> lock_inv c'"
  by (induction rule: rtranclp_induct) (auto intro: lock_inv_step)

definition demo_locks :: "unit lockcfg" where
  "demo_locks = \<lparr>ks = demo_state, holds = (\<lambda>_. {}), wants = (\<lambda>_. None)\<rparr>"

lemma demo_locks_init: "lock_init demo_locks"
  using demo_state_run_ok by (auto simp: lock_init_def demo_locks_def)

lemma demo_state_free [simp]: "sema_free p demo_state"
  using demo_state_run_ok
  by (auto simp: sema_free_def lock_free_def run_ok_def sched_ok_def cur_ok_def)

definition demo_locked :: "unit lockcfg" where
  "demo_locked = demo_locks\<lparr>ks := locked PidLock demo_state, holds := (\<lambda>_. {})(0x1000 := {PidLock})\<rparr>"

lemma demo_locked_step: "lock_step demo_locks demo_locked"
proof -
  have "sema_down PidLock (ks demo_locks) = Ret () (locked PidLock demo_state)"
    using sema_down_free[of demo_state PidLock] demo_state_free[of PidLock]
    by (simp add: demo_locks_def sema_free_def)
  moreover have "cur_of (ks demo_locks) = 0x1000"
    by (simp add: demo_locks_def cur_of_def demo_state_def PG_SIZE_def)
  ultimately show ?thesis
    using lock_step.down_returns[of PidLock "0x1000" demo_locks]
    by (simp add: is_lock_def demo_locks_def demo_locked_def)
qed

lemma demo_locked_reachable: "lock_step\<^sup>*\<^sup>* demo_locks demo_locked"
  by (rule r_into_rtranclp) (rule demo_locked_step)

text \<open>C1. Mutual exclusion. However tasks take and release locks, yield and are preempted, no lock is
  held by two tasks at once, and a lock's value is 0 exactly while some task holds it.\<close>

theorem mutual_exclusion:
  assumes "lock_init c0" "lock_step\<^sup>*\<^sup>* c0 c"
  shows "(p \<in> holds c t \<and> p \<in> holds c u \<longrightarrow> t = u) \<and>
    (is_lock p \<longrightarrow> sema_value (ks c) p = (if \<exists>t. p \<in> holds c t then 0 else 1))"
  using lock_inv_reachable[OF assms(2) lock_init_inv[OF assms(1)]]
  by (auto simp: lock_inv_def lock_inv_at_def)

theorem mutual_exclusion_witness:
  "sema_value (ks demo_locked) PidLock = 0 \<and> PidLock \<notin> holds demo_locked 0x2000"
proof -
  have "PidLock \<in> holds demo_locked 0x1000" by (simp add: demo_locked_def)
  moreover note mutual_exclusion[OF demo_locks_init demo_locked_reachable, where p = PidLock and u = "0x1000" and t = "0x2000"]
  moreover have "is_lock PidLock" "(0x2000 :: u64) \<noteq> 0x1000" by (simp_all add: is_lock_def)
  ultimately show ?thesis by auto
qed



text \<open>C14. The locks never stop the kernel. In every reachable state the running task's next \<^verbatim>\<open>sema_down\<close>,
  the rest of the \<^verbatim>\<open>sema_down\<close> it sleeps in, or the \<^verbatim>\<open>sema_up\<close> of a lock it holds, returns or puts it to
  sleep: no \<^verbatim>\<open>ASSERT\<close> fails and the loop does not run on.\<close>

theorem locks_never_fail:
  assumes "lock_init c0" "lock_step\<^sup>*\<^sup>* c0 c" "t = cur_of (ks c)" "is_lock p"
  shows "(t \<noteq> idle_task (ks c) \<and> wants c t = None \<longrightarrow> sema_down p (ks c) \<noteq> Fail e) \<and>
    (wants c t = Some (p, i) \<longrightarrow> sema_down_resume p t i (ks c) \<noteq> Fail e) \<and>
    (p \<in> holds c t \<longrightarrow> (\<exists>s'. sema_up p (ks c) = Ret () s'))"
proof -
  obtain cur rs ws where inv: "lock_inv_at c cur rs ws"
    using lock_inv_reachable[OF assms(2) lock_init_inv[OF assms(1)]] by (auto simp: lock_inv_def)
  note D = lock_invD[OF inv]
  show ?thesis
    using lock_inv_down[OF inv assms(4), of "intr_flag (ks c)"] lock_inv_down[OF inv assms(4), of i]
      lock_inv_ups[OF inv, of p] D(6)[of cur p i] sema_down_start[OF D(1), of p] D(2) assms(3)
    by (auto simp: sema_down_resume_def)
qed

theorem locks_never_fail_witness: "\<exists>s'. sema_up PidLock (ks demo_locked) = Ret () s'"
proof -
  have "cur_of (ks demo_locked) = 0x1000"
    by (simp add: demo_locked_def cur_of_def locked_def demo_state_def PG_SIZE_def)
  then show ?thesis
    using locks_never_fail[OF demo_locks_init demo_locked_reachable, where t = "0x1000" and p = PidLock]
    by (simp add: is_lock_def demo_locked_def)
qed

end
