(* ===== verification/Pools.thy ===== *)
theory Pools
  imports Sync
begin

text \<open>
  The page pools of \<^verbatim>\<open>kernel/memory.c\<close> (\<^verbatim>\<open>mem_pool_init\<close>, \<^verbatim>\<open>pool_alloc\<close>, \<^verbatim>\<open>pool_free\<close>, \<^verbatim>\<open>alloc_pages\<close>,
  \<^verbatim>\<open>free_pages\<close>) and the pid pool of \<^verbatim>\<open>task/task.c\<close>: bitmaps behind a lock.

  The calls are run from states in which the pool's lock is free, so that they return without
  waiting. \<open>unit_allocator\<close> is the contract the rest of the kernel uses the three pools under; it is
  interpreted for the kernel page pool, the physical page pool and the pid pool. The message printed
  before the \<^verbatim>\<open>PANIC\<close> of an exhausted pool is not modelled.
\<close>

unbundle bit_operations_syntax

section \<open>Page pools: the code\<close>

datatype pool = KernelPool | PhyPool

fun pool_lock :: "pool \<Rightarrow> sema" where
  "pool_lock KernelPool = KernelPoolLock"
| "pool_lock PhyPool = PhyPoolLock"

fun pool_of :: "pool \<Rightarrow> 'z kstate_scheme \<Rightarrow> mem_pool" where
  "pool_of KernelPool s = kernel_mem_pool s"
| "pool_of PhyPool s = phy_mem_pool s"

fun set_pool :: "pool \<Rightarrow> mem_pool \<Rightarrow> 'z kstate_scheme \<Rightarrow> 'z kstate_scheme" where
  "set_pool KernelPool m s = s\<lparr>kernel_mem_pool := m\<rparr>"
| "set_pool PhyPool m s = s\<lparr>phy_mem_pool := m\<rparr>"

abbreviation btmp_of :: "pool \<Rightarrow> 'z kstate_scheme \<Rightarrow> bitmap" where
  "btmp_of mp s \<equiv> pool_bitmap (pool_of mp s)"

definition set_btmp :: "pool \<Rightarrow> bitmap \<Rightarrow> 'z kstate_scheme \<Rightarrow> 'z kstate_scheme" where
  "set_btmp mp b s = set_pool mp ((pool_of mp s)\<lparr>pool_bitmap := b\<rparr>) s"

text \<open>The bitmap functions on the bitmap of a pool.\<close>

definition pool_bitmap_init :: "pool \<Rightarrow> ('z kstate_scheme, unit) kcall" where
  "pool_bitmap_init mp s =
     (case bitmap_init (btmp_of mp s) of Inl e \<Rightarrow> Fail e | Inr b \<Rightarrow> Ret () (set_btmp mp b s))"

definition pool_bitmap_alloc :: "pool \<Rightarrow> nat \<Rightarrow> ('z kstate_scheme, int) kcall" where
  "pool_bitmap_alloc mp cnt s =
     (case bitmap_alloc (btmp_of mp s) cnt of Inl e \<Rightarrow> Fail e | Inr (i, b) \<Rightarrow> Ret i (set_btmp mp b s))"

definition pool_bitmap_set :: "pool \<Rightarrow> nat \<Rightarrow> u8 \<Rightarrow> ('z kstate_scheme, unit) kcall" where
  "pool_bitmap_set mp i v s =
     (case bitmap_set (btmp_of mp s) i v of Inl e \<Rightarrow> Fail e | Inr b \<Rightarrow> Ret () (set_btmp mp b s))"

definition pool_bitmap_read :: "pool \<Rightarrow> nat \<Rightarrow> ('z kstate_scheme, u8) kcall" where
  "pool_bitmap_read mp i s =
     (case bitmap_read (btmp_of mp s) i of Inl e \<Rightarrow> Fail e | Inr v \<Rightarrow> Ret v s)"

definition mem_pool_init :: "pool \<Rightarrow> u64 \<Rightarrow> nat \<Rightarrow> u8 list \<Rightarrow> nat \<Rightarrow> ('z kstate_scheme, unit) kcall" where
  "mem_pool_init mp start btmp_bytes_len bts res =
     bnd (kput (set_pool mp \<lparr>mp_start = start,
            pool_bitmap = \<lparr>bytes_len = btmp_bytes_len, bits = bts\<rparr>\<rparr>)) (\<lambda>_.
     bnd (pool_bitmap_init mp) (\<lambda>_.
     bnd (sema_init (pool_lock mp) 1) (\<lambda>_.
     for_range 0 res (\<lambda>i. pool_bitmap_set mp i 1))))"

definition pool_alloc :: "pool \<Rightarrow> nat \<Rightarrow> ('z kstate_scheme, u64) kcall" where
  "pool_alloc mp pg_cnt =
     bnd (sema_down (pool_lock mp)) (\<lambda>_.
     bnd (pool_bitmap_alloc mp pg_cnt) (\<lambda>idx.
     bnd (sema_up (pool_lock mp)) (\<lambda>_.
     if idx = -1 then PANIC
     else bnd (kget (pool_of mp)) (\<lambda>m. ret (mp_start m + of_int idx * PG_SIZE)))))"

text \<open>The body of the loop of \<^verbatim>\<open>pool_free\<close>.\<close>

definition free_page_at :: "pool \<Rightarrow> nat \<Rightarrow> nat \<Rightarrow> ('z kstate_scheme, unit) kcall" where
  "free_page_at mp idx_start i =
     bnd (pool_bitmap_read mp (idx_start + i)) (\<lambda>b.
     bnd (ASSERT (b \<noteq> 0)) (\<lambda>_.
     pool_bitmap_set mp (idx_start + i) 0))"

definition pool_free :: "pool \<Rightarrow> u64 \<Rightarrow> nat \<Rightarrow> ('z kstate_scheme, unit) kcall" where
  "pool_free mp addr pg_cnt =
     bnd (kget (\<lambda>s. unat ((addr - mp_start (pool_of mp s)) div PG_SIZE))) (\<lambda>idx_start.
     bnd (sema_down (pool_lock mp)) (\<lambda>_.
     bnd (for_range 0 pg_cnt (free_page_at mp idx_start)) (\<lambda>_.
     sema_up (pool_lock mp))))"

definition alloc_pages :: "nat \<Rightarrow> ('z kstate_scheme, u64) kcall" where
  "alloc_pages pg_cnt = pool_alloc KernelPool pg_cnt"

definition free_pages :: "u64 \<Rightarrow> nat \<Rightarrow> ('z kstate_scheme, unit) kcall" where
  "free_pages va pg_cnt = pool_free KernelPool va pg_cnt"

section \<open>The pid pool: the code\<close>

definition pid_pool_init :: "('z kstate_scheme, unit) kcall" where
  "pid_pool_init =
     bnd (kput (\<lambda>s. s\<lparr>pid_start := 0\<rparr>)) (\<lambda>_.
     bnd (kput (\<lambda>s. s\<lparr>pid_bitmap := \<lparr>bytes_len = 128, bits = replicate 128 0\<rparr>\<rparr>)) (\<lambda>_.
     bnd (on_field' pid_bitmap pid_bitmap_update bitmap_init) (\<lambda>_.
     sema_init PidLock 1)))"

definition alloc_pid :: "('z kstate_scheme, int) kcall" where
  "alloc_pid =
     bnd (sema_down PidLock) (\<lambda>_.
     bnd (on_field pid_bitmap pid_bitmap_update (\<lambda>b. bitmap_alloc b 1)) (\<lambda>bit_idx.
     bnd (sema_up PidLock) (\<lambda>_.
     bnd (kget pid_start) (\<lambda>start.
     ret (bit_idx + start)))))"

text \<open>\<^verbatim>\<open>pid - pid_start\<close> becomes the \<^verbatim>\<open>size_t\<close> index of \<^verbatim>\<open>bitmap_set\<close>.\<close>

definition release_pid :: "int \<Rightarrow> ('z kstate_scheme, unit) kcall" where
  "release_pid pid =
     bnd (sema_down PidLock) (\<lambda>_.
     bnd (kget pid_start) (\<lambda>start.
     bnd (on_field' pid_bitmap pid_bitmap_update
            (\<lambda>b. bitmap_set b (unat (word_of_int (pid - start) :: u64)) 0)) (\<lambda>_.
     sema_up PidLock)))"

lemmas pool_defs [kdefs] =
  mem_pool_init_def pool_alloc_def pool_free_def alloc_pages_def free_pages_def
  pid_pool_init_def alloc_pid_def release_pid_def

section \<open>Pools and locks\<close>

lemma set_btmp_simps [simp]:
  "pool_of mp (set_btmp mp b s) = (pool_of mp s)\<lparr>pool_bitmap := b\<rparr>"
  "pool_of mp (locked p s) = pool_of mp s" "pool_of mp (unlocked p s) = pool_of mp s"
  "mp \<noteq> mp' \<Longrightarrow> pool_of mp (set_btmp mp' b s) = pool_of mp s"
  "sema_value (set_btmp mp b s) = sema_value s" "links (set_btmp mp b s) = links s"
  "ist2 (set_btmp mp b s) = ist2 s" "tasks (set_btmp mp b s) = tasks s"
  "idle_task (set_btmp mp b s) = idle_task s"
  "set_btmp mp b (set_btmp mp b' s) = set_btmp mp b s"
  "set_btmp mp (btmp_of mp s) s = s"
  by (cases mp; cases mp'; simp add: set_btmp_def locked_def unlocked_def)+

lemma locked_simps [simp]:
  "links (locked p s) = links s" "ist2 (locked p s) = ist2 s"
  "sema_value (locked p s) = (sema_value s)(p := 0)"
  "links (unlocked p s) = links s" "ist2 (unlocked p s) = ist2 s"
  "sema_value (unlocked p s) = (sema_value s)(p := 1)"
  "pid_bitmap (locked p s) = pid_bitmap s" "pid_start (locked p s) = pid_start s"
  "pid_bitmap (unlocked p s) = pid_bitmap s" "pid_start (unlocked p s) = pid_start s"
  by (simp_all add: locked_def unlocked_def)

lemma set_btmp_locks [simp]:
  "sema_free p (set_btmp mp b s) = sema_free p s" "sema_held p (set_btmp mp b s) = sema_held p s"
  "run_ok (set_btmp mp b s) cur rs ws = run_ok s cur rs ws"
  by (cases mp; simp add: sema_free_def sema_held_def lock_free_def cur_ok_def tq_def set_btmp_def)+

lemma unlocked_set_btmp [simp]:
  "sema_free p s \<Longrightarrow> unlocked p (set_btmp mp b (locked p s)) = set_btmp mp b s"
proof -
  assume "sema_free p s"
  then have "unlocked p (locked p s) = s" by (simp add: sema_free_def lock_free_def)
  moreover have "unlocked p (set_btmp mp b (locked p s)) = set_btmp mp b (unlocked p (locked p s))"
    by (cases mp) (simp_all add: set_btmp_def unlocked_def locked_def)
  ultimately show ?thesis by simp
qed

lemma sema_held_locked [simp]: "sema_free p s \<Longrightarrow> sema_held p (locked p s)"
  by (simp add: sema_free_def sema_held_def lock_free_def cur_ok_def tq_def)

text \<open>The two ends of a critical section that changes the pool's bitmap.\<close>

lemma pool_section [simp]:
  assumes "sema_free p s"
  shows "sema_down p s = Ret () (locked p s)"
    "sema_up p (set_btmp mp b (locked p s)) = Ret () (set_btmp mp b s)"
    "sema_up p (locked p s) = Ret () s"
  using lk.down_free[OF assms] lk.up_held[of p "set_btmp mp b (locked p s)"] lk.up_held[of p "locked p s"]
    assms by (simp_all add: sema_free_def lock_free_def)

section \<open>What the page pools do\<close>

definition pool_ok :: "pool \<Rightarrow> 'z kstate_scheme \<Rightarrow> bool" where
  "pool_ok mp s \<longleftrightarrow> bitmap_wf (btmp_of mp s) \<and> nbits (btmp_of mp s) \<le> 2 ^ 52 \<and> sema_free (pool_lock mp) s"

text \<open>The address of page \<open>i\<close> of a pool and the addresses of the pages in use.\<close>

definition page_addr :: "u64 \<Rightarrow> nat \<Rightarrow> u64" where
  "page_addr start i = start + of_nat i * PG_SIZE"

definition pages :: "pool \<Rightarrow> 'z kstate_scheme \<Rightarrow> u64 set" where
  "pages mp s = page_addr (mp_start (pool_of mp s)) ` used (btmp_of mp s)"

definition page_units :: "pool \<Rightarrow> 'z kstate_scheme \<Rightarrow> u64 set" where
  "page_units mp s = page_addr (mp_start (pool_of mp s)) ` {..<nbits (btmp_of mp s)}"

lemma page_idx:
  assumes "i < 2 ^ 52"
  shows "unat ((page_addr start i - start) div PG_SIZE) = i"
proof -
  have "unat (of_nat i * PG_SIZE :: u64) = i * 4096"
    using assms by (simp add: PG_SIZE_def unat_word_ariths unat_of_nat take_bit_eq_mod)
  then show ?thesis by (simp add: page_addr_def PG_SIZE_def unat_div)
qed

lemma page_addr_inj: "i < 2 ^ 52 \<Longrightarrow> j < 2 ^ 52 \<Longrightarrow> page_addr start i = page_addr start j \<longleftrightarrow> i = j"
  using page_idx by metis

lemma pool_alloc_eq:
  assumes "sema_free (pool_lock mp) s" "bitmap_alloc (btmp_of mp s) n = Inr (i, b)"
  shows "pool_alloc mp n s =
    (if i = -1 then Fail Panicked
     else Ret (mp_start (pool_of mp s) + of_int i * PG_SIZE) (set_btmp mp b s))"
proof -
  have "pool_bitmap_alloc mp n (locked (pool_lock mp) s) = Ret i (set_btmp mp b (locked (pool_lock mp) s))"
    using assms(2) by (simp add: pool_bitmap_alloc_def)
  then show ?thesis
    using assms(1) by (simp add: pool_alloc_def PANIC_def fail_def ret_def)
qed

lemma pool_alloc_fails:
  assumes "sema_free (pool_lock mp) s" "bitmap_alloc (btmp_of mp s) n = Inl e"
  shows "pool_alloc mp n s = Fail e"
proof -
  have "pool_bitmap_alloc mp n (locked (pool_lock mp) s) = Fail e"
    using assms(2) by (simp add: pool_bitmap_alloc_def)
  then show ?thesis unfolding pool_alloc_def by (rule lk.section_fails[OF assms(1)])
qed

lemma free_page_at_ok:
  assumes "a + j \<in> used (btmp_of mp s)"
  shows "\<exists>b. free_page_at mp a j s = Ret () (set_btmp mp b s) \<and>
    used b = used (btmp_of mp s) - {a + j} \<and> bytes_len b = bytes_len (btmp_of mp s) \<and>
    length (bits b) = length (bits (btmp_of mp s))"
proof -
  have j: "a + j < nbits (btmp_of mp s)" "bit_at (btmp_of mp s) (a + j)" using assms by (auto simp: in_used)
  obtain b where b: "bitmap_set (btmp_of mp s) (a + j) 0 = Inr b"
      "used b = used (btmp_of mp s) - {a + j}" "bytes_len b = bytes_len (btmp_of mp s)"
      "length (bits b) = length (bits (btmp_of mp s))"
    using bitmap_set_ok[OF j(1), of 0] by auto
  then show ?thesis
    using j by (intro exI[of _ b]) (simp add: free_page_at_def pool_bitmap_read_def pool_bitmap_set_def bitmap_read_eq run_simps)
qed

lemma free_page_at_fails:
  assumes "a + j \<notin> used (btmp_of mp s)"
  shows "free_page_at mp a j s = Fail (if a + j < nbits (btmp_of mp s) then AssertFail else OutOfBounds)"
  using assms by (simp add: free_page_at_def pool_bitmap_read_def bitmap_read_eq in_used run_simps)

lemma free_pages_loop:
  assumes "{a + j..<a + j + n} \<subseteq> used (btmp_of mp s)"
  shows "\<exists>b. for_range j n (free_page_at mp a) s = Ret () (set_btmp mp b s) \<and>
    used b = used (btmp_of mp s) - {a + j..<a + j + n} \<and> bytes_len b = bytes_len (btmp_of mp s) \<and>
    length (bits b) = length (bits (btmp_of mp s))"
  using assms
proof (induction n arbitrary: j s)
  case 0
  then show ?case by (intro exI[of _ "btmp_of mp s"]) (simp add: ret_def)
next
  case (Suc n)
  have "a + j \<in> used (btmp_of mp s)" using Suc.prems by auto
  then obtain b1 where b1: "free_page_at mp a j s = Ret () (set_btmp mp b1 s)"
      "used b1 = used (btmp_of mp s) - {a + j}" "bytes_len b1 = bytes_len (btmp_of mp s)"
      "length (bits b1) = length (bits (btmp_of mp s))"
    using free_page_at_ok[of a j mp s] by blast
  have "{a + Suc j..<a + Suc j + n} \<subseteq> used (btmp_of mp (set_btmp mp b1 s))"
    using Suc.prems b1(2) by auto
  then obtain b where b: "for_range (Suc j) n (free_page_at mp a) (set_btmp mp b1 s) =
        Ret () (set_btmp mp b (set_btmp mp b1 s))"
      "used b = used b1 - {a + Suc j..<a + Suc j + n}" "bytes_len b = bytes_len b1"
      "length (bits b) = length (bits b1)"
    using Suc.IH[of "Suc j" "set_btmp mp b1 s"] by auto
  moreover have "{a + j..<a + j + Suc n} = insert (a + j) {a + Suc j..<a + Suc j + n}" by auto
  then have "used b = used (btmp_of mp s) - {a + j..<a + j + Suc n}" using b(2) b1(2) by auto
  ultimately show ?case using b1 by (intro exI[of _ b]) simp
qed

lemma pool_free_ok:
  assumes free: "sema_free (pool_lock mp) s"
    and idx: "unat ((addr - mp_start (pool_of mp s)) div PG_SIZE) = a"
    and u: "{a..<a + n} \<subseteq> used (btmp_of mp s)"
  shows "\<exists>b. pool_free mp addr n s = Ret () (set_btmp mp b s) \<and>
    used b = used (btmp_of mp s) - {a..<a + n} \<and> bytes_len b = bytes_len (btmp_of mp s) \<and>
    length (bits b) = length (bits (btmp_of mp s))"
proof -
  obtain b where b: "for_range 0 n (free_page_at mp a) (locked (pool_lock mp) s) =
        Ret () (set_btmp mp b (locked (pool_lock mp) s))"
      "used b = used (btmp_of mp s) - {a..<a + n}" "bytes_len b = bytes_len (btmp_of mp s)"
      "length (bits b) = length (bits (btmp_of mp s))"
    using free_pages_loop[of a 0 n mp "locked (pool_lock mp) s"] u by auto
  then have "pool_free mp addr n s = Ret () (set_btmp mp b s)"
    using idx free by (simp add: pool_free_def)
  then show ?thesis using b by blast
qed

lemma pool_free_fails:
  assumes free: "sema_free (pool_lock mp) s" and "0 < n"
    and idx: "unat ((addr - mp_start (pool_of mp s)) div PG_SIZE) = a" "a \<notin> used (btmp_of mp s)"
  shows "pool_free mp addr n s = Fail (if a < nbits (btmp_of mp s) then AssertFail else OutOfBounds)"
proof -
  obtain m where n: "n = Suc m" using assms(2) by (cases n) auto
  have f: "free_page_at mp a 0 (locked (pool_lock mp) s) =
      Fail (if a < nbits (btmp_of mp s) then AssertFail else OutOfBounds)"
    using free_page_at_fails[of a 0 mp "locked (pool_lock mp) s"] idx(2) by simp
  have "for_range 0 n (free_page_at mp a) (locked (pool_lock mp) s) =
      Fail (if a < nbits (btmp_of mp s) then AssertFail else OutOfBounds)"
    unfolding n for_range.simps by (rule bnd_run(3)[of "free_page_at mp a 0", OF f])
  then show ?thesis
    using idx(1) free by (simp add: pool_free_def)
qed

section \<open>What the pid pool does\<close>

lemma pid_section:
  assumes "sema_free PidLock s"
  shows "sema_up PidLock ((locked PidLock s)\<lparr>pid_bitmap := b\<rparr>) = Ret () (s\<lparr>pid_bitmap := b\<rparr>)"
proof -
  have "sema_held PidLock ((locked PidLock s)\<lparr>pid_bitmap := b\<rparr>)"
    using assms by (simp add: sema_free_def sema_held_def lock_free_def cur_ok_def tq_def locked_def)
  moreover have "(sema_value s)(PidLock := 1) = sema_value s"
    using assms by (simp add: sema_free_def lock_free_def fun_upd_idem)
  ultimately show ?thesis
    using lk.up_held[of PidLock "(locked PidLock s)\<lparr>pid_bitmap := b\<rparr>"]
    by (simp add: locked_def unlocked_def)
qed

lemma alloc_pid_eq:
  assumes "sema_free PidLock s" "bitmap_alloc (pid_bitmap s) 1 = Inr (i, b)"
  shows "alloc_pid s = Ret (i + pid_start s) (s\<lparr>pid_bitmap := b\<rparr>)"
  using assms pid_section[OF assms(1), of b]
  by (simp add: alloc_pid_def bnd_def[of "on_field a b c" for a b c] on_field_def ret_def)

lemma release_pid_eq:
  assumes "sema_free PidLock s" "bitmap_set (pid_bitmap s) i 0 = Inr b"
    and "unat (word_of_int (pid - pid_start s) :: u64) = i"
  shows "release_pid pid s = Ret () (s\<lparr>pid_bitmap := b\<rparr>)"
  using assms pid_section[OF assms(1), of b]
  by (simp add: release_pid_def bnd_def[of "on_field' a b c" for a b c] on_field'_def)

section \<open>The contract of an allocator of single units\<close>

text \<open>\<open>n\<close> units one after another.\<close>

fun take_n :: "('s, 'a) kcall \<Rightarrow> nat \<Rightarrow> ('s, 'a list) kcall" where
  "take_n alloc 0 = ret []"
| "take_n alloc (Suc n) = bnd alloc (\<lambda>x. bnd (take_n alloc n) (\<lambda>xs. ret (x # xs)))"

fun give_all :: "('a \<Rightarrow> ('s, unit) kcall) \<Rightarrow> 'a list \<Rightarrow> ('s, unit) kcall" where
  "give_all release [] = ret ()"
| "give_all release (x # xs) = bnd (release x) (\<lambda>_. give_all release xs)"

locale unit_allocator =
  fixes inv :: "'s \<Rightarrow> bool"
    and units :: "'s \<Rightarrow> 'a set"
    and live :: "'s \<Rightarrow> 'a set"
    and alloc :: "('s, 'a) kcall"
    and release :: "'a \<Rightarrow> ('s, unit) kcall"
  assumes alloc_law: "inv s \<Longrightarrow> live s \<noteq> units s \<Longrightarrow>
      \<exists>x s'. alloc s = Ret x s' \<and> x \<in> units s - live s \<and> live s' = insert x (live s) \<and>
        inv s' \<and> units s' = units s"
    and release_law: "inv s \<Longrightarrow> x \<in> live s \<Longrightarrow>
      \<exists>s'. release x s = Ret () s' \<and> live s' = live s - {x} \<and> inv s' \<and> units s' = units s"
    and live_units: "inv s \<Longrightarrow> live s \<subseteq> units s \<and> finite (units s)"
begin

lemma take_n_law:
  assumes "inv s" "card (live s) + n \<le> card (units s)"
  shows "\<exists>xs s'. take_n alloc n s = Ret xs s' \<and> length xs = n \<and> distinct xs \<and>
    set xs \<subseteq> units s - live s \<and> live s' = live s \<union> set xs \<and> inv s' \<and> units s' = units s"
  using assms
proof (induction n arbitrary: s)
  case 0
  then show ?case by (auto simp: ret_def)
next
  case (Suc n)
  have "live s \<noteq> units s" using Suc.prems(2) by auto
  then obtain x s1 where s1: "alloc s = Ret x s1" "x \<in> units s - live s" "live s1 = insert x (live s)"
      "inv s1" "units s1 = units s"
    using alloc_law[OF Suc.prems(1)] by blast
  have "finite (live s)" using live_units[OF Suc.prems(1)] finite_subset by blast
  then have "card (live s1) + n \<le> card (units s1)" using s1 Suc.prems(2) by simp
  then obtain xs s' where "take_n alloc n s1 = Ret xs s'" "length xs = n" "distinct xs"
      "set xs \<subseteq> units s1 - live s1" "live s' = live s1 \<union> set xs" "inv s'" "units s' = units s1"
    using Suc.IH[OF s1(4)] by blast
  then show ?case using s1 by (auto simp: ret_def)
qed

lemma give_all_law:
  assumes "inv s" "set xs \<subseteq> live s" "distinct xs"
  shows "\<exists>s'. give_all release xs s = Ret () s' \<and> live s' = live s - set xs \<and> inv s' \<and> units s' = units s"
  using assms
proof (induction xs arbitrary: s)
  case (Cons x xs)
  obtain s1 where s1: "release x s = Ret () s1" "live s1 = live s - {x}" "inv s1" "units s1 = units s"
    using release_law[OF Cons.prems(1), of x] Cons.prems(2) by auto
  have "set xs \<subseteq> live s1" using Cons.prems(2,3) s1(2) by auto
  then obtain s' where "give_all release xs s1 = Ret () s'" "live s' = live s1 - set xs" "inv s'"
      "units s' = units s1"
    using Cons.IH[OF s1(3)] Cons.prems(3) by auto
  then show ?case using s1 by auto
qed (auto simp: ret_def)

text \<open>Whatever is taken can be given back in any order.\<close>

lemma take_give:
  assumes "inv s" "card (live s) + n \<le> card (units s)"
  shows "\<exists>xs s'. take_n alloc n s = Ret xs s' \<and> length xs = n \<and> distinct xs \<and> set xs \<inter> live s = {} \<and>
    (\<forall>ys. set ys = set xs \<and> distinct ys \<longrightarrow>
      (\<exists>s''. give_all release ys s' = Ret () s'' \<and> live s'' = live s \<and> inv s''))"
proof -
  obtain xs s' where xs: "take_n alloc n s = Ret xs s'" "length xs = n" "distinct xs"
      "set xs \<subseteq> units s - live s" "live s' = live s \<union> set xs" "inv s'"
    using take_n_law[OF assms] by blast
  have "\<exists>s''. give_all release ys s' = Ret () s'' \<and> live s'' = live s \<and> inv s''"
    if ys: "set ys = set xs" "distinct ys" for ys
  proof -
    have "live s' - set ys = live s" using xs(4,5) ys by auto
    then show ?thesis using give_all_law[OF xs(6), of ys] ys xs(5) by auto
  qed
  then show ?thesis using xs by blast
qed

end

text \<open>The weaker contract of an allocator whose supply is not fixed: \<open>rep s L\<close> says that the objects in use
  are \<open>L\<close>, \<open>can s\<close> that there is room for one more. Every allocator of units is one of objects.\<close>

locale object_allocator =
  fixes rep :: "'s \<Rightarrow> 'a set \<Rightarrow> bool"
    and can :: "'s \<Rightarrow> bool"
    and alloc :: "('s, 'a) kcall"
    and release :: "'a \<Rightarrow> ('s, unit) kcall"
  assumes get_law: "rep s L \<Longrightarrow> can s \<Longrightarrow> \<exists>x s'. alloc s = Ret x s' \<and> x \<notin> L \<and> rep s' (insert x L)"
    and put_law: "rep s L \<Longrightarrow> x \<in> L \<Longrightarrow> \<exists>s'. release x s = Ret () s' \<and> rep s' (L - {x})"
begin

lemma get_put:
  assumes "rep s L" "can s"
  shows "\<exists>x s' s''. alloc s = Ret x s' \<and> x \<notin> L \<and> rep s' (insert x L) \<and>
    release x s' = Ret () s'' \<and> rep s'' L"
proof -
  obtain x s' where x: "alloc s = Ret x s'" "x \<notin> L" "rep s' (insert x L)" using get_law[OF assms] by blast
  moreover have "insert x L - {x} = L" using x(2) by simp
  ultimately show ?thesis using put_law[OF x(3), of x] by auto
qed

lemma put_all:
  assumes "rep s L" "set xs \<subseteq> L" "distinct xs"
  shows "\<exists>s'. give_all release xs s = Ret () s' \<and> rep s' (L - set xs)"
  using assms
proof (induction xs arbitrary: s L)
  case (Cons x xs)
  obtain s1 where s1: "release x s = Ret () s1" "rep s1 (L - {x})"
    using put_law[OF Cons.prems(1), of x] Cons.prems(2) by auto
  have "L - set (x # xs) = L - {x} - set xs" by auto
  moreover have "set xs \<subseteq> L - {x}" using Cons.prems(2,3) by auto
  ultimately show ?case using Cons.IH[OF s1(2)] Cons.prems(3) s1(1) by auto
qed (simp add: ret_def)

end

sublocale unit_allocator \<subseteq> obj: object_allocator "\<lambda>s L. inv s \<and> L = live s" "\<lambda>s. live s \<noteq> units s" alloc release
proof (unfold_locales, goal_cases)
  case (1 s L)
  then show ?case using alloc_law[of s] by blast
next
  case (2 s L x)
  then show ?case using release_law[of s x] by blast
qed

lemma pages_upd:
  assumes "pool_ok mp s" "used b = U" "bytes_len b = bytes_len (btmp_of mp s)"
    "length (bits b) = length (bits (btmp_of mp s))"
  shows "pool_ok mp (set_btmp mp b s)" "page_units mp (set_btmp mp b s) = page_units mp s"
    "pages mp (set_btmp mp b s) = page_addr (mp_start (pool_of mp s)) ` U"
  using assms by (auto simp: pool_ok_def page_units_def pages_def bitmap_wf_def)

lemma page_addr_image:
  assumes "pool_ok mp s" "A \<subseteq> {..<nbits (btmp_of mp s)}" "i < nbits (btmp_of mp s)"
  shows "page_addr start i \<in> page_addr start ` A \<longleftrightarrow> i \<in> A"
proof -
  have lt: "j < 2 ^ 52" if "j < nbits (btmp_of mp s)" for j using assms(1) that by (simp add: pool_ok_def)
  show ?thesis
  proof
    assume "page_addr start i \<in> page_addr start ` A"
    then obtain j where "j \<in> A" "page_addr start i = page_addr start j" by auto
    then show "i \<in> A" using page_addr_inj[OF lt lt, of i j start] assms(2,3) by auto
  qed simp
qed

lemma used_bound: "used b \<subseteq> {..<nbits b}"
  by (auto simp: used_def)

lemma pool_alloc_law:
  assumes ok: "pool_ok mp s" and "pages mp s \<noteq> page_units mp s"
  shows "\<exists>a s'. pool_alloc mp 1 s = Ret a s' \<and> a \<in> page_units mp s - pages mp s \<and>
    pages mp s' = insert a (pages mp s) \<and> pool_ok mp s' \<and> page_units mp s' = page_units mp s"
proof -
  let ?b = "btmp_of mp s" and ?start = "mp_start (pool_of mp s)"
  have wf: "bitmap_wf ?b" and free: "sema_free (pool_lock mp) s" using ok by (auto simp: pool_ok_def)
  have "used ?b \<noteq> {..<nbits ?b}" using assms(2) by (auto simp: pages_def page_units_def)
  then obtain i b where b: "bitmap_alloc ?b 1 = Inr (int i, b)" "i < nbits ?b" "i \<notin> used ?b"
      "used b = insert i (used ?b)" "bitmap_wf b" "nbits b = nbits ?b"
    using bm.alloc_one_cases[OF wf] by blast
  have "bytes_len b = bytes_len ?b" "length (bits b) = length (bits ?b)"
    using b(5,6) wf by (auto simp: bitmap_wf_def)
  note upd = pages_upd[OF ok b(4) this]
  have "page_addr ?start i \<notin> pages mp s"
    using page_addr_image[OF ok used_bound[of ?b] b(2)] b(3) by (simp add: pages_def)
  moreover have "pool_alloc mp 1 s = Ret (page_addr ?start i) (set_btmp mp b s)"
    using pool_alloc_eq[OF free b(1)] by (simp add: page_addr_def)
  ultimately show ?thesis using upd b(2) by (auto simp: page_units_def pages_def)
qed

lemma pool_free_law:
  assumes ok: "pool_ok mp s" and "a \<in> pages mp s"
  shows "\<exists>s'. pool_free mp a 1 s = Ret () s' \<and> pages mp s' = pages mp s - {a} \<and> pool_ok mp s' \<and>
    page_units mp s' = page_units mp s"
proof -
  let ?b = "btmp_of mp s" and ?start = "mp_start (pool_of mp s)"
  obtain i where i: "i \<in> used ?b" "a = page_addr ?start i" using assms(2) by (auto simp: pages_def)
  have lt: "j < 2 ^ 52" if "j \<in> used ?b" for j
    using that ok used_bound[of ?b] by (force simp: pool_ok_def)
  obtain b where b: "pool_free mp a 1 s = Ret () (set_btmp mp b s)" "used b = used ?b - {i}"
      "bytes_len b = bytes_len ?b" "length (bits b) = length (bits ?b)"
    using pool_free_ok[of mp s a i 1] ok i page_idx[OF lt[OF i(1)], of ?start]
    by (auto simp: pool_ok_def)
  have "page_addr ?start ` (used ?b - {i}) = page_addr ?start ` used ?b - {page_addr ?start i}"
    using page_addr_inj lt i(1) by blast
  then show ?thesis using pages_upd[OF ok b(2-4)] b(1) i(2) by (simp add: pages_def)
qed

interpretation pp: unit_allocator "pool_ok mp" "page_units mp" "pages mp" "pool_alloc mp 1" "\<lambda>a. pool_free mp a 1"
  for mp
proof (unfold_locales, goal_cases)
  case (1 s)
  then show ?case by (rule pool_alloc_law)
next
  case (2 s x)
  then show ?case by (rule pool_free_law)
next
  case (3 s)
  then show ?case using used_bound[of "btmp_of mp s"] by (auto simp: pages_def page_units_def)
qed

interpretation kp: unit_allocator "pool_ok KernelPool" "page_units KernelPool" "pages KernelPool"
  "alloc_pages 1" "\<lambda>a. free_pages a 1"
  using pp.unit_allocator_axioms[of KernelPool] by (simp add: alloc_pages_def free_pages_def)

text \<open>The pid pool.\<close>

definition pid_ok :: "'z kstate_scheme \<Rightarrow> bool" where
  "pid_ok s \<longleftrightarrow> bitmap_wf (pid_bitmap s) \<and> nbits (pid_bitmap s) < 2 ^ 63 \<and> sema_free PidLock s"

definition pids :: "'z kstate_scheme \<Rightarrow> int set" where
  "pids s = (\<lambda>i. int i + pid_start s) ` used (pid_bitmap s)"

definition pid_units :: "'z kstate_scheme \<Rightarrow> int set" where
  "pid_units s = (\<lambda>i. int i + pid_start s) ` {..<nbits (pid_bitmap s)}"

lemma pid_upd:
  assumes "pid_ok s" "used b = U" "bitmap_wf b" "nbits b = nbits (pid_bitmap s)"
  shows "pid_ok (s\<lparr>pid_bitmap := b\<rparr>)" "pid_units (s\<lparr>pid_bitmap := b\<rparr>) = pid_units s"
    "pids (s\<lparr>pid_bitmap := b\<rparr>) = (\<lambda>i. int i + pid_start s) ` U"
  using assms
  by (auto simp: pid_ok_def pid_units_def pids_def sema_free_def lock_free_def cur_ok_def tq_def)

lemma alloc_pid_cases:
  assumes ok: "pid_ok s"
  shows "(\<exists>i b. alloc_pid s = Ret (int i + pid_start s) (s\<lparr>pid_bitmap := b\<rparr>) \<and> i < nbits (pid_bitmap s) \<and>
      i \<notin> used (pid_bitmap s) \<and> used b = insert i (used (pid_bitmap s)) \<and> bitmap_wf b \<and>
      nbits b = nbits (pid_bitmap s)) \<or>
    (alloc_pid s = Ret (pid_start s - 1) s \<and> used (pid_bitmap s) = {..<nbits (pid_bitmap s)})"
proof -
  have wf: "bitmap_wf (pid_bitmap s)" and free: "sema_free PidLock s" using ok by (auto simp: pid_ok_def)
  show ?thesis using bm.alloc_one_cases[OF wf] alloc_pid_eq[OF free] by fastforce
qed

interpretation pid: unit_allocator pid_ok pid_units pids alloc_pid release_pid
proof (unfold_locales, goal_cases)
  case (1 s)
  have "used (pid_bitmap s) \<noteq> {..<nbits (pid_bitmap s)}" using 1(2) by (auto simp: pids_def pid_units_def)
  then show ?case
    using alloc_pid_cases[OF 1(1)] pid_upd[OF 1(1)] by (fastforce simp: pids_def pid_units_def)
next
  case (2 s x)
  then obtain i where i: "i \<in> used (pid_bitmap s)" "x = int i + pid_start s" by (auto simp: pids_def)
  have lt: "i < nbits (pid_bitmap s)" "i < 2 ^ 64" using i(1) 2(1) by (auto simp: pid_ok_def in_used)
  have idx: "unat (word_of_int (x - pid_start s) :: u64) = i"
    using i(2) lt(2) by (simp add: unat_of_nat take_bit_eq_mod)
  obtain b where b: "bitmap_set (pid_bitmap s) i 0 = Inr b" "used b = used (pid_bitmap s) - {i}"
      "bitmap_wf b" "nbits b = nbits (pid_bitmap s)"
    using bm.release_taken[OF _ lt(1)] 2(1) by (auto simp: pid_ok_def)
  have "release_pid x s = Ret () (s\<lparr>pid_bitmap := b\<rparr>)"
    using release_pid_eq[OF _ b(1) idx] 2(1) by (simp add: pid_ok_def)
  moreover have "(\<lambda>i. int i + pid_start s) ` (used (pid_bitmap s) - {i}) = pids s - {x}"
    using i(2) by (auto simp: pids_def)
  ultimately show ?case using pid_upd[OF 2(1) b(2-4)] by auto
next
  case (3 s)
  then show ?case using used_bound[of "pid_bitmap s"] by (auto simp: pids_def pid_units_def)
qed

section \<open>Initialisation\<close>

lemma bitmap_init_used:
  assumes "bytes_len b = length (bits b)"
  shows "\<exists>b'. bitmap_init b = Inr b' \<and> used b' = {} \<and> bitmap_wf b' \<and> bytes_len b' = bytes_len b"
  using assms by (auto simp: bitmap_init_def bitmap_wf_def used_def bit_at_def)

lemma reserve_loop:
  assumes "j + n \<le> nbits (btmp_of mp s)"
  shows "\<exists>b. for_range j n (\<lambda>i. pool_bitmap_set mp i 1) s = Ret () (set_btmp mp b s) \<and>
    used b = used (btmp_of mp s) \<union> {j..<j + n} \<and> bytes_len b = bytes_len (btmp_of mp s) \<and>
    length (bits b) = length (bits (btmp_of mp s))"
  using assms
proof (induction n arbitrary: j s)
  case 0
  then show ?case by (intro exI[of _ "btmp_of mp s"]) (simp add: ret_def)
next
  case (Suc n)
  obtain b1 where b1: "bitmap_set (btmp_of mp s) j 1 = Inr b1" "used b1 = insert j (used (btmp_of mp s))"
      "bytes_len b1 = bytes_len (btmp_of mp s)" "length (bits b1) = length (bits (btmp_of mp s))"
    using bitmap_set_ok[of j "btmp_of mp s" 1] Suc.prems by auto
  obtain b where b: "for_range (Suc j) n (\<lambda>i. pool_bitmap_set mp i 1) (set_btmp mp b1 s) =
        Ret () (set_btmp mp b (set_btmp mp b1 s))"
      "used b = used b1 \<union> {Suc j..<Suc j + n}" "bytes_len b = bytes_len b1"
      "length (bits b) = length (bits b1)"
    using Suc.IH[of "Suc j" "set_btmp mp b1 s"] Suc.prems b1(4) by auto
  have "pool_bitmap_set mp j 1 s = Ret () (set_btmp mp b1 s)" using b1(1) by (simp add: pool_bitmap_set_def)
  moreover have "{j..<j + Suc n} = insert j {Suc j..<Suc j + n}" by auto
  then have "used b = used (btmp_of mp s) \<union> {j..<j + Suc n}" using b(2) b1(2) by auto
  ultimately show ?case using b b1 by (intro exI[of _ b]) simp
qed

lemma sema_init_free:
  assumes "cur_ok s"
  shows "\<exists>h. sema_init p 1 s = Ret () (s\<lparr>links := h, sema_value := (sema_value s)(p := 1)\<rparr>) \<and>
    sema_free p (s\<lparr>links := h, sema_value := (sema_value s)(p := 1)\<rparr>)"
proof -
  let ?h = "list_init (links s) (lst_of (Waiters p))"
  have "dlist ?h (lst_of (Waiters p)) []" using list_init_dlist[of "lst_of (Waiters p)"] by simp
  then show ?thesis
    using assms by (intro exI[of _ ?h]) (simp add: sema_init_eq sema_free_def lock_free_def cur_ok_def tq_def)
qed

lemma mem_pool_init_ok:
  assumes "cur_ok s" "n = length bs" "8 * n \<le> 2 ^ 52" "res \<le> 8 * n"
  shows "\<exists>s'. mem_pool_init mp start n bs res s = Ret () s' \<and> pool_ok mp s' \<and>
    pages mp s' = page_addr start ` {..<res} \<and> page_units mp s' = page_addr start ` {..<8 * n}"
proof -
  let ?m = "\<lparr>mp_start = start, pool_bitmap = \<lparr>bytes_len = n, bits = bs\<rparr>\<rparr>"
  let ?s1 = "set_pool mp ?m s"
  have p1: "pool_of mp ?s1 = ?m" by (cases mp) simp_all
  obtain b where b: "bitmap_init (btmp_of mp ?s1) = Inr b" "used b = {}" "bitmap_wf b" "bytes_len b = n"
    using bitmap_init_used[of "btmp_of mp ?s1"] assms(2) p1 by auto
  let ?s2 = "set_btmp mp b ?s1"
  have "cur_ok ?s2" using assms(1) by (cases mp) (simp_all add: cur_ok_def)
  then obtain h where h: "sema_init (pool_lock mp) 1 ?s2 =
        Ret () (?s2\<lparr>links := h, sema_value := (sema_value ?s2)(pool_lock mp := 1)\<rparr>)"
      "sema_free (pool_lock mp) (?s2\<lparr>links := h, sema_value := (sema_value ?s2)(pool_lock mp := 1)\<rparr>)"
    using sema_init_free[of ?s2 "pool_lock mp"] by blast
  define s3 where "s3 = ?s2\<lparr>links := h, sema_value := (sema_value ?s2)(pool_lock mp := 1)\<rparr>"
  have p3: "pool_of mp s3 = ?m\<lparr>pool_bitmap := b\<rparr>"
    unfolding s3_def using p1 by (cases mp) (simp_all add: set_btmp_def)
  have "sema_free (pool_lock mp) s3" using h(2) by (simp only: s3_def)
  then have ok3: "pool_ok mp s3" using b(3,4) assms(3) p3 by (simp add: pool_ok_def bitmap_wf_def)
  have nb: "nbits b = 8 * n" using b(3,4) by (simp add: bitmap_wf_def)
  then obtain c where c: "for_range 0 res (\<lambda>i. pool_bitmap_set mp i 1) s3 = Ret () (set_btmp mp c s3)"
      "used c = {..<res}" "bytes_len c = bytes_len (btmp_of mp s3)"
      "length (bits c) = length (bits (btmp_of mp s3))"
    using reserve_loop[of 0 res mp s3] assms(4) p3 b(2) by (auto simp: lessThan_atLeast0)
  have "mem_pool_init mp start n bs res s = Ret () (set_btmp mp c s3)"
    using b(1) h(1) c(1) by (simp add: mem_pool_init_def pool_bitmap_init_def bnd_def[of "pool_bitmap_init mp"] s3_def)
  then show ?thesis
    using pages_upd[OF ok3 c(2-4)] p3 nb by (auto simp: page_units_def)
qed

section \<open>Properties\<close>

lemma demo_pool_ok: "pool_ok KernelPool demo_state"
  by (simp add: pool_ok_def) (simp add: demo_state_def bitmap_wf_def)

lemma demo_pool_used: "used (btmp_of KernelPool demo_state) = {0, 1}"
  by (simp add: used_list demo_state_def bit_at_def upt_rec)

lemma demo_pool_len: "nbits (btmp_of KernelPool demo_state) = 8"
  by (simp add: demo_state_def)

text \<open>A pool of \<open>n\<close> bitmap bytes starts with exactly its first \<open>res\<close> pages in use, its lock free, and
  the pages from \<open>start\<close> to \<open>start + 8 n\<close> pages to give out.\<close>

theorem mem_pool_init_pages:
  assumes "cur_ok s" "n = length bs" "8 * n \<le> 2 ^ 52" "res \<le> 8 * n"
  shows "\<exists>s'. mem_pool_init mp start n bs res s = Ret () s' \<and> pool_ok mp s' \<and>
    pages mp s' = page_addr start ` {..<res} \<and> page_units mp s' = page_addr start ` {..<8 * n}"
  by (rule mem_pool_init_ok[OF assms])

theorem mem_pool_init_pages_witness:
  "\<exists>s'. mem_pool_init KernelPool 0xffff800000104000 31 (replicate 31 0) 0 demo_state = Ret () s' \<and>
     pool_ok KernelPool s' \<and> pages KernelPool s' = {}"
  using mem_pool_init_pages[of demo_state 31 "replicate 31 0" 0 KernelPool "0xffff800000104000"]
    demo_state_free[of PidLock]
  by (auto simp: sema_free_def)

text \<open>C11. Pages never overlap. Taking \<open>n\<close> pages one after another from a pool that has them gives \<open>n\<close>
  different page addresses, none of which was in use; giving them back, in any order, succeeds and
  leaves exactly the pages in use that were in use before.\<close>

theorem pages_take_give:
  assumes "pool_ok mp s" "card (pages mp s) + n \<le> card (page_units mp s)"
  shows "\<exists>xs s'. take_n (pool_alloc mp 1) n s = Ret xs s' \<and> length xs = n \<and> distinct xs \<and>
    set xs \<inter> pages mp s = {} \<and>
    (\<forall>ys. set ys = set xs \<and> distinct ys \<longrightarrow>
      (\<exists>s''. give_all (\<lambda>a. pool_free mp a 1) ys s' = Ret () s'' \<and> pages mp s'' = pages mp s \<and> pool_ok mp s''))"
  by (rule pp.take_give[OF assms])

lemma card_page_units: "pool_ok mp s \<Longrightarrow> card (page_units mp s) = nbits (btmp_of mp s)"
  unfolding page_units_def
  by (subst card_image) (auto simp: inj_on_def pool_ok_def intro!: page_addr_inj[THEN iffD1])

theorem pages_take_give_witness:
  "\<exists>xs s'. take_n (pool_alloc KernelPool 1) 6 demo_state = Ret xs s' \<and> length xs = 6 \<and> distinct xs \<and>
    set xs \<inter> pages KernelPool demo_state = {}"
proof -
  have "card (pages KernelPool demo_state) \<le> 2"
    unfolding pages_def demo_pool_used by (simp add: card_insert_if)
  then have "card (pages KernelPool demo_state) + 6 \<le> card (page_units KernelPool demo_state)"
    using card_page_units[OF demo_pool_ok] demo_pool_len by simp
  then show ?thesis using pages_take_give[OF demo_pool_ok] by blast
qed

text \<open>A request for \<open>n\<close> pages is served whenever \<open>n\<close> neighbouring pages are free: the result is the
  first page of such a run, every page of which was free and is then in use, and nothing else of the
  state changes.\<close>

theorem pool_alloc_run:
  assumes "pool_ok mp s" "0 < n" "free_run (btmp_of mp s) n i0"
  shows "\<exists>i b. pool_alloc mp n s = Ret (page_addr (mp_start (pool_of mp s)) i) (set_btmp mp b s) \<and>
    i \<le> i0 \<and> free_run (btmp_of mp s) n i \<and> used b = used (btmp_of mp s) \<union> {i..<i + n} \<and>
    pool_ok mp (set_btmp mp b s)"
proof -
  let ?b = "btmp_of mp s"
  have wf: "bitmap_wf ?b" and free: "sema_free (pool_lock mp) s" using assms(1) by (auto simp: pool_ok_def)
  obtain i b where i: "bitmap_alloc ?b n = Inr (int i, b)" "free_run ?b n i" "\<forall>i' < i. \<not> free_run ?b n i'"
      "used b = used ?b \<union> {i..<i + n}" "bytes_len b = bytes_len ?b" "length (bits b) = length (bits ?b)"
    using bitmap_alloc_result[OF wf assms(2)] assms(3) by (auto simp: alloc_result_def split: if_splits)
  have "i \<le> i0" using i(3) assms(3) by (meson not_less)
  then show ?thesis
    using i pool_alloc_eq[OF free i(1)] pages_upd(1)[OF assms(1) i(4-6)]
    by (intro exI[of _ i] exI[of _ b]) (simp add: page_addr_def)
qed

theorem pool_alloc_run_witness:
  "\<exists>i b. pool_alloc KernelPool 5 demo_state =
      Ret (page_addr (mp_start (pool_of KernelPool demo_state)) i) (set_btmp KernelPool b demo_state) \<and> i \<le> 2"
proof -
  have "free_run (btmp_of KernelPool demo_state) 5 2"
    unfolding free_run_def demo_pool_used demo_pool_len by auto
  then show ?thesis using pool_alloc_run[OF demo_pool_ok] by (meson zero_less_numeral)
qed

text \<open>Freeing a page that is not in use, for instance a second time, stops the kernel: in \<^verbatim>\<open>ASSERT\<close> for
  a page of the pool, with an access outside the bitmap for any other address.\<close>

theorem pool_free_misuse:
  assumes "pool_ok mp s" "0 < n"
    and "unat ((addr - mp_start (pool_of mp s)) div PG_SIZE) = a" "a \<notin> used (btmp_of mp s)"
  shows "pool_free mp addr n s = Fail (if a < nbits (btmp_of mp s) then AssertFail else OutOfBounds)"
  using pool_free_fails[OF _ assms(2-4)] assms(1) by (simp add: pool_ok_def)

theorem pool_free_misuse_witness: "free_pages 0xffff800000106000 1 demo_state = Fail AssertFail"
proof -
  have "unat ((0xffff800000106000 - mp_start (pool_of KernelPool demo_state)) div PG_SIZE) = 2"
    by (simp add: demo_state_def PG_SIZE_def)
  then show ?thesis
    using pool_free_misuse[OF demo_pool_ok, of 1 "0xffff800000106000" 2] demo_pool_used demo_pool_len
    by (simp add: free_pages_def)
qed

text \<open>Pids. While one is free, \<^verbatim>\<open>alloc_pid\<close> returns a pid no task has, \<^verbatim>\<open>release_pid\<close> of it brings back
  the set of pids in use; when all are taken \<^verbatim>\<open>alloc_pid\<close> returns \<^verbatim>\<open>pid_start - 1\<close>, which is \<open>-1\<close>.\<close>

theorem pid_pool_behaviour:
  assumes "pid_ok s"
  shows "if pids s \<noteq> pid_units s
    then \<exists>p s' s''. alloc_pid s = Ret p s' \<and> p \<in> pid_units s - pids s \<and> pids s' = insert p (pids s) \<and>
           pid_ok s' \<and> release_pid p s' = Ret () s'' \<and> pids s'' = pids s \<and> pid_ok s''
    else alloc_pid s = Ret (pid_start s - 1) s"
proof (cases "pids s = pid_units s")
  case False
  then obtain p s' where p: "alloc_pid s = Ret p s'" "p \<in> pid_units s - pids s" "pids s' = insert p (pids s)"
      "pid_ok s'"
    using pid.alloc_law[OF assms] by blast
  moreover have "pids s' - {p} = pids s" using p(2,3) by auto
  ultimately show ?thesis using False pid.release_law[OF p(4), of p] by auto
next
  case True
  then have "i \<in> used (pid_bitmap s)" if "i < nbits (pid_bitmap s)" for i
    using that by (force simp: pids_def pid_units_def)
  then show ?thesis using True alloc_pid_cases[OF assms] by auto
qed

theorem pid_pool_behaviour_witness:
  "\<exists>p s'. alloc_pid demo_state = Ret p s' \<and> p \<notin> pids demo_state"
proof -
  have ok: "pid_ok demo_state" by (simp add: pid_ok_def) (simp add: demo_state_def bitmap_wf_def)
  have "used (pid_bitmap demo_state) = {0, 1}"
    by (simp add: used_list demo_state_def bit_at_def upt_rec)
  then have "int 7 + pid_start demo_state \<in> pid_units demo_state - pids demo_state"
    unfolding pid_units_def pids_def by (auto simp: demo_state_def)
  then have "pids demo_state \<noteq> pid_units demo_state" by blast
  then show ?thesis using pid_pool_behaviour[OF ok] by auto
qed

end
