(* ===== verification/Arena.thy ===== *)
theory Arena
  imports Pools
begin

text \<open>
  The small-object allocator of \<^verbatim>\<open>kernel/memory.c\<close>: seven size classes, each with a list of free blocks
  carved out of pages (\<^verbatim>\<open>block_desc_init\<close>, \<^verbatim>\<open>arena2block\<close>, \<^verbatim>\<open>block2arena\<close>, \<^verbatim>\<open>arena_init\<close>, \<^verbatim>\<open>kalloc\<close>, \<^verbatim>\<open>kfree\<close>).

  \<open>heap_rep s L\<close> says that the free lists, the arena headers and the page pool together describe an
  allocator whose blocks in use are \<open>L\<close>. The contract \<open>object_allocator\<close> is the weaker one that both the
  pools and this allocator satisfy.
\<close>

unbundle bit_operations_syntax

section \<open>The code\<close>

definition DESC_CNT :: nat where "DESC_CNT = 7"

text \<open>\<^verbatim>\<open>sizeof(struct arena)\<close>: a pointer and a \<^verbatim>\<open>size_t\<close>.\<close>

definition sizeof_arena :: u64 where "sizeof_arena = 16"

fun block_desc_init_from :: "nat \<Rightarrow> nat \<Rightarrow> u64 \<Rightarrow> ('z kstate_scheme, unit) kcall" where
  "block_desc_init_from idx 0 block_size = ret ()"
| "block_desc_init_from idx (Suc n) block_size =
     bnd (kput (\<lambda>s. s\<lparr>block_sizes := (block_sizes s)(idx := block_size)\<rparr>)) (\<lambda>_.
     bnd (k_list_init (FreeList idx)) (\<lambda>_.
     bnd (sema_init (DescLock idx) 1) (\<lambda>_.
     block_desc_init_from (Suc idx) n (block_size * 2))))"

definition block_desc_init :: "('z kstate_scheme, unit) kcall" where
  "block_desc_init = block_desc_init_from 0 DESC_CNT 16"

definition get_arena :: "u64 \<Rightarrow> ('z kstate_scheme, arena) kcall" where
  "get_arena a = kget (\<lambda>s. arenas s a)"

definition put_arena :: "u64 \<Rightarrow> (arena \<Rightarrow> arena) \<Rightarrow> ('z kstate_scheme, unit) kcall" where
  "put_arena a f = kput (\<lambda>s. s\<lparr>arenas := (arenas s)(a := f (arenas s a))\<rparr>)"

definition block_size_of :: "u64 \<Rightarrow> ('z kstate_scheme, u64) kcall" where
  "block_size_of a = kget (\<lambda>s. block_sizes s (a_desc (arenas s a)))"

definition arena2block :: "u64 \<Rightarrow> u64 \<Rightarrow> ('z kstate_scheme, u64) kcall" where
  "arena2block a idx = bnd (block_size_of a) (\<lambda>block_size. ret (a + sizeof_arena + block_size * idx))"

definition block2arena :: "u64 \<Rightarrow> u64" where
  "block2arena b = b AND 0xfffffffffffff000"

text \<open>The body of the loop of \<^verbatim>\<open>arena_init\<close>.\<close>

definition push_block :: "u64 \<Rightarrow> nat \<Rightarrow> ('z kstate_scheme, unit) kcall" where
  "push_block a idx =
     bnd (arena2block a (of_nat idx)) (\<lambda>b.
     bnd (get_arena a) (\<lambda>x.
     k_list_push (FreeList (a_desc x)) (FreeElem b)))"

definition arena_init :: "nat \<Rightarrow> ('z kstate_scheme, u64) kcall" where
  "arena_init desc_idx =
     bnd (alloc_pages 1) (\<lambda>a.
     bnd (put_arena a (\<lambda>x. x\<lparr>a_desc := desc_idx\<rparr>)) (\<lambda>_.
     bnd (block_size_of a) (\<lambda>block_size.
     bnd (put_arena a (\<lambda>x. x\<lparr>free_block_cnt := (PG_SIZE - sizeof_arena) div block_size\<rparr>)) (\<lambda>_.
     bnd (get_arena a) (\<lambda>x.
     bnd (for_range 0 (unat (free_block_cnt x)) (push_block a)) (\<lambda>_.
     ret a))))))"

text \<open>The loop that looks for the size class; class \<^verbatim>\<open>DESC_CNT\<close> is outside \<^verbatim>\<open>k_block_descs\<close>.\<close>

function find_desc :: "u64 \<Rightarrow> (nat \<Rightarrow> u64) \<Rightarrow> nat \<Rightarrow> nat res" where
  "find_desc sz sizes desc_idx =
     (if desc_idx < DESC_CNT
      then if sz \<le> sizes desc_idx then Inr desc_idx else find_desc sz sizes (Suc desc_idx)
      else Inl OutOfBounds)"
  by pat_completeness auto
termination by (relation "measure (\<lambda>(sz, sizes, i). DESC_CNT - i)") auto

declare find_desc.simps [simp del]

text \<open>What \<^verbatim>\<open>kalloc\<close> does while it holds the lock of the size class.\<close>

definition take_block :: "nat \<Rightarrow> ('z kstate_scheme, u64) kcall" where
  "take_block desc_idx =
     bnd (k_list_empty (FreeList desc_idx)) (\<lambda>empty.
     bnd (if empty then bnd (arena_init desc_idx) (\<lambda>_. ret ()) else ret ()) (\<lambda>_.
     bnd (k_list_pop (FreeList desc_idx)) (\<lambda>e.
     bnd (of_res (entry_free_elem e)) (\<lambda>b.
     bnd (put_arena (block2arena b) (\<lambda>x. x\<lparr>free_block_cnt := free_block_cnt x - 1\<rparr>)) (\<lambda>_.
     ret b)))))"

definition kalloc :: "u64 \<Rightarrow> ('z kstate_scheme, u64) kcall" where
  "kalloc sz =
     bnd (ASSERT (sz \<le> 1024)) (\<lambda>_.
     bnd (kget block_sizes) (\<lambda>sizes.
     bnd (of_res (find_desc sz sizes 0)) (\<lambda>desc_idx.
     bnd (sema_down (DescLock desc_idx)) (\<lambda>_.
     bnd (take_block desc_idx) (\<lambda>b.
     bnd (sema_up (DescLock desc_idx)) (\<lambda>_.
     ret b))))))"

text \<open>The loop of \<^verbatim>\<open>kfree\<close> that takes the blocks of a fully free arena out of the list.\<close>

definition drop_block :: "u64 \<Rightarrow> nat \<Rightarrow> ('z kstate_scheme, unit) kcall" where
  "drop_block a idx =
     bnd (arena2block a (of_nat idx)) (\<lambda>b.
     bnd (get_arena a) (\<lambda>x.
     bnd (k_elem_find (FreeList (a_desc x)) (FreeElem b)) (\<lambda>found.
     bnd (ASSERT found) (\<lambda>_.
     k_list_remove (FreeElem b)))))"

text \<open>What \<^verbatim>\<open>kfree\<close> does while it holds the lock.\<close>

definition give_block :: "u64 \<Rightarrow> u64 \<Rightarrow> nat \<Rightarrow> ('z kstate_scheme, unit) kcall" where
  "give_block a addr desc_idx =
     bnd (k_elem_find (FreeList desc_idx) (FreeElem addr)) (\<lambda>found.
     bnd (ASSERT (\<not> found)) (\<lambda>_.
     bnd (k_list_append (FreeList desc_idx) (FreeElem addr)) (\<lambda>_.
     bnd (block_size_of a) (\<lambda>block_size.
     let blocks_per_arena = (PG_SIZE - sizeof_arena) div block_size in
     bnd (put_arena a (\<lambda>x. x\<lparr>free_block_cnt := free_block_cnt x + 1\<rparr>)) (\<lambda>_.
     bnd (get_arena a) (\<lambda>x.
     if free_block_cnt x = blocks_per_arena
     then bnd (for_range 0 (unat blocks_per_arena) (drop_block a)) (\<lambda>_. free_pages a 1)
     else ret ()))))))"

definition kfree :: "u64 \<Rightarrow> ('z kstate_scheme, unit) kcall" where
  "kfree addr =
     (let a = block2arena addr in
     bnd (get_arena a) (\<lambda>x.
     bnd (sema_down (DescLock (a_desc x))) (\<lambda>_.
     bnd (give_block a addr (a_desc x)) (\<lambda>_.
     bnd (get_arena a) (\<lambda>x.
     sema_up (DescLock (a_desc x)))))))"

lemmas arena_code_defs [kdefs] =
  block_desc_init_def arena2block_def arena_init_def take_block_def kalloc_def drop_block_def give_block_def kfree_def

lemmas arena_state_defs [run_simps] = get_arena_def put_arena_def block_size_of_def

section \<open>Addresses of blocks\<close>

text \<open>Blocks per arena, the address of a block and the blocks of an arena, for size class \<open>i\<close>.\<close>

definition bsize :: "nat \<Rightarrow> nat" where "bsize i = 16 * 2 ^ i"

definition bpa :: "nat \<Rightarrow> nat" where "bpa i = 4080 div bsize i"

definition block_addr :: "nat \<Rightarrow> u64 \<Rightarrow> nat \<Rightarrow> u64" where
  "block_addr i a k = a + of_nat (16 + bsize i * k)"

definition blocks_in :: "nat \<Rightarrow> u64 \<Rightarrow> u64 set" where
  "blocks_in i a = block_addr i a ` {..<bpa i}"

lemma block_fits: "k < bpa i \<Longrightarrow> 16 + bsize i * k + bsize i \<le> 4096"
proof -
  assume "k < bpa i"
  then have "Suc k * bsize i \<le> 4080"
    by (metis Suc_leI bpa_def div_times_less_eq_dividend le_trans mult_le_mono1)
  then show ?thesis by (simp add: algebra_simps)
qed

lemma bsize_pos [simp]: "0 < bsize i"
  by (simp add: bsize_def)

lemma block_offset: "k < bpa i \<Longrightarrow> 16 + bsize i * k < 4096"
  using block_fits[of k i] bsize_pos[of i] by linarith

lemma aligned_bit: "aligned a \<Longrightarrow> n < 12 \<Longrightarrow> \<not> bit a n"
proof -
  assume a: "aligned a" "n < 12"
  have "bit (a AND 0xfff) n = bit a n"
    using a(2) by (simp add: bit_and_iff bit_numeral_rec numeral_eq_Suc less_Suc_eq) auto
  then show ?thesis using a(1) by (simp add: aligned_def)
qed

lemma aligned_add_mask:
  assumes "aligned a" "n < 4096"
  shows "(a + of_nat n) AND 0xfffffffffffff000 = a"
proof -
  have n: "\<not> bit (of_nat n :: u64) i" if "12 \<le> i" for i
  proof -
    have "take_bit 12 (of_nat n :: u64) = of_nat n"
      using assms(2) by (simp add: take_bit_of_nat) (simp add: take_bit_eq_mod)
    then show ?thesis using that by (metis bit_take_bit_iff not_less)
  qed
  have "a AND of_nat n = 0"
    using aligned_bit[OF assms(1)] n by (intro bit_eqI) (metis bit_0_eq bit_and_iff bot_apply bot_bool_def not_less)
  then have "a + of_nat n = a OR of_nat n" by (rule disjunctive_add_eq_or)
  moreover have mask: "(0xfffffffffffff000 :: u64) = NOT (mask 12)" by (simp add: mask_eq_exp_minus_1)
  have "bit (0xfffffffffffff000 :: u64) i \<longleftrightarrow> 12 \<le> i" if "i < 64" for i
    unfolding mask using that by (auto simp: bit_simps not_less)
  moreover have "12 \<le> i" if "bit a i" for i using that aligned_bit[OF assms(1), of i] by (simp add: not_less[symmetric]) blast
  ultimately show ?thesis
    using n by (intro bit_eqI) (auto simp: bit_and_iff bit_or_iff)
qed

lemma unat_block_offset:
  "k < bpa i \<Longrightarrow> unat (of_nat (16 + bsize i * k) :: u64) = 16 + bsize i * k"
  using block_offset[of k i] unfolding unat_of_nat by simp

lemma block2arena_block: "aligned a \<Longrightarrow> k < bpa i \<Longrightarrow> block2arena (block_addr i a k) = a"
  unfolding block2arena_def block_addr_def by (rule aligned_add_mask[OF _ block_offset])

lemma block_addr_inj:
  assumes "aligned a" "aligned a'" "k < bpa i" "k' < bpa i" "block_addr i a k = block_addr i a' k'"
  shows "a = a' \<and> k = k'"
proof -
  have a: "a = a'" using block2arena_block assms by metis
  then have "unat (of_nat (16 + bsize i * k) :: u64) = unat (of_nat (16 + bsize i * k') :: u64)"
    using assms(5) unfolding block_addr_def by simp
  then have "bsize i * k = bsize i * k'" using unat_block_offset assms(3,4) by simp
  then show ?thesis using a bsize_pos[of i] by simp
qed

lemma blocks_in_arena: "aligned a \<Longrightarrow> b \<in> blocks_in i a \<Longrightarrow> block2arena b = a"
  by (auto simp: blocks_in_def block2arena_block)

lemma blocks_disjoint:
  "aligned a \<Longrightarrow> aligned a' \<Longrightarrow> a \<noteq> a' \<Longrightarrow> blocks_in i a \<inter> blocks_in j a' = {}"
  using blocks_in_arena by (metis disjoint_iff)

lemma card_blocks_in: "aligned a \<Longrightarrow> card (blocks_in i a) = bpa i"
  unfolding blocks_in_def by (subst card_image) (auto simp: inj_on_def dest: block_addr_inj)

lemma bpa_pos: "i < 7 \<Longrightarrow> 0 < bpa i"
  by (simp add: bpa_def bsize_def less_Suc_eq numeral_eq_Suc) auto

section \<open>The representation\<close>

text \<open>\<open>class_pre s i bs A\<close>: size class \<open>i\<close> has the free blocks \<open>bs\<close>, cut from the arenas \<open>A\<close>, and each arena's
  counter counts its free blocks.\<close>

definition class_pre :: "'z kstate_scheme \<Rightarrow> nat \<Rightarrow> u64 list \<Rightarrow> u64 set \<Rightarrow> bool" where
  "class_pre s i bs A \<longleftrightarrow>
     block_sizes s i = of_nat (bsize i) \<and> nq FreeElem s (FreeList i) bs \<and>
     A \<subseteq> pages KernelPool s \<and> (\<forall>a \<in> A. aligned a) \<and> set bs \<subseteq> (\<Union>a \<in> A. blocks_in i a) \<and>
     (\<forall>a \<in> A. a_desc (arenas s a) = i \<and>
        free_block_cnt (arenas s a) = of_nat (card (set bs \<inter> blocks_in i a)))"

text \<open>No arena is entirely free: \<^verbatim>\<open>kfree\<close> gives such an arena back to the page pool.\<close>

definition class_ok :: "'z kstate_scheme \<Rightarrow> nat \<Rightarrow> u64 list \<Rightarrow> u64 set \<Rightarrow> bool" where
  "class_ok s i bs A \<longleftrightarrow> class_pre s i bs A \<and> (\<forall>a \<in> A. \<not> blocks_in i a \<subseteq> set bs)"

definition heap_ok :: "'z kstate_scheme \<Rightarrow> (nat \<Rightarrow> u64 list) \<Rightarrow> (nat \<Rightarrow> u64 set) \<Rightarrow> bool" where
  "heap_ok s fl ar \<longleftrightarrow> pool_ok KernelPool s \<and> aligned (mp_start (kernel_mem_pool s)) \<and>
     (\<forall>i < 7. sema_free (DescLock i) s) \<and> (\<forall>i < 7. class_ok s i (fl i) (ar i)) \<and>
     (\<forall>i < 7. \<forall>j < 7. i \<noteq> j \<longrightarrow> ar i \<inter> ar j = {})"

definition live_blocks :: "nat \<Rightarrow> u64 list \<Rightarrow> u64 set \<Rightarrow> u64 set" where
  "live_blocks i bs A = (\<Union>a \<in> A. blocks_in i a) - set bs"

definition heap_rep :: "'z kstate_scheme \<Rightarrow> (nat \<Rightarrow> u64 set) \<Rightarrow> bool" where
  "heap_rep s L \<longleftrightarrow> (\<exists>fl ar. heap_ok s fl ar \<and> (\<forall>i. L i = (if i < 7 then live_blocks i (fl i) (ar i) else {})))"

text \<open>What the allocator changes of the state, and the list elements it may change.\<close>

definition heap_upd :: "elem heap \<Rightarrow> mem_pool \<Rightarrow> (u64 \<Rightarrow> arena) \<Rightarrow> 'z kstate_scheme \<Rightarrow> 'z kstate_scheme" where
  "heap_upd h m r s = s\<lparr>links := h, kernel_mem_pool := m, arenas := r\<rparr>"

definition heap_elems :: "elem set" where
  "heap_elems = {e. (\<exists>i. e = HeadOf (FreeList i) \<or> e = TailOf (FreeList i)) \<or> (\<exists>b. e = FreeElem b)}"

lemma heap_upd_simps [simp]:
  "links (heap_upd h m r s) = h" "kernel_mem_pool (heap_upd h m r s) = m" "arenas (heap_upd h m r s) = r"
  "block_sizes (heap_upd h m r s) = block_sizes s" "sema_value (heap_upd h m r s) = sema_value s"
  "ist2 (heap_upd h m r s) = ist2 s" "tasks (heap_upd h m r s) = tasks s"
  "idle_task (heap_upd h m r s) = idle_task s" "phy_mem_pool (heap_upd h m r s) = phy_mem_pool s"
  "heap_upd h m r (heap_upd h' m' r' s) = heap_upd h m r s"
  "heap_upd (links s) (kernel_mem_pool s) (arenas s) s = s"
  "locked p (heap_upd h m r s) = heap_upd h m r (locked p s)"
  "kernel_mem_pool (locked p s) = kernel_mem_pool s" "arenas (locked p s) = arenas s"
  "block_sizes (locked p s) = block_sizes s"
  by (simp_all add: heap_upd_def locked_def)

lemma nels_heap: "nels FreeElem (FreeList i) B \<subseteq> heap_elems"
  by (auto simp: nels_def heap_elems_def)

lemma nels_disjoint: "i \<noteq> j \<Longrightarrow> B \<inter> C = {} \<Longrightarrow> nels FreeElem (FreeList i) B \<inter> nels FreeElem (FreeList j) C = {}"
  by (auto simp: nels_def)

lemma waiters_frame:
  assumes "tq s (Waiters p) us" "agree_off heap_elems (links s) h"
  shows "tq (heap_upd h m r s) (Waiters p) us"
  using tq_frame[OF assms(1), of heap_elems "heap_upd h m r s"] assms(2)
  by (auto simp: heap_elems_def tags_def)

text \<open>A critical section of the allocator.\<close>

lemma heap_section:
  assumes "sema_free p s" "agree_off heap_elems (links s) h"
  shows "sema_up p (heap_upd h m r (locked p s)) = Ret () (heap_upd h m r s)"
    "sema_free p (heap_upd h m r s)"
proof -
  have "tq (locked p s) (Waiters p) []" using assms(1) by (simp add: sema_free_def lock_free_def tq_def)
  then have w: "tq (heap_upd h m r (locked p s)) (Waiters p) []"
    using waiters_frame[of "locked p s" p] assms(2) by simp
  then have "sema_held p (heap_upd h m r (locked p s))"
    using assms(1) by (simp add: sema_free_def sema_held_def cur_ok_def)
  then have "sema_up p (heap_upd h m r (locked p s)) = Ret () (unlocked p (heap_upd h m r (locked p s)))"
    using lk.up_held by blast
  moreover have "unlocked p (heap_upd h m r (locked p s)) = heap_upd h m r (unlocked p (locked p s))"
    by (simp add: heap_upd_def unlocked_def locked_def)
  ultimately show "sema_up p (heap_upd h m r (locked p s)) = Ret () (heap_upd h m r s)"
    using assms(1) by (simp add: sema_free_def lock_free_def)
  show "sema_free p (heap_upd h m r s)"
    using assms(1) w by (simp add: sema_free_def lock_free_def cur_ok_def tq_def)
qed

lemma class_pre_cong:
  assumes "block_sizes s' i = block_sizes s i" "links s' = links s" "pages KernelPool s' = pages KernelPool s"
    "\<And>a. a \<in> A \<Longrightarrow> arenas s' a = arenas s a"
  shows "class_pre s' i bs A = class_pre s i bs A"
  using assms by (simp add: class_pre_def nq_def)

lemma class_ok_frame:
  assumes "class_ok s j bs A" and "block_sizes s' j = block_sizes s j"
    and "agree_off (nels FreeElem (FreeList i) B) (links s) (links s')" "i \<noteq> j" "B \<inter> set bs = {}"
    and "A \<subseteq> pages KernelPool s'" "\<And>a. a \<in> A \<Longrightarrow> arenas s' a = arenas s a"
  shows "class_ok s' j bs A"
proof -
  have "nq FreeElem s' (FreeList j) bs"
    using nq_frame[OF _ assms(3)] nels_disjoint[OF assms(4,5)] assms(1) by (simp add: class_ok_def class_pre_def)
  then show ?thesis using assms(1,2,6,7) by (simp add: class_ok_def class_pre_def)
qed

lemma blocks_per_arena_eq:
  "i < 7 \<Longrightarrow> (PG_SIZE - sizeof_arena) div of_nat (bsize i) = of_nat (bpa i)"
  by (simp add: PG_SIZE_def sizeof_arena_def bpa_def bsize_def less_Suc_eq numeral_eq_Suc) auto

lemma bpa_le: "bpa i \<le> 255"
proof -
  have "16 \<le> bsize i" by (simp add: bsize_def)
  then have "4080 div bsize i \<le> 4080 div 16" by (intro div_le_mono2) auto
  then show ?thesis by (simp add: bpa_def)
qed

lemma aligned_take_bit: "aligned a \<longleftrightarrow> take_bit 12 a = 0"
proof -
  have "(0xfff :: u64) = mask 12" by (simp add: mask_eq_exp_minus_1)
  then show ?thesis by (simp add: aligned_def take_bit_eq_mask)
qed

lemma aligned_unat: "aligned a \<longleftrightarrow> 4096 dvd unat a"
proof -
  have "take_bit 12 a = 0 \<longleftrightarrow> unat (take_bit 12 a) = 0" by (simp only: unsigned_eq_0_iff)
  then show ?thesis unfolding aligned_take_bit unsigned_take_bit_eq by (simp add: take_bit_eq_mod dvd_eq_mod_eq_0)
qed

lemma page_aligned: "aligned start \<Longrightarrow> aligned (page_addr start i)"
proof -
  assume a: "aligned start"
  have d: "4096 dvd (2 ^ LENGTH(64) :: nat)" by (rule dvdI[of _ _ "2 ^ 52"]) simp
  have "4096 dvd unat (of_nat i * PG_SIZE :: u64)"
    using dvd_mod[OF _ d] unfolding unat_word_ariths PG_SIZE_def by simp
  then show ?thesis
    using a dvd_mod[OF dvd_add d] unfolding aligned_unat page_addr_def unat_word_ariths by simp
qed

lemma pages_aligned: "aligned (mp_start (pool_of mp s)) \<Longrightarrow> a \<in> page_units mp s \<Longrightarrow> aligned a"
  by (auto simp: page_units_def page_aligned)

section \<open>Taking a block\<close>

lemma word_dec: "0 < n \<Longrightarrow> of_nat n - 1 = (of_nat (n - 1) :: u64)"
  by (simp add: of_nat_diff)

lemma class_pop:
  assumes pre: "class_pre s i (b # bs) A" and "\<forall>a \<in> A. \<not> blocks_in i a \<subseteq> set bs"
  shows "\<exists>h. list_pop (links s) (lst_of (FreeList i)) = Inr (Some (FreeElem b), h) \<and>
    agree_off (nels FreeElem (FreeList i) (set (b # bs))) (links s) h \<and>
    class_ok (heap_upd h (kernel_mem_pool s) ((arenas s)(block2arena b :=
      (arenas s (block2arena b))\<lparr>free_block_cnt := free_block_cnt (arenas s (block2arena b)) - 1\<rparr>)) s) i bs A"
proof -
  have q: "nq FreeElem s (FreeList i) (b # bs)" using pre by (simp add: class_pre_def)
  obtain h where h: "list_pop (links s) (lst_of (FreeList i)) = Inr (Some (FreeElem b), h)"
      "nq FreeElem (s\<lparr>links := h\<rparr>) (FreeList i) bs"
      "agree_off (nels FreeElem (FreeList i) (set (b # bs))) (links s) h"
    using nq_pop[OF q] by blast
  have nb: "b \<notin> set bs" using nq_distinct[OF q] by simp
  obtain a where a: "a \<in> A" "b \<in> blocks_in i a" "aligned a" using pre by (auto simp: class_pre_def)
  have ba: "block2arena b = a" using blocks_in_arena[OF a(3,2)] .
  have "card (set (b # bs) \<inter> blocks_in i a) = Suc (card (set bs \<inter> blocks_in i a))"
    using nb a(2) by simp
  then have ca: "free_block_cnt (arenas s a) - 1 = of_nat (card (set bs \<inter> blocks_in i a))"
    using pre a(1) by (simp add: class_pre_def)
  have co: "set (b # bs) \<inter> blocks_in i a' = set bs \<inter> blocks_in i a'" if "a' \<in> A" "a' \<noteq> a" for a'
  proof -
    have "aligned a'" using pre that(1) by (simp add: class_pre_def)
    then have "b \<notin> blocks_in i a'" using blocks_in_arena ba that(2) by metis
    then show ?thesis by auto
  qed
  show ?thesis
    using h(1,3) ca co pre assms(2) h(2)
    by (intro exI[of _ h] conjI) (auto simp: class_ok_def class_pre_def ba nq_def pages_def)
qed

text \<open>The loop of \<^verbatim>\<open>arena_init\<close>: the blocks go in front of the free list one after another.\<close>

lemma arena2block_eq:
  "a_desc (arenas s a) = i \<Longrightarrow> block_sizes s i = of_nat (bsize i) \<Longrightarrow>
   arena2block a (of_nat k) s = Ret (block_addr i a k) s"
  by (simp add: arena2block_def block_size_of_def block_addr_def sizeof_arena_def ret_def)

lemma push_blocks:
  assumes "a_desc (arenas s a) = i" "block_sizes s i = of_nat (bsize i)" "aligned a"
    and "nq FreeElem s (FreeList i) bs" "j + n \<le> bpa i" "set bs \<subseteq> block_addr i a ` {..<j}"
  shows "\<exists>h. for_range j n (push_block a) s = Ret () (s\<lparr>links := h\<rparr>) \<and>
    nq FreeElem (s\<lparr>links := h\<rparr>) (FreeList i) (rev (map (block_addr i a) [j..<j + n]) @ bs) \<and>
    agree_off (nels FreeElem (FreeList i) (blocks_in i a)) (links s) h"
  using assms
proof (induction n arbitrary: j s bs)
  case 0
  then show ?case by (intro exI[of _ "links s"]) (simp add: ret_def agree_off_def)
next
  case (Suc n)
  let ?b = "block_addr i a j"
  have nb: "?b \<notin> set bs"
  proof
    assume "?b \<in> set bs"
    then obtain k where "k < j" "block_addr i a j = block_addr i a k" using Suc.prems(6) by auto
    then show False using block_addr_inj[of a a j i k] Suc.prems(3,5) by simp
  qed
  obtain h1 where h1: "list_push (links s) (lst_of (FreeList i)) (FreeElem ?b) = Inr h1"
      "nq FreeElem (s\<lparr>links := h1\<rparr>) (FreeList i) (?b # bs)"
      "agree_off (nels FreeElem (FreeList i) (set (?b # bs))) (links s) h1"
    using nq_push[OF Suc.prems(4) _ nb] by auto
  have step: "push_block a j s = Ret () (s\<lparr>links := h1\<rparr>)"
    using arena2block_eq[OF Suc.prems(1,2), of j] h1(1) Suc.prems(1)
    by (simp add: push_block_def get_arena_def k_list_push_def on_field'_def)
  have "set (?b # bs) \<subseteq> block_addr i a ` {..<Suc j}" using Suc.prems(6) by auto
  then obtain h where h: "for_range (Suc j) n (push_block a) (s\<lparr>links := h1\<rparr>) = Ret () (s\<lparr>links := h\<rparr>)"
      "nq FreeElem (s\<lparr>links := h\<rparr>) (FreeList i) (rev (map (block_addr i a) [Suc j..<Suc j + n]) @ ?b # bs)"
      "agree_off (nels FreeElem (FreeList i) (blocks_in i a)) h1 h"
    using Suc.IH[of "s\<lparr>links := h1\<rparr>" "?b # bs" "Suc j"] Suc.prems h1(2) by auto
  have "set (?b # bs) \<subseteq> blocks_in i a"
    using \<open>set (?b # bs) \<subseteq> block_addr i a ` {..<Suc j}\<close> Suc.prems(5) by (force simp: blocks_in_def)
  then have "agree_off (nels FreeElem (FreeList i) (blocks_in i a)) (links s) h"
    by (intro agree_off_mono[OF agree_off_trans[OF h1(3) h(3)]]) (auto simp: nels_def)
  moreover have "[j..<j + Suc n] = j # [Suc j..<Suc j + n]" by (simp add: upt_rec)
  ultimately show ?case using step h by (intro exI[of _ h]) simp
qed

lemma alloc_pages_one:
  assumes "pool_ok KernelPool s" "pages KernelPool s \<noteq> page_units KernelPool s"
  shows "\<exists>a b. alloc_pages 1 s = Ret a (set_btmp KernelPool b s) \<and> a \<in> page_units KernelPool s \<and>
    a \<notin> pages KernelPool s \<and> pages KernelPool (set_btmp KernelPool b s) = insert a (pages KernelPool s) \<and>
    pool_ok KernelPool (set_btmp KernelPool b s) \<and>
    page_units KernelPool (set_btmp KernelPool b s) = page_units KernelPool s"
proof -
  have wf: "bitmap_wf (btmp_of KernelPool s)" and free: "sema_free KernelPoolLock s"
    using assms(1) by (auto simp: pool_ok_def)
  obtain i b where b: "bitmap_alloc (btmp_of KernelPool s) 1 = Inr (i, b)"
    using bm.alloc_one[OF wf] by auto
  then show ?thesis
    using kp.alloc_law[OF assms] pool_alloc_eq[of KernelPool s 1 i b] free
    by (auto simp: alloc_pages_def split: if_splits)
qed

lemma heap_upd_pool:
  "set_btmp KernelPool b s = heap_upd (links s) (kernel_mem_pool (set_btmp KernelPool b s)) (arenas s) s"
  by (simp add: heap_upd_def set_btmp_def)

lemma heap_upd_pages:
  "m = kernel_mem_pool t \<Longrightarrow> pages KernelPool (heap_upd h m r s) = pages KernelPool t"
  "m = kernel_mem_pool t \<Longrightarrow> page_units KernelPool (heap_upd h m r s) = page_units KernelPool t"
  by (simp_all add: pages_def page_units_def)

lemma heap_upd_pool_ok:
  assumes "pool_ok KernelPool t" "m = kernel_mem_pool t" "sema_value s = sema_value t" "ist2 s = ist2 t"
    "agree_off heap_elems (links t) h"
  shows "pool_ok KernelPool (heap_upd h m r s)"
proof -
  have "tq (heap_upd h m r s) (Waiters KernelPoolLock) []"
    using assms(1) waiters_frame[OF _ assms(5), of KernelPoolLock "[]"]
    by (simp add: pool_ok_def sema_free_def lock_free_def tq_def)
  then show ?thesis
    using assms by (simp add: pool_ok_def sema_free_def lock_free_def cur_ok_def tq_def)
qed

lemma arena_eta: "x\<lparr>a_desc := i, free_block_cnt := n\<rparr> = \<lparr>a_desc = i, free_block_cnt = n\<rparr>"
  by (cases x) simp

lemma arena_init_ok:
  assumes pool: "pool_ok KernelPool s" "pages KernelPool s \<noteq> page_units KernelPool s"
      "aligned (mp_start (kernel_mem_pool s))"
    and pre: "class_pre s i [] A" and i: "i < 7"
  shows "\<exists>a h m. let s' = heap_upd h m ((arenas s)(a := \<lparr>a_desc = i, free_block_cnt = of_nat (bpa i)\<rparr>)) s in
    arena_init i s = Ret a s' \<and> a \<notin> pages KernelPool s \<and> aligned a \<and>
    pages KernelPool s' = insert a (pages KernelPool s) \<and> pool_ok KernelPool s' \<and> mp_start m = mp_start (kernel_mem_pool s) \<and>
    class_pre s' i (rev (map (block_addr i a) [0..<bpa i])) (insert a A) \<and>
    agree_off (nels FreeElem (FreeList i) (blocks_in i a)) (links s) h"
proof -
  obtain a b where ab: "alloc_pages 1 s = Ret a (set_btmp KernelPool b s)" "a \<in> page_units KernelPool s"
      "a \<notin> pages KernelPool s" "pages KernelPool (set_btmp KernelPool b s) = insert a (pages KernelPool s)"
      "pool_ok KernelPool (set_btmp KernelPool b s)"
    using alloc_pages_one[OF pool(1,2)] by blast
  have al: "aligned a" using pages_aligned[of KernelPool s a] pool(3) ab(2) by simp
  define x where "x = \<lparr>a_desc = i, free_block_cnt = of_nat (bpa i)\<rparr>"
  let ?m = "kernel_mem_pool (set_btmp KernelPool b s)"
  define s1 where "s1 = heap_upd (links s) ?m ((arenas s)(a := x)) s"
  have bs: "block_sizes s i = of_nat (bsize i)" and q: "nq FreeElem s1 (FreeList i) []"
    using pre by (simp_all add: class_pre_def nq_def s1_def)
  have cnt: "unat (of_nat (bpa i) :: u64) = bpa i"
    using bpa_le[of i] unfolding unat_of_nat by simp
  have "s1 = set_btmp KernelPool b s\<lparr>arenas := (arenas s)(a := x)\<rparr>"
    by (simp add: s1_def heap_upd_def set_btmp_def)
  moreover have "arenas (set_btmp KernelPool b s) = arenas s" "block_sizes (set_btmp KernelPool b s) = block_sizes s"
    by (simp_all add: set_btmp_def)
  ultimately have run: "arena_init i s = bnd (for_range 0 (bpa i) (push_block a)) (\<lambda>_. ret a) s1"
    using ab(1) bs blocks_per_arena_eq[OF i] cnt
    by (simp add: arena_init_def put_arena_def block_size_of_def get_arena_def x_def arena_eta)
  obtain h where h: "for_range 0 (bpa i) (push_block a) s1 = Ret () (s1\<lparr>links := h\<rparr>)"
      "nq FreeElem (s1\<lparr>links := h\<rparr>) (FreeList i) (rev (map (block_addr i a) [0..<bpa i]))"
      "agree_off (nels FreeElem (FreeList i) (blocks_in i a)) (links s) h"
    using push_blocks[of s1 a i "[]" 0 "bpa i"] bs al q by (auto simp: s1_def x_def)
  have s': "s1\<lparr>links := h\<rparr> = heap_upd h ?m ((arenas s)(a := x)) s" by (simp add: s1_def heap_upd_def)
  have pg: "pages KernelPool (heap_upd h ?m ((arenas s)(a := x)) s) = insert a (pages KernelPool s)"
    using heap_upd_pages(1)[of ?m "set_btmp KernelPool b s"] ab(4) by simp
  have ns: "a \<notin> A" using pre ab(3) by (auto simp: class_pre_def)
  have "set (rev (map (block_addr i a) [0..<bpa i])) = blocks_in i a"
    by (auto simp: blocks_in_def atLeast0LessThan)
  moreover have "blocks_in i a \<inter> blocks_in i a' = {}" if "a' \<in> A" for a'
    using that ns pre by (intro blocks_disjoint[OF al]) (auto simp: class_pre_def)
  ultimately have "class_pre (heap_upd h ?m ((arenas s)(a := x)) s) i (rev (map (block_addr i a) [0..<bpa i])) (insert a A)"
    using pre h(2)[unfolded s'] pg al ns bs card_blocks_in[OF al, of i]
    by (auto simp: class_pre_def x_def)
  moreover have "pool_ok KernelPool (heap_upd h ?m ((arenas s)(a := x)) s)"
    using agree_off_mono[OF h(3) nels_heap] by (intro heap_upd_pool_ok[OF ab(5)]) simp_all
  ultimately show ?thesis
    using run h(1,3) ab(3) al pg s'
    by (intro exI[of _ a] exI[of _ h] exI[of _ ?m]) (simp add: Let_def x_def[symmetric] ret_def set_btmp_def)
qed

lemma class_pop_run:
  assumes "class_pre s i (b # bs) A" "\<forall>a \<in> A. \<not> blocks_in i a \<subseteq> set bs"
  shows "\<exists>h r. bnd (k_list_pop (FreeList i)) (\<lambda>e. bnd (of_res (entry_free_elem e)) (\<lambda>b.
      bnd (put_arena (block2arena b) (\<lambda>x. x\<lparr>free_block_cnt := free_block_cnt x - 1\<rparr>)) (\<lambda>_. ret b))) s =
      Ret b (heap_upd h (kernel_mem_pool s) r s) \<and> class_ok (heap_upd h (kernel_mem_pool s) r s) i bs A \<and>
    agree_off (nels FreeElem (FreeList i) (set (b # bs))) (links s) h \<and> agree_off A (arenas s) r"
proof -
  let ?r = "(arenas s)(block2arena b :=
      (arenas s (block2arena b))\<lparr>free_block_cnt := free_block_cnt (arenas s (block2arena b)) - 1\<rparr>)"
  obtain h where h: "list_pop (links s) (lst_of (FreeList i)) = Inr (Some (FreeElem b), h)"
      "agree_off (nels FreeElem (FreeList i) (set (b # bs))) (links s) h"
      "class_ok (heap_upd h (kernel_mem_pool s) ?r s) i bs A"
    using class_pop[OF assms] by blast
  obtain a where a: "a \<in> A" "aligned a" "b \<in> blocks_in i a" using assms(1) by (auto simp: class_pre_def)
  then have "agree_off A (arenas s) ?r" using blocks_in_arena[OF a(2,3)] by (auto simp: agree_off_def)
  moreover have "s\<lparr>links := h, arenas := ?r\<rparr> = heap_upd h (kernel_mem_pool s) ?r s"
    by (simp add: heap_upd_def)
  ultimately show ?thesis
    using h by (intro exI[of _ h] exI[of _ ?r]) (simp add: run_simps)
qed

text \<open>\<open>class_step\<close>: one size class goes from \<open>(bs, A)\<close> to \<open>(bs', A')\<close>, the other classes cannot tell.\<close>

definition class_step ::
  "'z kstate_scheme \<Rightarrow> 'z kstate_scheme \<Rightarrow> nat \<Rightarrow> u64 set \<Rightarrow> u64 set \<Rightarrow> bool" where
  "class_step s s' i A A' \<longleftrightarrow> (\<exists>h m r. s' = heap_upd h m r s \<and> mp_start m = mp_start (kernel_mem_pool s) \<and>
     agree_off (nels FreeElem (FreeList i) (\<Union>a \<in> A \<union> A'. blocks_in i a)) (links s) h \<and>
     agree_off (A \<union> A') (arenas s) r \<and> pool_ok KernelPool s' \<and>
     pages KernelPool s - A \<subseteq> pages KernelPool s' \<and> (A' - A) \<inter> pages KernelPool s = {} \<and>
     (\<forall>a \<in> A \<union> A'. aligned a))"

lemma take_block_pop:
  assumes pool: "pool_ok KernelPool s" and ok: "class_ok s i (b # cs) A"
  shows "\<exists>b' s' bs' A'. take_block i s = Ret b' s' \<and> class_ok s' i bs' A' \<and> class_step s s' i A A' \<and>
    b' \<notin> live_blocks i (b # cs) A \<and> live_blocks i bs' A' = insert b' (live_blocks i (b # cs) A)"
proof -
  have pre: "class_pre s i (b # cs) A" and strict: "\<forall>a \<in> A. \<not> blocks_in i a \<subseteq> set cs"
    using ok by (auto simp: class_ok_def)
  obtain h r where r: "bnd (k_list_pop (FreeList i)) (\<lambda>e. bnd (of_res (entry_free_elem e)) (\<lambda>b.
      bnd (put_arena (block2arena b) (\<lambda>x. x\<lparr>free_block_cnt := free_block_cnt x - 1\<rparr>)) (\<lambda>_. ret b))) s =
      Ret b (heap_upd h (kernel_mem_pool s) r s)" "class_ok (heap_upd h (kernel_mem_pool s) r s) i cs A"
      "agree_off (nels FreeElem (FreeList i) (set (b # cs))) (links s) h" "agree_off A (arenas s) r"
    using class_pop_run[OF pre strict] by blast
  have q: "nq FreeElem s (FreeList i) (b # cs)" and sub: "set (b # cs) \<subseteq> (\<Union>a \<in> A. blocks_in i a)"
      and al: "\<forall>a \<in> A. aligned a"
    using pre by (auto simp: class_pre_def)
  have "take_block i s = Ret b (heap_upd h (kernel_mem_pool s) r s)"
    using r(1) nq_empty[OF q] by (simp add: take_block_def k_list_empty_def)
  moreover have "class_step s (heap_upd h (kernel_mem_pool s) r s) i A A"
    unfolding class_step_def
  proof (intro exI[of _ h] exI[of _ "kernel_mem_pool s"] exI[of _ r] conjI)
    show "agree_off (nels FreeElem (FreeList i) (\<Union>a \<in> A \<union> A. blocks_in i a)) (links s) h"
      using sub by (intro agree_off_mono[OF r(3)]) (auto simp: nels_def)
    show "pool_ok KernelPool (heap_upd h (kernel_mem_pool s) r s)"
      using agree_off_mono[OF r(3) nels_heap] by (intro heap_upd_pool_ok[OF pool]) simp_all
    show "pages KernelPool s - A \<subseteq> pages KernelPool (heap_upd h (kernel_mem_pool s) r s)"
      by (auto simp: pages_def)
  qed (use r(4) al in auto)
  ultimately show ?thesis
    using r(2) sub nq_distinct[OF q]
    by (intro exI[of _ b] exI[of _ "heap_upd h (kernel_mem_pool s) r s"] exI[of _ cs] exI[of _ A])
      (auto simp: live_blocks_def)
qed

lemma take_block_fresh:
  assumes pool: "pool_ok KernelPool s" "pages KernelPool s \<noteq> page_units KernelPool s"
      "aligned (mp_start (kernel_mem_pool s))"
    and ok: "class_ok s i [] A" and i: "i < 7"
  shows "\<exists>b s' bs' A'. take_block i s = Ret b s' \<and> class_ok s' i bs' A' \<and> class_step s s' i A A' \<and>
    b \<notin> live_blocks i [] A \<and> live_blocks i bs' A' = insert b (live_blocks i [] A)"
proof -
  have pre: "class_pre s i [] A" using ok by (simp add: class_ok_def)
  then have al: "\<forall>a \<in> A. aligned a" and Ap: "A \<subseteq> pages KernelPool s" by (auto simp: class_pre_def)
  obtain a h1 m where init: "let s' = heap_upd h1 m ((arenas s)(a := \<lparr>a_desc = i, free_block_cnt = of_nat (bpa i)\<rparr>)) s in
    arena_init i s = Ret a s' \<and> a \<notin> pages KernelPool s \<and> aligned a \<and>
    pages KernelPool s' = insert a (pages KernelPool s) \<and> pool_ok KernelPool s' \<and> mp_start m = mp_start (kernel_mem_pool s) \<and>
    class_pre s' i (rev (map (block_addr i a) [0..<bpa i])) (insert a A) \<and>
    agree_off (nels FreeElem (FreeList i) (blocks_in i a)) (links s) h1"
    using arena_init_ok[OF pool pre i] by blast
  define s1 where "s1 = heap_upd h1 m ((arenas s)(a := \<lparr>a_desc = i, free_block_cnt = of_nat (bpa i)\<rparr>)) s"
  have s1: "arena_init i s = Ret a s1" "a \<notin> pages KernelPool s" "aligned a"
      "pages KernelPool s1 = insert a (pages KernelPool s)" "pool_ok KernelPool s1"
      "mp_start m = mp_start (kernel_mem_pool s)"
      "class_pre s1 i (rev (map (block_addr i a) [0..<bpa i])) (insert a A)"
      "agree_off (nels FreeElem (FreeList i) (blocks_in i a)) (links s) h1"
    using init unfolding s1_def Let_def by auto
  obtain b cs where bc: "rev (map (block_addr i a) [0..<bpa i]) = b # cs"
    using bpa_pos[OF i] by (cases "rev (map (block_addr i a) [0..<bpa i])") auto
  have "set (b # cs) = blocks_in i a"
    unfolding bc[symmetric] by (auto simp: blocks_in_def atLeast0LessThan)
  moreover have pre1: "class_pre s1 i (b # cs) (insert a A)" using s1(7) bc by simp
  then have "b \<notin> set cs" using nq_distinct[of FreeElem s1 "FreeList i" "b # cs"] by (simp add: class_pre_def)
  ultimately have bl: "blocks_in i a = insert b (set cs)" "b \<notin> set cs" by auto
  have dis: "blocks_in i a' \<inter> blocks_in i a = {}" "blocks_in i a' \<noteq> {}" if "a' \<in> A" for a'
    using that al s1(2,3) Ap blocks_disjoint[of a' a i i] bpa_pos[OF i] by (auto simp: blocks_in_def)
  have "\<forall>a' \<in> insert a A. \<not> blocks_in i a' \<subseteq> set cs" using bl dis by blast
  then obtain h r where r: "bnd (k_list_pop (FreeList i)) (\<lambda>e. bnd (of_res (entry_free_elem e)) (\<lambda>b.
      bnd (put_arena (block2arena b) (\<lambda>x. x\<lparr>free_block_cnt := free_block_cnt x - 1\<rparr>)) (\<lambda>_. ret b))) s1 =
      Ret b (heap_upd h m r s)" "class_ok (heap_upd h m r s) i cs (insert a A)"
      "agree_off (nels FreeElem (FreeList i) (blocks_in i a)) h1 h" "agree_off (insert a A) (arenas s1) r"
    using class_pop_run[OF pre1] bl(1) by (auto simp: s1_def agree_off_def)
  have lk: "agree_off (nels FreeElem (FreeList i) (blocks_in i a)) (links s) h"
    using agree_off_trans[OF s1(8) r(3)] by simp
  have "list_empty (links s) (lst_of (FreeList i))"
    using pre nq_empty[of FreeElem s "FreeList i" "[]"] by (simp add: class_pre_def)
  then have "take_block i s = Ret b (heap_upd h m r s)"
    using r(1) s1(1) by (simp add: take_block_def k_list_empty_def ret_def bnd_def[of "arena_init i"])
  moreover have "class_step s (heap_upd h m r s) i A (insert a A)"
    unfolding class_step_def
  proof (intro exI[of _ h] exI[of _ m] exI[of _ r] conjI)
    show "agree_off (nels FreeElem (FreeList i) (\<Union>a \<in> A \<union> insert a A. blocks_in i a)) (links s) h"
      by (intro agree_off_mono[OF lk]) (auto simp: nels_def)
    show "agree_off (A \<union> insert a A) (arenas s) r"
      using r(4) by (auto simp: agree_off_def s1_def)
    show "pool_ok KernelPool (heap_upd h m r s)"
      using agree_off_mono[OF r(3) nels_heap] by (intro heap_upd_pool_ok[OF s1(5)]) (simp_all add: s1_def)
    show "pages KernelPool s - A \<subseteq> pages KernelPool (heap_upd h m r s)"
      using s1(4) heap_upd_pages(1)[of m s1 h r s] by (auto simp: s1_def)
  qed (use s1 al in auto)
  moreover have "live_blocks i cs (insert a A) = insert b (live_blocks i [] A)" "b \<notin> live_blocks i [] A"
    using bl dis by (auto simp: live_blocks_def)
  ultimately show ?thesis using r(2) by blast
qed

lemma take_block_ok:
  assumes pool: "pool_ok KernelPool s" "pages KernelPool s \<noteq> page_units KernelPool s"
      "aligned (mp_start (kernel_mem_pool s))"
    and ok: "class_ok s i bs A" and i: "i < 7"
  shows "\<exists>b s' bs' A'. take_block i s = Ret b s' \<and> class_ok s' i bs' A' \<and> class_step s s' i A A' \<and>
    b \<notin> live_blocks i bs A \<and> live_blocks i bs' A' = insert b (live_blocks i bs A)"
proof (cases bs)
  case Nil
  then show ?thesis using take_block_fresh[OF pool _ i, of A] ok by simp
next
  case (Cons b cs)
  then show ?thesis using take_block_pop[OF pool(1), of i b cs A] ok by simp
qed

lemma locked_heap [simp]:
  "class_pre (locked p s) i bs A = class_pre s i bs A" "class_ok (locked p s) i bs A = class_ok s i bs A"
  "pages mp (locked p s) = pages mp s" "page_units mp (locked p s) = page_units mp s"
  by (simp_all add: class_ok_def class_pre_def nq_def pages_def page_units_def)

lemma pool_ok_locked: "p \<noteq> pool_lock mp \<Longrightarrow> pool_ok mp s \<Longrightarrow> pool_ok mp (locked p s)"
  by (simp add: pool_ok_def sema_free_def lock_free_def cur_ok_def tq_def)

lemma class_step_heap_elems:
  "class_step s s' i A A' \<Longrightarrow> \<exists>h m r. s' = heap_upd h m r s \<and> agree_off heap_elems (links s) h"
  unfolding class_step_def using agree_off_mono[OF _ nels_heap] by blast

text \<open>A step of one class under its lock is a step of the whole allocator.\<close>

lemma heap_ok_step:
  assumes ok: "heap_ok s fl ar" and i: "i < 7" and cls: "class_ok s' i bs' A'"
    and step: "class_step (locked (DescLock i) s) s' i (ar i) A'"
  shows "\<exists>s''. sema_up (DescLock i) s' = Ret () s'' \<and> heap_ok s'' (fl(i := bs')) (ar(i := A')) \<and>
    (\<exists>h m r. s'' = heap_upd h m r s \<and> agree_off heap_elems (links s) h)"
proof -
  let ?L = "locked (DescLock i) s"
  obtain h m r where s': "s' = heap_upd h m r ?L" and m: "mp_start m = mp_start (kernel_mem_pool s)"
    and off: "agree_off (nels FreeElem (FreeList i) (\<Union>a \<in> ar i \<union> A'. blocks_in i a)) (links s) h"
    and r: "agree_off (ar i \<union> A') (arenas s) r" and pool: "pool_ok KernelPool s'"
    and pg: "pages KernelPool s - ar i \<subseteq> pages KernelPool s'" "(A' - ar i) \<inter> pages KernelPool s = {}"
    and al: "\<forall>a \<in> ar i \<union> A'. aligned a"
    using step unfolding class_step_def by auto
  have hoff: "agree_off heap_elems (links s) h" using off by (rule agree_off_mono[OF _ nels_heap])
  let ?s = "heap_upd h m r s"
  note sec = heap_section[OF _ hoff]
  have locks: "\<forall>j < 7. sema_free (DescLock j) s" using ok by (simp add: heap_ok_def)
  have pgs: "pages KernelPool ?s = pages KernelPool s'" by (simp add: s' pages_def)
  have others: "ar j \<inter> (ar i \<union> A') = {}" "\<forall>a \<in> ar j. aligned a" "ar j \<subseteq> pages KernelPool s"
      "class_ok s j (fl j) (ar j)" if "j < 7" "j \<noteq> i" for j
    using ok that i pg(2) unfolding heap_ok_def class_ok_def class_pre_def by (auto, blast+)
  have "class_ok ?s j (fl j) (ar j)" if j: "j < 7" "j \<noteq> i" for j
  proof (rule class_ok_frame[OF others(4)[OF j], of _ i "\<Union>a \<in> ar i \<union> A'. blocks_in i a"])
    have "set (fl j) \<subseteq> (\<Union>a \<in> ar j. blocks_in j a)"
      using others(4)[OF j] by (simp add: class_ok_def class_pre_def)
    moreover have "blocks_in i a \<inter> blocks_in j a' = {}" if "a \<in> ar i \<union> A'" "a' \<in> ar j" for a a'
      using that al others(1,2)[OF j] by (intro blocks_disjoint) auto
    ultimately show "(\<Union>a \<in> ar i \<union> A'. blocks_in i a) \<inter> set (fl j) = {}" by blast
    show "ar j \<subseteq> pages KernelPool ?s" using others(1,3)[OF j] pg(1) pgs by blast
    show "arenas ?s a = arenas s a" if "a \<in> ar j" for a
      using agree_offD[OF r, of a] that others(1)[OF j] by auto
  qed (use off j in simp_all)
  moreover have "class_ok ?s i bs' A'" using cls by (simp add: s' class_ok_def class_pre_def nq_def pages_def)
  moreover have "pool_ok KernelPool ?s"
    using ok heap_section(2)[OF _ hoff, of KernelPoolLock m r] pool
    by (simp add: heap_ok_def pool_ok_def s')
  moreover have "ar j \<inter> A' = {}" if "j < 7" "j \<noteq> i" for j using others(1)[OF that] by blast
  ultimately have "heap_ok ?s (fl(i := bs')) (ar(i := A'))"
    using ok m sec(2) locks by (auto simp: heap_ok_def)
  then show ?thesis using sec(1)[of "DescLock i" m r] locks i hoff s' by blast
qed

text \<open>The size class \<^verbatim>\<open>kalloc\<close> chooses: the smallest whose blocks are large enough.\<close>

lemma find_desc_from:
  assumes "i < 7" "sz \<le> sizes i" "j \<le> i" "\<forall>k < i. j \<le> k \<longrightarrow> sizes k < sz"
  shows "find_desc sz sizes j = Inr i"
  using assms
proof (induction sz sizes j rule: find_desc.induct)
  case (1 sz sizes j)
  show ?case
  proof (cases "j = i")
    case True
    then show ?thesis using "1.prems" by (subst find_desc.simps) (simp add: DESC_CNT_def)
  next
    case False
    then have "\<not> sz \<le> sizes j" "j < DESC_CNT" using "1.prems" by (auto simp: DESC_CNT_def not_le)
    then show ?thesis using "1.IH" "1.prems" False by (subst find_desc.simps) simp
  qed
qed

definition class_of_size :: "u64 \<Rightarrow> nat" where
  "class_of_size sz = (LEAST i. unat sz \<le> bsize i)"

lemma class_of_size_props:
  assumes "sz \<le> 1024"
  shows "class_of_size sz < 7" "unat sz \<le> bsize (class_of_size sz)" "k < class_of_size sz \<Longrightarrow> bsize k < unat sz"
proof -
  have "unat sz \<le> bsize 6" using assms by (simp add: bsize_def word_le_nat_alt)
  then have "class_of_size sz \<le> 6" unfolding class_of_size_def by (rule Least_le)
  then show "class_of_size sz < 7" by simp
  show "unat sz \<le> bsize (class_of_size sz)" unfolding class_of_size_def using \<open>unat sz \<le> bsize 6\<close> by (rule LeastI)
  show "k < class_of_size sz \<Longrightarrow> bsize k < unat sz"
    unfolding class_of_size_def using not_less_Least[of k "\<lambda>i. unat sz \<le> bsize i"] by simp
qed

lemma unat_bsize: "i < 7 \<Longrightarrow> unat (of_nat (bsize i) :: u64) = bsize i"
proof -
  assume "i < 7"
  then have "(2 :: nat) ^ i \<le> 2 ^ 6" by (intro power_increasing) auto
  then show ?thesis unfolding unat_of_nat by (simp add: bsize_def)
qed

lemma find_desc_class:
  assumes "sz \<le> 1024" "\<forall>i < 7. sizes i = of_nat (bsize i)"
  shows "find_desc sz sizes 0 = Inr (class_of_size sz)"
proof (rule find_desc_from)
  note sc = class_of_size_props[OF assms(1)]
  show "sz \<le> sizes (class_of_size sz)"
    using assms(2) sc(1,2) unat_bsize[of "class_of_size sz"] by (simp add: word_le_nat_alt)
  show "\<forall>k < class_of_size sz. 0 \<le> k \<longrightarrow> sizes k < sz"
    using assms(2) sc(1,3) unat_bsize by (simp add: word_less_nat_alt)
qed (use class_of_size_props[OF assms(1)] in simp_all)

lemma kalloc_ok:
  assumes ok: "heap_ok s fl ar" and sz: "sz \<le> 1024"
    and can: "pages KernelPool s \<noteq> page_units KernelPool s"
  defines "i \<equiv> class_of_size sz"
  shows "\<exists>b s' bs' A'. kalloc sz s = Ret b s' \<and> heap_ok s' (fl(i := bs')) (ar(i := A')) \<and>
    b \<notin> live_blocks i (fl i) (ar i) \<and> live_blocks i bs' A' = insert b (live_blocks i (fl i) (ar i)) \<and>
    (\<exists>h m r. s' = heap_upd h m r s \<and> agree_off heap_elems (links s) h)"
proof -
  have i: "i < 7" using class_of_size_props(1)[OF sz] by (simp add: i_def)
  let ?L = "locked (DescLock i) s"
  have cls: "class_ok ?L i (fl i) (ar i)" and free: "sema_free (DescLock i) s" and pool: "pool_ok KernelPool ?L"
      and al: "aligned (mp_start (kernel_mem_pool ?L))"
    using ok i by (auto simp: heap_ok_def pool_ok_locked)
  have "pages KernelPool ?L \<noteq> page_units KernelPool ?L" using can by simp
  then obtain b s1 bs' A' where b: "take_block i ?L = Ret b s1" "class_ok s1 i bs' A'"
      "class_step ?L s1 i (ar i) A'" "b \<notin> live_blocks i (fl i) (ar i)"
      "live_blocks i bs' A' = insert b (live_blocks i (fl i) (ar i))"
    using take_block_ok[OF pool _ al cls i] by blast
  obtain s' where s': "sema_up (DescLock i) s1 = Ret () s'" "heap_ok s' (fl(i := bs')) (ar(i := A'))"
      "\<exists>h m r. s' = heap_upd h m r s \<and> agree_off heap_elems (links s) h"
    using heap_ok_step[OF ok i b(2,3)] by blast
  have "\<forall>i < 7. block_sizes s i = of_nat (bsize i)" using ok by (simp add: heap_ok_def class_ok_def class_pre_def)
  then have "find_desc sz (block_sizes s) 0 = Inr i" using find_desc_class[OF sz] by (simp add: i_def)
  then have "kalloc sz s = Ret b s'"
    using sz free b(1) s'(1) by (simp add: kalloc_def of_res_def ret_def)
  then show ?thesis using b s' by blast
qed

section \<open>Giving a block back\<close>

lemma drop_blocks:
  assumes "a_desc (arenas s a) = i" "block_sizes s i = of_nat (bsize i)" "aligned a"
    and "nq FreeElem s (FreeList i) bs" "j + n \<le> bpa i" "block_addr i a ` {j..<j + n} \<subseteq> set bs"
  shows "\<exists>h bs'. for_range j n (drop_block a) s = Ret () (s\<lparr>links := h\<rparr>) \<and>
    nq FreeElem (s\<lparr>links := h\<rparr>) (FreeList i) bs' \<and> set bs' = set bs - block_addr i a ` {j..<j + n} \<and>
    agree_off (nels FreeElem (FreeList i) (set bs)) (links s) h"
  using assms
proof (induction n arbitrary: j s bs)
  case 0
  then show ?case by (intro exI[of _ "links s"] exI[of _ bs]) (simp add: ret_def agree_off_def)
next
  case (Suc n)
  let ?b = "block_addr i a j"
  have bin: "?b \<in> set bs" using Suc.prems(6) by auto
  obtain h1 where h1: "list_remove (links s) (Some (FreeElem ?b)) = Inr h1"
      "nq FreeElem (s\<lparr>links := h1\<rparr>) (FreeList i) (remove1 ?b bs)"
      "agree_off (nels FreeElem (FreeList i) (set bs)) (links s) h1"
    using nq_remove[OF Suc.prems(4) bin] by blast
  have set1: "set (remove1 ?b bs) = set bs - {?b}" using nq_distinct[OF Suc.prems(4)] by (rule set_remove1_eq)
  have step: "drop_block a j s = Ret () (s\<lparr>links := h1\<rparr>)"
    using arena2block_eq[OF Suc.prems(1,2), of j] h1(1) Suc.prems(1) nq_find[OF Suc.prems(4), of ?b] bin
    by (simp add: drop_block_def get_arena_def k_elem_find_def k_list_remove_def on_field'_def bnd_assoc)
  have "?b \<notin> block_addr i a ` {Suc j..<Suc j + n}"
  proof
    assume "?b \<in> block_addr i a ` {Suc j..<Suc j + n}"
    then obtain k where k: "Suc j \<le> k" "k < Suc j + n" "block_addr i a j = block_addr i a k"
      by (auto simp del: image_insert)
    then show False using block_addr_inj[of a a j i k] Suc.prems(3,5) by simp
  qed
  moreover have ins: "{j..<j + Suc n} = insert j {Suc j..<Suc j + n}" by auto
  ultimately have "block_addr i a ` {Suc j..<Suc j + n} \<subseteq> set (remove1 ?b bs)"
    using Suc.prems(6) unfolding set1 ins by blast
  then obtain h bs' where h: "for_range (Suc j) n (drop_block a) (s\<lparr>links := h1\<rparr>) = Ret () (s\<lparr>links := h\<rparr>)"
      "nq FreeElem (s\<lparr>links := h\<rparr>) (FreeList i) bs'"
      "set bs' = set (remove1 ?b bs) - block_addr i a ` {Suc j..<Suc j + n}"
      "agree_off (nels FreeElem (FreeList i) (set (remove1 ?b bs))) h1 h"
    using Suc.IH[of "s\<lparr>links := h1\<rparr>" "remove1 ?b bs" "Suc j"] Suc.prems h1(2) by auto
  have "agree_off (nels FreeElem (FreeList i) (set bs)) (links s) h"
    using set1 by (intro agree_off_mono[OF agree_off_trans[OF h1(3) h(4)]]) (auto simp: nels_def)
  moreover have "set bs' = set bs - block_addr i a ` {j..<j + Suc n}" using h(3) set1 ins by auto
  ultimately show ?case using step h by (intro exI[of _ h] exI[of _ bs']) simp
qed

text \<open>Up to the counter: the block is at the end of the free list and counted.\<close>

lemma class_append:
  assumes pre: "class_pre s i bs A" and b: "b \<in> live_blocks i bs A"
  defines "a \<equiv> block2arena b"
  shows "\<exists>h. list_append (links s) (lst_of (FreeList i)) (FreeElem b) = Inr h \<and>
    agree_off (nels FreeElem (FreeList i) (set (b # bs))) (links s) h \<and> a \<in> A \<and> b \<in> blocks_in i a \<and>
    class_pre (heap_upd h (kernel_mem_pool s) ((arenas s)(a :=
      (arenas s a)\<lparr>free_block_cnt := free_block_cnt (arenas s a) + 1\<rparr>)) s) i (bs @ [b]) A"
proof -
  obtain a' where a': "a' \<in> A" "b \<in> blocks_in i a'" using b by (auto simp: live_blocks_def)
  then have al: "aligned a'" and aa: "a = a'"
    using pre blocks_in_arena unfolding a_def by (auto simp: class_pre_def)
  have nb: "b \<notin> set bs" using b by (simp add: live_blocks_def)
  obtain h where h: "list_append (links s) (lst_of (FreeList i)) (FreeElem b) = Inr h"
      "nq FreeElem (s\<lparr>links := h\<rparr>) (FreeList i) (bs @ [b])"
      "agree_off (nels FreeElem (FreeList i) (set (b # bs))) (links s) h"
    using nq_append[of FreeElem s "FreeList i" bs b] pre nb by (auto simp: class_pre_def)
  have "set (bs @ [b]) \<inter> blocks_in i a' = insert b (set bs \<inter> blocks_in i a')" using a'(2) by auto
  then have ca: "card (set (bs @ [b]) \<inter> blocks_in i a') = Suc (card (set bs \<inter> blocks_in i a'))"
    using nb by simp
  have co: "set (bs @ [b]) \<inter> blocks_in i c = set bs \<inter> blocks_in i c" if "c \<in> A" "c \<noteq> a'" for c
    using that al a' pre blocks_disjoint[of a' c i i] by (auto simp: class_pre_def)
  have "of_nat (card (set bs \<inter> blocks_in i a')) + 1 = (of_nat (Suc (card (set bs \<inter> blocks_in i a'))) :: u64)"
    by simp
  then show ?thesis
    using h ca co pre a' aa
    by (intro exI[of _ h] conjI) (auto simp: class_pre_def nq_def pages_def)
qed

lemma free_pages_one:
  assumes "pool_ok KernelPool s" "a \<in> pages KernelPool s"
  shows "\<exists>b. free_pages a 1 s = Ret () (set_btmp KernelPool b s) \<and> pool_ok KernelPool (set_btmp KernelPool b s) \<and>
    pages KernelPool (set_btmp KernelPool b s) = pages KernelPool s - {a}"
proof -
  obtain i where i: "i \<in> used (btmp_of KernelPool s)" "a = page_addr (mp_start (pool_of KernelPool s)) i"
    using assms(2) by (auto simp: pages_def)
  have "i < 2 ^ 52" using i(1) assms(1) used_bound[of "btmp_of KernelPool s"] by (force simp: pool_ok_def)
  then obtain b where "pool_free KernelPool a 1 s = Ret () (set_btmp KernelPool b s)"
    using pool_free_ok[of KernelPool s a i 1] assms(1) i page_idx[of i] by (auto simp: pool_ok_def)
  then show ?thesis using kp.release_law[OF assms] by (auto simp: free_pages_def)
qed

lemma class_drop:
  assumes pre: "class_pre s i bs A" and strict: "\<forall>c \<in> A - {a}. \<not> blocks_in i c \<subseteq> set bs"
    and a: "a \<in> A" "blocks_in i a \<subseteq> set bs" and pool: "pool_ok KernelPool s"
  shows "\<exists>h m bs'. bnd (for_range 0 (bpa i) (drop_block a)) (\<lambda>_. free_pages a 1) s =
      Ret () (heap_upd h m (arenas s) s) \<and> class_ok (heap_upd h m (arenas s) s) i bs' (A - {a}) \<and>
    set bs' = set bs - blocks_in i a \<and> mp_start m = mp_start (kernel_mem_pool s) \<and>
    pages KernelPool (heap_upd h m (arenas s) s) = pages KernelPool s - {a} \<and>
    pool_ok KernelPool (heap_upd h m (arenas s) s) \<and>
    agree_off (nels FreeElem (FreeList i) (set bs)) (links s) h"
proof -
  have al: "aligned a" and d: "a_desc (arenas s a) = i" and sz: "block_sizes s i = of_nat (bsize i)"
      and q: "nq FreeElem s (FreeList i) bs" and pg: "a \<in> pages KernelPool s"
    using pre a(1) by (auto simp: class_pre_def)
  have bl: "blocks_in i a = block_addr i a ` {0..<0 + bpa i}" by (simp add: blocks_in_def atLeast0LessThan)
  obtain h bs' where h: "for_range 0 (bpa i) (drop_block a) s = Ret () (s\<lparr>links := h\<rparr>)"
      "nq FreeElem (s\<lparr>links := h\<rparr>) (FreeList i) bs'" "set bs' = set bs - blocks_in i a"
      "agree_off (nels FreeElem (FreeList i) (set bs)) (links s) h"
    using drop_blocks[OF d sz al q, of 0 "bpa i"] a(2) bl by auto
  let ?s = "s\<lparr>links := h\<rparr>"
  have hoff: "agree_off heap_elems (links s) h" using agree_off_mono[OF h(4) nels_heap] .
  have s': "?s = heap_upd h (kernel_mem_pool s) (arenas s) s" by (simp add: heap_upd_def)
  have "pool_ok KernelPool ?s" unfolding s' by (intro heap_upd_pool_ok[OF pool]) (simp_all add: hoff)
  moreover have pgs: "pages KernelPool ?s = pages KernelPool s" by (simp add: pages_def)
  ultimately obtain b where b: "free_pages a 1 ?s = Ret () (set_btmp KernelPool b ?s)"
      "pool_ok KernelPool (set_btmp KernelPool b ?s)" "pages KernelPool (set_btmp KernelPool b ?s) = pages KernelPool s - {a}"
    using free_pages_one[of ?s a] pg by auto
  let ?m = "(kernel_mem_pool s)\<lparr>pool_bitmap := b\<rparr>"
  have eq: "set_btmp KernelPool b ?s = heap_upd h ?m (arenas s) s" by (simp add: set_btmp_def heap_upd_def)
  have others: "set bs' \<inter> blocks_in i c = set bs \<inter> blocks_in i c" "\<not> blocks_in i c \<subseteq> set bs'" if "c \<in> A - {a}" for c
    using blocks_disjoint[OF al, of c i i] that pre strict h(3) by (auto simp: class_pre_def)
  have "class_ok (heap_upd h ?m (arenas s) s) i bs' (A - {a})"
    using pre others h(2,3) b(3) unfolding eq class_ok_def class_pre_def
    by (intro conjI ballI) (auto simp: nq_def)
  then show ?thesis using h(1,3,4) b eq by (intro exI[of _ h] exI[of _ ?m] exI[of _ bs']) simp
qed

lemma class_stepI:
  assumes "s' = heap_upd h m r s" "mp_start m = mp_start (kernel_mem_pool s)"
    and "agree_off (nels FreeElem (FreeList i) B) (links s) h" "B \<subseteq> (\<Union>a \<in> A. blocks_in i a)"
    and "agree_off A (arenas s) r" "pool_ok KernelPool s'" "pages KernelPool s - A \<subseteq> pages KernelPool s'"
    and "A' \<subseteq> A" "\<forall>a \<in> A. aligned a"
  shows "class_step s s' i A A'"
proof -
  have "A \<union> A' = A" using assms(8) by auto
  moreover have "nels FreeElem (FreeList i) B \<subseteq> nels FreeElem (FreeList i) (\<Union>a \<in> A. blocks_in i a)"
    using assms(4) by (auto simp: nels_def)
  ultimately show ?thesis
    unfolding class_step_def
    using assms agree_off_mono[OF assms(3)] by (intro exI[of _ h] exI[of _ m] exI[of _ r]) auto
qed

lemma give_block_ok:
  assumes pool: "pool_ok KernelPool s" and ok: "class_ok s i bs A" and i: "i < 7"
    and b: "b \<in> live_blocks i bs A"
  shows "\<exists>s' bs' A'. give_block (block2arena b) b i s = Ret () s' \<and> class_ok s' i bs' A' \<and>
    class_step s s' i A A' \<and> live_blocks i bs' A' = live_blocks i bs A - {b} \<and>
    a_desc (arenas s' (block2arena b)) = i"
proof -
  let ?a = "block2arena b"
  define r where "r = (arenas s)(?a := (arenas s ?a)\<lparr>free_block_cnt := free_block_cnt (arenas s ?a) + 1\<rparr>)"
  have pre: "class_pre s i bs A" using ok by (simp add: class_ok_def)
  obtain h where h: "list_append (links s) (lst_of (FreeList i)) (FreeElem b) = Inr h"
      "agree_off (nels FreeElem (FreeList i) (set (b # bs))) (links s) h" "?a \<in> A" "b \<in> blocks_in i ?a"
      "class_pre (heap_upd h (kernel_mem_pool s) r s) i (bs @ [b]) A"
    using class_append[OF pre b] unfolding r_def by blast
  define s1 where "s1 = heap_upd h (kernel_mem_pool s) r s"
  have al: "\<forall>a \<in> A. aligned a" and sub: "set bs \<subseteq> (\<Union>a \<in> A. blocks_in i a)" and q: "nq FreeElem s (FreeList i) bs"
      and sz: "block_sizes s i = of_nat (bsize i)" and d: "a_desc (arenas s ?a) = i"
    using pre h(3) by (auto simp: class_pre_def)
  have pool1: "pool_ok KernelPool s1"
    unfolding s1_def using agree_off_mono[OF h(2) nels_heap] by (intro heap_upd_pool_ok[OF pool]) simp_all
  let ?n = "card (set (bs @ [b]) \<inter> blocks_in i ?a)"
  have cnt: "free_block_cnt (arenas s1 ?a) = of_nat ?n" using h(3,5) by (simp add: class_pre_def s1_def)
  have le: "?n \<le> bpa i"
    using card_mono[of "blocks_in i ?a" "set (bs @ [b]) \<inter> blocks_in i ?a"] card_blocks_in[of ?a i] al h(3)
    by (auto simp: blocks_in_def)
  have small: "unat (of_nat m :: u64) = m" if "m \<le> bpa i" for m
    using that bpa_le[of i] unfolding unat_of_nat by simp
  have full: "free_block_cnt (arenas s1 ?a) = of_nat (bpa i) \<longleftrightarrow> ?n = bpa i"
    using cnt small[OF le] small[of "bpa i"] by (metis order_refl)
  have full': "?n = bpa i \<longleftrightarrow> blocks_in i ?a \<subseteq> set (bs @ [b])"
    using card_blocks_in[of ?a i] al h(3) card_subset_eq[of "blocks_in i ?a" "set (bs @ [b]) \<inter> blocks_in i ?a"]
    by (auto simp: blocks_in_def Int_absorb1)
  have "s\<lparr>links := h, arenas := r\<rparr> = s1" by (simp add: s1_def heap_upd_def)
  moreover have "b \<notin> set bs" using b by (simp add: live_blocks_def)
  ultimately have run: "give_block ?a b i s = (if ?n = bpa i
      then bnd (for_range 0 (bpa i) (drop_block ?a)) (\<lambda>_. free_pages ?a 1) s1 else Ret () s1)"
    using h(1) nq_find[OF q, of b] sz d blocks_per_arena_eq[OF i] full small[of "bpa i"]
    by (simp add: give_block_def k_elem_find_def bnd_assoc k_list_append_def bnd_def[of "on_field' x y z" for x y z]
        on_field'_def block_size_of_def put_arena_def get_arena_def r_def[symmetric] Let_def ret_def)
  have r: "agree_off A (arenas s) r" using h(3) by (auto simp: agree_off_def r_def)
  have subB: "set (b # bs) \<subseteq> (\<Union>a \<in> A. blocks_in i a)" using sub h(3,4) by auto
  have strict: "\<forall>c \<in> A - {?a}. \<not> blocks_in i c \<subseteq> set (bs @ [b])"
    using ok al h(3,4) blocks_disjoint[of _ ?a i i] by (fastforce simp: class_ok_def)
  show ?thesis
  proof (cases "?n = bpa i")
    case False
    then have "class_ok s1 i (bs @ [b]) A" using h(5) strict full' by (auto simp: class_ok_def s1_def)
    moreover have "class_step s s1 i A A"
      using al by (intro class_stepI[OF s1_def _ h(2) subB r pool1]) (auto simp: s1_def pages_def)
    moreover have "live_blocks i (bs @ [b]) A = live_blocks i bs A - {b}" by (auto simp: live_blocks_def)
    ultimately show ?thesis using run False d by (auto simp: s1_def r_def)
  next
    case True
    obtain h2 m bs' where e: "bnd (for_range 0 (bpa i) (drop_block ?a)) (\<lambda>_. free_pages ?a 1) s1 =
          Ret () (heap_upd h2 m r s)" "class_ok (heap_upd h2 m r s) i bs' (A - {?a})"
        "set bs' = set (bs @ [b]) - blocks_in i ?a" "mp_start m = mp_start (kernel_mem_pool s)"
        "pages KernelPool (heap_upd h2 m r s) = pages KernelPool s - {?a}" "pool_ok KernelPool (heap_upd h2 m r s)"
        "agree_off (nels FreeElem (FreeList i) (set (bs @ [b]))) h h2"
      using class_drop[OF h(5) strict h(3) _ pool1[unfolded s1_def]] True full' by (auto simp: s1_def pages_def)
    have off: "agree_off (nels FreeElem (FreeList i) (set (b # bs))) (links s) h2"
      by (intro agree_off_mono[OF agree_off_trans[OF h(2) e(7)]]) (auto simp: nels_def)
    have "class_step s (heap_upd h2 m r s) i A (A - {?a})"
      using al e(5) h(3) by (intro class_stepI[OF refl e(4) off subB r e(6)]) auto
    moreover have "live_blocks i bs' (A - {?a}) = live_blocks i bs A - {b}"
    proof -
      have "blocks_in i c \<inter> blocks_in i ?a = {}" if "c \<in> A - {?a}" for c
        using that al h(3) by (intro blocks_disjoint) auto
      then show ?thesis using e(3) True full' h(3) by (auto simp: live_blocks_def)
    qed
    ultimately show ?thesis using run True e(1,2) d by (auto simp: r_def)
  qed
qed

lemma kfree_ok:
  assumes ok: "heap_ok s fl ar" and i: "i < 7" and b: "b \<in> live_blocks i (fl i) (ar i)"
  shows "\<exists>s' bs' A'. kfree b s = Ret () s' \<and> heap_ok s' (fl(i := bs')) (ar(i := A')) \<and>
    live_blocks i bs' A' = live_blocks i (fl i) (ar i) - {b} \<and>
    (\<exists>h m r. s' = heap_upd h m r s \<and> agree_off heap_elems (links s) h)"
proof -
  let ?L = "locked (DescLock i) s"
  have cls: "class_ok ?L i (fl i) (ar i)" and free: "sema_free (DescLock i) s" and pool: "pool_ok KernelPool ?L"
    using ok i by (auto simp: heap_ok_def pool_ok_locked)
  have "block2arena b \<in> ar i"
    using b cls blocks_in_arena by (auto simp: live_blocks_def class_ok_def class_pre_def)
  then have d: "a_desc (arenas s (block2arena b)) = i" using cls by (auto simp: class_ok_def class_pre_def)
  obtain s1 bs' A' where g: "give_block (block2arena b) b i ?L = Ret () s1" "class_ok s1 i bs' A'"
      "class_step ?L s1 i (ar i) A'" "live_blocks i bs' A' = live_blocks i (fl i) (ar i) - {b}"
      "a_desc (arenas s1 (block2arena b)) = i"
    using give_block_ok[OF pool cls i b] by blast
  obtain s' where s': "sema_up (DescLock i) s1 = Ret () s'" "heap_ok s' (fl(i := bs')) (ar(i := A'))"
      "\<exists>h m r. s' = heap_upd h m r s \<and> agree_off heap_elems (links s) h"
    using heap_ok_step[OF ok i g(2,3)] by blast
  have "kfree b s = Ret () s'"
    using d free g(1,5) s'(1) by (simp add: kfree_def Let_def get_arena_def)
  then show ?thesis using g(4) s' by blast
qed

lemma kfree_twice:
  assumes ok: "heap_ok s fl ar" and i: "i < 7" and b: "b \<in> set (fl i)"
  shows "kfree b s = Fail AssertFail"
proof -
  have cls: "class_ok s i (fl i) (ar i)" and free: "sema_free (DescLock i) s"
    using ok i by (auto simp: heap_ok_def)
  obtain a where a: "a \<in> ar i" "b \<in> blocks_in i a" "aligned a" "a_desc (arenas s a) = i"
    using b cls by (auto simp: class_ok_def class_pre_def)
  have "nq FreeElem s (FreeList i) (fl i)" using cls by (simp add: class_ok_def class_pre_def)
  then have "elem_find (links s) (lst_of (FreeList i)) (FreeElem b) = Inr True"
    using nq_find[of FreeElem s "FreeList i" "fl i" b] b by simp
  then have "give_block a b i (locked (DescLock i) s) = Fail AssertFail"
    by (simp add: give_block_def k_elem_find_def bnd_assoc)
  then show ?thesis
    using blocks_in_arena[OF a(3,2)] a(4) free by (simp add: kfree_def Let_def get_arena_def)
qed

section \<open>The allocator as a whole\<close>

lemma live_disjoint:
  assumes ok: "heap_ok s fl ar" and "i < 7" "j < 7" "i \<noteq> j"
  shows "live_blocks i (fl i) (ar i) \<inter> live_blocks j (fl j) (ar j) = {}"
proof -
  have "blocks_in i a \<inter> blocks_in j a' = {}" if "a \<in> ar i" "a' \<in> ar j" for a a'
    using that ok assms(2-4) unfolding heap_ok_def class_ok_def class_pre_def
    by (intro blocks_disjoint) blast+
  then show ?thesis unfolding live_blocks_def by blast
qed

lemma heap_rep_upd:
  assumes "heap_ok s fl ar" "\<forall>i. M i = (if i < 7 then live_blocks i (fl i) (ar i) else {})" "i < 7"
    and "heap_ok s' (fl(i := bs')) (ar(i := A'))" "live_blocks i bs' A' = N"
  shows "heap_rep s' (M(i := N))"
  unfolding heap_rep_def using assms by (intro exI[of _ "fl(i := bs')"] exI[of _ "ar(i := A')"]) auto

lemma heap_get:
  assumes rep: "heap_rep s M" and sz: "sz \<le> 1024" and can: "pages KernelPool s \<noteq> page_units KernelPool s"
  shows "\<exists>b s'. kalloc sz s = Ret b s' \<and> (\<forall>j. b \<notin> M j) \<and>
    heap_rep s' (M(class_of_size sz := insert b (M (class_of_size sz)))) \<and>
    (\<exists>h m r. s' = heap_upd h m r s \<and> agree_off heap_elems (links s) h)"
proof -
  let ?i = "class_of_size sz"
  have i: "?i < 7" using class_of_size_props(1)[OF sz] .
  obtain fl ar where ok: "heap_ok s fl ar" "\<forall>i. M i = (if i < 7 then live_blocks i (fl i) (ar i) else {})"
    using rep by (auto simp: heap_rep_def)
  obtain b s' bs' A' where b: "kalloc sz s = Ret b s'" "heap_ok s' (fl(?i := bs')) (ar(?i := A'))"
      "b \<notin> live_blocks ?i (fl ?i) (ar ?i)" "live_blocks ?i bs' A' = insert b (live_blocks ?i (fl ?i) (ar ?i))"
      "\<exists>h m r. s' = heap_upd h m r s \<and> agree_off heap_elems (links s) h"
    using kalloc_ok[OF ok(1) sz can] by blast
  have nb: "b \<notin> M j" for j
  proof (cases "j = ?i \<or> \<not> j < 7")
    case False
    then show ?thesis using live_disjoint[OF b(2) i, of j] b(4) ok(2) i by auto
  qed (use ok(2) b(3) i in auto)
  have "live_blocks ?i bs' A' = insert b (M ?i)" using b(4) ok(2) i by simp
  note rep' = heap_rep_upd[OF ok i b(2) this]
  show ?thesis by (intro exI[of _ b] exI[of _ s'] conjI allI b(1) nb rep' b(5))
qed

lemma heap_put:
  assumes rep: "heap_rep s M" and b: "b \<in> M i"
  shows "\<exists>s'. kfree b s = Ret () s' \<and> heap_rep s' (M(i := M i - {b})) \<and>
    (\<exists>h m r. s' = heap_upd h m r s \<and> agree_off heap_elems (links s) h)"
proof -
  obtain fl ar where ok: "heap_ok s fl ar" "\<forall>i. M i = (if i < 7 then live_blocks i (fl i) (ar i) else {})"
    using rep by (auto simp: heap_rep_def)
  have i: "i < 7" "b \<in> live_blocks i (fl i) (ar i)" using b ok(2) by (auto split: if_splits)
  obtain s' bs' A' where s': "kfree b s = Ret () s'" "heap_ok s' (fl(i := bs')) (ar(i := A'))"
      "live_blocks i bs' A' = live_blocks i (fl i) (ar i) - {b}"
      "\<exists>h m r. s' = heap_upd h m r s \<and> agree_off heap_elems (links s) h"
    using kfree_ok[OF ok(1) i] by blast
  have "live_blocks i bs' A' = M i - {b}" using s'(3) ok(2) i(1) by simp
  note rep' = heap_rep_upd[OF ok i(1) s'(2) this]
  show ?thesis by (intro exI[of _ s'] conjI s'(1) rep' s'(4))
qed

definition kobjects :: "'z kstate_scheme \<Rightarrow> u64 set \<Rightarrow> bool" where
  "kobjects s L \<longleftrightarrow> (\<exists>M. heap_rep s M \<and> L = (\<Union>i. M i))"

lemma heap_rep_disjoint: "heap_rep s M \<Longrightarrow> i \<noteq> j \<Longrightarrow> M i \<inter> M j = {}"
proof -
  assume "heap_rep s M" "i \<noteq> j"
  then obtain fl ar where "heap_ok s fl ar" "\<forall>i. M i = (if i < 7 then live_blocks i (fl i) (ar i) else {})"
    by (auto simp: heap_rep_def)
  then show ?thesis using live_disjoint[of s fl ar i j] \<open>i \<noteq> j\<close> by simp
qed

interpretation kh: object_allocator kobjects
  "\<lambda>s. sz \<le> 1024 \<and> pages KernelPool s \<noteq> page_units KernelPool s" "kalloc sz" kfree for sz
proof (unfold_locales, goal_cases)
  case (1 s L)
  then obtain M where M: "heap_rep s M" "L = (\<Union>i. M i)" by (auto simp: kobjects_def)
  obtain b s' where b: "kalloc sz s = Ret b s'" "\<forall>j. b \<notin> M j"
      "heap_rep s' (M(class_of_size sz := insert b (M (class_of_size sz))))"
    using heap_get[OF M(1)] 1(2) by blast
  have "insert b L = (\<Union>i. (M(class_of_size sz := insert b (M (class_of_size sz)))) i)"
    unfolding M(2) by (auto split: if_splits) metis
  then show ?case using b M(2) unfolding kobjects_def by blast
next
  case (2 s L x)
  then obtain M i where M: "heap_rep s M" "L = (\<Union>i. M i)" "x \<in> M i" by (auto simp: kobjects_def)
  obtain s' where s': "kfree x s = Ret () s'" "heap_rep s' (M(i := M i - {x}))" using heap_put[OF M(1,3)] by blast
  have "x \<notin> M j" if "j \<noteq> i" for j using heap_rep_disjoint[OF M(1) that] M(3) by auto
  then have "L - {x} = (\<Union>j. (M(i := M i - {x})) j)" unfolding M(2) by (auto split: if_splits) metis
  then show ?case using s' unfolding kobjects_def by blast
qed

section \<open>Initialisation\<close>

lemma upd_order_sizes [simp]:
  "links_update f (block_sizes_update g s) = block_sizes_update g (links_update f s)"
  "sema_value_update f' (block_sizes_update g s) = block_sizes_update g (sema_value_update f' s)"
  by simp_all

lemma heap_ok_initial:
  assumes "pool_ok KernelPool s" "aligned (mp_start (kernel_mem_pool s))" "\<forall>i < 7. sema_free (DescLock i) s"
    and "\<forall>i < 7. block_sizes s i = of_nat (bsize i)" "\<forall>i < 7. nq FreeElem s (FreeList i) []"
  shows "heap_rep s (\<lambda>_. {})"
  unfolding heap_rep_def
  by (intro exI[of _ "\<lambda>_. []"] exI[of _ "\<lambda>_. {}"])
    (use assms in \<open>auto simp: heap_ok_def class_ok_def class_pre_def live_blocks_def\<close>)

text \<open>After the loop from \<open>idx\<close> on, the classes from \<open>idx\<close> on are set up and everything else is as before.\<close>

lemma block_desc_init_from_ok:
  assumes "cur_ok s" "sz = of_nat (bsize idx)"
  shows "\<exists>h v bz. block_desc_init_from idx n sz s = Ret () (s\<lparr>links := h, sema_value := v, block_sizes := bz\<rparr>) \<and>
    (\<forall>i. idx \<le> i \<and> i < idx + n \<longrightarrow> bz i = of_nat (bsize i) \<and> v (DescLock i) = 1 \<and>
       dlist h (lst_of (FreeList i)) [] \<and> dlist h (lst_of (Waiters (DescLock i))) []) \<and>
    (\<forall>i < idx. bz i = block_sizes s i) \<and> (\<forall>p. (\<forall>i \<ge> idx. p \<noteq> DescLock i) \<longrightarrow> v p = sema_value s p) \<and>
    agree_off (\<Union>i \<in> {idx..}. {HeadOf (FreeList i), TailOf (FreeList i), HeadOf (Waiters (DescLock i)),
       TailOf (Waiters (DescLock i))}) (links s) h"
  using assms
proof (induction n arbitrary: idx sz s)
  case 0
  then show ?case
    by (intro exI[of _ "links s"] exI[of _ "sema_value s"] exI[of _ "block_sizes s"]) (auto simp: ret_def agree_off_def)
next
  case (Suc n)
  let ?ends = "\<lambda>i. {HeadOf (FreeList i), TailOf (FreeList i), HeadOf (Waiters (DescLock i)), TailOf (Waiters (DescLock i))}"
  define h1 where "h1 = list_init (list_init (links s) (lst_of (FreeList idx))) (lst_of (Waiters (DescLock idx)))"
  define s1 where "s1 = s\<lparr>links := h1, sema_value := (sema_value s)(DescLock idx := 1),
    block_sizes := (block_sizes s)(idx := sz)\<rparr>"
  have d: "dlist h1 (lst_of (FreeList idx)) []" "dlist h1 (lst_of (Waiters (DescLock idx))) []"
      "agree_off (?ends idx) (links s) h1"
    by (auto simp: h1_def dlist_def list_init_def agree_off_def)
  have "block_desc_init_from idx (Suc n) sz s = block_desc_init_from (Suc idx) n (sz * 2) s1"
    by (simp add: k_list_init_def sema_init_eq[of 1] h1_def s1_def)
  moreover have "sz * 2 = of_nat (bsize (Suc idx))" using Suc.prems(2) by (simp add: bsize_def)
  moreover have "cur_ok s1" using Suc.prems(1) by (simp add: s1_def cur_ok_def)
  ultimately obtain h v bz where r: "block_desc_init_from idx (Suc n) sz s =
        Ret () (s1\<lparr>links := h, sema_value := v, block_sizes := bz\<rparr>)"
      "\<forall>i. Suc idx \<le> i \<and> i < Suc idx + n \<longrightarrow> bz i = of_nat (bsize i) \<and> v (DescLock i) = 1 \<and>
         dlist h (lst_of (FreeList i)) [] \<and> dlist h (lst_of (Waiters (DescLock i))) []"
      "\<forall>i < Suc idx. bz i = block_sizes s1 i" "\<forall>p. (\<forall>i \<ge> Suc idx. p \<noteq> DescLock i) \<longrightarrow> v p = sema_value s1 p"
      "agree_off (\<Union>i \<in> {Suc idx..}. ?ends i) h1 h"
    using Suc.IH[of s1 "sz * 2" "Suc idx"] by (auto simp: s1_def)
  have keep: "h e = h1 e" if "e \<in> ?ends idx" for e using agree_offD[OF r(5), of e] that by auto
  have "dlist h (lst_of (FreeList idx)) []" "dlist h (lst_of (Waiters (DescLock idx))) []"
    using d(1,2) keep by (simp_all add: dlist_def)
  then have "bz i = of_nat (bsize i) \<and> v (DescLock i) = 1 \<and>
         dlist h (lst_of (FreeList i)) [] \<and> dlist h (lst_of (Waiters (DescLock i))) []"
    if "idx \<le> i" "i < idx + Suc n" for i
    using r(2-4) that Suc.prems(2) by (cases "i = idx") (auto simp: s1_def)
  moreover have "agree_off (\<Union>i \<in> {idx..}. ?ends i) (links s) h"
  proof (rule agree_off_mono[OF agree_off_trans[OF d(3) r(5)]])
    have "{idx..} = insert idx {Suc idx..}" by auto
    then show "?ends idx \<union> (\<Union>i \<in> {Suc idx..}. ?ends i) \<subseteq> (\<Union>i \<in> {idx..}. ?ends i)" by blast
  qed
  ultimately show ?case
    using r(1,3,4) by (intro exI[of _ h] exI[of _ v] exI[of _ bz]) (auto simp: s1_def)
qed

lemma block_desc_init_ok:
  assumes pool: "pool_ok KernelPool s" "aligned (mp_start (kernel_mem_pool s))"
  shows "\<exists>s'. block_desc_init s = Ret () s' \<and> heap_rep s' (\<lambda>_. {}) \<and> pool_ok KernelPool s' \<and>
    pages KernelPool s' = pages KernelPool s \<and> page_units KernelPool s' = page_units KernelPool s"
proof -
  have cur: "cur_ok s" using pool(1) by (simp add: pool_ok_def sema_free_def)
  have "(16 :: u64) = of_nat (bsize 0)" by (simp add: bsize_def)
  then obtain h v bz where r: "block_desc_init s = Ret () (s\<lparr>links := h, sema_value := v, block_sizes := bz\<rparr>)"
      "\<forall>i < 7. bz i = of_nat (bsize i) \<and> v (DescLock i) = 1 \<and>
         dlist h (lst_of (FreeList i)) [] \<and> dlist h (lst_of (Waiters (DescLock i))) []"
      "\<forall>p. (\<forall>i. p \<noteq> DescLock i) \<longrightarrow> v p = sema_value s p"
      "agree_off (\<Union>i \<in> {0..}. {HeadOf (FreeList i), TailOf (FreeList i), HeadOf (Waiters (DescLock i)),
         TailOf (Waiters (DescLock i))}) (links s) h"
    using block_desc_init_from_ok[OF cur, of 16 0 7] by (auto simp: block_desc_init_def DESC_CNT_def)
  let ?s = "s\<lparr>links := h, sema_value := v, block_sizes := bz\<rparr>"
  have locks: "\<forall>i < 7. sema_free (DescLock i) ?s"
    using r(2) cur by (simp add: sema_free_def lock_free_def cur_ok_def tq_def)
  have "dlist h (lst_of (Waiters KernelPoolLock)) []"
    using pool(1) agree_offD[OF r(4), of "HeadOf (Waiters KernelPoolLock)"]
      agree_offD[OF r(4), of "TailOf (Waiters KernelPoolLock)"]
    by (simp add: pool_ok_def sema_free_def lock_free_def tq_def dlist_def)
  then have pool': "pool_ok KernelPool ?s"
    using pool(1) r(3) by (simp add: pool_ok_def sema_free_def lock_free_def cur_ok_def tq_def)
  have "heap_rep ?s (\<lambda>_. {})"
    using heap_ok_initial[OF pool' _ locks] pool(2) r(2) by (simp add: nq_def)
  then show ?thesis using r(1) pool' by (auto simp: pages_def page_units_def)
qed

section \<open>Properties\<close>

text \<open>The bytes of a block.\<close>

definition block_bytes :: "nat \<Rightarrow> u64 \<Rightarrow> nat set" where
  "block_bytes i b = {unat b..<unat b + bsize i}"

lemma block_bytes_page:
  assumes "aligned a" "k < bpa i"
  shows "block_bytes i (block_addr i a k) = {unat a + (16 + bsize i * k)..<unat a + (16 + bsize i * Suc k)}"
    "block_bytes i (block_addr i a k) \<subseteq> {unat a + 16..<unat a + 4096}"
proof -
  obtain q where q: "unat a = 4096 * q" using assms(1) unfolding aligned_unat by (elim dvdE)
  have "unat a < 2 ^ 64" using unsigned_less[of a] by simp
  then have "unat a + 4096 \<le> 2 ^ 64" using q by simp
  then have u: "unat (block_addr i a k) = unat a + (16 + bsize i * k)"
    using unat_block_offset[OF assms(2)] block_offset[OF assms(2)]
    unfolding block_addr_def unat_word_ariths by simp
  show "block_bytes i (block_addr i a k) = {unat a + (16 + bsize i * k)..<unat a + (16 + bsize i * Suc k)}"
    unfolding block_bytes_def u by (simp add: algebra_simps)
  show "block_bytes i (block_addr i a k) \<subseteq> {unat a + 16..<unat a + 4096}"
    using block_fits[OF assms(2)] unfolding block_bytes_def u by auto
qed

lemma block_bytes_disjoint:
  assumes "aligned a" "k < bpa i" "aligned a'" "k' < bpa j" "a = a' \<longrightarrow> i = j \<and> k \<noteq> k'"
  shows "block_bytes i (block_addr i a k) \<inter> block_bytes j (block_addr j a' k') = {}"
proof (cases "a = a'")
  case True
  then have ij: "i = j" "k < k' \<or> k' < k" using assms(5) by auto
  have "bsize i * Suc m \<le> bsize i * n" if "m < n" for m n using that by (intro mult_le_mono) auto
  then show ?thesis
    using ij True block_bytes_page(1)[OF assms(1,2)] block_bytes_page(1)[OF assms(3,4)] by fastforce
next
  case False
  obtain q q' where q: "unat a = 4096 * q" "unat a' = 4096 * q'" using assms(1,3) unfolding aligned_unat by (elim dvdE)
  then have "q \<noteq> q'" using False by (metis word_unat_eq_iff)
  then have "unat a + 4096 \<le> unat a' \<or> unat a' + 4096 \<le> unat a" using q by linarith
  then show ?thesis
    using block_bytes_page(2)[OF assms(1,2)] block_bytes_page(2)[OF assms(3,4)] by fastforce
qed

lemma heap_rep_blocks:
  assumes "heap_rep s M" "b \<in> M i"
  shows "\<exists>a k. b = block_addr i a k \<and> aligned a \<and> k < bpa i \<and> i < 7 \<and> a \<in> pages KernelPool s \<and>
    a_desc (arenas s a) = i"
proof -
  obtain fl ar where ok: "heap_ok s fl ar" "\<forall>i. M i = (if i < 7 then live_blocks i (fl i) (ar i) else {})"
    using assms(1) by (auto simp: heap_rep_def)
  then have i: "i < 7" "b \<in> live_blocks i (fl i) (ar i)" using assms(2) by (auto split: if_splits)
  then obtain a where a: "a \<in> ar i" "b \<in> blocks_in i a" by (auto simp: live_blocks_def)
  then obtain k where "b = block_addr i a k" "k < bpa i" by (auto simp: blocks_in_def)
  moreover have "class_ok s i (fl i) (ar i)" using ok(1) i(1) by (simp add: heap_ok_def)
  ultimately show ?thesis
    using i(1) a(1) by (intro exI[of _ a] exI[of _ k]) (auto simp: class_ok_def class_pre_def)
qed

lemma demo_heap_rep: "heap_rep demo_state (\<lambda>_. {})"
proof (rule heap_ok_initial[OF demo_pool_ok])
  show "aligned (mp_start (kernel_mem_pool demo_state))" by (simp add: demo_state_def aligned_def)
  show "\<forall>i < 7. block_sizes demo_state i = of_nat (bsize i)" by (simp add: demo_state_def bsize_def)
  show "\<forall>i < 7. nq FreeElem demo_state (FreeList i) []"
    by (simp add: nq_def demo_state_def dlist_def empty_links_def)
qed simp

lemma demo_pages_left: "pages KernelPool demo_state \<noteq> page_units KernelPool demo_state"
proof -
  have "card (pages KernelPool demo_state) \<le> 2"
    unfolding pages_def demo_pool_used by (simp add: card_insert_if)
  then show ?thesis using card_page_units[OF demo_pool_ok] demo_pool_len by auto
qed

text \<open>C3. \<^verbatim>\<open>kalloc\<close> and \<^verbatim>\<open>kfree\<close>. With a page left in the pool, \<^verbatim>\<open>kalloc\<close> of at most 1024 bytes returns a block
  that is not in use, of the smallest size class that holds the request; \<^verbatim>\<open>kfree\<close> of it succeeds and brings
  the allocator back to the blocks that were in use before. Neither touches anything but the free
  lists, the arena headers and the page pool.\<close>

theorem kalloc_kfree:
  assumes "heap_rep s M" "sz \<le> 1024" "pages KernelPool s \<noteq> page_units KernelPool s"
  shows "\<exists>b i s' s''. kalloc sz s = Ret b s' \<and> (\<forall>j. b \<notin> M j) \<and> unat sz \<le> bsize i \<and>
    (\<forall>j < i. bsize j < unat sz) \<and> heap_rep s' (M(i := insert b (M i))) \<and>
    kfree b s' = Ret () s'' \<and> heap_rep s'' M \<and>
    (\<exists>h m r. s'' = heap_upd h m r s \<and> agree_off heap_elems (links s) h)"
proof -
  let ?i = "class_of_size sz"
  obtain b s' where b: "kalloc sz s = Ret b s'" "\<forall>j. b \<notin> M j" "heap_rep s' (M(?i := insert b (M ?i)))"
      "\<exists>h m r. s' = heap_upd h m r s \<and> agree_off heap_elems (links s) h"
    using heap_get[OF assms] by blast
  obtain s'' where s'': "kfree b s' = Ret () s''"
      "heap_rep s'' ((M(?i := insert b (M ?i)))(?i := insert b (M ?i) - {b}))"
      "\<exists>h m r. s'' = heap_upd h m r s' \<and> agree_off heap_elems (links s') h"
    using heap_put[OF b(3), of b ?i] by auto
  have "(M(?i := insert b (M ?i)))(?i := insert b (M ?i) - {b}) = M" using b(2) by (auto simp: fun_eq_iff)
  moreover have "\<exists>h m r. s'' = heap_upd h m r s \<and> agree_off heap_elems (links s) h"
    using b(4) s''(3) agree_off_trans by fastforce
  ultimately show ?thesis
    using b(1-3) s''(1,2) class_of_size_props[OF assms(2)]
    by (intro exI[of _ b] exI[of _ ?i] exI[of _ s'] exI[of _ s'']) auto
qed

theorem kalloc_kfree_witness:
  "\<exists>b s' s''. kalloc 100 demo_state = Ret b s' \<and> kfree b s' = Ret () s'' \<and> heap_rep s'' (\<lambda>_. {})"
  using kalloc_kfree[OF demo_heap_rep _ demo_pages_left, of 100] by auto



text \<open>\<^verbatim>\<open>block_desc_init\<close> sets up the seven size classes of 16 to 1024 bytes with no block in use.\<close>

theorem block_desc_init_empty:
  assumes "pool_ok KernelPool s" "aligned (mp_start (kernel_mem_pool s))"
  shows "\<exists>s'. block_desc_init s = Ret () s' \<and> heap_rep s' (\<lambda>_. {}) \<and> pages KernelPool s' = pages KernelPool s"
  using block_desc_init_ok[OF assms] by blast

theorem block_desc_init_empty_witness:
  "\<exists>s'. block_desc_init demo_state = Ret () s' \<and> heap_rep s' (\<lambda>_. {})"
  using block_desc_init_empty[OF demo_pool_ok] by (auto simp: demo_state_def aligned_def)

end
