(* ===== verification/IoQueue.thy ===== *)
theory IoQueue
  imports Arena
begin

text \<open>
  The bounded character queue of \<^verbatim>\<open>device/ioqueue.c\<close>, behind the keyboard and behind every pipe.

  A queue is a ring of \<^verbatim>\<open>bufsize\<close> bytes of which at most \<^verbatim>\<open>bufsize - 1\<close> are used, one sleeping consumer, one
  sleeping producer and a semaphore. \<open>contents\<close> is the abstract queue. A consumer that finds the queue
  empty sleeps inside \<^verbatim>\<open>ioq_wait\<close> with \<^verbatim>\<open>iosema\<close> held; \<open>ioq_getchar_resume\<close> is the rest of its call.
\<close>

section \<open>The code\<close>

definition bufsize :: nat where "bufsize = 2048"

record ioqueue =
  producer :: u64
  consumer :: u64
  ioq_buf :: "u8 list"
  head :: nat
  tail :: nat

record iostate = kstate +
  ioqs :: "u64 \<Rightarrow> ioqueue"

definition upd_ioq :: "u64 \<Rightarrow> (ioqueue \<Rightarrow> ioqueue) \<Rightarrow> ('z iostate_scheme, unit) kcall" where
  "upd_ioq q f = kput (\<lambda>s. s\<lparr>ioqs := (ioqs s)(q := f (ioqs s q))\<rparr>)"

definition get_ioq :: "u64 \<Rightarrow> ('z iostate_scheme, ioqueue) kcall" where
  "get_ioq q = kget (\<lambda>s. ioqs s q)"

definition ioqueue_init :: "u64 \<Rightarrow> ('z iostate_scheme, unit) kcall" where
  "ioqueue_init ioq =
     bnd (sema_init (IoSema ioq) 1) (\<lambda>_.
     bnd (upd_ioq ioq (\<lambda>q. q\<lparr>producer := 0, consumer := 0\<rparr>)) (\<lambda>_.
     upd_ioq ioq (\<lambda>q. q\<lparr>head := 0, tail := 0\<rparr>)))"

definition next_pos :: "nat \<Rightarrow> nat" where
  "next_pos pos = (pos + 1) mod bufsize"

definition ioq_full :: "u64 \<Rightarrow> ('z iostate_scheme, bool) kcall" where
  "ioq_full ioq =
     bnd get_intr_stat (\<lambda>stat.
     bnd (ASSERT (intr_off = stat)) (\<lambda>_.
     bnd (get_ioq ioq) (\<lambda>q.
     ret (next_pos (head q) = tail q))))"

definition ioq_empty :: "u64 \<Rightarrow> ('z iostate_scheme, bool) kcall" where
  "ioq_empty ioq =
     bnd get_intr_stat (\<lambda>stat.
     bnd (ASSERT (intr_off = stat)) (\<lambda>_.
     bnd (get_ioq ioq) (\<lambda>q.
     ret (head q = tail q))))"

text \<open>The two \<^verbatim>\<open>struct task_struct **waiter\<close> that \<^verbatim>\<open>ioq_wait\<close> and \<^verbatim>\<open>wakeup\<close> are called with.\<close>

datatype side = Producer | Consumer

fun waiter :: "side \<Rightarrow> ioqueue \<Rightarrow> u64" where
  "waiter Producer q = producer q"
| "waiter Consumer q = consumer q"

fun set_waiter :: "side \<Rightarrow> u64 \<Rightarrow> ioqueue \<Rightarrow> ioqueue" where
  "set_waiter Producer t q = q\<lparr>producer := t\<rparr>"
| "set_waiter Consumer t q = q\<lparr>consumer := t\<rparr>"

definition ioq_wait :: "u64 \<Rightarrow> side \<Rightarrow> ('z iostate_scheme, unit) kcall" where
  "ioq_wait ioq w =
     bnd (get_ioq ioq) (\<lambda>q.
     bnd (ASSERT (waiter w q = 0)) (\<lambda>_.
     bnd running_task (\<lambda>t.
     bnd (upd_ioq ioq (set_waiter w t)) (\<lambda>_.
     task_block TASK_BLOCKED))))"

definition wakeup :: "u64 \<Rightarrow> side \<Rightarrow> ('z iostate_scheme, unit) kcall" where
  "wakeup ioq w =
     bnd (get_ioq ioq) (\<lambda>q.
     bnd (ASSERT (waiter w q \<noteq> 0)) (\<lambda>_.
     bnd (task_unblock (waiter w q)) (\<lambda>_.
     upd_ioq ioq (set_waiter w 0))))"

text \<open>\<^verbatim>\<open>while (ioq_empty(ioq)) { sema_down; ioq_wait; sema_up }\<close>, and the same with \<^verbatim>\<open>ioq_full\<close>.\<close>

fun wait_while :: "nat \<Rightarrow> ('z iostate_scheme, bool) kcall \<Rightarrow> u64 \<Rightarrow> side \<Rightarrow> ('z iostate_scheme, unit) kcall" where
  "wait_while 0 test ioq w = fail Diverges"
| "wait_while (Suc n) test ioq w =
     bnd test (\<lambda>c.
     if c then bnd (sema_down (IoSema ioq)) (\<lambda>_.
               bnd (ioq_wait ioq w) (\<lambda>_.
               bnd (sema_up (IoSema ioq)) (\<lambda>_.
               wait_while n test ioq w)))
     else ret ())"

definition rd_buf :: "ioqueue \<Rightarrow> ('z iostate_scheme, u8) kcall" where
  "rd_buf q = (if tail q < length (ioq_buf q) then ret (ioq_buf q ! tail q) else fail OutOfBounds)"

definition wr_buf :: "u64 \<Rightarrow> u8 \<Rightarrow> ('z iostate_scheme, unit) kcall" where
  "wr_buf ioq byte =
     bnd (get_ioq ioq) (\<lambda>q.
     if head q < length (ioq_buf q) then upd_ioq ioq (\<lambda>q. q\<lparr>ioq_buf := (ioq_buf q)[head q := byte]\<rparr>)
     else fail OutOfBounds)"

text \<open>What follows the loop of \<^verbatim>\<open>ioq_getchar\<close> and of \<^verbatim>\<open>ioq_putchar\<close>.\<close>

definition take_byte :: "u64 \<Rightarrow> ('z iostate_scheme, u8) kcall" where
  "take_byte ioq =
     bnd (get_ioq ioq) (\<lambda>q.
     bnd (rd_buf q) (\<lambda>byte.
     bnd (upd_ioq ioq (\<lambda>q. q\<lparr>tail := next_pos (tail q)\<rparr>)) (\<lambda>_.
     bnd (get_ioq ioq) (\<lambda>q.
     bnd (if producer q \<noteq> 0 then wakeup ioq Producer else ret ()) (\<lambda>_.
     ret byte)))))"

definition put_byte :: "u64 \<Rightarrow> u8 \<Rightarrow> ('z iostate_scheme, unit) kcall" where
  "put_byte ioq byte =
     bnd (wr_buf ioq byte) (\<lambda>_.
     bnd (upd_ioq ioq (\<lambda>q. q\<lparr>head := next_pos (head q)\<rparr>)) (\<lambda>_.
     bnd (get_ioq ioq) (\<lambda>q.
     if consumer q \<noteq> 0 then wakeup ioq Consumer else ret ())))"

definition ioq_getchar :: "u64 \<Rightarrow> ('z iostate_scheme, u8) kcall" where
  "ioq_getchar ioq =
     bnd get_intr_stat (\<lambda>stat.
     bnd (ASSERT (intr_off = stat)) (\<lambda>_.
     bnd (wait_while 2 (ioq_empty ioq) ioq Consumer) (\<lambda>_.
     take_byte ioq)))"

definition ioq_putchar :: "u64 \<Rightarrow> u8 \<Rightarrow> ('z iostate_scheme, unit) kcall" where
  "ioq_putchar ioq byte =
     bnd get_intr_stat (\<lambda>stat.
     bnd (ASSERT (intr_off = stat)) (\<lambda>_.
     bnd (wait_while 2 (ioq_full ioq) ioq Producer) (\<lambda>_.
     put_byte ioq byte)))"

text \<open>The rest of a call that slept in \<^verbatim>\<open>task_block\<close>: that restores the interrupt state, which was off, then
  the semaphore is given back and the loop goes on.\<close>

definition ioq_getchar_resume :: "u64 \<Rightarrow> ('z iostate_scheme, u8) kcall" where
  "ioq_getchar_resume ioq =
     bnd (set_intr_stat intr_off) (\<lambda>_.
     bnd (sema_up (IoSema ioq)) (\<lambda>_.
     bnd (wait_while 2 (ioq_empty ioq) ioq Consumer) (\<lambda>_.
     take_byte ioq)))"

definition ioq_putchar_resume :: "u64 \<Rightarrow> u8 \<Rightarrow> ('z iostate_scheme, unit) kcall" where
  "ioq_putchar_resume ioq byte =
     bnd (set_intr_stat intr_off) (\<lambda>_.
     bnd (sema_up (IoSema ioq)) (\<lambda>_.
     bnd (wait_while 2 (ioq_full ioq) ioq Producer) (\<lambda>_.
     put_byte ioq byte)))"

definition ioq_length :: "ioqueue \<Rightarrow> nat" where
  "ioq_length q = (if tail q \<le> head q then head q - tail q else bufsize - (tail q - head q))"

lemmas ioq_state_defs [run_simps] = upd_ioq_def get_ioq_def

section \<open>The ring\<close>

definition ring_ok :: "ioqueue \<Rightarrow> bool" where
  "ring_ok q \<longleftrightarrow> length (ioq_buf q) = bufsize \<and> head q < bufsize \<and> tail q < bufsize"

text \<open>The bytes from \<^verbatim>\<open>tail\<close> up to \<^verbatim>\<open>head\<close>, round the ring.\<close>

definition contents :: "ioqueue \<Rightarrow> u8 list" where
  "contents q = map (\<lambda>k. ioq_buf q ! ((tail q + k) mod bufsize)) [0..<ioq_length q]"

lemma bufsize_pos [simp]: "0 < bufsize" by (simp add: bufsize_def)

lemma length_contents [simp]: "length (contents q) = ioq_length q"
  by (simp add: contents_def)

lemma head_pos: "ring_ok q \<Longrightarrow> head q = (tail q + ioq_length q) mod bufsize"
  by (auto simp: ring_ok_def ioq_length_def mod_if)

lemma ioq_length_less: "ring_ok q \<Longrightarrow> ioq_length q < bufsize"
  by (auto simp: ring_ok_def ioq_length_def)

lemma empty_iff: "ring_ok q \<Longrightarrow> head q = tail q \<longleftrightarrow> contents q = []"
  by (auto simp: contents_def ioq_length_def ring_ok_def)

lemma full_iff: "ring_ok q \<Longrightarrow> next_pos (head q) = tail q \<longleftrightarrow> length (contents q) = bufsize - 1"
  by (auto simp: ioq_length_def ring_ok_def next_pos_def mod_if bufsize_def)

lemma length_after_put:
  "ring_ok q \<Longrightarrow> next_pos (head q) \<noteq> tail q \<Longrightarrow>
   ioq_length (q\<lparr>ioq_buf := b, head := next_pos (head q)\<rparr>) = Suc (ioq_length q)"
  by (auto simp: ioq_length_def ring_ok_def next_pos_def mod_if bufsize_def split: if_splits)

lemma length_after_get:
  "ring_ok q \<Longrightarrow> head q \<noteq> tail q \<Longrightarrow>
   Suc (ioq_length (q\<lparr>tail := next_pos (tail q)\<rparr>)) = ioq_length q"
  by (auto simp: ioq_length_def ring_ok_def next_pos_def mod_if bufsize_def split: if_splits)

lemma ring_index_neq:
  assumes "ring_ok q" "k < ioq_length q"
  shows "(tail q + k) mod bufsize \<noteq> head q"
proof (cases "tail q + k < bufsize")
  case True
  then show ?thesis using assms by (auto simp: ring_ok_def ioq_length_def split: if_splits)
next
  case False
  moreover have "tail q + k - bufsize < bufsize"
    using assms ioq_length_less[OF assms(1)] unfolding ring_ok_def by linarith
  ultimately have "(tail q + k) mod bufsize = tail q + k - bufsize" by (simp add: le_mod_geq)
  then show ?thesis using False assms by (auto simp: ring_ok_def ioq_length_def split: if_splits)
qed

definition ring_put :: "ioqueue \<Rightarrow> u8 \<Rightarrow> ioqueue" where
  "ring_put q b = q\<lparr>ioq_buf := (ioq_buf q)[head q := b], head := next_pos (head q)\<rparr>"

definition ring_get :: "ioqueue \<Rightarrow> u8 \<times> ioqueue" where
  "ring_get q = (ioq_buf q ! tail q, q\<lparr>tail := next_pos (tail q)\<rparr>)"

lemma ring_put_contents:
  assumes "ring_ok q" "length (contents q) < bufsize - 1"
  shows "contents (ring_put q b) = contents q @ [b]" "ring_ok (ring_put q b)"
proof -
  have nf: "next_pos (head q) \<noteq> tail q" using full_iff[OF assms(1)] assms(2) by auto
  note len = length_after_put[OF assms(1) nf, of "(ioq_buf q)[head q := b]"]
  have "(ioq_buf q)[head q := b] ! ((tail q + k) mod bufsize) = ioq_buf q ! ((tail q + k) mod bufsize)"
    if "k < ioq_length q" for k using ring_index_neq[OF assms(1) that] by simp
  moreover have "(ioq_buf q)[head q := b] ! ((tail q + ioq_length q) mod bufsize) = b"
    using head_pos[OF assms(1)] assms(1) by (simp add: ring_ok_def)
  ultimately show "contents (ring_put q b) = contents q @ [b]"
    using len unfolding contents_def ring_put_def by (simp add: ioq_length_def)
  show "ring_ok (ring_put q b)" using assms(1) by (simp add: ring_ok_def ring_put_def next_pos_def)
qed

lemma ring_get_contents:
  assumes "ring_ok q" "contents q \<noteq> []"
  shows "fst (ring_get q) = hd (contents q)" "contents (snd (ring_get q)) = tl (contents q)"
    "ring_ok (snd (ring_get q))"
proof -
  have ne: "head q \<noteq> tail q" using empty_iff[OF assms(1)] assms(2) by simp
  note len = length_after_get[OF assms(1) ne]
  have t: "tail q < bufsize" using assms(1) by (simp add: ring_ok_def)
  show "fst (ring_get q) = hd (contents q)"
    using assms(2) t by (cases "ioq_length q") (simp_all add: ring_get_def contents_def hd_map upt_rec)
  show "contents (snd (ring_get q)) = tl (contents q)"
  proof (rule nth_equalityI)
    show "length (contents (snd (ring_get q))) = length (tl (contents q))"
      using len by (simp add: ring_get_def)
    fix k assume "k < length (contents (snd (ring_get q)))"
    then show "contents (snd (ring_get q)) ! k = tl (contents q) ! k"
      using len by (simp add: ring_get_def contents_def nth_tl next_pos_def mod_add_left_eq)
  qed
  show "ring_ok (snd (ring_get q))" using assms(1) by (simp add: ring_ok_def ring_get_def next_pos_def)
qed

section \<open>The contract of a bounded queue\<close>

fun put_all :: "('q \<Rightarrow> 'x \<Rightarrow> 'q) \<Rightarrow> 'q \<Rightarrow> 'x list \<Rightarrow> 'q" where
  "put_all put q [] = q"
| "put_all put q (x # xs) = put_all put (put q x) xs"

fun get_n :: "('q \<Rightarrow> 'x \<times> 'q) \<Rightarrow> nat \<Rightarrow> 'q \<Rightarrow> 'x list \<times> 'q" where
  "get_n get 0 q = ([], q)"
| "get_n get (Suc n) q = (let (x, q1) = get q; (xs, q2) = get_n get n q1 in (x # xs, q2))"

locale bounded_fifo =
  fixes inv :: "'q \<Rightarrow> bool"
    and items :: "'q \<Rightarrow> 'x list"
    and cap :: nat
    and put :: "'q \<Rightarrow> 'x \<Rightarrow> 'q"
    and get :: "'q \<Rightarrow> 'x \<times> 'q"
  assumes put_law: "inv q \<Longrightarrow> length (items q) < cap \<Longrightarrow> items (put q x) = items q @ [x] \<and> inv (put q x)"
    and get_law: "inv q \<Longrightarrow> items q \<noteq> [] \<Longrightarrow>
      fst (get q) = hd (items q) \<and> items (snd (get q)) = tl (items q) \<and> inv (snd (get q))"
begin

lemma put_all_law:
  "inv q \<Longrightarrow> length (items q) + length xs \<le> cap \<Longrightarrow>
   items (put_all put q xs) = items q @ xs \<and> inv (put_all put q xs)"
proof (induction xs arbitrary: q)
  case (Cons x xs)
  then show ?case using put_law[of q x] Cons.IH[of "put q x"] by simp
qed simp

lemma get_n_law:
  "inv q \<Longrightarrow> n \<le> length (items q) \<Longrightarrow>
   fst (get_n get n q) = take n (items q) \<and> items (snd (get_n get n q)) = drop n (items q) \<and>
   inv (snd (get_n get n q))"
proof (induction n arbitrary: q)
  case (Suc n)
  have ne: "items q \<noteq> []" using Suc.prems(2) by auto
  note g = get_law[OF Suc.prems(1) ne]
  have "n \<le> length (items (snd (get q)))" using g Suc.prems(2) by simp
  then have IH: "fst (get_n get n (snd (get q))) = take n (tl (items q))"
      "items (snd (get_n get n (snd (get q)))) = drop n (tl (items q))" "inv (snd (get_n get n (snd (get q))))"
    using Suc.IH[of "snd (get q)"] g by auto
  obtain y ys where "items q = y # ys" using ne by (cases "items q") auto
  then show ?case using IH g by (simp add: case_prod_beta Let_def)
qed simp

text \<open>First in, first out.\<close>

lemma fifo:
  assumes "inv q" "length (items q) + length xs \<le> cap" "items q = []"
  shows "fst (get_n get (length xs) (put_all put q xs)) = xs \<and>
    items (snd (get_n get (length xs) (put_all put q xs))) = []"
  using put_all_law[OF assms(1,2)] get_n_law[of "put_all put q xs" "length xs"] assms(3) by simp

end

interpretation ring: bounded_fifo ring_ok contents "bufsize - 1" ring_put ring_get
proof (unfold_locales, goal_cases)
  case (1 q x)
  then show ?case using ring_put_contents[of q x] by simp
next
  case (2 q)
  then show ?case using ring_get_contents[of q] by simp
qed

section \<open>Calls that do not wait\<close>

text \<open>A task that may be woken: blocked, and in no list.\<close>

definition sleeping :: "'z kstate_scheme \<Rightarrow> u64 list \<Rightarrow> (sema \<Rightarrow> u64 list) \<Rightarrow> u64 \<Rightarrow> bool" where
  "sleeping s rs ws t \<longleftrightarrow> t_status (tasks s t) = TASK_BLOCKED \<and> t \<notin> set rs \<and> aligned t \<and> (\<forall>p. t \<notin> set (ws p))"

definition set_ioq :: "u64 \<Rightarrow> ioqueue \<Rightarrow> 'z iostate_scheme \<Rightarrow> 'z iostate_scheme" where
  "set_ioq a q s = s\<lparr>ioqs := (ioqs s)(a := q)\<rparr>"

lemma set_ioq_simps [simp]:
  "ioqs (set_ioq a q s) = (ioqs s)(a := q)" "links (set_ioq a q s) = links s" "tasks (set_ioq a q s) = tasks s"
  "ist2 (set_ioq a q s) = ist2 s" "idle_task (set_ioq a q s) = idle_task s"
  "sema_value (set_ioq a q s) = sema_value s" "intr_flag (set_ioq a q s) = intr_flag s"
  "set_ioq a q (set_ioq a q' s) = set_ioq a q s" "run_ok (set_ioq a q s) cur rs ws = run_ok s cur rs ws"
  "set_ioq a q (s\<lparr>links := h\<rparr>) = (set_ioq a q s)\<lparr>links := h\<rparr>"
  by (simp_all add: set_ioq_def cong: run_ok_cong)

lemma run_ok_set_ioq_links [simp]:
  "run_ok ((set_ioq a q s)\<lparr>links := h\<rparr>) cur rs ws = run_ok (s\<lparr>links := h\<rparr>) cur rs ws"
  by (rule run_ok_cong) simp_all

definition waked :: "u64 \<Rightarrow> u64 list \<Rightarrow> u64 list" where
  "waked t rs = (if t = 0 then rs else t # rs)"

lemma wakeup_ok:
  assumes ok: "run_ok s cur rs ws" and t: "waiter w (ioqs s a) = t" "t \<noteq> 0" "sleeping s rs ws t"
  shows "\<exists>h. wakeup a w s = Ret () (set_ioq a (set_waiter w 0 (ioqs s a)) (s\<lparr>links := h\<rparr>)) \<and>
    run_ok (s\<lparr>links := h\<rparr>) cur (t # rs) ws"
proof -
  have st: "t \<notin> set rs" "aligned t" "\<forall>p. t \<notin> set (ws p)" "blockable (t_status (tasks s t))" "t \<noteq> cur"
    using t(3) run_okD(4)[OF ok] by (auto simp: sleeping_def blockable_def)
  obtain h where h: "task_unblock t s = Ret () (s\<lparr>links := h\<rparr>)" "tq (s\<lparr>links := h\<rparr>) ReadyTasks (t # rs)"
      "agree_off (tags ReadyTasks (t # rs)) (links s) h"
    using task_unblock_ok[OF sched_okD(5)[OF run_okD(1)[OF ok]] st(1,4)] by blast
  then show ?thesis
    using run_ok_push[OF ok st(1-3,5) h(2,3)] t(1,2)
    by (intro exI[of _ h]) (simp add: wakeup_def get_ioq_def upd_ioq_def kput_def set_ioq_def)
qed

lemma put_byte_ok:
  assumes ok: "run_ok s cur rs ws" and q: "ring_ok (ioqs s a)"
    and c: "consumer (ioqs s a) = 0 \<or> sleeping s rs ws (consumer (ioqs s a))"
  shows "\<exists>h. put_byte a b s = Ret () (set_ioq a ((ring_put (ioqs s a) b)\<lparr>consumer := 0\<rparr>) (s\<lparr>links := h\<rparr>)) \<and>
    run_ok (s\<lparr>links := h\<rparr>) cur (waked (consumer (ioqs s a)) rs) ws"
proof -
  let ?q = "ring_put (ioqs s a) b" and ?c = "consumer (ioqs s a)"
  have cons: "consumer ?q = ?c" by (simp add: ring_put_def)
  have "put_byte a b s = bnd (get_ioq a) (\<lambda>q. if consumer q \<noteq> 0 then wakeup a Consumer else ret ()) (set_ioq a ?q s)"
    using q by (simp add: put_byte_def wr_buf_def bnd_assoc get_ioq_def upd_ioq_def ring_ok_def set_ioq_def ring_put_def)
  then have eq: "put_byte a b s = (if ?c \<noteq> 0 then wakeup a Consumer else ret ()) (set_ioq a ?q s)"
    using cons by (simp add: get_ioq_def)
  show ?thesis
  proof (cases "?c = 0")
    case True
    then have "?q\<lparr>consumer := 0\<rparr> = ?q" using cons by (cases ?q) auto
    then show ?thesis
      using True eq ok by (intro exI[of _ "links s"]) (simp add: ret_def waked_def)
  next
    case False
    have "run_ok (set_ioq a ?q s) cur rs ws" "waiter Consumer (ioqs (set_ioq a ?q s) a) = ?c"
        "sleeping (set_ioq a ?q s) rs ws ?c"
      using ok cons c False by (simp_all add: sleeping_def)
    from wakeup_ok[OF this(1,2) False this(3)] obtain h where
        "wakeup a Consumer (set_ioq a ?q s) = Ret () (set_ioq a (?q\<lparr>consumer := 0\<rparr>) (set_ioq a ?q s\<lparr>links := h\<rparr>))"
        "run_ok (set_ioq a ?q s\<lparr>links := h\<rparr>) cur (?c # rs) ws"
      by auto
    moreover have "set_ioq a ?q s\<lparr>links := h\<rparr> = set_ioq a ?q (s\<lparr>links := h\<rparr>)" by simp
    ultimately show ?thesis
      using False eq by (intro exI[of _ h]) (simp add: waked_def del: set_ioq_simps(10))
  qed
qed

lemma take_byte_ok:
  assumes ok: "run_ok s cur rs ws" and q: "ring_ok (ioqs s a)"
    and c: "producer (ioqs s a) = 0 \<or> sleeping s rs ws (producer (ioqs s a))"
  shows "\<exists>h. take_byte a s = Ret (fst (ring_get (ioqs s a)))
      (set_ioq a ((snd (ring_get (ioqs s a)))\<lparr>producer := 0\<rparr>) (s\<lparr>links := h\<rparr>)) \<and>
    run_ok (s\<lparr>links := h\<rparr>) cur (waked (producer (ioqs s a)) rs) ws"
proof -
  let ?q = "snd (ring_get (ioqs s a))" and ?c = "producer (ioqs s a)" and ?b = "fst (ring_get (ioqs s a))"
  have cons: "producer ?q = ?c" by (simp add: ring_get_def)
  have "take_byte a s = bnd (get_ioq a) (\<lambda>q. bnd (if producer q \<noteq> 0 then wakeup a Producer else ret ())
      (\<lambda>_. ret ?b)) (set_ioq a ?q s)"
    using q by (simp add: take_byte_def rd_buf_def get_ioq_def upd_ioq_def ring_ok_def set_ioq_def ring_get_def)
  then have eq: "take_byte a s = bnd (if ?c \<noteq> 0 then wakeup a Producer else ret ()) (\<lambda>_. ret ?b) (set_ioq a ?q s)"
    using cons by (simp add: get_ioq_def)
  show ?thesis
  proof (cases "?c = 0")
    case True
    then have "?q\<lparr>producer := 0\<rparr> = ?q" using cons by (cases ?q) auto
    then show ?thesis
      using True eq ok by (intro exI[of _ "links s"]) (simp add: ret_def waked_def)
  next
    case False
    have "run_ok (set_ioq a ?q s) cur rs ws" "waiter Producer (ioqs (set_ioq a ?q s) a) = ?c"
        "sleeping (set_ioq a ?q s) rs ws ?c"
      using ok cons c False by (simp_all add: sleeping_def)
    from wakeup_ok[OF this(1,2) False this(3)] obtain h where
        "wakeup a Producer (set_ioq a ?q s) = Ret () (set_ioq a (?q\<lparr>producer := 0\<rparr>) (set_ioq a ?q s\<lparr>links := h\<rparr>))"
        "run_ok (set_ioq a ?q s\<lparr>links := h\<rparr>) cur (?c # rs) ws"
      by auto
    moreover have "set_ioq a ?q s\<lparr>links := h\<rparr> = set_ioq a ?q (s\<lparr>links := h\<rparr>)" by simp
    ultimately show ?thesis
      using False eq by (intro exI[of _ h]) (simp add: waked_def ret_def del: set_ioq_simps(10))
  qed
qed

lemma ioq_tests:
  assumes "intr_flag s = intr_off" "ring_ok (ioqs s a)"
  shows "ioq_empty a s = Ret (contents (ioqs s a) = []) s"
    "ioq_full a s = Ret (length (contents (ioqs s a)) = bufsize - 1) s"
  using assms empty_iff[OF assms(2)] full_iff[OF assms(2)]
  by (simp_all add: ioq_empty_def ioq_full_def get_intr_stat_def get_ioq_def ret_def)

lemma wait_while_false: "test s = Ret False s \<Longrightarrow> wait_while (Suc n) test a w s = Ret () s"
  by (simp add: bnd_def ret_def)

lemma ioq_putchar_ok:
  assumes "run_ok s cur rs ws" "intr_flag s = intr_off" "ring_ok (ioqs s a)"
    and "length (contents (ioqs s a)) < bufsize - 1"
    and "consumer (ioqs s a) = 0 \<or> sleeping s rs ws (consumer (ioqs s a))"
  shows "\<exists>h. ioq_putchar a b s = Ret () (set_ioq a ((ring_put (ioqs s a) b)\<lparr>consumer := 0\<rparr>) (s\<lparr>links := h\<rparr>)) \<and>
    run_ok (s\<lparr>links := h\<rparr>) cur (waked (consumer (ioqs s a)) rs) ws"
proof -
  have "ioq_full a s = Ret False s" using ioq_tests(2)[OF assms(2,3)] assms(4) by simp
  then have "ioq_putchar a b s = put_byte a b s"
    using assms(2) wait_while_false[of "ioq_full a" s 1 a Producer]
    by (simp add: ioq_putchar_def get_intr_stat_def numeral_2_eq_2)
  then show ?thesis using put_byte_ok[OF assms(1,3,5)] by simp
qed

lemma ioq_getchar_ok:
  assumes "run_ok s cur rs ws" "intr_flag s = intr_off" "ring_ok (ioqs s a)" "contents (ioqs s a) \<noteq> []"
    and "producer (ioqs s a) = 0 \<or> sleeping s rs ws (producer (ioqs s a))"
  shows "\<exists>h. ioq_getchar a s = Ret (hd (contents (ioqs s a)))
      (set_ioq a ((snd (ring_get (ioqs s a)))\<lparr>producer := 0\<rparr>) (s\<lparr>links := h\<rparr>)) \<and>
    run_ok (s\<lparr>links := h\<rparr>) cur (waked (producer (ioqs s a)) rs) ws"
proof -
  have "ioq_empty a s = Ret False s" using ioq_tests(1)[OF assms(2,3)] assms(4) by simp
  then have "ioq_getchar a s = take_byte a s"
    using assms(2) wait_while_false[of "ioq_empty a" s 1 a Consumer]
    by (simp add: ioq_getchar_def get_intr_stat_def numeral_2_eq_2)
  then show ?thesis using take_byte_ok[OF assms(1,3,5)] ring_get_contents(1)[OF assms(3,4)] by simp
qed

section \<open>Calls that wait\<close>

text \<open>Who finds that it has to wait takes the semaphore, leaves its address in \<^verbatim>\<open>consumer\<close> or \<^verbatim>\<open>producer\<close> and sleeps.\<close>

lemma wait_while_sleeps:
  fixes s :: "'z iostate_scheme"
  assumes ok: "run_ok s cur rs ws" and t: "test s = Ret True s" and l: "lock_free s (IoSema a)" and c: "waiter w (ioqs s a) = 0"
    and idle: "cur \<noteq> idle_task s" and nxt: "candidates s rs = nxt # qs"
  shows "\<exists>s'. (\<forall>k :: unit \<Rightarrow> ('z iostate_scheme, 'r) kcall. bnd (wait_while 2 test a w) k s = Sleep s') \<and> run_ok s' nxt qs ws \<and>
    ioqs s' = (ioqs s)(a := set_waiter w cur (ioqs s a)) \<and>
    sema_value s' = (sema_value s)(IoSema a := 0) \<and> t_status (tasks s' cur) = TASK_BLOCKED \<and>
    intr_flag s' = intr_off"
proof -
  define s1 where "s1 = set_ioq a (set_waiter w cur (ioqs s a)) (locked (IoSema a) s)"
  have cur: "running_task t = Ret cur t" if "ist2 t = ist2 s" for t :: "'z iostate_scheme"
    using sched_okD(1,2)[OF run_okD(1)[OF ok]] that by (intro running_task_eq) simp_all
  have "cur_ok s" using sched_okD(1,2)[OF run_okD(1)[OF ok]] by (simp add: cur_ok_def)
  then have down: "sema_down (IoSema a) s = Ret () (locked (IoSema a) s)" using sema_down_free[OF l] by simp
  have "ioqs (locked (IoSema a) s) = ioqs s" by (simp add: locked_def)
  then have "bnd (wait_while 2 test a w) k s = bnd (task_block TASK_BLOCKED) (\<lambda>_. bnd (sema_up (IoSema a)) (\<lambda>_.
      bnd (wait_while 1 test a w) k)) s1" for k :: "unit \<Rightarrow> ('z iostate_scheme, 'r) kcall"
    using t down c cur[of "locked (IoSema a) s"]
    by (simp add: numeral_2_eq_2 bnd_assoc ioq_wait_def get_ioq_def upd_ioq_def s1_def set_ioq_def)
  moreover have "run_ok s1 cur rs ws" using ok by (simp add: s1_def locked_def)
  then have "sched_ok (leaving s1 cur TASK_BLOCKED) cur rs ws" by (rule sched_ok_leaving) (simp add: blockable_def)
  moreover have "candidates s1 rs = nxt # qs" using nxt by (auto simp: candidates_def s1_def locked_def split: if_splits)
  moreover have "cur \<noteq> nxt" using nxt ok idle by (auto simp: candidates_def run_ok_def split: if_splits)
  ultimately obtain h where "\<forall>k :: unit \<Rightarrow> ('z iostate_scheme, 'r) kcall.
        bnd (wait_while 2 test a w) k s = Sleep (dispatched (leaving s1 cur TASK_BLOCKED) cur nxt h)"
      "run_ok (dispatched (leaving s1 cur TASK_BLOCKED) cur nxt h) nxt qs ws"
    using task_block_ok[of TASK_BLOCKED s1 cur rs ws nxt qs] by (auto simp: blockable_def)
  moreover have "ioqs (dispatched (leaving s1 cur TASK_BLOCKED) cur nxt h) = ioqs s1"
    by (simp add: dispatched_def leaving_def Let_def)
  ultimately show ?thesis
    using \<open>cur \<noteq> nxt\<close> by (intro exI[of _ "dispatched (leaving s1 cur TASK_BLOCKED) cur nxt h"]) (simp add: s1_def locked_def)
qed

lemma ioq_getchar_sleeps:
  assumes ok: "run_ok s cur rs ws" and i: "intr_flag s = intr_off" and q: "ring_ok (ioqs s a)"
    and e: "contents (ioqs s a) = []" and l: "lock_free s (IoSema a)" and c: "consumer (ioqs s a) = 0"
    and idle: "cur \<noteq> idle_task s" and nxt: "candidates s rs = nxt # qs"
  shows "\<exists>s'. ioq_getchar a s = Sleep s' \<and> run_ok s' nxt qs ws \<and>
    ioqs s' = (ioqs s)(a := (ioqs s a)\<lparr>consumer := cur\<rparr>) \<and>
    sema_value s' = (sema_value s)(IoSema a := 0) \<and> t_status (tasks s' cur) = TASK_BLOCKED \<and>
    intr_flag s' = intr_off"
proof -
  have "ioq_empty a s = Ret True s" using ioq_tests(1)[OF i q] e by simp
  from wait_while_sleeps[where w = Consumer and test = "ioq_empty a", OF ok this l _ idle nxt] show ?thesis
    using i c by (simp add: ioq_getchar_def get_intr_stat_def) blast
qed

lemma ioq_putchar_sleeps:
  assumes ok: "run_ok s cur rs ws" and i: "intr_flag s = intr_off" and q: "ring_ok (ioqs s a)"
    and e: "length (contents (ioqs s a)) = bufsize - 1" and l: "lock_free s (IoSema a)" and c: "producer (ioqs s a) = 0"
    and idle: "cur \<noteq> idle_task s" and nxt: "candidates s rs = nxt # qs"
  shows "\<exists>s'. ioq_putchar a b s = Sleep s' \<and> run_ok s' nxt qs ws \<and>
    ioqs s' = (ioqs s)(a := (ioqs s a)\<lparr>producer := cur\<rparr>) \<and>
    sema_value s' = (sema_value s)(IoSema a := 0) \<and> t_status (tasks s' cur) = TASK_BLOCKED \<and>
    intr_flag s' = intr_off"
proof -
  have "ioq_full a s = Ret True s" using ioq_tests(2)[OF i q] e by simp
  from wait_while_sleeps[where w = Producer and test = "ioq_full a", OF ok this l _ idle nxt] show ?thesis
    using i c by (simp add: ioq_putchar_def get_intr_stat_def) blast
qed

text \<open>When it is dispatched again and the queue has a byte, the call gives back the semaphore and returns the
  first byte.\<close>

lemma ioq_getchar_resumes:
  assumes ok: "run_ok s cur rs ws" and q: "ring_ok (ioqs s a)" and e: "contents (ioqs s a) \<noteq> []"
    and l: "sema_value s (IoSema a) = 0" "ws (IoSema a) = []"
    and p: "producer (ioqs s a) = 0 \<or> sleeping s rs ws (producer (ioqs s a))"
  shows "\<exists>s'. ioq_getchar_resume a s = Ret (hd (contents (ioqs s a))) s' \<and>
    run_ok s' cur (waked (producer (ioqs s a)) rs) ws \<and>
    contents (ioqs s' a) = tl (contents (ioqs s a)) \<and> sema_value s' (IoSema a) = 1"
proof -
  define s1 where "s1 = unlocked (IoSema a) (s\<lparr>intr_flag := intr_off\<rparr>)"
  have "tq (s\<lparr>intr_flag := intr_off\<rparr>) (Waiters (IoSema a)) []"
    using sched_okD(6)[OF run_okD(1)[OF ok], of "IoSema a"] l(2) by (simp add: tq_def)
  then have up: "sema_up (IoSema a) (s\<lparr>intr_flag := intr_off\<rparr>) = Ret () s1"
    using sema_up_free[of "s\<lparr>intr_flag := intr_off\<rparr>" "IoSema a"] l(1) by (simp add: s1_def)
  have ioq: "ioqs s1 = ioqs s" by (simp add: s1_def unlocked_def)
  have "intr_flag s1 = intr_off" by (simp add: s1_def unlocked_def)
  then have "ioq_empty a s1 = Ret False s1" using ioq_tests(1)[of s1 a] q e ioq by simp
  then have eq: "ioq_getchar_resume a s = take_byte a s1"
    using up wait_while_false[of "ioq_empty a" s1 1 a Consumer] by (simp add: ioq_getchar_resume_def numeral_2_eq_2)
  have "run_ok s1 cur rs ws" using ok by (simp add: s1_def unlocked_def)
  moreover have "ring_ok (ioqs s1 a)" "producer (ioqs s1 a) = 0 \<or> sleeping s1 rs ws (producer (ioqs s1 a))"
    using q p ioq by (simp_all add: sleeping_def s1_def unlocked_def)
  ultimately obtain h where h: "take_byte a s1 = Ret (fst (ring_get (ioqs s1 a)))
      (set_ioq a ((snd (ring_get (ioqs s1 a)))\<lparr>producer := 0\<rparr>) (s1\<lparr>links := h\<rparr>))"
      "run_ok (s1\<lparr>links := h\<rparr>) cur (waked (producer (ioqs s1 a)) rs) ws"
    using take_byte_ok by blast
  have "contents (q'\<lparr>producer := 0\<rparr>) = contents q'" for q' by (simp add: contents_def ioq_length_def)
  then show ?thesis
    using eq h ioq ring_get_contents[OF q e]
    by (intro exI[of _ "set_ioq a ((snd (ring_get (ioqs s1 a)))\<lparr>producer := 0\<rparr>) (s1\<lparr>links := h\<rparr>)"])
      (simp add: s1_def unlocked_def)
qed

section \<open>Properties\<close>

text \<open>Several bytes in, several bytes out.\<close>

fun put_chars :: "u64 \<Rightarrow> u8 list \<Rightarrow> ('z iostate_scheme, unit) kcall" where
  "put_chars a [] = ret ()"
| "put_chars a (b # bs) = bnd (ioq_putchar a b) (\<lambda>_. put_chars a bs)"

fun get_chars :: "u64 \<Rightarrow> nat \<Rightarrow> ('z iostate_scheme, u8 list) kcall" where
  "get_chars a 0 = ret []"
| "get_chars a (Suc n) = bnd (ioq_getchar a) (\<lambda>b. bnd (get_chars a n) (\<lambda>bs. ret (b # bs)))"

definition quiet :: "'z iostate_scheme \<Rightarrow> u64 \<Rightarrow> u64 \<Rightarrow> u64 list \<Rightarrow> (sema \<Rightarrow> u64 list) \<Rightarrow> bool" where
  "quiet s a cur rs ws \<longleftrightarrow> run_ok s cur rs ws \<and> intr_flag s = intr_off \<and> ring_ok (ioqs s a) \<and>
     producer (ioqs s a) = 0 \<and> consumer (ioqs s a) = 0"

lemma contents_waiter [simp]:
  "contents (q\<lparr>producer := t\<rparr>) = contents q" "contents (q\<lparr>consumer := t\<rparr>) = contents q"
  "ring_ok (q\<lparr>producer := t\<rparr>) = ring_ok q" "ring_ok (q\<lparr>consumer := t\<rparr>) = ring_ok q"
  by (simp_all add: contents_def ioq_length_def ring_ok_def)

lemma put_producer: "producer (ring_put q b) = producer q"
  by (simp add: ring_put_def)

lemma ioq_putchar_quiet:
  assumes "quiet s a cur rs ws" "length (contents (ioqs s a)) < bufsize - 1"
  shows "\<exists>q h. ioq_putchar a b s = Ret () (set_ioq a q (s\<lparr>links := h\<rparr>)) \<and> quiet (set_ioq a q (s\<lparr>links := h\<rparr>)) a cur rs ws \<and>
    contents q = contents (ioqs s a) @ [b]"
proof -
  note q = assms(1)[unfolded quiet_def]
  obtain h where h: "ioq_putchar a b s = Ret () (set_ioq a ((ring_put (ioqs s a) b)\<lparr>consumer := 0\<rparr>) (s\<lparr>links := h\<rparr>))"
      "run_ok (s\<lparr>links := h\<rparr>) cur rs ws"
    using ioq_putchar_ok[of s cur rs ws a b] q assms(2) by (auto simp: waked_def)
  let ?q = "(ring_put (ioqs s a) b)\<lparr>consumer := 0\<rparr>"
  have "producer (ring_put (ioqs s a) b) = 0" using q by (simp add: ring_put_def)
  then have "quiet (set_ioq a ?q (s\<lparr>links := h\<rparr>)) a cur rs ws" "contents ?q = contents (ioqs s a) @ [b]"
    using q h(2) ring_put_contents[OF _ assms(2), of b] by (simp_all add: quiet_def)
  then show ?thesis using h(1) by blast
qed

lemma ioq_getchar_quiet:
  assumes "quiet s a cur rs ws" "contents (ioqs s a) = b # bs"
  shows "\<exists>q h. ioq_getchar a s = Ret b (set_ioq a q (s\<lparr>links := h\<rparr>)) \<and> quiet (set_ioq a q (s\<lparr>links := h\<rparr>)) a cur rs ws \<and> contents q = bs"
proof -
  note q = assms(1)[unfolded quiet_def]
  have ne: "contents (ioqs s a) \<noteq> []" using assms(2) by simp
  obtain h where h: "ioq_getchar a s = Ret b (set_ioq a ((snd (ring_get (ioqs s a)))\<lparr>producer := 0\<rparr>) (s\<lparr>links := h\<rparr>))"
      "run_ok (s\<lparr>links := h\<rparr>) cur rs ws"
    using ioq_getchar_ok[of s cur rs ws a] q assms(2) by (auto simp: waked_def)
  let ?q = "(snd (ring_get (ioqs s a)))\<lparr>producer := 0\<rparr>"
  have "consumer (snd (ring_get (ioqs s a))) = 0" using q by (simp add: ring_get_def)
  then have "quiet (set_ioq a ?q (s\<lparr>links := h\<rparr>)) a cur rs ws" "contents ?q = bs"
    using q h(2) ring_get_contents[OF _ ne] assms(2) by (simp_all add: quiet_def)
  then show ?thesis using h(1) by blast
qed

text \<open>Such calls change the queue and the links only.\<close>

lemma set_ioq_again [simp]: "set_ioq a q ((set_ioq a q' (s\<lparr>links := h'\<rparr>))\<lparr>links := h\<rparr>) = set_ioq a q (s\<lparr>links := h\<rparr>)"
  by (simp add: set_ioq_def)

lemma quiet_same: "quiet s a cur rs ws \<Longrightarrow> s = set_ioq a (ioqs s a) (s\<lparr>links := links s\<rparr>)"
  by (simp add: set_ioq_def)

lemma put_chars_quiet:
  assumes "quiet s a cur rs ws" "length (contents (ioqs s a)) + length bs \<le> bufsize - 1"
  shows "\<exists>q h. put_chars a bs s = Ret () (set_ioq a q (s\<lparr>links := h\<rparr>)) \<and> quiet (set_ioq a q (s\<lparr>links := h\<rparr>)) a cur rs ws \<and>
    contents q = contents (ioqs s a) @ bs"
  using assms
proof (induction bs arbitrary: s)
  case Nil
  then show ?case using quiet_same[OF Nil(1)] by (intro exI[of _ "ioqs s a"] exI[of _ "links s"]) (simp add: ret_def)
next
  case (Cons b bs)
  obtain q h where s1: "ioq_putchar a b s = Ret () (set_ioq a q (s\<lparr>links := h\<rparr>))" "quiet (set_ioq a q (s\<lparr>links := h\<rparr>)) a cur rs ws"
      "contents q = contents (ioqs s a) @ [b]"
    using ioq_putchar_quiet[OF Cons.prems(1), of b] Cons.prems(2) by auto
  have "length (contents q) + length bs \<le> bufsize - 1" unfolding s1(3) using Cons.prems(2) by simp
  then obtain q' h' where "put_chars a bs (set_ioq a q (s\<lparr>links := h\<rparr>)) = Ret () (set_ioq a q' (s\<lparr>links := h'\<rparr>))"
      "quiet (set_ioq a q' (s\<lparr>links := h'\<rparr>)) a cur rs ws" "contents q' = contents q @ bs"
    using Cons.IH[OF s1(2)] by (auto simp del: set_ioq_simps(10))
  then show ?case using s1 by (intro exI[of _ q'] exI[of _ h']) simp
qed

lemma get_chars_quiet:
  assumes "quiet s a cur rs ws" "contents (ioqs s a) = bs @ cs"
  shows "\<exists>q h. get_chars a (length bs) s = Ret bs (set_ioq a q (s\<lparr>links := h\<rparr>)) \<and> quiet (set_ioq a q (s\<lparr>links := h\<rparr>)) a cur rs ws \<and>
    contents q = cs"
  using assms
proof (induction bs arbitrary: s)
  case Nil
  then show ?case using quiet_same[OF Nil(1)] by (intro exI[of _ "ioqs s a"] exI[of _ "links s"]) (simp add: ret_def)
next
  case (Cons b bs)
  obtain q h where s1: "ioq_getchar a s = Ret b (set_ioq a q (s\<lparr>links := h\<rparr>))" "quiet (set_ioq a q (s\<lparr>links := h\<rparr>)) a cur rs ws" "contents q = bs @ cs"
    using ioq_getchar_quiet[OF Cons.prems(1)] Cons.prems(2) by auto
  then obtain q' h' where "get_chars a (length bs) (set_ioq a q (s\<lparr>links := h\<rparr>)) = Ret bs (set_ioq a q' (s\<lparr>links := h'\<rparr>))"
      "quiet (set_ioq a q' (s\<lparr>links := h'\<rparr>)) a cur rs ws" "contents q' = cs"
    using Cons.IH[OF s1(2)] by (auto simp del: set_ioq_simps(10))
  then show ?case using s1 by (intro exI[of _ q'] exI[of _ h']) (simp add: ret_def)
qed

definition demo_io :: "iostate" where
  "demo_io = kstate.extend demo_state
     (iostate.fields (\<lambda>_. \<lparr>producer = 0, consumer = 0, ioq_buf = replicate 2048 0, head = 2047, tail = 2047\<rparr>))"

lemma demo_io_simps [simp]:
  "links demo_io = links demo_state" "tasks demo_io = tasks demo_state" "ist2 demo_io = ist2 demo_state"
  "idle_task demo_io = idle_task demo_state" "intr_flag demo_io = intr_off" "sema_value demo_io p = 1"
  "ioqs demo_io a = \<lparr>producer = 0, consumer = 0, ioq_buf = replicate 2048 0, head = 2047, tail = 2047\<rparr>"
  by (simp_all add: demo_io_def kstate.extend_def iostate.fields_def demo_state_def)

lemma demo_io_run_ok: "run_ok demo_io 0x1000 [0x2000] (\<lambda>_. [])"
  using demo_state_run_ok by (simp add: run_ok_def sched_ok_def tq_def)

lemma demo_io_quiet: "quiet demo_io a 0x1000 [0x2000] (\<lambda>_. [])" "contents (ioqs demo_io a) = []"
  using demo_io_run_ok by (simp_all add: quiet_def ring_ok_def bufsize_def contents_def ioq_length_def)

text \<open>First in, first out. Bytes put into an empty queue, up to its capacity of \<^verbatim>\<open>bufsize - 1\<close>, come out
  in the same order, wherever in the ring the queue stands, and leave it empty; no call waits.\<close>

theorem ioq_fifo:
  assumes "quiet s a cur rs ws" "contents (ioqs s a) = []" "length bs \<le> bufsize - 1"
  shows "\<exists>s' s''. put_chars a bs s = Ret () s' \<and> get_chars a (length bs) s' = Ret bs s'' \<and>
    contents (ioqs s'' a) = [] \<and> quiet s'' a cur rs ws"
proof -
  obtain q h where s': "put_chars a bs s = Ret () (set_ioq a q (s\<lparr>links := h\<rparr>))" "quiet (set_ioq a q (s\<lparr>links := h\<rparr>)) a cur rs ws"
      "contents (ioqs (set_ioq a q (s\<lparr>links := h\<rparr>)) a) = bs @ []"
    using put_chars_quiet[OF assms(1), of bs] assms(2,3) length_contents[of "ioqs s a"] by auto
  show ?thesis using get_chars_quiet[OF s'(2,3)] s'(1) by (auto simp del: set_ioq_simps(10))
qed

theorem ioq_fifo_witness:
  "\<exists>s' s''. put_chars 0 [104, 105] demo_io = Ret () s' \<and> get_chars 0 2 s' = Ret [104, 105] s''"
proof -
  have "length ([104, 105] :: u8 list) \<le> bufsize - 1" "length ([104, 105] :: u8 list) = 2" by (simp_all add: bufsize_def)
  then show ?thesis using ioq_fifo[OF demo_io_quiet, of "[104, 105]" 0] by metis
qed

text \<open>C9. A waiting reader is served. A task that reads from an empty queue goes to sleep and the next task
  runs. Whoever then puts a byte does not wait and makes the reader ready, in front of every other ready
  task; when the reader runs, its call returns that byte, with the queue empty and the semaphore free.\<close>

theorem ioq_reader_served:
  assumes ok: "run_ok s cur rs ws" "intr_flag s = intr_off" "ring_ok (ioqs s a)" "contents (ioqs s a) = []"
    and free: "lock_free s (IoSema a)" "producer (ioqs s a) = 0" "consumer (ioqs s a) = 0" "cur \<noteq> 0"
    and task: "cur \<noteq> idle_task s" "candidates s rs = nxt # qs"
  shows "\<exists>s1 s2. ioq_getchar a s = Sleep s1 \<and> run_ok s1 nxt qs ws \<and>
    ioq_putchar a b s1 = Ret () s2 \<and> run_ok s2 nxt (cur # qs) ws \<and>
    (\<forall>s3 rs3. run_ok s3 cur rs3 ws \<and> ioqs s3 = ioqs s2 \<and> sema_value s3 = sema_value s2 \<longrightarrow>
      (\<exists>s4. ioq_getchar_resume a s3 = Ret b s4 \<and> run_ok s4 cur rs3 ws \<and> contents (ioqs s4 a) = [] \<and>
            sema_value s4 (IoSema a) = 1))"
proof -
  obtain s1 where s1: "ioq_getchar a s = Sleep s1" "run_ok s1 nxt qs ws"
      "ioqs s1 = (ioqs s)(a := (ioqs s a)\<lparr>consumer := cur\<rparr>)" "sema_value s1 = (sema_value s)(IoSema a := 0)"
      "t_status (tasks s1 cur) = TASK_BLOCKED" "intr_flag s1 = intr_off"
    using ioq_getchar_sleeps[OF ok(1-4) free(1,3) task] by blast
  have "cur \<notin> set qs" "aligned cur" "\<forall>p. cur \<notin> set (ws p)"
    using task(2) ok(1) sched_okD(2)[OF run_okD(1)[OF ok(1)]]
    by (auto simp: candidates_def run_ok_def split: if_splits)
  then have sl: "sleeping s1 qs ws cur" using s1(5) by (simp add: sleeping_def)
  then obtain h where h: "ioq_putchar a b s1 = Ret () (set_ioq a ((ring_put (ioqs s1 a) b)\<lparr>consumer := 0\<rparr>) (s1\<lparr>links := h\<rparr>))"
      "run_ok (s1\<lparr>links := h\<rparr>) nxt (cur # qs) ws"
    using ioq_putchar_ok[of s1 nxt qs ws a b] s1 ok(3,4) free(4) length_contents[of "ioqs s a"]
    by (auto simp: waked_def bufsize_def)
  define s2 where "s2 = set_ioq a ((ring_put (ioqs s1 a) b)\<lparr>consumer := 0\<rparr>) (s1\<lparr>links := h\<rparr>)"
  have "length (contents (ioqs s1 a)) < bufsize - 1"
    using s1(3) ok(4) length_contents[of "ioqs s a"] by (simp add: bufsize_def)
  then have q2: "contents (ioqs s2 a) = [b]" "ring_ok (ioqs s2 a)" "producer (ioqs s2 a) = 0"
      "sema_value s2 (IoSema a) = 0"
    using ring_put_contents[of "ioqs s1 a" b] s1(3,4) ok(3,4) free(2)
      put_producer[of "ioqs s1 a" b] by (simp_all add: s2_def)
  have "ws (IoSema a) = []"
    using free(1) sched_okD(6)[OF run_okD(1)[OF ok(1)], of "IoSema a"] tq_empty[of s "Waiters (IoSema a)"]
    by (auto simp: lock_free_def)
  then have "\<exists>s4. ioq_getchar_resume a s3 = Ret b s4 \<and> run_ok s4 cur rs3 ws \<and> contents (ioqs s4 a) = [] \<and>
      sema_value s4 (IoSema a) = 1"
    if "run_ok s3 cur rs3 ws" "ioqs s3 = ioqs s2" "sema_value s3 = sema_value s2" for s3 rs3
    using ioq_getchar_resumes[OF that(1), of a] that(2,3) q2 by (auto simp: waked_def)
  moreover have "run_ok s2 nxt (cur # qs) ws" using h(2) by (simp add: s2_def)
  ultimately show ?thesis using s1(1,2) h(1) unfolding s2_def[symmetric] by blast
qed

theorem ioq_reader_served_witness:
  "\<exists>s1 s2. ioq_getchar 0 demo_io = Sleep s1 \<and> ioq_putchar 0 65 s1 = Ret () s2 \<and>
     run_ok s2 0x2000 [0x1000] (\<lambda>_. [])"
proof -
  have "lock_free demo_io (IoSema 0)"
    using demo_state_free[of "IoSema 0"] by (simp add: lock_free_def sema_free_def tq_def)
  then show ?thesis
    using ioq_reader_served[OF demo_io_run_ok, of 0 "0x2000" "[]" 65] demo_io_quiet(2)
    by (auto simp: ring_ok_def bufsize_def candidates_def)
qed

end
