(* ===== verification/Machine.thy ===== *)
theory Machine
  imports IoQueue
begin

text \<open>
  The devices the kernel talks to through ports, and the part of the state that belongs to them.

  The hardware is a parameter: a value of type \<open>'h machine\<close> says what an \<^verbatim>\<open>out\<close> or an \<^verbatim>\<open>in\<close> instruction does to the
  devices, whose state \<open>'h\<close> is the field \<open>hw\<close>. What a driver relies on (the cursor registers of the CRT
  controller, the registers of an ATA disk) is a hypothesis of the theorems about that driver.

  The functions of \<^verbatim>\<open>device/io.h\<close> are one instruction each.
\<close>

record 'h machine =
  hw_out :: "u16 \<Rightarrow> u8 \<Rightarrow> 'h \<Rightarrow> 'h"             \<comment> \<open>\<^verbatim>\<open>outb\<close>\<close>
  hw_in :: "u16 \<Rightarrow> 'h \<Rightarrow> u8 \<times> 'h"              \<comment> \<open>\<^verbatim>\<open>inb\<close>\<close>
  hw_outs :: "u16 \<Rightarrow> u8 list \<Rightarrow> 'h \<Rightarrow> 'h"        \<comment> \<open>\<^verbatim>\<open>rep outsw\<close> of these bytes\<close>
  hw_ins :: "u16 \<Rightarrow> nat \<Rightarrow> 'h \<Rightarrow> u8 list \<times> 'h"   \<comment> \<open>\<^verbatim>\<open>rep insw\<close> of this many words\<close>
  hw_irq :: "nat \<Rightarrow> 'h \<Rightarrow> bool"                \<comment> \<open>a disk channel asks for an interrupt\<close>

text \<open>The functions an entry of \<^verbatim>\<open>intr_handle_table\<close> can point to.\<close>

datatype handler =
    General_intr_handle | Intr_time_handle | Intr_keyboard_hdl | Intr_hd_handle | Intr_page_handle

record idt_des =
  off_low :: u16
  sct :: u16
  ist :: u8
  att :: u8
  off_mid :: u16
  off_high :: u32
  rsv :: u32

record tss_des =
  len_low :: u16
  base0 :: u16
  base1 :: u8
  addr :: u8
  len_high :: u8
  base2 :: u8
  base3 :: u32
  tss_rsv :: u32

text \<open>\<open>idtr\<close> is the operand of the last \<^verbatim>\<open>lidt\<close>, \<open>tss_gdt\<close> the descriptor at address \<^verbatim>\<open>0x518\<close>, \<open>task_reg\<close> the operand of the last
  \<^verbatim>\<open>ltr\<close>. The text buffer at \<^verbatim>\<open>0xb8000\<close> is a function from cell numbers; the cells of the 80 by 25 screen are 0 to 1999.\<close>

record 'h hwstate = iostate +
  hw :: 'h
  vmem :: "int \<Rightarrow> u16"
  d_property :: u8
  change_property :: bool
  intr_handle_table :: "nat \<Rightarrow> handler"
  idt_table :: "nat \<Rightarrow> idt_des"
  idtr :: "u64 \<times> u64"
  tss_gdt :: tss_des
  task_reg :: u16

definition outb :: "'h machine \<Rightarrow> u16 \<Rightarrow> u8 \<Rightarrow> (('h, 'z) hwstate_scheme, unit) kcall" where
  "outb M port data = kput (\<lambda>s. s\<lparr>hw := hw_out M port data (hw s)\<rparr>)"

definition inb :: "'h machine \<Rightarrow> u16 \<Rightarrow> (('h, 'z) hwstate_scheme, u8) kcall" where
  "inb M port s = (case hw_in M port (hw s) of (data, h) \<Rightarrow> Ret data (s\<lparr>hw := h\<rparr>))"

definition outsw :: "'h machine \<Rightarrow> u16 \<Rightarrow> u8 list \<Rightarrow> (('h, 'z) hwstate_scheme, unit) kcall" where
  "outsw M port data = kput (\<lambda>s. s\<lparr>hw := hw_outs M port data (hw s)\<rparr>)"

definition insw :: "'h machine \<Rightarrow> u16 \<Rightarrow> nat \<Rightarrow> (('h, 'z) hwstate_scheme, u8 list) kcall" where
  "insw M port word_cnt s = (case hw_ins M port word_cnt (hw s) of (data, h) \<Rightarrow> Ret data (s\<lparr>hw := h\<rparr>))"

lemma bnd_io [simp]:
  "bnd (outb M port data) k1 s = k1 () (s\<lparr>hw := hw_out M port data (hw s)\<rparr>)"
  "bnd (inb M port) k2 s = k2 (fst (hw_in M port (hw s))) (s\<lparr>hw := snd (hw_in M port (hw s))\<rparr>)"
  "bnd (outsw M port bs) k3 s = k3 () (s\<lparr>hw := hw_outs M port bs (hw s)\<rparr>)"
  "bnd (insw M port n) k4 s = k4 (fst (hw_ins M port n (hw s))) (s\<lparr>hw := snd (hw_ins M port n (hw s))\<rparr>)"
  by (simp_all add: outb_def inb_def outsw_def insw_def bnd_def kput_def split: prod.splits)

lemma outb_run: "outb M port data s = Ret () (s\<lparr>hw := hw_out M port data (hw s)\<rparr>)"
  by (simp add: outb_def kput_def)

end
