(* ===== verification/Print.thy ===== *)
theory Print
  imports Machine
begin

text \<open>
  The screen of \<^verbatim>\<open>device/print.c\<close> and the writing half of \<^verbatim>\<open>device/console.c\<close>. The position of the cursor lives in
  two registers of the CRT controller; everything else is in the state.

  The hypothesis \<open>crtc\<close> is what the code relies on of these registers. Under it \<^verbatim>\<open>put_char\<close> implements \<open>tty\<close>, a
  terminal whose cursor is a number below 2000; the rest shows what texts and numbers leave on the screen.
\<close>

unbundle bit_operations_syntax

section \<open>The code\<close>

definition get_cur :: "'h machine \<Rightarrow> (('h, 'z) hwstate_scheme, u16) kcall" where
  "get_cur M =
     bnd (outb M 0x3d4 0x0e) (\<lambda>_. bnd (inb M 0x3d5) (\<lambda>curl.
     bnd (outb M 0x3d4 0x0f) (\<lambda>_. bnd (inb M 0x3d5) (\<lambda>curr.
     ret (push_bit 8 (ucast curl) + ucast curr)))))"

text \<open>\<^verbatim>\<open>memcpy\<close> between cells, from low to high addresses.\<close>

fun copy_cells :: "(int \<Rightarrow> u16) \<Rightarrow> int \<Rightarrow> int \<Rightarrow> nat \<Rightarrow> (int \<Rightarrow> u16)" where
  "copy_cells v dst src 0 = v"
| "copy_cells v dst src (Suc n) = copy_cells (v(dst := v src)) (dst + 1) (src + 1) n"

definition set_cur :: "'h machine \<Rightarrow> u16 \<Rightarrow> (('h, 'z) hwstate_scheme, unit) kcall" where
  "set_cur M cur =
     bnd (if cur \<ge> 80 * 25 then kput (\<lambda>s. s\<lparr>vmem := copy_cells (vmem s) (- 80) 0 (80 * 26)\<rparr>) else ret ()) (\<lambda>_.
     let cur = (if cur \<ge> 80 * 25 then cur - 80 else cur) in
     bnd (outb M 0x3d4 0x0f) (\<lambda>_. bnd (outb M 0x3d5 (ucast cur)) (\<lambda>_.
     let cur = drop_bit 8 cur in
     bnd (outb M 0x3d4 0x0e) (\<lambda>_. outb M 0x3d5 (ucast cur)))))"

text \<open>The 16-bit cell of a character in the colours of \<^verbatim>\<open>d_property\<close>; a \<^verbatim>\<open>char\<close> is signed.\<close>

definition cell :: "u8 \<Rightarrow> u8 \<Rightarrow> u16" where
  "cell c prop = scast c + push_bit 8 (ucast prop)"

definition put_cell :: "int \<Rightarrow> u8 \<Rightarrow> (('h, 'z) hwstate_scheme, unit) kcall" where
  "put_cell i c = kput (\<lambda>s. s\<lparr>vmem := (vmem s)(i := cell c (d_property s))\<rparr>)"

definition cls_screen :: "'h machine \<Rightarrow> (('h, 'z) hwstate_scheme, unit) kcall" where
  "cls_screen M = bnd (for_range 0 (80 * 25) (\<lambda>i. put_cell (int i) 32)) (\<lambda>_. set_cur M 0)"

text \<open>\<^verbatim>\<open>while (cur <= new_cur) ... cur++\<close>: \<open>n\<close> bounds the remaining rounds.\<close>

fun tab_loop :: "nat \<Rightarrow> u16 \<Rightarrow> u16 \<Rightarrow> (('h, 'z) hwstate_scheme, unit) kcall" where
  "tab_loop 0 cur new_cur = ret ()"
| "tab_loop (Suc n) cur new_cur =
     (if cur \<le> new_cur then bnd (put_cell (uint cur) 32) (\<lambda>_. tab_loop n (cur + 1) new_cur) else ret ())"

definition put_char :: "'h machine \<Rightarrow> u8 \<Rightarrow> (('h, 'z) hwstate_scheme, unit) kcall" where
  "put_char M c =
     bnd (kget change_property) (\<lambda>ch.
     if ch then kput (\<lambda>s. s\<lparr>d_property := c, change_property := False\<rparr>)
     else
       bnd (get_cur M) (\<lambda>cur.
       if c = 0x1b then kput (\<lambda>s. s\<lparr>change_property := True\<rparr>)
       else if c = 0x0c then cls_screen M
       else if c = 0x0d then set_cur M (cur div 80 * 80)
       else if c = 0x0a then set_cur M ((cur div 80 + 1) * 80)
       else if c = 0x08 then
         (let cur = cur - 1 in bnd (set_cur M cur) (\<lambda>_. put_cell (uint cur) 32))
       else if c = 0x09 then
         (let new_cur = (cur div 8 + 1) * 8 in bnd (tab_loop 9 cur new_cur) (\<lambda>_. set_cur M new_cur))
       else bnd (put_cell (uint cur) c) (\<lambda>_. set_cur M (cur + 1))))"

text \<open>A string argument is the list of its characters before the zero.\<close>

fun put_str :: "'h machine \<Rightarrow> u8 list \<Rightarrow> (('h, 'z) hwstate_scheme, unit) kcall" where
  "put_str M [] = ret ()"
| "put_str M (c # str) = bnd (put_char M c) (\<lambda>_. put_str M str)"

text \<open>\<^verbatim>\<open>put_num\<close>: \<^verbatim>\<open>dbuf\<close> holds the 16 digits, the lowest first; the loop down to index 1 skips the leading zeros.\<close>

definition num_digit :: "u64 \<Rightarrow> u8" where
  "num_digit num = (let c = ucast (num mod 16) + 48 :: u8 in if c > 57 then c + (97 - 57 - 1) else c)"

fun dbuf_from :: "nat \<Rightarrow> u64 \<Rightarrow> u8 list" where
  "dbuf_from 0 num = []"
| "dbuf_from (Suc n) num = num_digit num # dbuf_from n (num div 16)"

fun put_digits :: "'h machine \<Rightarrow> u8 list \<Rightarrow> nat \<Rightarrow> bool \<Rightarrow> (('h, 'z) hwstate_scheme, unit) kcall" where
  "put_digits M dbuf 0 suf = ret ()"
| "put_digits M dbuf (Suc i) suf =
     (if i > 0
      then if dbuf ! i \<noteq> 48 \<or> suf then bnd (put_char M (dbuf ! i)) (\<lambda>_. put_digits M dbuf i True)
           else put_digits M dbuf i suf
      else ret ())"

definition put_num :: "'h machine \<Rightarrow> u64 \<Rightarrow> (('h, 'z) hwstate_scheme, unit) kcall" where
  "put_num M num = (let dbuf = dbuf_from 16 num in
     bnd (put_digits M dbuf 16 False) (\<lambda>_. put_char M (dbuf ! 0)))"

definition put_info :: "'h machine \<Rightarrow> u8 list \<Rightarrow> u64 \<Rightarrow> (('h, 'z) hwstate_scheme, unit) kcall" where
  "put_info M message num =
     bnd (put_str M message) (\<lambda>_. bnd (put_num M num) (\<lambda>_. put_char M 10))"

text \<open>\<^verbatim>\<open>str\<close> holds the \<^verbatim>\<open>count\<close> characters to write.\<close>

definition console_write :: "'h machine \<Rightarrow> u8 list \<Rightarrow> (('h, 'z) hwstate_scheme, unit) kcall" where
  "console_write M str =
     bnd (sema_down ConsoleLock) (\<lambda>_. bnd (put_str M str) (\<lambda>_. sema_up ConsoleLock))"

definition str_of :: "string \<Rightarrow> u8 list" where "str_of = map of_char"

definition console_init :: "'h machine \<Rightarrow> (('h, 'z) hwstate_scheme, unit) kcall" where
  "console_init M =
     bnd (put_str M (str_of ''console_init: start'' @ [10])) (\<lambda>_.
     bnd (sema_init ConsoleLock 1) (\<lambda>_.
     put_str M (str_of ''console_init: done'' @ [10])))"

section \<open>Printing always returns\<close>

text \<open>Printing changes the screen and the devices, nothing else.\<close>

definition screened :: "'h \<Rightarrow> (int \<Rightarrow> u16) \<Rightarrow> u8 \<Rightarrow> bool \<Rightarrow> ('h, 'z) hwstate_scheme \<Rightarrow> ('h, 'z) hwstate_scheme" where
  "screened h v d c s = s\<lparr>hw := h, vmem := v, d_property := d, change_property := c\<rparr>"

definition prints :: "(('h, 'z) hwstate_scheme, unit) kcall \<Rightarrow> bool" where
  "prints p \<longleftrightarrow> (\<forall>s. \<exists>h v d c. p s = Ret () (screened h v d c s))"

lemma screened_screened: "screened h v d c (screened h' v' d' c' s) = screened h v d c s"
  by (simp add: screened_def)

lemma printsD: "prints p \<Longrightarrow> \<exists>h v d c. p s = Ret () (screened h v d c s)"
  by (simp add: prints_def)

lemma prints_bnd: "prints p \<Longrightarrow> (\<And>x. prints (q x)) \<Longrightarrow> prints (bnd p q)"
  unfolding prints_def by (metis bnd_run(1) screened_screened)

lemma prints_get: "(\<And>x. prints (q x)) \<Longrightarrow> prints (bnd (kget f) q)"
  by (simp add: prints_def)

lemma prints_put:
  assumes "\<And>s. f s = screened (h s) (v s) (d s) (c s) s"
  shows "prints (kput f)"
  using assms by (auto simp: prints_def kput_def)

lemma prints_ret: "prints (ret ())"
proof -
  have "s = screened (hw s) (vmem s) (d_property s) (change_property s) s" for s :: "('h, 'z) hwstate_scheme"
    by (simp add: screened_def)
  then show ?thesis unfolding prints_def ret_def by metis
qed

lemma prints_bnd_ret: "prints (q x) \<Longrightarrow> prints (bnd (ret x) q)"
  by (simp add: prints_def)

lemma prints_outb: "prints (outb M p b)"
  unfolding outb_def
  by (rule prints_put[where h = "\<lambda>s. hw_out M p b (hw s)" and v = vmem and d = d_property and c = change_property])
    (simp add: screened_def)

lemma prints_inb:
  assumes "\<And>x. prints (q x)"
  shows "prints (bnd (inb M p) q)"
  unfolding prints_def
proof
  fix s :: "('a, 'b) hwstate_scheme"
  let ?s = "s\<lparr>hw := snd (hw_in M p (hw s))\<rparr>"
  obtain h v d c where "q (fst (hw_in M p (hw s))) ?s = Ret () (screened h v d c ?s)"
    using assms unfolding prints_def by blast
  then show "\<exists>h v d c. bnd (inb M p) q s = Ret () (screened h v d c s)"
    by (intro exI[of _ h] exI[of _ v] exI[of _ d] exI[of _ c]) (simp add: screened_def)
qed

lemma prints_vmem: "prints (kput (\<lambda>s. s\<lparr>vmem := f s\<rparr>))"
  by (rule prints_put[where h = hw and v = f and d = d_property and c = change_property]) (simp add: screened_def)

lemma prints_prop:
  "prints (kput (\<lambda>s. s\<lparr>d_property := x, change_property := False\<rparr>))" "prints (kput (\<lambda>s. s\<lparr>change_property := True\<rparr>))"
  by (rule prints_put[where h = hw and v = vmem and d = "\<lambda>_. x" and c = "\<lambda>_. False"], simp add: screened_def)
     (rule prints_put[where h = hw and v = vmem and d = d_property and c = "\<lambda>_. True"], simp add: screened_def)

lemma prints_for: "(\<And>i. prints (b i)) \<Longrightarrow> prints (for_range a n b)"
  by (induction n arbitrary: a) (auto intro: prints_ret prints_bnd)

lemma prints_set_cur: "prints (set_cur M cur)"
  unfolding set_cur_def Let_def by (auto intro!: prints_bnd prints_outb prints_ret prints_vmem)

lemma prints_put_cell: "prints (put_cell i c)"
  unfolding put_cell_def by (rule prints_vmem)

lemma prints_tab: "prints (tab_loop n cur new_cur)"
  by (induction n arbitrary: cur) (auto intro!: prints_bnd prints_ret prints_put_cell)

lemma prints_put_char: "prints (put_char M c)"
  unfolding put_char_def get_cur_def Let_def cls_screen_def bnd_assoc
  by (auto intro!: prints_get prints_prop prints_bnd_ret prints_bnd prints_outb prints_inb prints_ret prints_set_cur prints_put_cell prints_tab
      prints_for)

lemma prints_put_str: "prints (put_str M str)"
  by (induction str) (auto intro: prints_ret prints_bnd prints_put_char)

lemma prints_put_digits: "prints (put_digits M dbuf n suf)"
  by (induction n arbitrary: suf) (auto intro: prints_ret prints_bnd prints_put_char)

lemma prints_put_num: "prints (put_num M num)"
  unfolding put_num_def Let_def by (intro prints_bnd prints_put_digits prints_put_char)

lemma prints_put_info: "prints (put_info M message num)"
  unfolding put_info_def by (intro prints_bnd prints_put_str prints_put_num prints_put_char)

section \<open>The cursor registers\<close>

text \<open>The two cursor registers of the CRT controller, selected by \<^verbatim>\<open>0x0e\<close> and \<^verbatim>\<open>0x0f\<close> at port \<^verbatim>\<open>0x3d4\<close> and accessed
  at port \<^verbatim>\<open>0x3d5\<close>: \<open>hi\<close> and \<open>lo\<close> are their contents.\<close>

definition crtc :: "'h machine \<Rightarrow> ('h \<Rightarrow> u8) \<Rightarrow> ('h \<Rightarrow> u8) \<Rightarrow> bool" where
  "crtc M hi lo \<longleftrightarrow> (\<forall>h v.
     (let h1 = hw_out M 0x3d4 0x0e h; h2 = snd (hw_in M 0x3d5 h1); h3 = hw_out M 0x3d5 v h1 in
      fst (hw_in M 0x3d5 h1) = hi h \<and> hi h2 = hi h \<and> lo h2 = lo h \<and> hi h3 = v \<and> lo h3 = lo h) \<and>
     (let h1 = hw_out M 0x3d4 0x0f h; h2 = snd (hw_in M 0x3d5 h1); h3 = hw_out M 0x3d5 v h1 in
      fst (hw_in M 0x3d5 h1) = lo h \<and> hi h2 = hi h \<and> lo h2 = lo h \<and> hi h3 = hi h \<and> lo h3 = v))"

definition cursor :: "('h \<Rightarrow> u8) \<Rightarrow> ('h \<Rightarrow> u8) \<Rightarrow> 'h \<Rightarrow> u16" where
  "cursor hi lo h = push_bit 8 (ucast (hi h)) + ucast (lo h)"

lemma cursor_split: "push_bit 8 (ucast (ucast (drop_bit 8 cur) :: u8)) + ucast (ucast cur :: u8) = (cur :: u16)"
proof -
  have "ucast (ucast (drop_bit 8 cur) :: u8) = drop_bit 8 cur"
    by (rule bit_word_eqI) (auto simp: bit_ucast_iff bit_simps dest: bit_imp_le_length)
  moreover have "ucast (ucast cur :: u8) = take_bit 8 cur"
    by (rule bit_word_eqI) (auto simp: bit_ucast_iff bit_simps)
  ultimately show ?thesis using bits_ident[of 8 cur] by simp
qed

lemma get_cur_ok:
  assumes "crtc M hi lo"
  shows "\<exists>h. get_cur M s = Ret (cursor hi lo (hw s)) (s\<lparr>hw := h\<rparr>) \<and> cursor hi lo h = cursor hi lo (hw s)"
proof -
  let ?h = "snd (hw_in M 0x3d5 (hw_out M 0x3d4 0x0f (snd (hw_in M 0x3d5 (hw_out M 0x3d4 0x0e (hw s))))))"
  have "get_cur M s = Ret (cursor hi lo (hw s)) (s\<lparr>hw := ?h\<rparr>)" "cursor hi lo ?h = cursor hi lo (hw s)"
    using assms unfolding crtc_def Let_def by (simp_all add: get_cur_def cursor_def ret_def)
  then show ?thesis by blast
qed

definition scroll :: "(int \<Rightarrow> u16) \<Rightarrow> (int \<Rightarrow> u16)" where
  "scroll v = (\<lambda>i. if - 80 \<le> i \<and> i < 2000 then v (i + 80) else v i)"

lemma copy_cells_down:
  "0 < k \<Longrightarrow> copy_cells v dst (dst + k) n = (\<lambda>i. if dst \<le> i \<and> i < dst + int n then v (i + k) else v i)"
proof (induction n arbitrary: v dst)
  case (Suc n)
  have "copy_cells v dst (dst + k) (Suc n) = copy_cells (v(dst := v (dst + k))) (dst + 1) (dst + 1 + k) n"
    by (simp add: add.commute add.left_commute)
  then show ?case using Suc.IH[OF Suc.prems, of _ "dst + 1"] Suc.prems by (auto simp: fun_eq_iff)
qed (auto simp: fun_eq_iff)

lemma copy_cells_scroll: "copy_cells v (- 80) 0 2080 = scroll v"
  using copy_cells_down[of 80 v "- 80" 2080] by (simp add: scroll_def fun_eq_iff)

text \<open>The cursor and the cells after \<^verbatim>\<open>set_cur\<close>.\<close>

definition goto :: "nat \<Rightarrow> (int \<Rightarrow> u16) \<Rightarrow> nat \<times> (int \<Rightarrow> u16)" where
  "goto p v = (if p \<ge> 2000 then (p - 80, scroll v) else (p, v))"

lemma of_nat_u16_le: "n < 65536 \<Longrightarrow> (2000 \<le> (of_nat n :: u16)) = (2000 \<le> n)"
  unfolding word_le_nat_alt by (simp add: unat_of_nat)

lemma set_cur_ok:
  assumes "crtc M hi lo" "p < 65536"
  shows "\<exists>h. set_cur M (of_nat p) s = Ret () (s\<lparr>hw := h, vmem := snd (goto p (vmem s))\<rparr>) \<and>
     cursor hi lo h = of_nat (fst (goto p (vmem s)))"
proof -
  define q :: u16 where "q = of_nat (fst (goto p (vmem s)))"
  let ?h1 = "hw_out M 0x3d5 (ucast q) (hw_out M 0x3d4 0x0f (hw s))"
  let ?h = "hw_out M 0x3d5 (ucast (drop_bit 8 q)) (hw_out M 0x3d4 0x0e ?h1)"
  have q: "(if of_nat p \<ge> (80 * 25 :: u16) then of_nat p - 80 else of_nat p) = q"
    using assms(2) of_nat_u16_le[of p] by (auto simp: q_def goto_def)
  have "hi ?h = ucast (drop_bit 8 q)" "lo ?h = ucast q"
    using assms(1) unfolding crtc_def Let_def by auto
  then have "cursor hi lo ?h = q" unfolding cursor_def by (simp add: cursor_split)
  moreover have "set_cur M (of_nat p) s = Ret () (s\<lparr>hw := ?h, vmem := snd (goto p (vmem s))\<rparr>)"
    using of_nat_u16_le[OF assms(2)]
    unfolding set_cur_def q Let_def
    by (auto simp: outb_run goto_def copy_cells_scroll)
  ultimately show ?thesis unfolding q_def by blast
qed

section \<open>The terminal\<close>

text \<open>The specification: cursor, cells, colours and whether the next character sets them.\<close>

type_synonym term_st = "nat \<times> (int \<Rightarrow> u16) \<times> u8 \<times> bool"

definition blank :: "nat \<Rightarrow> nat \<Rightarrow> u8 \<Rightarrow> (int \<Rightarrow> u16) \<Rightarrow> (int \<Rightarrow> u16)" where
  "blank a b d v = (\<lambda>i. if int a \<le> i \<and> i < int b then cell 32 d else v i)"

definition tty :: "u8 \<Rightarrow> term_st \<Rightarrow> term_st" where
  "tty c x = (case x of (p, v, d, ch) \<Rightarrow>
     let at = (\<lambda>(p, v). (p, v, d, False)) in
     if ch then (p, v, c, False)
     else if c = 0x1b then (p, v, d, True)
     else if c = 0x0c then at (0, blank 0 2000 d v)
     else if c = 0x0d then at (p - p mod 80, v)
     else if c = 0x0a then at (goto (p - p mod 80 + 80) v)
     else if c = 0x08 then at (p - 1, v(int p - 1 := cell 32 d))
     else if c = 0x09 then at (goto (p - p mod 8 + 8) (blank p (p - p mod 8 + 9) d v))
     else at (goto (p + 1) (v(int p := cell c d))))"

definition view :: "('h \<Rightarrow> u8) \<Rightarrow> ('h \<Rightarrow> u8) \<Rightarrow> ('h, 'z) hwstate_scheme \<Rightarrow> term_st" where
  "view hi lo s = (unat (cursor hi lo (hw s)), vmem s, d_property s, change_property s)"

lemma put_cell_run: "put_cell i c s = Ret () (s\<lparr>vmem := (vmem s)(i := cell c (d_property s))\<rparr>)"
  by (simp add: put_cell_def kput_def)

lemma blank_loop:
  "for_range a n (\<lambda>i. put_cell (int i) 32) s = Ret () (s\<lparr>vmem := blank a (a + n) (d_property s) (vmem s)\<rparr>)"
proof (induction n arbitrary: a s)
  case 0
  have "blank a a (d_property s) (vmem s) = vmem s" by (auto simp: blank_def fun_eq_iff)
  then show ?case by (simp add: ret_def)
next
  case (Suc n)
  have "blank (Suc a) (Suc a + n) d (v(int a := cell 32 d)) = blank a (a + Suc n) d v" for d v
    by (auto simp: blank_def fun_eq_iff)
  then show ?case using put_cell_run[of "int a" 32 s] Suc.IH[of "Suc a"] by (simp add: fun_upd_def)
qed

lemma tab_loop_ok:
  assumes "cur + n = Suc new_cur" "new_cur < 65535"
  shows "tab_loop n (of_nat cur) (of_nat new_cur) s = Ret () (s\<lparr>vmem := blank cur (Suc new_cur) (d_property s) (vmem s)\<rparr>)"
  using assms(1)
proof (induction n arbitrary: cur s)
  case 0
  have "blank (Suc new_cur) (Suc new_cur) (d_property s) (vmem s) = vmem s" by (auto simp: blank_def fun_eq_iff)
  then show ?case using 0 by (simp add: ret_def)
next
  case (Suc n)
  have le: "(of_nat cur :: u16) \<le> of_nat new_cur" "uint (of_nat cur :: u16) = int cur"
    using Suc.prems assms(2) unfolding word_le_nat_alt by (simp_all add: unat_of_nat uint_nat)
  have "blank (Suc cur) (Suc new_cur) d (v(int cur := cell 32 d)) = blank cur (Suc new_cur) d v" for d v
    using Suc.prems by (auto simp: blank_def fun_eq_iff)
  moreover have "(of_nat cur :: u16) + 1 = of_nat (Suc cur)" by simp
  ultimately show ?case
    using le Suc.IH[of "Suc cur"] Suc.prems by (simp add: put_cell_run del: of_nat_Suc)
qed

lemma tab_rounds:
  "tab_loop (n + k) (of_nat cur) (of_nat new_cur) s = tab_loop n (of_nat cur) (of_nat new_cur) s"
  if "cur + n = Suc new_cur" "new_cur < 65535" for n k cur new_cur
  using that
proof (induction n arbitrary: cur s)
  case 0
  have "\<not> (of_nat (Suc new_cur) :: u16) \<le> of_nat new_cur"
    using that(2) unfolding word_le_nat_alt by (simp add: unat_of_nat del: of_nat_Suc)
  then show ?case using 0 by (cases k) (simp_all del: of_nat_Suc)
next
  case (Suc n)
  have "(of_nat cur :: u16) + 1 = of_nat (Suc cur)" by simp
  then show ?case using Suc.IH[of "Suc cur"] Suc.prems by (simp add: bnd_def put_cell_run del: of_nat_Suc)
qed

lemma set_cur_view:
  assumes "crtc M hi lo" "p < 2080"
  shows "\<exists>s'. set_cur M (of_nat p) s = Ret () s' \<and> fst (goto p (vmem s)) < 2000 \<and>
     view hi lo s' = (fst (goto p (vmem s)), snd (goto p (vmem s)), d_property s, change_property s)"
proof -
  obtain h where h: "set_cur M (of_nat p) s = Ret () (s\<lparr>hw := h, vmem := snd (goto p (vmem s))\<rparr>)"
      "cursor hi lo h = of_nat (fst (goto p (vmem s)))" using set_cur_ok[OF assms(1), of p s] assms(2) by auto
  have "fst (goto p (vmem s)) < 2000" using assms(2) by (auto simp: goto_def)
  then show ?thesis using h by (auto simp: view_def unat_of_nat)
qed

lemma unat_div_mult:
  fixes cur :: u16
  assumes "unat cur < 2000" "0 < k" "k \<le> 80"
  shows "cur div of_nat k * of_nat k = of_nat (unat cur - unat cur mod k)"
    "(cur div of_nat k + 1) * of_nat k = of_nat (unat cur - unat cur mod k + k)"
proof -
  have k: "unat (of_nat k :: u16) = k" using assms by (simp add: unat_of_nat)
  have "cur div of_nat k = of_nat (unat cur div k)" by (metis k word_arith_nat_div)
  then show d: "cur div of_nat k * of_nat k = of_nat (unat cur - unat cur mod k)"
    by (metis minus_mod_eq_div_mult of_nat_mult)
  show "(cur div of_nat k + 1) * of_nat k = of_nat (unat cur - unat cur mod k + k)"
    unfolding distrib_right d of_nat_add by simp
qed

text \<open>One character.\<close>

lemma put_char_tty:
  assumes M: "crtc M hi lo" and p: "fst (view hi lo s) < 2000" and b: "c \<noteq> 0x08 \<or> change_property s \<or> 0 < fst (view hi lo s)"
  shows "\<exists>s'. put_char M c s = Ret () s' \<and> view hi lo s' = tty c (view hi lo s) \<and> fst (view hi lo s') < 2000"
proof -
  obtain h where h: "get_cur M s = Ret (cursor hi lo (hw s)) (s\<lparr>hw := h\<rparr>)" "cursor hi lo h = cursor hi lo (hw s)"
    using get_cur_ok[OF M] by blast
  define cur where "cur = cursor hi lo (hw s)"
  define n where "n = unat cur"
  have n: "n < 2000" "cur = of_nat n" using p by (simp_all add: view_def cur_def n_def)
  let ?s = "s\<lparr>hw := h\<rparr>"
  have n1: "unat cur < 2000" using p by (simp add: view_def cur_def)
  have dm: "cur div 80 * 80 = of_nat (n - n mod 80)" "(cur div 80 + 1) * 80 = of_nat (n - n mod 80 + 80)"
      "(cur div 8 + 1) * 8 = of_nat (n - n mod 8 + 8)" "cur + 1 = of_nat (Suc n)"
    using unat_div_mult[OF n1, of 80] unat_div_mult[OF n1, of 8] n_def
    by (simp_all only: of_nat_numeral) (simp_all add: n_def)
  have run: "put_char M c s = (if c = 0x1b then kput (\<lambda>s. s\<lparr>change_property := True\<rparr>)
       else if c = 0x0c then cls_screen M
       else if c = 0x0d then set_cur M (of_nat (n - n mod 80))
       else if c = 0x0a then set_cur M (of_nat (n - n mod 80 + 80))
       else if c = 0x08 then bnd (set_cur M (cur - 1)) (\<lambda>_. put_cell (uint (cur - 1)) 32)
       else if c = 0x09 then bnd (tab_loop 9 cur (of_nat (n - n mod 8 + 8))) (\<lambda>_. set_cur M (of_nat (n - n mod 8 + 8)))
       else bnd (put_cell (uint cur) c) (\<lambda>_. set_cur M (of_nat (Suc n)))) ?s" if "\<not> change_property s"
    using that by (simp only: put_char_def bnd_basic if_False bnd_run(1)[where m = "get_cur M", OF h(1)] cur_def[symmetric] Let_def dm)
  have v: "view hi lo s = (n, vmem s, d_property s, change_property s)" "uint cur = int n"
    by (simp_all add: view_def cur_def n_def)
  show ?thesis
  proof (cases "change_property s")
    case True
    then show ?thesis using n1 by (simp add: put_char_def kput_def view_def tty_def Let_def cur_def[symmetric] n_def[symmetric])
  next
    case ch: False
    note run = run[OF ch]
    consider "c = 0x1b" | "c = 0x0c" | "c = 0x0d" | "c = 0x0a" | "c = 0x08" | "c = 0x09"
      | "c \<notin> {0x1b, 0x0c, 0x0d, 0x0a, 0x08, 0x09}" by blast
    then show ?thesis
    proof cases
      case 1
      then show ?thesis using run n h(2) v ch by (simp add: kput_def view_def tty_def)
    next
      case 2
      let ?t = "?s\<lparr>vmem := blank 0 2000 (d_property s) (vmem s)\<rparr>"
      have "cls_screen M ?s = set_cur M (of_nat 0) ?t" by (simp add: cls_screen_def blank_loop[of 0 2000])
      then show ?thesis using run 2 v ch set_cur_view[OF M, of 0 ?t] by (auto simp: tty_def goto_def)
    next
      case 3
      have "n - n mod 80 < 2000" using n by simp
      then show ?thesis using run 3 v ch set_cur_view[OF M, of "n - n mod 80" ?s] by (auto simp: tty_def goto_def)
    next
      case 4
      have "n - n mod 80 + 80 < 2080" using n by simp
      then show ?thesis
        using run 4 v ch set_cur_view[OF M, of "n - n mod 80 + 80" ?s] by (auto simp: tty_def Let_def case_prod_beta)
    next
      case 5
      then have n0: "0 < n" using b ch v by simp
      have lt: "n - 1 < 2000" "n - 1 < 2080" using n(1) by simp_all
      have c1: "cur - 1 = of_nat (n - 1)" unfolding n(2) using n0 by (simp add: of_nat_diff)
      have "unat (of_nat (n - 1) :: u16) = n - 1" using n(1) by (simp only: unat_of_nat) simp
      then have u: "uint (cur - 1) = int n - 1" unfolding c1 uint_nat using n0 by simp
      obtain s1 where s1: "set_cur M (of_nat (n - 1)) ?s = Ret () s1"
          "view hi lo s1 = (n - 1, vmem s, d_property s, change_property s)"
        using set_cur_view[OF M, of "n - 1" ?s] lt by (auto simp: goto_def)
      have "put_char M c s = Ret () (s1\<lparr>vmem := (vmem s)(int n - 1 := cell 32 (d_property s))\<rparr>)"
        using run 5 c1 u s1 by (simp add: put_cell_run view_def)
      then show ?thesis using s1(2) v ch 5 n by (simp add: view_def tty_def)
    next
      case 6
      define q where "q = n - n mod 8 + 8"
      have q: "n < q" "q \<le> n + 8" "q < 2080" "n + (q + 1 - n) = Suc q"
        using n unfolding q_def using mod_less_divisor[of 8 n] by (auto simp: less_diff_conv2)
      have "9 = (q + 1 - n) + (9 - (q + 1 - n))" using q by simp
      then have "tab_loop 9 (of_nat n) (of_nat q) ?s = tab_loop (q + 1 - n) (of_nat n) (of_nat q) ?s"
        using tab_rounds[of n "q + 1 - n" q "9 - (q + 1 - n)" ?s] q by simp
      also have "\<dots> = Ret () (?s\<lparr>vmem := blank n (Suc q) (d_property s) (vmem s)\<rparr>)"
        using tab_loop_ok[of n "q + 1 - n" q ?s] q by simp
      finally have "put_char M c s = set_cur M (of_nat q) (?s\<lparr>vmem := blank n (Suc q) (d_property s) (vmem s)\<rparr>)"
        using run 6 n(2) by (simp add: q_def[symmetric])
      then show ?thesis
        using 6 v ch q set_cur_view[OF M, of q "?s\<lparr>vmem := blank n (Suc q) (d_property s) (vmem s)\<rparr>"]
        by (auto simp: tty_def Let_def case_prod_beta q_def)
    next
      case 7
      let ?t = "?s\<lparr>vmem := (vmem s)(int n := cell c (d_property s))\<rparr>"
      have "put_char M c s = set_cur M (of_nat (Suc n)) ?t" using run 7 v(2) by (simp add: put_cell_run del: of_nat_Suc)
      then show ?thesis
        using 7 v ch n set_cur_view[OF M, of "Suc n" ?t] by (auto simp: tty_def Let_def case_prod_beta simp del: of_nat_Suc)
    qed
  qed
qed

lemma put_str_tty:
  assumes "crtc M hi lo" "fst (view hi lo s) < 2000" "0x08 \<notin> set str"
  shows "\<exists>s'. put_str M str s = Ret () s' \<and> view hi lo s' = fold tty str (view hi lo s) \<and> fst (view hi lo s') < 2000"
  using assms(2,3)
proof (induction str arbitrary: s)
  case (Cons c str)
  obtain s1 where s1: "put_char M c s = Ret () s1" "view hi lo s1 = tty c (view hi lo s)" "fst (view hi lo s1) < 2000"
    using put_char_tty[OF assms(1) Cons.prems(1), of c] Cons.prems(2) by auto
  then show ?case using Cons.IH[of s1] Cons.prems(2) by auto
qed (simp add: ret_def)

text \<open>Characters that are printed as they are.\<close>

definition plain :: "u8 \<Rightarrow> bool" where
  "plain c \<longleftrightarrow> c \<notin> {0x1b, 0x0c, 0x0d, 0x0a, 0x08, 0x09}"

lemma tty_plain:
  "plain c \<Longrightarrow> Suc p < 2000 \<Longrightarrow> tty c (p, v, d, False) = (Suc p, v(int p := cell c d), d, False)"
  by (simp add: plain_def tty_def goto_def)

lemma fold_tty_plain:
  "\<forall>c \<in> set str. plain c \<Longrightarrow> p + length str < 2000 \<Longrightarrow> fold tty str (p, v, d, False) =
    (p + length str, (\<lambda>i. if int p \<le> i \<and> i < int (p + length str) then cell (str ! nat (i - int p)) d else v i), d, False)"
proof (induction str arbitrary: p v)
  case (Cons c str)
  have "(\<lambda>i. if int (Suc p) \<le> i \<and> i < int (Suc p + length str) then cell (str ! nat (i - int (Suc p))) d
        else (v(int p := cell c d)) i) =
      (\<lambda>i. if int p \<le> i \<and> i < int (p + length (c # str)) then cell ((c # str) ! nat (i - int p)) d else v i)"
  proof (rule ext, goal_cases)
    case (1 i)
    show ?case
    proof (cases "int (Suc p) \<le> i")
      case True
      then have "nat (i - int p) = Suc (nat (i - int (Suc p)))" by simp
      then show ?thesis using True by auto
    qed auto
  qed
  then show ?case using Cons.IH[of "Suc p"] tty_plain[of c p v d] Cons.prems by simp
qed (auto simp: fun_eq_iff)

section \<open>Numbers\<close>

definition num_text :: "u64 \<Rightarrow> u8 list" where
  "num_text num = (let dbuf = dbuf_from 16 num in dropWhile (\<lambda>c. c = 48) (rev (tl dbuf)) @ [hd dbuf])"

definition hex_digit :: "u8 \<Rightarrow> nat" where
  "hex_digit c = (if c \<le> 57 then unat c - 48 else unat c - 87)"

definition hex_value :: "u8 list \<Rightarrow> nat" where
  "hex_value = foldl (\<lambda>n c. 16 * n + hex_digit c) 0"

lemma length_dbuf [simp]: "length (dbuf_from n num) = n"
  by (induction n arbitrary: num) auto

lemma put_str_append: "put_str M (xs @ ys) = bnd (put_str M xs) (\<lambda>_. put_str M ys)"
proof (induction xs)
  case Nil
  show ?case by (rule ext) simp
qed (simp add: bnd_assoc)

lemma put_digits_str:
  "i < length dbuf \<Longrightarrow> put_digits M dbuf (Suc i) suf =
     put_str M ((if suf then id else dropWhile (\<lambda>c. c = 48)) (rev (take i (tl dbuf))))"
proof (induction i arbitrary: suf)
  case (Suc i)
  have t: "rev (take (Suc i) (tl dbuf)) = dbuf ! Suc i # rev (take i (tl dbuf))"
    using Suc.prems by (cases dbuf) (auto simp: take_Suc_conv_app_nth)
  show ?case using Suc.IH[of True] Suc.IH[of suf] Suc.prems unfolding t
    by (subst put_digits.simps(2)) (cases suf; simp del: put_digits.simps)
qed simp

lemma put_str_single: "put_str M [x] = put_char M x"
  by (rule ext) (simp add: bnd_def ret_def split: run.splits)

lemma put_num_str: "put_num M num = put_str M (num_text num)"
proof -
  let ?d = "dbuf_from 16 num"
  have c: "?d = hd ?d # tl ?d" by (metis length_dbuf list.collapse list.size(3) zero_neq_numeral)
  have "?d ! 0 = hd ?d" by (subst c) simp
  then show ?thesis
    by (simp add: put_digits_str[of 15 "dbuf_from 16 num", simplified] put_num_def num_text_def Let_def put_str_append put_str_single del: put_digits.simps put_str.simps)
qed

lemma hex_digit_all: "list_all (\<lambda>k. hex_digit (num_digit (of_nat k)) = k) [0..<16]"
  by code_simp

lemma hex_digit_num: "hex_digit (num_digit num) = unat num mod 16"
proof -
  have "num mod 16 = of_nat (unat num mod 16)" using word_arith_nat_mod[of num 16] by simp
  moreover have "num mod 16 mod 16 = num mod 16" by (simp add: word_unat_eq_iff unat_mod)
  then have "num_digit num = num_digit (num mod 16)" by (simp only: num_digit_def)
  ultimately show ?thesis using hex_digit_all by (simp add: list_all_iff)
qed

lemma hex_value_append: "hex_value (xs @ ys) = hex_value xs * 16 ^ length ys + hex_value ys"
proof (induction ys rule: rev_induct)
  case (snoc y ys)
  then show ?case by (simp add: hex_value_def append_assoc[symmetric] del: append_assoc)
qed (simp add: hex_value_def)

lemma hex_value_dbuf: "unat num < 16 ^ n \<Longrightarrow> hex_value (rev (dbuf_from n num)) = unat num"
proof (induction n arbitrary: num)
  case (Suc n)
  have "unat (num div 16) = unat num div 16" by (simp add: unat_div)
  moreover from this have "unat (num div 16) < 16 ^ n" using Suc.prems by (simp add: less_mult_imp_div_less mult.commute)
  ultimately show ?case
    using Suc.IH[of "num div 16"] by (simp add: hex_value_append hex_digit_num) (simp add: hex_value_def hex_digit_num)
qed (simp add: hex_value_def)

lemma hex_value_dropWhile: "hex_value (dropWhile (\<lambda>c. c = 48) xs @ ys) = hex_value (xs @ ys)"
proof (induction xs)
  case (Cons x xs)
  have "hex_value (48 # zs) = hex_value zs" for zs by (simp add: hex_value_def hex_digit_def)
  then show ?case using Cons by auto
qed simp

lemma num_text_value: "hex_value (num_text num) = unat num"
proof -
  let ?d = "dbuf_from 16 num"
  have c: "?d = hd ?d # tl ?d" by (metis length_dbuf list.collapse list.size(3) zero_neq_numeral)
  have "hex_value (num_text num) = hex_value (rev (tl ?d) @ [hd ?d])"
    unfolding num_text_def Let_def by (rule hex_value_dropWhile)
  also have "rev (tl ?d) @ [hd ?d] = rev ?d" by (subst (3) c) simp
  also have "hex_value (rev ?d) = unat num" using unsigned_less[of num] by (intro hex_value_dbuf) simp
  finally show ?thesis .
qed

section \<open>Properties\<close>

text \<open>A machine that consists of the CRT controller: the selected register and the two cursor registers.\<close>

definition demo_crt :: "(u8 \<times> u8 \<times> u8) machine" where
  "demo_crt = \<lparr>hw_out = (\<lambda>port b (sel, hi, lo).
       if port = 0x3d4 then (b, hi, lo)
       else if port = 0x3d5 then (if sel = 0x0e then (sel, b, lo) else if sel = 0x0f then (sel, hi, b) else (sel, hi, lo))
       else (sel, hi, lo)),
     hw_in = (\<lambda>port (sel, hi, lo). (if port = 0x3d5 then if sel = 0x0e then hi else lo else 0, (sel, hi, lo))),
     hw_outs = (\<lambda>port bs h. h), hw_ins = (\<lambda>port n h. ([], h)), hw_irq = (\<lambda>n h. False)\<rparr>"

lemma demo_crt_crtc: "crtc demo_crt (fst \<circ> snd) (snd \<circ> snd)"
  by (auto simp: crtc_def demo_crt_def Let_def split: prod.splits)

definition demo_hw :: "'h \<Rightarrow> 'h hwstate" where
  "demo_hw h = iostate.extend demo_io (hwstate.fields h (\<lambda>_. 0) 7 False (\<lambda>_. General_intr_handle)
     (\<lambda>_. \<lparr>off_low = 0, sct = 0, ist = 0, att = 0, off_mid = 0, off_high = 0, rsv = 0\<rparr>) (0, 0)
     \<lparr>len_low = 0, base0 = 0, base1 = 0, addr = 0, len_high = 0, base2 = 0, base3 = 0, tss_rsv = 0\<rparr> 0)"

lemma demo_hw_simps [simp]:
  "hw (demo_hw h) = h" "vmem (demo_hw h) = (\<lambda>_. 0)" "d_property (demo_hw h) = 7" "change_property (demo_hw h) = False"
  "links (demo_hw h) = links demo_io" "tasks (demo_hw h) = tasks demo_io" "ist2 (demo_hw h) = ist2 demo_io"
  "idle_task (demo_hw h) = idle_task demo_io" "intr_flag (demo_hw h) = intr_flag demo_io" "ioqs (demo_hw h) = ioqs demo_io"
  "sema_value (demo_hw h) = sema_value demo_io" "kernel_mem_pool (demo_hw h) = kernel_mem_pool demo_io"
  by (simp_all add: demo_hw_def iostate.extend_def hwstate.fields_def demo_io_def kstate.extend_def iostate.fields_def)



lemma num_digit_all: "list_all (\<lambda>k. plain (num_digit (of_nat k))) [0..<16]"
  by code_simp

lemma num_digit_plain: "plain (num_digit num)"
proof -
  have "num mod 16 = of_nat (unat num mod 16)" using word_arith_nat_mod[of num 16] by simp
  moreover have "num mod 16 mod 16 = num mod 16" by (simp add: word_unat_eq_iff unat_mod)
  then have "num_digit num = num_digit (num mod 16)" by (simp only: num_digit_def)
  ultimately show ?thesis using num_digit_all by (simp add: list_all_iff)
qed

lemma dbuf_plain: "c \<in> set (dbuf_from n num) \<Longrightarrow> plain c"
  by (induction n arbitrary: num) (auto intro: num_digit_plain)

lemma num_text_plain: "c \<in> set (num_text num) \<Longrightarrow> plain c"
proof -
  assume "c \<in> set (num_text num)"
  moreover have "dbuf_from 16 num \<noteq> []" by (metis length_dbuf list.size(3) zero_neq_numeral)
  ultimately have "c \<in> set (dbuf_from 16 num)"
    using list.set_sel by (fastforce simp: num_text_def Let_def dest: set_dropWhileD)
  then show "plain c" by (rule dbuf_plain)
qed

text \<open>Numbers on the screen: \<^verbatim>\<open>put_num\<close> prints hexadecimal digits whose value is its argument, without a leading
  zero; when they fit before the end of the screen they stand in the cells at the cursor, in the current colours,
  and no other cell changes.\<close>

theorem put_num_shows:
  assumes "crtc M hi lo" "view hi lo s = (p, v, d, False)" "p + 16 < 2000"
  shows "\<exists>s' ds. put_num M num s = Ret () s' \<and> hex_value ds = unat num \<and> ds \<noteq> [] \<and> length ds \<le> 16 \<and>
     (hd ds = 48 \<longrightarrow> length ds = 1) \<and>
     view hi lo s' = (p + length ds,
       (\<lambda>i. if int p \<le> i \<and> i < int (p + length ds) then cell (ds ! nat (i - int p)) d else v i), d, False)"
proof -
  let ?d = "dbuf_from 16 num" and ?ds = "num_text num"
  have len: "length ?ds \<le> 16"
    using length_dropWhile_le[of "\<lambda>c. c = 48" "rev (tl ?d)"] by (simp add: num_text_def Let_def)
  have lead: "hd ?ds = 48 \<longrightarrow> length ?ds = 1"
    using hd_dropWhile[of "\<lambda>c. c = 48" "rev (tl ?d)"] by (auto simp: num_text_def Let_def hd_append)
  have "0x08 \<notin> set ?ds" using num_text_plain[of 8 num] by (auto simp: plain_def)
  then obtain s' where "put_str M ?ds s = Ret () s'" "view hi lo s' = fold tty ?ds (p, v, d, False)"
    using put_str_tty[OF assms(1), of s ?ds] assms(2,3) by auto
  moreover have "?ds \<noteq> []" by (simp add: num_text_def Let_def)
  ultimately show ?thesis
    using len lead num_text_value[of num] num_text_plain assms(3)
    by (intro exI[of _ s'] exI[of _ ?ds]) (simp add: put_num_str fold_tty_plain)
qed

theorem put_num_shows_witness:
  "\<exists>s' ds. put_num demo_crt 0xbeef (demo_hw (0, 0, 0)) = Ret () s' \<and> hex_value ds = 0xbeef"
proof -
  have "view (fst \<circ> snd) (snd \<circ> snd) (demo_hw (0 :: u8, 0, 0)) = (0, \<lambda>_. 0, 7, False)"
    by (simp add: view_def cursor_def)
  then show ?thesis using put_num_shows[OF demo_crt_crtc, of "demo_hw (0, 0, 0)" 0 "\<lambda>_. 0" 7 "0xbeef"] by auto
qed

end
