(* ===== verification/Intr.thy ===== *)
theory Intr
  imports Print
begin

text \<open>
  Interrupt set-up: \<^verbatim>\<open>kernel/intr.c\<close> (the handler table, the interrupt descriptor table, the two interrupt
  controllers), \<^verbatim>\<open>kernel/tss.c\<close> and the timer chip of \<^verbatim>\<open>device/timer.c\<close>.

  The addresses of the assembler entries, \<^verbatim>\<open>intr_entry_table\<close>, and of the tables themselves are arguments. The
  theorem about \<^verbatim>\<open>intr_init\<close> and \<^verbatim>\<open>tss_init\<close> puts the fields of every descriptor together again, the way the
  processor does, and finds the address that was put in.
\<close>

unbundle bit_operations_syntax

section \<open>The code\<close>

definition IDT_DESC_CNT :: nat where "IDT_DESC_CNT = 0x30"

definition SELECTOR_K_CODE :: u16 where "SELECTOR_K_CODE = 8"

definition register_intr_handle :: "nat \<Rightarrow> handler \<Rightarrow> (('h, 'z) hwstate_scheme, unit) kcall" where
  "register_intr_handle num func =
     (if num < IDT_DESC_CNT
      then kput (\<lambda>s. s\<lparr>intr_handle_table := (intr_handle_table s)(num := func)\<rparr>)
      else fail OutOfBounds)"

text \<open>\<open>fr i\<close> is \<^verbatim>\<open>rbp_ptr[-i]\<close>, the frame the processor and the entry code have pushed.\<close>

definition put_intr_info :: "'h machine \<Rightarrow> u64 \<Rightarrow> (nat \<Rightarrow> u64) \<Rightarrow> u64 \<Rightarrow> (('h, 'z) hwstate_scheme, unit) kcall" where
  "put_intr_info M intr_nr fr cur_task =
     bnd (put_info M ([0x1b, 0x0c, 10, 10] @ str_of ''intr_nr:'' @ [9]) intr_nr) (\<lambda>_.
     bnd (put_info M (str_of ''ss_old:'' @ [9, 9]) (fr 0)) (\<lambda>_.
     bnd (put_info M (str_of ''rsp_old:'' @ [9]) (fr 1)) (\<lambda>_.
     bnd (put_info M (str_of ''rflags_old:'' @ [9]) (fr 2)) (\<lambda>_.
     bnd (put_info M (str_of ''cs_old:'' @ [9, 9]) (fr 3)) (\<lambda>_.
     bnd (put_info M (str_of ''rip_old:'' @ [9]) (fr 4)) (\<lambda>_.
     bnd (put_info M (str_of ''err_code:'' @ [9]) (fr 5)) (\<lambda>_.
     bnd (put_info M (str_of ''rbp_old:'' @ [9]) (fr 6)) (\<lambda>_.
     bnd (get_task cur_task) (\<lambda>t.
     put_info M (str_of ''task_pid'' @ [9]) (of_int (t_pid t)))))))))))"

definition general_intr_handle :: "'h machine \<Rightarrow> nat \<Rightarrow> (nat \<Rightarrow> u64) \<Rightarrow> (('h, 'z) hwstate_scheme, unit) kcall" where
  "general_intr_handle M intr_nr fr =
     (if intr_nr = 0x27 \<or> intr_nr = 0x2f \<or> intr_nr = 0x21 then ret ()
      else bnd running_task (\<lambda>cur_task.
           bnd (put_intr_info M (of_nat intr_nr) fr cur_task) (\<lambda>_.
           fail Diverges)))"

definition intr_handle_init :: "(('h, 'z) hwstate_scheme, unit) kcall" where
  "intr_handle_init = for_range 0 IDT_DESC_CNT (\<lambda>i. register_intr_handle i General_intr_handle)"

definition idt_gate :: "u64 \<Rightarrow> idt_des \<Rightarrow> idt_des" where
  "idt_gate entry d = d\<lparr>
     off_high := ucast (drop_bit 32 (0xffffffff00000000 AND entry)),
     off_mid := ucast (drop_bit 16 (0xffff0000 AND entry)),
     off_low := ucast (0xffff AND entry),
     ist := 1, sct := SELECTOR_K_CODE, att := 0x8e\<rparr>"

text \<open>A descriptor has 16 bytes; \<open>table\<close> is the address of \<^verbatim>\<open>idt_table\<close>.\<close>

definition idt_init :: "(nat \<Rightarrow> u64) \<Rightarrow> u64 \<Rightarrow> (('h, 'z) hwstate_scheme, unit) kcall" where
  "idt_init intr_entry_table table =
     bnd (for_range 0 IDT_DESC_CNT (\<lambda>i.
       kput (\<lambda>s. s\<lparr>idt_table := (idt_table s)(i := idt_gate (intr_entry_table i) (idt_table s i))\<rparr>))) (\<lambda>_.
     kput (\<lambda>s. s\<lparr>idtr := ((of_nat (IDT_DESC_CNT * 16) - 1) OR push_bit 16 table, drop_bit 48 table)\<rparr>))"

definition pic_init :: "'h machine \<Rightarrow> (('h, 'z) hwstate_scheme, unit) kcall" where
  "pic_init M =
     bnd (put_str M (str_of ''pic_init: start'' @ [10])) (\<lambda>_.
     bnd (outb M 0x20 0x11) (\<lambda>_. bnd (outb M 0x21 0x20) (\<lambda>_.
     bnd (outb M 0x21 0x04) (\<lambda>_. bnd (outb M 0x21 0x01) (\<lambda>_.
     bnd (outb M 0xa0 0x11) (\<lambda>_. bnd (outb M 0xa1 0x28) (\<lambda>_.
     bnd (outb M 0xa1 0x02) (\<lambda>_. bnd (outb M 0xa1 0x01) (\<lambda>_.
     bnd (outb M 0x21 0xfe) (\<lambda>_. bnd (outb M 0xa1 0xff) (\<lambda>_.
     bnd (outb M 0x21 0xf8) (\<lambda>_.
     bnd (outb M 0xa1 0xbf) (\<lambda>_.
     put_str M (str_of ''pic_init: done'' @ [10]))))))))))))))"

definition intr_init :: "'h machine \<Rightarrow> (nat \<Rightarrow> u64) \<Rightarrow> u64 \<Rightarrow> (('h, 'z) hwstate_scheme, unit) kcall" where
  "intr_init M intr_entry_table table =
     bnd (put_str M (str_of ''intr_init: start'' @ [10])) (\<lambda>_.
     bnd (pic_init M) (\<lambda>_.
     bnd intr_handle_init (\<lambda>_.
     bnd (idt_init intr_entry_table table) (\<lambda>_.
     bnd (kput (\<lambda>s. s\<lparr>idt_table := (idt_table s)(0x20 := (idt_table s 0x20)\<lparr>ist := 2\<rparr>)\<rparr>)) (\<lambda>_.
     put_str M (str_of ''intr_init: end'' @ [10]))))))"

text \<open>\<^verbatim>\<open>sizeof(struct tss)\<close> is 104 bytes.\<close>

definition sizeof_tss :: u32 where "sizeof_tss = 104"

definition tss_descriptor :: "u64 \<Rightarrow> tss_des \<Rightarrow> tss_des" where
  "tss_descriptor tss_base d = d\<lparr>
     base0 := ucast (tss_base AND 0xffff),
     base1 := ucast (drop_bit 16 (tss_base AND 0xff0000)),
     base2 := ucast (drop_bit 24 (tss_base AND 0xff000000)),
     base3 := ucast (drop_bit 32 (tss_base AND 0xffffffff00000000)),
     len_low := ucast (sizeof_tss AND 0xffff),
     len_high := ucast (sizeof_tss AND 0xf0000),
     addr := 0x89\<rparr>"

definition tss_init :: "'h machine \<Rightarrow> u64 \<Rightarrow> (('h, 'z) hwstate_scheme, unit) kcall" where
  "tss_init M tss_base =
     bnd (put_str M (str_of ''tss_init: start'' @ [10])) (\<lambda>_.
     bnd (kput (\<lambda>s. s\<lparr>tss_gdt := tss_descriptor tss_base (tss_gdt s)\<rparr>)) (\<lambda>_.
     bnd (kput (\<lambda>s. s\<lparr>task_reg := 0x18\<rparr>)) (\<lambda>_.
     put_str M (str_of ''tss_init: end'' @ [10]))))"

text \<open>The timer chip; \<^verbatim>\<open>CounterValue\<close> is a \<^verbatim>\<open>uint8_t\<close>, shifted as an \<^verbatim>\<open>int\<close>.\<close>

definition freqc_set :: "'h machine \<Rightarrow> u8 \<Rightarrow> u8 \<Rightarrow> u8 \<Rightarrow> u8 \<Rightarrow> u8 \<Rightarrow> (('h, 'z) hwstate_scheme, unit) kcall" where
  "freqc_set M CounterPort CounterNo rwl CounterMode CounterValue =
     bnd (outb M 0x43 (push_bit 6 CounterNo OR push_bit 4 rwl OR push_bit 1 CounterMode)) (\<lambda>_.
     bnd (outb M (ucast CounterPort) CounterValue) (\<lambda>_.
     outb M (ucast CounterPort) (ucast (drop_bit 8 (ucast CounterValue :: u32)))))"

definition timer_init :: "'h machine \<Rightarrow> (('h, 'z) hwstate_scheme, unit) kcall" where
  "timer_init M =
     bnd (put_str M (str_of ''timer_init: start'' @ [10])) (\<lambda>_.
     bnd (freqc_set M 0x40 0 3 2 (of_nat (1193180 div 100))) (\<lambda>_.
     bnd (register_intr_handle 0x20 Intr_time_handle) (\<lambda>_.
     put_str M (str_of ''timer_init: end'' @ [10]))))"

section \<open>Descriptors\<close>

text \<open>The address the processor reads out of a gate, and out of the descriptor of the task state segment.\<close>

definition gate_target :: "idt_des \<Rightarrow> u64" where
  "gate_target d = ucast (off_low d) OR push_bit 16 (ucast (off_mid d)) OR push_bit 32 (ucast (off_high d))"

definition tss_target :: "tss_des \<Rightarrow> u64" where
  "tss_target d = ucast (base0 d) OR push_bit 16 (ucast (base1 d)) OR push_bit 24 (ucast (base2 d)) OR
     push_bit 32 (ucast (base3 d))"

lemma masks:
  "(0xffff :: u64) = mask 16" "(0xffff0000 :: u64) = push_bit 16 (mask 16)"
  "(0xffffffff00000000 :: u64) = push_bit 32 (mask 32)"
  "(0xff0000 :: u64) = push_bit 16 (mask 8)" "(0xff000000 :: u64) = push_bit 24 (mask 8)"
  by (simp_all add: mask_eq_exp_minus_1 push_bit_eq_mult)

lemma bit_chunk:
  fixes x :: u64
  shows "bit (push_bit k (ucast (ucast (drop_bit k x) :: 'w::len word)) :: u64) n \<longleftrightarrow>
     n < 64 \<and> k \<le> n \<and> n < k + LENGTH('w) \<and> bit x n"
  by (auto simp: bit_push_bit_iff bit_ucast_iff bit_drop_bit_eq)

lemma bit_chunk0:
  fixes x :: u64
  shows "bit (ucast (ucast x :: 'w::len word) :: u64) n \<longleftrightarrow> n < 64 \<and> n < LENGTH('w) \<and> bit x n"
  by (auto simp: bit_ucast_iff)

lemma bit_mask_at:
  "bit (push_bit k (mask w) :: u64) n \<longleftrightarrow> n < 64 \<and> k \<le> n \<and> n < k + w" "bit (mask w :: u64) n \<longleftrightarrow> n < 64 \<and> n < w"
  by (auto simp: bit_push_bit_iff bit_mask_iff)

lemma gate_target_gate: "gate_target (idt_gate e d) = e"
  by (rule bit_word_eqI)
    (auto simp: gate_target_def idt_gate_def masks bit_or_iff bit_and_iff bit_chunk bit_chunk0 bit_mask_at simp del: drop_bit_and)

lemma tss_target_descriptor: "tss_target (tss_descriptor b d) = b"
  by (rule bit_word_eqI)
    (auto simp: tss_target_def tss_descriptor_def masks bit_or_iff bit_and_iff bit_chunk bit_chunk0 bit_mask_at simp del: drop_bit_and)

text \<open>The tables after the loops.\<close>

lemma for_range_put:
  assumes step: "\<And>i s. a \<le> i \<Longrightarrow> i < a + n \<Longrightarrow> body i s = Ret () (upd (f i) s)"
    and comp: "\<And>g h s. upd g (upd h s) = upd (g \<circ> h) s" and ident: "\<And>s. upd id s = s"
  shows "for_range a n body s = Ret () (upd (fold f [a..<a + n]) s)"
  using step
proof (induction n arbitrary: a s)
  case 0
  have "fold f [] = id" by (simp add: id_def fun_eq_iff)
  moreover have "[a..<a + 0] = []" by simp
  ultimately show ?case using ident[of s] by (simp only: for_range.simps ret_def)
next
  case (Suc n)
  have "for_range (Suc a) n body (upd (f a) s) = Ret () (upd (fold f [Suc a..<Suc a + n]) (upd (f a) s))"
    by (rule Suc.IH) (simp add: Suc.prems)
  moreover have "[a..<a + Suc n] = a # [Suc a..<Suc a + n]" by (simp add: upt_conv_Cons)
  moreover have "for_range a (Suc n) body s = for_range (Suc a) n body (upd (f a) s)" using Suc.prems[of a] by simp
  ultimately show ?case by (simp only: comp fold.simps)
qed

lemma fold_fun_upd:
  "fold (\<lambda>i t. t(i := g i (t i))) [a..<a + n] t = (\<lambda>i. if a \<le> i \<and> i < a + n then g i (t i) else t i)"
proof (induction n arbitrary: a t)
  case (Suc n)
  have "[a..<a + Suc n] = a # [Suc a..<Suc a + n]" by (simp add: upt_conv_Cons)
  then show ?case using Suc.IH[of "Suc a" "t(a := g a (t a))"] by (auto simp: fun_eq_iff)
qed (auto simp: fun_eq_iff)

lemma handlers_loop:
  "for_range 0 IDT_DESC_CNT (\<lambda>i. register_intr_handle i f) s =
     Ret () (s\<lparr>intr_handle_table := (\<lambda>i. if i < IDT_DESC_CNT then f else intr_handle_table s i)\<rparr>)"
  using for_range_put[of 0 IDT_DESC_CNT "\<lambda>i. register_intr_handle i f" intr_handle_table_update "\<lambda>i t. t(i := f)" s]
    fold_fun_upd[of "\<lambda>i x. f" 0 IDT_DESC_CNT "intr_handle_table s"]
  by (simp add: register_intr_handle_def kput_def comp_def)

lemma gates_loop:
  "for_range 0 n (\<lambda>i. kput (\<lambda>s. s\<lparr>idt_table := (idt_table s)(i := idt_gate (e i) (idt_table s i))\<rparr>)) s =
     Ret () (s\<lparr>idt_table := (\<lambda>i. if i < n then idt_gate (e i) (idt_table s i) else idt_table s i)\<rparr>)"
  using for_range_put[of 0 n _ idt_table_update "\<lambda>i t. t(i := idt_gate (e i) (t i))" s]
    fold_fun_upd[of "\<lambda>i x. idt_gate (e i) x" 0 n "idt_table s"]
  by (simp add: kput_def comp_def)

lemma screened_tables [simp]:
  "intr_handle_table (screened h v d c s) = intr_handle_table s" "idt_table (screened h v d c s) = idt_table s"
  "idtr (screened h v d c s) = idtr s" "tss_gdt (screened h v d c s) = tss_gdt s"
  "task_reg (screened h v d c s) = task_reg s"
  by (simp_all add: screened_def)

lemma put_str_runs: "\<exists>h v d c. put_str M str s = Ret () (screened h v d c s)"
  by (rule printsD[OF prints_put_str])

lemma prints_pic_init: "prints (pic_init M)"
  unfolding pic_init_def by (intro prints_bnd prints_put_str prints_outb)

lemma intr_init_ok:
  "\<exists>s'. intr_init M e table s = Ret () s' \<and> intr_handle_table s' = (\<lambda>i. if i < IDT_DESC_CNT then General_intr_handle else intr_handle_table s i) \<and>
     (\<forall>i. idt_table s' i = (if i = 0x20 then (idt_gate (e i) (idt_table s i))\<lparr>ist := 2\<rparr>
        else if i < IDT_DESC_CNT then idt_gate (e i) (idt_table s i) else idt_table s i)) \<and>
     idtr s' = ((of_nat (IDT_DESC_CNT * 16) - 1) OR push_bit 16 table, drop_bit 48 table)"
proof -
  obtain h1 v1 d1 c1 where 1: "put_str M (str_of ''intr_init: start'' @ [10]) s = Ret () (screened h1 v1 d1 c1 s)"
    using put_str_runs[of M "str_of ''intr_init: start'' @ [10]" s] by blast
  obtain h2 v2 d2 c2 where 2: "pic_init M (screened h1 v1 d1 c1 s) = Ret () (screened h2 v2 d2 c2 s)"
    using printsD[OF prints_pic_init[of M], of "screened h1 v1 d1 c1 s"] by (auto simp: screened_screened)
  define t where "t = screened h2 v2 d2 c2 s"
  define u where "u = t\<lparr>intr_handle_table := (\<lambda>i. if i < IDT_DESC_CNT then General_intr_handle else intr_handle_table t i),
     idt_table := (\<lambda>i. if i < IDT_DESC_CNT then idt_gate (e i) (idt_table t i) else idt_table t i),
     idtr := ((of_nat (IDT_DESC_CNT * 16) - 1) OR push_bit 16 table, drop_bit 48 table)\<rparr>"
  define w where "w = u\<lparr>idt_table := (idt_table u)(0x20 := (idt_table u 0x20)\<lparr>ist := 2\<rparr>)\<rparr>"
  obtain h3 v3 d3 c3 where 3: "put_str M (str_of ''intr_init: end'' @ [10]) w = Ret () (screened h3 v3 d3 c3 w)"
    using put_str_runs[of M "str_of ''intr_init: end'' @ [10]" w] by blast
  have a: "intr_handle_init t = Ret () (t\<lparr>intr_handle_table := (\<lambda>i. if i < IDT_DESC_CNT then General_intr_handle else intr_handle_table t i)\<rparr>)"
    unfolding intr_handle_init_def by (rule handlers_loop)
  have b: "idt_init e table (t\<lparr>intr_handle_table := (\<lambda>i. if i < IDT_DESC_CNT then General_intr_handle else intr_handle_table t i)\<rparr>) =
     Ret () (t\<lparr>intr_handle_table := (\<lambda>i. if i < IDT_DESC_CNT then General_intr_handle else intr_handle_table t i),
     idt_table := (\<lambda>i. if i < IDT_DESC_CNT then idt_gate (e i) (idt_table t i) else idt_table t i),
     idtr := ((of_nat (IDT_DESC_CNT * 16) - 1) OR push_bit 16 table, drop_bit 48 table)\<rparr>)"
    unfolding idt_init_def by (simp add: gates_loop kput_def cong: if_cong)
  have "intr_init M e table s = Ret () (screened h3 v3 d3 c3 w)"
    unfolding intr_init_def
    by (simp only: bnd_run(1) 1 2[folded t_def] a b[folded u_def] bnd_basic w_def[symmetric] 3)
  then show ?thesis by (auto simp: w_def u_def t_def IDT_DESC_CNT_def)
qed

lemma idtr_fields:
  "(((of_nat (IDT_DESC_CNT * 16) - 1) OR push_bit 16 table) AND 0xffff :: u64) = of_nat (IDT_DESC_CNT * 16) - 1"
  "drop_bit 16 ((of_nat (IDT_DESC_CNT * 16) - 1) OR push_bit 16 table) OR push_bit 48 (drop_bit 48 table) = (table :: u64)"
proof -
  have l: "of_nat (IDT_DESC_CNT * 16) - 1 = (767 :: u64)" by (simp add: IDT_DESC_CNT_def)
  have "take_bit 16 (767 :: u64) = 767" "drop_bit 16 (767 :: u64) = 0" by simp_all
  then show "(((of_nat (IDT_DESC_CNT * 16) - 1) OR push_bit 16 table) AND 0xffff :: u64) = of_nat (IDT_DESC_CNT * 16) - 1"
    unfolding l masks take_bit_eq_mask[symmetric] by (simp add: take_bit_or take_bit_push_bit)
  show "drop_bit 16 ((of_nat (IDT_DESC_CNT * 16) - 1) OR push_bit 16 table) OR push_bit 48 (drop_bit 48 table) = table"
    unfolding l drop_bit_or \<open>drop_bit 16 (767 :: u64) = 0\<close> or.left_neutral
  proof (rule bit_word_eqI)
    fix n assume "n < LENGTH(64)"
    then show "bit (drop_bit 16 (push_bit 16 table) OR push_bit 48 (drop_bit 48 table)) n = bit table n"
      by (cases "n < 48") (auto simp: bit_simps)
  qed
qed

section \<open>Properties\<close>

text \<open>C20. The descriptor tables lead where they should: after \<^verbatim>\<open>intr_init\<close> and \<^verbatim>\<open>tss_init\<close> the processor finds, behind
  each of the 48 vectors, a kernel interrupt gate whose target is the entry of that vector and which switches to the
  first interrupt stack, or to the second one for the timer; every vector has the general handler; the
  interrupt table register holds the address and the size of the table; and the task state segment found behind
  selector 0x18 is the kernel's.\<close>

theorem descriptor_tables:
  shows "\<exists>s'. bnd (intr_init M intr_entry_table table) (\<lambda>_. tss_init M tss) s = Ret () s' \<and>
     (\<forall>i < 48. gate_target (idt_table s' i) = intr_entry_table i \<and> sct (idt_table s' i) = SELECTOR_K_CODE \<and>
        att (idt_table s' i) = 0x8e \<and> ist (idt_table s' i) = (if i = 0x20 then 2 else 1) \<and>
        intr_handle_table s' i = General_intr_handle) \<and>
     fst (idtr s') AND 0xffff = 48 * 16 - 1 \<and> drop_bit 16 (fst (idtr s')) OR push_bit 48 (snd (idtr s')) = table \<and>
     tss_target (tss_gdt s') = tss \<and> addr (tss_gdt s') = 0x89 \<and> task_reg s' = 0x18"
proof -
  obtain t where t: "intr_init M intr_entry_table table s = Ret () t"
      "intr_handle_table t = (\<lambda>i. if i < IDT_DESC_CNT then General_intr_handle else intr_handle_table s i)"
      "\<forall>i. idt_table t i = (if i = 0x20 then (idt_gate (intr_entry_table i) (idt_table s i))\<lparr>ist := 2\<rparr>
        else if i < IDT_DESC_CNT then idt_gate (intr_entry_table i) (idt_table s i) else idt_table s i)"
      "idtr t = ((of_nat (IDT_DESC_CNT * 16) - 1) OR push_bit 16 table, drop_bit 48 table)"
    using intr_init_ok[of M intr_entry_table table s] by blast
  obtain h1 v1 d1 c1 where 1: "put_str M (str_of ''tss_init: start'' @ [10]) t = Ret () (screened h1 v1 d1 c1 t)"
    using put_str_runs[of M "str_of ''tss_init: start'' @ [10]" t] by blast
  define u where "u = (screened h1 v1 d1 c1 t)\<lparr>tss_gdt := tss_descriptor tss (tss_gdt t), task_reg := 0x18\<rparr>"
  obtain h2 v2 d2 c2 where 2: "put_str M (str_of ''tss_init: end'' @ [10]) u = Ret () (screened h2 v2 d2 c2 u)"
    using put_str_runs[of M "str_of ''tss_init: end'' @ [10]" u] by blast
  let ?s = "screened h2 v2 d2 c2 u"
  have run: "bnd (intr_init M intr_entry_table table) (\<lambda>_. tss_init M tss) s = Ret () ?s"
    using t(1) 1 2 by (simp add: tss_init_def u_def)
  have "gate_target (idt_table ?s i) = intr_entry_table i \<and> sct (idt_table ?s i) = SELECTOR_K_CODE \<and>
        att (idt_table ?s i) = 0x8e \<and> ist (idt_table ?s i) = (if i = 0x20 then 2 else 1) \<and>
        intr_handle_table ?s i = General_intr_handle" if "i < 48" for i
  proof -
    have "gate_target (d\<lparr>ist := x\<rparr>) = gate_target d" for d x by (simp add: gate_target_def)
    then have "gate_target (idt_table t i) = intr_entry_table i"
      using t(3) that by (simp add: IDT_DESC_CNT_def gate_target_gate)
    then show ?thesis using that t(2,3) by (auto simp: u_def IDT_DESC_CNT_def idt_gate_def screened_def)
  qed
  moreover have "fst (idtr ?s) AND 0xffff = 48 * 16 - 1" "drop_bit 16 (fst (idtr ?s)) OR push_bit 48 (snd (idtr ?s)) = table"
    using t(4) idtr_fields[of table] by (simp_all add: u_def IDT_DESC_CNT_def)
  moreover have "tss_target (tss_gdt ?s) = tss" "addr (tss_gdt ?s) = 0x89" "task_reg ?s = 0x18"
    by (simp_all add: u_def tss_target_descriptor) (simp add: tss_descriptor_def)
  ultimately show ?thesis using run by blast
qed

theorem descriptor_tables_witness:
  "\<exists>s'. bnd (intr_init demo_crt (\<lambda>i. 0xffff800000001000 + of_nat i * 16) 0xffff800000005000) (\<lambda>_. tss_init demo_crt 0xffff800000006000)
     (demo_hw (0, 0, 0)) = Ret () s' \<and> gate_target (idt_table s' 3) = 0xffff800000001030"
  using descriptor_tables[of demo_crt "\<lambda>i. 0xffff800000001000 + of_nat i * 16" "0xffff800000005000" "0xffff800000006000" "demo_hw (0, 0, 0)"]
  by fastforce

end
