(* ===== verification/Keyboard.thy ===== *)
theory Keyboard
  imports Intr
begin

text \<open>
  The keyboard interrupt of \<^verbatim>\<open>device/keyboard.c\<close>: a state machine over scan codes that keeps the modifier keys
  and puts characters into the queue \<^verbatim>\<open>kbd_buf\<close>. What the keyboard sends is what port \<^verbatim>\<open>0x60\<close> yields. Also \<^verbatim>\<open>console_read\<close> of \<^verbatim>\<open>device/console.c\<close>, which takes
  characters out again.
\<close>

unbundle bit_operations_syntax

section \<open>The code\<close>

record 'h kbdstate = "'h hwstate" +
  ctrl_status :: bool
  shift_status :: bool
  alt_status :: bool
  caps_lock_status :: bool
  ext_scancode :: bool

text \<open>The address of the queue; a queue in a pipe's page has a page-aligned address.\<close>

definition kbd_buf :: u64 where "kbd_buf = 8"

definition keymap :: "(char \<times> char) list" where
  "keymap =
    [(CHR 0x00, CHR 0x00),
     (CHR 0x1B, CHR 0x1B),
     (CHR ''1'', CHR ''!''),
     (CHR ''2'', CHR ''@''),
     (CHR ''3'', CHR ''#''),
     (CHR ''4'', CHR ''$''),
     (CHR ''5'', CHR ''%''),
     (CHR ''6'', CHR ''^''),
     (CHR ''7'', CHR ''&''),
     (CHR ''8'', CHR ''*''),
     (CHR ''9'', CHR ''(''),
     (CHR ''0'', CHR '')''),
     (CHR ''-'', CHR ''_''),
     (CHR ''='', CHR ''+''),
     (CHR 0x08, CHR 0x08),
     (CHR 0x09, CHR 0x09),
     (CHR ''q'', CHR ''Q''),
     (CHR ''w'', CHR ''W''),
     (CHR ''e'', CHR ''E''),
     (CHR ''r'', CHR ''R''),
     (CHR ''t'', CHR ''T''),
     (CHR ''y'', CHR ''Y''),
     (CHR ''u'', CHR ''U''),
     (CHR ''i'', CHR ''I''),
     (CHR ''o'', CHR ''O''),
     (CHR ''p'', CHR ''P''),
     (CHR ''['', CHR ''{''),
     (CHR '']'', CHR ''}''),
     (CHR 0x0D, CHR 0x0D),
     (CHR 0x00, CHR 0x00),
     (CHR ''a'', CHR ''A''),
     (CHR ''s'', CHR ''S''),
     (CHR ''d'', CHR ''D''),
     (CHR ''f'', CHR ''F''),
     (CHR ''g'', CHR ''G''),
     (CHR ''h'', CHR ''H''),
     (CHR ''j'', CHR ''J''),
     (CHR ''k'', CHR ''K''),
     (CHR ''l'', CHR ''L''),
     (CHR '';'', CHR '':''),
     (CHR 0x27, CHR 0x22),
     (CHR 0x60, CHR ''~''),
     (CHR 0x00, CHR 0x00),
     (CHR 0x5C, CHR ''|''),
     (CHR ''z'', CHR ''Z''),
     (CHR ''x'', CHR ''X''),
     (CHR ''c'', CHR ''C''),
     (CHR ''v'', CHR ''V''),
     (CHR ''b'', CHR ''B''),
     (CHR ''n'', CHR ''N''),
     (CHR ''m'', CHR ''M''),
     (CHR '','', CHR ''<''),
     (CHR ''.'', CHR ''>''),
     (CHR ''/'', CHR ''?''),
     (CHR 0x00, CHR 0x00),
     (CHR ''*'', CHR ''*''),
     (CHR 0x00, CHR 0x00),
     (CHR 0x20, CHR 0x20),
     (CHR 0x00, CHR 0x00)]"

definition shift_l_make :: u16 where "shift_l_make = 0x2a"
definition shift_r_make :: u16 where "shift_r_make = 0x36"
definition alt_l_make :: u16 where "alt_l_make = 0x38"
definition alt_r_make :: u16 where "alt_r_make = 0xe038"
definition ctrl_l_make :: u16 where "ctrl_l_make = 0x1d"
definition ctrl_r_make :: u16 where "ctrl_r_make = 0xe01d"
definition caps_lock_make :: u16 where "caps_lock_make = 0x3a"

lemmas make_codes = shift_l_make_def shift_r_make_def alt_l_make_def alt_r_make_def ctrl_l_make_def
  ctrl_r_make_def caps_lock_make_def

text \<open>A key goes up.\<close>

definition key_break :: "u16 \<Rightarrow> (('h, 'z) kbdstate_scheme, unit) kcall" where
  "key_break make_code =
     (if make_code = ctrl_l_make \<or> make_code = ctrl_r_make then kput (\<lambda>s. s\<lparr>ctrl_status := False\<rparr>)
      else if make_code = shift_l_make \<or> make_code = shift_r_make then kput (\<lambda>s. s\<lparr>shift_status := False\<rparr>)
      else if make_code = alt_l_make \<or> make_code = alt_r_make then kput (\<lambda>s. s\<lparr>alt_status := False\<rparr>)
      else ret ())"

text \<open>Which column of \<^verbatim>\<open>keymap\<close> a make code uses.\<close>

definition two_char_key :: "u16 \<Rightarrow> bool" where
  "two_char_key scancode \<longleftrightarrow> scancode < 0x0e \<or> scancode = 0x29 \<or> scancode = 0x1a \<or> scancode = 0x1b \<or>
     scancode = 0x2b \<or> scancode = 0x27 \<or> scancode = 0x28 \<or> scancode = 0x33 \<or> scancode = 0x34 \<or> scancode = 0x35"

definition shift_column :: "u16 \<Rightarrow> bool \<Rightarrow> bool \<Rightarrow> bool" where
  "shift_column scancode shift_down_last caps_lock_last =
     (if two_char_key scancode then shift_down_last
      else if shift_down_last \<and> caps_lock_last then False
      else if shift_down_last \<or> caps_lock_last then True
      else False)"

definition keymap_at :: "nat \<Rightarrow> bool \<Rightarrow> char res" where
  "keymap_at index shift =
     (if index < length keymap then Inr ((if shift then snd else fst) (keymap ! index)) else Inl OutOfBounds)"

text \<open>The shortcuts: with the control key down, \<^verbatim>\<open>l\<close>, \<^verbatim>\<open>u\<close> and \<^verbatim>\<open>c\<close> become their distance from \<^verbatim>\<open>a\<close>.\<close>

definition ctrl_char :: "bool \<Rightarrow> u8 \<Rightarrow> u8" where
  "ctrl_char ctrl_down_last cur_char =
     (if ctrl_down_last \<and> cur_char = of_char (CHR ''l'') \<or>
         ctrl_down_last \<and> cur_char = of_char (CHR ''u'') \<or>
         ctrl_down_last \<and> cur_char = of_char (CHR ''c'')
      then cur_char - of_char (CHR ''a'') else cur_char)"

text \<open>A key goes down.\<close>

definition key_make :: "u16 \<Rightarrow> bool \<Rightarrow> bool \<Rightarrow> bool \<Rightarrow> (('h, 'z) kbdstate_scheme, unit) kcall" where
  "key_make scancode ctrl_down_last shift_down_last caps_lock_last =
     (let shift = shift_column scancode shift_down_last caps_lock_last;
          scancode = scancode AND 0x00ff in
     bnd (of_res (keymap_at (unat scancode) shift)) (\<lambda>c.
     let cur_char = of_char c :: u8 in
     if cur_char \<noteq> 0
     then bnd (ioq_full kbd_buf) (\<lambda>full.
          if \<not> full then ioq_putchar kbd_buf (ctrl_char ctrl_down_last cur_char) else ret ())
     else if scancode = ctrl_l_make \<or> scancode = ctrl_r_make then kput (\<lambda>s. s\<lparr>ctrl_status := True\<rparr>)
     else if scancode = shift_l_make \<or> scancode = shift_r_make then kput (\<lambda>s. s\<lparr>shift_status := True\<rparr>)
     else if scancode = alt_l_make \<or> scancode = alt_r_make then kput (\<lambda>s. s\<lparr>alt_status := True\<rparr>)
     else if scancode = caps_lock_make then kput (\<lambda>s. s\<lparr>caps_lock_status := \<not> caps_lock_status s\<rparr>)
     else ret ()))"

text \<open>The handler once it has read the scan code, with the modifiers from before this interrupt.\<close>

definition key_code :: "'h machine \<Rightarrow> bool \<Rightarrow> bool \<Rightarrow> bool \<Rightarrow> u16 \<Rightarrow> (('h, 'z) kbdstate_scheme, unit) kcall" where
  "key_code M ctrl_down_last shift_down_last caps_lock_last scancode =
     (if scancode = 0xe0 then kput (\<lambda>s. s\<lparr>ext_scancode := True\<rparr>)
      else
        bnd (kget ext_scancode) (\<lambda>ext.
        let scancode = (if ext then 0xe000 OR scancode else scancode) in
        bnd (if ext then kput (\<lambda>s. s\<lparr>ext_scancode := False\<rparr>) else ret ()) (\<lambda>_.
        if scancode AND 0x0080 \<noteq> 0 then key_break (scancode AND 0xff7f)
        else if scancode > 0x00 \<and> scancode < 0x3b \<or> scancode = alt_r_make \<or> scancode = ctrl_r_make
        then key_make scancode ctrl_down_last shift_down_last caps_lock_last
        else put_str M (str_of ''unknown key'' @ [10]))))"

definition intr_keyboard_hdl :: "'h machine \<Rightarrow> (('h, 'z) kbdstate_scheme, unit) kcall" where
  "intr_keyboard_hdl M =
     bnd (kget ctrl_status) (\<lambda>ctrl_down_last.
     bnd (kget shift_status) (\<lambda>shift_down_last.
     bnd (kget caps_lock_status) (\<lambda>caps_lock_last.
     bnd (inb M 0x60) (\<lambda>b.
     key_code M ctrl_down_last shift_down_last caps_lock_last (ucast b)))))"

definition keyboard_init :: "'h machine \<Rightarrow> (('h, 'z) kbdstate_scheme, unit) kcall" where
  "keyboard_init M =
     bnd (put_str M (str_of ''keyboard_init: start'' @ [10])) (\<lambda>_.
     bnd (ioqueue_init kbd_buf) (\<lambda>_.
     bnd (register_intr_handle 0x21 Intr_keyboard_hdl) (\<lambda>_.
     put_str M (str_of ''keyboard_init: done'' @ [10]))))"

text \<open>\<^verbatim>\<open>console_read\<close>: the characters go to consecutive places of the buffer.\<close>

definition console_read :: "nat \<Rightarrow> ('z iostate_scheme, u8 list) kcall" where
  "console_read count = get_chars kbd_buf count"

section \<open>What the handler does\<close>

lemma length_keymap [simp]: "length keymap = 59"
  by (simp add: keymap_def)

definition handled :: "u16 \<Rightarrow> bool" where
  "handled sc \<longleftrightarrow> sc > 0 \<and> sc < 0x3b \<or> sc = alt_r_make \<or> sc = ctrl_r_make"

lemma handled_index:
  assumes "handled sc"
  shows "unat (sc AND 0x00ff) < 59"
proof -
  have "sc AND 0x00ff = sc" if "sc < 0x3b"
  proof -
    have "take_bit 8 sc = sc"
      using that unfolding word_unat_eq_iff unsigned_take_bit_eq
      by (intro take_bit_nat_eq_self) (simp add: word_less_nat_alt)
    moreover have "(0x00ff :: u16) = mask 8" by (simp add: mask_eq_exp_minus_1)
    ultimately show ?thesis by (simp add: take_bit_eq_mask)
  qed
  then show ?thesis using assms by (auto simp: handled_def make_codes word_less_nat_alt)
qed

text \<open>The handler on a given byte.\<close>

definition key_intr :: "'h machine \<Rightarrow> u8 \<Rightarrow> (('h, 'z) kbdstate_scheme, unit) kcall" where
  "key_intr M b s = key_code M (ctrl_status s) (shift_status s) (caps_lock_status s) (ucast b) s"

lemma intr_keyboard_eq:
  "intr_keyboard_hdl M s = key_intr M (fst (hw_in M 0x60 (hw s))) (s\<lparr>hw := snd (hw_in M 0x60 (hw s))\<rparr>)"
  by (simp add: intr_keyboard_hdl_def key_intr_def)

text \<open>The queue of the keyboard can be written by an interrupt.\<close>

definition kbd_ok :: "'z iostate_scheme \<Rightarrow> u64 \<Rightarrow> u64 list \<Rightarrow> (sema \<Rightarrow> u64 list) \<Rightarrow> bool" where
  "kbd_ok s cur rs ws \<longleftrightarrow> run_ok s cur rs ws \<and> intr_flag s = intr_off \<and> ring_ok (ioqs s kbd_buf) \<and>
     (consumer (ioqs s kbd_buf) = 0 \<or> sleeping s rs ws (consumer (ioqs s kbd_buf)))"

abbreviation kbd_chars :: "'z iostate_scheme \<Rightarrow> u8 list" where
  "kbd_chars s \<equiv> contents (ioqs s kbd_buf)"

text \<open>The modifiers, apart from the rest of the state.\<close>

record mods =
  m_ctrl :: bool
  m_shift :: bool
  m_alt :: bool
  m_caps :: bool
  m_ext :: bool

definition mods_of :: "('h, 'z) kbdstate_scheme \<Rightarrow> mods" where
  "mods_of s = \<lparr>m_ctrl = ctrl_status s, m_shift = shift_status s, m_alt = alt_status s,
     m_caps = caps_lock_status s, m_ext = ext_scancode s\<rparr>"

lemma kbd_ok_mods [simp]:
  fixes s :: "('h, 'z) kbdstate_scheme"
  shows "kbd_ok (s\<lparr>ctrl_status := b\<rparr>) cur rs ws = kbd_ok s cur rs ws"
    "kbd_ok (s\<lparr>shift_status := b\<rparr>) cur rs ws = kbd_ok s cur rs ws"
    "kbd_ok (s\<lparr>alt_status := b\<rparr>) cur rs ws = kbd_ok s cur rs ws"
    "kbd_ok (s\<lparr>caps_lock_status := b\<rparr>) cur rs ws = kbd_ok s cur rs ws"
    "kbd_ok (s\<lparr>ext_scancode := b\<rparr>) cur rs ws = kbd_ok s cur rs ws"
  by (simp_all add: kbd_ok_def sleeping_def cong: run_ok_cong)

lemma kbd_ok_hw [simp]:
  fixes s :: "('h, 'z) hwstate_scheme"
  shows "kbd_ok (s\<lparr>hw := h\<rparr>) cur rs ws = kbd_ok s cur rs ws" "kbd_ok (screened h v d c s) cur rs ws = kbd_ok s cur rs ws"
    "ioqs (screened h v d c s) = ioqs s"
  by (simp_all add: kbd_ok_def sleeping_def screened_def cong: run_ok_cong)

lemma put_mods: "mods_of (set_ioq a q s) = mods_of s" "mods_of (s\<lparr>links := h\<rparr>) = mods_of s"
  by (simp_all add: mods_of_def set_ioq_def)

text \<open>What is put when the queue is not full: one character, and the reader, if there is one, becomes ready.\<close>

lemma kbd_put:
  assumes "kbd_ok s cur rs ws"
  shows "\<exists>s' rs'. bnd (ioq_full kbd_buf) (\<lambda>full. if \<not> full then ioq_putchar kbd_buf c else ret ()) s = Ret () s' \<and>
    kbd_ok s' cur rs' ws \<and> set rs \<subseteq> set rs' \<and> mods_of s' = mods_of s \<and>
    kbd_chars s' = (if length (kbd_chars s) < bufsize - 1 then kbd_chars s @ [c] else kbd_chars s) \<and>
    (consumer (ioqs s kbd_buf) = 0 \<longrightarrow> consumer (ioqs s' kbd_buf) = 0 \<and> rs' = rs) \<and>
    producer (ioqs s' kbd_buf) = producer (ioqs s kbd_buf) \<and> hw s' = hw s"
proof -
  note k = assms[unfolded kbd_ok_def]
  have full: "ioq_full kbd_buf s = Ret (length (kbd_chars s) = bufsize - 1) s" using ioq_tests(2) k by blast
  have le: "length (kbd_chars s) \<le> bufsize - 1"
    using ioq_length_less[of "ioqs s kbd_buf"] k by (simp add: bufsize_def)
  show ?thesis
  proof (cases "length (kbd_chars s) < bufsize - 1")
    case True
    obtain h where h: "ioq_putchar kbd_buf c s =
          Ret () (set_ioq kbd_buf ((ring_put (ioqs s kbd_buf) c)\<lparr>consumer := 0\<rparr>) (s\<lparr>links := h\<rparr>))"
        "run_ok (s\<lparr>links := h\<rparr>) cur (waked (consumer (ioqs s kbd_buf)) rs) ws"
      using ioq_putchar_ok[of s cur rs ws kbd_buf c] k True by blast
    let ?s = "set_ioq kbd_buf ((ring_put (ioqs s kbd_buf) c)\<lparr>consumer := 0\<rparr>) (s\<lparr>links := h\<rparr>)"
    have "kbd_ok ?s cur (waked (consumer (ioqs s kbd_buf)) rs) ws"
      using h(2) k ring_put_contents(2)[OF _ True, of c] by (simp add: kbd_ok_def)
    moreover have "kbd_chars ?s = kbd_chars s @ [c]" using ring_put_contents(1)[OF _ True, of c] k by simp
    moreover have "bnd (ioq_full kbd_buf) (\<lambda>full. if \<not> full then ioq_putchar kbd_buf c else ret ()) s = Ret () ?s"
      using full h(1) True by (simp add: bnd_def)
    ultimately show ?thesis
      using True put_producer[of "ioqs s kbd_buf" c]
      by (intro exI[of _ ?s] exI[of _ "waked (consumer (ioqs s kbd_buf)) rs"]) (auto simp: waked_def put_mods set_ioq_def mods_of_def)
  next
    case False
    then have "ioq_full kbd_buf s = Ret True s" using full le by simp
    then show ?thesis using False assms by (intro exI[of _ s] exI[of _ rs]) (simp add: ret_def)
  qed
qed

lemma key_make_char:
  assumes "keymap_at (unat (sc AND 0x00ff)) (shift_column sc sh caps) = Inr c" "(of_char c :: u8) \<noteq> 0"
  shows "key_make sc ctrl sh caps s =
    bnd (ioq_full kbd_buf) (\<lambda>full. if \<not> full then ioq_putchar kbd_buf (ctrl_char ctrl (of_char c)) else ret ()) s"
  using assms by (simp add: key_make_def Let_def)

lemma key_make_total:
  assumes "kbd_ok s cur rs ws" "handled sc"
  shows "\<exists>s' rs'. key_make sc ctrl sh caps s = Ret () s' \<and> kbd_ok s' cur rs' ws \<and> set rs \<subseteq> set rs' \<and>
    (kbd_chars s' = kbd_chars s \<or> (\<exists>c. kbd_chars s' = kbd_chars s @ [c]))"
proof -
  obtain c where c: "keymap_at (unat (sc AND 0x00ff)) (shift_column sc sh caps) = Inr c"
    using handled_index[OF assms(2)] by (simp add: keymap_at_def)
  show ?thesis
  proof (cases "(of_char c :: u8) = 0")
    case True
    then show ?thesis
      using c assms(1) unfolding key_make_def Let_def
      by (auto simp: kput_def ret_def intro!: exI[of _ rs])
  next
    case False
    show ?thesis
      using kbd_put[OF assms(1), of "ctrl_char ctrl (of_char c)"] key_make_char[OF c False] by (metis (no_types))
  qed
qed

lemma intr_keyboard_total:
  assumes ok: "kbd_ok s cur rs ws"
  shows "\<exists>s' rs'. key_intr M b s = Ret () s' \<and> kbd_ok s' cur rs' ws \<and> set rs \<subseteq> set rs' \<and>
    (kbd_chars s' = kbd_chars s \<or> (\<exists>c. kbd_chars s' = kbd_chars s @ [c]))"
proof (cases "(ucast b :: u16) = 0xe0")
  case True
  then show ?thesis
    using ok by (intro exI[of _ "s\<lparr>ext_scancode := True\<rparr>"] exI[of _ rs]) (simp add: key_intr_def key_code_def Let_def kput_def)
next
  case False
  define sc where "sc = (if ext_scancode s then 0xe000 OR ucast b else (ucast b :: u16))"
  define s1 where "s1 = (if ext_scancode s then s\<lparr>ext_scancode := False\<rparr> else s)"
  have ok1: "kbd_ok s1 cur rs ws" and chars: "kbd_chars s1 = kbd_chars s" using ok by (simp_all add: s1_def)
  have eq: "key_intr M b s = (if sc AND 0x0080 \<noteq> 0 then key_break (sc AND 0xff7f)
      else if handled sc then key_make sc (ctrl_status s) (shift_status s) (caps_lock_status s)
      else put_str M (str_of ''unknown key'' @ [10])) s1"
    using False by (simp add: key_intr_def key_code_def Let_def sc_def s1_def handled_def)
  show ?thesis
  proof (cases "sc AND 0x0080 = 0 \<and> handled sc")
    case True
    then show ?thesis using eq key_make_total[OF ok1, of sc] chars by simp
  next
    case False
    obtain h v d c where "put_str M (str_of ''unknown key'' @ [10]) s1 = Ret () (screened h v d c s1)"
      using put_str_runs[of M "str_of ''unknown key'' @ [10]" s1] by blast
    then show ?thesis
      using False eq ok1 chars by (auto simp: key_break_def kput_def ret_def intro!: exI[of _ rs])
  qed
qed

section \<open>Typing\<close>

text \<open>The scan codes of one stroke of key \<open>k\<close>: the key goes down and up, between a press and a release of the
  left shift key if \<open>sh\<close>.\<close>

definition stroke :: "bool \<times> nat \<Rightarrow> u8 list" where
  "stroke x = (case x of (sh, k) \<Rightarrow>
     if sh then [0x2a, of_nat k, of_nat k + 0x80, 0xaa] else [of_nat k, of_nat k + 0x80])"

text \<open>\<open>pend\<close> is what the keyboard has still to send: an \<^verbatim>\<open>inb\<close> from port \<^verbatim>\<open>0x60\<close> takes its first byte.\<close>

definition kbd_port :: "'h machine \<Rightarrow> ('h \<Rightarrow> u8 list) \<Rightarrow> bool" where
  "kbd_port M pend \<longleftrightarrow> (\<forall>h b bs. pend h = b # bs \<longrightarrow> fst (hw_in M 0x60 h) = b \<and> pend (snd (hw_in M 0x60 h)) = bs)"

text \<open>\<open>n\<close> interrupts.\<close>

fun scan :: "'h machine \<Rightarrow> nat \<Rightarrow> (('h, 'z) kbdstate_scheme, unit) kcall" where
  "scan M 0 = ret ()"
| "scan M (Suc n) = bnd (intr_keyboard_hdl M) (\<lambda>_. scan M n)"

definition char_key :: "nat \<Rightarrow> bool" where
  "char_key k \<longleftrightarrow> k < 59 \<and> (of_char (fst (keymap ! k)) :: u8) \<noteq> 0"

text \<open>The character a stroke types.\<close>

definition typed :: "bool \<Rightarrow> bool \<times> nat \<Rightarrow> u8" where
  "typed caps x = (case x of (sh, k) \<Rightarrow>
     of_char ((if shift_column (of_nat k) sh caps then snd else fst) (keymap ! k)))"

lemma scan_add: "scan M (m + n) = bnd (scan M m) (\<lambda>_. scan M n)"
proof (induction m)
  case 0
  show ?case by (rule ext) simp
qed (simp add: bnd_assoc)

lemma code_facts:
  "list_all (\<lambda>k. let b = of_nat k :: u8; sc = ucast b :: u16; c = of_nat k + 0x80 :: u8; bc = ucast c :: u16 in
     sc = of_nat k \<and> sc \<noteq> 0xe0 \<and> sc AND 0x0080 = 0 \<and> (0 < k \<longrightarrow> sc > 0) \<and> sc < 0x3b \<and> unat (sc AND 0x00ff) = k \<and>
     bc \<noteq> 0xe0 \<and> bc AND 0x0080 \<noteq> 0 \<and> bc AND 0xff7f = of_nat k) [0..<59]"
  by code_simp

lemma keymap_facts:
  "list_all (\<lambda>k. ((of_char (fst (keymap ! k)) :: u8) = 0 \<longleftrightarrow> k \<in> set [0, 0x1d, 0x2a, 0x36, 0x38, 0x3a]) \<and>
     ((of_char (snd (keymap ! k)) :: u8) = 0 \<longleftrightarrow> k \<in> set [0, 0x1d, 0x2a, 0x36, 0x38, 0x3a])) [0..<59]"
  by code_simp

lemma char_key_facts:
  assumes "char_key k"
  defines "sc \<equiv> ucast (of_nat k :: u8) :: u16" and "bc \<equiv> ucast (of_nat k + 0x80 :: u8) :: u16"
  shows "sc = of_nat k" "sc \<noteq> 0xe0" "sc AND 0x0080 = 0" "handled sc" "unat (sc AND 0x00ff) = k"
    "bc \<noteq> 0xe0" "bc AND 0x0080 \<noteq> 0" "bc AND 0xff7f = of_nat k" "(of_char (snd (keymap ! k)) :: u8) \<noteq> 0"
    "key_break (of_nat k) s = Ret () s"
proof -
  have k: "k < 59" using assms(1) by (simp add: char_key_def)
  have z: "k \<notin> {0, 0x1d, 0x2a, 0x36, 0x38, 0x3a}" "(of_char (snd (keymap ! k)) :: u8) \<noteq> 0"
    using keymap_facts assms(1) k by (auto simp: list_all_iff char_key_def)
  note f = code_facts[unfolded list_all_iff, rule_format, of k, unfolded Let_def]
  show "sc = of_nat k" "sc \<noteq> 0xe0" "sc AND 0x0080 = 0" "unat (sc AND 0x00ff) = k"
    "bc \<noteq> 0xe0" "bc AND 0x0080 \<noteq> 0" "bc AND 0xff7f = of_nat k" "(of_char (snd (keymap ! k)) :: u8) \<noteq> 0"
    using f k z(2) by (auto simp: sc_def bc_def)
  show "handled sc" using f k z(1) by (auto simp: sc_def handled_def)
  have "unat (of_nat k :: u16) = k" using k unfolding unat_of_nat by simp
  then have ne: "of_nat k \<noteq> w" if "unat w \<noteq> k" for w :: u16 using that by metis
  show "key_break (of_nat k) s = Ret () s"
    using z(1) k ne[of ctrl_l_make] ne[of ctrl_r_make] ne[of shift_l_make] ne[of shift_r_make] ne[of alt_l_make]
      ne[of alt_r_make] by (simp add: key_break_def make_codes ret_def)
qed

text \<open>The queue has no sleeping reader or writer, the modifiers are \<open>md\<close>.\<close>

definition typing :: "('h, 'z) kbdstate_scheme \<Rightarrow> mods \<Rightarrow> u64 \<Rightarrow> u64 list \<Rightarrow> (sema \<Rightarrow> u64 list) \<Rightarrow> bool" where
  "typing s md cur rs ws \<longleftrightarrow> quiet s kbd_buf cur rs ws \<and> mods_of s = md"

lemma typing_press:
  assumes t: "typing s md cur rs ws" "\<not> m_ext md" "\<not> m_ctrl md" and k: "char_key k"
    and room: "length (kbd_chars s) < bufsize - 1"
  shows "\<exists>s'. key_intr M (of_nat k) s = Ret () s' \<and> typing s' md cur rs ws \<and> hw s' = hw s \<and>
    kbd_chars s' = kbd_chars s @ [typed (m_caps md) (m_shift md, k)]"
proof -
  let ?sc = "ucast (of_nat k :: u8) :: u16"
  note kf = char_key_facts[OF k]
  have md: "\<not> ext_scancode s" "\<not> ctrl_status s" "shift_status s = m_shift md" "caps_lock_status s = m_caps md"
    using t by (auto simp: typing_def mods_of_def)
  have len: "k < length keymap" using k by (simp add: char_key_def)
  let ?c = "(if shift_column ?sc (m_shift md) (m_caps md) then snd else fst) (keymap ! k)"
  have c: "keymap_at (unat (?sc AND 0x00ff)) (shift_column ?sc (m_shift md) (m_caps md)) = Inr ?c" "(of_char ?c :: u8) \<noteq> 0"
    using len kf(5,9) k by (auto simp: keymap_at_def char_key_def)
  have "key_intr M (of_nat k) s = key_make ?sc (ctrl_status s) (m_shift md) (m_caps md) s"
    using kf(2,3,4) md by (simp add: key_intr_def key_code_def Let_def handled_def)
  also have "\<dots> = bnd (ioq_full kbd_buf) (\<lambda>full. if \<not> full then ioq_putchar kbd_buf (of_char ?c) else ret ()) s"
    unfolding key_make_char[OF c] using md(2) by (simp only: ctrl_char_def simp_thms if_False)
  finally have eq: "key_intr M (of_nat k) s = \<dots>" .
  have ok: "kbd_ok s cur rs ws" using t(1) by (simp add: typing_def quiet_def kbd_ok_def)
  have q: "producer (ioqs s kbd_buf) = 0" "consumer (ioqs s kbd_buf) = 0" using t(1) by (simp_all add: typing_def quiet_def)
  obtain s' rs' where s': "key_intr M (of_nat k) s = Ret () s'" "kbd_ok s' cur rs' ws" "mods_of s' = mods_of s"
      "kbd_chars s' = kbd_chars s @ [of_char ?c]" "consumer (ioqs s' kbd_buf) = 0 \<and> rs' = rs"
      "producer (ioqs s' kbd_buf) = producer (ioqs s kbd_buf)" "hw s' = hw s"
    using kbd_put[OF ok, of "of_char ?c"] eq room q by auto
  have "typed (m_caps md) (m_shift md, k) = of_char ?c" by (simp add: typed_def kf(1))
  then show ?thesis using s' q t(1) by (auto simp: typing_def quiet_def kbd_ok_def)
qed

lemma typing_release:
  assumes t: "typing s md cur rs ws" "\<not> m_ext md" and k: "char_key k"
  shows "key_intr M (of_nat k + 0x80) s = Ret () s"
proof -
  have "\<not> ext_scancode s" using t by (auto simp: typing_def mods_of_def)
  then show ?thesis using char_key_facts(6-8,10)[OF k] by (simp add: key_intr_def key_code_def Let_def)
qed

lemma typing_shift:
  assumes t: "typing s md cur rs ws" "\<not> m_ext md"
  shows "\<exists>s'. key_intr M 0x2a s = Ret () s' \<and> typing s' (md\<lparr>m_shift := True\<rparr>) cur rs ws \<and> hw s' = hw s \<and> kbd_chars s' = kbd_chars s"
    "\<exists>s'. key_intr M 0xaa s = Ret () s' \<and> typing s' (md\<lparr>m_shift := False\<rparr>) cur rs ws \<and> hw s' = hw s \<and> kbd_chars s' = kbd_chars s"
proof -
  have ext: "\<not> ext_scancode s" using t by (auto simp: typing_def mods_of_def)
  have "keymap_at 0x2a b = Inr (CHR 0x00)" for b by (simp add: keymap_at_def keymap_def)
  then have "key_intr M 0x2a s = Ret () (s\<lparr>shift_status := True\<rparr>)"
    using ext by (simp add: key_intr_def key_code_def Let_def key_make_def make_codes kput_def)
  moreover have up: "quiet (s\<lparr>shift_status := b\<rparr>) kbd_buf cur rs ws = quiet s kbd_buf cur rs ws"
      "kbd_chars (s\<lparr>shift_status := b\<rparr>) = kbd_chars s" for b
    by (simp_all add: quiet_def cong: run_ok_cong)
  ultimately show "\<exists>s'. key_intr M 0x2a s = Ret () s' \<and> typing s' (md\<lparr>m_shift := True\<rparr>) cur rs ws \<and> hw s' = hw s \<and> kbd_chars s' = kbd_chars s"
    using t(1) by (intro exI[of _ "s\<lparr>shift_status := True\<rparr>"]) (auto simp: typing_def mods_of_def)
  have "key_intr M 0xaa s = Ret () (s\<lparr>shift_status := False\<rparr>)"
    using ext by (simp add: key_intr_def key_code_def Let_def key_break_def make_codes kput_def)
  then show "\<exists>s'. key_intr M 0xaa s = Ret () s' \<and> typing s' (md\<lparr>m_shift := False\<rparr>) cur rs ws \<and> hw s' = hw s \<and> kbd_chars s' = kbd_chars s"
    using t(1) up by (intro exI[of _ "s\<lparr>shift_status := False\<rparr>"]) (auto simp: typing_def mods_of_def)
qed

lemma typing_hw: "typing (s\<lparr>hw := h\<rparr>) md cur rs ws = typing s md cur rs ws"
  by (simp add: typing_def quiet_def mods_of_def cong: run_ok_cong)

text \<open>An interrupt for the next byte.\<close>

lemma scan_next:
  fixes s :: "('h, 'z) kbdstate_scheme"
  assumes "kbd_port M pend" "pend (hw s) = b # bs" "typing s md cur rs ws"
    and "\<And>s :: ('h, 'z) kbdstate_scheme. typing s md cur rs ws \<Longrightarrow> kbd_chars s = cs \<Longrightarrow>
      \<exists>s'. key_intr M b s = Ret () s' \<and> typing s' md' cur rs ws \<and> hw s' = hw s \<and> kbd_chars s' = cs'"
    and "kbd_chars s = cs"
  shows "\<exists>s'. intr_keyboard_hdl M s = Ret () s' \<and> typing s' md' cur rs ws \<and> pend (hw s') = bs \<and> kbd_chars s' = cs'"
proof -
  let ?h = "snd (hw_in M 0x60 (hw s))"
  have h: "fst (hw_in M 0x60 (hw s)) = b" "pend ?h = bs" using assms(1,2) by (auto simp: kbd_port_def)
  have "typing (s\<lparr>hw := ?h\<rparr>) md cur rs ws" using assms(3) by (simp add: typing_hw)
  from assms(4)[OF this] show ?thesis using h assms(5) by (auto simp: intr_keyboard_eq)
qed

lemma typing_stroke:
  fixes s :: "('h, 'z) kbdstate_scheme"
  assumes M: "kbd_port M pend" "pend (hw s) = stroke x @ bs"
    and t: "typing s md cur rs ws" and md: "\<not> m_ext md" "\<not> m_ctrl md" "\<not> m_shift md"
    and k: "char_key (snd x)" and room: "length (kbd_chars s) < bufsize - 1"
  shows "\<exists>s'. scan M (length (stroke x)) s = Ret () s' \<and> typing s' md cur rs ws \<and> pend (hw s') = bs \<and>
    kbd_chars s' = kbd_chars s @ [typed (m_caps md) x]"
proof -
  define k' where "k' = snd x"
  let ?new = "kbd_chars s @ [typed (m_caps md) x]"
  have press: "\<exists>s'. key_intr M (of_nat k') s0 = Ret () s' \<and> typing s' (md\<lparr>m_shift := fst x\<rparr>) cur rs ws \<and> hw s' = hw s0 \<and>
      kbd_chars s' = ?new" if "typing s0 (md\<lparr>m_shift := fst x\<rparr>) cur rs ws" "kbd_chars s0 = kbd_chars s"
    for s0 :: "('h, 'z) kbdstate_scheme"
    using typing_press[OF that(1) _ _ k] md that room by (simp add: k'_def)
  have release: "\<exists>s'. key_intr M (of_nat k' + 0x80) s0 = Ret () s' \<and> typing s' (md\<lparr>m_shift := fst x\<rparr>) cur rs ws \<and> hw s' = hw s0 \<and>
      kbd_chars s' = ?new" if "typing s0 (md\<lparr>m_shift := fst x\<rparr>) cur rs ws" "kbd_chars s0 = ?new"
    for s0 :: "('h, 'z) kbdstate_scheme"
    using typing_release[OF that(1) _ k] md that by (simp add: k'_def)
  have same: "md\<lparr>m_shift := False\<rparr> = md" "md\<lparr>m_shift := True, m_shift := False\<rparr> = md" using md(3) by (cases md; simp)+
  show ?thesis
  proof (cases "fst x")
    case False
    then have st: "stroke x = [of_nat k', of_nat k' + 0x80]" by (simp add: stroke_def k'_def case_prod_beta)
    obtain s1 where s1: "intr_keyboard_hdl M s = Ret () s1" "typing s1 md cur rs ws" "pend (hw s1) = (of_nat k' + 0x80) # bs"
        "kbd_chars s1 = ?new"
      using scan_next[OF M(1) _ t press[unfolded False[simplified] same] refl] M(2) st False same by auto
    obtain s2 where s2: "intr_keyboard_hdl M s1 = Ret () s2" "typing s2 md cur rs ws" "pend (hw s2) = bs" "kbd_chars s2 = ?new"
      using scan_next[OF M(1) s1(3,2) release[unfolded False[simplified] same] s1(4)] False same by auto
    show ?thesis using s1 s2 st by (intro exI[of _ s2]) (simp add: numeral_2_eq_2 ret_def)
  next
    case True
    let ?md = "md\<lparr>m_shift := True\<rparr>"
    have on: "\<exists>s'. key_intr M 0x2a s0 = Ret () s' \<and> typing s' ?md cur rs ws \<and> hw s' = hw s0 \<and> kbd_chars s' = kbd_chars s"
      if "typing s0 md cur rs ws" "kbd_chars s0 = kbd_chars s" for s0 :: "('h, 'z) kbdstate_scheme"
      using typing_shift(1)[OF that(1) md(1)] that(2) by simp
    have off: "\<exists>s'. key_intr M 0xaa s0 = Ret () s' \<and> typing s' md cur rs ws \<and> hw s' = hw s0 \<and> kbd_chars s' = ?new"
      if "typing s0 ?md cur rs ws" "kbd_chars s0 = ?new" for s0 :: "('h, 'z) kbdstate_scheme"
      using typing_shift(2)[OF that(1)] md(1) that(2) same by simp
    have st: "stroke x = [0x2a, of_nat k', of_nat k' + 0x80, 0xaa]" using True by (simp add: stroke_def k'_def case_prod_beta)
    obtain s1 where s1: "intr_keyboard_hdl M s = Ret () s1" "typing s1 ?md cur rs ws" "pend (hw s1) = of_nat k' # (of_nat k' + 0x80) # 0xaa # bs"
        "kbd_chars s1 = kbd_chars s"
      using scan_next[OF M(1) _ t on refl] M(2) st by auto
    obtain s2 where s2: "intr_keyboard_hdl M s1 = Ret () s2" "typing s2 ?md cur rs ws" "pend (hw s2) = (of_nat k' + 0x80) # 0xaa # bs"
        "kbd_chars s2 = ?new"
      using scan_next[OF M(1) s1(3,2) press[unfolded True[simplified]] s1(4)] True by auto
    obtain s3 where s3: "intr_keyboard_hdl M s2 = Ret () s3" "typing s3 ?md cur rs ws" "pend (hw s3) = 0xaa # bs" "kbd_chars s3 = ?new"
      using scan_next[OF M(1) s2(3,2) release[unfolded True[simplified]] s2(4)] True by auto
    obtain s4 where s4: "intr_keyboard_hdl M s3 = Ret () s4" "typing s4 md cur rs ws" "pend (hw s4) = bs" "kbd_chars s4 = ?new"
      using scan_next[OF M(1) s3(3,2) off s3(4)] by auto
    show ?thesis using s1 s2 s3 s4 st by (intro exI[of _ s4]) (simp add: eval_nat_numeral ret_def)
  qed
qed

lemma typing_strokes:
  assumes M: "kbd_port M pend" "pend (hw s) = concat (map stroke xs)"
    and "typing s md cur rs ws" "\<not> m_ext md" "\<not> m_ctrl md" "\<not> m_shift md"
    and "\<forall>x \<in> set xs. char_key (snd x)" "length (kbd_chars s) + length xs \<le> bufsize - 1"
  shows "\<exists>s'. scan M (length (concat (map stroke xs))) s = Ret () s' \<and> typing s' md cur rs ws \<and>
    kbd_chars s' = kbd_chars s @ map (typed (m_caps md)) xs"
  using assms(2-)
proof (induction xs arbitrary: s)
  case (Cons x xs)
  obtain s1 where s1: "scan M (length (stroke x)) s = Ret () s1" "typing s1 md cur rs ws"
      "pend (hw s1) = concat (map stroke xs)" "kbd_chars s1 = kbd_chars s @ [typed (m_caps md) x]"
    using typing_stroke[OF M(1) _ Cons.prems(2-5), of x] Cons.prems(1,6,7) by auto
  have "length (kbd_chars s1) + length xs \<le> bufsize - 1" unfolding s1(4) using Cons.prems(7) by simp
  then show ?case
    using Cons.IH[OF s1(3,2) Cons.prems(3-5)] Cons.prems(6) s1 by (auto simp: scan_add)
qed (auto simp: ret_def)

section \<open>Properties\<close>

text \<open>A machine that consists of a keyboard; its state is what is still to be sent.\<close>

definition demo_kbd_machine :: "u8 list machine" where
  "demo_kbd_machine = \<lparr>hw_out = (\<lambda>port b h. h), hw_in = (\<lambda>port h. if port = 0x60 \<and> h \<noteq> [] then (hd h, tl h) else (0, h)),
     hw_outs = (\<lambda>port bs h. h), hw_ins = (\<lambda>port n h. ([], h)), hw_irq = (\<lambda>n h. False)\<rparr>"

lemma demo_kbd_port: "kbd_port demo_kbd_machine (\<lambda>h. h)"
  by (simp add: kbd_port_def demo_kbd_machine_def)

definition demo_kbd :: "u8 list \<Rightarrow> u8 list kbdstate" where
  "demo_kbd bs = hwstate.extend (demo_hw bs) (kbdstate.fields False False False False False)"

lemma demo_kbd_typing:
  "typing (demo_kbd bs) \<lparr>m_ctrl = False, m_shift = False, m_alt = False, m_caps = False, m_ext = False\<rparr> 0x1000 [0x2000] (\<lambda>_. [])"
  "kbd_chars (demo_kbd bs) = []" "hw (demo_kbd bs) = bs"
proof -
  have s: "links (demo_kbd bs) = links demo_io" "tasks (demo_kbd bs) = tasks demo_io" "ist2 (demo_kbd bs) = ist2 demo_io"
    "idle_task (demo_kbd bs) = idle_task demo_io" "intr_flag (demo_kbd bs) = intr_flag demo_io" "ioqs (demo_kbd bs) = ioqs demo_io"
    "hw (demo_kbd bs) = bs" "mods_of (demo_kbd bs) = \<lparr>m_ctrl = False, m_shift = False, m_alt = False, m_caps = False, m_ext = False\<rparr>"
    by (simp_all add: demo_kbd_def hwstate.extend_def demo_hw_def iostate.extend_def hwstate.fields_def kbdstate.fields_def mods_of_def)
  have "run_ok (demo_kbd bs) 0x1000 [0x2000] (\<lambda>_. [])"
    using demo_io_run_ok s by (simp add: run_ok_def sched_ok_def tq_def)
  then show "typing (demo_kbd bs) \<lparr>m_ctrl = False, m_shift = False, m_alt = False, m_caps = False, m_ext = False\<rparr> 0x1000 [0x2000] (\<lambda>_. [])"
    using s demo_io_quiet(1)[of kbd_buf] by (simp add: typing_def quiet_def)
  show "kbd_chars (demo_kbd bs) = []" "hw (demo_kbd bs) = bs" using s demo_io_quiet(2)[of kbd_buf] by simp_all
qed

text \<open>The keyboard interrupt always returns. Whatever byte the keyboard sends and whatever was sent before,
  the handler ends without a failed \<^verbatim>\<open>ASSERT\<close>, without indexing outside \<^verbatim>\<open>keymap\<close> and without going to
  sleep, keeps the scheduler's invariant and adds at most one character to the queue.\<close>

theorem keyboard_interrupt_returns:
  assumes "kbd_ok s cur rs ws"
  shows "\<exists>s' rs'. intr_keyboard_hdl M s = Ret () s' \<and> kbd_ok s' cur rs' ws \<and> set rs \<subseteq> set rs' \<and>
    (kbd_chars s' = kbd_chars s \<or> (\<exists>c. kbd_chars s' = kbd_chars s @ [c]))"
  using intr_keyboard_total[of "s\<lparr>hw := snd (hw_in M 0x60 (hw s))\<rparr>"] assms by (simp add: intr_keyboard_eq)

theorem keyboard_interrupt_returns_witness:
  "\<exists>s'. intr_keyboard_hdl demo_kbd_machine (demo_kbd [0x1e]) = Ret () s' \<and> length (kbd_chars s') \<le> 1"
proof -
  have "kbd_ok (demo_kbd [0x1e]) 0x1000 [0x2000] (\<lambda>_. [])"
    using demo_kbd_typing(1) by (simp add: typing_def quiet_def kbd_ok_def)
  from keyboard_interrupt_returns[OF this, of demo_kbd_machine]
  show ?thesis using demo_kbd_typing(2)[of "[0x1e]"] by (auto simp del: length_contents)
qed

text \<open>C17. What is typed is what is read. After any sequence of strokes of character keys, each with or without
  the shift key, that fits into the empty queue, \<^verbatim>\<open>console_read\<close> returns exactly the characters of the
  strokes, in order: the second column of \<^verbatim>\<open>keymap\<close> for shifted symbols and for letters under exactly one
  of shift and caps lock.\<close>

theorem typed_is_read:
  assumes "kbd_port M pend" "pend (hw s) = concat (map stroke xs)"
    and "typing s md cur rs ws" "\<not> m_ext md" "\<not> m_ctrl md" "\<not> m_shift md"
    and "\<forall>x \<in> set xs. char_key (snd x)" "kbd_chars s = []" "length xs \<le> bufsize - 1"
  shows "\<exists>s' s''. scan M (length (concat (map stroke xs))) s = Ret () s' \<and>
    console_read (length xs) s' = Ret (map (typed (m_caps md)) xs) s'' \<and> kbd_chars s'' = []"
proof -
  obtain s' where s': "scan M (length (concat (map stroke xs))) s = Ret () s'" "typing s' md cur rs ws"
      "kbd_chars s' = map (typed (m_caps md)) xs @ []"
    using typing_strokes[OF assms(1-7)] assms(8,9) length_contents[of "ioqs s kbd_buf"] by auto
  have "quiet s' kbd_buf cur rs ws" using s'(2) by (simp add: typing_def)
  from get_chars_quiet[OF this s'(3)] show ?thesis using s'(1) by (auto simp: console_read_def)
qed

theorem typed_is_read_witness:
  "\<exists>s' s''. scan demo_kbd_machine 6 (demo_kbd [0x2a, 0x23, 0xa3, 0xaa, 0x17, 0x97]) = Ret () s' \<and>
     console_read 2 s' = Ret [0x48, 0x69] s''"
proof -
  let ?xs = "[(True, 0x23 :: nat), (False, 0x17)]" and ?bs = "[0x2a, 0x23, 0xa3, 0xaa, 0x17, 0x97]"
  have ok: "\<forall>x \<in> set ?xs. char_key (snd x)" by (simp add: char_key_def keymap_def)
  have bs: "concat (map stroke ?xs) = ?bs" by (simp add: stroke_def)
  have out: "map (typed False) ?xs = [0x48, 0x69]"
    by (simp add: typed_def keymap_def shift_column_def two_char_key_def)
  have len: "length ?bs = 6" "length ?xs = 2" by simp_all
  have "\<exists>s' s''. scan demo_kbd_machine (length (concat (map stroke ?xs))) (demo_kbd ?bs) = Ret () s' \<and>
      console_read (length ?xs) s' = Ret (map (typed (m_caps \<lparr>m_ctrl = False, m_shift = False, m_alt = False, m_caps = False, m_ext = False\<rparr>)) ?xs) s'' \<and>
      kbd_chars s'' = []"
    by (rule typed_is_read[OF demo_kbd_port _ demo_kbd_typing(1) _ _ _ ok demo_kbd_typing(2)])
      (simp_all only: bs demo_kbd_typing(3) mods.select_convs simp_thms, simp add: bufsize_def)
  then show ?thesis unfolding bs len mods.select_convs out by blast
qed

end
