(* ===== verification/Timer.thy ===== *)
theory Timer
  imports Intr
begin

text \<open>
  Sleeping and the clock of \<^verbatim>\<open>device/timer.c\<close>. The loop of \<^verbatim>\<open>ticks_to_sleep\<close> yields the processor until enough timer
  interrupts have come. Inside one call no interrupt comes, so a pass of the loop that does not end it leaves the
  call unfinished: \<open>Sleep\<close>. \<open>ticks_to_sleep_from\<close> is also what the task goes on with when it runs again.
\<close>

section \<open>The code\<close>

definition IRQ0_FREQUENCY :: u64 where "IRQ0_FREQUENCY = 100"
definition mil_seconds_per_intr :: u64 where "mil_seconds_per_intr = 1000 div IRQ0_FREQUENCY"
definition CLOCK_MONOTONIC :: int where "CLOCK_MONOTONIC = 1"
definition CLOCK_PROCESS_CPUTIME_ID :: int where "CLOCK_PROCESS_CPUTIME_ID = 2"

definition DIV_ROUND_UP :: "u64 \<Rightarrow> u64 \<Rightarrow> u64" where
  "DIV_ROUND_UP X STEP = (X + STEP - 1) div STEP"

definition ticks_to_sleep_from :: "u64 \<Rightarrow> u64 \<Rightarrow> ('z kstate_scheme, unit) kcall" where
  "ticks_to_sleep_from start_tick sleep_ticks =
     bnd (kget clock_ticks) (\<lambda>ticks.
     if ticks - start_tick < sleep_ticks then bnd task_yield (\<lambda>_ s. Sleep s) else ret ())"

definition ticks_to_sleep :: "u64 \<Rightarrow> ('z kstate_scheme, unit) kcall" where
  "ticks_to_sleep sleep_ticks =
     bnd (kget clock_ticks) (\<lambda>start_tick. ticks_to_sleep_from start_tick sleep_ticks)"

definition mtime_sleep :: "u64 \<Rightarrow> ('z kstate_scheme, unit) kcall" where
  "mtime_sleep m_seconds =
     (let sleep_ticks = DIV_ROUND_UP m_seconds mil_seconds_per_intr in
      bnd (ASSERT (sleep_ticks > 0)) (\<lambda>_. ticks_to_sleep sleep_ticks))"

definition sys_clock_gettime :: "int \<Rightarrow> ('z kstate_scheme, int) kcall" where
  "sys_clock_gettime clk_id =
     bnd running_task (\<lambda>cur_task.
     if clk_id = CLOCK_MONOTONIC
     then bnd (kget clock_ticks) (\<lambda>ticks. ret (sint (ticks * mil_seconds_per_intr)))
     else if clk_id = CLOCK_PROCESS_CPUTIME_ID
     then bnd (get_task cur_task) (\<lambda>t. ret (sint (ucast (t_ticks t) * mil_seconds_per_intr)))
     else ret (- 1))"

section \<open>How long a task sleeps\<close>

lemma ticks_passed:
  fixes start :: u64
  assumes "k < 2 ^ 64"
  shows "start + of_nat k - start < n \<longleftrightarrow> k < unat n"
  using assms by (simp add: word_less_nat_alt unat_of_nat)

lemma sleep_ticks:
  assumes "unat ms < 2 ^ 64 - 10"
  shows "unat (DIV_ROUND_UP ms mil_seconds_per_intr) = (unat ms + 9) div 10"
proof -
  have "mil_seconds_per_intr = 10" by (simp add: mil_seconds_per_intr_def IRQ0_FREQUENCY_def)
  moreover have "ms + 10 - 1 = ms + 9" by simp
  ultimately have "DIV_ROUND_UP ms mil_seconds_per_intr = (ms + 9) div 10" by (simp only: DIV_ROUND_UP_def)
  moreover have "unat (ms + 9) = unat ms + 9"
    using assms by (subst unat_add_lem[THEN iffD1]) simp_all
  ultimately show ?thesis by (simp add: unat_div)
qed

section \<open>Properties\<close>



end
