(* ===== verification/Ide.thy ===== *)
theory Ide
  imports Keyboard Timer
begin

text \<open>
  The ATA disk driver of \<^verbatim>\<open>device/ide.c\<close>.

  A disk raises its interrupt some time after a command. The model takes the interrupt as soon as the disk asks
  for it and interrupts are on, right after the instruction that made the disk ask (\<open>take_irq\<close>); a disk that
  asks later finds the driver asleep in \<^verbatim>\<open>sema_down\<close>. Sector counts are unbounded numbers: a request is bounded
  by the memory it is read into. A buffer is the list of its bytes.

  The hypothesis \<open>ata\<close> says that the machine's primary channel behaves like an ATA channel: \<open>ata_out\<close> and its kin
  give the registers, the commands the driver uses and the data register. Under it a read returns the sectors
  asked for and a write replaces them.
\<close>

unbundle bit_operations_syntax

section \<open>The code\<close>

record 'h dkstate = "'h kbdstate" +
  hd_cnt :: nat
  disk_sectors :: u64
  expecting_intr :: "nat \<Rightarrow> bool"

definition port_base :: "nat \<Rightarrow> u16" where "port_base dsk = 0x1f0 + 0x80 * of_nat (dsk div 2)"
definition reg_data :: "nat \<Rightarrow> u16" where "reg_data dsk = port_base dsk + 0"
definition reg_sect_cnt :: "nat \<Rightarrow> u16" where "reg_sect_cnt dsk = port_base dsk + 2"
definition reg_lba_l :: "nat \<Rightarrow> u16" where "reg_lba_l dsk = port_base dsk + 3"
definition reg_lba_m :: "nat \<Rightarrow> u16" where "reg_lba_m dsk = port_base dsk + 4"
definition reg_lba_h :: "nat \<Rightarrow> u16" where "reg_lba_h dsk = port_base dsk + 5"
definition reg_dev :: "nat \<Rightarrow> u16" where "reg_dev dsk = port_base dsk + 6"
definition reg_status :: "nat \<Rightarrow> u16" where "reg_status dsk = port_base dsk + 7"
definition reg_cmd :: "nat \<Rightarrow> u16" where "reg_cmd dsk = reg_status dsk"

definition select_disk :: "'h machine \<Rightarrow> nat \<Rightarrow> (('h, 'z) dkstate_scheme, unit) kcall" where
  "select_disk M dsk =
     (let reg_device = 0xa0 OR 0x40;
          reg_device = (if dsk = 1 then reg_device OR 0x10 else reg_device) in
      outb M (reg_dev dsk) reg_device)"

definition select_sector :: "'h machine \<Rightarrow> nat \<Rightarrow> u64 \<Rightarrow> u8 \<Rightarrow> (('h, 'z) dkstate_scheme, unit) kcall" where
  "select_sector M dsk lba sec_cnt =
     bnd (outb M (reg_sect_cnt dsk) sec_cnt) (\<lambda>_.
     bnd (outb M (reg_lba_l dsk) (ucast lba)) (\<lambda>_.
     bnd (outb M (reg_lba_m dsk) (ucast (drop_bit 8 lba))) (\<lambda>_.
     bnd (outb M (reg_lba_h dsk) (ucast (drop_bit 16 lba))) (\<lambda>_.
     outb M (reg_dev dsk) (ucast (0xa0 OR 0x40 OR (if dsk = 1 then 0x10 else 0) OR drop_bit 24 lba))))))"

text \<open>\<^verbatim>\<open>while (time_limit -= 10 > 0)\<close> subtracts 1, the value of \<^verbatim>\<open>10 > 0\<close>; the argument is \<^verbatim>\<open>time_limit\<close> before.\<close>

fun busy_loop :: "'h machine \<Rightarrow> nat \<Rightarrow> nat \<Rightarrow> (('h, 'z) dkstate_scheme, bool) kcall" where
  "busy_loop M dsk 0 = ret False"
| "busy_loop M dsk (Suc time_limit) =
     (if time_limit = 0 then ret False
      else bnd (inb M (reg_status dsk)) (\<lambda>st.
           if st AND 0x80 = 0
           then bnd (inb M (reg_status dsk)) (\<lambda>st. ret (st AND 0x8 \<noteq> 0))
           else bnd (mtime_sleep 10) (\<lambda>_. busy_loop M dsk time_limit)))"

definition busy_wait :: "'h machine \<Rightarrow> nat \<Rightarrow> (('h, 'z) dkstate_scheme, bool) kcall" where
  "busy_wait M dsk = busy_loop M dsk (30 * 1000)"

definition cmd_out :: "'h machine \<Rightarrow> nat \<Rightarrow> u8 \<Rightarrow> (('h, 'z) dkstate_scheme, unit) kcall" where
  "cmd_out M dsk cmd =
     bnd (kput (\<lambda>s. s\<lparr>expecting_intr := (expecting_intr s)(dsk div 2 := True)\<rparr>)) (\<lambda>_.
     outb M (reg_cmd dsk) cmd)"

definition size_in_byte :: "u8 \<Rightarrow> nat" where
  "size_in_byte sec_cnt = (if sec_cnt = 0 then 256 * 512 else unat sec_cnt * 512)"

definition read_from_sector :: "'h machine \<Rightarrow> nat \<Rightarrow> u8 \<Rightarrow> (('h, 'z) dkstate_scheme, u8 list) kcall" where
  "read_from_sector M dsk sec_cnt = insw M (reg_data dsk) (size_in_byte sec_cnt div 2)"

definition write2sector :: "'h machine \<Rightarrow> nat \<Rightarrow> u8 list \<Rightarrow> u8 \<Rightarrow> (('h, 'z) dkstate_scheme, unit) kcall" where
  "write2sector M dsk buf sec_cnt =
     (if size_in_byte sec_cnt \<le> length buf then outsw M (reg_data dsk) (take (size_in_byte sec_cnt) buf)
      else fail OutOfBounds)"

definition intr_hd_handle :: "'h machine \<Rightarrow> nat \<Rightarrow> (('h, 'z) dkstate_scheme, unit) kcall" where
  "intr_hd_handle M irq_no =
     bnd (ASSERT (irq_no = 0x2e \<or> irq_no = 0x2f)) (\<lambda>_.
     let ch_no = irq_no - 0x2e in
     bnd (kget (\<lambda>s. expecting_intr s ch_no)) (\<lambda>e.
     if e
     then bnd (kput (\<lambda>s. s\<lparr>expecting_intr := (expecting_intr s)(ch_no := False)\<rparr>)) (\<lambda>_.
          bnd (sema_up (DiskDone ch_no)) (\<lambda>_.
          bnd (inb M (reg_status (ch_no * 2))) (\<lambda>_. ret ())))
     else ret ()))"

text \<open>The interrupt gate turns interrupts off, \<^verbatim>\<open>iretq\<close> turns them on again.\<close>

definition take_irq :: "'h machine \<Rightarrow> nat \<Rightarrow> (('h, 'z) dkstate_scheme, unit) kcall" where
  "take_irq M ch =
     bnd (kget (\<lambda>s. hw_irq M ch (hw s) \<and> intr_flag s = intr_on)) (\<lambda>irq.
     if irq
     then bnd (kput (\<lambda>s. s\<lparr>intr_flag := intr_off\<rparr>)) (\<lambda>_.
          bnd (intr_hd_handle M (0x2e + ch)) (\<lambda>_.
          kput (\<lambda>s. s\<lparr>intr_flag := intr_on\<rparr>)))
     else ret ())"

text \<open>\<^verbatim>\<open>for (secs_done = 0; secs_done <= sec_cnt; secs_done += 256)\<close>. The bytes read go to
  \<^verbatim>\<open>buf + secs_done * 512\<close>, one chunk after the other: the result lists all that are stored from \<^verbatim>\<open>buf\<close> on.\<close>

function ide_read_loop ::
  "'h machine \<Rightarrow> nat \<Rightarrow> nat \<Rightarrow> nat \<Rightarrow> nat \<Rightarrow> (('h, 'z) dkstate_scheme, u8 list) kcall" where
  "ide_read_loop M dsk lba sec_cnt secs_done =
     (if secs_done \<le> sec_cnt
      then let secs_op = (if sec_cnt - secs_done \<ge> 256 then 256 else sec_cnt - secs_done) in
           bnd (select_sector M dsk (of_nat (lba + secs_done)) (of_nat secs_op)) (\<lambda>_.
           bnd (cmd_out M dsk 0x20) (\<lambda>_.
           bnd (take_irq M (dsk div 2)) (\<lambda>_.
           bnd (sema_down (DiskDone (dsk div 2))) (\<lambda>_.
           bnd (busy_wait M dsk) (\<lambda>ready.
           bnd (ASSERT ready) (\<lambda>_.
           bnd (read_from_sector M dsk (of_nat secs_op)) (\<lambda>data.
           bnd (ide_read_loop M dsk lba sec_cnt (secs_done + 256)) (\<lambda>rest.
           ret (data @ rest)))))))))
      else ret [])"
  by pat_completeness auto
termination by (relation "measure (\<lambda>(M, dsk, lba, sec_cnt, secs_done). Suc sec_cnt - secs_done)") auto

declare ide_read_loop.simps [simp del]

definition ide_read :: "'h machine \<Rightarrow> nat \<Rightarrow> nat \<Rightarrow> nat \<Rightarrow> (('h, 'z) dkstate_scheme, u8 list) kcall" where
  "ide_read M dsk lba sec_cnt =
     bnd (kget hd_cnt) (\<lambda>cnt.
     bnd (ASSERT (sec_cnt > 0 \<and> dsk < cnt)) (\<lambda>_.
     bnd (sema_down (ChannelLock (dsk div 2))) (\<lambda>_.
     bnd (select_disk M dsk) (\<lambda>_.
     bnd (ide_read_loop M dsk lba sec_cnt 0) (\<lambda>data.
     bnd (sema_up (ChannelLock (dsk div 2))) (\<lambda>_.
     ret data))))))"

function ide_write_loop ::
  "'h machine \<Rightarrow> nat \<Rightarrow> nat \<Rightarrow> u8 list \<Rightarrow> nat \<Rightarrow> nat \<Rightarrow> (('h, 'z) dkstate_scheme, unit) kcall" where
  "ide_write_loop M dsk lba buf sec_cnt secs_done =
     (if secs_done \<le> sec_cnt
      then let secs_op = (if sec_cnt - secs_done \<ge> 256 then 256 else sec_cnt - secs_done) in
           bnd (select_sector M dsk (of_nat (lba + secs_done)) (of_nat secs_op)) (\<lambda>_.
           bnd (cmd_out M dsk 0x30) (\<lambda>_.
           bnd (take_irq M (dsk div 2)) (\<lambda>_.
           bnd (busy_wait M dsk) (\<lambda>ready.
           bnd (ASSERT ready) (\<lambda>_.
           bnd (write2sector M dsk (drop (secs_done * 512) buf) (of_nat secs_op)) (\<lambda>_.
           bnd (take_irq M (dsk div 2)) (\<lambda>_.
           bnd (sema_down (DiskDone (dsk div 2))) (\<lambda>_.
           ide_write_loop M dsk lba buf sec_cnt (secs_done + 256)))))))))
      else ret ())"
  by pat_completeness auto
termination by (relation "measure (\<lambda>(M, dsk, lba, buf, sec_cnt, secs_done). Suc sec_cnt - secs_done)") auto

declare ide_write_loop.simps [simp del]

definition ide_write :: "'h machine \<Rightarrow> nat \<Rightarrow> nat \<Rightarrow> u8 list \<Rightarrow> nat \<Rightarrow> (('h, 'z) dkstate_scheme, unit) kcall" where
  "ide_write M dsk lba buf sec_cnt =
     bnd (kget hd_cnt) (\<lambda>cnt.
     bnd (ASSERT (sec_cnt > 0 \<and> dsk < cnt)) (\<lambda>_.
     bnd (sema_down (ChannelLock (dsk div 2))) (\<lambda>_.
     bnd (select_disk M dsk) (\<lambda>_.
     bnd (ide_write_loop M dsk lba buf sec_cnt 0) (\<lambda>_.
     sema_up (ChannelLock (dsk div 2)))))))"

text \<open>\<^verbatim>\<open>*(uint32_t *)&id_info[120]\<close>, little endian.\<close>

definition le32 :: "u8 list \<Rightarrow> u64" where
  "le32 bs = ucast (bs ! 0) OR push_bit 8 (ucast (bs ! 1)) OR push_bit 16 (ucast (bs ! 2)) OR push_bit 24 (ucast (bs ! 3))"

definition identify_disk :: "'h machine \<Rightarrow> nat \<Rightarrow> (('h, 'z) dkstate_scheme, u64) kcall" where
  "identify_disk M dsk =
     bnd (select_disk M dsk) (\<lambda>_.
     bnd (cmd_out M dsk 0xec) (\<lambda>_.
     bnd (take_irq M (dsk div 2)) (\<lambda>_.
     bnd (sema_down (DiskDone (dsk div 2))) (\<lambda>_.
     bnd (busy_wait M dsk) (\<lambda>ready.
     bnd (ASSERT ready) (\<lambda>_.
     bnd (read_from_sector M dsk 1) (\<lambda>id_info.
     bnd (put_str M (str_of ''disk sda'')) (\<lambda>_.
     bnd (put_char M (48 + of_nat dsk)) (\<lambda>_.
     bnd (put_str M (str_of '' sectors: 0x'')) (\<lambda>_.
     let sectors = le32 (drop 120 id_info) in
     bnd (put_num M sectors) (\<lambda>_.
     bnd (put_str M [10]) (\<lambda>_.
     ret sectors))))))))))))"

text \<open>\<open>bios_hd_cnt\<close> is the byte the firmware keeps at \<^verbatim>\<open>0x475\<close>.\<close>

definition ide_init :: "'h machine \<Rightarrow> u8 \<Rightarrow> (('h, 'z) dkstate_scheme, unit) kcall" where
  "ide_init M bios_hd_cnt =
     bnd (put_str M (str_of ''ide_init: start'' @ [10])) (\<lambda>_.
     bnd (kput (\<lambda>s. s\<lparr>hd_cnt := unat bios_hd_cnt\<rparr>)) (\<lambda>_.
     bnd (for_range 0 2 (\<lambda>i.
       bnd (sema_init (ChannelLock i) 1) (\<lambda>_.
       bnd (kput (\<lambda>s. s\<lparr>expecting_intr := (expecting_intr s)(i := False)\<rparr>)) (\<lambda>_.
       bnd (sema_init (DiskDone i) 0) (\<lambda>_.
       register_intr_handle (0x2e + i) Intr_hd_handle))))) (\<lambda>_.
     bnd (for_range 0 (unat bios_hd_cnt) (\<lambda>i.
       bnd (identify_disk M i) (\<lambda>sectors.
       if i = 0 then kput (\<lambda>s. s\<lparr>disk_sectors := sectors\<rparr>) else ret ()))) (\<lambda>_.
     put_str M (str_of ''ide_init: end'' @ [10])))))"

section \<open>An ATA channel\<close>

text \<open>The registers of the channel, its interrupt line, the bytes the data register still delivers, the bytes it
  still takes, and the sectors of the two drives; \<open>True\<close> selects the second drive.\<close>

record ata_dev =
  a_cnt :: u8
  a_lo :: u8
  a_mid :: u8
  a_hi :: u8
  a_drv :: u8
  a_irq :: bool
  a_out :: "u8 list"
  a_want :: nat
  a_at :: nat
  a_sec :: "bool \<Rightarrow> nat \<Rightarrow> u8 list"
  a_ident :: "bool \<Rightarrow> u8 list"

definition ata_n :: "ata_dev \<Rightarrow> nat" where
  "ata_n d = (if a_cnt d = 0 then 256 else unat (a_cnt d))"

definition ata_lba :: "ata_dev \<Rightarrow> nat" where
  "ata_lba d = unat (a_lo d) + 2 ^ 8 * unat (a_mid d) + 2 ^ 16 * unat (a_hi d) + 2 ^ 24 * (unat (a_drv d) mod 16)"

definition slave :: "ata_dev \<Rightarrow> bool" where
  "slave d \<longleftrightarrow> bit (a_drv d) 4"

definition read_secs :: "(nat \<Rightarrow> u8 list) \<Rightarrow> nat \<Rightarrow> nat \<Rightarrow> u8 list" where
  "read_secs sec lba n = concat (map sec [lba..<lba + n])"

definition write_secs :: "nat \<Rightarrow> u8 list \<Rightarrow> (nat \<Rightarrow> u8 list) \<Rightarrow> (nat \<Rightarrow> u8 list)" where
  "write_secs lba bs sec =
     (\<lambda>i. if lba \<le> i \<and> i < lba + length bs div 512 then take 512 (drop (512 * (i - lba)) bs) else sec i)"

definition ata_cmd :: "u8 \<Rightarrow> ata_dev \<Rightarrow> ata_dev" where
  "ata_cmd c d =
     (if c = 0x20 then d\<lparr>a_irq := True, a_out := read_secs (a_sec d (slave d)) (ata_lba d) (ata_n d), a_want := 0\<rparr>
      else if c = 0x30 then d\<lparr>a_irq := False, a_out := [], a_want := ata_n d * 512, a_at := ata_lba d\<rparr>
      else if c = 0xec then d\<lparr>a_irq := True, a_out := a_ident d (slave d), a_want := 0\<rparr>
      else d)"

definition ata_out :: "u16 \<Rightarrow> u8 \<Rightarrow> ata_dev \<Rightarrow> ata_dev" where
  "ata_out port b d =
     (if port = 0x1f2 then d\<lparr>a_cnt := b\<rparr>
      else if port = 0x1f3 then d\<lparr>a_lo := b\<rparr>
      else if port = 0x1f4 then d\<lparr>a_mid := b\<rparr>
      else if port = 0x1f5 then d\<lparr>a_hi := b\<rparr>
      else if port = 0x1f6 then d\<lparr>a_drv := b\<rparr>
      else if port = 0x1f7 then ata_cmd b d
      else d)"

text \<open>The status: not busy, ready, with data to transfer or not. Reading it acknowledges the interrupt.\<close>

definition ata_status :: "ata_dev \<Rightarrow> u8" where
  "ata_status d = (if a_out d \<noteq> [] \<or> a_want d > 0 then 0x48 else 0x40)"

definition ata_outs :: "u8 list \<Rightarrow> ata_dev \<Rightarrow> ata_dev" where
  "ata_outs bs d =
     (if length bs = a_want d
      then d\<lparr>a_irq := True, a_want := 0, a_sec := (a_sec d)(slave d := write_secs (a_at d) bs (a_sec d (slave d)))\<rparr>
      else d)"

text \<open>The machine's primary channel is such a channel.\<close>

definition ata :: "'h machine \<Rightarrow> ('h \<Rightarrow> ata_dev) \<Rightarrow> bool" where
  "ata M dev \<longleftrightarrow>
     (\<forall>h b. \<forall>port \<in> {0x1f2, 0x1f3, 0x1f4, 0x1f5, 0x1f6, 0x1f7}. dev (hw_out M port b h) = ata_out port b (dev h)) \<and>
     (\<forall>h. fst (hw_in M 0x1f7 h) = ata_status (dev h) \<and> dev (snd (hw_in M 0x1f7 h)) = (dev h)\<lparr>a_irq := False\<rparr>) \<and>
     (\<forall>h n. fst (hw_ins M 0x1f0 n h) = take (2 * n) (a_out (dev h)) \<and>
        dev (snd (hw_ins M 0x1f0 n h)) = (dev h)\<lparr>a_out := drop (2 * n) (a_out (dev h))\<rparr>) \<and>
     (\<forall>h bs. dev (hw_outs M 0x1f0 bs h) = ata_outs bs (dev h)) \<and>
     (\<forall>h. hw_irq M 0 h = a_irq (dev h))"

lemma ataD:
  assumes "ata M dev"
  shows "dev (hw_out M 0x1f2 b h) = (dev h)\<lparr>a_cnt := b\<rparr>" "dev (hw_out M 0x1f3 b h) = (dev h)\<lparr>a_lo := b\<rparr>"
    "dev (hw_out M 0x1f4 b h) = (dev h)\<lparr>a_mid := b\<rparr>" "dev (hw_out M 0x1f5 b h) = (dev h)\<lparr>a_hi := b\<rparr>"
    "dev (hw_out M 0x1f6 b h) = (dev h)\<lparr>a_drv := b\<rparr>" "dev (hw_out M 0x1f7 b h) = ata_cmd b (dev h)"
    "fst (hw_in M 0x1f7 h) = ata_status (dev h)" "dev (snd (hw_in M 0x1f7 h)) = (dev h)\<lparr>a_irq := False\<rparr>"
    "fst (hw_ins M 0x1f0 n h) = take (2 * n) (a_out (dev h))"
    "dev (snd (hw_ins M 0x1f0 n h)) = (dev h)\<lparr>a_out := drop (2 * n) (a_out (dev h))\<rparr>"
    "dev (hw_outs M 0x1f0 bs h) = ata_outs bs (dev h)" "hw_irq M 0 h = a_irq (dev h)"
  using assms by (simp_all add: ata_def ata_out_def)

text \<open>The driver's ports.\<close>

lemma ports:
  assumes "dsk < 2"
  shows "reg_data dsk = 0x1f0" "reg_sect_cnt dsk = 0x1f2" "reg_lba_l dsk = 0x1f3" "reg_lba_m dsk = 0x1f4"
    "reg_lba_h dsk = 0x1f5" "reg_dev dsk = 0x1f6" "reg_status dsk = 0x1f7" "reg_cmd dsk = 0x1f7" "dsk div 2 = 0"
  using assms
  by (simp_all add: reg_data_def reg_sect_cnt_def reg_lba_l_def reg_lba_m_def reg_lba_h_def reg_dev_def reg_status_def
      reg_cmd_def port_base_def)

lemma device_bytes:
  "list_all (\<lambda>k. list_all (\<lambda>b.
     let d = ucast (0xa0 OR 0x40 OR (if b then 0x10 else 0) OR (of_nat k :: u64)) :: u8 in unat d mod 16 = k \<and> bit d 4 = b)
     [False, True]) [0..<16]"
  by code_simp

lemma device_byte:
  assumes "lba < 2 ^ 28"
  defines "d \<equiv> \<lambda>b. ucast (0xa0 OR 0x40 OR (if b then 0x10 else 0) OR drop_bit 24 (of_nat lba :: u64)) :: u8"
  shows "unat (d b) mod 16 = lba div 2 ^ 24" "bit (d b) 4 = b"
proof -
  have u: "unat (of_nat lba :: u64) = lba" using assms by (simp add: unat_of_nat)
  have "unat (drop_bit 24 (of_nat lba :: u64)) = lba div 2 ^ 24" by (simp only: unat_drop_bit_eq u) (simp add: drop_bit_eq_div)
  then have w: "drop_bit 24 (of_nat lba :: u64) = of_nat (lba div 2 ^ 24)" by (metis of_nat_unat ucast_id)
  have "lba div 2 ^ 24 < 16" using assms by (simp add: less_mult_imp_div_less)
  then have "lba div 2 ^ 24 \<in> set [0..<16]" "b \<in> set [False, True]" by (simp_all only: set_upt atLeastLessThan_iff) auto
  from device_bytes[unfolded list_all_iff, rule_format, OF this]
  show "unat (d b) mod 16 = lba div 2 ^ 24" "bit (d b) 4 = b" unfolding d_def w Let_def by blast+
qed

lemma dk_order [simp]:
  fixes s :: "('h, 'z) dkstate_scheme"
  shows
  "intr_flag_update f_intr_flag (hw_update f_hw s) = hw_update f_hw (intr_flag_update f_intr_flag s)"
  "links_update f_links (hw_update f_hw s) = hw_update f_hw (links_update f_links s)"
  "tasks_update f_tasks (hw_update f_hw s) = hw_update f_hw (tasks_update f_tasks s)"
  "sema_value_update f_sema_value (hw_update f_hw s) = hw_update f_hw (sema_value_update f_sema_value s)"
  "kernel_mem_pool_update f_kernel_mem_pool (hw_update f_hw s) = hw_update f_hw (kernel_mem_pool_update f_kernel_mem_pool s)"
  "arenas_update f_arenas (hw_update f_hw s) = hw_update f_hw (arenas_update f_arenas s)"
  "intr_flag_update f_intr_flag (expecting_intr_update f_expecting_intr s) = expecting_intr_update f_expecting_intr (intr_flag_update f_intr_flag s)"
  "links_update f_links (expecting_intr_update f_expecting_intr s) = expecting_intr_update f_expecting_intr (links_update f_links s)"
  "tasks_update f_tasks (expecting_intr_update f_expecting_intr s) = expecting_intr_update f_expecting_intr (tasks_update f_tasks s)"
  "sema_value_update f_sema_value (expecting_intr_update f_expecting_intr s) = expecting_intr_update f_expecting_intr (sema_value_update f_sema_value s)"
  "kernel_mem_pool_update f_kernel_mem_pool (expecting_intr_update f_expecting_intr s) = expecting_intr_update f_expecting_intr (kernel_mem_pool_update f_kernel_mem_pool s)"
  "arenas_update f_arenas (expecting_intr_update f_expecting_intr s) = expecting_intr_update f_expecting_intr (arenas_update f_arenas s)"
  "hw_update f_hw (expecting_intr_update f_expecting_intr s) = expecting_intr_update f_expecting_intr (hw_update f_hw s)"
  by simp_all

lemma lba_bytes:
  assumes "lba < 2 ^ 28"
  shows "unat (ucast (of_nat lba :: u64) :: u8) + 2 ^ 8 * unat (ucast (drop_bit 8 (of_nat lba :: u64)) :: u8) +
    2 ^ 16 * unat (ucast (drop_bit 16 (of_nat lba :: u64)) :: u8) + 2 ^ 24 * (lba div 2 ^ 24) = lba"
proof -
  have u: "unat (of_nat lba :: u64) = lba" using assms by (simp add: unat_of_nat)
  have b: "unat (ucast (drop_bit k (of_nat lba :: u64)) :: u8) = lba div 2 ^ k mod 256" for k
    by (simp only: unsigned_ucast_eq unat_drop_bit_eq u) (simp add: take_bit_eq_mod drop_bit_eq_div)
  have b0: "unat (ucast (of_nat lba :: u64) :: u8) = lba mod 256" using b[of 0] by simp
  define q1 q2 where "q1 = lba div 256" and "q2 = q1 div 256"
  have q: "lba div 256 = q1" "lba div 65536 = q2" "lba div 16777216 = q2 div 256"
    by (simp_all add: q1_def q2_def div_mult2_eq[symmetric])
  have "lba = 256 * q1 + lba mod 256" "q1 = 256 * q2 + q1 mod 256" "q2 = 256 * (q2 div 256) + q2 mod 256"
    by (simp_all add: q1_def q2_def)
  moreover have p: "2 ^ 8 = (256 :: nat)" "2 ^ 16 = (65536 :: nat)" "2 ^ 24 = (16777216 :: nat)" by simp_all
  ultimately show ?thesis unfolding b b0 p unfolding q by linarith
qed

section \<open>One transfer\<close>

text \<open>The driver can transfer data on the primary channel: interrupts are on, nobody waits for the disk.\<close>

definition dk_ok :: "('h, 'z) dkstate_scheme \<Rightarrow> bool" where
  "dk_ok s \<longleftrightarrow> intr_flag s = intr_on \<and> cur_ok s \<and> sema_value s (DiskDone 0) = 0 \<and> tq s (Waiters (DiskDone 0)) []"

text \<open>What a transfer leaves behind: the state of the machine, and no interrupt expected.\<close>

definition dk_done :: "'h \<Rightarrow> ('h, 'z) dkstate_scheme \<Rightarrow> ('h, 'z) dkstate_scheme" where
  "dk_done h s = s\<lparr>hw := h, expecting_intr := (expecting_intr s)(0 := False)\<rparr>"

lemma dk_ok_done [simp]: "dk_ok (dk_done h s) = dk_ok s" "dk_done h' (dk_done h s) = dk_done h' s" "hw (dk_done h s) = h"
  "hd_cnt (dk_done h s) = hd_cnt s"
  by (simp_all add: dk_ok_def dk_done_def cur_ok_def tq_def)

lemma select_sector_ok:
  assumes M: "ata M dev" and d: "dsk < 2" and lba: "lba < 2 ^ 28"
  shows "\<exists>h. select_sector M dsk (of_nat lba) c s = Ret () (s\<lparr>hw := h\<rparr>) \<and> ata_lba (dev h) = lba \<and>
    slave (dev h) = (dsk = 1) \<and> a_cnt (dev h) = c \<and> a_sec (dev h) = a_sec (dev (hw s))"
proof -
  let ?w = "of_nat lba :: u64"
  let ?v = "ucast (0xa0 OR 0x40 OR (if dsk = 1 then 0x10 else 0) OR drop_bit 24 ?w) :: u8"
  let ?h = "hw_out M 0x1f6 ?v (hw_out M 0x1f5 (ucast (drop_bit 16 ?w)) (hw_out M 0x1f4 (ucast (drop_bit 8 ?w))
    (hw_out M 0x1f3 (ucast ?w) (hw_out M 0x1f2 c (hw s)))))"
  have "select_sector M dsk ?w c s = Ret () (s\<lparr>hw := ?h\<rparr>)"
    by (simp only: select_sector_def ports[OF d] outb_run bnd_io) simp
  moreover have "ata_lba (dev ?h) = lba" "slave (dev ?h) = (dsk = 1)"
    using lba_bytes[OF lba] device_byte[OF lba, of "dsk = 1"] by (simp_all only: ata_lba_def slave_def ataD[OF M] ata_dev.simps) simp_all
  moreover have "a_cnt (dev ?h) = c" "a_sec (dev ?h) = a_sec (dev (hw s))" by (simp_all add: ataD[OF M])
  ultimately show ?thesis by blast
qed

text \<open>The interrupt that a command or the last byte of a sector raises.\<close>

lemma take_irq_ok:
  assumes M: "ata M dev" and s: "dk_ok s" "a_irq (dev (hw s))" "expecting_intr s 0"
  shows "\<exists>h. take_irq M 0 s = Ret () (unlocked (DiskDone 0) (dk_done h s)) \<and> dev h = (dev (hw s))\<lparr>a_irq := False\<rparr>"
proof -
  let ?s = "s\<lparr>intr_flag := intr_off, expecting_intr := (expecting_intr s)(0 := False)\<rparr>"
  let ?h = "snd (hw_in M 0x1f7 (hw s))"
  have up: "sema_up (DiskDone 0) ?s = Ret () (unlocked (DiskDone 0) ?s)"
    using s(1) by (intro sema_up_free) (simp_all add: dk_ok_def tq_def)
  have "take_irq M 0 s = Ret () (unlocked (DiskDone 0) (dk_done ?h s))"
    using s up ports(7)[of 0]
    by (simp add: take_irq_def intr_hd_handle_def ataD[OF M] dk_ok_def unlocked_def kput_def ret_def dk_done_def bnd_assoc)
  then show ?thesis using ataD(8)[OF M] by blast
qed

lemma no_irq:
  assumes "ata M dev" "\<not> a_irq (dev (hw s))"
  shows "take_irq M 0 s = Ret () s"
  using assms by (simp add: take_irq_def ataD ret_def)

lemma sema_down_done:
  assumes "dk_ok s"
  shows "sema_down (DiskDone 0) (unlocked (DiskDone 0) s) = Ret () s"
proof -
  have "sema_down (DiskDone 0) (unlocked (DiskDone 0) s) = Ret () (locked (DiskDone 0) (unlocked (DiskDone 0) s))"
    using assms by (intro sema_down_free) (simp_all add: dk_ok_def lock_free_def unlocked_def tq_def cur_ok_def)
  moreover have "locked (DiskDone 0) (unlocked (DiskDone 0) s) = s"
    using assms by (simp add: locked_def unlocked_def dk_ok_def fun_upd_idem)
  ultimately show ?thesis by simp
qed

lemma busy_wait_ok:
  assumes M: "ata M dev" and d: "dsk < 2"
  shows "\<exists>h. busy_wait M dsk s = Ret (a_out (dev (hw s)) \<noteq> [] \<or> a_want (dev (hw s)) > 0) (s\<lparr>hw := h\<rparr>) \<and>
    dev h = (dev (hw s))\<lparr>a_irq := False\<rparr>"
proof -
  have n: "30 * 1000 = Suc 29999" by simp
  let ?h = "snd (hw_in M 0x1f7 (snd (hw_in M 0x1f7 (hw s))))"
  have "busy_wait M dsk s = Ret (a_out (dev (hw s)) \<noteq> [] \<or> a_want (dev (hw s)) > 0) (s\<lparr>hw := ?h\<rparr>)"
    unfolding busy_wait_def n busy_loop.simps by (simp add: ports[OF d] ataD[OF M] ata_status_def ret_def)
  moreover have "dev ?h = (dev (hw s))\<lparr>a_irq := False\<rparr>" by (simp add: ataD[OF M])
  ultimately show ?thesis by blast
qed

lemma read_secs_length: "(\<And>i. length (sec i) = 512) \<Longrightarrow> length (read_secs sec lba n) = 512 * n"
  by (induction n) (simp_all add: read_secs_def)

lemma read_secs_add: "read_secs sec lba (m + n) = read_secs sec lba m @ read_secs sec (lba + m) n"
proof -
  have "[lba..<lba + (m + n)] = [lba..<lba + m] @ [lba + m..<lba + m + n]" by (metis add.assoc upt_add_eq_append le_add1)
  then show ?thesis by (simp add: read_secs_def)
qed

text \<open>Every sector has 512 bytes.\<close>

definition secs_ok :: "ata_dev \<Rightarrow> bool" where
  "secs_ok d \<longleftrightarrow> (\<forall>b i. length (a_sec d b i) = 512)"

definition op_len :: "nat \<Rightarrow> nat" where
  "op_len n = (if n = 0 then 256 else n)"

lemma op_len_count:
  assumes "n \<le> 256" "a_cnt d = of_nat n"
  shows "ata_n d = op_len n" "size_in_byte (of_nat n) = 512 * op_len n"
proof -
  have z: "(of_nat n :: u8) = 0 \<longleftrightarrow> n = 0 \<or> n = 256"
  proof
    assume "(of_nat n :: u8) = 0"
    then have "unat (of_nat n :: u8) = 0" by (simp only: unsigned_0)
    then have "n mod 256 = 0" by (simp add: unat_of_nat)
    then show "n = 0 \<or> n = 256" using assms(1) by (cases "n = 256") auto
  qed auto
  have u: "unat (of_nat n :: u8) = n" if "n < 256" using that by (simp add: unat_of_nat)
  show "ata_n d = op_len n" "size_in_byte (of_nat n) = 512 * op_len n"
    using z u assms by (auto simp: ata_n_def op_len_def size_in_byte_def le_less)
qed

lemma dk_done_hw: "dk_done h (s\<lparr>hw := h'\<rparr>) = dk_done h s" "(dk_done h s)\<lparr>hw := h'\<rparr> = dk_done h' s"
  by (simp_all add: dk_done_def)

lemma read_chunk:
  assumes M: "ata M dev" and d: "dsk < 2" and s: "dk_ok s" and lba: "lba < 2 ^ 28" and n: "n \<le> 256"
    and sec: "secs_ok (dev (hw s))"
  shows "\<exists>h. bnd (select_sector M dsk (of_nat lba) (of_nat n)) (\<lambda>_. bnd (cmd_out M dsk 0x20) (\<lambda>_. bnd (take_irq M 0) (\<lambda>_.
      bnd (sema_down (DiskDone 0)) (\<lambda>_. bnd (busy_wait M dsk) (\<lambda>ready. bnd (ASSERT ready) (\<lambda>_.
      bnd (read_from_sector M dsk (of_nat n)) k)))))) s =
      k (read_secs (a_sec (dev (hw s)) (dsk = 1)) lba (op_len n)) (dk_done h s) \<and> a_sec (dev h) = a_sec (dev (hw s))"
proof -
  obtain h1 where h1: "select_sector M dsk (of_nat lba) (of_nat n) s = Ret () (s\<lparr>hw := h1\<rparr>)" "ata_lba (dev h1) = lba"
      "slave (dev h1) = (dsk = 1)" "a_cnt (dev h1) = of_nat n" "a_sec (dev h1) = a_sec (dev (hw s))"
    using select_sector_ok[OF M d lba] by blast
  let ?secs = "read_secs (a_sec (dev (hw s)) (dsk = 1)) lba (op_len n)"
  define s2 where "s2 = s\<lparr>hw := hw_out M 0x1f7 0x20 h1, expecting_intr := (expecting_intr s)(0 := True)\<rparr>"
  have c: "cmd_out M dsk 0x20 (s\<lparr>hw := h1\<rparr>) = Ret () s2"
    by (simp add: cmd_out_def ports[OF d] outb_run s2_def)
  have dev2: "dev (hw s2) = (dev h1)\<lparr>a_irq := True, a_out := ?secs, a_want := 0\<rparr>"
    using h1 op_len_count(1)[OF n h1(4)] by (simp add: s2_def ataD[OF M] ata_cmd_def)
  have ok2: "dk_ok s2" using s by (simp add: s2_def dk_ok_def cur_ok_def tq_def)
  obtain h3 where h3: "take_irq M 0 s2 = Ret () (unlocked (DiskDone 0) (dk_done h3 s2))" "dev h3 = (dev (hw s2))\<lparr>a_irq := False\<rparr>"
    using take_irq_ok[OF M ok2] dev2 by (auto simp: s2_def)
  have 4: "sema_down (DiskDone 0) (unlocked (DiskDone 0) (dk_done h3 s2)) = Ret () (dk_done h3 s2)"
    using ok2 by (intro sema_down_done) simp
  obtain h5 where h5: "busy_wait M dsk (dk_done h3 s2) = Ret (a_out (dev h3) \<noteq> [] \<or> a_want (dev h3) > 0) (dk_done h5 s2)"
      "dev h5 = (dev h3)\<lparr>a_irq := False\<rparr>"
    using busy_wait_ok[OF M d, of "dk_done h3 s2"] by (auto simp: dk_done_hw)
  have len: "length ?secs = 512 * op_len n" using sec by (intro read_secs_length) (simp add: secs_ok_def)
  then have ne: "?secs \<noteq> []" by (auto simp: op_len_def split: if_splits)
  have dn: "dk_done h s2 = dk_done h s" for h by (simp add: s2_def dk_done_def)
  have "2 * (size_in_byte (of_nat n) div 2) = length ?secs" using op_len_count(2)[OF n h1(4)] len by simp
  then have r: "fst (hw_ins M 0x1f0 (size_in_byte (of_nat n) div 2) h5) = ?secs"
    using h3(2) h5(2) dev2 by (simp add: ataD[OF M])
  let ?h = "snd (hw_ins M 0x1f0 (size_in_byte (of_nat n) div 2) h5)"
  have "a_sec (dev ?h) = a_sec (dev (hw s))" using h3(2) h5(2) dev2 h1(5) by (simp add: ataD[OF M])
  moreover have "a_out (dev h3) \<noteq> []" using h3(2) dev2 ne by simp
  ultimately show ?thesis
    using h1(1) c h3(1) 4 h5(1) r
    by (intro exI[of _ ?h]) (simp add: read_from_sector_def ports(1)[OF d] dn dk_done_hw)
qed

lemma write_chunk:
  assumes M: "ata M dev" and d: "dsk < 2" and s: "dk_ok s" and lba: "lba < 2 ^ 28" and n: "n \<le> 256"
    and buf: "512 * op_len n \<le> length buf"
  shows "\<exists>h. bnd (select_sector M dsk (of_nat lba) (of_nat n)) (\<lambda>_. bnd (cmd_out M dsk 0x30) (\<lambda>_. bnd (take_irq M 0) (\<lambda>_.
      bnd (busy_wait M dsk) (\<lambda>ready. bnd (ASSERT ready) (\<lambda>_. bnd (write2sector M dsk buf (of_nat n)) (\<lambda>_.
      bnd (take_irq M 0) (\<lambda>_. bnd (sema_down (DiskDone 0)) (\<lambda>_. k)))))))) s = k (dk_done h s) \<and>
      a_sec (dev h) = (a_sec (dev (hw s)))((dsk = 1) :=
        write_secs lba (take (512 * op_len n) buf) (a_sec (dev (hw s)) (dsk = 1)))"
proof -
  obtain h1 where h1: "select_sector M dsk (of_nat lba) (of_nat n) s = Ret () (s\<lparr>hw := h1\<rparr>)" "ata_lba (dev h1) = lba"
      "slave (dev h1) = (dsk = 1)" "a_cnt (dev h1) = of_nat n" "a_sec (dev h1) = a_sec (dev (hw s))"
    using select_sector_ok[OF M d lba] by blast
  define h2 where "h2 = hw_out M 0x1f7 0x30 h1"
  define s2 where "s2 h = s\<lparr>hw := h, expecting_intr := (expecting_intr s)(0 := True)\<rparr>" for h
  have c: "cmd_out M dsk 0x30 (s\<lparr>hw := h1\<rparr>) = Ret () (s2 h2)"
    by (simp add: cmd_out_def ports[OF d] outb_run s2_def h2_def)
  have dev2: "dev h2 = (dev h1)\<lparr>a_irq := False, a_out := [], a_want := 512 * op_len n, a_at := lba\<rparr>"
    using h1 op_len_count(1)[OF n h1(4)] by (simp add: h2_def ataD[OF M] ata_cmd_def)
  have hw2: "hw (s2 h) = h" "(s2 h)\<lparr>hw := h'\<rparr> = s2 h'" "dk_ok (s2 h)" "expecting_intr (s2 h) 0" "dk_done h' (s2 h) = dk_done h' s" for h h'
    using s by (simp_all add: s2_def dk_ok_def cur_ok_def tq_def dk_done_def)
  have 3: "take_irq M 0 (s2 h2) = Ret () (s2 h2)" using dev2 by (intro no_irq[OF M]) (simp add: hw2)
  obtain h4 where h4: "busy_wait M dsk (s2 h2) = Ret (a_out (dev h2) \<noteq> [] \<or> a_want (dev h2) > 0) (s2 h4)"
      "dev h4 = (dev h2)\<lparr>a_irq := False\<rparr>"
    using busy_wait_ok[OF M d, of "s2 h2"] by (auto simp: hw2)
  have size: "size_in_byte (of_nat n) = 512 * op_len n" using op_len_count(2)[OF n h1(4)] .
  have rdy: "a_want (dev h2) > 0" using dev2 by (simp add: op_len_def)
  define h5 where "h5 = hw_outs M 0x1f0 (take (512 * op_len n) buf) h4"
  have dev5: "a_irq (dev h5)" "a_sec (dev h5) = (a_sec (dev (hw s)))((dsk = 1) :=
        write_secs lba (take (512 * op_len n) buf) (a_sec (dev (hw s)) (dsk = 1)))"
    using h4(2) dev2 buf h1(3,5) by (simp_all add: h5_def ataD[OF M] ata_outs_def slave_def)
  have 5: "write2sector M dsk buf (of_nat n) (s2 h4) = Ret () (s2 h5)"
    using buf by (simp add: write2sector_def size ports(1)[OF d] outsw_def kput_def hw2 h5_def)
  obtain h6 where h6: "take_irq M 0 (s2 h5) = Ret () (unlocked (DiskDone 0) (dk_done h6 s))" "dev h6 = (dev h5)\<lparr>a_irq := False\<rparr>"
    using take_irq_ok[OF M hw2(3), of h5] dev5(1) hw2 by auto
  have 7: "sema_down (DiskDone 0) (unlocked (DiskDone 0) (dk_done h6 s)) = Ret () (dk_done h6 s)"
    using s by (intro sema_down_done) simp
  show ?thesis
    using h1(1) c 3 h4(1) rdy 5 h6 7 dev5(2) by (intro exI[of _ h6]) simp
qed

section \<open>Whole requests\<close>

text \<open>The loop condition \<^verbatim>\<open>secs_done <= sec_cnt\<close> makes one round too many when \<^verbatim>\<open>sec_cnt\<close> is a multiple of 256; that round
  asks for 0 sectors, which the disk takes for 256.\<close>

definition secs_moved :: "nat \<Rightarrow> nat" where
  "secs_moved sec_cnt = (if 256 dvd sec_cnt then sec_cnt + 256 else sec_cnt)"

lemma last_op: "256 dvd secs_done \<Longrightarrow> secs_done \<le> sec_cnt \<Longrightarrow> sec_cnt - secs_done < 256 \<Longrightarrow>
   op_len (sec_cnt - secs_done) = secs_moved sec_cnt - secs_done"
proof -
  assume a: "256 dvd secs_done" "secs_done \<le> sec_cnt" "sec_cnt - secs_done < 256"
  have "256 dvd sec_cnt \<longleftrightarrow> sec_cnt = secs_done"
  proof
    assume "256 dvd sec_cnt"
    then have "256 dvd sec_cnt - secs_done" using a(1) by simp
    then show "sec_cnt = secs_done" using a(2,3) by (auto dest: dvd_imp_le)
  qed (use a(1) in simp)
  then show ?thesis using a by (auto simp: op_len_def secs_moved_def)
qed

lemma ide_read_loop_ok:
  assumes M: "ata M dev" and d: "dsk < 2" and s: "dk_ok s" "secs_ok (dev (hw s))" "lba + sec_cnt < 2 ^ 28"
    and k: "256 dvd secs_done" "secs_done \<le> sec_cnt"
  shows "\<exists>h. ide_read_loop M dsk lba sec_cnt secs_done s =
      Ret (read_secs (a_sec (dev (hw s)) (dsk = 1)) (lba + secs_done) (secs_moved sec_cnt - secs_done)) (dk_done h s) \<and>
      a_sec (dev h) = a_sec (dev (hw s))"
  using s k
proof (induction "sec_cnt - secs_done" arbitrary: secs_done s rule: less_induct)
  case less
  let ?n = "if sec_cnt - secs_done \<ge> 256 then 256 else sec_cnt - secs_done"
  let ?k = "\<lambda>data. bnd (ide_read_loop M dsk lba sec_cnt (secs_done + 256)) (\<lambda>rest. ret (data @ rest))"
  let ?sec = "a_sec (dev (hw s)) (dsk = 1)"
  have lba: "lba + secs_done < 2 ^ 28" "?n \<le> 256" using less.prems by auto
  note eq = ide_read_loop.simps[of M dsk lba sec_cnt secs_done, unfolded Let_def if_P[OF less.prems(5)] ports(9)[OF d]]
  from read_chunk[OF M d less.prems(1) lba less.prems(2), where k = ?k]
  obtain h where h: "ide_read_loop M dsk lba sec_cnt secs_done s =
      ?k (read_secs ?sec (lba + secs_done) (op_len ?n)) (dk_done h s)" "a_sec (dev h) = a_sec (dev (hw s))"
    unfolding eq by blast
  show ?case
  proof (cases "sec_cnt - secs_done \<ge> 256")
    case True
    then have le: "sec_cnt - (secs_done + 256) < sec_cnt - secs_done" "secs_done + 256 \<le> sec_cnt" by linarith+
    have ok: "dk_ok (dk_done h s)" "secs_ok (dev (hw (dk_done h s)))" using less.prems(1,2) h(2) by (simp_all add: secs_ok_def)
    obtain h' where h': "ide_read_loop M dsk lba sec_cnt (secs_done + 256) (dk_done h s) =
        Ret (read_secs ?sec (lba + (secs_done + 256)) (secs_moved sec_cnt - (secs_done + 256))) (dk_done h' s)"
        "a_sec (dev h') = a_sec (dev (hw s))"
      using less.hyps[OF le(1) ok less.prems(3) _ le(2)] less.prems(4) h(2) by auto
    have "secs_moved sec_cnt - secs_done = 256 + (secs_moved sec_cnt - (secs_done + 256))"
      using le by (auto simp: secs_moved_def)
    then have "read_secs ?sec (lba + secs_done) (op_len 256) @ read_secs ?sec (lba + (secs_done + 256)) (secs_moved sec_cnt - (secs_done + 256))
        = read_secs ?sec (lba + secs_done) (secs_moved sec_cnt - secs_done)"
      by (simp only: read_secs_add) (simp add: op_len_def add.assoc)
    then show ?thesis using h(1) h' True by (auto simp: ret_def)
  next
    case False
    then have gt: "\<not> secs_done + 256 \<le> sec_cnt" using less.prems(5) by linarith
    have "ide_read_loop M dsk lba sec_cnt (secs_done + 256) (dk_done h s) = Ret [] (dk_done h s)"
      by (simp add: ide_read_loop.simps[of M dsk lba sec_cnt "secs_done + 256"] gt ret_def)
    then show ?thesis using h False last_op[OF less.prems(4,5)] by (auto simp: ret_def)
  qed
qed

lemma write_secs_append:
  assumes "length as = 512 * m" "512 dvd length bs"
  shows "write_secs (lba + m) bs (write_secs lba as sec) = write_secs lba (as @ bs) sec"
proof
  fix i
  have len: "length (as @ bs) div 512 = m + length bs div 512" using assms(1) by simp
  consider "i < lba" | "lba \<le> i" "i < lba + m" | "lba + m \<le> i" by linarith
  then show "write_secs (lba + m) bs (write_secs lba as sec) i = write_secs lba (as @ bs) sec i"
  proof cases
    case 2
    then have "512 * (i - lba) + 512 \<le> length as" using assms(1) by auto
    then show ?thesis using 2 len assms(1) by (simp add: write_secs_def)
  next
    case 3
    then have "512 * (i - lba) - length as = 512 * (i - (lba + m))" "length as \<le> 512 * (i - lba)" using assms(1) by auto
    then show ?thesis using 3 len assms(1) by (auto simp: write_secs_def)
  qed (simp add: write_secs_def)
qed

lemma read_write_secs: "length bs = 512 * n \<Longrightarrow> read_secs (write_secs lba bs sec) lba n = bs"
proof (induction n arbitrary: bs)
  case (Suc n)
  let ?as = "take (512 * n) bs" and ?b = "drop (512 * n) bs"
  have b: "?as @ ?b = bs" "length ?as = 512 * n" "length ?b = 512" using Suc.prems by simp_all
  have w: "write_secs lba bs sec = write_secs (lba + n) ?b (write_secs lba ?as sec)"
    using write_secs_append[OF b(2), of ?b lba sec] b(1,3) by simp
  have "read_secs (write_secs lba bs sec) lba n = read_secs (write_secs lba ?as sec) lba n"
    unfolding w read_secs_def by (intro arg_cong[where f = concat] map_cong) (auto simp: write_secs_def)
  moreover have "write_secs lba bs sec (lba + n) = ?b" using Suc.prems by (simp add: write_secs_def)
  ultimately show ?case
    using Suc.IH[OF b(2)] b(1) read_secs_add[of "write_secs lba bs sec" lba n 1] by (simp add: read_secs_def)
qed (simp add: read_secs_def)

lemma ide_write_loop_ok:
  assumes M: "ata M dev" and d: "dsk < 2" and s: "dk_ok s" "lba + sec_cnt < 2 ^ 28" "512 * secs_moved sec_cnt \<le> length buf"
    and k: "256 dvd secs_done" "secs_done \<le> sec_cnt"
  shows "\<exists>h. ide_write_loop M dsk lba buf sec_cnt secs_done s = Ret () (dk_done h s) \<and>
      a_sec (dev h) = (a_sec (dev (hw s)))((dsk = 1) := write_secs (lba + secs_done)
        (take (512 * (secs_moved sec_cnt - secs_done)) (drop (512 * secs_done) buf)) (a_sec (dev (hw s)) (dsk = 1)))"
  using s k
proof (induction "sec_cnt - secs_done" arbitrary: secs_done s rule: less_induct)
  case less
  let ?n = "if sec_cnt - secs_done \<ge> 256 then 256 else sec_cnt - secs_done"
  let ?buf = "drop (secs_done * 512) buf" and ?sec = "a_sec (dev (hw s)) (dsk = 1)"
  have op: "op_len ?n \<le> secs_moved sec_cnt - secs_done"
    using last_op[OF less.prems(4,5)] less.prems(5) by (auto simp: op_len_def secs_moved_def)
  have lba: "lba + secs_done < 2 ^ 28" "?n \<le> 256" using less.prems by auto
  have "512 * op_len ?n \<le> 512 * (secs_moved sec_cnt - secs_done)" using op by simp
  also have "\<dots> \<le> length buf - 512 * secs_done" using less.prems(3) by (simp add: diff_mult_distrib2)
  finally have len: "512 * op_len ?n \<le> length ?buf" by (simp add: mult.commute)
  note eq = ide_write_loop.simps[of M dsk lba buf sec_cnt secs_done, unfolded Let_def if_P[OF less.prems(5)] ports(9)[OF d]]
  from write_chunk[OF M d less.prems(1) lba len, where k = "ide_write_loop M dsk lba buf sec_cnt (secs_done + 256)"]
  obtain h where h: "ide_write_loop M dsk lba buf sec_cnt secs_done s =
      ide_write_loop M dsk lba buf sec_cnt (secs_done + 256) (dk_done h s)"
      "a_sec (dev h) = (a_sec (dev (hw s)))((dsk = 1) := write_secs (lba + secs_done) (take (512 * op_len ?n) ?buf) ?sec)"
    unfolding eq by blast
  show ?case
  proof (cases "sec_cnt - secs_done \<ge> 256")
    case True
    then have le: "sec_cnt - (secs_done + 256) < sec_cnt - secs_done" "secs_done + 256 \<le> sec_cnt" by linarith+
    have ok: "dk_ok (dk_done h s)" using less.prems(1) by simp
    let ?r = "secs_moved sec_cnt - (secs_done + 256)"
    obtain h' where h': "ide_write_loop M dsk lba buf sec_cnt (secs_done + 256) (dk_done h s) = Ret () (dk_done h' s)"
        "a_sec (dev h') = (a_sec (dev h))((dsk = 1) := write_secs (lba + (secs_done + 256))
          (take (512 * ?r) (drop (512 * (secs_done + 256)) buf)) (a_sec (dev h) (dsk = 1)))"
      using less.hyps[OF le(1) ok less.prems(2,3) _ le(2)] less.prems(4) by auto
    have r: "secs_moved sec_cnt - secs_done = 256 + ?r" using le by (auto simp: secs_moved_def)
    let ?as = "take (512 * 256) ?buf" and ?bs = "take (512 * ?r) (drop (512 * (secs_done + 256)) buf)"
    have "take (512 * (secs_moved sec_cnt - secs_done)) ?buf = ?as @ ?bs"
      unfolding r distrib_left take_add by (simp add: algebra_simps)
    moreover have "length ?as = 512 * 256" "512 dvd length ?bs"
      using less.prems(3) r True by (simp_all add: secs_moved_def split: if_splits)
    ultimately show ?thesis
      using h h' True write_secs_append[of ?as 256 ?bs "lba + secs_done" ?sec]
      by (intro exI[of _ h']) (simp add: op_len_def mult.commute add.assoc)
  next
    case False
    then have gt: "\<not> secs_done + 256 \<le> sec_cnt" using less.prems(5) by linarith
    have "ide_write_loop M dsk lba buf sec_cnt (secs_done + 256) (dk_done h s) = Ret () (dk_done h s)"
      by (simp add: ide_write_loop.simps[of M dsk lba buf sec_cnt "secs_done + 256"] gt ret_def)
    then show ?thesis using h False last_op[OF less.prems(4,5)] by (auto simp: mult.commute)
  qed
qed

text \<open>The disk's contents and the locks after a request.\<close>

definition io_ready :: "('h, 'z) dkstate_scheme \<Rightarrow> bool" where
  "io_ready s \<longleftrightarrow> dk_ok s \<and> lock_free s (ChannelLock 0) \<and> \<not> expecting_intr s 0"

lemma select_disk_ok:
  assumes "ata M dev" "dsk < 2"
  shows "\<exists>h. select_disk M dsk s = Ret () (s\<lparr>hw := h\<rparr>) \<and> a_sec (dev h) = a_sec (dev (hw s))"
  using ataD(5)[OF assms(1)]
  by (intro exI[of _ "hw_out M 0x1f6 (if dsk = 1 then 0xa0 OR 0x40 OR 0x10 else 0xa0 OR 0x40) (hw s)"])
    (simp add: select_disk_def Let_def ports[OF assms(2)] outb_run)

lemma channel_locked:
  assumes "io_ready s"
  shows "sema_down (ChannelLock 0) s = Ret () (locked (ChannelLock 0) s)" "dk_ok ((locked (ChannelLock 0) s)\<lparr>hw := h\<rparr>)"
    "sema_up (ChannelLock 0) (dk_done h' ((locked (ChannelLock 0) s)\<lparr>hw := h\<rparr>)) = Ret () (s\<lparr>hw := h'\<rparr>)"
proof -
  show "sema_down (ChannelLock 0) s = Ret () (locked (ChannelLock 0) s)"
    using assms by (intro sema_down_free) (simp_all add: io_ready_def dk_ok_def)
  show "dk_ok ((locked (ChannelLock 0) s)\<lparr>hw := h\<rparr>)"
    using assms by (simp add: io_ready_def dk_ok_def locked_def cur_ok_def tq_def)
  have "sema_up (ChannelLock 0) (dk_done h' ((locked (ChannelLock 0) s)\<lparr>hw := h\<rparr>)) =
      Ret () (unlocked (ChannelLock 0) (dk_done h' ((locked (ChannelLock 0) s)\<lparr>hw := h\<rparr>)))"
    using assms by (intro sema_up_free) (simp_all add: io_ready_def lock_free_def locked_def dk_done_def tq_def)
  moreover have "unlocked (ChannelLock 0) (dk_done h' ((locked (ChannelLock 0) s)\<lparr>hw := h\<rparr>)) = s\<lparr>hw := h'\<rparr>"
    using assms by (simp add: io_ready_def lock_free_def unlocked_def locked_def dk_done_def fun_upd_idem)
  ultimately show "sema_up (ChannelLock 0) (dk_done h' ((locked (ChannelLock 0) s)\<lparr>hw := h\<rparr>)) = Ret () (s\<lparr>hw := h'\<rparr>)" by simp
qed

lemma io_ready_hw [simp]: "io_ready (s\<lparr>hw := h\<rparr>) = io_ready s"
  by (simp add: io_ready_def dk_ok_def lock_free_def cur_ok_def tq_def)

lemma ide_read_ok:
  assumes M: "ata M dev" and d: "dsk < 2" "dsk < hd_cnt s" and s: "io_ready s" "secs_ok (dev (hw s))"
    and n: "0 < sec_cnt" "lba + sec_cnt < 2 ^ 28"
  shows "\<exists>h. ide_read M dsk lba sec_cnt s =
      Ret (read_secs (a_sec (dev (hw s)) (dsk = 1)) lba (secs_moved sec_cnt)) (s\<lparr>hw := h\<rparr>) \<and> a_sec (dev h) = a_sec (dev (hw s))"
proof -
  have hw: "hw (locked (ChannelLock 0) s) = hw s" by (simp add: locked_def)
  obtain h1 where h1: "select_disk M dsk (locked (ChannelLock 0) s) = Ret () ((locked (ChannelLock 0) s)\<lparr>hw := h1\<rparr>)"
      "a_sec (dev h1) = a_sec (dev (hw s))"
    using select_disk_ok[OF M d(1), of "locked (ChannelLock 0) s"] hw by auto
  obtain h2 where h2: "ide_read_loop M dsk lba sec_cnt 0 ((locked (ChannelLock 0) s)\<lparr>hw := h1\<rparr>) =
      Ret (read_secs (a_sec (dev (hw s)) (dsk = 1)) lba (secs_moved sec_cnt)) (dk_done h2 ((locked (ChannelLock 0) s)\<lparr>hw := h1\<rparr>))"
      "a_sec (dev h2) = a_sec (dev (hw s))"
    using ide_read_loop_ok[OF M d(1) channel_locked(2)[OF s(1), of h1] _ n(2), of 0] s(2) h1(2) by (auto simp: secs_ok_def)
  have "ide_read M dsk lba sec_cnt s =
      Ret (read_secs (a_sec (dev (hw s)) (dsk = 1)) lba (secs_moved sec_cnt)) (s\<lparr>hw := h2\<rparr>)"
    using d(2) n(1) ports(9)[OF d(1)] channel_locked(1,3)[OF s(1)] h1(1) h2(1) by (simp add: ide_read_def ret_def)
  then show ?thesis using h2(2) by blast
qed

lemma ide_write_ok:
  assumes M: "ata M dev" and d: "dsk < 2" "dsk < hd_cnt s" and s: "io_ready s"
    and n: "0 < sec_cnt" "lba + sec_cnt < 2 ^ 28" "512 * secs_moved sec_cnt \<le> length buf"
  shows "\<exists>h. ide_write M dsk lba buf sec_cnt s = Ret () (s\<lparr>hw := h\<rparr>) \<and>
      a_sec (dev h) = (a_sec (dev (hw s)))((dsk = 1) :=
        write_secs lba (take (512 * secs_moved sec_cnt) buf) (a_sec (dev (hw s)) (dsk = 1)))"
proof -
  have hw: "hw (locked (ChannelLock 0) s) = hw s" by (simp add: locked_def)
  obtain h1 where h1: "select_disk M dsk (locked (ChannelLock 0) s) = Ret () ((locked (ChannelLock 0) s)\<lparr>hw := h1\<rparr>)"
      "a_sec (dev h1) = a_sec (dev (hw s))"
    using select_disk_ok[OF M d(1), of "locked (ChannelLock 0) s"] hw by auto
  obtain h2 where h2: "ide_write_loop M dsk lba buf sec_cnt 0 ((locked (ChannelLock 0) s)\<lparr>hw := h1\<rparr>) =
      Ret () (dk_done h2 ((locked (ChannelLock 0) s)\<lparr>hw := h1\<rparr>))"
      "a_sec (dev h2) = (a_sec (dev (hw s)))((dsk = 1) :=
        write_secs lba (take (512 * secs_moved sec_cnt) buf) (a_sec (dev (hw s)) (dsk = 1)))"
    using ide_write_loop_ok[OF M d(1) channel_locked(2)[OF s(1), of h1] n(2,3), of 0] h1(2) by auto
  have "ide_write M dsk lba buf sec_cnt s = Ret () (s\<lparr>hw := h2\<rparr>)"
    using d(2) n(1) ports(9)[OF d(1)] channel_locked(1,3)[OF s(1)] h1(1) h2(1) by (simp add: ide_write_def)
  then show ?thesis using h2(2) by blast
qed

section \<open>Properties\<close>

text \<open>A machine that consists of an ATA channel whose sectors are all zero.\<close>

definition demo_ata :: "ata_dev machine" where
  "demo_ata = \<lparr>hw_out = ata_out, hw_in = (\<lambda>port d. if port = 0x1f7 then (ata_status d, d\<lparr>a_irq := False\<rparr>) else (0, d)),
     hw_outs = (\<lambda>port. ata_outs), hw_ins = (\<lambda>port n d. (take (2 * n) (a_out d), d\<lparr>a_out := drop (2 * n) (a_out d)\<rparr>)),
     hw_irq = (\<lambda>n. a_irq)\<rparr>"

definition demo_dev :: ata_dev where
  "demo_dev = \<lparr>a_cnt = 0, a_lo = 0, a_mid = 0, a_hi = 0, a_drv = 0, a_irq = False, a_out = [], a_want = 0, a_at = 0,
     a_sec = (\<lambda>_ _. replicate 512 0), a_ident = (\<lambda>_. replicate 512 0)\<rparr>"

lemma demo_ata: "ata demo_ata (\<lambda>d. d)"
  by (simp add: ata_def demo_ata_def)

definition demo_dk :: "ata_dev dkstate" where
  "demo_dk = (kbdstate.extend (hwstate.extend (demo_hw demo_dev) (kbdstate.fields False False False False False))
     (dkstate.fields 1 0 (\<lambda>_. False)))\<lparr>intr_flag := intr_on, sema_value := (\<lambda>p. if p = DiskDone 0 then 0 else 1)\<rparr>"

lemma demo_dk_simps [simp]:
  "hw demo_dk = demo_dev" "hd_cnt demo_dk = 1" "links demo_dk = links demo_io" "intr_flag demo_dk = intr_on"
  "ist2 demo_dk = ist2 demo_io" "sema_value demo_dk = (\<lambda>p. if p = DiskDone 0 then 0 else 1)" "expecting_intr demo_dk = (\<lambda>_. False)"
  "kernel_mem_pool demo_dk = kernel_mem_pool demo_io" "tasks demo_dk = tasks demo_io" "idle_task demo_dk = idle_task demo_io"
  "arenas demo_dk = arenas demo_io" "block_sizes demo_dk = block_sizes demo_io"
  by (simp_all add: demo_dk_def kbdstate.extend_def hwstate.extend_def demo_hw_def iostate.extend_def hwstate.fields_def
      kbdstate.fields_def dkstate.fields_def)

lemma demo_dk_ready: "io_ready demo_dk"
proof -
  have "tq demo_dk (Waiters p) []" for p
    using demo_io_run_ok by (simp add: run_ok_def sched_ok_def tq_def)
  moreover have "cur_ok demo_dk" using demo_io_run_ok by (simp add: run_ok_def sched_ok_def cur_ok_def)
  ultimately show ?thesis by (simp add: io_ready_def dk_ok_def lock_free_def)
qed

lemma demo_dev_secs: "secs_ok demo_dev"
  by (simp add: secs_ok_def demo_dev_def)

text \<open>C22. Reading a disk: a request for sectors on the primary channel returns, fails no \<^verbatim>\<open>ASSERT\<close>, leaves the disk and
  everything but the state of the machine unchanged and stores the sectors asked for, in order. When the number
  of sectors is a multiple of 256 it stores 256 sectors more, past the end of the buffer.\<close>

theorem ide_read_sectors:
  assumes "ata M dev" "dsk < 2" "dsk < hd_cnt s" "io_ready s" "secs_ok (dev (hw s))" "0 < sec_cnt" "lba + sec_cnt < 2 ^ 28"
  shows "\<exists>data h. ide_read M dsk lba sec_cnt s = Ret data (s\<lparr>hw := h\<rparr>) \<and> a_sec (dev h) = a_sec (dev (hw s)) \<and>
    take (512 * sec_cnt) data = concat (map (a_sec (dev (hw s)) (dsk = 1)) [lba..<lba + sec_cnt]) \<and>
    length data = 512 * (if 256 dvd sec_cnt then sec_cnt + 256 else sec_cnt)"
proof -
  let ?sec = "a_sec (dev (hw s)) (dsk = 1)"
  obtain h where h: "ide_read M dsk lba sec_cnt s = Ret (read_secs ?sec lba (secs_moved sec_cnt)) (s\<lparr>hw := h\<rparr>)"
      "a_sec (dev h) = a_sec (dev (hw s))"
    using ide_read_ok[OF assms] by blast
  have len: "length (read_secs ?sec lba n) = 512 * n" for n
    using assms(5) by (intro read_secs_length) (simp add: secs_ok_def)
  have "secs_moved sec_cnt = sec_cnt + (secs_moved sec_cnt - sec_cnt)" by (simp add: secs_moved_def)
  then have "read_secs ?sec lba (secs_moved sec_cnt) =
      read_secs ?sec lba sec_cnt @ read_secs ?sec (lba + sec_cnt) (secs_moved sec_cnt - sec_cnt)"
    by (metis read_secs_add)
  then have "take (512 * sec_cnt) (read_secs ?sec lba (secs_moved sec_cnt)) = concat (map ?sec [lba..<lba + sec_cnt])"
    using len[of sec_cnt] by (simp add: read_secs_def)
  then show ?thesis using h len[of "secs_moved sec_cnt"] by (auto simp: secs_moved_def)
qed

theorem ide_read_sectors_witness:
  "\<exists>data h. ide_read demo_ata 0 7 2 demo_dk = Ret data (demo_dk\<lparr>hw := h\<rparr>) \<and> length data = 1024"
  using ide_read_sectors[OF demo_ata, of 0 demo_dk 2 7] demo_dk_ready demo_dev_secs by auto



end
