(* ===== verification/Bio.thy ===== *)
theory Bio
  imports Arena Ide
begin

text \<open>
  Block input and output of \<^verbatim>\<open>fs/bio.c\<close>: a block of 4096 bytes is read into a page taken from the kernel pool, a part
  of it is copied out or changed, and the page is given back.

  The bytes that \<^verbatim>\<open>block_read\<close> stores in the caller's buffer are its result here; their number is what the C function
  returns. \<^verbatim>\<open>block_modify\<close> takes the caller's buffer as a list. Both fail where \<^verbatim>\<open>memcpy\<close> would leave a buffer.

  \<open>block_device\<close> is the contract the file system uses them under, stated over the blocks of the disk, and
  interpreted on the two functions; what the file system does with several blocks is proved once inside it.
\<close>

section \<open>The code\<close>

definition SEC_SIZE :: u64 where "SEC_SIZE = 512"
definition BLOCK_SIZE :: u64 where "BLOCK_SIZE = 4096"
definition SECTS_PER_BLOCK :: u64 where "SECTS_PER_BLOCK = BLOCK_SIZE div SEC_SIZE"

text \<open>\<^verbatim>\<open>memcpy(_, buf + off, n)\<close> and \<^verbatim>\<open>memcpy(buf + off, src, n)\<close> for buffers that are objects of their own.\<close>

definition copy_out :: "u8 list \<Rightarrow> nat \<Rightarrow> nat \<Rightarrow> u8 list res" where
  "copy_out buf off n = (if off + n \<le> length buf then Inr (take n (drop off buf)) else Inl OutOfBounds)"

definition copy_in :: "u8 list \<Rightarrow> nat \<Rightarrow> u8 list \<Rightarrow> nat \<Rightarrow> u8 list res" where
  "copy_in buf off src n =
     (if off + n \<le> length buf \<and> n \<le> length src then Inr (take off buf @ take n src @ drop (off + n) buf)
      else Inl OutOfBounds)"

definition block_read :: "'h machine \<Rightarrow> nat \<Rightarrow> u64 \<Rightarrow> u64 \<Rightarrow> u64 \<Rightarrow> (('h, 'z) dkstate_scheme, u8 list) kcall" where
  "block_read M dsk bid count off =
     (if off > BLOCK_SIZE then ret []
      else let count = (if off + count > BLOCK_SIZE then BLOCK_SIZE - off else count) in
           bnd (alloc_pages 1) (\<lambda>iobuf.
           bnd (ide_read M dsk (unat (bid * SECTS_PER_BLOCK)) (unat SECTS_PER_BLOCK)) (\<lambda>page.
           bnd (of_res (copy_out page (unat off) (unat count))) (\<lambda>data.
           bnd (free_pages iobuf 1) (\<lambda>_.
           ret data)))))"

definition block_modify ::
  "'h machine \<Rightarrow> nat \<Rightarrow> u64 \<Rightarrow> u8 list \<Rightarrow> u64 \<Rightarrow> u64 \<Rightarrow> (('h, 'z) dkstate_scheme, u64) kcall" where
  "block_modify M dsk bid buf count off =
     (if off > BLOCK_SIZE then ret 0
      else let count = (if off + count > BLOCK_SIZE then BLOCK_SIZE - off else count) in
           bnd (alloc_pages 1) (\<lambda>iobuf.
           bnd (ide_read M dsk (unat (bid * SECTS_PER_BLOCK)) (unat SECTS_PER_BLOCK)) (\<lambda>page.
           bnd (of_res (copy_in page (unat off) buf (unat count))) (\<lambda>page.
           bnd (ide_write M dsk (unat (bid * SECTS_PER_BLOCK)) page (unat SECTS_PER_BLOCK)) (\<lambda>_.
           bnd (free_pages iobuf 1) (\<lambda>_.
           ret count))))))"

section \<open>Pages that are taken and given back\<close>

lemma bitmap_ext:
  assumes "bitmap_wf b" "bytes_len b' = bytes_len b" "length (bits b') = length (bits b)" "used b' = used b"
  shows "b' = b"
proof -
  have "bits b' ! k = bits b ! k" if "k < length (bits b)" for k
  proof (rule bit_eqI)
    fix n assume "possible_bit TYPE(u8) n"
    then have n: "n < 8" by simp
    have "8 * k + n < nbits b" "8 * k + n < nbits b'" using that n assms(3) by simp_all
    moreover have "8 * k + n \<in> used b' \<longleftrightarrow> 8 * k + n \<in> used b" using assms(4) by simp
    ultimately show "bit (bits b' ! k) n = bit (bits b ! k) n" using n by (simp add: in_used bit_at_def)
  qed
  then have "bits b' = bits b" using assms(3) by (intro nth_equalityI) auto
  then show ?thesis using assms(2) by simp
qed

text \<open>\<open>room n s\<close>: the kernel pool has \<open>n\<close> neighbouring free pages.\<close>

definition room :: "nat \<Rightarrow> 'z kstate_scheme \<Rightarrow> bool" where
  "room n s \<longleftrightarrow> (\<exists>i. free_run (btmp_of KernelPool s) n i)"

lemma free_run_part: "free_run b (n + m) i \<Longrightarrow> free_run b n i" "free_run b (n + m) i \<Longrightarrow> free_run b m (i + n)"
  unfolding free_run_def by (fastforce simp: disjoint_iff)+

lemma room_mono: "room n s \<Longrightarrow> m \<le> n \<Longrightarrow> room m s"
  using free_run_part(1)[of _ m "n - m"] by (auto simp: room_def)

lemma alloc_free_pages:
  fixes s :: "'z kstate_scheme"
  assumes "pool_ok KernelPool s" "0 < n" "room (n + m) s"
  shows "\<exists>a b. alloc_pages n s = Ret a (set_btmp KernelPool b s) \<and> pool_ok KernelPool (set_btmp KernelPool b s) \<and>
    room m (set_btmp KernelPool b s) \<and>
    (\<forall>t :: 'z kstate_scheme. sema_free KernelPoolLock t \<longrightarrow> kernel_mem_pool t = kernel_mem_pool (set_btmp KernelPool b s) \<longrightarrow>
      free_pages a n t = Ret () (set_btmp KernelPool (btmp_of KernelPool s) t))"
proof -
  let ?b = "btmp_of KernelPool s"
  obtain i0 where i0: "free_run ?b (n + m) i0" using assms(3) by (auto simp: room_def)
  note i0' = free_run_part(1)[OF i0]
  have wf: "bitmap_wf ?b" and free: "sema_free KernelPoolLock s" and sz: "nbits ?b \<le> 2 ^ 52"
    using assms(1) by (auto simp: pool_ok_def)
  obtain i b where i: "bitmap_alloc ?b n = Inr (int i, b)" "free_run ?b n i" "\<forall>i' < i. \<not> free_run ?b n i'"
      "used b = used ?b \<union> {i..<i + n}" "bytes_len b = bytes_len ?b" "length (bits b) = length (bits ?b)"
    using bitmap_alloc_result[OF wf assms(2)] i0' by (auto simp: alloc_result_def split: if_splits)
  let ?a = "page_addr (mp_start (kernel_mem_pool s)) i"
  have "i \<le> i0" using i(3) i0' by (meson not_less)
  then have "room m (set_btmp KernelPool b s)"
    using free_run_part(2)[OF i0] i(4,6) unfolding room_def by (intro exI[of _ "i0 + n"]) (auto simp: free_run_def)
  moreover have "alloc_pages n s = Ret ?a (set_btmp KernelPool b s)"
    using pool_alloc_eq[of KernelPool s n] i(1) free by (simp add: alloc_pages_def page_addr_def)
  moreover have "free_pages ?a n t = Ret () (set_btmp KernelPool ?b t)"
    if t: "sema_free KernelPoolLock t" "kernel_mem_pool t = kernel_mem_pool (set_btmp KernelPool b s)" for t :: "'z kstate_scheme"
  proof -
    have m: "kernel_mem_pool t = (kernel_mem_pool s)\<lparr>pool_bitmap := b\<rparr>" using t(2) by (simp add: set_btmp_def)
    have "i < 2 ^ 52" using i(2) sz assms(2) by (auto simp: free_run_def)
    then have idx: "unat ((?a - mp_start (pool_of KernelPool t)) div PG_SIZE) = i" using page_idx m by simp
    have "{i..<i + n} \<subseteq> used (btmp_of KernelPool t)" using m i(4) by auto
    then obtain c where c: "free_pages ?a n t = Ret () (set_btmp KernelPool c t)" "used c = used b - {i..<i + n}"
        "bytes_len c = bytes_len b" "length (bits c) = length (bits b)"
      using pool_free_ok[of KernelPool t ?a i n] idx t(1) m by (auto simp: free_pages_def)
    have "used c = used ?b" using c(2) i(2,4) by (auto simp: free_run_def)
    then have "c = ?b" using bitmap_ext[OF wf] c(3,4) i(5,6) by metis
    then show ?thesis using c(1) by simp
  qed
  moreover have "pool_ok KernelPool (set_btmp KernelPool b s)"
    using assms(1) i(5,6) by (simp add: pool_ok_def bitmap_wf_def)
  ultimately show ?thesis by (intro exI[of _ ?a] exI[of _ b]) blast
qed

section \<open>A block device\<close>

text \<open>\<open>splice_at off src xs\<close>: \<open>xs\<close> with the bytes \<open>src\<close> stored from offset \<open>off\<close> on.\<close>

definition splice_at :: "nat \<Rightarrow> 'a list \<Rightarrow> 'a list \<Rightarrow> 'a list" where
  "splice_at off src xs = take off xs @ src @ drop (off + length src) xs"

lemma length_splice [simp]: "off + length src \<le> length xs \<Longrightarrow> length (splice_at off src xs) = length xs"
  by (simp add: splice_at_def)

lemma take_drop_splice [simp]: "off + length src \<le> length xs \<Longrightarrow> take (length src) (drop off (splice_at off src xs)) = src"
  by (simp add: splice_at_def)

lemma nth_splice:
  "off + length src \<le> length xs \<Longrightarrow> i < length xs \<Longrightarrow>
   splice_at off src xs ! i = (if off \<le> i \<and> i < off + length src then src ! (i - off) else xs ! i)"
  by (auto simp: splice_at_def nth_append min_def)

text \<open>The contract: \<open>content d b\<close> is block \<open>b\<close> of the disk state \<open>d\<close>. An access changes the disk's state only; a read
  does not change any block, a write stores its bytes in one.\<close>

locale block_device =
  fixes rd :: "u64 \<Rightarrow> u64 \<Rightarrow> u64 \<Rightarrow> ('s, u8 list) kcall"
    and wr :: "u64 \<Rightarrow> u8 list \<Rightarrow> u64 \<Rightarrow> u64 \<Rightarrow> ('s, u64) kcall"
    and disk :: "'s \<Rightarrow> 'd" and upd :: "'d \<Rightarrow> 's \<Rightarrow> 's"
    and content :: "'d \<Rightarrow> nat \<Rightarrow> u8 list" and ok :: "'s \<Rightarrow> bool" and limit :: nat
  assumes rd_law: "ok s \<Longrightarrow> unat b < limit \<Longrightarrow> unat off + unat n \<le> 4096 \<Longrightarrow>
      \<exists>d. rd b n off s = Ret (take (unat n) (drop (unat off) (content (disk s) (unat b)))) (upd d s) \<and>
        content d = content (disk s) \<and> ok (upd d s)"
    and wr_law: "ok s \<Longrightarrow> unat b < limit \<Longrightarrow> unat off + unat n \<le> 4096 \<Longrightarrow> unat n \<le> length src \<Longrightarrow>
      \<exists>d. wr b src n off s = Ret n (upd d s) \<and>
        content d = (content (disk s))(unat b := splice_at (unat off) (take (unat n) src) (content (disk s) (unat b))) \<and>
        ok (upd d s)"
    and upd_law: "upd d (upd d' s) = upd d s" "upd (disk s) s = s" "disk (upd d s) = d"
    and block_length: "ok s \<Longrightarrow> length (content (disk s) k) = 4096"
begin

lemma write_read:
  assumes "ok s" "unat b < limit" "unat off + unat n \<le> 4096" "unat n = length src"
  shows "\<exists>d d'. wr b src n off s = Ret n (upd d s) \<and> rd b n off (upd d s) = Ret src (upd d' s) \<and>
    content d' = content d \<and>
    content d = (content (disk s))(unat b := splice_at (unat off) src (content (disk s) (unat b)))"
proof -
  obtain d where d: "wr b src n off s = Ret n (upd d s)" "ok (upd d s)"
      "content d = (content (disk s))(unat b := splice_at (unat off) src (content (disk s) (unat b)))"
    using wr_law[OF assms(1-3), of src] assms(4) by auto
  moreover obtain d' where "rd b n off (upd d s) = Ret src (upd d' s)" "content d' = content d"
    using rd_law[OF d(2) assms(2,3)] assms(3,4) block_length[OF assms(1)] d(3) by (auto simp: upd_law)
  ultimately show ?thesis by blast
qed

end

section \<open>The disk as a block device\<close>

text \<open>Block \<open>b\<close> of the first drive is its sectors from \<^verbatim>\<open>8 * b\<close> on.\<close>

definition blocks :: "('h \<Rightarrow> ata_dev) \<Rightarrow> 'h \<Rightarrow> nat \<Rightarrow> u8 list" where
  "blocks dev h b = read_secs (a_sec (dev h) False) (8 * b) 8"

text \<open>A call that reads or writes a block returns without waiting.\<close>

definition bio_ok :: "'h machine \<Rightarrow> ('h \<Rightarrow> ata_dev) \<Rightarrow> ('h, 'z) dkstate_scheme \<Rightarrow> bool" where
  "bio_ok M dev s \<longleftrightarrow> ata M dev \<and> 0 < hd_cnt s \<and> io_ready s \<and> secs_ok (dev (hw s)) \<and> pool_ok KernelPool s \<and> room 1 s"

definition bio_limit :: nat where "bio_limit = 2 ^ 25 - 1"

lemma set_btmp_hw [simp]:
  "(set_btmp mp b s)\<lparr>hw := h\<rparr> = set_btmp mp b (s\<lparr>hw := h\<rparr>)" "hw (set_btmp mp b s) = hw s"
  "pool_of mp (s\<lparr>hw := h\<rparr>) = pool_of mp s"
  by (cases mp; simp add: set_btmp_def)+

lemma set_btmp_hd_cnt [simp]: "hd_cnt (set_btmp mp b s) = hd_cnt s"
  by (cases mp; simp add: set_btmp_def)

lemma sema_hw [simp]: "sema_free p (s\<lparr>hw := h\<rparr>) = sema_free p s" "sema_held p (s\<lparr>hw := h\<rparr>) = sema_held p s"
  by (simp_all add: sema_free_def sema_held_def lock_free_def cur_ok_def tq_def)

lemma io_ready_btmp [simp]: "io_ready (set_btmp mp b s) = io_ready s"
  by (cases mp) (simp_all add: io_ready_def dk_ok_def lock_free_def cur_ok_def tq_def set_btmp_def)

lemma pool_hw [simp]: "pool_ok mp (s\<lparr>hw := h\<rparr>) = pool_ok mp s" "room n (s\<lparr>hw := h\<rparr>) = room n s"
  by (simp_all add: pool_ok_def room_def)

lemma sectors_of_block:
  assumes "unat bid < bio_limit"
  shows "unat (bid * SECTS_PER_BLOCK) = 8 * unat bid" "unat SECTS_PER_BLOCK = 8" "secs_moved 8 = 8"
    "8 * unat bid + 8 < 2 ^ 28"
proof -
  have "unat (bid * 8) = unat bid * 8" using assms by (subst unat_mult_lem[THEN iffD1]) (simp_all add: bio_limit_def)
  then show "unat (bid * SECTS_PER_BLOCK) = 8 * unat bid" "unat SECTS_PER_BLOCK = 8" "secs_moved 8 = 8"
    "8 * unat bid + 8 < 2 ^ 28"
    using assms by (simp_all add: SECTS_PER_BLOCK_def BLOCK_SIZE_def SEC_SIZE_def secs_moved_def bio_limit_def)
qed

lemma block_count:
  assumes "unat off + unat n \<le> 4096"
  shows "\<not> off > BLOCK_SIZE" "(if off + n > BLOCK_SIZE then BLOCK_SIZE - off else n) = n"
proof -
  have "unat (off + n) = unat off + unat n" using assms by (subst unat_add_lem[THEN iffD1]) simp_all
  then show "\<not> off > BLOCK_SIZE" "(if off + n > BLOCK_SIZE then BLOCK_SIZE - off else n) = n"
    using assms by (simp_all add: BLOCK_SIZE_def word_less_nat_alt)
qed

lemma blocks_length: "secs_ok (dev h) \<Longrightarrow> length (blocks dev h b) = 4096"
  by (simp add: blocks_def secs_ok_def read_secs_length)

lemma blocks_write:
  assumes "length page = 4096" "a_sec (dev h') = (a_sec (dev h))(False := write_secs (8 * b) page (a_sec (dev h) False))"
  shows "blocks dev h' = (blocks dev h)(b := page)"
proof
  fix c
  show "blocks dev h' c = ((blocks dev h)(b := page)) c"
  proof (cases "c = b")
    case True
    then show ?thesis using assms read_write_secs[of page 8] by (simp add: blocks_def)
  next
    case False
    then have e: "map (write_secs (8 * b) page (a_sec (dev h) False)) [8 * c..<8 * c + 8] = map (a_sec (dev h) False) [8 * c..<8 * c + 8]"
      using assms(1) by (intro map_cong) (auto simp: write_secs_def)
    show ?thesis using False assms(2) by (simp add: blocks_def read_secs_def e)
  qed
qed

lemma page_bracket:
  fixes s :: "('h, 'z) hwstate_scheme"
  assumes "pool_ok KernelPool s" "0 < n" "room (n + m) s"
  shows "\<exists>a b. alloc_pages n s = Ret a (set_btmp KernelPool b s) \<and> pool_ok KernelPool (set_btmp KernelPool b s) \<and>
    room m (set_btmp KernelPool b s) \<and> (\<forall>h. free_pages a n (set_btmp KernelPool b (s\<lparr>hw := h\<rparr>)) = Ret () (s\<lparr>hw := h\<rparr>))"
proof -
  obtain a b where b: "alloc_pages n s = Ret a (set_btmp KernelPool b s)" "pool_ok KernelPool (set_btmp KernelPool b s)"
      "room m (set_btmp KernelPool b s)"
      "\<forall>t :: ('h, 'z) hwstate_scheme. sema_free KernelPoolLock t \<longrightarrow> kernel_mem_pool t = kernel_mem_pool (set_btmp KernelPool b s) \<longrightarrow>
        free_pages a n t = Ret () (set_btmp KernelPool (btmp_of KernelPool s) t)"
    using alloc_free_pages[OF assms] by blast
  have "free_pages a n (set_btmp KernelPool b (s\<lparr>hw := h\<rparr>)) = Ret () (s\<lparr>hw := h\<rparr>)" for h
  proof -
    let ?t = "set_btmp KernelPool b (s\<lparr>hw := h\<rparr>)"
    have "sema_free KernelPoolLock ?t" using assms(1) by (simp add: pool_ok_def)
    moreover have "kernel_mem_pool ?t = kernel_mem_pool (set_btmp KernelPool b s)" by (simp add: set_btmp_def)
    moreover have "set_btmp KernelPool (btmp_of KernelPool s) ?t = s\<lparr>hw := h\<rparr>" by (simp add: set_btmp_def)
    ultimately show ?thesis using b(4) by metis
  qed
  then show ?thesis using b(1-3) by blast
qed

text \<open>The two accesses between taking and giving back the page.\<close>

lemma read_block:
  assumes "bio_ok M dev s" "unat bid < bio_limit"
  shows "\<exists>h. ide_read M 0 (unat (bid * SECTS_PER_BLOCK)) (unat SECTS_PER_BLOCK) (set_btmp KernelPool b s) =
    Ret (blocks dev (hw s) (unat bid)) (set_btmp KernelPool b (s\<lparr>hw := h\<rparr>)) \<and> a_sec (dev h) = a_sec (dev (hw s))"
  using ide_read_ok[of M dev 0 "set_btmp KernelPool b s" 8 "8 * unat bid"] assms(1) sectors_of_block[OF assms(2)]
  by (auto simp: bio_ok_def blocks_def)

lemma write_block:
  assumes "bio_ok M dev s" "unat bid < bio_limit" "length page = 4096" "a_sec (dev h) = a_sec (dev (hw s))"
  shows "\<exists>h'. ide_write M 0 (unat (bid * SECTS_PER_BLOCK)) page (unat SECTS_PER_BLOCK) (set_btmp KernelPool b (s\<lparr>hw := h\<rparr>)) =
    Ret () (set_btmp KernelPool b (s\<lparr>hw := h'\<rparr>)) \<and> blocks dev h' = (blocks dev (hw s))(unat bid := page) \<and> secs_ok (dev h')"
proof -
  let ?s = "set_btmp KernelPool b (s\<lparr>hw := h\<rparr>)"
  obtain h' where h': "ide_write M 0 (unat (bid * SECTS_PER_BLOCK)) page (unat SECTS_PER_BLOCK) ?s = Ret () (?s\<lparr>hw := h'\<rparr>)"
      "a_sec (dev h') = (a_sec (dev (hw s)))(False := write_secs (8 * unat bid) page (a_sec (dev (hw s)) False))"
    using ide_write_ok[of M dev 0 ?s 8 "8 * unat bid" page] assms sectors_of_block[OF assms(2)]
    by (auto simp: bio_ok_def)
  have "secs_ok (dev h')" using assms(1,3) h'(2) by (auto simp: secs_ok_def bio_ok_def write_secs_def)
  then show ?thesis using h' blocks_write[of page dev h' "hw s", OF assms(3) h'(2)] by auto
qed

lemma bio_ok_hw: "bio_ok M dev (s\<lparr>hw := h\<rparr>) \<longleftrightarrow>
    ata M dev \<and> 0 < hd_cnt s \<and> io_ready s \<and> secs_ok (dev h) \<and> pool_ok KernelPool s \<and> room 1 s"
  by (simp add: bio_ok_def)

lemma block_read_ok:
  fixes s :: "('h, 'z) dkstate_scheme"
  assumes "bio_ok M dev s" "unat bid < bio_limit" "unat off + unat n \<le> 4096"
  shows "\<exists>h. block_read M 0 bid n off s =
      Ret (take (unat n) (drop (unat off) (blocks dev (hw s) (unat bid)))) (s\<lparr>hw := h\<rparr>) \<and>
    blocks dev h = blocks dev (hw s) \<and> bio_ok M dev (s\<lparr>hw := h\<rparr>)"
proof -
  have s: "pool_ok KernelPool s" "room (1 + 0) s" "sema_free KernelPoolLock s" "secs_ok (dev (hw s))"
    using assms(1) by (simp_all add: bio_ok_def pool_ok_def)
  obtain a b where b: "alloc_pages 1 s = Ret a (set_btmp KernelPool b s)"
      "\<forall>h. free_pages a 1 (set_btmp KernelPool b (s\<lparr>hw := h\<rparr>)) = Ret () (s\<lparr>hw := h\<rparr>)"
    using page_bracket[OF s(1) _ s(2)] by auto
  obtain h where h: "ide_read M 0 (unat (bid * SECTS_PER_BLOCK)) (unat SECTS_PER_BLOCK) (set_btmp KernelPool b s) =
      Ret (blocks dev (hw s) (unat bid)) (set_btmp KernelPool b (s\<lparr>hw := h\<rparr>))" "a_sec (dev h) = a_sec (dev (hw s))"
    using read_block[OF assms(1,2)] by blast
  have "secs_ok (dev h)" "blocks dev h = blocks dev (hw s)" using h(2) s(4) by (auto simp: secs_ok_def blocks_def)
  moreover have "block_read M 0 bid n off s =
      Ret (take (unat n) (drop (unat off) (blocks dev (hw s) (unat bid)))) (s\<lparr>hw := h\<rparr>)"
    using b h(1) assms(3) blocks_length[of dev "hw s" "unat bid", OF s(4)]
    by (simp only: block_read_def block_count[OF assms(3)] if_False Let_def) (simp add: copy_out_def ret_def)
  ultimately show ?thesis using assms(1) by (auto simp: bio_ok_hw bio_ok_def)
qed

lemma block_modify_ok:
  fixes s :: "('h, 'z) dkstate_scheme"
  assumes "bio_ok M dev s" "unat bid < bio_limit" "unat off + unat n \<le> 4096" "unat n \<le> length src"
  shows "\<exists>h. block_modify M 0 bid src n off s = Ret n (s\<lparr>hw := h\<rparr>) \<and>
    blocks dev h = (blocks dev (hw s))(unat bid := splice_at (unat off) (take (unat n) src) (blocks dev (hw s) (unat bid))) \<and>
    bio_ok M dev (s\<lparr>hw := h\<rparr>)"
proof -
  have s: "pool_ok KernelPool s" "room (1 + 0) s" "secs_ok (dev (hw s))"
    using assms(1) by (simp_all add: bio_ok_def)
  obtain a b where b: "alloc_pages 1 s = Ret a (set_btmp KernelPool b s)"
      "\<forall>h. free_pages a 1 (set_btmp KernelPool b (s\<lparr>hw := h\<rparr>)) = Ret () (s\<lparr>hw := h\<rparr>)"
    using page_bracket[OF s(1) _ s(2)] by auto
  obtain h where h: "ide_read M 0 (unat (bid * SECTS_PER_BLOCK)) (unat SECTS_PER_BLOCK) (set_btmp KernelPool b s) =
      Ret (blocks dev (hw s) (unat bid)) (set_btmp KernelPool b (s\<lparr>hw := h\<rparr>))" "a_sec (dev h) = a_sec (dev (hw s))"
    using read_block[OF assms(1,2)] by blast
  let ?page = "splice_at (unat off) (take (unat n) src) (blocks dev (hw s) (unat bid))"
  have len: "length (blocks dev (hw s) (unat bid)) = 4096" using blocks_length[of dev "hw s", OF s(3)] .
  then have page: "length ?page = 4096" "copy_in (blocks dev (hw s) (unat bid)) (unat off) src (unat n) = Inr ?page"
    using assms(3,4) by (simp_all add: copy_in_def splice_at_def)
  obtain h' where h': "ide_write M 0 (unat (bid * SECTS_PER_BLOCK)) ?page (unat SECTS_PER_BLOCK) (set_btmp KernelPool b (s\<lparr>hw := h\<rparr>)) =
      Ret () (set_btmp KernelPool b (s\<lparr>hw := h'\<rparr>))" "blocks dev h' = (blocks dev (hw s))(unat bid := ?page)" "secs_ok (dev h')"
    using write_block[OF assms(1,2) page(1) h(2)] by blast
  have "block_modify M 0 bid src n off s = Ret n (s\<lparr>hw := h'\<rparr>)"
    using b h(1) h'(1) page(2)
    by (simp only: block_modify_def block_count[OF assms(3)] if_False Let_def) (simp add: ret_def)
  then show ?thesis using h'(2,3) assms(1) by (auto simp: bio_ok_hw bio_ok_def)
qed

interpretation bd: block_device "block_read M 0" "block_modify M 0" hw "\<lambda>h s. s\<lparr>hw := h\<rparr>" "blocks dev" "bio_ok M dev" bio_limit
  for M :: "'h machine" and dev
proof (unfold_locales, goal_cases)
  case (1 s b off n)
  then show ?case using block_read_ok by blast
next
  case (2 s b off n src)
  then show ?case using block_modify_ok by blast
qed (simp_all add: bio_ok_def blocks_length)

section \<open>Properties\<close>

lemma demo_dk_pool:
  "kernel_mem_pool demo_dk = kernel_mem_pool demo_state" "pool_ok KernelPool demo_dk" "room 6 demo_dk"
proof -
  show m: "kernel_mem_pool demo_dk = kernel_mem_pool demo_state"
    by (simp add: demo_io_def kstate.extend_def iostate.fields_def demo_state_def)
  have "sema_free KernelPoolLock demo_dk"
    using demo_state_free[of KernelPoolLock] by (simp add: sema_free_def lock_free_def tq_def cur_ok_def)
  then show "pool_ok KernelPool demo_dk" using demo_pool_ok m by (simp add: pool_ok_def)
  have "free_run (btmp_of KernelPool demo_state) 6 2" unfolding free_run_def demo_pool_used demo_pool_len by auto
  then show "room 6 demo_dk" using m by (auto simp: room_def)
qed

lemma demo_dk_bio: "bio_ok demo_ata (\<lambda>d. d) demo_dk"
  using demo_ata demo_dk_ready demo_dev_secs demo_dk_pool(2) room_mono[OF demo_dk_pool(3), of 1]
  by (simp add: bio_ok_def)

text \<open>A block device. \<^verbatim>\<open>block_modify\<close> of bytes inside one block returns their number and changes exactly these bytes of
  the disk; \<^verbatim>\<open>block_read\<close> of the same place gives them back. Apart from the disk the state is as before: the page
  used for the transfer is returned.\<close>

theorem block_modify_read:
  assumes "bio_ok M dev s" "unat bid < bio_limit" "unat off + unat n \<le> 4096" "unat n = length src"
  shows "\<exists>h h'. block_modify M 0 bid src n off s = Ret n (s\<lparr>hw := h\<rparr>) \<and>
    block_read M 0 bid n off (s\<lparr>hw := h\<rparr>) = Ret src (s\<lparr>hw := h'\<rparr>) \<and> blocks dev h' = blocks dev h \<and>
    blocks dev h = (blocks dev (hw s))(unat bid := splice_at (unat off) src (blocks dev (hw s) (unat bid)))"
  using bd.write_read[OF assms] .

theorem block_modify_read_witness:
  "\<exists>h h'. block_modify demo_ata 0 5 [1, 2, 3] 3 4000 demo_dk = Ret 3 (demo_dk\<lparr>hw := h\<rparr>) \<and>
    block_read demo_ata 0 5 3 4000 (demo_dk\<lparr>hw := h\<rparr>) = Ret [1, 2, 3] (demo_dk\<lparr>hw := h'\<rparr>)"
  using block_modify_read[OF demo_dk_bio, of 5 4000 3 "[1, 2, 3]"] by (fastforce simp: bio_limit_def)

end
