(* ===== verification/Inode.thy ===== *)
theory Inode
  imports Bio
begin

text \<open>
  Inodes and the free-block bytemaps of \<^verbatim>\<open>fs/inode.c\<close>: open inodes, growing, shrinking, reading and writing a file.

  An inode in memory is an entry of the table \<open>inodes\<close> at the address \<^verbatim>\<open>kalloc\<close> gave; its list element and its lock are
  named by that address. On the disk it is the 104 bytes of \<^verbatim>\<open>struct disk_inode\<close>. The buffers of \<^verbatim>\<open>inode_read\<close> and
  \<^verbatim>\<open>inode_write\<close> are lists of bytes; \<^verbatim>\<open>inode_read\<close> returns the bytes it stores, whose number is the C result.
\<close>

unbundle bit_operations_syntax

section \<open>Little endian integers\<close>

definition enc64 :: "u64 \<Rightarrow> u8 list" where
  "enc64 w = map (\<lambda>i. ucast (drop_bit (8 * i) w)) [0..<8]"

definition dec64 :: "u8 list \<Rightarrow> u64" where
  "dec64 bs = foldr (\<lambda>b w. ucast b OR push_bit 8 w) (take 8 bs) 0"

section \<open>Data (fs/inode.h, fs/fs.h)\<close>

definition INODE_CNT_MAX :: u64 where "INODE_CNT_MAX = 128"
definition DISK_INODE_SIZE :: u64 where "DISK_INODE_SIZE = 128"
definition NDIRECT :: nat where "NDIRECT = 12"
definition NO_BIT_IN_FS_BTMP :: int where "NO_BIT_IN_FS_BTMP = 1"
definition FILE_SIZE_TOO_BIG :: int where "FILE_SIZE_TOO_BIG = 2"

record disk_inode =
  file_size :: u64
  direct :: "u64 list"

record inode =
  i_no :: u64
  dinode :: disk_inode
  open_cnts :: u64

record super_block =
  magic :: u64
  block_bitmap_start :: u64
  block_bitmap_size :: u64
  inode_bitmap_start :: u64
  inode_table_start :: u64
  inode_cnt_max :: u64
  data_start :: u64

text \<open>\<open>sb\<close> is the structure at the start of the page that the pointer \<^verbatim>\<open>sb\<close> points to, \<open>sb_rest\<close> the rest of that page.\<close>

record 'h instate = "'h dkstate" +
  inodes :: "u64 \<Rightarrow> inode"
  sb :: super_block
  sb_rest :: "u8 list"

definition sizeof_disk_inode :: u64 where "sizeof_disk_inode = 104"
definition sizeof_inode :: u64 where "sizeof_inode = 176"

definition enc_disk_inode :: "disk_inode \<Rightarrow> u8 list" where
  "enc_disk_inode d = enc64 (file_size d) @ concat (map enc64 (direct d))"

definition dec_disk_inode :: "u8 list \<Rightarrow> disk_inode" where
  "dec_disk_inode bs = \<lparr>file_size = dec64 bs, direct = map (\<lambda>i. dec64 (drop (8 * Suc i) bs)) [0..<NDIRECT]\<rparr>"

text \<open>An access to the inode at an address.\<close>

definition get_inode :: "u64 \<Rightarrow> (('h, 'z) instate_scheme, inode) kcall" where
  "get_inode a = (if a = 0 then fail NullDeref else kget (\<lambda>s. inodes s a))"

definition upd_inode :: "u64 \<Rightarrow> (inode \<Rightarrow> inode) \<Rightarrow> (('h, 'z) instate_scheme, unit) kcall" where
  "upd_inode a f = (if a = 0 then fail NullDeref else kput (\<lambda>s. s\<lparr>inodes := (inodes s)(a := f (inodes s a))\<rparr>))"

definition inode_lock_down :: "u64 \<Rightarrow> (('h, 'z) instate_scheme, unit) kcall" where
  "inode_lock_down a = (if a = 0 then fail NullDeref else sema_down (InodeLock a))"

definition inode_lock_up :: "u64 \<Rightarrow> (('h, 'z) instate_scheme, unit) kcall" where
  "inode_lock_up a = (if a = 0 then fail NullDeref else sema_up (InodeLock a))"

definition get_direct :: "u64 \<Rightarrow> u64 \<Rightarrow> (('h, 'z) instate_scheme, u64) kcall" where
  "get_direct a idx =
     bnd (get_inode a) (\<lambda>x.
     if unat idx < length (direct (dinode x)) then ret (direct (dinode x) ! unat idx) else fail OutOfBounds)"

definition set_direct :: "u64 \<Rightarrow> u64 \<Rightarrow> u64 \<Rightarrow> (('h, 'z) instate_scheme, unit) kcall" where
  "set_direct a idx b =
     bnd (get_inode a) (\<lambda>x.
     if unat idx < length (direct (dinode x))
     then upd_inode a (\<lambda>x. x\<lparr>dinode := (dinode x)\<lparr>direct := (direct (dinode x))[unat idx := b]\<rparr>\<rparr>)
     else fail OutOfBounds)"

section \<open>The code\<close>

definition block_id :: "u64 \<Rightarrow> ('h, 'z) instate_scheme \<Rightarrow> u64" where
  "block_id n s = n * DISK_INODE_SIZE div BLOCK_SIZE + inode_table_start (sb s)"

definition block_off :: "u64 \<Rightarrow> u64" where
  "block_off n = n * DISK_INODE_SIZE mod BLOCK_SIZE"

definition find_inode :: "('h, 'z) instate_scheme \<Rightarrow> u64 \<Rightarrow> elem \<Rightarrow> bool" where
  "find_inode s n e = (case e of InodeTag a \<Rightarrow> i_no (inodes s a) = n | _ \<Rightarrow> False)"

definition entry_inode :: "elem option \<Rightarrow> u64 res" where
  "entry_inode p = (case p of Some (InodeTag a) \<Rightarrow> Inr a | _ \<Rightarrow> Inl OutOfBounds)"

text \<open>The branch of \<^verbatim>\<open>inode_open\<close> for an inode that is not open yet.\<close>

definition inode_load :: "'h machine \<Rightarrow> u64 \<Rightarrow> (('h, 'z) instate_scheme, u64) kcall" where
  "inode_load M n =
     bnd (kalloc sizeof_inode) (\<lambda>inode.
     bnd (kget (block_id n)) (\<lambda>bid.
     bnd (block_read M 0 bid sizeof_disk_inode (block_off n)) (\<lambda>data.
     bnd (upd_inode inode (\<lambda>x. x\<lparr>dinode := dec_disk_inode data\<rparr>)) (\<lambda>_.
     bnd (upd_inode inode (\<lambda>x. x\<lparr>i_no := n\<rparr>)) (\<lambda>_.
     bnd (upd_inode inode (\<lambda>x. x\<lparr>open_cnts := 0\<rparr>)) (\<lambda>_.
     bnd (sema_init (InodeLock inode) 1) (\<lambda>_.
     bnd (k_list_push OpenInodes (InodeTag inode)) (\<lambda>_.
     ret inode))))))))"

definition inode_open :: "'h machine \<Rightarrow> u64 \<Rightarrow> (('h, 'z) instate_scheme, u64) kcall" where
  "inode_open M n =
     (if n \<ge> INODE_CNT_MAX then ret 0
      else bnd (sema_down OpenInodesLock) (\<lambda>_.
           bnd (kget (\<lambda>s. find_inode s n)) (\<lambda>f.
           bnd (k_list_traversal OpenInodes f) (\<lambda>inode_tag.
           bnd (if inode_tag = None then inode_load M n else of_res (entry_inode inode_tag)) (\<lambda>inode.
           bnd (sema_up OpenInodesLock) (\<lambda>_.
           bnd (inode_lock_down inode) (\<lambda>_.
           bnd (upd_inode inode (\<lambda>x. x\<lparr>open_cnts := open_cnts x + 1\<rparr>)) (\<lambda>_.
           bnd (inode_lock_up inode) (\<lambda>_.
           ret inode)))))))))"

definition inode_close :: "u64 \<Rightarrow> (('h, 'z) instate_scheme, unit) kcall" where
  "inode_close inode =
     bnd (inode_lock_down inode) (\<lambda>_.
     bnd (upd_inode inode (\<lambda>x. x\<lparr>open_cnts := open_cnts x - 1\<rparr>)) (\<lambda>_.
     bnd (get_inode inode) (\<lambda>x.
     bnd (if open_cnts x = 0
          then bnd (sema_down OpenInodesLock) (\<lambda>_.
               bnd (k_list_remove (InodeTag inode)) (\<lambda>_.
               bnd (sema_up OpenInodesLock) (\<lambda>_.
               kfree inode)))
          else ret ()) (\<lambda>_.
     inode_lock_up inode))))"

text \<open>The loop of \<^verbatim>\<open>fs_bitmap_alloc\<close> with \<open>k\<close> bytes left to look at; it returns the index where it stops.\<close>

fun fs_bitmap_scan :: "'h machine \<Rightarrow> u64 \<Rightarrow> nat \<Rightarrow> nat \<Rightarrow> (('h, 'z) instate_scheme, nat) kcall" where
  "fs_bitmap_scan M start i 0 = ret i"
| "fs_bitmap_scan M start i (Suc k) =
     bnd (block_read M 0 (of_nat i div BLOCK_SIZE + start) 1 (of_nat i mod BLOCK_SIZE)) (\<lambda>buf.
     if buf = [0] then ret i else fs_bitmap_scan M start (Suc i) k)"

definition fs_bitmap_alloc :: "'h machine \<Rightarrow> u64 \<Rightarrow> u64 \<Rightarrow> (('h, 'z) instate_scheme, int) kcall" where
  "fs_bitmap_alloc M start sz =
     bnd (sema_down FsBitmapLock) (\<lambda>_.
     bnd (fs_bitmap_scan M start 0 (unat sz)) (\<lambda>i.
     if i = unat sz
     then bnd (sema_up FsBitmapLock) (\<lambda>_. ret (- NO_BIT_IN_FS_BTMP))
     else bnd (block_modify M 0 (of_nat i div BLOCK_SIZE + start) [1] 1 (of_nat i mod BLOCK_SIZE)) (\<lambda>_.
          bnd (sema_up FsBitmapLock) (\<lambda>_. ret (int i)))))"

definition fs_bitmap_free :: "'h machine \<Rightarrow> u64 \<Rightarrow> u64 \<Rightarrow> u64 \<Rightarrow> (('h, 'z) instate_scheme, unit) kcall" where
  "fs_bitmap_free M start sz idx =
     bnd (ASSERT (idx < sz)) (\<lambda>_.
     bnd (sema_down FsBitmapLock) (\<lambda>_.
     bnd (block_modify M 0 (idx div BLOCK_SIZE + start) [0] 1 (idx mod BLOCK_SIZE)) (\<lambda>_.
     sema_up FsBitmapLock)))"

text \<open>The two loops of \<^verbatim>\<open>inode_size_change\<close>, with \<open>k\<close> blocks to go; the first returns early with a negative result. Then the choice between them.\<close>

fun grow_blocks :: "'h machine \<Rightarrow> u64 \<Rightarrow> u64 \<Rightarrow> nat \<Rightarrow> (('h, 'z) instate_scheme, int) kcall" where
  "grow_blocks M inode idx 0 = ret 0"
| "grow_blocks M inode idx (Suc k) =
     bnd (kget sb) (\<lambda>b.
     bnd (fs_bitmap_alloc M (block_bitmap_start b) (block_bitmap_size b)) (\<lambda>bidx.
     if bidx < 0 then ret bidx
     else bnd (set_direct inode idx (of_int bidx + block_bitmap_start b - 1)) (\<lambda>_.
          grow_blocks M inode (idx + 1) k)))"

fun shrink_blocks :: "'h machine \<Rightarrow> u64 \<Rightarrow> u64 \<Rightarrow> nat \<Rightarrow> (('h, 'z) instate_scheme, unit) kcall" where
  "shrink_blocks M inode idx 0 = ret ()"
| "shrink_blocks M inode idx (Suc k) =
     bnd (kget sb) (\<lambda>b.
     bnd (get_direct inode idx) (\<lambda>blk.
     bnd (fs_bitmap_free M (block_bitmap_start b) (block_bitmap_size b) (blk - (block_bitmap_start b - 1))) (\<lambda>_.
     shrink_blocks M inode (idx + 1) k)))"

definition resize_blocks :: "'h machine \<Rightarrow> u64 \<Rightarrow> u64 \<Rightarrow> u64 \<Rightarrow> (('h, 'z) instate_scheme, int) kcall" where
  "resize_blocks M inode block_old_size block_new_size =
     (if block_new_size > block_old_size
      then grow_blocks M inode block_old_size (unat (block_new_size - block_old_size))
      else if block_new_size < block_old_size
      then bnd (shrink_blocks M inode block_new_size (unat (block_old_size - block_new_size))) (\<lambda>_. ret 0)
      else ret 0)"

definition inode_size_change :: "'h machine \<Rightarrow> u64 \<Rightarrow> u64 \<Rightarrow> (('h, 'z) instate_scheme, int) kcall" where
  "inode_size_change M inode sz =
     (if sz > of_nat NDIRECT * BLOCK_SIZE then ret (- FILE_SIZE_TOO_BIG)
      else bnd (get_inode inode) (\<lambda>x.
           let block_old_size = DIV_ROUND_UP (file_size (dinode x)) PG_SIZE;
               block_new_size = DIV_ROUND_UP sz PG_SIZE in
           bnd (resize_blocks M inode block_old_size block_new_size) (\<lambda>r.
           if r < 0 then ret r
           else bnd (upd_inode inode (\<lambda>x. x\<lparr>dinode := (dinode x)\<lparr>file_size := sz\<rparr>\<rparr>)) (\<lambda>_.
                bnd (get_inode inode) (\<lambda>x.
                bnd (kget (block_id (i_no x))) (\<lambda>bid.
                bnd (block_modify M 0 bid (enc_disk_inode (dinode x)) sizeof_disk_inode (block_off (i_no x))) (\<lambda>_.
                ret 0)))))))"

text \<open>The loops that fill \<^verbatim>\<open>io_buf\<close> block by block and write it back.\<close>

fun read_blocks :: "'h machine \<Rightarrow> u64 \<Rightarrow> u64 \<Rightarrow> nat \<Rightarrow> (('h, 'z) instate_scheme, u8 list) kcall" where
  "read_blocks M inode idx 0 = ret []"
| "read_blocks M inode idx (Suc k) =
     bnd (get_direct inode idx) (\<lambda>blk.
     bnd (block_read M 0 blk BLOCK_SIZE 0) (\<lambda>data.
     bnd (read_blocks M inode (idx + 1) k) (\<lambda>rest.
     ret (data @ rest))))"

fun write_blocks :: "'h machine \<Rightarrow> u64 \<Rightarrow> u64 \<Rightarrow> u8 list \<Rightarrow> nat \<Rightarrow> (('h, 'z) instate_scheme, unit) kcall" where
  "write_blocks M inode idx io_buf 0 = ret ()"
| "write_blocks M inode idx io_buf (Suc k) =
     bnd (get_direct inode idx) (\<lambda>blk.
     bnd (block_modify M 0 blk io_buf BLOCK_SIZE 0) (\<lambda>_.
     write_blocks M inode (idx + 1) (drop (unat PG_SIZE) io_buf) k))"

text \<open>\<^verbatim>\<open>inode_write\<close> after the check of the size.\<close>

definition inode_store :: "'h machine \<Rightarrow> u64 \<Rightarrow> u8 list \<Rightarrow> u64 \<Rightarrow> u64 \<Rightarrow> (('h, 'z) instate_scheme, int) kcall" where
  "inode_store M inode buf nbyte offset =
     (let block_start = offset div BLOCK_SIZE;
          block_cnt = DIV_ROUND_UP (offset + nbyte) BLOCK_SIZE - block_start in
      bnd (alloc_pages (unat block_cnt)) (\<lambda>pages.
      bnd (read_blocks M inode block_start (unat block_cnt)) (\<lambda>io_buf.
      bnd (of_res (copy_in io_buf (unat (offset mod BLOCK_SIZE)) buf (unat nbyte))) (\<lambda>io_buf.
      bnd (write_blocks M inode block_start io_buf (unat block_cnt)) (\<lambda>_.
      bnd (free_pages pages (unat block_cnt)) (\<lambda>_.
      ret (sint nbyte)))))))"

definition inode_write :: "'h machine \<Rightarrow> u64 \<Rightarrow> u8 list \<Rightarrow> u64 \<Rightarrow> u64 \<Rightarrow> (('h, 'z) instate_scheme, int) kcall" where
  "inode_write M inode buf nbyte offset =
     bnd (get_inode inode) (\<lambda>x.
     bnd (if offset + nbyte > file_size (dinode x) then inode_size_change M inode (offset + nbyte) else ret 0) (\<lambda>success.
     if success < 0 then ret success
     else inode_store M inode buf nbyte offset))"

definition inode_read :: "'h machine \<Rightarrow> u64 \<Rightarrow> u64 \<Rightarrow> u64 \<Rightarrow> (('h, 'z) instate_scheme, u8 list) kcall" where
  "inode_read M inode nbyte offset =
     bnd (get_inode inode) (\<lambda>x.
     let sz = file_size (dinode x) in
     if offset \<ge> sz then ret []
     else let nbyte = (if nbyte + offset > sz then sz - offset else nbyte);
              block_start = offset div BLOCK_SIZE;
              block_cnt = DIV_ROUND_UP (offset + nbyte) BLOCK_SIZE - block_start in
          bnd (alloc_pages (unat block_cnt)) (\<lambda>pages.
          bnd (read_blocks M inode block_start (unat block_cnt)) (\<lambda>io_buf.
          bnd (of_res (copy_out io_buf (unat (offset mod BLOCK_SIZE)) (unat nbyte))) (\<lambda>data.
          bnd (free_pages pages (unat block_cnt)) (\<lambda>_.
          ret data)))))"

definition disk_inode_create :: "'h machine \<Rightarrow> (('h, 'z) instate_scheme, int) kcall" where
  "disk_inode_create M =
     bnd (kget sb) (\<lambda>b.
     bnd (fs_bitmap_alloc M (inode_bitmap_start b) INODE_CNT_MAX) (\<lambda>idx.
     if idx < 0 then ret idx
     else let inode = \<lparr>file_size = 0, direct = replicate NDIRECT 0\<rparr> in
          bnd (kget (block_id (of_int idx))) (\<lambda>bid.
          bnd (block_modify M 0 bid (enc_disk_inode inode) sizeof_disk_inode (block_off (of_int idx))) (\<lambda>_.
          ret idx))))"

definition disk_inode_delete :: "'h machine \<Rightarrow> u64 \<Rightarrow> (('h, 'z) instate_scheme, unit) kcall" where
  "disk_inode_delete M n =
     bnd (kget sb) (\<lambda>b.
     bnd (fs_bitmap_free M (inode_bitmap_start b) INODE_CNT_MAX n) (\<lambda>_.
     bnd (inode_open M n) (\<lambda>inode.
     bnd (inode_lock_down inode) (\<lambda>_.
     bnd (inode_size_change M inode 0) (\<lambda>_.
     bnd (inode_lock_up inode) (\<lambda>_.
     inode_close inode))))))"

lemmas inode_defs [kdefs] =
  inode_load_def inode_open_def inode_close_def fs_bitmap_alloc_def fs_bitmap_free_def inode_size_change_def
  inode_store_def inode_write_def inode_read_def disk_inode_create_def disk_inode_delete_def

section \<open>Encoding\<close>

lemma length_enc64 [simp]: "length (enc64 w) = 8"
  by (simp add: enc64_def)

lemma dec_bytes:
  fixes w :: u64
  shows "foldr (\<lambda>b v. ucast b OR push_bit 8 v) (map (\<lambda>i. ucast (drop_bit (8 * i) w) :: u8) [k..<k + n]) 0 = take_bit (8 * n) (drop_bit (8 * k) w)"
proof (induction n arbitrary: k)
  case (Suc n)
  have "[k..<k + Suc n] = k # [Suc k..<Suc k + n]" by (simp add: upt_rec)
  moreover have "ucast (ucast (drop_bit (8 * k) w) :: u8) OR push_bit 8 (take_bit (8 * n) (drop_bit (8 * Suc k) w)) =
      take_bit (8 * Suc n) (drop_bit (8 * k) w)"
    by (rule bit_eqI) (auto simp: bit_simps)
  ultimately show ?case using Suc.IH[of "Suc k"] by simp
qed simp

lemma dec64_enc64 [simp]: "dec64 (enc64 w @ bs) = w"
proof -
  have "dec64 (enc64 w @ bs) = foldr (\<lambda>b w. ucast b OR push_bit 8 w) (enc64 w) 0"
    by (simp add: dec64_def)
  also have "\<dots> = w" using dec_bytes[of w 0 8] take_bit_length_eq[of w] by (simp add: enc64_def)
  finally show ?thesis .
qed

lemma concat_enc64: "k < length ws \<Longrightarrow> dec64 (drop (8 * k) (concat (map enc64 ws) @ bs)) = ws ! k"
proof (induction ws arbitrary: k)
  case (Cons w ws)
  then show ?case by (cases k) auto
qed simp

lemma length_concat_enc64 [simp]: "length (concat (map enc64 ws)) = 8 * length ws"
  by (induction ws) auto

lemma length_enc_disk_inode [simp]: "length (direct d) = NDIRECT \<Longrightarrow> length (enc_disk_inode d) = 104"
  by (simp add: enc_disk_inode_def NDIRECT_def)

lemma dec_enc_disk_inode [simp]:
  assumes "length (direct d) = NDIRECT"
  shows "dec_disk_inode (enc_disk_inode d @ bs) = d"
proof -
  have "dec64 (drop (8 * Suc k) (enc_disk_inode d @ bs)) = direct d ! k" if "k < NDIRECT" for k
    using concat_enc64[of k "direct d" bs] that assms by (simp add: enc_disk_inode_def)
  then have "map (\<lambda>k. dec64 (drop (8 * Suc k) (enc_disk_inode d @ bs))) [0..<NDIRECT] = direct d"
    using assms by (intro nth_equalityI) auto
  then show ?thesis by (simp add: dec_disk_inode_def enc_disk_inode_def)
qed

section \<open>Bytemaps\<close>

text \<open>\<open>bm_byte B st i\<close>: byte \<open>i\<close> of the map that starts with block \<open>st\<close>, where \<open>B\<close> gives the blocks of the disk.\<close>

definition bm_byte :: "(nat \<Rightarrow> u8 list) \<Rightarrow> nat \<Rightarrow> nat \<Rightarrow> u8" where
  "bm_byte B st i = B (st + i div 4096) ! (i mod 4096)"

definition bm_set :: "(nat \<Rightarrow> u8 list) \<Rightarrow> nat \<Rightarrow> nat \<Rightarrow> u8 \<Rightarrow> (nat \<Rightarrow> u8 list)" where
  "bm_set B st i v = B(st + i div 4096 := (B (st + i div 4096))[i mod 4096 := v])"

definition bm_used :: "(nat \<Rightarrow> u8 list) \<Rightarrow> nat \<Rightarrow> nat \<Rightarrow> nat set" where
  "bm_used B st n = {i. i < n \<and> bm_byte B st i \<noteq> 0}"

lemma bm_byte_set:
  assumes "\<And>b. length (B b) = 4096"
  shows "bm_byte (bm_set B st i v) st j = (if j = i then v else bm_byte B st j)"
proof (cases "j div 4096 = i div 4096")
  case True
  then have "j mod 4096 = i mod 4096 \<longleftrightarrow> j = i" by (metis div_mod_decomp)
  then show ?thesis using True assms by (auto simp: bm_byte_def bm_set_def nth_list_update)
next
  case False
  then show ?thesis by (auto simp: bm_byte_def bm_set_def)
qed

lemma bm_used_set:
  assumes "\<And>b. length (B b) = 4096" "i < n"
  shows "bm_used (bm_set B st i v) st n = (if v = 0 then bm_used B st n - {i} else insert i (bm_used B st n))"
  using assms by (auto simp: bm_used_def bm_byte_set)

lemma bm_used_bound: "bm_used B st n \<subseteq> {..<n}" "finite (bm_used B st n)"
  by (auto simp: bm_used_def)

lemma splice_at_byte: "i < length xs \<Longrightarrow> splice_at i [v] xs = xs[i := v]"
  by (simp add: splice_at_def upd_conv_take_nth_drop)

text \<open>Where the loop of \<^verbatim>\<open>fs_bitmap_alloc\<close> stops.\<close>

fun bm_first :: "(nat \<Rightarrow> u8 list) \<Rightarrow> nat \<Rightarrow> nat \<Rightarrow> nat \<Rightarrow> nat" where
  "bm_first B st i 0 = i"
| "bm_first B st i (Suc k) = (if bm_byte B st i = 0 then i else bm_first B st (Suc i) k)"

lemma bm_first_bounds: "i \<le> bm_first B st i k \<and> bm_first B st i k \<le> i + k"
proof (induction k arbitrary: i)
  case (Suc k)
  show ?case using Suc.IH[of "Suc i"] by (auto dest: Suc_leD)
qed simp

lemma bm_first_free: "bm_first B st i k < i + k \<Longrightarrow> bm_byte B st (bm_first B st i k) = 0"
  by (induction k arbitrary: i) auto

lemma bm_first_used: "i \<le> j \<Longrightarrow> j < bm_first B st i k \<Longrightarrow> bm_byte B st j \<noteq> 0"
proof (induction k arbitrary: i)
  case (Suc k)
  then show ?case using Suc.IH[of "Suc i"] by (cases "j = i") (auto split: if_splits)
qed simp

lemma bm_first_lt: "bm_used B st n \<noteq> {..<n} \<longleftrightarrow> bm_first B st 0 n < n"
proof
  assume "bm_used B st n \<noteq> {..<n}"
  then obtain j where "j < n" "bm_byte B st j = 0" by (auto simp: bm_used_def)
  then have "\<not> j < bm_first B st 0 n" using bm_first_used[of 0 j B st n] by auto
  then show "bm_first B st 0 n < n" using \<open>j < n\<close> by simp
next
  assume l: "bm_first B st 0 n < n"
  then have "bm_first B st 0 n \<notin> bm_used B st n" using bm_first_free[of B st 0 n] by (simp add: bm_used_def)
  then show "bm_used B st n \<noteq> {..<n}" using l by blast
qed

text \<open>Where byte \<open>i\<close> of a map is on the disk, in the arithmetic of the code.\<close>

lemma byte_place:
  assumes "i < 2 ^ 32" "unat start + i div 4096 < bio_limit"
  shows "unat (of_nat i div BLOCK_SIZE + start) = unat start + i div 4096"
    "unat (of_nat i mod BLOCK_SIZE :: u64) = i mod 4096" "unat (of_nat i mod BLOCK_SIZE :: u64) + unat (1 :: u64) \<le> 4096"
proof -
  have u: "unat (of_nat i :: u64) = i" using assms(1) unfolding unat_of_nat by simp
  then have d: "unat (of_nat i div BLOCK_SIZE :: u64) = i div 4096" "unat (of_nat i mod BLOCK_SIZE :: u64) = i mod 4096"
    by (simp_all add: BLOCK_SIZE_def unat_div unat_mod)
  then show "unat (of_nat i mod BLOCK_SIZE :: u64) = i mod 4096"
    "unat (of_nat i mod BLOCK_SIZE :: u64) + unat (1 :: u64) \<le> 4096"
    by (auto simp: Suc_leI)
  show "unat (of_nat i div BLOCK_SIZE + start) = unat start + i div 4096"
    using d(1) assms(2) by (subst unat_add_lem[THEN iffD1]) (simp_all add: bio_limit_def)
qed

lemma fs_bitmap_scan_ok:
  fixes s :: "('h, 'z) instate_scheme"
  assumes "bio_ok M dev s" "i + k \<le> 2 ^ 32" "\<And>j. j < i + k \<Longrightarrow> unat start + j div 4096 < bio_limit"
  shows "\<exists>h. fs_bitmap_scan M start i k s = Ret (bm_first (blocks dev (hw s)) (unat start) i k) (s\<lparr>hw := h\<rparr>) \<and>
    blocks dev h = blocks dev (hw s) \<and> bio_ok M dev (s\<lparr>hw := h\<rparr>)"
  using assms
proof (induction k arbitrary: i s)
  case 0
  then show ?case by (intro exI[of _ "hw s"]) (simp add: ret_def)
next
  case (Suc k)
  let ?bid = "of_nat i div BLOCK_SIZE + start" and ?off = "of_nat i mod BLOCK_SIZE :: u64"
  have i: "i < 2 ^ 32" "unat start + i div 4096 < bio_limit" using Suc.prems(2) Suc.prems(3)[of i] by simp_all
  note at = byte_place[OF i]
  have bl: "unat ?bid < bio_limit" using at(1) i(2) by simp
  obtain h where h: "block_read M 0 ?bid 1 ?off s =
        Ret (take 1 (drop (i mod 4096) (blocks dev (hw s) (unat start + i div 4096)))) (s\<lparr>hw := h\<rparr>)"
      "blocks dev h = blocks dev (hw s)" "bio_ok M dev (s\<lparr>hw := h\<rparr>)"
    using bd.rd_law[OF Suc.prems(1) bl at(3)] at(1,2) by auto
  have "length (blocks dev (hw s) (unat start + i div 4096)) = 4096" using bd.block_length[OF Suc.prems(1)] .
  then have b: "take 1 (drop (i mod 4096) (blocks dev (hw s) (unat start + i div 4096))) = [bm_byte (blocks dev (hw s)) (unat start) i]"
    by (simp add: bm_byte_def take_Suc_conv_app_nth[of 0, simplified] hd_drop_conv_nth)
  show ?case
  proof (cases "bm_byte (blocks dev (hw s)) (unat start) i = 0")
    case True
    then show ?thesis using h b by (intro exI[of _ h]) (simp add: ret_def)
  next
    case False
    obtain h' where "fs_bitmap_scan M start (Suc i) k (s\<lparr>hw := h\<rparr>) =
        Ret (bm_first (blocks dev h) (unat start) (Suc i) k) (s\<lparr>hw := h'\<rparr>)"
        "blocks dev h' = blocks dev h" "bio_ok M dev (s\<lparr>hw := h'\<rparr>)"
      using Suc.IH[OF h(3), of "Suc i"] Suc.prems(2,3) by auto
    then show ?thesis using h b False by (intro exI[of _ h']) simp
  qed
qed

text \<open>A lock that no disk access needs, held while only the disk changes.\<close>

definition fs_lock :: "sema \<Rightarrow> bool" where
  "fs_lock p \<longleftrightarrow> p \<noteq> ChannelLock 0 \<and> p \<noteq> DiskDone 0 \<and> p \<noteq> KernelPoolLock"

lemma fs_lock_simps [simp]: "fs_lock FsBitmapLock" "fs_lock OpenInodesLock" "fs_lock FileTableLock" "fs_lock (InodeLock a)"
  by (simp_all add: fs_lock_def)

lemma locked_hw [simp]: "(locked p s)\<lparr>hw := h\<rparr> = locked p (s\<lparr>hw := h\<rparr>)" "hw (locked p s) = hw s"
  by (simp_all add: locked_def)

lemma bio_ok_locked [simp]: "fs_lock p \<Longrightarrow> bio_ok M dev (locked p s) = bio_ok M dev s"
  by (auto simp: bio_ok_def fs_lock_def io_ready_def dk_ok_def lock_free_def cur_ok_def tq_def locked_def pool_ok_def
      sema_free_def room_def)

lemma hw_section [simp]:
  assumes "sema_free p s"
  shows "sema_up p (locked p (s\<lparr>hw := h\<rparr>)) = Ret () (s\<lparr>hw := h\<rparr>)"
  using pool_section(3)[of p "s\<lparr>hw := h\<rparr>"] assms by simp

text \<open>A map of \<open>n\<close> bytes from block \<open>start\<close> on, whose lock is free.\<close>

definition map_ok :: "'h machine \<Rightarrow> ('h \<Rightarrow> ata_dev) \<Rightarrow> u64 \<Rightarrow> u64 \<Rightarrow> ('h, 'z) instate_scheme \<Rightarrow> bool" where
  "map_ok M dev start n s \<longleftrightarrow> bio_ok M dev s \<and> sema_free FsBitmapLock s \<and> unat n \<le> 2 ^ 32 \<and>
     (\<forall>j < unat n. unat start + j div 4096 < bio_limit)"

lemma map_modify:
  fixes s :: "('h, 'z) instate_scheme"
  assumes ok: "map_ok M dev start n s" and i: "i < unat n"
  shows "\<exists>h. block_modify M 0 (of_nat i div BLOCK_SIZE + start) [v] 1 (of_nat i mod BLOCK_SIZE) (locked FsBitmapLock s) =
      Ret 1 (locked FsBitmapLock (s\<lparr>hw := h\<rparr>)) \<and>
    blocks dev h = bm_set (blocks dev (hw s)) (unat start) i v \<and> bio_ok M dev (s\<lparr>hw := h\<rparr>)"
proof -
  let ?bid = "of_nat i div BLOCK_SIZE + start" and ?off = "of_nat i mod BLOCK_SIZE :: u64"
  have b: "bio_ok M dev (locked FsBitmapLock s)" using ok by (simp add: map_ok_def)
  have "i < 2 ^ 32" "unat start + i div 4096 < bio_limit" using ok i by (auto simp: map_ok_def)
  note at = byte_place[OF this]
  have bl: "unat ?bid < bio_limit" using at(1) ok i by (simp add: map_ok_def)
  have "length (blocks dev (hw s) (unat start + i div 4096)) = 4096" using bd.block_length[OF b] by simp
  then have "splice_at (i mod 4096) [v] (blocks dev (hw s) (unat start + i div 4096)) =
      (blocks dev (hw s) (unat start + i div 4096))[i mod 4096 := v]"
    by (intro splice_at_byte) simp
  then show ?thesis
    using bd.wr_law[OF b bl at(3), of "[v]"] at(1,2) by (auto simp: bm_set_def)
qed

lemma map_lengths: "map_ok M dev start n s \<Longrightarrow> length (blocks dev (hw s) b) = 4096"
  using bd.block_length[of M dev s b] by (simp add: map_ok_def)

lemma map_ok_hw: "map_ok M dev start n s \<Longrightarrow> bio_ok M dev (s\<lparr>hw := h\<rparr>) \<Longrightarrow> map_ok M dev start n (s\<lparr>hw := h\<rparr>)"
  by (simp add: map_ok_def)

lemma fs_bitmap_alloc_ok:
  fixes s :: "('h, 'z) instate_scheme"
  assumes ok: "map_ok M dev start n s"
  defines "r \<equiv> bm_first (blocks dev (hw s)) (unat start) 0 (unat n)"
  shows "\<exists>h. fs_bitmap_alloc M start n s = Ret (if r = unat n then -1 else int r) (s\<lparr>hw := h\<rparr>) \<and>
    blocks dev h = (if r = unat n then blocks dev (hw s) else bm_set (blocks dev (hw s)) (unat start) r 1) \<and>
    map_ok M dev start n (s\<lparr>hw := h\<rparr>)"
proof -
  have free: "sema_free FsBitmapLock s" using ok by (simp add: map_ok_def)
  obtain h where h: "fs_bitmap_scan M start 0 (unat n) (locked FsBitmapLock s) = Ret r (locked FsBitmapLock (s\<lparr>hw := h\<rparr>))"
      "blocks dev h = blocks dev (hw s)" "bio_ok M dev (s\<lparr>hw := h\<rparr>)"
    using fs_bitmap_scan_ok[of M dev "locked FsBitmapLock s" 0 "unat n" start] ok by (auto simp: r_def map_ok_def)
  show ?thesis
  proof (cases "r = unat n")
    case True
    then show ?thesis
      using h free map_ok_hw[OF ok h(3)] by (intro exI[of _ h]) (simp add: fs_bitmap_alloc_def NO_BIT_IN_FS_BTMP_def ret_def)
  next
    case False
    then have lt: "r < unat n" using bm_first_bounds[of 0 "blocks dev (hw s)" "unat start" "unat n"] by (simp add: r_def)
    obtain h' where "block_modify M 0 (of_nat r div BLOCK_SIZE + start) [1] 1 (of_nat r mod BLOCK_SIZE) (locked FsBitmapLock (s\<lparr>hw := h\<rparr>)) =
        Ret 1 (locked FsBitmapLock (s\<lparr>hw := h'\<rparr>))" "blocks dev h' = bm_set (blocks dev h) (unat start) r 1" "bio_ok M dev (s\<lparr>hw := h'\<rparr>)"
      using map_modify[OF map_ok_hw[OF ok h(3)] lt, of 1] by auto
    then show ?thesis
      using h False free map_ok_hw[OF ok] by (intro exI[of _ h']) (simp add: fs_bitmap_alloc_def ret_def)
  qed
qed

lemma fs_bitmap_free_ok:
  fixes s :: "('h, 'z) instate_scheme"
  assumes ok: "map_ok M dev start n s" and i: "idx < n"
  shows "\<exists>h. fs_bitmap_free M start n idx s = Ret () (s\<lparr>hw := h\<rparr>) \<and>
    blocks dev h = bm_set (blocks dev (hw s)) (unat start) (unat idx) 0 \<and> map_ok M dev start n (s\<lparr>hw := h\<rparr>)"
proof -
  have free: "sema_free FsBitmapLock s" using ok by (simp add: map_ok_def)
  obtain h where h: "block_modify M 0 (idx div BLOCK_SIZE + start) [0] 1 (idx mod BLOCK_SIZE) (locked FsBitmapLock s) =
      Ret 1 (locked FsBitmapLock (s\<lparr>hw := h\<rparr>))" "blocks dev h = bm_set (blocks dev (hw s)) (unat start) (unat idx) 0"
      "bio_ok M dev (s\<lparr>hw := h\<rparr>)"
    using map_modify[OF ok, of "unat idx" 0] i by (auto simp: word_less_nat_alt)
  then show ?thesis
    using i free map_ok_hw[OF ok h(3)] by (intro exI[of _ h]) (simp add: fs_bitmap_free_def)
qed

text \<open>A map is an allocator of the numbers below its size, like the kernel's pools.\<close>

interpretation fm: unit_allocator "map_ok M dev start n" "\<lambda>_. int ` {..<unat n}"
  "\<lambda>s. int ` bm_used (blocks dev (hw s)) (unat start) (unat n)" "fs_bitmap_alloc M start n"
  "\<lambda>i. fs_bitmap_free M start n (of_int i)" for M dev start n
proof (unfold_locales, goal_cases)
  case (1 s)
  let ?B = "blocks dev (hw s)" and ?r = "bm_first (blocks dev (hw s)) (unat start) 0 (unat n)"
  have "bm_used ?B (unat start) (unat n) \<noteq> {..<unat n}" using 1(2) by auto
  then have r: "?r < unat n" by (simp add: bm_first_lt)
  then have "?r \<notin> bm_used ?B (unat start) (unat n)" using bm_first_free[of ?B "unat start" 0 "unat n"] by (simp add: bm_used_def)
  moreover obtain h where h: "fs_bitmap_alloc M start n s = Ret (int ?r) (s\<lparr>hw := h\<rparr>)"
      "blocks dev h = bm_set ?B (unat start) ?r 1" "map_ok M dev start n (s\<lparr>hw := h\<rparr>)"
    using fs_bitmap_alloc_ok[OF 1(1)] r by auto
  ultimately show ?case
    using r bm_used_set[of ?B ?r "unat n" "unat start" 1] map_lengths[OF 1(1)]
    by (intro exI[of _ "int ?r"] exI[of _ "s\<lparr>hw := h\<rparr>"]) auto
next
  case (2 s x)
  then obtain i where i: "i \<in> bm_used (blocks dev (hw s)) (unat start) (unat n)" "x = int i" by auto
  then have lt: "i < unat n" "unat (of_nat i :: u64) = i"
    using 2(1) unfolding unat_of_nat by (auto simp: bm_used_def map_ok_def)
  then have l: "of_nat i < n" by (simp add: word_less_nat_alt)
  obtain h where h: "fs_bitmap_free M start n (of_nat i) s = Ret () (s\<lparr>hw := h\<rparr>)"
      "blocks dev h = bm_set (blocks dev (hw s)) (unat start) i 0" "map_ok M dev start n (s\<lparr>hw := h\<rparr>)"
    using fs_bitmap_free_ok[OF 2(1) l, unfolded lt(2)] by blast
  then show ?case
    using i(2) lt(1) bm_used_set[of "blocks dev (hw s)" i "unat n" "unat start" 0] map_lengths[OF 2(1)]
    by (intro exI[of _ "s\<lparr>hw := h\<rparr>"]) auto
next
  case (3 s)
  show ?case by (auto simp: bm_used_def)
qed

end
