(* ===== verification/Filedata.thy ===== *)
theory Filedata
  imports Inode
begin

text \<open>
  What the operations of \<^verbatim>\<open>fs/inode.c\<close> do to the contents of files.

  The contents of a file are the bytes of its blocks, cut off at its size (\<open>fdata\<close>). \<open>fs_inv\<close> is the invariant of a
  mounted file system with some inodes in memory: the blocks of a file are marked in the bytemap, lie behind the
  metadata and belong to no other file. Under it \<^verbatim>\<open>inode_read\<close>, \<^verbatim>\<open>inode_write\<close> and \<^verbatim>\<open>inode_size_change\<close> are operations on
  byte lists, keep the invariant and leave every other file alone.
\<close>

section \<open>Blocks of equal length\<close>

lemma concat_chunks:
  assumes "\<And>x. x \<in> set xs \<Longrightarrow> length (f x) = c"
  shows "length (concat (map f xs)) = c * length xs"
    "take (c * k) (concat (map f xs)) = concat (map f (take k xs))"
    "drop (c * k) (concat (map f xs)) = concat (map f (drop k xs))"
proof -
  show "length (concat (map f xs)) = c * length xs"
    using assms by (induction xs) auto
  show "take (c * k) (concat (map f xs)) = concat (map f (take k xs))"
    using assms
  proof (induction xs arbitrary: k)
    case (Cons x xs)
    then show ?case by (cases k) auto
  qed simp
  show "drop (c * k) (concat (map f xs)) = concat (map f (drop k xs))"
    using assms
  proof (induction xs arbitrary: k)
    case (Cons x xs)
    then show ?case by (cases k) auto
  qed simp
qed

lemma splice_in_part:
  assumes "o2 + length src \<le> m" "k + m \<le> length xs"
  shows "take k xs @ splice_at o2 src (take m (drop k xs)) @ drop (k + m) xs = splice_at (k + o2) src xs"
proof -
  have e1: "take o2 (take m (drop k xs)) = take o2 (drop k xs)" using assms(1) by simp
  have e2: "drop (o2 + length src) (take m (drop k xs)) @ drop (k + m) xs = drop (k + o2 + length src) xs"
  proof -
    have "drop (o2 + length src) (take m (drop k xs)) = take (m - (o2 + length src)) (drop (k + o2 + length src) xs)"
      by (simp add: drop_take ac_simps)
    moreover have "drop (k + m) xs = drop (m - (o2 + length src)) (drop (k + o2 + length src) xs)"
      using assms(1) by (simp add: ac_simps)
    ultimately show ?thesis by (simp only: append_take_drop_id)
  qed
  show ?thesis by (simp only: splice_at_def append_assoc e1 e2 take_add)
qed

lemma take_splice_at: "off + length src \<le> n \<Longrightarrow> n \<le> length xs \<Longrightarrow> take n (splice_at off src xs) = splice_at off src (take n xs)"
  by (cases "n = off") (auto simp: splice_at_def min_def drop_take)

section \<open>Reading and writing the blocks of a file\<close>

definition nblk :: "nat \<Rightarrow> nat" where "nblk n = (n + 4095) div 4096"

lemma nblk_bounds: "n \<le> 4096 * nblk n" "0 < n \<Longrightarrow> 4096 * nblk n < n + 4096"
  by (auto simp: nblk_def)

lemma nblk_mono: "m \<le> n \<Longrightarrow> nblk m \<le> nblk n"
  by (simp add: nblk_def div_le_mono)

lemma nblk_max: "n \<le> 49152 \<Longrightarrow> nblk n \<le> 12"
  by (simp add: nblk_def)

definition fblocks :: "disk_inode \<Rightarrow> nat list" where
  "fblocks d = map unat (take (nblk (unat (file_size d))) (direct d))"

definition fdata :: "(nat \<Rightarrow> u8 list) \<Rightarrow> disk_inode \<Rightarrow> u8 list" where
  "fdata B d = take (unat (file_size d)) (concat (map B (fblocks d)))"

definition di_ok :: "disk_inode \<Rightarrow> bool" where
  "di_ok d \<longleftrightarrow> length (direct d) = NDIRECT \<and> unat (file_size d) \<le> 49152 \<and> distinct (fblocks d) \<and>
     (\<forall>b \<in> set (fblocks d). b < bio_limit)"

lemma fblocks_length: "di_ok d \<Longrightarrow> length (fblocks d) = nblk (unat (file_size d))"
  using nblk_max[of "unat (file_size d)"] by (simp add: di_ok_def fblocks_def NDIRECT_def)

lemma fdata_length:
  assumes "di_ok d" "\<And>b. length (B b) = 4096"
  shows "length (fdata B d) = unat (file_size d)" "length (concat (map B (fblocks d))) = 4096 * nblk (unat (file_size d))"
  using concat_chunks(1)[of "fblocks d" B 4096] assms fblocks_length[OF assms(1)] nblk_bounds(1)[of "unat (file_size d)"]
  by (simp_all add: fdata_def)

lemma fdata_cong: "(\<And>b. b \<in> set (fblocks d) \<Longrightarrow> B' b = B b) \<Longrightarrow> fdata B' d = fdata B d"
  by (simp add: fdata_def cong: map_cong)

text \<open>The numbers of the code, for sizes up to the largest file.\<close>

lemma small_nat: "n < 2 ^ 64 \<Longrightarrow> unat (of_nat n :: u64) = n"
  unfolding unat_of_nat by simp

lemma small_words:
  assumes "unat x + unat y \<le> 49152"
  shows "unat (x + y) = unat x + unat y" "unat (DIV_ROUND_UP (x + y) 4096) = nblk (unat x + unat y)"
    "unat (x div 4096) = unat x div 4096" "unat (x mod 4096) = unat x mod 4096"
    "unat (DIV_ROUND_UP (x + y) 4096 - x div 4096) = nblk (unat x + unat y) - unat x div 4096"
proof -
  show a: "unat (x + y) = unat x + unat y" using assms by (subst unat_add_lem[THEN iffD1]) simp_all
  have "unat (x + y + 4095) = unat x + unat y + 4095"
    using a assms by (subst unat_add_lem[THEN iffD1]) simp_all
  moreover have "x + y + 4096 - 1 = x + y + 4095" by simp
  ultimately show b: "unat (DIV_ROUND_UP (x + y) 4096) = nblk (unat x + unat y)"
    by (simp only: DIV_ROUND_UP_def) (simp add: unat_div nblk_def)
  show c: "unat (x div 4096) = unat x div 4096" "unat (x mod 4096) = unat x mod 4096"
    by (simp_all add: unat_div unat_mod)
  have "unat x div 4096 \<le> nblk (unat x + unat y)" by (simp add: nblk_def div_le_mono)
  then have "x div 4096 \<le> DIV_ROUND_UP (x + y) 4096" using b c by (simp add: word_le_nat_alt)
  then show "unat (DIV_ROUND_UP (x + y) 4096 - x div 4096) = nblk (unat x + unat y) - unat x div 4096"
    using b c by (simp add: unat_sub)
qed

lemma unat_PG_SIZE [simp]: "unat PG_SIZE = 4096" "unat BLOCK_SIZE = 4096"
  by (simp_all add: PG_SIZE_def BLOCK_SIZE_def)

lemma inodes_hw [simp]:
  fixes s :: "('h, 'z) instate_scheme"
  shows "inodes (s\<lparr>hw := h\<rparr>) = inodes s" "sb (s\<lparr>hw := h\<rparr>) = sb s"
  by simp_all

lemma read_blocks_ok:
  fixes s :: "('h, 'z) instate_scheme"
  assumes "bio_ok M dev s" "a \<noteq> 0" "idx + k \<le> length (direct (dinode (inodes s a)))" "length (direct (dinode (inodes s a))) = NDIRECT"
    "\<forall>b \<in> set (take k (drop idx (direct (dinode (inodes s a))))). unat b < bio_limit"
  shows "\<exists>h. read_blocks M a (of_nat idx) k s =
      Ret (concat (map (blocks dev (hw s)) (map unat (take k (drop idx (direct (dinode (inodes s a)))))))) (s\<lparr>hw := h\<rparr>) \<and>
    blocks dev h = blocks dev (hw s) \<and> bio_ok M dev (s\<lparr>hw := h\<rparr>)"
  using assms
proof (induction k arbitrary: idx s)
  case 0
  then show ?case by (intro exI[of _ "hw s"]) (simp add: ret_def)
next
  case (Suc k)
  let ?L = "direct (dinode (inodes s a))"
  have l: "idx < length ?L" "unat (of_nat idx :: u64) = idx"
    using Suc.prems(3,4) by (auto simp: NDIRECT_def intro!: small_nat)
  have split: "take (Suc k) (drop idx ?L) = ?L ! idx # take k (drop (Suc idx) ?L)"
    using l(1) by (simp add: Cons_nth_drop_Suc[symmetric])
  have bl: "unat (?L ! idx) < bio_limit" using Suc.prems(5) unfolding split by simp
  have len: "length (blocks dev (hw s) (unat (?L ! idx))) = 4096" using bd.block_length[OF Suc.prems(1)] .
  obtain h where h: "block_read M 0 (?L ! idx) BLOCK_SIZE 0 s = Ret (blocks dev (hw s) (unat (?L ! idx))) (s\<lparr>hw := h\<rparr>)"
      "blocks dev h = blocks dev (hw s)" "bio_ok M dev (s\<lparr>hw := h\<rparr>)"
    using bd.rd_law[OF Suc.prems(1) bl, of 0 BLOCK_SIZE] len by (auto simp: BLOCK_SIZE_def)
  obtain h' where h': "read_blocks M a (of_nat (Suc idx)) k (s\<lparr>hw := h\<rparr>) =
      Ret (concat (map (blocks dev h) (map unat (take k (drop (Suc idx) ?L))))) (s\<lparr>hw := h'\<rparr>)"
      "blocks dev h' = blocks dev h" "bio_ok M dev (s\<lparr>hw := h'\<rparr>)"
    using Suc.IH[OF h(3) Suc.prems(2), of "Suc idx"] Suc.prems(3,4,5) unfolding split by auto
  have "read_blocks M a (of_nat idx) (Suc k) s =
      Ret (concat (map (blocks dev (hw s)) (map unat (?L ! idx # take k (drop (Suc idx) ?L))))) (s\<lparr>hw := h'\<rparr>)"
    using h(1,2) h'(1) Suc.prems(2) l by (simp add: get_direct_def get_inode_def ret_def add.commute)
  then show ?case unfolding split using h' h(2) by auto
qed

lemma write_blocks_ok:
  fixes s :: "('h, 'z) instate_scheme"
  assumes "bio_ok M dev s" "a \<noteq> 0" "idx + k \<le> length (direct (dinode (inodes s a)))" "length (direct (dinode (inodes s a))) = NDIRECT"
    "\<forall>b \<in> set (take k (drop idx (direct (dinode (inodes s a))))). unat b < bio_limit"
    "distinct (map unat (take k (drop idx (direct (dinode (inodes s a))))))" "length buf = 4096 * k"
  shows "\<exists>h. write_blocks M a (of_nat idx) buf k s = Ret () (s\<lparr>hw := h\<rparr>) \<and> bio_ok M dev (s\<lparr>hw := h\<rparr>) \<and>
    concat (map (blocks dev h) (map unat (take k (drop idx (direct (dinode (inodes s a))))))) = buf \<and>
    (\<forall>b. b \<notin> set (map unat (take k (drop idx (direct (dinode (inodes s a)))))) \<longrightarrow> blocks dev h b = blocks dev (hw s) b)"
  using assms
proof (induction k arbitrary: idx s buf)
  case 0
  then show ?case by (intro exI[of _ "hw s"]) (simp add: ret_def)
next
  case (Suc k)
  let ?L = "direct (dinode (inodes s a))" and ?B = "blocks dev (hw s)"
  have l: "idx < length ?L" "unat (of_nat idx :: u64) = idx"
    using Suc.prems(3,4) by (auto simp: NDIRECT_def intro!: small_nat)
  have split: "take (Suc k) (drop idx ?L) = ?L ! idx # take k (drop (Suc idx) ?L)"
    using l(1) by (simp add: Cons_nth_drop_Suc[symmetric])
  have bl: "unat (?L ! idx) < bio_limit" using Suc.prems(5) unfolding split by simp
  have len: "length (?B (unat (?L ! idx))) = 4096" using bd.block_length[OF Suc.prems(1)] .
  then have sp: "splice_at 0 (take 4096 buf) (?B (unat (?L ! idx))) = take 4096 buf"
    using Suc.prems(7) by (simp add: splice_at_def)
  obtain h where h: "block_modify M 0 (?L ! idx) buf BLOCK_SIZE 0 s = Ret BLOCK_SIZE (s\<lparr>hw := h\<rparr>)"
      "blocks dev h = ?B(unat (?L ! idx) := take 4096 buf)" "bio_ok M dev (s\<lparr>hw := h\<rparr>)"
    using bd.wr_law[OF Suc.prems(1) bl, of 0 BLOCK_SIZE buf] sp Suc.prems(7) by (auto simp: BLOCK_SIZE_def)
  let ?ids = "map unat (take k (drop (Suc idx) ?L))"
  obtain h' where h': "write_blocks M a (of_nat (Suc idx)) (drop 4096 buf) k (s\<lparr>hw := h\<rparr>) = Ret () (s\<lparr>hw := h'\<rparr>)"
      "bio_ok M dev (s\<lparr>hw := h'\<rparr>)" "concat (map (blocks dev h') ?ids) = drop 4096 buf"
      "\<forall>b. b \<notin> set ?ids \<longrightarrow> blocks dev h' b = blocks dev h b"
    using Suc.IH[OF h(3) Suc.prems(2), of "Suc idx" "drop 4096 buf"] Suc.prems(3,4,5,6,7) unfolding split by auto
  have "unat (?L ! idx) \<notin> set ?ids" using Suc.prems(6) unfolding split by simp
  then have "blocks dev h' (unat (?L ! idx)) = take 4096 buf" using h'(4) h(2) by simp
  moreover have "write_blocks M a (of_nat idx) buf (Suc k) s = Ret () (s\<lparr>hw := h'\<rparr>)"
    using h(1) h'(1) Suc.prems(2) l by (simp add: get_direct_def get_inode_def ret_def add.commute)
  ultimately show ?case unfolding split using h'(2,3,4) h(2) by (intro exI[of _ h']) auto
qed

section \<open>Reading and overwriting\<close>

lemma set_btmp_instate [simp]:
  "inodes (set_btmp mp b s) = inodes s" "sb (set_btmp mp b s) = sb s"
  "(set_btmp mp b s)\<lparr>inodes := X\<rparr> = set_btmp mp b (s\<lparr>inodes := X\<rparr>)"
  by (cases mp; simp add: set_btmp_def)+

lemma bio_ok_btmp:
  "bio_ok M dev s \<Longrightarrow> pool_ok KernelPool (set_btmp KernelPool b s) \<Longrightarrow> room 1 (set_btmp KernelPool b s) \<Longrightarrow>
   bio_ok M dev (set_btmp KernelPool b s)"
  by (simp add: bio_ok_def)

text \<open>The part of the blocks that a transfer of \<open>n\<close> bytes at \<open>off\<close> touches.\<close>

lemma touched:
  fixes B :: "nat \<Rightarrow> u8 list"
  assumes d: "di_ok d" and n: "0 < n" "off + n \<le> unat (file_size d)" and B: "\<And>b. length (B b) = 4096"
  defines "st \<equiv> off div 4096" and "cnt \<equiv> nblk (off + n) - off div 4096" and "X \<equiv> concat (map B (fblocks d))"
  shows "0 < cnt" "cnt \<le> 12" "st + cnt \<le> length (direct d)" "map unat (take cnt (drop st (direct d))) = take cnt (drop st (fblocks d))"
    "set (take cnt (drop st (fblocks d))) \<subseteq> set (fblocks d)" "distinct (take cnt (drop st (fblocks d)))"
    "concat (map B (take cnt (drop st (fblocks d)))) = take (4096 * cnt) (drop (4096 * st) X)"
    "off mod 4096 + n \<le> 4096 * cnt" "4096 * st + 4096 * cnt \<le> length X" "4096 * st + off mod 4096 = off"
    "\<forall>x \<in> set (take cnt (drop st (direct d))). unat x < bio_limit"
proof -
  let ?nb = "nblk (unat (file_size d))"
  have nb: "nblk (off + n) \<le> ?nb" "?nb \<le> 12" "length (direct d) = 12" "length (fblocks d) = ?nb"
    using nblk_mono[OF n(2)] nblk_max d fblocks_length[OF d] by (auto simp: di_ok_def NDIRECT_def)
  have e: "off + n \<le> 4096 * nblk (off + n)" by (rule nblk_bounds)
  show o: "4096 * st + off mod 4096 = off" by (simp add: st_def)
  then have lt: "4096 * st < 4096 * nblk (off + n)" using e n(1) by linarith
  then show c: "0 < cnt" "cnt \<le> 12" "st + cnt \<le> length (direct d)" using nb by (auto simp: cnt_def st_def)
  have sc: "st + cnt = nblk (off + n)" using lt by (simp add: cnt_def st_def)
  have "take cnt (drop st (take ?nb (direct d))) = take cnt (drop st (direct d))"
    using sc nb(1) by (simp add: drop_take min_def)
  then show ids: "map unat (take cnt (drop st (direct d))) = take cnt (drop st (fblocks d))"
    by (simp add: fblocks_def take_map drop_map)
  show sub: "set (take cnt (drop st (fblocks d))) \<subseteq> set (fblocks d)" by (meson set_drop_subset set_take_subset subset_trans)
  show "distinct (take cnt (drop st (fblocks d)))" using d by (simp add: di_ok_def)
  show "concat (map B (take cnt (drop st (fblocks d)))) = take (4096 * cnt) (drop (4096 * st) X)"
    using concat_chunks(2,3)[of _ B 4096] B by (simp add: X_def)
  show "off mod 4096 + n \<le> 4096 * cnt" using e sc o by linarith
  have "length X = 4096 * ?nb" using fdata_length(2)[of d B] d B by (simp add: X_def)
  then show "4096 * st + 4096 * cnt \<le> length X" using sc nb(1) by (simp add: distrib_left[symmetric])
  show "\<forall>x \<in> set (take cnt (drop st (direct d))). unat x < bio_limit"
  proof
    fix x assume "x \<in> set (take cnt (drop st (direct d)))"
    then have "unat x \<in> set (map unat (take cnt (drop st (direct d))))" by simp
    then show "unat x < bio_limit" using sub d unfolding ids di_ok_def by blast
  qed
qed

lemma inode_read_ok:
  fixes s :: "('h, 'z) instate_scheme"
  assumes ok: "bio_ok M dev s" "room 13 s" and a: "a \<noteq> 0" and d: "di_ok d" "dinode (inodes s a) = d"
    and n: "0 < unat n" "unat off < unat (file_size d)" "unat off + unat n < 2 ^ 64"
  shows "\<exists>h. inode_read M a n off s = Ret (take (unat n) (drop (unat off) (fdata (blocks dev (hw s)) d))) (s\<lparr>hw := h\<rparr>) \<and>
    blocks dev h = blocks dev (hw s) \<and> bio_ok M dev (s\<lparr>hw := h\<rparr>)"
proof -
  let ?sz = "unat (file_size d)" and ?B = "blocks dev (hw s)"
  define m where "m = (if n + off > file_size d then file_size d - off else n)"
  have "unat (n + off) = unat n + unat off" using n(3) by (subst unat_add_lem[THEN iffD1]) simp_all
  then have m: "unat m = min (unat n) (?sz - unat off)"
    using n(2) by (auto simp: m_def word_less_nat_alt unat_sub word_le_nat_alt)
  have m0: "0 < unat m" "unat off + unat m \<le> ?sz" using m n(1,2) by auto
  have sz: "?sz \<le> 49152" using d(1) by (simp add: di_ok_def)
  have B: "length (?B b) = 4096" for b using bd.block_length[OF ok(1)] .
  note w = small_words[of off m, folded BLOCK_SIZE_def] and t = touched[where B = ?B, OF d(1) m0 B]
  let ?st = "unat off div 4096" and ?cnt = "nblk (unat off + unat m) - unat off div 4096"
  have "room (?cnt + 1) s" using room_mono[OF ok(2)] t(2) by simp
  then obtain p b where p: "alloc_pages ?cnt s = Ret p (set_btmp KernelPool b s)" "pool_ok KernelPool (set_btmp KernelPool b s)"
      "room 1 (set_btmp KernelPool b s)" "\<forall>h. free_pages p ?cnt (set_btmp KernelPool b (s\<lparr>hw := h\<rparr>)) = Ret () (s\<lparr>hw := h\<rparr>)"
    using page_bracket[of s ?cnt 1] t(1) ok(1) by (auto simp: bio_ok_def)
  let ?s = "set_btmp KernelPool b s"
  have io: "bio_ok M dev ?s" using bio_ok_btmp[OF ok(1) p(2,3)] .
  obtain h where h: "read_blocks M a (of_nat ?st) ?cnt ?s =
      Ret (take (4096 * ?cnt) (drop (4096 * ?st) (concat (map ?B (fblocks d))))) (set_btmp KernelPool b (s\<lparr>hw := h\<rparr>))"
      "blocks dev h = ?B" "bio_ok M dev (?s\<lparr>hw := h\<rparr>)"
    using read_blocks_ok[OF io a, of ?st ?cnt] t(3,4,7,11) d by (auto simp: di_ok_def)
  have st: "off div BLOCK_SIZE = of_nat ?st" using w(3) m0(2) sz by (simp flip: w(3))
  have "take (unat m) (drop (unat off mod 4096) (take (4096 * ?cnt) (drop (4096 * ?st) (concat (map ?B (fblocks d)))))) =
      take (unat m) (drop (unat off) (concat (map ?B (fblocks d))))"
    using t(8,10) by (simp add: drop_take min_def add.commute)
  also have "\<dots> = take (unat n) (drop (unat off) (fdata ?B d))"
    using m by (simp add: fdata_def drop_take min.commute)
  finally have co: "copy_out (take (4096 * ?cnt) (drop (4096 * ?st) (concat (map ?B (fblocks d))))) (unat off mod 4096) (unat m) =
      Inr (take (unat n) (drop (unat off) (fdata ?B d)))"
    using t(8,9) by (simp add: copy_out_def)
  have nle: "\<not> file_size d \<le> off" using n(2) by (simp add: word_le_nat_alt)
  have "inode_read M a n off s = Ret (take (unat n) (drop (unat off) (fdata ?B d))) (s\<lparr>hw := h\<rparr>)"
    unfolding inode_read_def Let_def get_inode_def if_not_P[OF a] bnd_basic d(2) if_not_P[OF nle] m_def[symmetric]
    using p(1,4) h(1) co w(4,5) m0(2) sz st by (simp add: ret_def)
  then show ?thesis using h(2,3) ok(1) by (auto simp: bio_ok_def)
qed

lemma sint_small:
  assumes "unat (x :: u64) \<le> 49152"
  shows "sint x = int (unat x)"
proof -
  define n where "n = unat x"
  have u: "uint x = int n" by (simp add: n_def)
  have "n \<le> 49152" using assms by (simp add: n_def)
  then have "signed_take_bit 63 (int n) = int n" by (intro signed_take_bit_int_eq_self) simp_all
  then show ?thesis unfolding sint_uint u n_def[symmetric] by simp
qed

text \<open>Storing blocks changes the contents of the file as \<open>splice_at\<close> does.\<close>

lemma fdata_store:
  fixes B :: "nat \<Rightarrow> u8 list"
  assumes d: "di_ok d" and n: "0 < length src" "off + length src \<le> unat (file_size d)" and B: "\<And>b. length (B b) = 4096"
  defines "st \<equiv> off div 4096" and "cnt \<equiv> nblk (off + length src) - off div 4096" and "X \<equiv> concat (map B (fblocks d))"
  assumes new: "concat (map B' (take cnt (drop st (fblocks d)))) = splice_at (off mod 4096) src (take (4096 * cnt) (drop (4096 * st) X))"
    and same: "\<And>b. b \<notin> set (take cnt (drop st (fblocks d))) \<Longrightarrow> B' b = B b"
  shows "fdata B' d = splice_at off src (fdata B d)"
proof -
  note t = touched[where B = B, OF d n B, folded cnt_def, folded X_def, folded st_def]
  let ?L = "fblocks d"
  have "?L = take st ?L @ take cnt (drop st ?L) @ drop (st + cnt) ?L"
    by (metis add.commute append_take_drop_id drop_drop)
  moreover have "distinct ?L" using d by (simp add: di_ok_def)
  ultimately have dis: "set (take st ?L) \<inter> set (take cnt (drop st ?L)) = {}" "set (drop (st + cnt) ?L) \<inter> set (take cnt (drop st ?L)) = {}"
    by (metis distinct_append inf_commute set_append Int_Un_distrib Un_empty)+
  have "concat (map B' ?L) = concat (map B' (take st ?L)) @ concat (map B' (take cnt (drop st ?L))) @ concat (map B' (drop (st + cnt) ?L))"
    using \<open>?L = _\<close> by (metis concat_append map_append)
  also have "map B' (take st ?L) = map B (take st ?L)" using dis(1) same by (intro map_cong) auto
  also have "map B' (drop (st + cnt) ?L) = map B (drop (st + cnt) ?L)" using dis(2) same by (intro map_cong) auto
  also have "concat (map B (take st ?L)) = take (4096 * st) X" using concat_chunks(2)[of ?L B 4096] B by (simp add: X_def)
  also have "concat (map B (drop (st + cnt) ?L)) = drop (4096 * st + 4096 * cnt) X"
    using concat_chunks(3)[of ?L B 4096 "st + cnt"] B by (simp add: X_def distrib_left)
  finally have "concat (map B' ?L) = splice_at (4096 * st + off mod 4096) src X"
    unfolding new using splice_in_part[OF t(8,9)] by simp
  then have "concat (map B' ?L) = splice_at off src X" unfolding t(10) .
  moreover have "unat (file_size d) \<le> length X"
    using fdata_length(2)[of d B] d B nblk_bounds(1) by (simp add: X_def)
  ultimately show ?thesis using take_splice_at[OF n(2)] by (simp add: fdata_def X_def)
qed

lemma inode_store_ok:
  fixes s :: "('h, 'z) instate_scheme"
  assumes ok: "bio_ok M dev s" "room 13 s" and a: "a \<noteq> 0" and d: "di_ok d" "dinode (inodes s a) = d"
    and n: "0 < unat n" "unat off + unat n \<le> unat (file_size d)" "unat n \<le> length buf"
  shows "\<exists>h. inode_store M a buf n off s = Ret (int (unat n)) (s\<lparr>hw := h\<rparr>) \<and> bio_ok M dev (s\<lparr>hw := h\<rparr>) \<and>
    fdata (blocks dev h) d = splice_at (unat off) (take (unat n) buf) (fdata (blocks dev (hw s)) d) \<and>
    (\<forall>b. b \<notin> set (fblocks d) \<longrightarrow> blocks dev h b = blocks dev (hw s) b)"
proof -
  let ?B = "blocks dev (hw s)" and ?src = "take (unat n) buf"
  have src: "length ?src = unat n" using n(3) by simp
  then have nz: "0 < length ?src" "unat off + length ?src \<le> unat (file_size d)" using n(1,2) by auto
  have sz: "unat off + unat n \<le> 49152" using d(1) n(2) by (simp add: di_ok_def)
  have B: "length (?B b) = 4096" for b using bd.block_length[OF ok(1)] .
  note w = small_words[OF sz, folded BLOCK_SIZE_def] and t = touched[where B = ?B, OF d(1) n(1,2) B]
  let ?st = "unat off div 4096" and ?cnt = "nblk (unat off + unat n) - unat off div 4096" and ?X = "concat (map ?B (fblocks d))"
  have "room (?cnt + 1) s" using room_mono[OF ok(2)] t(2) by simp
  then obtain p b where p: "alloc_pages ?cnt s = Ret p (set_btmp KernelPool b s)" "pool_ok KernelPool (set_btmp KernelPool b s)"
      "room 1 (set_btmp KernelPool b s)" "\<forall>h. free_pages p ?cnt (set_btmp KernelPool b (s\<lparr>hw := h\<rparr>)) = Ret () (s\<lparr>hw := h\<rparr>)"
    using page_bracket[of s ?cnt 1] t(1) ok(1) by (auto simp: bio_ok_def)
  let ?s = "set_btmp KernelPool b s"
  have io: "bio_ok M dev ?s" using bio_ok_btmp[OF ok(1) p(2,3)] .
  obtain h where h: "read_blocks M a (of_nat ?st) ?cnt ?s = Ret (take (4096 * ?cnt) (drop (4096 * ?st) ?X)) (set_btmp KernelPool b (s\<lparr>hw := h\<rparr>))"
      "blocks dev h = ?B" "bio_ok M dev (set_btmp KernelPool b (s\<lparr>hw := h\<rparr>))"
    using read_blocks_ok[OF io a, of ?st ?cnt] t(3,4,7,11) d by (auto simp: di_ok_def)
  let ?io = "splice_at (unat off mod 4096) ?src (take (4096 * ?cnt) (drop (4096 * ?st) ?X))"
  have len: "length (take (4096 * ?cnt) (drop (4096 * ?st) ?X)) = 4096 * ?cnt" using t(9) by simp
  then have io': "length ?io = 4096 * ?cnt" using t(8) src by (intro trans[OF length_splice]) simp_all
  obtain h' where h': "write_blocks M a (of_nat ?st) ?io ?cnt (set_btmp KernelPool b (s\<lparr>hw := h\<rparr>)) = Ret () (set_btmp KernelPool b (s\<lparr>hw := h'\<rparr>))"
      "bio_ok M dev (set_btmp KernelPool b (s\<lparr>hw := h'\<rparr>))" "concat (map (blocks dev h') (take ?cnt (drop ?st (fblocks d)))) = ?io"
      "\<forall>b. b \<notin> set (take ?cnt (drop ?st (fblocks d))) \<longrightarrow> blocks dev h' b = ?B b"
    using write_blocks_ok[OF h(3) a, of ?st ?cnt ?io] t(3,4,6,11) d io' h(2) by (auto simp: di_ok_def)
  have st: "off div BLOCK_SIZE = of_nat ?st" using w(3) by (simp flip: w(3))
  have "copy_in (take (4096 * ?cnt) (drop (4096 * ?st) ?X)) (unat off mod 4096) buf (unat n) = Inr ?io"
    using t(8) n(3) src by (simp only: copy_in_def len) (simp add: splice_at_def)
  then have "inode_store M a buf n off s = Ret (int (unat n)) (s\<lparr>hw := h'\<rparr>)"
    unfolding inode_store_def Let_def using p(1,4) h(1) h'(1) w(4,5) st sz by (simp add: ret_def sint_small)
  moreover have "fdata (blocks dev h') d = splice_at (unat off) ?src (fdata ?B d)"
    using fdata_store[where B = ?B and B' = "blocks dev h'", OF d(1) nz B, unfolded src, OF h'(3)] h'(4) by blast
  moreover have "\<forall>b. b \<notin> set (fblocks d) \<longrightarrow> blocks dev h' b = ?B b" using h'(4) t(5) by blast
  moreover have "bio_ok M dev (s\<lparr>hw := h'\<rparr>)" using h'(2) ok(1) by (simp add: bio_ok_def)
  ultimately show ?thesis by blast
qed

section \<open>The file system invariant\<close>

lemma inodes_upd [simp]:
  fixes s :: "('h, 'z) instate_scheme"
  shows "(s\<lparr>inodes := X\<rparr>)\<lparr>hw := h\<rparr> = s\<lparr>hw := h, inodes := X\<rparr>" "sema_free p (s\<lparr>inodes := X\<rparr>) = sema_free p s"
    "pool_ok mp (s\<lparr>inodes := X\<rparr>) = pool_ok mp s" "room n (s\<lparr>inodes := X\<rparr>) = room n s" "bio_ok M dev (s\<lparr>inodes := X\<rparr>) = bio_ok M dev s"
    "map_ok M dev start m (s\<lparr>inodes := X\<rparr>) = map_ok M dev start m s"
proof -
  have p: "pool_of mp (s\<lparr>inodes := X\<rparr>) = pool_of mp s" for mp by (cases mp) simp_all
  show f: "sema_free p (s\<lparr>inodes := X\<rparr>) = sema_free p s" for p by (simp add: sema_free_def lock_free_def cur_ok_def tq_def)
  show pk: "pool_ok mp (s\<lparr>inodes := X\<rparr>) = pool_ok mp s" "room n (s\<lparr>inodes := X\<rparr>) = room n s" for mp n
    by (simp_all add: pool_ok_def room_def p f)
  show bk: "bio_ok M dev (s\<lparr>inodes := X\<rparr>) = bio_ok M dev s"
    using pk by (simp add: bio_ok_def io_ready_def dk_ok_def lock_free_def cur_ok_def tq_def)
  show "map_ok M dev start m (s\<lparr>inodes := X\<rparr>) = map_ok M dev start m s"
    using bk f by (simp add: map_ok_def)
qed simp

text \<open>The layout that \<^verbatim>\<open>partition_format\<close> writes: super block, map of the blocks, map of the inodes, table of the inodes (4
  blocks), data; byte \<open>i\<close> of the block map is for block \<^verbatim>\<open>block_bitmap_start - 1 + i\<close>.\<close>

abbreviation "bbs b \<equiv> unat (block_bitmap_start b)"
abbreviation "bbn b \<equiv> unat (block_bitmap_size b)"

definition layout :: "super_block \<Rightarrow> bool" where
  "layout b \<longleftrightarrow> 0 < bbs b \<and> bbs b + nblk (bbn b) \<le> unat (inode_bitmap_start b) \<and>
     unat (inode_bitmap_start b) < unat (inode_table_start b) \<and> unat (inode_table_start b) + 4 \<le> unat (data_start b) \<and>
     unat (data_start b) \<le> bbs b - 1 + bbn b \<and> bbs b - 1 + bbn b \<le> bio_limit"

abbreviation blk_used :: "(nat \<Rightarrow> u8 list) \<Rightarrow> super_block \<Rightarrow> nat set" where
  "blk_used B b \<equiv> bm_used B (bbs b) (bbn b)"

text \<open>The blocks of the map.\<close>

definition map_region :: "super_block \<Rightarrow> nat set" where
  "map_region b = {bbs b..<bbs b + nblk (bbn b)}"

text \<open>A file whose blocks are data blocks in use.\<close>

definition file_ok :: "(nat \<Rightarrow> u8 list) \<Rightarrow> super_block \<Rightarrow> disk_inode \<Rightarrow> bool" where
  "file_ok B b d \<longleftrightarrow> di_ok d \<and> (\<forall>k \<in> set (fblocks d). unat (data_start b) \<le> k \<and> k - (bbs b - 1) \<in> blk_used B b)"

definition meta_used :: "(nat \<Rightarrow> u8 list) \<Rightarrow> super_block \<Rightarrow> bool" where
  "meta_used B b \<longleftrightarrow> {..<unat (data_start b) - (bbs b - 1)} \<subseteq> blk_used B b"

text \<open>The copy of inode \<open>n\<close> in the table on the disk.\<close>

definition slot_blk :: "super_block \<Rightarrow> u64 \<Rightarrow> nat" where
  "slot_blk b n = unat (inode_table_start b) + unat n * 128 div 4096"

definition slot_off :: "u64 \<Rightarrow> nat" where
  "slot_off n = unat n * 128 mod 4096"

definition disk_copy :: "(nat \<Rightarrow> u8 list) \<Rightarrow> super_block \<Rightarrow> u64 \<Rightarrow> disk_inode" where
  "disk_copy B b n = dec_disk_inode (take 104 (drop (slot_off n) (B (slot_blk b n))))"

text \<open>\<open>fs_inv M dev A s\<close>: the disk holds a file system, and the inodes at the addresses \<open>A\<close> are different files of it,
  the same in memory as on the disk.\<close>

definition fs_inv :: "'h machine \<Rightarrow> ('h \<Rightarrow> ata_dev) \<Rightarrow> u64 set \<Rightarrow> ('h, 'z) instate_scheme \<Rightarrow> bool" where
  "fs_inv M dev A s \<longleftrightarrow>
     map_ok M dev (block_bitmap_start (sb s)) (block_bitmap_size (sb s)) s \<and> room 13 s \<and> layout (sb s) \<and>
     meta_used (blocks dev (hw s)) (sb s) \<and>
     (\<forall>a \<in> A. a \<noteq> 0 \<and> i_no (inodes s a) < INODE_CNT_MAX \<and> file_ok (blocks dev (hw s)) (sb s) (dinode (inodes s a)) \<and>
        disk_copy (blocks dev (hw s)) (sb s) (i_no (inodes s a)) = dinode (inodes s a)) \<and>
     (\<forall>a \<in> A. \<forall>a' \<in> A. a \<noteq> a' \<longrightarrow> i_no (inodes s a) \<noteq> i_no (inodes s a') \<and>
        set (fblocks (dinode (inodes s a))) \<inter> set (fblocks (dinode (inodes s a'))) = {})"

lemma map_block_region: "i < bbn b \<Longrightarrow> bbs b + i div 4096 \<in> map_region b"
proof -
  assume "i < bbn b"
  then have "i div 4096 < nblk (bbn b)" using nblk_bounds(1)[of "bbn b"] by (intro less_mult_imp_div_less) linarith
  then show ?thesis by (simp add: map_region_def)
qed

lemma bm_set_region: "i < bbn b \<Longrightarrow> k \<notin> map_region b \<Longrightarrow> bm_set B (bbs b) i v k = B k"
  using map_block_region[of i b] by (auto simp: bm_set_def)

lemma blk_used_cong: "(\<And>k. k \<in> map_region b \<Longrightarrow> B' k = B k) \<Longrightarrow> blk_used B' b = blk_used B b"
  using map_block_region[of _ b] by (auto simp: bm_used_def bm_byte_def)

section \<open>Changing the size\<close>

lemma layout_map_ok: "layout b \<Longrightarrow> bbn b \<le> 2 ^ 32 \<and> (\<forall>j < bbn b. bbs b + j div 4096 < bio_limit)"
proof
  assume l: "layout b"
  then show "bbn b \<le> 2 ^ 32" by (simp add: layout_def bio_limit_def)
  show "\<forall>j < bbn b. bbs b + j div 4096 < bio_limit"
    using l map_block_region[of _ b] by (fastforce simp: layout_def map_region_def)
qed

text \<open>The block with number \<open>i\<close> in the map, as the code computes it and back.\<close>

lemma block_number:
  assumes "layout b" "i < bbn b"
  shows "unat (of_int (int i) + block_bitmap_start b - 1) = bbs b - 1 + i" "bbs b - 1 + i < bio_limit"
proof -
  have l: "0 < bbs b" "bbs b - 1 + i < bio_limit" using assms by (auto simp: layout_def)
  then have "of_nat i + block_bitmap_start b - 1 = of_nat (bbs b - 1 + i)"
    by (simp add: of_nat_diff Suc_leI add.commute)
  moreover have "unat (of_nat (bbs b - 1 + i) :: u64) = bbs b - 1 + i"
    using l(2) by (intro small_nat) (simp add: bio_limit_def)
  ultimately show "unat (of_int (int i) + block_bitmap_start b - 1) = bbs b - 1 + i" by (simp only: of_int_of_nat_eq)
  show "bbs b - 1 + i < bio_limit" by (rule l(2))
qed

definition with_direct :: "inode \<Rightarrow> u64 list \<Rightarrow> inode" where
  "with_direct x ds = x\<lparr>dinode := (dinode x)\<lparr>direct := ds\<rparr>\<rparr>"

lemma with_direct_simps [simp]:
  "direct (dinode (with_direct x ds)) = ds" "file_size (dinode (with_direct x ds)) = file_size (dinode x)"
  "i_no (with_direct x ds) = i_no x" "open_cnts (with_direct x ds) = open_cnts x"
  "with_direct (with_direct x ds) ds' = with_direct x ds'" "with_direct x (direct (dinode x)) = x"
  by (simp_all add: with_direct_def)

lemma inode_access [simp]:
  fixes s :: "('h, 'z) instate_scheme"
  assumes "a \<noteq> 0"
  shows "get_inode a s = Ret (inodes s a) s" "upd_inode a f s = Ret () (s\<lparr>inodes := (inodes s)(a := f (inodes s a))\<rparr>)"
    "unat idx < length (direct (dinode (inodes s a))) \<Longrightarrow> get_direct a idx s = Ret (direct (dinode (inodes s a)) ! unat idx) s"
    "unat idx < length (direct (dinode (inodes s a))) \<Longrightarrow> set_direct a idx b s =
      Ret () (s\<lparr>inodes := (inodes s)(a := with_direct (inodes s a) ((direct (dinode (inodes s a)))[unat idx := b]))\<rparr>)"
    "inode_lock_down a s = sema_down (InodeLock a) s" "inode_lock_up a s = sema_up (InodeLock a) s"
  using assms by (simp_all add: get_inode_def upd_inode_def get_direct_def set_direct_def inode_lock_down_def inode_lock_up_def
      with_direct_def kget_def kput_def ret_def)

lemma grow_blocks_ok:
  fixes s :: "('h, 'z) instate_scheme"
  assumes "map_ok M dev (block_bitmap_start (sb s)) (block_bitmap_size (sb s)) s" "layout (sb s)" "a \<noteq> 0"
    "length (direct (dinode (inodes s a))) = NDIRECT" "idx + k \<le> NDIRECT"
    "card (blk_used (blocks dev (hw s)) (sb s)) + k \<le> bbn (sb s)"
  shows "\<exists>h is. grow_blocks M a (of_nat idx) k s = Ret 0 (s\<lparr>hw := h, inodes := (inodes s)(a := with_direct (inodes s a)
        (take idx (direct (dinode (inodes s a))) @ map (\<lambda>i. of_int (int i) + block_bitmap_start (sb s) - 1) is @
         drop (idx + k) (direct (dinode (inodes s a)))))\<rparr>) \<and>
    length is = k \<and> distinct is \<and> set is \<subseteq> {..<bbn (sb s)} - blk_used (blocks dev (hw s)) (sb s) \<and>
    blk_used (blocks dev h) (sb s) = blk_used (blocks dev (hw s)) (sb s) \<union> set is \<and>
    (\<forall>k. k \<notin> map_region (sb s) \<longrightarrow> blocks dev h k = blocks dev (hw s) k) \<and>
    map_ok M dev (block_bitmap_start (sb s)) (block_bitmap_size (sb s)) (s\<lparr>hw := h\<rparr>)"
  using assms
proof (induction k arbitrary: idx s)
  case 0
  then show ?case by (intro exI[of _ "hw s"] exI[of _ "[]"]) (simp add: ret_def)
next
  case (Suc k)
  let ?b = "sb s" and ?B = "blocks dev (hw s)" and ?L = "direct (dinode (inodes s a))"
  let ?num = "\<lambda>i. of_int (int i) + block_bitmap_start ?b - 1"
  have "card (blk_used ?B ?b) < bbn ?b" using Suc.prems(6) by simp
  then have "blk_used ?B ?b \<noteq> {..<bbn ?b}" by (metis card_lessThan less_irrefl)
  then have lt: "bm_first ?B (bbs ?b) 0 (bbn ?b) < bbn ?b" by (simp add: bm_first_lt)
  define i where "i = bm_first ?B (bbs ?b) 0 (bbn ?b)"
  have i: "i < bbn ?b" "i \<notin> blk_used ?B ?b"
    using lt bm_first_free[of ?B "bbs ?b" 0 "bbn ?b"] by (simp_all add: i_def bm_used_def)
  obtain h where h: "fs_bitmap_alloc M (block_bitmap_start ?b) (block_bitmap_size ?b) s = Ret (int i) (s\<lparr>hw := h\<rparr>)"
      "blocks dev h = bm_set ?B (bbs ?b) i 1" "map_ok M dev (block_bitmap_start ?b) (block_bitmap_size ?b) (s\<lparr>hw := h\<rparr>)"
    using fs_bitmap_alloc_ok[OF Suc.prems(1)] i(1) by (auto simp: i_def)
  have u: "blk_used (blocks dev h) ?b = insert i (blk_used ?B ?b)"
    using bm_used_set[of ?B i "bbn ?b" "bbs ?b" 1] map_lengths[OF Suc.prems(1)] i(1) h(2) by simp
  define s1 where "s1 = s\<lparr>hw := h, inodes := (inodes s)(a := with_direct (inodes s a) (?L[idx := ?num i]))\<rparr>"
  have idx: "idx < length ?L" "unat (of_nat idx :: u64) = idx" using Suc.prems(4,5) by (auto simp: NDIRECT_def intro!: small_nat)
  have step: "grow_blocks M a (of_nat idx) (Suc k) s = grow_blocks M a (of_nat (Suc idx)) k s1"
    using h(1) Suc.prems(3) idx by (simp add: s1_def add.commute)
  have card: "card (blk_used (blocks dev (hw s1)) (sb s1)) + k \<le> bbn (sb s1)"
    using Suc.prems(6) u i(2) bm_used_bound(2) by (simp add: s1_def)
  have "\<exists>h2 is. grow_blocks M a (of_nat (Suc idx)) k s1 = Ret 0 (s1\<lparr>hw := h2, inodes := (inodes s1)(a := with_direct (inodes s1 a)
        (take (Suc idx) (direct (dinode (inodes s1 a))) @ map (\<lambda>i. of_int (int i) + block_bitmap_start (sb s1) - 1) is @
         drop (Suc idx + k) (direct (dinode (inodes s1 a)))))\<rparr>) \<and>
    length is = k \<and> distinct is \<and> set is \<subseteq> {..<bbn (sb s1)} - blk_used (blocks dev (hw s1)) (sb s1) \<and>
    blk_used (blocks dev h2) (sb s1) = blk_used (blocks dev (hw s1)) (sb s1) \<union> set is \<and>
    (\<forall>k. k \<notin> map_region (sb s1) \<longrightarrow> blocks dev h2 k = blocks dev (hw s1) k) \<and>
    map_ok M dev (block_bitmap_start (sb s1)) (block_bitmap_size (sb s1)) (s1\<lparr>hw := h2\<rparr>)"
    using h(3) Suc.prems by (intro Suc.IH card) (simp_all add: s1_def)
  then obtain h2 "is" where h2: "grow_blocks M a (of_nat (Suc idx)) k s1 = Ret 0 (s\<lparr>hw := h2, inodes := (inodes s)(a := with_direct (inodes s a)
        (take (Suc idx) (?L[idx := ?num i]) @ map ?num is @ drop (Suc idx + k) ?L))\<rparr>)"
      "length is = k" "distinct is" "set is \<subseteq> {..<bbn ?b} - insert i (blk_used ?B ?b)"
      "blk_used (blocks dev h2) ?b = insert i (blk_used ?B ?b) \<union> set is"
      "\<forall>k. k \<notin> map_region ?b \<longrightarrow> blocks dev h2 k = blocks dev h k"
      "map_ok M dev (block_bitmap_start ?b) (block_bitmap_size ?b) (s\<lparr>hw := h2\<rparr>)"
    using u by (auto simp: s1_def)
  have eq: "take (Suc idx) (?L[idx := ?num i]) @ map ?num is @ drop (Suc idx + k) ?L =
      take idx ?L @ map ?num (i # is) @ drop (idx + Suc k) ?L"
    using idx(1) by (simp add: take_Suc_conv_app_nth)
  have "\<forall>k. k \<notin> map_region ?b \<longrightarrow> blocks dev h2 k = ?B k"
    using h2(6) h(2) bm_set_region[OF i(1)] by simp
  moreover have "distinct (i # is)" "set (i # is) \<subseteq> {..<bbn ?b} - blk_used ?B ?b"
      "blk_used (blocks dev h2) ?b = blk_used ?B ?b \<union> set (i # is)"
    using h2(3,4,5) i by auto
  ultimately show ?case
    unfolding step h2(1) eq using h2(2,7) by (intro exI[of _ h2] exI[of _ "i # is"] conjI refl) (simp_all only: list.size)
qed

lemma block_index:
  assumes "layout b" "bbs b - 1 \<le> unat k"
  shows "unat (k - (block_bitmap_start b - 1)) = unat k - (bbs b - 1)"
proof -
  have "0 < bbs b" using assms(1) by (simp add: layout_def)
  then have "unat (block_bitmap_start b - 1) = bbs b - 1" by (subst unat_sub) (simp_all add: word_le_nat_alt Suc_leI)
  then show ?thesis using assms(2) by (subst unat_sub) (simp_all add: word_le_nat_alt)
qed

lemma shrink_blocks_ok:
  fixes s :: "('h, 'z) instate_scheme"
  assumes "map_ok M dev (block_bitmap_start (sb s)) (block_bitmap_size (sb s)) s" "layout (sb s)" "a \<noteq> 0"
    "length (direct (dinode (inodes s a))) = NDIRECT" "idx + k \<le> NDIRECT"
    "distinct (map unat (take k (drop idx (direct (dinode (inodes s a))))))"
    "\<forall>x \<in> set (map unat (take k (drop idx (direct (dinode (inodes s a)))))). bbs (sb s) - 1 \<le> x \<and> x - (bbs (sb s) - 1) < bbn (sb s)"
  shows "\<exists>h. shrink_blocks M a (of_nat idx) k s = Ret () (s\<lparr>hw := h\<rparr>) \<and>
    blk_used (blocks dev h) (sb s) = blk_used (blocks dev (hw s)) (sb s) -
      (\<lambda>x. x - (bbs (sb s) - 1)) ` set (map unat (take k (drop idx (direct (dinode (inodes s a)))))) \<and>
    (\<forall>k. k \<notin> map_region (sb s) \<longrightarrow> blocks dev h k = blocks dev (hw s) k) \<and>
    map_ok M dev (block_bitmap_start (sb s)) (block_bitmap_size (sb s)) (s\<lparr>hw := h\<rparr>)"
  using assms
proof (induction k arbitrary: idx s)
  case 0
  then show ?case by (intro exI[of _ "hw s"]) (simp add: ret_def)
next
  case (Suc k)
  let ?b = "sb s" and ?B = "blocks dev (hw s)" and ?L = "direct (dinode (inodes s a))"
  have idx: "idx < length ?L" "unat (of_nat idx :: u64) = idx" using Suc.prems(4,5) by (auto simp: NDIRECT_def intro!: small_nat)
  have split: "take (Suc k) (drop idx ?L) = ?L ! idx # take k (drop (Suc idx) ?L)"
    using idx(1) by (simp add: Cons_nth_drop_Suc[symmetric])
  let ?i = "?L ! idx - (block_bitmap_start ?b - 1)" and ?n = "unat (?L ! idx) - (bbs ?b - 1)"
  have x: "bbs ?b - 1 \<le> unat (?L ! idx)" "?n < bbn ?b" using Suc.prems(7) unfolding split by simp_all
  have i: "unat ?i = ?n" "?i < block_bitmap_size ?b" using block_index[OF Suc.prems(2) x(1)] x(2) by (simp_all add: word_less_nat_alt)
  obtain h where h: "fs_bitmap_free M (block_bitmap_start ?b) (block_bitmap_size ?b) ?i s = Ret () (s\<lparr>hw := h\<rparr>)"
      "blocks dev h = bm_set ?B (bbs ?b) ?n 0" "map_ok M dev (block_bitmap_start ?b) (block_bitmap_size ?b) (s\<lparr>hw := h\<rparr>)"
    using fs_bitmap_free_ok[OF Suc.prems(1) i(2)] unfolding i(1) by blast
  have u: "blk_used (blocks dev h) ?b = blk_used ?B ?b - {?n}"
    using bm_used_set[of ?B ?n "bbn ?b" "bbs ?b" 0] map_lengths[OF Suc.prems(1)] x(2) h(2) by simp
  have "\<exists>h'. shrink_blocks M a (of_nat (Suc idx)) k (s\<lparr>hw := h\<rparr>) = Ret () (s\<lparr>hw := h, hw := h'\<rparr>) \<and>
    blk_used (blocks dev h') (sb (s\<lparr>hw := h\<rparr>)) = blk_used (blocks dev (hw (s\<lparr>hw := h\<rparr>))) (sb (s\<lparr>hw := h\<rparr>)) -
      (\<lambda>x. x - (bbs (sb (s\<lparr>hw := h\<rparr>)) - 1)) ` set (map unat (take k (drop (Suc idx) (direct (dinode (inodes (s\<lparr>hw := h\<rparr>) a)))))) \<and>
    (\<forall>k. k \<notin> map_region (sb (s\<lparr>hw := h\<rparr>)) \<longrightarrow> blocks dev h' k = blocks dev (hw (s\<lparr>hw := h\<rparr>)) k) \<and>
    map_ok M dev (block_bitmap_start (sb (s\<lparr>hw := h\<rparr>))) (block_bitmap_size (sb (s\<lparr>hw := h\<rparr>))) (s\<lparr>hw := h, hw := h'\<rparr>)"
    by (rule Suc.IH) (use h(3) Suc.prems in \<open>simp_all add: split\<close>)
  then obtain h' where h': "shrink_blocks M a (of_nat (Suc idx)) k (s\<lparr>hw := h\<rparr>) = Ret () (s\<lparr>hw := h'\<rparr>)"
      "blk_used (blocks dev h') ?b = blk_used (blocks dev h) ?b - (\<lambda>x. x - (bbs ?b - 1)) ` set (map unat (take k (drop (Suc idx) ?L)))"
      "\<forall>k. k \<notin> map_region ?b \<longrightarrow> blocks dev h' k = blocks dev h k"
      "map_ok M dev (block_bitmap_start ?b) (block_bitmap_size ?b) (s\<lparr>hw := h'\<rparr>)" by auto
  have "shrink_blocks M a (of_nat idx) (Suc k) s = Ret () (s\<lparr>hw := h'\<rparr>)"
    using Suc.prems(3) idx h(1) h'(1) by (simp add: add.commute)
  moreover have "\<forall>k. k \<notin> map_region ?b \<longrightarrow> blocks dev h' k = ?B k"
    using h'(3) h(2) bm_set_region[OF x(2)] by simp
  ultimately show ?case unfolding split using h'(2,4) u by (intro exI[of _ h']) auto
qed

text \<open>What a change of size does to the block list of the file and to the map, before the inode is written back.\<close>

definition resized :: "(nat \<Rightarrow> u8 list) \<Rightarrow> (nat \<Rightarrow> u8 list) \<Rightarrow> super_block \<Rightarrow> disk_inode \<Rightarrow> disk_inode \<Rightarrow> bool" where
  "resized B B' b d d' \<longleftrightarrow> file_ok B' b d' \<and>
     blk_used B b - (\<lambda>k. k - (bbs b - 1)) ` set (fblocks d) \<subseteq> blk_used B' b \<and>
     (\<forall>k \<in> set (fblocks d'). k \<in> set (fblocks d) \<or> k - (bbs b - 1) \<notin> blk_used B b) \<and>
     (\<forall>j. j < nblk (unat (file_size d)) \<longrightarrow> j < nblk (unat (file_size d')) \<longrightarrow> fblocks d' ! j = fblocks d ! j) \<and>
     (\<forall>k. k \<notin> map_region b \<longrightarrow> B' k = B k)"

lemma block_counts:
  assumes "unat sz \<le> 49152"
  shows "unat (DIV_ROUND_UP sz PG_SIZE) = nblk (unat sz)" "DIV_ROUND_UP sz PG_SIZE = of_nat (nblk (unat sz))"
proof -
  show u: "unat (DIV_ROUND_UP sz PG_SIZE) = nblk (unat sz)"
    using small_words(2)[of sz 0] assms by (simp add: PG_SIZE_def)
  show "DIV_ROUND_UP sz PG_SIZE = of_nat (nblk (unat sz))" by (simp flip: u)
qed

lemma fs_invD:
  assumes "fs_inv M dev A s"
  shows "map_ok M dev (block_bitmap_start (sb s)) (block_bitmap_size (sb s)) s" "room 13 s" "layout (sb s)"
    "meta_used (blocks dev (hw s)) (sb s)" "bio_ok M dev s" "length (blocks dev (hw s) k) = 4096"
    "a \<in> A \<Longrightarrow> a \<noteq> 0 \<and> i_no (inodes s a) < INODE_CNT_MAX \<and> file_ok (blocks dev (hw s)) (sb s) (dinode (inodes s a)) \<and>
      disk_copy (blocks dev (hw s)) (sb s) (i_no (inodes s a)) = dinode (inodes s a)"
    "a \<in> A \<Longrightarrow> a' \<in> A \<Longrightarrow> a \<noteq> a' \<Longrightarrow> i_no (inodes s a) \<noteq> i_no (inodes s a') \<and>
      set (fblocks (dinode (inodes s a))) \<inter> set (fblocks (dinode (inodes s a'))) = {}"
  using assms map_lengths[of M dev _ _ s] by (auto simp: fs_inv_def map_ok_def)

lemma file_ok_blocks:
  assumes "file_ok B b d" "layout b" "k \<in> set (fblocks d)"
  shows "bbs b - 1 \<le> k" "k - (bbs b - 1) < bbn b" "k - (bbs b - 1) \<in> blk_used B b" "unat (data_start b) \<le> k" "k < bio_limit"
    "k \<notin> map_region b" "unat (inode_table_start b) + 4 \<le> k"
  using assms by (auto simp: file_ok_def layout_def bm_used_def di_ok_def map_region_def)

lemma grown:
  assumes d: "file_ok B b d" and b: "layout b" "meta_used B b" and sz: "unat sz \<le> 49152"
    and k: "nblk (unat sz) = nblk (unat (file_size d)) + k"
    and iss: "length is = k" "distinct is" "set is \<subseteq> {..<bbn b} - blk_used B b" "blk_used B' b = blk_used B b \<union> set is"
      "\<forall>k. k \<notin> map_region b \<longrightarrow> B' k = B k"
  defines "L \<equiv> take (nblk (unat (file_size d))) (direct d) @ map (\<lambda>i. of_int (int i) + block_bitmap_start b - 1) is @
    drop (nblk (unat (file_size d)) + k) (direct d)"
  shows "resized B B' b d (d\<lparr>file_size := sz, direct := L\<rparr>)"
proof -
  let ?nb = "nblk (unat (file_size d))" and ?d = "d\<lparr>file_size := sz, direct := L\<rparr>" and ?new = "map (\<lambda>i. bbs b - 1 + i) is"
  have l: "length (direct d) = 12" "?nb + k \<le> 12" using d sz k nblk_max[OF sz] by (auto simp: file_ok_def di_ok_def NDIRECT_def)
  have "map (\<lambda>i. unat (of_int (int i) + block_bitmap_start b - 1)) is = ?new"
    using block_number(1)[OF b(1)] iss(3) by (intro map_cong) auto
  moreover have "take (?nb + k) L = take ?nb (direct d) @ map (\<lambda>i. of_int (int i) + block_bitmap_start b - 1) is"
    using l iss(1) by (simp add: L_def min_def)
  ultimately have f: "fblocks ?d = fblocks d @ ?new"
    by (simp add: fblocks_def k comp_def)
  have new: "unat (data_start b) \<le> j" "j - (bbs b - 1) \<in> set is" "j < bio_limit" if j: "j \<in> set ?new" for j
  proof -
    obtain i where i: "i \<in> set is" "j = bbs b - 1 + i" using j by auto
    then have "i < bbn b" "i \<notin> blk_used B b" using iss(3) by auto
    moreover from this have "\<not> i < unat (data_start b) - (bbs b - 1)" using b(2) by (auto simp: meta_used_def)
    ultimately show "unat (data_start b) \<le> j" "j - (bbs b - 1) \<in> set is" "j < bio_limit"
      using i block_number(2)[OF b(1)] by auto
  qed
  have "distinct (fblocks ?d)"
    using d iss(2,3) file_ok_blocks(3)[OF d b(1)] new(2) unfolding f
    by (force simp: file_ok_def di_ok_def distinct_map inj_on_def)
  moreover have "length L = NDIRECT" using l iss(1) by (simp add: L_def NDIRECT_def)
  moreover have "\<forall>j \<in> set (fblocks ?d). unat (data_start b) \<le> j \<and> j - (bbs b - 1) \<in> blk_used B' b \<and> j < bio_limit"
    using file_ok_blocks(3-5)[OF d b(1)] new iss(4) unfolding f by auto
  ultimately have "file_ok B' b ?d" using sz by (simp add: file_ok_def di_ok_def)
  moreover have "fblocks ?d ! j = fblocks d ! j" if "j < ?nb" for j
    using that fblocks_length[of d] d unfolding f by (simp add: nth_append file_ok_def)
  moreover have "k \<in> set (fblocks d) \<or> k - (bbs b - 1) \<notin> blk_used B b" if "k \<in> set (fblocks ?d)" for k
    using that new(2)[of k] iss(3) unfolding f by auto
  ultimately show ?thesis using iss(4,5) by (auto simp: resized_def)
qed

lemma shrunk:
  assumes d: "file_ok B b d" and b: "layout b" and sz: "unat sz \<le> 49152"
    and k: "nblk (unat (file_size d)) = nblk (unat sz) + k"
    and u: "blk_used B' b = blk_used B b - (\<lambda>x. x - (bbs b - 1)) ` set (drop (nblk (unat sz)) (fblocks d))"
      "\<forall>k. k \<notin> map_region b \<longrightarrow> B' k = B k"
  shows "resized B B' b d (d\<lparr>file_size := sz\<rparr>)"
proof -
  let ?d = "d\<lparr>file_size := sz\<rparr>" and ?n = "nblk (unat sz)"
  have f: "fblocks ?d = take ?n (fblocks d)" by (simp add: fblocks_def k take_map)
  have dis: "distinct (fblocks d)" using d by (simp add: file_ok_def di_ok_def)
  then have dj: "set (take ?n (fblocks d)) \<inter> set (drop ?n (fblocks d)) = {}" by (metis append_take_drop_id distinct_append)
  have sub: "set (drop ?n (fblocks d)) \<subseteq> set (fblocks d)" "set (take ?n (fblocks d)) \<subseteq> set (fblocks d)"
    by (simp_all add: set_drop_subset set_take_subset)
  have keep: "j - (bbs b - 1) \<in> blk_used B' b" if "j \<in> set (take ?n (fblocks d))" for j
  proof -
    have j: "bbs b - 1 \<le> j" "j - (bbs b - 1) \<in> blk_used B b" using that file_ok_blocks(1,3)[OF d b] sub by blast+
    have "j \<noteq> x" "bbs b - 1 \<le> x" if "x \<in> set (drop ?n (fblocks d))" for x
      using that \<open>j \<in> _\<close> file_ok_blocks(1)[OF d b] sub dj by blast+
    then show ?thesis using j unfolding u(1) by fastforce
  qed
  have "file_ok B' b ?d"
    using d keep dis set_take_subset[of ?n "fblocks d"] sz unfolding file_ok_def di_ok_def f by auto
  moreover have "fblocks ?d ! j = fblocks d ! j" if "j < ?n" for j
    using that unfolding f by simp
  ultimately show ?thesis
    using u set_take_subset[of ?n "fblocks d"] set_drop_subset[of ?n "fblocks d"] unfolding resized_def f by auto
qed

section \<open>The inode table\<close>

lemma inode_slot:
  fixes s :: "('h, 'z) instate_scheme"
  assumes "layout (sb s)" "n < INODE_CNT_MAX"
  shows "unat (block_id n s) = slot_blk (sb s) n" "unat (block_off n) = slot_off n" "slot_off n + 104 \<le> 4096"
    "slot_blk (sb s) n < unat (inode_table_start (sb s)) + 4" "slot_blk (sb s) n < bio_limit"
proof -
  have n: "unat n < 128" using assms(2) by (simp add: INODE_CNT_MAX_def word_less_nat_alt)
  then have m: "unat (n * DISK_INODE_SIZE) = unat n * 128"
    by (subst unat_mult_lem[THEN iffD1]) (simp_all add: DISK_INODE_SIZE_def)
  then have d: "unat (n * DISK_INODE_SIZE div BLOCK_SIZE) = unat n * 128 div 4096"
    by (simp add: unat_div)
  show "unat (block_off n) = slot_off n" using m by (simp add: block_off_def slot_off_def unat_mod)
  have "128 dvd slot_off n" unfolding slot_off_def by (intro dvd_mod) simp_all
  moreover have "slot_off n < 4096" by (simp add: slot_off_def)
  ultimately show "slot_off n + 104 \<le> 4096" by presburger
  show b: "slot_blk (sb s) n < unat (inode_table_start (sb s)) + 4" using n by (simp add: slot_blk_def)
  then show l: "slot_blk (sb s) n < bio_limit" using assms(1) by (simp add: layout_def)
  show "unat (block_id n s) = slot_blk (sb s) n"
    unfolding block_id_def using d l by (subst unat_add_lem[THEN iffD1]) (simp_all add: slot_blk_def bio_limit_def)
qed

lemma slots_apart:
  assumes "n \<noteq> n'" "slot_blk b n = slot_blk b n'"
  shows "slot_off n + 104 \<le> slot_off n' \<or> slot_off n' + 104 \<le> slot_off n"
proof -
  have "unat n * 128 \<noteq> unat n' * 128" using assms(1) by (simp add: word_eq_iff_unsigned[where ?'a = nat])
  moreover have "unat n * 128 div 4096 = unat n' * 128 div 4096" using assms(2) by (simp add: slot_blk_def)
  ultimately have "slot_off n \<noteq> slot_off n'" unfolding slot_off_def by (metis div_mult_mod_eq)
  moreover have "128 dvd slot_off n" "128 dvd slot_off n'" unfolding slot_off_def by (intro dvd_mod; simp)+
  then obtain i j where "slot_off n = 128 * i" "slot_off n' = 128 * j" by (auto elim!: dvdE)
  ultimately show ?thesis by (cases i j rule: linorder_cases) auto
qed

lemma slice_splice:
  assumes "off + length src \<le> length xs" "off' + m \<le> off \<or> off + length src \<le> off'"
  shows "take m (drop off' (splice_at off src xs)) = take m (drop off' xs)"
proof (rule nth_equalityI)
  show len: "length (take m (drop off' (splice_at off src xs))) = length (take m (drop off' xs))" using assms(1) by simp
  fix i assume "i < length (take m (drop off' (splice_at off src xs)))"
  then have "i < m" "off' + i < length xs" unfolding len by auto
  then show "take m (drop off' (splice_at off src xs)) ! i = take m (drop off' xs) ! i"
    using assms nth_splice[OF assms(1), of "off' + i"] by auto
qed

lemma write_slot:
  fixes s :: "('h, 'z) instate_scheme"
  assumes "bio_ok M dev s" "layout (sb s)" "n < INODE_CNT_MAX" "length (direct d) = NDIRECT"
  shows "\<exists>h. block_modify M 0 (block_id n s) (enc_disk_inode d) sizeof_disk_inode (block_off n) s = Ret sizeof_disk_inode (s\<lparr>hw := h\<rparr>) \<and>
    bio_ok M dev (s\<lparr>hw := h\<rparr>) \<and> disk_copy (blocks dev h) (sb s) n = d \<and>
    (\<forall>n'. n' \<noteq> n \<longrightarrow> disk_copy (blocks dev h) (sb s) n' = disk_copy (blocks dev (hw s)) (sb s) n') \<and>
    (\<forall>k. k \<noteq> slot_blk (sb s) n \<longrightarrow> blocks dev h k = blocks dev (hw s) k)"
proof -
  let ?B = "blocks dev (hw s)"
  note at = inode_slot[OF assms(2,3)]
  have sz: "unat sizeof_disk_inode = 104" "length (enc_disk_inode d) = 104" using assms(4) by (simp_all add: sizeof_disk_inode_def)
  have len: "length (?B k) = 4096" for k using bd.block_length[OF assms(1)] .
  obtain h where h: "block_modify M 0 (block_id n s) (enc_disk_inode d) sizeof_disk_inode (block_off n) s = Ret sizeof_disk_inode (s\<lparr>hw := h\<rparr>)"
      "blocks dev h = ?B(slot_blk (sb s) n := splice_at (slot_off n) (enc_disk_inode d) (?B (slot_blk (sb s) n)))" "bio_ok M dev (s\<lparr>hw := h\<rparr>)"
    using bd.wr_law[OF assms(1), of "block_id n s" "block_off n" sizeof_disk_inode "enc_disk_inode d"] at sz by auto
  have fit: "slot_off n + length (enc_disk_inode d) \<le> length (?B (slot_blk (sb s) n))" using at(3) sz len by simp
  have "disk_copy (blocks dev h) (sb s) n = d"
    using h(2) take_drop_splice[OF fit] dec_enc_disk_inode[OF assms(4), of "[]"] sz by (simp add: disk_copy_def)
  moreover have "disk_copy (blocks dev h) (sb s) n' = disk_copy ?B (sb s) n'" if "n' \<noteq> n" for n'
    using h(2) slice_splice[OF fit, of "slot_off n'" 104] slots_apart[of n' n "sb s"] that sz
    by (auto simp: disk_copy_def)
  ultimately show ?thesis using h by (intro exI[of _ h]) auto
qed

section \<open>The operations keep the invariant\<close>

lemma same_direct: "d\<lparr>file_size := sz, direct := direct d\<rparr> = d\<lparr>file_size := sz\<rparr>"
  by simp

lemma resize_blocks_ok:
  fixes s :: "('h, 'z) instate_scheme"
  assumes inv: "fs_inv M dev A s" "a \<in> A" and sz: "unat sz \<le> 49152"
    and space: "card (blk_used (blocks dev (hw s)) (sb s)) + nblk (unat sz) \<le> bbn (sb s) + nblk (unat (file_size (dinode (inodes s a))))"
  defines "d \<equiv> dinode (inodes s a)"
  shows "\<exists>h L. resize_blocks M a (DIV_ROUND_UP (file_size d) PG_SIZE) (DIV_ROUND_UP sz PG_SIZE) s =
      Ret 0 (s\<lparr>hw := h, inodes := (inodes s)(a := with_direct (inodes s a) L)\<rparr>) \<and>
    resized (blocks dev (hw s)) (blocks dev h) (sb s) d (d\<lparr>file_size := sz, direct := L\<rparr>) \<and>
    map_ok M dev (block_bitmap_start (sb s)) (block_bitmap_size (sb s)) (s\<lparr>hw := h\<rparr>)"
proof -
  let ?b = "sb s" and ?B = "blocks dev (hw s)" and ?o = "nblk (unat (file_size d))" and ?n = "nblk (unat sz)"
  note I = fs_invD(1-6)[OF inv(1)] fs_invD(7)[OF inv]
  have a: "a \<noteq> 0" and d: "file_ok ?B ?b d" using I(7) by (auto simp: d_def)
  have dk: "di_ok d" "length (direct d) = NDIRECT" "unat (file_size d) \<le> 49152" using d by (simp_all add: file_ok_def di_ok_def)
  note cs = block_counts[OF sz] block_counts[OF dk(3)]
  have le: "?o \<le> 12" "?n \<le> 12" using nblk_max sz dk(3) by auto
  have w: "(of_nat x :: u64) < of_nat y \<longleftrightarrow> x < y" "x \<le> y \<longrightarrow> unat (of_nat y - of_nat x :: u64) = y - x"
    if "x \<le> 12" "y \<le> 12" for x y
    using that small_nat[of x] small_nat[of y] by (auto simp: word_less_nat_alt unat_sub word_le_nat_alt)
  have L: "direct (dinode (inodes s a)) = direct d" by (simp add: d_def)
  consider "?o < ?n" | "?n < ?o" | "?n = ?o" by linarith
  then show ?thesis
  proof cases
    case 1
    then obtain k where k: "?n = ?o + k" by (metis less_imp_add_positive)
    obtain h "is" where g: "grow_blocks M a (of_nat ?o) k s = Ret 0 (s\<lparr>hw := h, inodes := (inodes s)(a := with_direct (inodes s a)
        (take ?o (direct d) @ map (\<lambda>i. of_int (int i) + block_bitmap_start ?b - 1) is @ drop (?o + k) (direct d)))\<rparr>)"
        "length is = k" "distinct is" "set is \<subseteq> {..<bbn ?b} - blk_used ?B ?b" "blk_used (blocks dev h) ?b = blk_used ?B ?b \<union> set is"
        "\<forall>k. k \<notin> map_region ?b \<longrightarrow> blocks dev h k = ?B k" "map_ok M dev (block_bitmap_start ?b) (block_bitmap_size ?b) (s\<lparr>hw := h\<rparr>)"
      using grow_blocks_ok[OF I(1,3) a, of ?o k] dk(2) le k space unfolding L by (auto simp: NDIRECT_def d_def)
    have "resize_blocks M a (DIV_ROUND_UP (file_size d) PG_SIZE) (DIV_ROUND_UP sz PG_SIZE) s = grow_blocks M a (of_nat ?o) k s"
      using 1 k w[OF le] by (simp add: resize_blocks_def cs(2,4))
    then show ?thesis using g(1,7) grown[OF d I(3,4) sz k g(2-6)] by metis
  next
    case 2
    then obtain k where k: "?o = ?n + k" by (metis less_imp_add_positive)
    have f: "map unat (take k (drop ?n (direct d))) = drop ?n (fblocks d)"
      using k by (simp add: fblocks_def take_map drop_map drop_take)
    have "\<forall>x \<in> set (drop ?n (fblocks d)). bbs ?b - 1 \<le> x \<and> x - (bbs ?b - 1) < bbn ?b"
      using file_ok_blocks(1,2)[OF d I(3)] by (meson in_set_dropD)
    then obtain h where g: "shrink_blocks M a (of_nat ?n) k s = Ret () (s\<lparr>hw := h\<rparr>)"
        "blk_used (blocks dev h) ?b = blk_used ?B ?b - (\<lambda>x. x - (bbs ?b - 1)) ` set (drop ?n (fblocks d))"
        "\<forall>k. k \<notin> map_region ?b \<longrightarrow> blocks dev h k = ?B k" "map_ok M dev (block_bitmap_start ?b) (block_bitmap_size ?b) (s\<lparr>hw := h\<rparr>)"
      using shrink_blocks_ok[OF I(1,3) a, of ?n k] dk(1,2) le k unfolding L f by (auto simp: NDIRECT_def di_ok_def)
    have c: "\<not> (of_nat ?o :: u64) < of_nat ?n" "(of_nat ?n :: u64) < of_nat ?o" "unat (of_nat ?o - of_nat ?n :: u64) = k"
      using w(1)[OF le] 2 w(1)[OF le(2,1)] w(2)[OF le(2,1)] k by linarith+
    have "resize_blocks M a (DIV_ROUND_UP (file_size d) PG_SIZE) (DIV_ROUND_UP sz PG_SIZE) s = Ret 0 (s\<lparr>hw := h\<rparr>)"
      using c g(1) by (simp add: resize_blocks_def cs(2,4) ret_def)
    moreover have "s\<lparr>hw := h, inodes := (inodes s)(a := with_direct (inodes s a) (direct d))\<rparr> = s\<lparr>hw := h\<rparr>"
      unfolding L[symmetric] by simp
    ultimately show ?thesis using g(4) shrunk[OF d I(3) sz k g(2,3)]
      by (intro exI[of _ h] exI[of _ "direct d"]) (simp only: same_direct simp_thms)
  next
    case 3
    have "resized ?B ?B ?b d (d\<lparr>file_size := sz\<rparr>)" using shrunk[OF d I(3) sz, of 0 ?B] 3 fblocks_length[OF dk(1)] by simp
    moreover have "resize_blocks M a (DIV_ROUND_UP (file_size d) PG_SIZE) (DIV_ROUND_UP sz PG_SIZE) s = Ret 0 s"
      using 3 by (simp add: resize_blocks_def cs(2,4) ret_def)
    moreover have "s\<lparr>hw := hw s, inodes := (inodes s)(a := with_direct (inodes s a) (direct d))\<rparr> = s"
      unfolding L[symmetric] by simp
    moreover have "s\<lparr>hw := hw s\<rparr> = s" by simp
    ultimately show ?thesis using I(1)
      by (intro exI[of _ "hw s"] exI[of _ "direct d"]) (simp only: same_direct simp_thms)
  qed
qed

lemma resized_data:
  fixes B2 :: "nat \<Rightarrow> u8 list"
  assumes r: "resized B B' b d d'" and d: "file_ok B b d" "layout b" and B2: "\<And>k. k \<notin> map_region b \<Longrightarrow> unat (inode_table_start b) + 4 \<le> k \<Longrightarrow> B2 k = B k"
    and len: "\<And>k. length (B k) = 4096" "\<And>k. length (B2 k) = 4096"
  defines "m \<equiv> min (unat (file_size d)) (unat (file_size d'))"
  shows "take m (fdata B2 d') = take m (fdata B d)"
proof -
  let ?c = "nblk m"
  have c: "m \<le> 4096 * ?c" "?c \<le> nblk (unat (file_size d))" "?c \<le> nblk (unat (file_size d'))"
    using nblk_bounds(1)[of m] by (auto simp: m_def intro!: nblk_mono)
  have ok: "file_ok B' b d'" using r by (simp add: resized_def)
  have l: "length (fblocks d) = nblk (unat (file_size d))" "length (fblocks d') = nblk (unat (file_size d'))"
    using d ok fblocks_length by (auto simp: file_ok_def)
  have same: "take ?c (fblocks d') = take ?c (fblocks d)"
    using c(2,3) l r by (intro nth_equalityI) (auto simp: resized_def)
  have e: "map B2 (take ?c (fblocks d)) = map B (take ?c (fblocks d))"
    using file_ok_blocks(6,7)[OF d] B2 by (intro map_cong) (auto dest!: in_set_takeD)
  have t: "take (4096 * ?c) (concat (map B2 (fblocks d'))) = take (4096 * ?c) (concat (map B (fblocks d)))"
    using concat_chunks(2)[of "fblocks d'" B2 4096 ?c] concat_chunks(2)[of "fblocks d" B 4096 ?c] len by (simp add: same e)
  have "take m (concat (map B2 (fblocks d'))) = take m (concat (map B (fblocks d)))"
    using c(1) arg_cong[OF t, of "take m"] by (simp add: min_absorb1)
  then show ?thesis by (simp add: fdata_def m_def)
qed

lemma resized_inv:
  fixes s :: "('h, 'z) instate_scheme"
  assumes inv: "fs_inv M dev A s" "a \<in> A" and r: "resized (blocks dev (hw s)) B' (sb s) (dinode (inodes s a)) d'"
    and h: "bio_ok M dev (s\<lparr>hw := h\<rparr>)" "\<forall>k. k \<noteq> slot_blk (sb s) (i_no (inodes s a)) \<longrightarrow> blocks dev h k = B' k"
    and cp: "disk_copy (blocks dev h) (sb s) (i_no (inodes s a)) = d'"
      "\<forall>n'. n' \<noteq> i_no (inodes s a) \<longrightarrow> disk_copy (blocks dev h) (sb s) n' = disk_copy B' (sb s) n'"
  defines "s' \<equiv> s\<lparr>hw := h, inodes := (inodes s)(a := (inodes s a)\<lparr>dinode := d'\<rparr>)\<rparr>"
  shows "fs_inv M dev A s'" "blk_used (blocks dev h) (sb s) = blk_used B' (sb s)"
    "\<And>k. k \<notin> map_region (sb s) \<Longrightarrow> unat (inode_table_start (sb s)) + 4 \<le> k \<Longrightarrow> blocks dev h k = blocks dev (hw s) k"
proof -
  let ?b = "sb s" and ?B = "blocks dev (hw s)" and ?x = "inodes s a" and ?off = "\<lambda>k. k - (bbs (sb s) - 1)"
  note I = fs_invD(1-6)[OF inv(1)] fs_invD(7)[OF inv]
  have sl: "slot_blk ?b (i_no ?x) < unat (inode_table_start ?b) + 4" using inode_slot(4)[OF I(3)] I(7) by simp
  have sm: "slot_blk ?b (i_no ?x) \<notin> map_region ?b" using I(3) by (auto simp: layout_def map_region_def slot_blk_def)
  show u: "blk_used (blocks dev h) ?b = blk_used B' ?b" using h(2) sm by (intro blk_used_cong) metis
  show keep: "blocks dev h k = ?B k" if "k \<notin> map_region ?b" "unat (inode_table_start ?b) + 4 \<le> k" for k
    using that h(2) sl r by (auto simp: resized_def)
  have R: "file_ok B' ?b d'" "blk_used ?B ?b - ?off ` set (fblocks (dinode ?x)) \<subseteq> blk_used B' ?b"
      "\<forall>k \<in> set (fblocks d'). k \<in> set (fblocks (dinode ?x)) \<or> ?off k \<notin> blk_used ?B ?b"
    using r by (simp_all add: resized_def)
  have old: "file_ok ?B ?b (dinode ?x)" using I(7) by simp
  have meta: "meta_used (blocks dev h) ?b"
  proof -
    have "?off k \<notin> {..<unat (data_start ?b) - (bbs ?b - 1)}" if "k \<in> set (fblocks (dinode ?x))" for k
      using file_ok_blocks(1,4)[OF old I(3) that] by auto
    then show ?thesis using I(4) R(2) unfolding meta_used_def u by blast
  qed
  have other: "file_ok (blocks dev h) ?b (dinode (inodes s a'))" "set (fblocks d') \<inter> set (fblocks (dinode (inodes s a'))) = {}"
    if a': "a' \<in> A" "a' \<noteq> a" for a'
  proof -
    have ok': "file_ok ?B ?b (dinode (inodes s a'))" and dj: "set (fblocks (dinode ?x)) \<inter> set (fblocks (dinode (inodes s a'))) = {}"
      using fs_invD(7)[OF inv(1) a'(1)] fs_invD(8)[OF inv a'(1)] a'(2) by auto
    have "?off k \<in> blk_used B' ?b" if k: "k \<in> set (fblocks (dinode (inodes s a')))" for k
    proof -
      have "?off k \<noteq> ?off j" if "j \<in> set (fblocks (dinode ?x))" for j
      proof -
        have "k \<noteq> j" using that k dj by blast
        then show ?thesis using file_ok_blocks(1)[OF old I(3) that] file_ok_blocks(1)[OF ok' I(3) k] by linarith
      qed
      then show ?thesis using file_ok_blocks(3)[OF ok' I(3) k] R(2) by blast
    qed
    then show "file_ok (blocks dev h) ?b (dinode (inodes s a'))" using ok' u by (simp add: file_ok_def)
    show "set (fblocks d') \<inter> set (fblocks (dinode (inodes s a'))) = {}"
      using R(3) dj file_ok_blocks(3)[OF ok' I(3)] by blast
  qed
  have dc: "disk_copy (blocks dev h) ?b (i_no (inodes s a')) = dinode (inodes s a')" if a': "a' \<in> A" "a' \<noteq> a" for a'
  proof -
    have n: "i_no (inodes s a') \<noteq> i_no ?x" "i_no (inodes s a') < INODE_CNT_MAX" "disk_copy ?B ?b (i_no (inodes s a')) = dinode (inodes s a')"
      using fs_invD(7)[OF inv(1) a'(1)] fs_invD(8)[OF inv a'(1)] a'(2) by auto
    have "slot_blk ?b (i_no (inodes s a')) \<notin> map_region ?b" using I(3) by (auto simp: layout_def map_region_def slot_blk_def)
    then have "B' (slot_blk ?b (i_no (inodes s a'))) = ?B (slot_blk ?b (i_no (inodes s a')))" using r by (simp add: resized_def)
    then show ?thesis using cp(2) n by (simp add: disk_copy_def)
  qed
  have fin: "file_ok (blocks dev h) ?b d'" using R(1) u by (simp add: file_ok_def)
  have "map_ok M dev (block_bitmap_start ?b) (block_bitmap_size ?b) s'" "room 13 s'"
    using map_ok_hw[OF I(1) h(1)] I(2) by (simp_all add: s'_def)
  then show "fs_inv M dev A s'"
    using I(3,7) meta fin other dc cp(1) fs_invD(7)[OF inv(1)] fs_invD(8)[OF inv(1)]
    unfolding fs_inv_def s'_def by (auto simp: Int_commute)
qed

lemma max_size: "sz > of_nat NDIRECT * BLOCK_SIZE \<longleftrightarrow> \<not> unat sz \<le> 49152"
  by (simp add: NDIRECT_def BLOCK_SIZE_def word_less_nat_alt not_le)

lemma inode_size_change_ok:
  fixes s :: "('h, 'z) instate_scheme"
  assumes inv: "fs_inv M dev A s" "a \<in> A" and sz: "unat sz \<le> 49152"
    and space: "card (blk_used (blocks dev (hw s)) (sb s)) + nblk (unat sz) \<le> bbn (sb s) + nblk (unat (file_size (dinode (inodes s a))))"
  shows "\<exists>h d'. inode_size_change M a sz s = Ret 0 (s\<lparr>hw := h, inodes := (inodes s)(a := (inodes s a)\<lparr>dinode := d'\<rparr>)\<rparr>) \<and>
    fs_inv M dev A (s\<lparr>hw := h, inodes := (inodes s)(a := (inodes s a)\<lparr>dinode := d'\<rparr>)\<rparr>) \<and> file_size d' = sz \<and>
    take (min (unat (file_size (dinode (inodes s a)))) (unat sz)) (fdata (blocks dev h) d') =
      take (unat sz) (fdata (blocks dev (hw s)) (dinode (inodes s a))) \<and>
    (\<forall>a' \<in> A - {a}. fdata (blocks dev h) (dinode (inodes s a')) = fdata (blocks dev (hw s)) (dinode (inodes s a')))"
proof -
  let ?b = "sb s" and ?B = "blocks dev (hw s)" and ?x = "inodes s a" and ?d = "dinode (inodes s a)"
  note I = fs_invD(1-6)[OF inv(1)] fs_invD(7)[OF inv]
  have a: "a \<noteq> 0" "i_no ?x < INODE_CNT_MAX" and d: "file_ok ?B ?b ?d" using I(7) by auto
  obtain h1 L where r: "resize_blocks M a (DIV_ROUND_UP (file_size ?d) PG_SIZE) (DIV_ROUND_UP sz PG_SIZE) s =
      Ret 0 (s\<lparr>hw := h1, inodes := (inodes s)(a := with_direct ?x L)\<rparr>)"
      "resized ?B (blocks dev h1) ?b ?d (?d\<lparr>file_size := sz, direct := L\<rparr>)"
      "map_ok M dev (block_bitmap_start ?b) (block_bitmap_size ?b) (s\<lparr>hw := h1\<rparr>)"
    using resize_blocks_ok[OF inv sz space] by blast
  define d' where "d' = ?d\<lparr>file_size := sz, direct := L\<rparr>"
  define s1 where "s1 = s\<lparr>hw := h1, inodes := (inodes s)(a := ?x\<lparr>dinode := d'\<rparr>)\<rparr>"
  have L: "length (direct d') = NDIRECT" using r(2) by (simp add: d'_def resized_def file_ok_def di_ok_def)
  have io: "bio_ok M dev s1" using r(3) by (simp add: s1_def map_ok_def)
  obtain h where h: "block_modify M 0 (block_id (i_no ?x) s1) (enc_disk_inode d') sizeof_disk_inode (block_off (i_no ?x)) s1 =
      Ret sizeof_disk_inode (s1\<lparr>hw := h\<rparr>)" "bio_ok M dev (s1\<lparr>hw := h\<rparr>)" "disk_copy (blocks dev h) ?b (i_no ?x) = d'"
      "\<forall>n'. n' \<noteq> i_no ?x \<longrightarrow> disk_copy (blocks dev h) ?b n' = disk_copy (blocks dev h1) ?b n'"
      "\<forall>k. k \<noteq> slot_blk ?b (i_no ?x) \<longrightarrow> blocks dev h k = blocks dev h1 k"
    using write_slot[OF io _ a(2) L] I(3) by (auto simp: s1_def)
  have io': "bio_ok M dev (s\<lparr>hw := h\<rparr>)" using h(2) by (simp add: s1_def)
  note step = resized_inv[OF inv r(2)[folded d'_def] io' h(5,3,4)]
  have "with_direct ?x L\<lparr>dinode := (dinode (with_direct ?x L))\<lparr>file_size := sz\<rparr>\<rparr> = ?x\<lparr>dinode := d'\<rparr>"
    by (simp add: with_direct_def d'_def)
  moreover have "block_id (i_no ?x) (s\<lparr>hw := h1, inodes := Y\<rparr>) = block_id (i_no ?x) s1" for Y by (simp add: block_id_def s1_def)
  ultimately have run: "inode_size_change M a sz s = Ret 0 (s\<lparr>hw := h, inodes := (inodes s)(a := ?x\<lparr>dinode := d'\<rparr>)\<rparr>)"
    using sz r(1) h(1) a(1) by (simp add: inode_size_change_def max_size Let_def ret_def s1_def)
  have len: "length (blocks dev h k) = 4096" for k using bd.block_length[OF io'] by simp
  have "take (min (unat (file_size ?d)) (unat sz)) (fdata (blocks dev h) d') = take (min (unat (file_size ?d)) (unat sz)) (fdata ?B ?d)"
    using resized_data[OF r(2)[folded d'_def] d I(3) step(3) I(6) len] by (simp add: d'_def)
  also have "\<dots> = take (unat sz) (fdata ?B ?d)" by (simp add: fdata_def min.commute)
  finally have da: "take (min (unat (file_size ?d)) (unat sz)) (fdata (blocks dev h) d') = take (unat sz) (fdata ?B ?d)" .
  have "fdata (blocks dev h) (dinode (inodes s a')) = fdata ?B (dinode (inodes s a'))" if "a' \<in> A - {a}" for a'
    using that fs_invD(7)[OF inv(1)] by (intro fdata_cong step(3)) (auto dest: file_ok_blocks(6,7)[OF _ I(3)])
  then show ?thesis using run step(1) da by (intro exI[of _ h] exI[of _ d']) (auto simp: d'_def)
qed

lemma fs_inv_data:
  fixes s :: "('h, 'z) instate_scheme"
  assumes inv: "fs_inv M dev A s" "a \<in> A" and h: "bio_ok M dev (s\<lparr>hw := h\<rparr>)"
    and same: "\<forall>k. k \<notin> set (fblocks (dinode (inodes s a))) \<longrightarrow> blocks dev h k = blocks dev (hw s) k"
  shows "fs_inv M dev A (s\<lparr>hw := h\<rparr>)"
    "\<forall>a' \<in> A - {a}. fdata (blocks dev h) (dinode (inodes s a')) = fdata (blocks dev (hw s)) (dinode (inodes s a'))"
proof -
  let ?b = "sb s" and ?B = "blocks dev (hw s)"
  note I = fs_invD(1-6)[OF inv(1)] fs_invD(7)[OF inv]
  have ok: "file_ok ?B ?b (dinode (inodes s a))" using I(7) by simp
  note out = file_ok_blocks(6,7)[OF ok I(3)]
  have u: "blk_used (blocks dev h) ?b = blk_used ?B ?b" using same out(1) by (intro blk_used_cong) blast
  have dc: "disk_copy (blocks dev h) ?b (i_no (inodes s a')) = disk_copy ?B ?b (i_no (inodes s a'))" if "a' \<in> A" for a'
  proof -
    have "slot_blk ?b (i_no (inodes s a')) < unat (inode_table_start ?b) + 4"
      using inode_slot(4)[OF I(3)] fs_invD(7)[OF inv(1) that] by blast
    then have "slot_blk ?b (i_no (inodes s a')) \<notin> set (fblocks (dinode (inodes s a)))" using out(2) by (meson not_le)
    then show ?thesis using same by (simp add: disk_copy_def)
  qed
  have "map_ok M dev (block_bitmap_start ?b) (block_bitmap_size ?b) (s\<lparr>hw := h\<rparr>)" using map_ok_hw[OF I(1) h] .
  then show "fs_inv M dev A (s\<lparr>hw := h\<rparr>)"
    using inv(1) dc unfolding fs_inv_def by (simp add: u file_ok_def meta_used_def)
  show "\<forall>a' \<in> A - {a}. fdata (blocks dev h) (dinode (inodes s a')) = fdata ?B (dinode (inodes s a'))"
    using same fs_invD(8)[OF inv(1) _ inv(2)] by (auto intro!: fdata_cong)
qed

lemma inode_write_ok:
  fixes s :: "('h, 'z) instate_scheme"
  assumes inv: "fs_inv M dev A s" "a \<in> A"
    and n: "0 < unat n" "unat off + unat n \<le> 49152" "unat n = length buf" "unat off \<le> unat (file_size (dinode (inodes s a)))"
    and space: "card (blk_used (blocks dev (hw s)) (sb s)) + nblk (unat off + unat n) \<le>
      bbn (sb s) + nblk (unat (file_size (dinode (inodes s a))))"
  shows "\<exists>h d'. inode_write M a buf n off s = Ret (int (unat n)) (s\<lparr>hw := h, inodes := (inodes s)(a := (inodes s a)\<lparr>dinode := d'\<rparr>)\<rparr>) \<and>
    fs_inv M dev A (s\<lparr>hw := h, inodes := (inodes s)(a := (inodes s a)\<lparr>dinode := d'\<rparr>)\<rparr>) \<and>
    fdata (blocks dev h) d' = splice_at (unat off) buf (fdata (blocks dev (hw s)) (dinode (inodes s a))) \<and>
    (\<forall>a' \<in> A - {a}. fdata (blocks dev h) (dinode (inodes s a')) = fdata (blocks dev (hw s)) (dinode (inodes s a')))"
proof -
  let ?B = "blocks dev (hw s)" and ?x = "inodes s a" and ?d = "dinode (inodes s a)"
  have a: "a \<noteq> 0" using fs_invD(7)[OF inv] by simp
  have add: "unat (off + n) = unat off + unat n" using n(2) by (rule small_words)
  have lend: "length (fdata ?B ?d) = unat (file_size ?d)"
    using fdata_length(1)[of ?d ?B] fs_invD(6,7)[OF inv(1)] inv(2) by (simp add: file_ok_def)
  text \<open>The file is long enough after the first step, and its old bytes are still there.\<close>
  obtain h1 d1 where s1: "(if off + n > file_size ?d then inode_size_change M a (off + n) else ret 0) s =
        Ret 0 (s\<lparr>hw := h1, inodes := (inodes s)(a := ?x\<lparr>dinode := d1\<rparr>)\<rparr>)"
      "fs_inv M dev A (s\<lparr>hw := h1, inodes := (inodes s)(a := ?x\<lparr>dinode := d1\<rparr>)\<rparr>)"
      "unat (file_size d1) = max (unat (file_size ?d)) (unat off + unat n)"
      "take (unat (file_size ?d)) (fdata (blocks dev h1) d1) = fdata ?B ?d"
      "\<forall>a' \<in> A - {a}. fdata (blocks dev h1) (dinode (inodes s a')) = fdata ?B (dinode (inodes s a'))"
  proof (cases "off + n > file_size ?d")
    case True
    then have lt: "unat (file_size ?d) < unat off + unat n" using add by (simp add: word_less_nat_alt)
    have sz: "unat (off + n) \<le> 49152" using add n(2) by simp
    obtain h d' where r: "inode_size_change M a (off + n) s = Ret 0 (s\<lparr>hw := h, inodes := (inodes s)(a := ?x\<lparr>dinode := d'\<rparr>)\<rparr>)"
        "fs_inv M dev A (s\<lparr>hw := h, inodes := (inodes s)(a := ?x\<lparr>dinode := d'\<rparr>)\<rparr>)" "file_size d' = off + n"
        "take (min (unat (file_size ?d)) (unat (off + n))) (fdata (blocks dev h) d') = take (unat (off + n)) (fdata ?B ?d)"
        "\<forall>a' \<in> A - {a}. fdata (blocks dev h) (dinode (inodes s a')) = fdata ?B (dinode (inodes s a'))"
      using inode_size_change_ok[OF inv sz] space add by auto
    show ?thesis using that[of d' h] r lt lend add True by simp
  next
    case False
    then have "unat off + unat n \<le> unat (file_size ?d)" using add by (simp add: word_less_nat_alt)
    then show ?thesis using that[of ?d "hw s"] inv(1) False lend by (simp add: ret_def max_absorb1)
  qed
  let ?s = "s\<lparr>hw := h1, inodes := (inodes s)(a := ?x\<lparr>dinode := d1\<rparr>)\<rparr>"
  note J = fs_invD(1-6)[OF s1(2)] fs_invD(7)[OF s1(2) inv(2)]
  have d1: "file_ok (blocks dev h1) (sb s) d1" "di_ok d1" using J(7) by (simp_all add: file_ok_def)
  obtain h where h: "inode_store M a buf n off ?s = Ret (int (unat n)) (?s\<lparr>hw := h\<rparr>)" "bio_ok M dev (?s\<lparr>hw := h\<rparr>)"
      "fdata (blocks dev h) d1 = splice_at (unat off) buf (fdata (blocks dev h1) d1)"
      "\<forall>k. k \<notin> set (fblocks d1) \<longrightarrow> blocks dev h k = blocks dev h1 k"
    using inode_store_ok[OF J(5,2) a d1(2), of n off buf] n s1(3) by auto
  have run: "inode_write M a buf n off s = Ret (int (unat n)) (s\<lparr>hw := h, inodes := (inodes s)(a := ?x\<lparr>dinode := d1\<rparr>)\<rparr>)"
    using s1(1) h(1) a by (simp add: inode_write_def)
  have "length (fdata (blocks dev h1) d1) = unat (file_size d1)" using fdata_length(1)[OF d1(2)] J(6) by simp
  then have "splice_at (unat off) buf (fdata (blocks dev h1) d1) = splice_at (unat off) buf (fdata ?B ?d)"
    using s1(3,4) n(3,4) lend
    by (cases "unat off + unat n \<le> unat (file_size ?d)") (auto simp: splice_at_def max_def min_absorb1 dest: arg_cong[of _ _ "take (unat off)"])
  moreover note fs_inv_data[OF s1(2) inv(2) h(2)] h(4)
  ultimately show ?thesis using run h(3) s1(5) by (intro exI[of _ h] exI[of _ d1]) auto
qed

section \<open>A small file system\<close>

text \<open>64 blocks: the super block 0, the block map in 1, the inode map in 2, the inode table in 3 to 6, and an empty file with inode
  0 at an address.\<close>

definition demo_sb :: super_block where
  "demo_sb = \<lparr>magic = 0, block_bitmap_start = 1, block_bitmap_size = 64, inode_bitmap_start = 2, inode_table_start = 3,
     inode_cnt_max = 128, data_start = 7\<rparr>"

definition demo_disk :: ata_dev where
  "demo_disk = demo_dev\<lparr>a_sec := (\<lambda>_ i. if i = 8 then replicate 7 1 @ replicate 505 0 else replicate 512 0)\<rparr>"

definition demo_in :: "ata_dev instate" where
  "demo_in = (dkstate.extend demo_dk (instate.fields
     (\<lambda>_. \<lparr>i_no = 0, dinode = \<lparr>file_size = 0, direct = replicate NDIRECT 0\<rparr>, open_cnts = 1\<rparr>) demo_sb []))
     \<lparr>hw := demo_disk, kernel_mem_pool := \<lparr>mp_start = 0xffff800000200000, pool_bitmap = \<lparr>bytes_len = 4, bits = replicate 4 0\<rparr>\<rparr>\<rparr>"

lemma demo_in_simps [simp]:
  "hw demo_in = demo_disk" "sb demo_in = demo_sb" "hd_cnt demo_in = 1" "links demo_in = links demo_dk" "intr_flag demo_in = intr_on"
  "ist2 demo_in = ist2 demo_dk" "sema_value demo_in = sema_value demo_dk" "expecting_intr demo_in = expecting_intr demo_dk"
  "inodes demo_in a = \<lparr>i_no = 0, dinode = \<lparr>file_size = 0, direct = replicate NDIRECT 0\<rparr>, open_cnts = 1\<rparr>"
  "kernel_mem_pool demo_in = \<lparr>mp_start = 0xffff800000200000, pool_bitmap = \<lparr>bytes_len = 4, bits = replicate 4 0\<rparr>\<rparr>"
  "tasks demo_in = tasks demo_dk" "idle_task demo_in = idle_task demo_dk"
  by (simp_all add: demo_in_def dkstate.extend_def instate.fields_def demo_dk_def kbdstate.extend_def hwstate.extend_def demo_hw_def
      iostate.extend_def hwstate.fields_def kbdstate.fields_def dkstate.fields_def)

lemma demo_in_lock [simp]: "p \<noteq> DiskDone 0 \<Longrightarrow> sema_free p demo_in"
  using demo_state_free[of p] by (simp add: sema_free_def lock_free_def tq_def cur_ok_def)

lemma demo_in_bio: "bio_ok demo_ata (\<lambda>d. d) demo_in" "room 13 demo_in"
proof -
  have "used \<lparr>bytes_len = 4, bits = replicate 4 0\<rparr> = {}" by (auto simp: used_def bit_at_def)
  then have f: "free_run (btmp_of KernelPool demo_in) 13 0" by (simp add: free_run_def)
  then show r: "room 13 demo_in" by (auto simp: room_def)
  have "pool_ok KernelPool demo_in" by (simp add: pool_ok_def bitmap_wf_def)
  moreover have "io_ready demo_in"
    using demo_dk_ready by (simp add: io_ready_def dk_ok_def lock_free_def cur_ok_def tq_def)
  moreover have "secs_ok demo_disk" by (simp add: secs_ok_def demo_disk_def)
  ultimately show "bio_ok demo_ata (\<lambda>d. d) demo_in" using demo_ata room_mono[OF r, of 1] by (simp add: bio_ok_def)
qed

lemma demo_block: "blocks (\<lambda>d. d) demo_disk k = (if k = 1 then replicate 7 1 @ replicate 4089 0 else replicate 4096 0)"
proof -
  have "concat (map (\<lambda>i. replicate 512 (0 :: u8)) [m..<m + n]) = replicate (512 * n) 0" for m n
    by (induction n) (simp_all add: replicate_add[symmetric] add.commute)
  note z = this
  show ?thesis
  proof (cases "k = 1")
    case True
    have "[8..<16] = 8 # [9..<9 + 7]" by (simp add: upt_rec)
    moreover have "map (a_sec demo_disk False) [9..<9 + 7] = map (\<lambda>i. replicate 512 0) [9..<9 + 7]"
      by (intro map_cong) (auto simp: demo_disk_def)
    ultimately have "blocks (\<lambda>d. d) demo_disk 1 = (replicate 7 1 @ replicate 505 0) @ replicate (512 * 7) 0"
      using z[of 9 7] by (simp add: blocks_def read_secs_def) (simp add: demo_disk_def)
    then show ?thesis using True by (simp add: replicate_add[symmetric])
  next
    case False
    then have e: "map (a_sec demo_disk False) [8 * k..<8 * k + 8] = map (\<lambda>i. replicate 512 0) [8 * k..<8 * k + 8]"
      by (intro map_cong) (auto simp: demo_disk_def)
    show ?thesis using False z[of "8 * k" 8] by (simp add: blocks_def read_secs_def e)
  qed
qed

lemma demo_used: "blk_used (blocks (\<lambda>d. d) demo_disk) demo_sb = {..<7}"
  by (auto simp: bm_used_def bm_byte_def demo_sb_def demo_block nth_append)

lemma demo_space [simp]:
  "n \<le> 49152 \<Longrightarrow> card (blk_used (blocks (\<lambda>d. d) demo_disk) demo_sb) + nblk n \<le> bbn demo_sb + nblk 0"
  using nblk_max[of n] unfolding demo_used by (simp add: demo_sb_def)

lemma demo_fs: "fs_inv demo_ata (\<lambda>d. d) {16} demo_in"
proof -
  have "map_ok demo_ata (\<lambda>d. d) 1 64 demo_in" using demo_in_bio(1) by (simp add: map_ok_def bio_limit_def)
  moreover have "layout demo_sb" by (simp add: layout_def demo_sb_def nblk_def bio_limit_def)
  moreover have "meta_used (blocks (\<lambda>d. d) demo_disk) demo_sb" unfolding meta_used_def demo_used by (simp add: demo_sb_def)
  moreover have "file_ok B demo_sb \<lparr>file_size = 0, direct = replicate NDIRECT 0\<rparr>" for B
    by (simp add: file_ok_def di_ok_def fblocks_def nblk_def)
  moreover have "disk_copy (blocks (\<lambda>d. d) demo_disk) demo_sb 0 = \<lparr>file_size = 0, direct = replicate NDIRECT 0\<rparr>"
  proof -
    have "foldr (\<lambda>b w. ucast (b :: u8) OR push_bit 8 w) (replicate n 0) 0 = (0 :: u64)" for n by (induction n) simp_all
    then have "dec64 (replicate n 0) = 0" for n by (simp add: dec64_def)
    then show ?thesis
      by (simp add: disk_copy_def demo_block slot_blk_def slot_off_def demo_sb_def dec_disk_inode_def map_replicate_const)
  qed
  ultimately show ?thesis using demo_in_bio(2) by (simp add: fs_inv_def demo_sb_def INODE_CNT_MAX_def)
qed

section \<open>Transfers of no bytes\<close>

text \<open>\<^verbatim>\<open>bitmap_alloc\<close> never finds a run of length 0, because its inner loop starts at length 1.\<close>

lemma scan_run_zero: "0 < j \<Longrightarrow> scan_run b i 0 j = Inr m \<Longrightarrow> 0 < m"
proof (induction b i "0 :: nat" j rule: scan_run.induct)
  case (1 b i j)
  then show ?case by (subst (asm) (2) scan_run.simps) (auto split: sum.splits if_splits)
qed

lemma scan_run_error: "scan_run b i c j = Inl e \<Longrightarrow> e = OutOfBounds"
proof (induction b i c j rule: scan_run.induct)
  case (1 b i c j)
  then show ?case by (subst (asm) (2) scan_run.simps) (auto simp: bitmap_read_eq split: sum.splits if_splits)
qed

lemma alloc_from_zero: "alloc_from b 0 i = Inr (-1, b) \<or> alloc_from b 0 i = Inl OutOfBounds"
proof (induction b "0 :: nat" i rule: alloc_from.induct)
  case (1 b i)
  then show ?case
    using scan_run_zero[of 1 b i] scan_run_error[of b i 0 1]
    by (subst (1 2) alloc_from.simps) (auto simp: bitmap_read_eq split: sum.splits if_splits)
qed

lemma alloc_pages_zero:
  assumes "sema_free KernelPoolLock s"
  shows "\<exists>e. alloc_pages 0 s = Fail e"
  using alloc_from_zero[of "btmp_of KernelPool s" 0] pool_alloc_eq[of KernelPool s 0 "-1"] pool_alloc_fails[of KernelPool s 0] assms
  by (auto simp: alloc_pages_def bitmap_alloc_def)

section \<open>Properties\<close>

text \<open>C24. Writing a file. While the file system's invariant holds, a write that starts inside a file or at its end, stays
  below the largest file size and finds enough free blocks returns the number of bytes and stores them at that
  position of the file, which grows when they go past its end; no other file changes, the invariant still holds and
  the inode on the disk is the one in memory.\<close>

theorem inode_write_splices:
  assumes "fs_inv M dev A s" "a \<in> A" "0 < unat n" "unat off + unat n \<le> 49152" "unat n = length buf"
    "unat off \<le> unat (file_size (dinode (inodes s a)))"
    "card (blk_used (blocks dev (hw s)) (sb s)) + nblk (unat off + unat n) \<le>
      bbn (sb s) + nblk (unat (file_size (dinode (inodes s a))))"
  shows "\<exists>s'. inode_write M a buf n off s = Ret (int (unat n)) s' \<and> fs_inv M dev A s' \<and>
    fdata (blocks dev (hw s')) (dinode (inodes s' a)) =
      splice_at (unat off) buf (fdata (blocks dev (hw s)) (dinode (inodes s a))) \<and>
    (\<forall>a' \<in> A. a' = a \<or> inodes s' a' = inodes s a' \<and>
      fdata (blocks dev (hw s')) (dinode (inodes s' a')) = fdata (blocks dev (hw s)) (dinode (inodes s a')))"
proof -
  obtain h d' where r: "inode_write M a buf n off s = Ret (int (unat n)) (s\<lparr>hw := h, inodes := (inodes s)(a := (inodes s a)\<lparr>dinode := d'\<rparr>)\<rparr>)"
      "fs_inv M dev A (s\<lparr>hw := h, inodes := (inodes s)(a := (inodes s a)\<lparr>dinode := d'\<rparr>)\<rparr>)"
      "fdata (blocks dev h) d' = splice_at (unat off) buf (fdata (blocks dev (hw s)) (dinode (inodes s a)))"
      "\<forall>a' \<in> A - {a}. fdata (blocks dev h) (dinode (inodes s a')) = fdata (blocks dev (hw s)) (dinode (inodes s a'))"
    using inode_write_ok[OF assms] by blast
  then show ?thesis
    by (intro exI[of _ "s\<lparr>hw := h, inodes := (inodes s)(a := (inodes s a)\<lparr>dinode := d'\<rparr>)\<rparr>"]) auto
qed

theorem inode_write_splices_witness:
  "\<exists>s'. inode_write demo_ata 16 [104, 105] 2 0 demo_in = Ret 2 s' \<and>
    fdata (blocks (\<lambda>d. d) (hw s')) (dinode (inodes s' 16)) = [104, 105]"
  using inode_write_splices[OF demo_fs, of 16 2 0 "[104, 105]"] by (auto simp: splice_at_def fdata_def)

text \<open>What is written is read. After such a write, reading the same number of bytes at the same position gives exactly
  the bytes that were written.\<close>

theorem inode_write_read:
  assumes "fs_inv M dev A s" "a \<in> A" "0 < unat n" "unat off + unat n \<le> 49152" "unat n = length buf"
    "unat off \<le> unat (file_size (dinode (inodes s a)))"
    "card (blk_used (blocks dev (hw s)) (sb s)) + nblk (unat off + unat n) \<le>
      bbn (sb s) + nblk (unat (file_size (dinode (inodes s a))))"
  shows "\<exists>s' s''. inode_write M a buf n off s = Ret (int (unat n)) s' \<and> inode_read M a n off s' = Ret buf s'' \<and>
    blocks dev (hw s'') = blocks dev (hw s') \<and> inodes s'' = inodes s'"
proof -
  let ?x = "inodes s a"
  obtain h d' where r: "inode_write M a buf n off s = Ret (int (unat n)) (s\<lparr>hw := h, inodes := (inodes s)(a := ?x\<lparr>dinode := d'\<rparr>)\<rparr>)"
      "fs_inv M dev A (s\<lparr>hw := h, inodes := (inodes s)(a := ?x\<lparr>dinode := d'\<rparr>)\<rparr>)"
      "fdata (blocks dev h) d' = splice_at (unat off) buf (fdata (blocks dev (hw s)) (dinode ?x))"
    using inode_write_ok[OF assms] by blast
  let ?s = "s\<lparr>hw := h, inodes := (inodes s)(a := ?x\<lparr>dinode := d'\<rparr>)\<rparr>"
  note J = fs_invD(1-6)[OF r(2)] fs_invD(7)[OF r(2) assms(2)]
  have d': "di_ok d'" "a \<noteq> 0" using J(7) by (simp_all add: file_ok_def)
  have "length (fdata (blocks dev (hw s)) (dinode ?x)) = unat (file_size (dinode ?x))"
    using fdata_length(1)[of "dinode ?x"] fs_invD(6,7)[OF assms(1)] assms(2) by (simp add: file_ok_def)
  then have buf: "take (length buf) (drop (unat off) (fdata (blocks dev h) d')) = buf" "unat off < length (fdata (blocks dev h) d')"
    using r(3) assms(3,5,6) by (simp_all add: splice_at_def)
  have lend: "length (fdata (blocks dev h) d') = unat (file_size d')" using fdata_length(1)[OF d'(1)] J(6) by simp
  obtain h' where "inode_read M a n off ?s = Ret buf (?s\<lparr>hw := h'\<rparr>)" "blocks dev h' = blocks dev h"
    using inode_read_ok[OF J(5,2) d'(2,1), of n off] assms(3-5) buf lend by auto
  then show ?thesis using r(1) by (intro exI[of _ ?s] exI[of _ "?s\<lparr>hw := h'\<rparr>"]) auto
qed

theorem inode_write_read_witness:
  "\<exists>s' s''. inode_write demo_ata 16 [104, 105] 2 0 demo_in = Ret 2 s' \<and> inode_read demo_ata 16 2 0 s' = Ret [104, 105] s''"
  using inode_write_read[OF demo_fs, of 16 2 0 "[104, 105]"] by auto

text \<open>C25. Changing the size of a file, up or down, keeps the file system's invariant: blocks that are given up become free,
  blocks that are taken were free, metadata stays marked, no block belongs to two files, and the bytes up to the smaller
  of the two sizes are kept.\<close>

theorem inode_size_change_invariant:
  assumes "fs_inv M dev A s" "a \<in> A" "unat sz \<le> 49152"
    "card (blk_used (blocks dev (hw s)) (sb s)) + nblk (unat sz) \<le> bbn (sb s) + nblk (unat (file_size (dinode (inodes s a))))"
  shows "\<exists>s'. inode_size_change M a sz s = Ret 0 s' \<and> fs_inv M dev A s' \<and> file_size (dinode (inodes s' a)) = sz \<and>
    take (min (unat (file_size (dinode (inodes s a)))) (unat sz)) (fdata (blocks dev (hw s')) (dinode (inodes s' a))) =
      take (unat sz) (fdata (blocks dev (hw s)) (dinode (inodes s a))) \<and>
    (\<forall>a' \<in> A. a' = a \<or> fdata (blocks dev (hw s')) (dinode (inodes s' a')) = fdata (blocks dev (hw s)) (dinode (inodes s a')))"
proof -
  obtain h d' where r: "inode_size_change M a sz s = Ret 0 (s\<lparr>hw := h, inodes := (inodes s)(a := (inodes s a)\<lparr>dinode := d'\<rparr>)\<rparr>)"
      "fs_inv M dev A (s\<lparr>hw := h, inodes := (inodes s)(a := (inodes s a)\<lparr>dinode := d'\<rparr>)\<rparr>)" "file_size d' = sz"
      "take (min (unat (file_size (dinode (inodes s a)))) (unat sz)) (fdata (blocks dev h) d') =
        take (unat sz) (fdata (blocks dev (hw s)) (dinode (inodes s a)))"
      "\<forall>a' \<in> A - {a}. fdata (blocks dev h) (dinode (inodes s a')) = fdata (blocks dev (hw s)) (dinode (inodes s a'))"
    using inode_size_change_ok[OF assms] by blast
  then show ?thesis
    by (intro exI[of _ "s\<lparr>hw := h, inodes := (inodes s)(a := (inodes s a)\<lparr>dinode := d'\<rparr>)\<rparr>"]) auto
qed

theorem inode_size_change_invariant_witness:
  "\<exists>s'. inode_size_change demo_ata 16 5000 demo_in = Ret 0 s' \<and> fs_inv demo_ata (\<lambda>d. d) {16} s' \<and>
    file_size (dinode (inodes s' 16)) = 5000"
  using inode_size_change_invariant[OF demo_fs, of 16 5000] by auto



end
