(* ===== verification/Dir.thy ===== *)
theory Dir
  imports Filedata CString
begin

text \<open>
  Directories and path names of \<^verbatim>\<open>fs/dir.c\<close>: searching, adding and deleting directory entries, and \<^verbatim>\<open>path_prase\<close>. The system
  calls of that file are in theory \<open>File\<close>, because \<^verbatim>\<open>sys_mkdir\<close> calls \<^verbatim>\<open>sys_mknod\<close>.

  A directory entry is the record of \<^verbatim>\<open>struct dirent\<close>; its 32 bytes in memory and on the disk are \<open>enc_dirent\<close>, the last
  four of them padding. A name is the list of the bytes from the pointer to the end of the object it points into. What
  an uninitialised structure holds is an argument (\<open>u\<close>).

  A directory whose names are terminated and different refines a finite map from names to entries.
\<close>

unbundle bit_operations_syntax

section \<open>Data (fs/dir.h)\<close>

definition FT_DIR :: u32 where "FT_DIR = 0"
definition FT_CHR :: u32 where "FT_CHR = 1"
definition FT_REG :: u32 where "FT_REG = 2"
definition FT_FIFO :: u32 where "FT_FIFO = 3"

definition DIRENT_SIZE :: int where "DIRENT_SIZE = 32"
definition MAX_FILE_NAME_LEN :: nat where "MAX_FILE_NAME_LEN = 16"

definition DIRENT_ISNT_EXIST :: int where "DIRENT_ISNT_EXIST = 3"
definition DIRENT_ALREADY_EXIST :: int where "DIRENT_ALREADY_EXIST = 4"
definition FILE_ISNT_EXIST :: int where "FILE_ISNT_EXIST = 5"
definition ISNT_DIR :: int where "ISNT_DIR = 6"
definition DIR_ISNT_EMPTY :: int where "DIR_ISNT_EMPTY = 7"

definition ULONG_MAX :: u64 where "ULONG_MAX = - 1"
definition SLASH :: u8 where "SLASH = 47"

record dirent =
  de_i_no :: u64
  filename :: "u8 list"
  f_type :: u32
  de_pad :: "u8 list"

definition enc32 :: "u32 \<Rightarrow> u8 list" where
  "enc32 w = map (\<lambda>i. ucast (drop_bit (8 * i) w)) [0..<4]"

definition dec32 :: "u8 list \<Rightarrow> u32" where
  "dec32 bs = foldr (\<lambda>b w. ucast b OR push_bit 8 w) (take 4 bs) 0"

definition enc_dirent :: "dirent \<Rightarrow> u8 list" where
  "enc_dirent e = enc64 (de_i_no e) @ filename e @ enc32 (f_type e) @ de_pad e"

definition dec_dirent :: "u8 list \<Rightarrow> dirent" where
  "dec_dirent bs = \<lparr>de_i_no = dec64 bs, filename = take MAX_FILE_NAME_LEN (drop 8 bs), f_type = dec32 (drop 24 bs), de_pad = drop 28 bs\<rparr>"

text \<open>A structure into which the first bytes are read from a file.\<close>

definition fill_dirent :: "dirent \<Rightarrow> u8 list \<Rightarrow> dirent" where
  "fill_dirent e data = dec_dirent (data @ drop (length data) (enc_dirent e))"

text \<open>The bytes from \<^verbatim>\<open>de->filename\<close> to the end of the structure.\<close>

definition name_mem :: "dirent \<Rightarrow> u8 list" where
  "name_mem e = drop 8 (enc_dirent e)"

section \<open>The code\<close>

text \<open>
  The loop of \<^verbatim>\<open>dirent_search\<close> up to the index \<open>bound\<close>. The buffer \<^verbatim>\<open>de\<close> stands behind the name, so that the comparison stops
  at its end. \<open>dirent_search\<close> divides as C does, towards zero.
\<close>

function dirent_scan :: "'h machine \<Rightarrow> u64 \<Rightarrow> u8 list \<Rightarrow> int \<Rightarrow> int \<Rightarrow> (('h, 'z) instate_scheme, int) kcall" where
  "dirent_scan M dir_inode name bound idx =
     (if idx = bound then ret idx
      else if idx \<ge> 2 ^ 63 - 1 then fail Diverges
      else bnd (inode_read M dir_inode (of_int DIRENT_SIZE) (of_int (idx * DIRENT_SIZE))) (\<lambda>de.
           bnd (ASSERT (length de = 32)) (\<lambda>_.
           bnd (of_res (strcmp (name @ de) (length name + 8) 0)) (\<lambda>c.
           if c = 0 then ret idx else dirent_scan M dir_inode name bound (idx + 1)))))"
  by pat_completeness auto
termination by (relation "measure (\<lambda>(M, dir_inode, name, bound, idx). nat (2 ^ 63 - idx))") auto

declare dirent_scan.simps [simp del]

definition dirent_cnt :: "int \<Rightarrow> int" where
  "dirent_cnt dir_size = (if dir_size < 0 then - (- dir_size div DIRENT_SIZE) else dir_size div DIRENT_SIZE)"

definition dirent_search :: "'h machine \<Rightarrow> u64 \<Rightarrow> u8 list \<Rightarrow> (('h, 'z) instate_scheme, int) kcall" where
  "dirent_search M dir_inode name =
     bnd (get_inode dir_inode) (\<lambda>x.
     let cnt = dirent_cnt (sint (file_size (dinode x))) in
     bnd (dirent_scan M dir_inode name cnt 0) (\<lambda>idx.
     if idx = cnt then ret (- DIRENT_ISNT_EXIST) else ret idx))"

definition dirent_add :: "'h machine \<Rightarrow> u64 \<Rightarrow> dirent \<Rightarrow> (('h, 'z) instate_scheme, int) kcall" where
  "dirent_add M dir_inode de =
     bnd (dirent_search M dir_inode (name_mem de)) (\<lambda>r.
     if r = - DIRENT_ISNT_EXIST
     then bnd (get_inode dir_inode) (\<lambda>x.
          inode_write M dir_inode (enc_dirent de) (of_int DIRENT_SIZE) (file_size (dinode x)))
     else ret (- DIRENT_ALREADY_EXIST))"

definition dirent_delete :: "'h machine \<Rightarrow> dirent \<Rightarrow> u64 \<Rightarrow> u8 list \<Rightarrow> (('h, 'z) instate_scheme, int) kcall" where
  "dirent_delete M u dir_inode name =
     bnd (get_inode dir_inode) (\<lambda>x.
     let dir_size = file_size (dinode x) in
     bnd (dirent_search M dir_inode name) (\<lambda>idx.
     if idx = - DIRENT_ISNT_EXIST then ret idx
     else bnd (inode_read M dir_inode (of_int DIRENT_SIZE) (dir_size - of_int DIRENT_SIZE)) (\<lambda>data.
          let end_de = fill_dirent u data in
          bnd (inode_write M dir_inode (enc_dirent end_de) (of_int DIRENT_SIZE) (of_int (idx * DIRENT_SIZE))) (\<lambda>_.
          bnd (inode_size_change M dir_inode (dir_size - of_int DIRENT_SIZE)) (\<lambda>_.
          ret 0)))))"

text \<open>
  The loop of \<^verbatim>\<open>path_prase\<close>, which gives \<open>old_idx\<close>, \<open>idx\<close> and the inode where it stops; the two \<^verbatim>\<open>break\<close> statements stop it
  at a \<^verbatim>\<open>/\<close>. The memory that \<^verbatim>\<open>name\<close> and \<^verbatim>\<open>de\<close> point to is held in the lists \<open>name\<close> and \<open>de\<close>.
\<close>

function path_walk ::
  "'h machine \<Rightarrow> dirent \<Rightarrow> u8 list \<Rightarrow> nat \<Rightarrow> nat \<Rightarrow> u64 \<Rightarrow> (('h, 'z) instate_scheme, nat \<times> nat \<times> u64) kcall" where
  "path_walk M u path old_idx idx inode =
     (if idx \<ge> length path then fail OutOfBounds
      else if path ! idx = 0 then ret (old_idx, idx, inode)
      else if path ! idx \<noteq> SLASH then path_walk M u path old_idx (idx + 1) inode
      else let name_len = idx - old_idx in
           bnd (kalloc (of_nat name_len)) (\<lambda>p_name.
           bnd (of_res (copy_out path (old_idx + 1) name_len)) (\<lambda>buf.
           let name = buf[name_len - 1 := 0] in
           bnd (inode_lock_down inode) (\<lambda>_.
           bnd (dirent_search M inode name) (\<lambda>dir_idx.
           if dir_idx < 0 then ret (old_idx, idx, inode)
           else bnd (kalloc (of_int DIRENT_SIZE)) (\<lambda>p_de.
                bnd (inode_read M inode (of_int DIRENT_SIZE) (of_int (dir_idx * DIRENT_SIZE))) (\<lambda>data.
                let de = fill_dirent u data in
                bnd (inode_lock_up inode) (\<lambda>_.
                if f_type de \<noteq> FT_DIR then ret (old_idx, idx, inode)
                else bnd (inode_close inode) (\<lambda>_.
                     bnd (inode_open M (de_i_no de)) (\<lambda>inode.
                     bnd (kfree p_de) (\<lambda>_.
                     bnd (kfree p_name) (\<lambda>_.
                     path_walk M u path idx (idx + 1) inode))))))))))))"
  by pat_completeness auto
termination by (relation "measure (\<lambda>(M, u, path, old_idx, idx, inode). length path - idx)") auto

declare path_walk.simps [simp del]

text \<open>The last component: \<^verbatim>\<open>de_buf\<close> becomes the entry found, or carries the name that is missing.\<close>

definition path_last ::
  "'h machine \<Rightarrow> u8 list \<Rightarrow> nat \<Rightarrow> nat \<Rightarrow> u64 \<Rightarrow> dirent \<Rightarrow> (('h, 'z) instate_scheme, dirent) kcall" where
  "path_last M path old_idx idx inode de_buf =
     bnd (of_res (ld path (old_idx + 1))) (\<lambda>c.
     bnd (if c \<noteq> 0 then dirent_search M inode (drop (old_idx + 1) path) else ret 0) (\<lambda>de_idx.
     if de_idx < 0
     then bnd (of_res (copy_in (enc_dirent (de_buf\<lparr>de_i_no := ULONG_MAX\<rparr>)) 8 (drop (old_idx + 1) path) (idx - old_idx))) (\<lambda>bs.
          ret (dec_dirent bs))
     else bnd (inode_read M inode (of_int DIRENT_SIZE) (of_int (de_idx * DIRENT_SIZE))) (\<lambda>data.
          ret (fill_dirent de_buf data))))"

definition path_prase ::
  "'h machine \<Rightarrow> dirent \<Rightarrow> u8 list \<Rightarrow> dirent \<Rightarrow> (('h, 'z) instate_scheme, int \<times> dirent) kcall" where
  "path_prase M u path de_buf =
     bnd (inode_open M 0) (\<lambda>inode.
     bnd (path_walk M u path 0 1 inode) (\<lambda>(old_idx, idx, inode).
     bnd (of_res (ld path idx)) (\<lambda>c.
     if c \<noteq> 0
     then bnd (inode_close inode) (\<lambda>_. ret (- DIRENT_ISNT_EXIST, de_buf))
     else bnd (inode_lock_down inode) (\<lambda>_.
          bnd (path_last M path old_idx idx inode de_buf) (\<lambda>de_buf.
          bnd (get_inode inode) (\<lambda>x.
          bnd (inode_lock_up inode) (\<lambda>_.
          ret (sint (i_no x), de_buf))))))))"

lemmas dir_defs [kdefs] =
  dirent_search_def dirent_add_def dirent_delete_def path_last_def path_prase_def

section \<open>Encoding\<close>

lemma bit_dec:
  fixes acc :: "'a :: len word"
  shows "bit (foldr (\<lambda>b w. ucast b OR push_bit 8 w) (bs :: u8 list) (0 :: 'a :: len word)) n \<longleftrightarrow>
    n < LENGTH('a) \<and> n div 8 < length bs \<and> bit (bs ! (n div 8)) (n mod 8)"
proof (induction bs arbitrary: n)
  case (Cons b bs)
  show ?case
  proof (cases "n < 8")
    case False
    then obtain m where m: "n = m + 8" by (metis le_add_diff_inverse2 not_less)
    have "\<not> bit b n" using False bit_imp_le_length[of b n] by auto
    moreover have "n div 8 = Suc (m div 8)" "n mod 8 = m mod 8" using m by simp_all
    ultimately show ?thesis using Cons.IH[of m] m by (auto simp: bit_simps)
  qed (auto simp: bit_simps)
qed simp

lemma enc_dec_bytes:
  assumes "length bs = k" "8 * k = LENGTH('a :: len)"
  shows "map (\<lambda>i. ucast (drop_bit (8 * i) (foldr (\<lambda>b w. ucast b OR push_bit 8 w) bs (0 :: 'a :: len word))) :: u8) [0..<k] = bs"
proof (rule nth_equalityI)
  fix i assume "i < length (map (\<lambda>i. ucast (drop_bit (8 * i) (foldr (\<lambda>b w. ucast b OR push_bit 8 w) bs (0 :: 'a word))) :: u8) [0..<k])"
  then have i: "i < k" by simp
  have "bit (ucast (drop_bit (8 * i) (foldr (\<lambda>b w. ucast b OR push_bit 8 w) bs (0 :: 'a word))) :: u8) n = bit (bs ! i) n" for n
    using i assms bit_imp_le_length[of "bs ! i" n] by (auto simp: bit_simps bit_dec)
  then show "map (\<lambda>i. ucast (drop_bit (8 * i) (foldr (\<lambda>b w. ucast b OR push_bit 8 w) bs (0 :: 'a word))) :: u8) [0..<k] ! i = bs ! i"
    using i by (simp add: bit_eq_iff)
qed (simp add: assms)

lemma enc64_dec64: "8 \<le> length bs \<Longrightarrow> enc64 (dec64 bs) = take 8 bs"
  using enc_dec_bytes[of "take 8 bs" 8, where ?'a = 64] by (simp add: enc64_def dec64_def)

lemma enc32_dec32: "4 \<le> length bs \<Longrightarrow> enc32 (dec32 bs) = take 4 bs"
  using enc_dec_bytes[of "take 4 bs" 4, where ?'a = 32] by (simp add: enc32_def dec32_def)

lemma length_enc32 [simp]: "length (enc32 w) = 4"
  by (simp add: enc32_def)

lemma dec32_enc32 [simp]: "dec32 (enc32 w @ bs) = w"
proof (rule bit_eqI)
  fix n assume "possible_bit TYPE(u32) n"
  then have n: "n < 32" by simp
  then have "n div 8 < 4" by simp
  moreover from this have "[0..<4] ! (n div 8) = n div 8" by simp
  ultimately show "bit (dec32 (enc32 w @ bs)) n = bit w n"
    using n by (simp add: dec32_def bit_dec enc32_def bit_simps)
qed

definition dent_wf :: "dirent \<Rightarrow> bool" where
  "dent_wf e \<longleftrightarrow> length (filename e) = MAX_FILE_NAME_LEN \<and> length (de_pad e) = 4"

lemma length_enc_dirent [simp]: "dent_wf e \<Longrightarrow> length (enc_dirent e) = 32"
  by (simp add: enc_dirent_def dent_wf_def MAX_FILE_NAME_LEN_def)

lemma dec_enc_dirent [simp]: "dent_wf e \<Longrightarrow> dec_dirent (enc_dirent e) = e"
  by (simp add: dec_dirent_def enc_dirent_def dent_wf_def MAX_FILE_NAME_LEN_def)

lemma enc_dec_dirent: "length bs = 32 \<Longrightarrow> enc_dirent (dec_dirent bs) = bs"
proof -
  assume l: "length bs = 32"
  have "take 4 (drop 24 bs) @ drop 28 bs = drop 24 bs"
    using append_take_drop_id[of 4 "drop 24 bs"] by simp
  moreover have "take 16 (drop 8 bs) @ drop 24 bs = drop 8 bs"
    using append_take_drop_id[of 16 "drop 8 bs"] by simp
  ultimately show ?thesis
    using l by (simp add: enc_dirent_def dec_dirent_def enc64_dec64 enc32_dec32 MAX_FILE_NAME_LEN_def)
qed

lemma dent_wf_dec [simp]: "length bs = 32 \<Longrightarrow> dent_wf (dec_dirent bs)"
  by (simp add: dent_wf_def dec_dirent_def MAX_FILE_NAME_LEN_def)

lemma fill_dirent_full: "length data = 32 \<Longrightarrow> dent_wf u \<Longrightarrow> fill_dirent u data = dec_dirent data"
  by (simp add: fill_dirent_def)

section \<open>The entries of a directory\<close>

text \<open>The entries in the bytes of a directory, and the name of an entry.\<close>

definition dents :: "u8 list \<Rightarrow> dirent list" where
  "dents bs = map (\<lambda>i. dec_dirent (take 32 (drop (32 * i) bs))) [0..<length bs div 32]"

definition de_name :: "dirent \<Rightarrow> u8 list" where
  "de_name e = takeWhile (\<lambda>c. c \<noteq> 0) (filename e)"

definition named :: "dirent \<Rightarrow> bool" where
  "named e \<longleftrightarrow> dent_wf e \<and> 0 \<in> set (filename e)"

lemma length_dents [simp]: "length (dents bs) = length bs div 32"
  by (simp add: dents_def)

lemma nth_dents: "i < length bs div 32 \<Longrightarrow> dents bs ! i = dec_dirent (take 32 (drop (32 * i) bs))"
  by (simp add: dents_def)

lemma dents_take: "32 * k \<le> length bs \<Longrightarrow> dents (take (32 * k) bs) = take k (dents bs)"
proof (rule nth_equalityI)
  assume l: "32 * k \<le> length bs"
  then have k: "k \<le> length bs div 32" by simp
  then show "length (dents (take (32 * k) bs)) = length (take k (dents bs))" using l by (simp add: min_def)
  fix i assume "i < length (dents (take (32 * k) bs))"
  then have i: "i < k" using l by (simp add: min_def split: if_splits)
  then have "32 \<le> 32 * k - 32 * i" by simp
  then show "dents (take (32 * k) bs) ! i = take k (dents bs) ! i"
    using i k l by (simp add: nth_dents min_def drop_take)
qed

lemma dents_update:
  assumes "i < length bs div 32" "dent_wf e"
  shows "dents (splice_at (32 * i) (enc_dirent e) bs) = (dents bs)[i := e]"
proof (rule nth_equalityI)
  have l: "32 * i + length (enc_dirent e) \<le> length bs" using assms by simp
  then show len: "length (dents (splice_at (32 * i) (enc_dirent e) bs)) = length ((dents bs)[i := e])" by simp
  fix j assume "j < length (dents (splice_at (32 * i) (enc_dirent e) bs))"
  then have j: "j < length bs div 32" unfolding len by simp
  show "dents (splice_at (32 * i) (enc_dirent e) bs) ! j = (dents bs)[i := e] ! j"
  proof (cases "j = i")
    case True
    then show ?thesis using j l assms take_drop_splice[OF l] by (simp add: nth_dents)
  next
    case False
    then have "32 * j + 32 \<le> 32 * i \<or> 32 * i + length (enc_dirent e) \<le> 32 * j" using assms(2) by auto
    then show ?thesis using j l False slice_splice[OF l, of "32 * j" 32] by (simp add: nth_dents)
  qed
qed

lemma dents_append: "32 dvd length bs \<Longrightarrow> dent_wf e \<Longrightarrow> dents (bs @ enc_dirent e) = dents bs @ [e]"
proof (rule nth_equalityI)
  assume a: "32 dvd length bs" "dent_wf e"
  then obtain k where k: "length bs = 32 * k" by (elim dvdE)
  show "length (dents (bs @ enc_dirent e)) = length (dents bs @ [e])" using a k by simp
  fix i assume "i < length (dents (bs @ enc_dirent e))"
  then have i: "i \<le> k" using a k by simp
  show "dents (bs @ enc_dirent e) ! i = (dents bs @ [e]) ! i"
  proof (cases "i = k")
    case True
    then show ?thesis using a k by (simp add: nth_dents nth_append)
  next
    case False
    then have "32 * i + 32 \<le> 32 * k" using i by simp
    then show ?thesis using a k i False by (simp add: nth_dents nth_append)
  qed
qed

lemma cstr_extend: "cstr m p xs \<Longrightarrow> cstr (m @ m') p xs"
  by (induction xs arbitrary: p) (auto simp: nth_append)

lemma cstr_behind: "cstr m p xs \<Longrightarrow> cstr (m0 @ m) (length m0 + p) xs"
  by (induction xs arbitrary: p) (auto simp: nth_append simp flip: add_Suc_right)

lemma length_takeWhile_less: "x \<in> set xs \<Longrightarrow> \<not> P x \<Longrightarrow> length (takeWhile P xs) < length xs"
  by (induction xs) auto

lemma cstr_takeWhile: "0 \<in> set xs \<Longrightarrow> cstr (xs @ ys) 0 (takeWhile (\<lambda>c. c \<noteq> 0) xs)"
proof (rule cstr_nth)
  assume z: "0 \<in> set xs"
  let ?t = "takeWhile (\<lambda>c. c \<noteq> 0) xs"
  show "0 \<notin> set ?t" by (metis (mono_tags) set_takeWhileD)
  have l: "length ?t < length xs" using z by (rule length_takeWhile_less) simp
  then show "0 + length ?t < length (xs @ ys)" by simp
  fix i assume i: "i \<le> length ?t"
  then show "(xs @ ys) ! (0 + i) = (?t @ [0]) ! i"
    using l nth_length_takeWhile[OF l] takeWhile_nth[of i "\<lambda>c. c \<noteq> 0" xs] by (auto simp: nth_append)
qed

lemma name_of_bytes:
  assumes "length bs = 32" "named (dec_dirent bs)"
  shows "cstr bs 8 (de_name (dec_dirent bs))"
proof -
  have "0 \<in> set (take 16 (drop 8 bs))" using assms(2) by (simp add: named_def dec_dirent_def MAX_FILE_NAME_LEN_def)
  then have "cstr (take 16 (drop 8 bs) @ drop 24 bs) 0 (de_name (dec_dirent bs))"
    unfolding de_name_def using cstr_takeWhile[of "take 16 (drop 8 bs)" "drop 24 bs"]
    by (simp add: dec_dirent_def MAX_FILE_NAME_LEN_def)
  moreover have "take 16 (drop 8 bs) @ drop 24 bs = drop 8 bs"
    using append_take_drop_id[of 16 "drop 8 bs"] by simp
  ultimately show ?thesis using cstr_behind[of "drop 8 bs" 0 _ "take 8 bs"] assms(1) by simp
qed

lemma name_mem_ok: "named e \<Longrightarrow> cstr (name_mem e) 0 (de_name e)"
  using cstr_takeWhile[of "filename e" "enc32 (f_type e) @ de_pad e"]
  by (simp add: named_def name_mem_def enc_dirent_def de_name_def)

text \<open>The first entry with a name.\<close>

definition dpos :: "u8 list \<Rightarrow> dirent list \<Rightarrow> nat" where
  "dpos n es = length (takeWhile (\<lambda>e. de_name e \<noteq> n) es)"

lemma dpos_less: "dpos n es < length es \<longleftrightarrow> n \<in> de_name ` set es"
proof
  assume l: "dpos n es < length es"
  then have "de_name (es ! dpos n es) = n"
    using nth_length_takeWhile[of "\<lambda>e. de_name e \<noteq> n" es] by (simp add: dpos_def)
  then show "n \<in> de_name ` set es" using nth_mem[OF l] by (metis imageI)
next
  assume "n \<in> de_name ` set es"
  then show "dpos n es < length es" unfolding dpos_def by (auto intro: length_takeWhile_less)
qed

lemma dpos_le: "dpos n es \<le> length es"
  by (simp add: dpos_def length_takeWhile_le)

lemma dpos_name: "n \<in> de_name ` set es \<Longrightarrow> de_name (es ! dpos n es) = n"
  using dpos_less[of n es] nth_length_takeWhile[of "\<lambda>e. de_name e \<noteq> n" es] by (simp add: dpos_def)

text \<open>\<open>dir_ok\<close>: the bytes are whole entries, whose names are terminated.\<close>

definition dir_ok :: "u8 list \<Rightarrow> bool" where
  "dir_ok bs \<longleftrightarrow> 32 dvd length bs \<and> (\<forall>e \<in> set (dents bs). named e)"

abbreviation file_bytes :: "('h \<Rightarrow> ata_dev) \<Rightarrow> ('h, 'z) instate_scheme \<Rightarrow> u64 \<Rightarrow> u8 list" where
  "file_bytes dev s a \<equiv> fdata (blocks dev (hw s)) (dinode (inodes s a))"

lemma fs_inv_hw:
  fixes s :: "('h, 'z) instate_scheme"
  assumes "fs_inv M dev A s" "bio_ok M dev (s\<lparr>hw := h\<rparr>)" "blocks dev h = blocks dev (hw s)"
  shows "fs_inv M dev A (s\<lparr>hw := h\<rparr>)"
proof -
  have "map_ok M dev (block_bitmap_start (sb s)) (block_bitmap_size (sb s)) (s\<lparr>hw := h\<rparr>)"
    using map_ok_hw[OF fs_invD(1)[OF assms(1)] assms(2)] .
  then show ?thesis using assms(1,3) unfolding fs_inv_def by simp
qed

lemma file_length: "fs_inv M dev A s \<Longrightarrow> a \<in> A \<Longrightarrow> length (file_bytes dev s a) = unat (file_size (dinode (inodes s a)))"
  using fdata_length(1)[of "dinode (inodes s a)"] fs_invD(6,7)[of M dev A s] by (simp add: file_ok_def)

lemma file_limit: "fs_inv M dev A s \<Longrightarrow> a \<in> A \<Longrightarrow> unat (file_size (dinode (inodes s a))) \<le> 49152"
  using fs_invD(7)[of M dev A s a] by (simp add: file_ok_def di_ok_def)

lemma word_of_index: "i < 2 ^ 32 \<Longrightarrow> unat (of_int (int i * DIRENT_SIZE) :: u64) = 32 * i"
proof -
  assume "i < 2 ^ 32"
  then have "unat (of_nat (32 * i) :: u64) = 32 * i" by (intro small_nat) simp
  moreover have "(of_int (int i * DIRENT_SIZE) :: u64) = of_nat (32 * i)" by (simp add: DIRENT_SIZE_def)
  ultimately show ?thesis by (simp only:)
qed

lemma unat_DIRENT_SIZE [simp]: "unat (of_int DIRENT_SIZE :: u64) = 32"
  by (simp add: DIRENT_SIZE_def)

lemma read_entry:
  fixes s :: "('h, 'z) instate_scheme"
  assumes inv: "fs_inv M dev A s" "a \<in> A" and i: "i < length (file_bytes dev s a) div 32"
  shows "\<exists>h. inode_read M a (of_int DIRENT_SIZE) (of_int (int i * DIRENT_SIZE)) s =
      Ret (take 32 (drop (32 * i) (file_bytes dev s a))) (s\<lparr>hw := h\<rparr>) \<and>
    fs_inv M dev A (s\<lparr>hw := h\<rparr>) \<and> blocks dev h = blocks dev (hw s)"
proof -
  have len: "length (file_bytes dev s a) \<le> 49152" using file_length[OF inv] file_limit[OF inv] by simp
  then have i': "unat (of_int (int i * DIRENT_SIZE) :: u64) = 32 * i" using i by (intro word_of_index) simp
  have d: "di_ok (dinode (inodes s a))" "a \<noteq> 0" using fs_invD(7)[OF inv] by (simp_all add: file_ok_def)
  have lt: "32 * i < unat (file_size (dinode (inodes s a)))" using i unfolding file_length[OF inv] by linarith
  obtain h where h: "inode_read M a (of_int DIRENT_SIZE) (of_int (int i * DIRENT_SIZE)) s =
      Ret (take 32 (drop (32 * i) (file_bytes dev s a))) (s\<lparr>hw := h\<rparr>)" "blocks dev h = blocks dev (hw s)" "bio_ok M dev (s\<lparr>hw := h\<rparr>)"
    using inode_read_ok[OF fs_invD(5,2)[OF inv(1)] d(2,1) refl, of "of_int DIRENT_SIZE" "of_int (int i * DIRENT_SIZE)"]
      lt i' len file_length[OF inv] by auto
  then show ?thesis using fs_inv_hw[OF inv(1) h(3,2)] by auto
qed

lemma dirent_scan_ok:
  fixes s :: "('h, 'z) instate_scheme"
  assumes inv: "fs_inv M dev A s" "a \<in> A" and ok: "dir_ok (file_bytes dev s a)" and n: "cstr name 0 n"
    and i: "i \<le> length (dents (file_bytes dev s a))"
  shows "\<exists>h. dirent_scan M a name (int (length (dents (file_bytes dev s a)))) (int i) s =
      Ret (int (i + dpos n (drop i (dents (file_bytes dev s a))))) (s\<lparr>hw := h\<rparr>) \<and>
    fs_inv M dev A (s\<lparr>hw := h\<rparr>) \<and> blocks dev h = blocks dev (hw s)"
  using assms
proof (induction "length (dents (file_bytes dev s a)) - i" arbitrary: i s)
  case 0
  then show ?case by (subst dirent_scan.simps) (intro exI[of _ "hw s"], simp add: ret_def dpos_def)
next
  case (Suc k)
  let ?es = "dents (file_bytes dev s a)" and ?bs = "take 32 (drop (32 * i) (file_bytes dev s a))"
  have lt: "i < length ?es" using Suc.hyps(2) by simp
  then have l: "length ?bs = 32" by (simp add: min_def) linarith
  have e: "?es ! i = dec_dirent ?bs" "named (dec_dirent ?bs)" using lt Suc.prems(3) nth_mem[OF lt] by (auto simp: nth_dents dir_ok_def)
  have big: "\<not> 2 ^ 63 - 1 \<le> int i" "int i \<noteq> int (length ?es)"
    using lt file_length[OF Suc.prems(1,2)] file_limit[OF Suc.prems(1,2)] by simp_all
  obtain h where h: "inode_read M a (of_int DIRENT_SIZE) (of_int (int i * DIRENT_SIZE)) s = Ret ?bs (s\<lparr>hw := h\<rparr>)"
      "fs_inv M dev A (s\<lparr>hw := h\<rparr>)" "blocks dev h = blocks dev (hw s)"
    using read_entry[OF Suc.prems(1,2), of i] lt by auto
  obtain c where c: "strcmp (name @ ?bs) (length name + 8) 0 = Inr c" "c = 0 \<longleftrightarrow> de_name (?es ! i) = n"
    using strcmp_ok[OF cstr_behind[OF name_of_bytes[OF l e(2)]] cstr_extend[OF Suc.prems(4)]] e(1) by auto
  have split: "drop i ?es = ?es ! i # drop (Suc i) ?es" using lt by (simp add: Cons_nth_drop_Suc)
  show ?case
  proof (cases "de_name (?es ! i) = n")
    case True
    then have "dpos n (drop i ?es) = 0" unfolding split by (simp add: dpos_def)
    then show ?thesis
      using h c True big l by (subst dirent_scan.simps) (intro exI[of _ h], simp add: ret_def)
  next
    case False
    then have d: "dpos n (drop i ?es) = Suc (dpos n (drop (Suc i) ?es))" unfolding split by (simp add: dpos_def)
    have k: "k = length ?es - Suc i" using Suc.hyps(2) by linarith
    obtain h' where h': "dirent_scan M a name (int (length ?es)) (int (Suc i)) (s\<lparr>hw := h\<rparr>) =
          Ret (int (Suc i + dpos n (drop (Suc i) ?es))) (s\<lparr>hw := h'\<rparr>)"
        "fs_inv M dev A (s\<lparr>hw := h'\<rparr>)" "blocks dev h' = blocks dev h"
      using Suc.hyps(1)[of "s\<lparr>hw := h\<rparr>" "Suc i"] k Suc.prems(2-4) h(2,3) lt by auto
    have "int i + 1 = int (Suc i)" by simp
    then have "dirent_scan M a name (int (length ?es)) (int i) s = dirent_scan M a name (int (length ?es)) (int (Suc i)) (s\<lparr>hw := h\<rparr>)"
      using h(1) c False big l by (subst dirent_scan.simps) (simp only: bnd_run(1) bnd_basic bnd_of_res if_True if_False refl)
    then show ?thesis using h' h(3) d by (intro exI[of _ h']) simp
  qed
qed

lemma dirent_search_ok:
  fixes s :: "('h, 'z) instate_scheme"
  assumes inv: "fs_inv M dev A s" "a \<in> A" and ok: "dir_ok (file_bytes dev s a)" and n: "cstr name 0 n"
  shows "\<exists>h. dirent_search M a name s =
      Ret (if n \<in> de_name ` set (dents (file_bytes dev s a)) then int (dpos n (dents (file_bytes dev s a))) else - DIRENT_ISNT_EXIST)
        (s\<lparr>hw := h\<rparr>) \<and>
    fs_inv M dev A (s\<lparr>hw := h\<rparr>) \<and> blocks dev h = blocks dev (hw s)"
proof -
  let ?es = "dents (file_bytes dev s a)"
  have "sint (file_size (dinode (inodes s a))) = int (length (file_bytes dev s a))"
    using sint_small[OF file_limit[OF inv]] file_length[OF inv] by simp
  then have cnt: "dirent_cnt (sint (file_size (dinode (inodes s a)))) = int (length ?es)"
    by (simp add: dirent_cnt_def DIRENT_SIZE_def zdiv_int)
  obtain h where h: "dirent_scan M a name (int (length ?es)) (int 0) s = Ret (int (0 + dpos n (drop 0 ?es))) (s\<lparr>hw := h\<rparr>)"
      "fs_inv M dev A (s\<lparr>hw := h\<rparr>)" "blocks dev h = blocks dev (hw s)"
    using dirent_scan_ok[OF inv ok n le0] by blast
  have "a \<noteq> 0" using fs_invD(7)[OF inv] by simp
  then have "dirent_search M a name s = (if dpos n ?es = length ?es then Ret (- DIRENT_ISNT_EXIST) (s\<lparr>hw := h\<rparr>) else Ret (int (dpos n ?es)) (s\<lparr>hw := h\<rparr>))"
    using h(1) by (simp add: dirent_search_def Let_def cnt ret_def)
  moreover have "dpos n ?es = length ?es \<longleftrightarrow> n \<notin> de_name ` set ?es" using dpos_less[of n ?es] dpos_le[of n ?es] by linarith
  ultimately show ?thesis using h(2,3) by (intro exI[of _ h]) simp
qed

section \<open>A directory as a map\<close>

text \<open>Directories with different names; the map from names to entries; room for one more entry.\<close>

definition dir_inv :: "'h machine \<Rightarrow> ('h \<Rightarrow> ata_dev) \<Rightarrow> u64 set \<Rightarrow> u64 \<Rightarrow> ('h, 'z) instate_scheme \<Rightarrow> bool" where
  "dir_inv M dev A a s \<longleftrightarrow> fs_inv M dev A s \<and> a \<in> A \<and> dir_ok (file_bytes dev s a) \<and> distinct (map de_name (dents (file_bytes dev s a)))"

definition dir_map :: "('h \<Rightarrow> ata_dev) \<Rightarrow> u64 \<Rightarrow> ('h, 'z) instate_scheme \<Rightarrow> (u8 list \<rightharpoonup> dirent)" where
  "dir_map dev a s = map_of (map (\<lambda>e. (de_name e, e)) (dents (file_bytes dev s a)))"

definition dir_room :: "('h \<Rightarrow> ata_dev) \<Rightarrow> u64 \<Rightarrow> ('h, 'z) instate_scheme \<Rightarrow> bool" where
  "dir_room dev a s \<longleftrightarrow> length (file_bytes dev s a) + 32 \<le> 49152 \<and>
     card (blk_used (blocks dev (hw s)) (sb s)) + nblk (length (file_bytes dev s a) + 32) \<le> bbn (sb s) + nblk (length (file_bytes dev s a))"

text \<open>The other files.\<close>

definition others :: "('h \<Rightarrow> ata_dev) \<Rightarrow> u64 set \<Rightarrow> u64 \<Rightarrow> ('h, 'z) instate_scheme \<Rightarrow> ('h, 'z) instate_scheme \<Rightarrow> bool" where
  "others dev A a s s' \<longleftrightarrow> (\<forall>a' \<in> A - {a}. inodes s' a' = inodes s a' \<and> file_bytes dev s' a' = file_bytes dev s a')"

lemma map_of_names: "map_of (map (\<lambda>e. (de_name e, e)) es) n = (if n \<in> de_name ` set es then Some (es ! dpos n es) else None)"
  by (induction es) (auto simp: dpos_def)

lemma dom_dir_map: "dom (dir_map dev a s) = de_name ` set (dents (file_bytes dev s a))"
  by (auto simp: dir_map_def map_of_names dom_def)

lemma map_of_snoc: "k \<notin> fst ` set xs \<Longrightarrow> map_of (xs @ [(k, v)]) = (map_of xs)(k \<mapsto> v)"
  by (induction xs) (auto simp: fun_upd_twist)

text \<open>Deleting an entry moves the last one into its place.\<close>

definition drop_entry :: "'a list \<Rightarrow> nat \<Rightarrow> 'a list" where
  "drop_entry es i = take (length es - 1) (es[i := last es])"

lemma set_drop_entry:
  assumes "distinct es" "i < length es"
  shows "set (drop_entry es i) = set es - {es ! i}" "distinct (drop_entry es i)"
proof -
  obtain xs l where es: "es = xs @ [l]" using assms(2) by (cases es rule: rev_cases) auto
  have d: "distinct xs" "l \<notin> set xs" using assms(1) es by auto
  show "set (drop_entry es i) = set es - {es ! i}" "distinct (drop_entry es i)"
  proof (atomize(full), cases "i = length xs")
    case True
    then show "set (drop_entry es i) = set es - {es ! i} \<and> distinct (drop_entry es i)" using es d by (simp add: drop_entry_def)
  next
    case False
    then have i: "i < length xs" using assms(2) es by simp
    then show "set (drop_entry es i) = set es - {es ! i} \<and> distinct (drop_entry es i)"
      using es d set_update_distinct[OF d(1) i, of l] i nth_mem[OF i] distinct_list_update[OF d(1), of l i]
      by (auto simp: drop_entry_def list_update_append nth_append)
  qed
qed

lemma map_drop_entry: "es \<noteq> [] \<Longrightarrow> map f (drop_entry es i) = drop_entry (map f es) i"
  by (simp add: drop_entry_def take_map[symmetric] map_update last_map)

text \<open>What the operations need of the file system, from the invariant.\<close>

lemma used_blocks_le: "card (blk_used B b) \<le> bbn b"
  using card_mono[OF finite_lessThan bm_used_bound(1)[of B "bbs b" "bbn b"]] by simp

lemma dirent_add_ok:
  fixes s :: "('h, 'z) instate_scheme"
  assumes inv: "dir_inv M dev A a s" and e: "named e" and room: "dir_room dev a s"
    and new: "de_name e \<notin> de_name ` set (dents (file_bytes dev s a))"
  shows "\<exists>s'. dirent_add M a e s = Ret DIRENT_SIZE s' \<and> dir_inv M dev A a s' \<and>
    dents (file_bytes dev s' a) = dents (file_bytes dev s a) @ [e] \<and> others dev A a s s'"
proof -
  let ?D = "file_bytes dev s a" and ?x = "inodes s a"
  have I: "fs_inv M dev A s" "a \<in> A" "dir_ok ?D" "distinct (map de_name (dents ?D))" using inv by (auto simp: dir_inv_def)
  have wf: "dent_wf e" using e by (simp add: named_def)
  obtain h where h: "dirent_search M a (name_mem e) s = Ret (- DIRENT_ISNT_EXIST) (s\<lparr>hw := h\<rparr>)"
      "fs_inv M dev A (s\<lparr>hw := h\<rparr>)" "blocks dev h = blocks dev (hw s)"
    using dirent_search_ok[OF I(1-3) name_mem_ok[OF e]] new by auto
  have len: "unat (file_size (dinode ?x)) = length ?D" using file_length[OF I(1,2)] by simp
  let ?s = "s\<lparr>hw := h\<rparr>"
  have a: "a \<noteq> 0" using fs_invD(7)[OF I(1,2)] by simp
  obtain h' d' where w: "inode_write M a (enc_dirent e) (of_int DIRENT_SIZE) (file_size (dinode ?x)) ?s =
        Ret (int 32) (?s\<lparr>hw := h', inodes := (inodes s)(a := ?x\<lparr>dinode := d'\<rparr>)\<rparr>)"
      "fs_inv M dev A (?s\<lparr>hw := h', inodes := (inodes s)(a := ?x\<lparr>dinode := d'\<rparr>)\<rparr>)"
      "fdata (blocks dev h') d' = splice_at (length ?D) (enc_dirent e) ?D"
      "\<forall>a' \<in> A - {a}. fdata (blocks dev h') (dinode (inodes s a')) = fdata (blocks dev (hw s)) (dinode (inodes s a'))"
    using inode_write_ok[OF h(2) I(2), of "of_int DIRENT_SIZE" "file_size (dinode ?x)" "enc_dirent e"] wf len room h(3)
    by (auto simp: dir_room_def)
  let ?s' = "s\<lparr>hw := h', inodes := (inodes s)(a := ?x\<lparr>dinode := d'\<rparr>)\<rparr>"
  have D': "file_bytes dev ?s' a = ?D @ enc_dirent e" using w(3) by (simp add: splice_at_def)
  then have es: "dents (file_bytes dev ?s' a) = dents ?D @ [e]" using dents_append[of ?D e] I(3) wf by (simp add: dir_ok_def)
  have "dir_ok (file_bytes dev ?s' a)" using I(3) e wf es unfolding dir_ok_def D' by simp
  moreover have "distinct (map de_name (dents (file_bytes dev ?s' a)))" using I(4) new es by simp
  moreover have "fs_inv M dev A ?s'" using w(2) by simp
  moreover have "dirent_add M a e s = Ret DIRENT_SIZE ?s'"
    using h(1) w(1) a by (simp add: dirent_add_def DIRENT_SIZE_def)
  ultimately show ?thesis
    using es w(4) I(2) by (intro exI[of _ ?s']) (auto simp: dir_inv_def others_def)
qed

lemma dirent_delete_ok:
  fixes s :: "('h, 'z) instate_scheme"
  assumes inv: "dir_inv M dev A a s" and n: "cstr name 0 n" "n \<in> de_name ` set (dents (file_bytes dev s a))" and u: "dent_wf u"
  shows "\<exists>s'. dirent_delete M u a name s = Ret 0 s' \<and> dir_inv M dev A a s' \<and>
    dents (file_bytes dev s' a) = drop_entry (dents (file_bytes dev s a)) (dpos n (dents (file_bytes dev s a))) \<and> others dev A a s s'"
proof -
  let ?D = "file_bytes dev s a" and ?x = "inodes s a" and ?es = "dents (file_bytes dev s a)"
  let ?i = "dpos n (dents (file_bytes dev s a))"
  have I: "fs_inv M dev A s" "a \<in> A" "dir_ok ?D" "distinct (map de_name ?es)" using inv by (auto simp: dir_inv_def)
  have a: "a \<noteq> 0" using fs_invD(7)[OF I(1,2)] by simp
  have i: "?i < length ?es" using n(2) dpos_less by blast
  obtain k where k: "length ?D = 32 * Suc k"
  proof -
    obtain m where m: "length ?D = 32 * m" using I(3) by (auto simp: dir_ok_def elim!: dvdE)
    then have "m \<noteq> 0" using i by auto
    then show thesis using that m by (metis not0_implies_Suc)
  qed
  have les: "length ?es = Suc k" using k by simp
  have len: "unat (file_size (dinode ?x)) = length ?D" using file_length[OF I(1,2)] by simp
  have lim: "length ?D \<le> 49152" using file_limit[OF I(1,2)] len by simp
  have off: "file_size (dinode ?x) - of_int DIRENT_SIZE = of_int (int k * DIRENT_SIZE)"
  proof -
    have "of_nat (unat (file_size (dinode ?x))) = (of_nat (32 * Suc k) :: u64)" using len k by (simp only:)
    then have "file_size (dinode ?x) = of_nat (32 * Suc k)" by simp
    then show ?thesis by (simp add: DIRENT_SIZE_def algebra_simps)
  qed
  obtain h where h: "dirent_search M a name s = Ret (int ?i) (s\<lparr>hw := h\<rparr>)"
      "fs_inv M dev A (s\<lparr>hw := h\<rparr>)" "blocks dev h = blocks dev (hw s)"
    using dirent_search_ok[OF I(1-3) n(1)] n(2) by auto
  let ?last = "take 32 (drop (32 * k) ?D)"
  obtain h2 where h2: "inode_read M a (of_int DIRENT_SIZE) (of_int (int k * DIRENT_SIZE)) (s\<lparr>hw := h\<rparr>) = Ret ?last (s\<lparr>hw := h2\<rparr>)"
      "fs_inv M dev A (s\<lparr>hw := h2\<rparr>)" "blocks dev h2 = blocks dev (hw s)"
    using read_entry[OF h(2) I(2), of k] h(3) k by auto
  have last: "length ?last = 32" "fill_dirent u ?last = last ?es"
    using k u les by (auto simp: fill_dirent_full nth_dents last_conv_nth simp flip: length_0_conv)
  have wf: "dent_wf (last ?es)" using last u by (metis fill_dirent_full dent_wf_dec)
  have io: "unat (of_int (int ?i * DIRENT_SIZE) :: u64) = 32 * ?i" using i lim by (intro word_of_index) simp
  obtain h3 d3 where w: "inode_write M a (enc_dirent (last ?es)) (of_int DIRENT_SIZE) (of_int (int ?i * DIRENT_SIZE)) (s\<lparr>hw := h2\<rparr>) =
        Ret (int 32) (s\<lparr>hw := h3, inodes := (inodes s)(a := ?x\<lparr>dinode := d3\<rparr>)\<rparr>)"
      "fs_inv M dev A (s\<lparr>hw := h3, inodes := (inodes s)(a := ?x\<lparr>dinode := d3\<rparr>)\<rparr>)"
      "fdata (blocks dev h3) d3 = splice_at (32 * ?i) (enc_dirent (last ?es)) ?D"
      "\<forall>a' \<in> A - {a}. fdata (blocks dev h3) (dinode (inodes s a')) = fdata (blocks dev (hw s)) (dinode (inodes s a'))"
    using inode_write_ok[OF h2(2) I(2), of "of_int DIRENT_SIZE" "of_int (int ?i * DIRENT_SIZE)" "enc_dirent (last ?es)"]
      wf len lim io i k nblk_mono[of "32 * ?i + 32" "32 * Suc k"] used_blocks_le[of "blocks dev (hw s)" "sb s"] h2(3)
    by auto
  let ?s3 = "s\<lparr>hw := h3, inodes := (inodes s)(a := ?x\<lparr>dinode := d3\<rparr>)\<rparr>"
  have spl: "32 * ?i + length (enc_dirent (last ?es)) \<le> length ?D" using i wf k by simp
  have l3: "unat (file_size d3) = length ?D" using file_length[OF w(2) I(2)] w(3) length_splice[OF spl] by simp
  have sz: "unat (of_int (int k * DIRENT_SIZE) :: u64) = 32 * k" using k lim by (intro word_of_index) simp
  obtain h4 d4 where c: "inode_size_change M a (of_int (int k * DIRENT_SIZE)) ?s3 =
        Ret 0 (s\<lparr>hw := h4, inodes := (inodes s)(a := ?x\<lparr>dinode := d4\<rparr>)\<rparr>)"
      "fs_inv M dev A (s\<lparr>hw := h4, inodes := (inodes s)(a := ?x\<lparr>dinode := d4\<rparr>)\<rparr>)" "file_size d4 = of_int (int k * DIRENT_SIZE)"
      "take (32 * k) (fdata (blocks dev h4) d4) = take (32 * k) (fdata (blocks dev h3) d3)"
      "\<forall>a' \<in> A - {a}. fdata (blocks dev h4) (dinode (inodes s a')) = fdata (blocks dev h3) (dinode (inodes s a'))"
    using inode_size_change_ok[OF w(2) I(2), of "of_int (int k * DIRENT_SIZE)"] sz k lim l3
      nblk_mono[of "32 * k" "32 * Suc k"] used_blocks_le[of "blocks dev h3" "sb s"]
    by (auto simp: min_def)
  let ?s' = "s\<lparr>hw := h4, inodes := (inodes s)(a := ?x\<lparr>dinode := d4\<rparr>)\<rparr>"
  have D': "file_bytes dev ?s' a = take (32 * k) (splice_at (32 * ?i) (enc_dirent (last ?es)) ?D)"
    using c(4) w(3) file_length[OF c(2) I(2)] c(3) sz by simp
  have es: "dents (file_bytes dev ?s' a) = drop_entry ?es ?i"
    unfolding D' using dents_update[of ?i ?D "last ?es"] i wf les length_splice[OF spl] k
    by (subst dents_take) (simp_all add: drop_entry_def)
  have dn: "distinct (map de_name (drop_entry ?es ?i))"
    using map_drop_entry[of ?es de_name ?i] set_drop_entry(2)[of "map de_name ?es" ?i] I(4) i les by (auto simp flip: length_0_conv)
  have sub: "set (drop_entry ?es ?i) \<subseteq> set ?es"
    using set_drop_entry(1)[of ?es ?i] I(4) i by (auto simp: distinct_map)
  have "32 dvd length (file_bytes dev ?s' a)" using file_length[OF c(2) I(2)] c(3) sz by simp
  then have "dir_inv M dev A a ?s'"
    using I(2,3) c(2) dn sub es unfolding dir_inv_def dir_ok_def es by auto
  moreover have "dirent_delete M u a name s = Ret 0 ?s'"
    using h(1) h2(1) w(1) c(1) a last(2) by (simp add: dirent_delete_def Let_def off ret_def DIRENT_ISNT_EXIST_def)
  ultimately show ?thesis using es w(4) c(5) by (intro exI[of _ ?s']) (auto simp: others_def)
qed

lemma dir_map_same: "dents (file_bytes dev s' a) = dents (file_bytes dev s a) \<Longrightarrow> dir_map dev a s' = dir_map dev a s"
  by (simp add: dir_map_def)

lemma dir_inv_hw:
  fixes s :: "('h, 'z) instate_scheme"
  assumes "dir_inv M dev A a s" "fs_inv M dev A (s\<lparr>hw := h\<rparr>)" "blocks dev h = blocks dev (hw s)"
  shows "dir_inv M dev A a (s\<lparr>hw := h\<rparr>)" "dir_map dev a (s\<lparr>hw := h\<rparr>) = dir_map dev a s" "others dev A a s (s\<lparr>hw := h\<rparr>)"
  using assms by (simp_all add: dir_inv_def dir_map_def others_def)

lemma map_of_drop_entry:
  assumes "distinct (map de_name es)" "n \<in> de_name ` set es"
  shows "map_of (map (\<lambda>e. (de_name e, e)) (drop_entry es (dpos n es))) = (map_of (map (\<lambda>e. (de_name e, e)) es))(n := None)"
proof -
  let ?f = "\<lambda>e. (de_name e, e)" and ?i = "dpos n es"
  have i: "?i < length es" using assms(2) dpos_less by blast
  have nz: "es \<noteq> []" using i by auto
  have d: "distinct es" using assms(1) by (simp add: distinct_map)
  have dn: "distinct (map fst (map ?f (drop_entry es ?i)))" "distinct (map fst (map ?f es))"
    using set_drop_entry(2)[of "map de_name es" ?i] map_drop_entry[OF nz, of de_name ?i] assms(1) i by (simp_all add: comp_def)
  have st: "set (drop_entry es ?i) = {e \<in> set es. de_name e \<noteq> n}"
    using set_drop_entry(1)[OF d i] dpos_name[OF assms(2)] nth_mem[OF i] assms(1)
    by (auto simp: distinct_map inj_on_def)
  show ?thesis
  proof
    fix k
    show "map_of (map ?f (drop_entry es ?i)) k = ((map_of (map ?f es))(n := None)) k"
    proof (rule option.expand)
      show "(map_of (map ?f (drop_entry es ?i)) k = None) = (((map_of (map ?f es))(n := None)) k = None)"
        by (auto simp: map_of_eq_None_iff st)
      assume "map_of (map ?f (drop_entry es ?i)) k \<noteq> None" "((map_of (map ?f es))(n := None)) k \<noteq> None"
      then obtain v w where v: "map_of (map ?f (drop_entry es ?i)) k = Some v" "((map_of (map ?f es))(n := None)) k = Some w" by blast
      then have "(k, v) \<in> set (map ?f es)" using map_of_SomeD[OF v(1)] st by auto
      then have "map_of (map ?f es) k = Some v" using dn(2) by (simp only: map_of_eq_Some_iff)
      then show "the (map_of (map ?f (drop_entry es ?i)) k) = the (((map_of (map ?f es))(n := None)) k)"
        using v by (auto split: if_splits)
    qed
  qed
qed

text \<open>
  The contract of a directory, as \<^verbatim>\<open>file.c\<close> uses it: a finite map from names to entries. \<open>str p n\<close> says that the name \<open>n\<close>
  stands at \<open>p\<close>.
\<close>

locale directory =
  fixes inv :: "'s \<Rightarrow> bool" and view :: "'s \<Rightarrow> ('n \<rightharpoonup> 'e)" and space :: "'s \<Rightarrow> bool" and rest :: "'s \<Rightarrow> 's \<Rightarrow> bool"
    and str :: "'p \<Rightarrow> 'n \<Rightarrow> bool" and nm :: "'e \<Rightarrow> 'n" and entry :: "'e \<Rightarrow> bool"
    and search :: "'p \<Rightarrow> ('s, int) kcall" and add :: "'e \<Rightarrow> ('s, int) kcall" and del :: "'p \<Rightarrow> ('s, int) kcall"
    and missing dup len :: int
  assumes search_law: "inv s \<Longrightarrow> str p n \<Longrightarrow>
      \<exists>r s'. search p s = Ret r s' \<and> inv s' \<and> view s' = view s \<and> rest s s' \<and> (if n \<in> dom (view s) then 0 \<le> r else r = - missing)"
    and add_law: "inv s \<Longrightarrow> entry e \<Longrightarrow> space s \<Longrightarrow> nm e \<notin> dom (view s) \<Longrightarrow>
      \<exists>s'. add e s = Ret len s' \<and> inv s' \<and> view s' = (view s)(nm e \<mapsto> e) \<and> rest s s'"
    and add_dup: "inv s \<Longrightarrow> entry e \<Longrightarrow> nm e \<in> dom (view s) \<Longrightarrow>
      \<exists>s'. add e s = Ret (- dup) s' \<and> inv s' \<and> view s' = view s \<and> rest s s'"
    and del_law: "inv s \<Longrightarrow> str p n \<Longrightarrow> n \<in> dom (view s) \<Longrightarrow>
      \<exists>s'. del p s = Ret 0 s' \<and> inv s' \<and> view s' = (view s)(n := None) \<and> rest s s'"
    and del_missing: "inv s \<Longrightarrow> str p n \<Longrightarrow> n \<notin> dom (view s) \<Longrightarrow>
      \<exists>s'. del p s = Ret (- missing) s' \<and> inv s' \<and> view s' = view s \<and> rest s s'"
    and missing_pos: "0 < missing"
begin

lemma add_then_search:
  assumes "inv s" "entry e" "space s" "nm e \<notin> dom (view s)" "str p (nm e)"
  shows "\<exists>s1 s2 r. add e s = Ret len s1 \<and> search p s1 = Ret r s2 \<and> 0 \<le> r \<and>
    (\<exists>s3. add e s1 = Ret (- dup) s3 \<and> view s3 = view s1)"
proof -
  obtain s1 where s1: "add e s = Ret len s1" "inv s1" "view s1 = (view s)(nm e \<mapsto> e)" using add_law[OF assms(1-4)] by blast
  obtain r s2 where s2: "search p s1 = Ret r s2" "0 \<le> r" using search_law[OF s1(2) assms(5)] s1(3) by auto
  show ?thesis using s1(1) s2 add_dup[OF s1(2) assms(2)] s1(3) by auto
qed

lemma add_then_del:
  assumes "inv s" "entry e" "space s" "nm e \<notin> dom (view s)" "str p (nm e)"
  shows "\<exists>s1 s2 s3. add e s = Ret len s1 \<and> del p s1 = Ret 0 s2 \<and> view s2 = view s \<and> inv s2 \<and> search p s2 = Ret (- missing) s3"
proof -
  obtain s1 where s1: "add e s = Ret len s1" "inv s1" "view s1 = (view s)(nm e \<mapsto> e)" using add_law[OF assms(1-4)] by blast
  obtain s2 where s2: "del p s1 = Ret 0 s2" "inv s2" "view s2 = (view s1)(nm e := None)"
    using del_law[OF s1(2) assms(5)] s1(3) by auto
  have v: "view s2 = view s" using s1(3) s2(3) assms(4) by (auto simp: dom_def)
  then show ?thesis using s1(1) s2 search_law[OF s2(2) assms(5)] assms(4) by auto
qed

end

interpretation dd: directory "\<lambda>s. dir_inv M dev A a s \<and> dent_wf u" "dir_map dev a" "dir_room dev a" "others dev A a"
  "\<lambda>p n. cstr p 0 n" de_name named "dirent_search M a" "dirent_add M a" "dirent_delete M u a"
  DIRENT_ISNT_EXIST DIRENT_ALREADY_EXIST DIRENT_SIZE for M dev A a u
proof unfold_locales
  fix s :: "('a, 'b) instate_scheme" and p n e
  assume inv: "dir_inv M dev A a s \<and> dent_wf u"
  then have J: "fs_inv M dev A s" "a \<in> A" "dir_ok (file_bytes dev s a)" "distinct (map de_name (dents (file_bytes dev s a)))" "dent_wf u"
    by (auto simp: dir_inv_def)
  {
    assume p: "cstr p 0 n"
    obtain h where h: "dirent_search M a p s =
        Ret (if n \<in> dom (dir_map dev a s) then int (dpos n (dents (file_bytes dev s a))) else - DIRENT_ISNT_EXIST) (s\<lparr>hw := h\<rparr>)"
        "fs_inv M dev A (s\<lparr>hw := h\<rparr>)" "blocks dev h = blocks dev (hw s)"
      using dirent_search_ok[OF J(1-3) p] unfolding dom_dir_map by blast
    note same = dir_inv_hw[OF inv[THEN conjunct1] h(2,3)]
    show "\<exists>r s'. dirent_search M a p s = Ret r s' \<and> (dir_inv M dev A a s' \<and> dent_wf u) \<and> dir_map dev a s' = dir_map dev a s \<and>
        others dev A a s s' \<and> (if n \<in> dom (dir_map dev a s) then 0 \<le> r else r = - DIRENT_ISNT_EXIST)"
      using h(1) same J(5) by auto
    assume "n \<notin> dom (dir_map dev a s)"
    then have "dirent_delete M u a p s = Ret (- DIRENT_ISNT_EXIST) (s\<lparr>hw := h\<rparr>)"
      using h(1) fs_invD(7)[OF J(1,2)] by (simp add: dirent_delete_def Let_def ret_def)
    then show "\<exists>s'. dirent_delete M u a p s = Ret (- DIRENT_ISNT_EXIST) s' \<and> (dir_inv M dev A a s' \<and> dent_wf u) \<and>
        dir_map dev a s' = dir_map dev a s \<and> others dev A a s s'"
      using same J(5) by auto
  next
    assume p: "cstr p 0 n" "n \<in> dom (dir_map dev a s)"
    then obtain s' where s': "dirent_delete M u a p s = Ret 0 s'" "dir_inv M dev A a s'"
        "dents (file_bytes dev s' a) = drop_entry (dents (file_bytes dev s a)) (dpos n (dents (file_bytes dev s a)))" "others dev A a s s'"
      using dirent_delete_ok[OF inv[THEN conjunct1] p(1) _ J(5)] unfolding dom_dir_map by blast
    then show "\<exists>s'. dirent_delete M u a p s = Ret 0 s' \<and> (dir_inv M dev A a s' \<and> dent_wf u) \<and>
        dir_map dev a s' = (dir_map dev a s)(n := None) \<and> others dev A a s s'"
      using map_of_drop_entry[OF J(4), of n] p(2) J(5) unfolding dom_dir_map by (auto simp: dir_map_def)
  next
    assume e: "named e" and room: "dir_room dev a s" "de_name e \<notin> dom (dir_map dev a s)"
    obtain s' where s': "dirent_add M a e s = Ret DIRENT_SIZE s'" "dir_inv M dev A a s'"
        "dents (file_bytes dev s' a) = dents (file_bytes dev s a) @ [e]" "others dev A a s s'"
      using dirent_add_ok[OF inv[THEN conjunct1] e room(1)] room(2) unfolding dom_dir_map by blast
    have "dir_map dev a s' = (dir_map dev a s)(de_name e \<mapsto> e)"
      using room(2) unfolding dom_dir_map unfolding dir_map_def s'(3) map_append list.map
      by (intro map_of_snoc) auto
    then show "\<exists>s'. dirent_add M a e s = Ret DIRENT_SIZE s' \<and> (dir_inv M dev A a s' \<and> dent_wf u) \<and>
        dir_map dev a s' = (dir_map dev a s)(de_name e \<mapsto> e) \<and> others dev A a s s'"
      using s' J(5) by blast
  next
    assume e: "named e" "de_name e \<in> dom (dir_map dev a s)"
    obtain h where h: "dirent_search M a (name_mem e) s = Ret (int (dpos (de_name e) (dents (file_bytes dev s a)))) (s\<lparr>hw := h\<rparr>)"
        "fs_inv M dev A (s\<lparr>hw := h\<rparr>)" "blocks dev h = blocks dev (hw s)"
      using dirent_search_ok[OF J(1-3) name_mem_ok[OF e(1)]] e(2) unfolding dom_dir_map by auto
    then have "dirent_add M a e s = Ret (- DIRENT_ALREADY_EXIST) (s\<lparr>hw := h\<rparr>)"
      by (simp add: dirent_add_def ret_def DIRENT_ISNT_EXIST_def)
    then show "\<exists>s'. dirent_add M a e s = Ret (- DIRENT_ALREADY_EXIST) s' \<and> (dir_inv M dev A a s' \<and> dent_wf u) \<and>
        dir_map dev a s' = dir_map dev a s \<and> others dev A a s s'"
      using dir_inv_hw[OF inv[THEN conjunct1] h(2,3)] J(5) by auto
  }
qed (simp add: DIRENT_ISNT_EXIST_def)

section \<open>Properties\<close>

text \<open>C27. A directory is a finite map from names to entries: in a mounted file system \<^verbatim>\<open>dirent_search\<close> finds a name exactly
  when the map has it, \<^verbatim>\<open>dirent_add\<close> extends the map by a new name and refuses one that is there, and \<^verbatim>\<open>dirent_delete\<close> removes
  exactly the name it is given, although it moves the last entry into the hole. The directory stays well-formed, and the other
  files of the file system keep their contents.\<close>

theorem directory_refines_map:
  assumes "dir_inv M dev A a s" "named e" "dir_room dev a s" "cstr p 0 n" "dent_wf u"
  shows "(\<exists>r s'. dirent_search M a p s = Ret r s' \<and> dir_map dev a s' = dir_map dev a s \<and>
      (if n \<in> dom (dir_map dev a s) then 0 \<le> r else r = - DIRENT_ISNT_EXIST)) \<and>
    (\<exists>r s'. dirent_add M a e s = Ret r s' \<and> dir_inv M dev A a s' \<and> others dev A a s s' \<and>
      (if de_name e \<in> dom (dir_map dev a s) then r = - DIRENT_ALREADY_EXIST \<and> dir_map dev a s' = dir_map dev a s
       else r = DIRENT_SIZE \<and> dir_map dev a s' = (dir_map dev a s)(de_name e \<mapsto> e))) \<and>
    (\<exists>r s'. dirent_delete M u a p s = Ret r s' \<and> dir_inv M dev A a s' \<and> others dev A a s s' \<and>
      dir_map dev a s' = (dir_map dev a s)(n := None) \<and> r = (if n \<in> dom (dir_map dev a s) then 0 else - DIRENT_ISNT_EXIST))"
proof (intro conjI)
  have inv: "dir_inv M dev A a s \<and> dent_wf u" using assms(1,5) by simp
  show "\<exists>r s'. dirent_search M a p s = Ret r s' \<and> dir_map dev a s' = dir_map dev a s \<and>
      (if n \<in> dom (dir_map dev a s) then 0 \<le> r else r = - DIRENT_ISNT_EXIST)"
    using dd.search_law[OF inv assms(4)] by blast
  show "\<exists>r s'. dirent_add M a e s = Ret r s' \<and> dir_inv M dev A a s' \<and> others dev A a s s' \<and>
      (if de_name e \<in> dom (dir_map dev a s) then r = - DIRENT_ALREADY_EXIST \<and> dir_map dev a s' = dir_map dev a s
       else r = DIRENT_SIZE \<and> dir_map dev a s' = (dir_map dev a s)(de_name e \<mapsto> e))"
    using dd.add_law[OF inv assms(2,3)] dd.add_dup[OF inv assms(2)] by (cases "de_name e \<in> dom (dir_map dev a s)") auto
  show "\<exists>r s'. dirent_delete M u a p s = Ret r s' \<and> dir_inv M dev A a s' \<and> others dev A a s s' \<and>
      dir_map dev a s' = (dir_map dev a s)(n := None) \<and> r = (if n \<in> dom (dir_map dev a s) then 0 else - DIRENT_ISNT_EXIST)"
  proof (cases "n \<in> dom (dir_map dev a s)")
    case True
    then show ?thesis using dd.del_law[OF inv assms(4)] by auto
  next
    case False
    then have "(dir_map dev a s)(n := None) = dir_map dev a s" by (auto simp: dom_def)
    then show ?thesis using dd.del_missing[OF inv assms(4) False] False by auto
  qed
qed

text \<open>A directory that is empty, and an entry.\<close>

definition demo_dirent :: dirent where
  "demo_dirent = \<lparr>de_i_no = 1, filename = [104, 105] @ replicate 14 0, f_type = FT_REG, de_pad = replicate 4 0\<rparr>"

lemma demo_dir:
  "dir_inv demo_ata (\<lambda>d. d) {16} 16 demo_in" "dir_room (\<lambda>d. d) 16 demo_in" "named demo_dirent" "de_name demo_dirent = [104, 105]"
  "dir_map (\<lambda>d. d) 16 demo_in = Map.empty" "dent_wf demo_dirent"
proof -
  have z: "file_bytes (\<lambda>d. d) demo_in 16 = []" by (simp add: fdata_def)
  then show "dir_inv demo_ata (\<lambda>d. d) {16} 16 demo_in" "dir_map (\<lambda>d. d) 16 demo_in = Map.empty"
    using demo_fs by (simp_all add: dir_inv_def dir_ok_def dents_def dir_map_def)
  show "dir_room (\<lambda>d. d) 16 demo_in" using demo_space[of 32] z by (simp add: dir_room_def)
  show "named demo_dirent" "de_name demo_dirent = [104, 105]" "dent_wf demo_dirent"
    by (simp_all add: demo_dirent_def named_def dent_wf_def MAX_FILE_NAME_LEN_def de_name_def)
qed

theorem directory_refines_map_witness:
  "\<exists>s'. dirent_add demo_ata 16 demo_dirent demo_in = Ret 32 s' \<and> dir_map (\<lambda>d. d) 16 s' [104, 105] = Some demo_dirent"
  using directory_refines_map[OF demo_dir(1,3,2), of "[104, 105, 0]" "[104, 105]" demo_dirent] demo_dir
  by (auto simp: DIRENT_SIZE_def)

text \<open>What is added to a directory is found, is refused a second time, and after deleting it the directory holds what it
  held before.\<close>

theorem dirent_add_delete:
  assumes "dir_inv M dev A a s" "named e" "dir_room dev a s" "de_name e \<notin> dom (dir_map dev a s)" "dent_wf u"
  shows "\<exists>s1 s2 r. dirent_add M a e s = Ret DIRENT_SIZE s1 \<and> dirent_search M a (name_mem e) s1 = Ret r s2 \<and> 0 \<le> r \<and>
    (\<exists>s3. dirent_add M a e s1 = Ret (- DIRENT_ALREADY_EXIST) s3) \<and>
    (\<exists>s4 s5. dirent_delete M u a (name_mem e) s1 = Ret 0 s4 \<and> dir_map dev a s4 = dir_map dev a s \<and>
      dirent_search M a (name_mem e) s4 = Ret (- DIRENT_ISNT_EXIST) s5)"
proof -
  have inv: "dir_inv M dev A a s \<and> dent_wf u" using assms(1,5) by simp
  note n = name_mem_ok[OF assms(2)]
  obtain s1 s2 r where s1: "dirent_add M a e s = Ret DIRENT_SIZE s1" "dirent_search M a (name_mem e) s1 = Ret r s2" "0 \<le> r"
      "\<exists>s3. dirent_add M a e s1 = Ret (- DIRENT_ALREADY_EXIST) s3"
    using dd.add_then_search[OF inv assms(2-4) n] by blast
  then show ?thesis using dd.add_then_del[OF inv assms(2-4) n] by auto
qed

theorem dirent_add_delete_witness:
  "\<exists>s1 s2 r. dirent_add demo_ata 16 demo_dirent demo_in = Ret 32 s1 \<and>
    dirent_search demo_ata 16 (name_mem demo_dirent) s1 = Ret r s2 \<and> 0 \<le> r"
  using dirent_add_delete[OF demo_dir(1,3,2) _ demo_dir(6)] demo_dir(5) by (auto simp: DIRENT_SIZE_def)

end
