(* ===== verification/Pipe.thy ===== *)
theory Pipe
  imports Dir
begin

text \<open>
  The table of open files and the file descriptors (the first two functions of \<^verbatim>\<open>fs/file.c\<close>), and pipes (\<^verbatim>\<open>userprog/pipe.c\<close>).

  \<open>file_table\<close> is the page the pointer of that name points to: \<^verbatim>\<open>FILE_TABLE_SIZE\<close> entries of 24 bytes, and room for the
  \<^verbatim>\<open>f_pos\<close> and the \<^verbatim>\<open>f_inode\<close> of one more. \<^verbatim>\<open>f_inode\<close> is the address of an inode, of the console or of a pipe's queue.
  A descriptor outside \<^verbatim>\<open>fd_table\<close> is an access outside the array.
\<close>

section \<open>Data (fs/file.h)\<close>

record file_struct =
  f_pos :: int
  f_inode :: u64
  ft_type :: u32

record 'h fistate = "'h instate" +
  file_table :: "file_struct list"

definition FILE_TABLE_SIZE :: nat where "FILE_TABLE_SIZE = unat PG_SIZE div 24"
definition FD_INVALID :: int where "FD_INVALID = 8"
definition FILE_TYPE_INVALID :: int where "FILE_TYPE_INVALID = 9"

text \<open>The address of \<^verbatim>\<open>console\<close>, which is no page and no queue.\<close>

definition console_addr :: u64 where "console_addr = 24"

definition get_file :: "int \<Rightarrow> (('h, 'z) fistate_scheme, file_struct) kcall" where
  "get_file i = bnd (kget file_table) (\<lambda>ft. if 0 \<le> i \<and> nat i < length ft then ret (ft ! nat i) else fail OutOfBounds)"

definition upd_file :: "int \<Rightarrow> (file_struct \<Rightarrow> file_struct) \<Rightarrow> (('h, 'z) fistate_scheme, unit) kcall" where
  "upd_file i f =
     bnd (get_file i) (\<lambda>x. kput (\<lambda>s. s\<lparr>file_table := (file_table s)[nat i := f x]\<rparr>))"

definition get_fd :: "u64 \<Rightarrow> int \<Rightarrow> ('z kstate_scheme, int) kcall" where
  "get_fd task fd =
     bnd (get_task task) (\<lambda>t.
     if 0 \<le> fd \<and> nat fd < length (t_fd_table t) then ret (t_fd_table t ! nat fd) else fail OutOfBounds)"

definition set_fd :: "u64 \<Rightarrow> int \<Rightarrow> int \<Rightarrow> ('z kstate_scheme, unit) kcall" where
  "set_fd task fd v =
     bnd (get_fd task fd) (\<lambda>_. upd_task task (\<lambda>t. t\<lparr>t_fd_table := (t_fd_table t)[nat fd := v]\<rparr>))"

section \<open>Free slots (fs/file.c)\<close>

text \<open>The two loops, with \<open>k\<close> entries left to look at.\<close>

fun slot_scan :: "file_struct list \<Rightarrow> nat \<Rightarrow> nat \<Rightarrow> nat res" where
  "slot_scan ft i 0 = Inr i"
| "slot_scan ft i (Suc k) =
     (if i < length ft then if f_inode (ft ! i) = 0 then Inr i else slot_scan ft (Suc i) k else Inl OutOfBounds)"

definition get_free_slot :: "u64 \<Rightarrow> u32 \<Rightarrow> (('h, 'z) fistate_scheme, int) kcall" where
  "get_free_slot inode type =
     bnd (kget file_table) (\<lambda>ft.
     bnd (of_res (slot_scan ft 0 FILE_TABLE_SIZE)) (\<lambda>i.
     bnd (if i \<noteq> FILE_TABLE_SIZE
          then bnd (upd_file (int i) (\<lambda>f. f\<lparr>f_inode := inode\<rparr>)) (\<lambda>_.
               bnd (upd_file (int i) (\<lambda>f. f\<lparr>f_pos := 0\<rparr>)) (\<lambda>_.
               upd_file (int i) (\<lambda>f. f\<lparr>ft_type := type\<rparr>)))
          else ret ()) (\<lambda>_.
     ret (int i))))"

fun fd_scan :: "int list \<Rightarrow> nat \<Rightarrow> nat \<Rightarrow> nat res" where
  "fd_scan fds i 0 = Inr i"
| "fd_scan fds i (Suc k) =
     (if i < length fds then if fds ! i = -1 then Inr i else fd_scan fds (Suc i) k else Inl OutOfBounds)"

definition free_fd_alloc :: "('z kstate_scheme, int) kcall" where
  "free_fd_alloc =
     bnd running_task (\<lambda>cur_task.
     bnd (get_task cur_task) (\<lambda>t.
     bnd (of_res (fd_scan (t_fd_table t) 0 MAX_FILES_OPEN_PER_PROC)) (\<lambda>i.
     ret (int i))))"

section \<open>Pipes (userprog/pipe.c)\<close>

definition get_pipe :: "u64 \<Rightarrow> ('z iostate_scheme, ioqueue) kcall" where
  "get_pipe ioq = (if ioq = 0 then fail NullDeref else get_ioq ioq)"

text \<open>\<^verbatim>\<open>pipe_fd\<close> is the caller's array of two descriptors, given back with the result.\<close>

definition sys_pipe :: "int list \<Rightarrow> (('h, 'z) fistate_scheme, int \<times> int list) kcall" where
  "sys_pipe pipe_fd =
     bnd running_task (\<lambda>task.
     bnd (alloc_pages 1) (\<lambda>page.
     bnd (get_free_slot page FT_FIFO) (\<lambda>ft_idx.
     if ft_idx = int FILE_TABLE_SIZE then ret (- int FILE_TABLE_SIZE, pipe_fd)
     else bnd (get_file ft_idx) (\<lambda>f.
          bnd (ioqueue_init (f_inode f)) (\<lambda>_.
          bnd (upd_file ft_idx (\<lambda>f. f\<lparr>f_pos := 2\<rparr>)) (\<lambda>_.
          bnd free_fd_alloc (\<lambda>fd0.
          let pipe_fd = pipe_fd[0 := fd0] in
          if fd0 = int MAX_FILES_OPEN_PER_PROC
          then bnd (free_pages (f_inode f) 1) (\<lambda>_. ret (- int MAX_FILES_OPEN_PER_PROC, pipe_fd))
          else bnd (set_fd task fd0 ft_idx) (\<lambda>_.
               bnd free_fd_alloc (\<lambda>fd1.
               let pipe_fd = pipe_fd[1 := fd1] in
               if fd1 = int MAX_FILES_OPEN_PER_PROC
               then bnd (set_fd task fd0 (-1)) (\<lambda>_.
                    bnd (free_pages (f_inode f) 1) (\<lambda>_.
                    ret (- int MAX_FILES_OPEN_PER_PROC, pipe_fd)))
               else bnd (set_fd task fd1 ft_idx) (\<lambda>_.
                    ret (0, pipe_fd)))))))))))"

text \<open>\<^verbatim>\<open>pipe_read\<close> returns the bytes it stores; their number is the C result.\<close>

definition pipe_read :: "int \<Rightarrow> u64 \<Rightarrow> (('h, 'z) fistate_scheme, u8 list) kcall" where
  "pipe_read fd count =
     bnd running_task (\<lambda>task.
     bnd (get_fd task fd) (\<lambda>ft_idx.
     bnd (get_file ft_idx) (\<lambda>f.
     let ioq = f_inode f in
     bnd (get_pipe ioq) (\<lambda>q.
     let ioq_len = ioq_length q;
         size = (if ioq_len > unat count then unat count else ioq_len) in
     get_chars ioq size))))"

definition pipe_write :: "int \<Rightarrow> u8 list \<Rightarrow> u64 \<Rightarrow> (('h, 'z) fistate_scheme, int) kcall" where
  "pipe_write fd buf count =
     bnd running_task (\<lambda>task.
     bnd (get_fd task fd) (\<lambda>ft_idx.
     bnd (get_file ft_idx) (\<lambda>f.
     let ioq = f_inode f in
     bnd (get_pipe ioq) (\<lambda>q.
     let ioq_left = bufsize - ioq_length q;
         size = (if ioq_left > unat count then unat count else ioq_left) in
     bnd (of_res (copy_out buf 0 size)) (\<lambda>buffer.
     bnd (put_chars ioq buffer) (\<lambda>_.
     ret (int size)))))))"

definition sys_dup2 :: "int \<Rightarrow> int \<Rightarrow> ('z kstate_scheme, int) kcall" where
  "sys_dup2 oldfd newfd =
     bnd running_task (\<lambda>cur_task.
     bnd (get_fd cur_task newfd) (\<lambda>new_ft_idx.
     bnd (set_fd cur_task oldfd new_ft_idx) (\<lambda>_.
     ret newfd)))"

lemmas pipe_defs [kdefs] =
  get_free_slot_def free_fd_alloc_def sys_pipe_def pipe_read_def pipe_write_def sys_dup2_def

section \<open>Slots and descriptors\<close>

text \<open>\<open>fd_slot s t fd i\<close>: descriptor \<open>fd\<close> of task \<open>t\<close> stands for entry \<open>i\<close> of the table.\<close>

definition fd_slot :: "('h, 'z) fistate_scheme \<Rightarrow> u64 \<Rightarrow> int \<Rightarrow> nat \<Rightarrow> bool" where
  "fd_slot s t fd i \<longleftrightarrow> 0 \<le> fd \<and> nat fd < length (t_fd_table (tasks s t)) \<and> t_fd_table (tasks s t) ! nat fd = int i \<and>
     i < length (file_table s)"

lemma fd_access:
  fixes s :: "('h, 'z) fistate_scheme"
  assumes "fd_slot s t fd i"
  shows "get_fd t fd s = Ret (int i) s" "get_file (int i) s = Ret (file_table s ! i) s"
    "upd_file (int i) f s = Ret () (s\<lparr>file_table := (file_table s)[i := f (file_table s ! i)]\<rparr>)"
  using assms by (simp_all add: fd_slot_def get_fd_def get_task_def get_file_def upd_file_def kput_def ret_def)

lemma fd_slot_cong:
  "tasks s' = tasks s \<Longrightarrow> length (file_table s') = length (file_table s) \<Longrightarrow> fd_slot s' t fd i = fd_slot s t fd i"
  by (simp add: fd_slot_def)

lemma slot_scan_ok:
  assumes "i + k \<le> length ft"
  shows "slot_scan ft i k = Inr (i + length (takeWhile (\<lambda>f. f_inode f \<noteq> 0) (take k (drop i ft))))"
  using assms
proof (induction k arbitrary: i)
  case (Suc k)
  then have "take (Suc k) (drop i ft) = ft ! i # take k (drop (Suc i) ft)" by (simp add: Cons_nth_drop_Suc[symmetric])
  then show ?case using Suc.IH[of "Suc i"] Suc.prems by simp
qed simp

lemma fd_scan_ok:
  assumes "i + k \<le> length fds"
  shows "fd_scan fds i k = Inr (i + length (takeWhile (\<lambda>f. f \<noteq> -1) (take k (drop i fds))))"
  using assms
proof (induction k arbitrary: i)
  case (Suc k)
  then have "take (Suc k) (drop i fds) = fds ! i # take k (drop (Suc i) fds)" by (simp add: Cons_nth_drop_Suc[symmetric])
  then show ?case using Suc.IH[of "Suc i"] Suc.prems by simp
qed simp

section \<open>What a pipe does\<close>

lemma quiet_running: "quiet s a cur rs ws \<Longrightarrow> running_task s = Ret cur s"
  using sched_okD(1,2)[OF run_okD(1), of s cur rs ws] by (simp add: quiet_def)

lemma set_ioq_fistate [simp]: "file_table (set_ioq a q s) = file_table s"
  by (simp add: set_ioq_def)

text \<open>\<open>piped s cur fd a\<close>: descriptor \<open>fd\<close> of the running task stands for the pipe with its queue at \<open>a\<close>.\<close>

definition piped :: "('h, 'z) fistate_scheme \<Rightarrow> u64 \<Rightarrow> int \<Rightarrow> u64 \<Rightarrow> bool" where
  "piped s cur fd a \<longleftrightarrow> a \<noteq> 0 \<and> (\<exists>i < FILE_TABLE_SIZE. fd_slot s cur fd i \<and> f_inode (file_table s ! i) = a \<and> ft_type (file_table s ! i) = FT_FIFO)"

lemma pipe_write_ok:
  fixes s :: "('h, 'z) fistate_scheme"
  assumes q: "quiet s a cur rs ws" and p: "piped s cur fd a" and n: "unat n \<le> length buf" "length (contents (ioqs s a)) + unat n \<le> bufsize - 1"
  shows "\<exists>q h. pipe_write fd buf n s = Ret (int (unat n)) (set_ioq a q (s\<lparr>links := h\<rparr>)) \<and>
    quiet (set_ioq a q (s\<lparr>links := h\<rparr>)) a cur rs ws \<and> contents q = contents (ioqs s a) @ take (unat n) buf"
proof -
  obtain i where i: "fd_slot s cur fd i" "f_inode (file_table s ! i) = a" "a \<noteq> 0" using p by (auto simp: piped_def)
  have sz: "unat n < bufsize - ioq_length (ioqs s a)" using n(2) by (simp add: bufsize_def)
  obtain q' h where "put_chars a (take (unat n) buf) s = Ret () (set_ioq a q' (s\<lparr>links := h\<rparr>))"
      "quiet (set_ioq a q' (s\<lparr>links := h\<rparr>)) a cur rs ws" "contents q' = contents (ioqs s a) @ take (unat n) buf"
    using put_chars_quiet[OF q, of "take (unat n) buf"] n by (auto simp del: set_ioq_simps(10))
  then show ?thesis
    using fd_access(1,2)[OF i(1)] quiet_running[OF q] i(2,3) sz n(1)
    by (intro exI[of _ q'] exI[of _ h]) (simp add: pipe_write_def Let_def get_pipe_def get_ioq_def copy_out_def ret_def)
qed

lemma pipe_read_ok:
  fixes s :: "('h, 'z) fistate_scheme"
  assumes q: "quiet s a cur rs ws" and p: "piped s cur fd a"
  shows "\<exists>q h. pipe_read fd n s = Ret (take (unat n) (contents (ioqs s a))) (set_ioq a q (s\<lparr>links := h\<rparr>)) \<and>
    quiet (set_ioq a q (s\<lparr>links := h\<rparr>)) a cur rs ws \<and> contents q = drop (unat n) (contents (ioqs s a))"
proof -
  obtain i where i: "fd_slot s cur fd i" "f_inode (file_table s ! i) = a" "a \<noteq> 0" using p by (auto simp: piped_def)
  let ?c = "contents (ioqs s a)"
  obtain q' h where "get_chars a (length (take (unat n) ?c)) s = Ret (take (unat n) ?c) (set_ioq a q' (s\<lparr>links := h\<rparr>))"
      "quiet (set_ioq a q' (s\<lparr>links := h\<rparr>)) a cur rs ws" "contents q' = drop (unat n) ?c"
    using get_chars_quiet[OF q, of "take (unat n) ?c" "drop (unat n) ?c"] by (auto simp del: set_ioq_simps(10))
  then show ?thesis
    using fd_access(1,2)[OF i(1)] quiet_running[OF q] i(2,3)
    by (intro exI[of _ q'] exI[of _ h])
      (simp add: pipe_read_def Let_def get_pipe_def get_ioq_def min_def length_contents del: set_ioq_simps(10) split: if_splits)
qed

lemma put_chars_append: "put_chars a (xs @ ys) = bnd (put_chars a xs) (\<lambda>_. put_chars a ys)"
proof (induction xs)
  case Nil
  then show ?case by (simp add: fun_eq_iff)
next
  case (Cons x xs)
  then show ?case by (simp add: bnd_assoc)
qed

lemma pipe_write_sleeps:
  fixes s :: "('h, 'z) fistate_scheme"
  assumes q: "quiet s a cur rs ws" and p: "piped s cur fd a" and n: "unat n \<le> length buf" "bufsize - 1 < length (contents (ioqs s a)) + unat n"
    and l: "sema_value s (IoSema a) = 1" "ws (IoSema a) = []" and idle: "cur \<noteq> idle_task s" and nxt: "candidates s rs = nxt # qs"
  shows "\<exists>s'. (\<forall>k :: int \<Rightarrow> (('h, 'z) fistate_scheme, 'r) kcall. bnd (pipe_write fd buf n) k s = Sleep s') \<and> run_ok s' nxt qs ws \<and>
    sema_value s' = (sema_value s)(IoSema a := 0) \<and> length (contents (ioqs s' a)) = bufsize - 1"
proof -
  obtain i where i: "fd_slot s cur fd i" "f_inode (file_table s ! i) = a" "a \<noteq> 0" using p by (auto simp: piped_def)
  let ?c = "contents (ioqs s a)" and ?m = "bufsize - 1 - length (contents (ioqs s a))"
  have r: "ring_ok (ioqs s a)" using q by (simp add: quiet_def)
  have lc: "length ?c < bufsize" using ioq_length_less[OF r] by simp
  let ?sz = "bufsize - ioq_length (ioqs s a)"
  have sz: "?sz = Suc ?m" "?sz \<le> unat n" using lc n(2) by (simp_all add: length_contents)
  have split: "take ?sz buf = take ?m buf @ [buf ! ?m]" using sz n(1) by (simp add: take_Suc_conv_app_nth)
  have lm: "length (take ?m buf) = ?m" using sz n(1) by simp
  obtain q' h where w: "put_chars a (take ?m buf) s = Ret () (set_ioq a q' (s\<lparr>links := h\<rparr>))"
      "quiet (set_ioq a q' (s\<lparr>links := h\<rparr>)) a cur rs ws" "contents q' = ?c @ take ?m buf"
    using put_chars_quiet[OF q, of "take ?m buf"] lc lm by (auto simp del: set_ioq_simps(10))
  let ?s = "set_ioq a q' (s\<lparr>links := h\<rparr>)"
  note Q = w(2)[unfolded quiet_def]
  have lock: "lock_free ?s (IoSema a)"
    using sched_okD(6)[OF run_okD(1)[OF conjunct1[OF Q]], of "IoSema a"] l by (simp add: lock_free_def)
  have full: "length (contents (ioqs ?s a)) = bufsize - 1" using w(3) lm lc by simp
  have cand: "candidates ?s rs = nxt # qs" using nxt by (auto simp: candidates_def split: if_splits)
  obtain s' where s': "ioq_putchar a (buf ! ?m) ?s = Sleep s'" "run_ok s' nxt qs ws"
      "ioqs s' = (ioqs ?s)(a := (ioqs ?s a)\<lparr>producer := cur\<rparr>)" "sema_value s' = (sema_value ?s)(IoSema a := 0)"
    using ioq_putchar_sleeps[of ?s cur rs ws a nxt qs "buf ! ?m"] Q full lock cand idle by (auto simp del: set_ioq_simps(10))
  have pc: "put_chars a (take ?sz buf) s = Sleep s'"
    unfolding split put_chars_append using w(1) s'(1) by simp
  have "\<not> ?sz > unat n" "?sz \<le> length buf" using sz(2) n(1) by simp_all
  then have "bnd (pipe_write fd buf n) k s = Sleep s'" for k :: "int \<Rightarrow> (('h, 'z) fistate_scheme, 'r) kcall"
    using fd_access(1,2)[OF i(1)] quiet_running[OF q] i(2,3) pc
    by (simp add: pipe_write_def Let_def get_pipe_def get_ioq_def copy_out_def)
  then show ?thesis using s' full by (intro exI[of _ s']) simp
qed

section \<open>Properties\<close>

text \<open>C32. A pipe delivers what was written to it, in order. Bytes that fit into the free part of the pipe's queue are all
  written, and a read returns the oldest bytes of the pipe, as many as were asked for or are there, and removes exactly them; neither
  call waits.\<close>

theorem pipe_delivers:
  fixes s :: "('h, 'z) fistate_scheme"
  assumes "quiet s a cur rs ws" "piped s cur fd a" "unat n \<le> length buf" "length (contents (ioqs s a)) + unat n \<le> bufsize - 1"
  shows "\<exists>s1 s2. pipe_write fd buf n s = Ret (int (unat n)) s1 \<and>
    pipe_read fd m s1 = Ret (take (unat m) (contents (ioqs s a) @ take (unat n) buf)) s2 \<and>
    contents (ioqs s2 a) = drop (unat m) (contents (ioqs s a) @ take (unat n) buf)"
proof -
  obtain q h where w: "pipe_write fd buf n s = Ret (int (unat n)) (set_ioq a q (s\<lparr>links := h\<rparr>))"
      "quiet (set_ioq a q (s\<lparr>links := h\<rparr>)) a cur rs ws" "contents q = contents (ioqs s a) @ take (unat n) buf"
    using pipe_write_ok[OF assms] by blast
  have "piped (set_ioq a q (s\<lparr>links := h\<rparr>)) cur fd a" using assms(2) by (simp add: piped_def fd_slot_def)
  from pipe_read_ok[OF w(2) this, of m] show ?thesis using w by auto
qed

text \<open>A table with a pipe at 0x3000 and an open file at 16, and a task with both.\<close>

definition demo_fi :: "intr_stat \<Rightarrow> ata_dev fistate" where
  "demo_fi i = (instate.extend demo_in (fistate.fields
     ([\<lparr>f_pos = 2, f_inode = 0x3000, ft_type = FT_FIFO\<rparr>, \<lparr>f_pos = 0, f_inode = 16, ft_type = FT_REG\<rparr>] @
      replicate 169 \<lparr>f_pos = 0, f_inode = 0, ft_type = FT_DIR\<rparr>)))
     \<lparr>intr_flag := i, tasks := (\<lambda>t. (tasks demo_io t)\<lparr>t_fd_table := [0, 1] @ replicate 30 (-1)\<rparr>)\<rparr>"

lemma demo_fi_simps [simp]:
  "file_table (demo_fi i) = [\<lparr>f_pos = 2, f_inode = 0x3000, ft_type = FT_FIFO\<rparr>, \<lparr>f_pos = 0, f_inode = 16, ft_type = FT_REG\<rparr>] @
      replicate 169 \<lparr>f_pos = 0, f_inode = 0, ft_type = FT_DIR\<rparr>"
  "intr_flag (demo_fi i) = i" "tasks (demo_fi i) = (\<lambda>t. (tasks demo_io t)\<lparr>t_fd_table := [0, 1] @ replicate 30 (-1)\<rparr>)"
  "links (demo_fi i) = links demo_io" "ist2 (demo_fi i) = ist2 demo_io" "idle_task (demo_fi i) = idle_task demo_io"
  "ioqs (demo_fi i) = ioqs demo_io" "sema_value (demo_fi i) = sema_value demo_in" "hw (demo_fi i) = demo_disk" "sb (demo_fi i) = demo_sb"
  "inodes (demo_fi i) = inodes demo_in" "kernel_mem_pool (demo_fi i) = kernel_mem_pool demo_in" "hd_cnt (demo_fi i) = hd_cnt demo_in"
  "expecting_intr (demo_fi i) = expecting_intr demo_in"
  by (simp_all add: demo_fi_def instate.extend_def fistate.fields_def demo_in_def dkstate.extend_def instate.fields_def demo_dk_def
      kbdstate.extend_def hwstate.extend_def demo_hw_def iostate.extend_def hwstate.fields_def kbdstate.fields_def dkstate.fields_def)

lemma demo_fi_run_ok: "run_ok (demo_fi i) 0x1000 [0x2000] (\<lambda>_. [])"
  using demo_io_run_ok by (simp add: run_ok_def sched_ok_def tq_def)

lemma demo_fi_quiet: "quiet (demo_fi intr_off) a 0x1000 [0x2000] (\<lambda>_. [])" "contents (ioqs (demo_fi i) a) = []"
  using demo_fi_run_ok demo_io_quiet[of a] by (simp_all add: quiet_def)

lemma FILE_TABLE_SIZE_eq [simp]: "FILE_TABLE_SIZE = 170"
  by (simp add: FILE_TABLE_SIZE_def)

lemma demo_fi_slots: "fd_slot (demo_fi i) t 0 0" "fd_slot (demo_fi i) t 1 1" "piped (demo_fi i) t 0 0x3000"
proof -
  show s: "fd_slot (demo_fi i) t 0 0" "fd_slot (demo_fi i) t 1 1" by (simp_all add: fd_slot_def)
  then show "piped (demo_fi i) t 0 0x3000" unfolding piped_def by (intro conjI exI[of _ 0]) simp_all
qed

theorem pipe_delivers_witness:
  "\<exists>s1 s2. pipe_write 0 [104, 105] 2 (demo_fi intr_off) = Ret 2 s1 \<and> pipe_read 0 1 s1 = Ret [104] s2 \<and> contents (ioqs s2 0x3000) = [105]"
  using pipe_delivers[OF demo_fi_quiet(1) demo_fi_slots(3), of 2 "[104, 105]" 1] demo_fi_quiet(2)[of intr_off "0x3000"]
    length_contents[of "ioqs (demo_fi intr_off) 0x3000"]
  by (auto simp: bufsize_def)

end
