(* ===== verification/File.thy ===== *)
theory File
  imports Pipe Print
begin

text \<open>
  The file system calls of \<^verbatim>\<open>fs/file.c\<close> and \<^verbatim>\<open>fs/dir.c\<close>.

  A path name is the list of bytes of the object it is in. \<open>u\<close> is what an uninitialised \<^verbatim>\<open>struct dirent\<close> holds. \<^verbatim>\<open>sys_read\<close> returns
  the C result and the bytes it stores; \<^verbatim>\<open>sys_write\<close> takes the caller's buffer as a list.
\<close>

section \<open>Nodes (fs/file.c)\<close>

text \<open>\<^verbatim>\<open>struct dirent de = {i_no, name, type}\<close>, with a name shorter than the array.\<close>

definition new_dirent :: "dirent \<Rightarrow> u64 \<Rightarrow> u8 list \<Rightarrow> u32 \<Rightarrow> dirent" where
  "new_dirent u ino name type =
     \<lparr>de_i_no = ino, filename = name @ replicate (MAX_FILE_NAME_LEN - length name) 0, f_type = type, de_pad = de_pad u\<rparr>"

text \<open>\<^verbatim>\<open>strcpy(de.filename, de_buf.filename)\<close>\<close>

definition copy_name :: "dirent \<Rightarrow> dirent \<Rightarrow> dirent res" where
  "copy_name de de_buf =
     rbind (strcpy (enc_dirent de @ enc_dirent de_buf) 8 40) (\<lambda>(p, m). Inr (dec_dirent (take 32 m)))"

definition sys_mknod :: "'h machine \<Rightarrow> dirent \<Rightarrow> u8 list \<Rightarrow> u32 \<Rightarrow> int \<Rightarrow> (('h, 'z) fistate_scheme, int) kcall" where
  "sys_mknod M u pathname type dev =
     (if type \<noteq> FT_CHR \<and> type \<noteq> FT_REG then ret (- FILE_TYPE_INVALID)
      else bnd (path_prase M u pathname u) (\<lambda>(p_i_no, de_buf).
           if p_i_no = - DIRENT_ISNT_EXIST then ret p_i_no
           else if de_i_no de_buf \<noteq> ULONG_MAX then ret (- DIRENT_ALREADY_EXIST)
           else bnd (if type = FT_REG then disk_inode_create M else ret dev) (\<lambda>dev.
                if type = FT_REG \<and> dev < 0 then ret dev
                else bnd (inode_open M (of_int p_i_no)) (\<lambda>parent_inode.
                     bnd (inode_lock_down parent_inode) (\<lambda>_.
                     bnd (of_res (copy_name (new_dirent u (of_int dev) [] type) de_buf)) (\<lambda>de.
                     bnd (dirent_add M parent_inode de) (\<lambda>add_suc.
                     if add_suc \<noteq> DIRENT_SIZE
                     then bnd (if type = FT_REG then disk_inode_delete M (of_int dev) else ret ()) (\<lambda>_.
                          bnd (inode_lock_up parent_inode) (\<lambda>_.
                          bnd (inode_close parent_inode) (\<lambda>_.
                          ret add_suc)))
                     else bnd (inode_lock_up parent_inode) (\<lambda>_.
                          bnd (inode_close parent_inode) (\<lambda>_.
                          ret dev)))))))))"

text \<open>The end of \<^verbatim>\<open>sys_unlink\<close> and of \<^verbatim>\<open>sys_rmdir\<close>: the inode and then the entry are deleted.\<close>

definition delete_node :: "'h machine \<Rightarrow> dirent \<Rightarrow> int \<Rightarrow> dirent \<Rightarrow> (('h, 'z) fistate_scheme, int) kcall" where
  "delete_node M u p_i_no de_buf =
     bnd (disk_inode_delete M (de_i_no de_buf)) (\<lambda>_.
     bnd (inode_open M (of_int p_i_no)) (\<lambda>parent_inode.
     bnd (inode_lock_down parent_inode) (\<lambda>_.
     bnd (dirent_delete M u parent_inode (name_mem de_buf)) (\<lambda>_.
     bnd (inode_lock_up parent_inode) (\<lambda>_.
     bnd (inode_close parent_inode) (\<lambda>_.
     ret 0))))))"

definition sys_unlink :: "'h machine \<Rightarrow> dirent \<Rightarrow> u8 list \<Rightarrow> (('h, 'z) fistate_scheme, int) kcall" where
  "sys_unlink M u pathname =
     bnd (path_prase M u pathname u) (\<lambda>(p_i_no, de_buf).
     if p_i_no = - DIRENT_ISNT_EXIST then ret p_i_no
     else if de_i_no de_buf = ULONG_MAX then ret (- FILE_ISNT_EXIST)
     else if f_type de_buf = FT_DIR then ret (- ISNT_DIR)
     else delete_node M u p_i_no de_buf)"

section \<open>Open files (fs/file.c)\<close>

definition sys_open :: "'h machine \<Rightarrow> dirent \<Rightarrow> u8 list \<Rightarrow> (('h, 'z) fistate_scheme, int) kcall" where
  "sys_open M u pathname =
     bnd (path_prase M u pathname u) (\<lambda>(p_i_no, de_buf).
     if p_i_no < 0 \<or> de_i_no de_buf = ULONG_MAX then ret (- FILE_ISNT_EXIST)
     else bnd free_fd_alloc (\<lambda>fd.
          if fd = int MAX_FILES_OPEN_PER_PROC then ret (- fd)
          else bnd (if f_type de_buf = FT_CHR then ret console_addr else inode_open M (de_i_no de_buf)) (\<lambda>inode.
               bnd (sema_down FileTableLock) (\<lambda>_.
               bnd (get_free_slot inode (f_type de_buf)) (\<lambda>ft_idx.
               bnd (if f_type de_buf = FT_CHR then upd_file ft_idx (\<lambda>f. f\<lparr>f_pos := 1\<rparr>) else ret ()) (\<lambda>_.
               bnd (sema_up FileTableLock) (\<lambda>_.
               if ft_idx = int FILE_TABLE_SIZE then ret (- ft_idx)
               else bnd running_task (\<lambda>task.
                    bnd (set_fd task fd ft_idx) (\<lambda>_.
                    ret fd)))))))))"

text \<open>The check at the start of the calls that take a descriptor, after \<^verbatim>\<open>fd_table[fd]\<close> has been read.\<close>

definition fd_bad :: "int \<Rightarrow> int \<Rightarrow> bool" where
  "fd_bad fd ft_idx \<longleftrightarrow> fd < 0 \<or> fd > int MAX_FILES_OPEN_PER_PROC \<or> ft_idx < 0 \<or> ft_idx \<ge> int FILE_TABLE_SIZE"

text \<open>The part of \<^verbatim>\<open>sys_close\<close> that depends on the type; it gives \<^verbatim>\<open>clear_f_inode\<close>.\<close>

definition close_by_type :: "int \<Rightarrow> (('h, 'z) fistate_scheme, bool) kcall" where
  "close_by_type ft_idx =
     bnd (get_file ft_idx) (\<lambda>f.
     if ft_type f = FT_CHR
     then bnd (upd_file ft_idx (\<lambda>f. f\<lparr>f_pos := f_pos f - 1\<rparr>)) (\<lambda>_.
          bnd (get_file ft_idx) (\<lambda>f. ret (f_pos f = 0)))
     else if ft_type f = FT_FIFO
     then bnd (upd_file ft_idx (\<lambda>f. f\<lparr>f_pos := f_pos f - 1\<rparr>)) (\<lambda>_.
          bnd (get_file ft_idx) (\<lambda>f.
          if f_pos f = 0 then bnd (free_pages (f_inode f) 1) (\<lambda>_. ret True) else ret False))
     else bnd (inode_close (f_inode f)) (\<lambda>_. ret True))"

definition sys_close :: "int \<Rightarrow> (('h, 'z) fistate_scheme, int) kcall" where
  "sys_close fd =
     bnd running_task (\<lambda>cur_task.
     bnd (get_fd cur_task fd) (\<lambda>ft_idx.
     if fd_bad fd ft_idx then ret (- FD_INVALID)
     else bnd (sema_down FileTableLock) (\<lambda>_.
          bnd (get_file ft_idx) (\<lambda>f.
          bnd (ASSERT (f_inode f \<noteq> 0)) (\<lambda>_.
          bnd (close_by_type ft_idx) (\<lambda>clear_f_inode.
          bnd (if clear_f_inode then upd_file ft_idx (\<lambda>f. f\<lparr>f_inode := 0\<rparr>) else ret ()) (\<lambda>_.
          bnd (sema_up FileTableLock) (\<lambda>_.
          bnd (set_fd cur_task fd (-1)) (\<lambda>_.
          ret 0)))))))))"

definition SEEK_SET :: u32 where "SEEK_SET = 0"
definition SEEK_CUR :: u32 where "SEEK_CUR = 1"
definition SEEK_END :: u32 where "SEEK_END = 2"

definition seek_pos :: "u32 \<Rightarrow> int \<Rightarrow> int \<Rightarrow> int \<Rightarrow> int" where
  "seek_pos whence offset pos sz =
     (if whence = SEEK_SET then offset else if whence = SEEK_CUR then pos + offset else if whence = SEEK_END then sz + offset else 0)"

definition sys_lseek :: "int \<Rightarrow> int \<Rightarrow> u32 \<Rightarrow> (('h, 'z) fistate_scheme, int) kcall" where
  "sys_lseek fd offset whence =
     bnd running_task (\<lambda>cur_task.
     bnd (get_fd cur_task fd) (\<lambda>ft_idx.
     if fd_bad fd ft_idx then ret (- FD_INVALID)
     else bnd (sema_down FileTableLock) (\<lambda>_.
          bnd (get_file ft_idx) (\<lambda>pf.
          if ft_type pf \<noteq> FT_REG \<and> ft_type pf \<noteq> FT_DIR
          then bnd (sema_up FileTableLock) (\<lambda>_. ret 0)
          else bnd (get_inode (f_inode pf)) (\<lambda>x.
               let size = sint (file_size (dinode x));
                   new_pos = seek_pos whence offset (f_pos pf) size in
               if new_pos < 0 \<or> new_pos > size
               then bnd (sema_up FileTableLock) (\<lambda>_. ret (-1))
               else bnd (upd_file ft_idx (\<lambda>f. f\<lparr>f_pos := new_pos\<rparr>)) (\<lambda>_.
                    bnd (sema_up FileTableLock) (\<lambda>_.
                    ret new_pos)))))))"

definition sys_read :: "'h machine \<Rightarrow> int \<Rightarrow> u64 \<Rightarrow> (('h, 'z) fistate_scheme, int \<times> u8 list) kcall" where
  "sys_read M fd count =
     bnd running_task (\<lambda>cur_task.
     bnd (get_fd cur_task fd) (\<lambda>ft_idx.
     if fd_bad fd ft_idx then ret (- FD_INVALID, [])
     else bnd (sema_down FileTableLock) (\<lambda>_.
          bnd (get_file ft_idx) (\<lambda>pf.
          let inode = f_inode pf in
          bnd (if ft_type pf = FT_DIR \<or> ft_type pf = FT_REG
               then bnd (inode_lock_down inode) (\<lambda>_.
                    bnd (inode_read M inode count (of_int (f_pos pf))) (\<lambda>data.
                    bnd (inode_lock_up inode) (\<lambda>_.
                    let nbyte = int (length data) in
                    bnd (if nbyte > 0 then upd_file ft_idx (\<lambda>f. f\<lparr>f_pos := f_pos f + nbyte\<rparr>) else ret ()) (\<lambda>_.
                    ret data))))
               else ret []) (\<lambda>data.
          bnd (get_file ft_idx) (\<lambda>pf.
          bnd (sema_up FileTableLock) (\<lambda>_.
          if ft_type pf = FT_CHR
          then bnd (console_read (unat count)) (\<lambda>data. ret (sint count, data))
          else if ft_type pf = FT_FIFO
          then bnd (pipe_read fd count) (\<lambda>data. ret (int (length data), data))
          else ret (int (length data), data))))))))"

definition sys_write :: "'h machine \<Rightarrow> int \<Rightarrow> u8 list \<Rightarrow> u64 \<Rightarrow> (('h, 'z) fistate_scheme, int) kcall" where
  "sys_write M fd buf count =
     bnd running_task (\<lambda>cur_task.
     bnd (get_fd cur_task fd) (\<lambda>ft_idx.
     if fd_bad fd ft_idx then ret (- FD_INVALID)
     else bnd (sema_down FileTableLock) (\<lambda>_.
          bnd (get_file ft_idx) (\<lambda>pf.
          let inode = f_inode pf in
          bnd (if ft_type pf = FT_REG
               then bnd (inode_lock_down inode) (\<lambda>_.
                    bnd (inode_write M inode buf count (of_int (f_pos pf))) (\<lambda>nbyte.
                    bnd (inode_lock_up inode) (\<lambda>_.
                    bnd (if nbyte > 0 then upd_file ft_idx (\<lambda>f. f\<lparr>f_pos := f_pos f + nbyte\<rparr>) else ret ()) (\<lambda>_.
                    ret nbyte))))
               else if ft_type pf = FT_CHR
               then bnd (of_res (copy_out buf 0 (unat count))) (\<lambda>str.
                    bnd (console_write M str) (\<lambda>_.
                    ret (sint count)))
               else if ft_type pf = FT_FIFO then pipe_write fd buf count
               else ret 0) (\<lambda>nbyte.
          bnd (sema_up FileTableLock) (\<lambda>_.
          ret nbyte))))))"

section \<open>Directories (fs/dir.c)\<close>

definition sys_mkdir :: "'h machine \<Rightarrow> dirent \<Rightarrow> u8 list \<Rightarrow> (('h, 'z) fistate_scheme, int) kcall" where
  "sys_mkdir M u pathname =
     bnd (sys_mknod M u pathname FT_REG 0) (\<lambda>i_no.
     if i_no < 0 then ret i_no
     else bnd (path_prase M u pathname u) (\<lambda>(p_i_no, de).
          bnd (ASSERT (p_i_no \<ge> 0)) (\<lambda>_.
          bnd (inode_open M (of_int p_i_no)) (\<lambda>parent_inode.
          bnd (inode_lock_down parent_inode) (\<lambda>_.
          bnd (dirent_delete M u parent_inode (name_mem de)) (\<lambda>_.
          bnd (dirent_add M parent_inode (de\<lparr>f_type := FT_DIR\<rparr>)) (\<lambda>_.
          bnd (inode_lock_up parent_inode) (\<lambda>_.
          bnd (inode_close parent_inode) (\<lambda>_.
          bnd (inode_open M (of_int i_no)) (\<lambda>inode.
          bnd (inode_lock_down inode) (\<lambda>_.
          bnd (dirent_add M inode (new_dirent u (of_int i_no) (str_of ''.'') FT_DIR)) (\<lambda>_.
          bnd (dirent_add M inode (new_dirent u (of_int p_i_no) (str_of ''..'') FT_DIR)) (\<lambda>_.
          bnd (inode_lock_up inode) (\<lambda>_.
          bnd (inode_close inode) (\<lambda>_.
          ret 0)))))))))))))))"

definition sys_rmdir :: "'h machine \<Rightarrow> dirent \<Rightarrow> u8 list \<Rightarrow> (('h, 'z) fistate_scheme, int) kcall" where
  "sys_rmdir M u pathname =
     bnd (path_prase M u pathname u) (\<lambda>(p_i_no, de_buf).
     if p_i_no = - DIRENT_ISNT_EXIST then ret p_i_no
     else if de_i_no de_buf = ULONG_MAX then ret (- FILE_ISNT_EXIST)
     else if f_type de_buf \<noteq> FT_DIR then ret (- ISNT_DIR)
     else bnd (inode_open M (de_i_no de_buf)) (\<lambda>inode.
          bnd (inode_lock_down inode) (\<lambda>_.
          bnd (get_inode inode) (\<lambda>x.
          let empty = (file_size (dinode x) = 2 * of_int DIRENT_SIZE) in
          bnd (inode_lock_up inode) (\<lambda>_.
          bnd (inode_close inode) (\<lambda>_.
          if \<not> empty then ret (- DIR_ISNT_EMPTY)
          else delete_node M u p_i_no de_buf))))))"

record stat =
  st_ino :: u64
  st_file_type :: u32
  st_size :: u64

text \<open>\<^verbatim>\<open>stat_buf\<close> is given back with the result.\<close>

definition sys_stat :: "'h machine \<Rightarrow> dirent \<Rightarrow> u8 list \<Rightarrow> stat \<Rightarrow> (('h, 'z) fistate_scheme, int \<times> stat) kcall" where
  "sys_stat M u pathname stat_buf =
     bnd (path_prase M u pathname u) (\<lambda>(p_i_no, de_buf).
     if p_i_no = - DIRENT_ISNT_EXIST then ret (p_i_no, stat_buf)
     else if de_i_no de_buf = ULONG_MAX then ret (- FILE_ISNT_EXIST, stat_buf)
     else let stat_buf = stat_buf\<lparr>st_ino := de_i_no de_buf, st_file_type := f_type de_buf\<rparr> in
          bnd (inode_open M (de_i_no de_buf)) (\<lambda>inode.
          bnd (inode_lock_down inode) (\<lambda>_.
          bnd (get_inode inode) (\<lambda>x.
          let stat_buf = stat_buf\<lparr>st_size := file_size (dinode x)\<rparr> in
          bnd (inode_lock_up inode) (\<lambda>_.
          bnd (inode_close inode) (\<lambda>_.
          ret (0, stat_buf)))))))"

lemmas file_defs [kdefs] =
  sys_mknod_def delete_node_def sys_unlink_def sys_open_def close_by_type_def sys_close_def sys_lseek_def sys_read_def
  sys_write_def sys_mkdir_def sys_rmdir_def sys_stat_def

end
