(* ===== verification/Files.thy ===== *)
theory Files
  imports File
begin

text \<open>
  What the calls of \<^verbatim>\<open>fs/file.c\<close> do with an open regular file: through a descriptor they are operations on the contents of the file
  and a position. \<open>reg_open\<close> is the state they need: a mounted file system, the two locks free, a descriptor of the running
  task that stands for an open regular file, and a position inside the file. It holds again after every call.
\<close>

section \<open>Locks around the file system\<close>

lemma locked_fields [simp]:
  fixes s :: "('h, 'z) instate_scheme"
  shows "inodes (locked p s) = inodes s" "sb (locked p s) = sb s" "(locked p s)\<lparr>inodes := X\<rparr> = locked p (s\<lparr>inodes := X\<rparr>)"
  by (simp_all add: locked_def)

lemma locked_fi [simp]:
  fixes s :: "('h, 'z) fistate_scheme"
  shows "file_table (locked p s) = file_table s" "(locked p s)\<lparr>file_table := F\<rparr> = locked p (s\<lparr>file_table := F\<rparr>)"
    "sema_free q (s\<lparr>file_table := F\<rparr>) = sema_free q s"
  by (simp_all add: locked_def sema_free_def lock_free_def cur_ok_def tq_def)

lemma sema_free_locked [simp]: "p \<noteq> q \<Longrightarrow> sema_free p (locked q s) = sema_free p s"
  by (simp add: sema_free_def lock_free_def cur_ok_def tq_def locked_def)

lemma room_locked [simp]: "room n (locked p s) = room n s"
  by (simp add: room_def locked_def)

lemma fs_inv_locked [simp]: "fs_lock p \<Longrightarrow> p \<noteq> FsBitmapLock \<Longrightarrow> fs_inv M dev A (locked p s) = fs_inv M dev A s"
  by (simp add: fs_inv_def map_ok_def)

lemma fs_inv_table [simp]:
  fixes s :: "('h, 'z) fistate_scheme"
  shows "fs_inv M dev A (s\<lparr>file_table := F\<rparr>) = fs_inv M dev A s"
proof -
  have p: "pool_of mp (s\<lparr>file_table := F\<rparr>) = pool_of mp s" for mp by (cases mp) simp_all
  have "bio_ok M dev (s\<lparr>file_table := F\<rparr>) = bio_ok M dev s"
    by (simp add: bio_ok_def io_ready_def dk_ok_def lock_free_def cur_ok_def tq_def pool_ok_def room_def p)
  then show ?thesis by (simp add: fs_inv_def map_ok_def room_def p)
qed

lemma cur_ok_running: "sema_free p s \<Longrightarrow> running_task s = Ret (ist2 s - PG_SIZE) s"
  by (intro running_task_eq) (simp_all add: sema_free_def cur_ok_def)

section \<open>An open regular file\<close>

definition reg_open :: "'h machine \<Rightarrow> ('h \<Rightarrow> ata_dev) \<Rightarrow> u64 set \<Rightarrow> int \<Rightarrow> nat \<Rightarrow> u64 \<Rightarrow> ('h, 'z) fistate_scheme \<Rightarrow> bool" where
  "reg_open M dev A fd i a s \<longleftrightarrow> fs_inv M dev A s \<and> a \<in> A \<and> sema_free FileTableLock s \<and> sema_free (InodeLock a) s \<and>
     fd_slot s (ist2 s - PG_SIZE) fd i \<and> i < FILE_TABLE_SIZE \<and> fd \<le> int MAX_FILES_OPEN_PER_PROC \<and>
     f_inode (file_table s ! i) = a \<and> ft_type (file_table s ! i) = FT_REG \<and>
     0 \<le> f_pos (file_table s ! i) \<and> f_pos (file_table s ! i) \<le> int (length (file_bytes dev s a))"

abbreviation pos_of :: "('h, 'z) fistate_scheme \<Rightarrow> nat \<Rightarrow> nat" where
  "pos_of s i \<equiv> nat (f_pos (file_table s ! i))"

lemma reg_openD:
  assumes "reg_open M dev A fd i a s"
  shows "running_task s = Ret (ist2 s - PG_SIZE) s" "get_fd (ist2 s - PG_SIZE) fd s = Ret (int i) s" "\<not> fd_bad fd (int i)" "a \<noteq> 0"
    "unat (of_int (f_pos (file_table s ! i)) :: u64) = pos_of s i" "pos_of s i \<le> length (file_bytes dev s a)"
    "length (file_bytes dev s a) = unat (file_size (dinode (inodes s a)))" "length (file_bytes dev s a) \<le> 49152"
    "f_pos (file_table s ! i) = int (pos_of s i)" "i < length (file_table s)"
proof -
  note R = assms[unfolded reg_open_def]
  have I: "fs_inv M dev A s" "a \<in> A" using R by auto
  show len: "length (file_bytes dev s a) = unat (file_size (dinode (inodes s a)))" by (rule file_length[OF I])
  show lim: "length (file_bytes dev s a) \<le> 49152" unfolding len by (rule file_limit[OF I])
  show "running_task s = Ret (ist2 s - PG_SIZE) s" using cur_ok_running R by blast
  show "get_fd (ist2 s - PG_SIZE) fd s = Ret (int i) s" using fd_access(1) R by blast
  show "\<not> fd_bad fd (int i)" "i < length (file_table s)" using R by (auto simp: fd_bad_def fd_slot_def)
  show "a \<noteq> 0" using fs_invD(7)[OF I] by simp
  show pos: "f_pos (file_table s ! i) = int (pos_of s i)" "pos_of s i \<le> length (file_bytes dev s a)" using R by auto
  have "pos_of s i < 2 ^ 64" using pos(2) lim by simp
  then have "unat (of_nat (pos_of s i) :: u64) = pos_of s i" by (rule small_nat)
  moreover have "(of_int (f_pos (file_table s ! i)) :: u64) = of_nat (pos_of s i)" using pos(1) by (metis of_int_of_nat_eq)
  ultimately show "unat (of_int (f_pos (file_table s ! i)) :: u64) = pos_of s i" by simp
qed

text \<open>A call that moves the position, and may change the disk and the inode of the file.\<close>

lemma reg_open_after:
  fixes s s' :: "('h, 'z) fistate_scheme"
  assumes "reg_open M dev A fd i a s" "fs_inv M dev A s'" "ist2 s' = ist2 s" "tasks s' = tasks s"
    and "sema_free FileTableLock s'" "sema_free (InodeLock a) s'"
    and "file_table s' = (file_table s)[i := (file_table s ! i)\<lparr>f_pos := int p\<rparr>]" "p \<le> length (file_bytes dev s' a)"
  shows "reg_open M dev A fd i a s' \<and> pos_of s' i = p"
  using assms by (simp add: reg_open_def fd_slot_def)

lemma sys_write_ok:
  fixes s :: "('h, 'z) fistate_scheme"
  assumes o: "reg_open M dev A fd i a s"
    and n: "0 < unat n" "unat n = length buf" "pos_of s i + unat n \<le> 49152"
    and space: "card (blk_used (blocks dev (hw s)) (sb s)) + nblk (pos_of s i + unat n) \<le> bbn (sb s) + nblk (length (file_bytes dev s a))"
  shows "\<exists>s'. sys_write M fd buf n s = Ret (int (unat n)) s' \<and> reg_open M dev A fd i a s' \<and>
    file_bytes dev s' a = splice_at (pos_of s i) buf (file_bytes dev s a) \<and> pos_of s' i = pos_of s i + unat n \<and> others dev A a s s'"
proof -
  note R = o[unfolded reg_open_def] and D = reg_openD[OF o]
  let ?x = "inodes s a" and ?L = "\<lambda>t :: ('h, 'z) fistate_scheme. locked (InodeLock a) (locked FileTableLock t)"
  have inv: "fs_inv M dev A (?L s)" "a \<in> A" using R by auto
  obtain h d' where w: "inode_write M a buf n (of_int (f_pos (file_table s ! i))) (?L s) =
        Ret (int (unat n)) (?L (s\<lparr>hw := h, inodes := (inodes s)(a := ?x\<lparr>dinode := d'\<rparr>)\<rparr>))"
      "fs_inv M dev A (s\<lparr>hw := h, inodes := (inodes s)(a := ?x\<lparr>dinode := d'\<rparr>)\<rparr>)"
      "fdata (blocks dev h) d' = splice_at (pos_of s i) buf (file_bytes dev s a)"
      "\<forall>a' \<in> A - {a}. fdata (blocks dev h) (dinode (inodes s a')) = fdata (blocks dev (hw s)) (dinode (inodes s a'))"
    using inode_write_ok[OF inv, of n "of_int (f_pos (file_table s ! i))" buf] n space D(5-7) by auto
  define m where "m = int (unat n)"
  define s1 where "s1 = s\<lparr>hw := h, inodes := (inodes s)(a := ?x\<lparr>dinode := d'\<rparr>)\<rparr>"
  define s' where "s' = s1\<lparr>file_table := (file_table s)[i := (file_table s ! i)\<lparr>f_pos := f_pos (file_table s ! i) + m\<rparr>]\<rparr>"
  have free: "sema_free (InodeLock a) (locked FileTableLock s)" "sema_free (InodeLock a) (locked FileTableLock s1)" "sema_free FileTableLock s'"
    using R by (simp_all add: s1_def s'_def)
  have slot: "fd_slot (locked FileTableLock s) (ist2 s - PG_SIZE) fd i" "fd_slot (locked FileTableLock s1) (ist2 s - PG_SIZE) fd i"
    using R by (simp_all add: fd_slot_def locked_def s1_def)
  have upd: "upd_file (int i) (\<lambda>f. f\<lparr>f_pos := f_pos f + m\<rparr>) (locked FileTableLock s1) = Ret () (locked FileTableLock s')"
    using fd_access(3)[OF slot(2)] by (simp add: s'_def s1_def)
  have "0 < m" using n(1) unfolding m_def by (simp only: of_nat_0_less_iff)
  then have run: "sys_write M fd buf n s = Ret m s'"
    using D(1-4) pool_section(1)[OF free(1)] pool_section(3)[OF free(2)] pool_section(3)[OF free(3)]
      w(1)[folded s1_def m_def] upd fd_access(2)[OF slot(1)] R
    by (simp add: sys_write_def Let_def ret_def)
  have len: "length (fdata (blocks dev h) d') = max (length (file_bytes dev s a)) (pos_of s i + unat n)"
    unfolding w(3) using D(6) n(2) by (simp add: splice_at_def)
  have e: "f_pos (file_table s ! i) + m = int (pos_of s i + unat n)" using R by (simp add: m_def)
  have D': "file_bytes dev s' a = splice_at (pos_of s i) buf (file_bytes dev s a)" "others dev A a s s'"
    using w(3,4) by (simp_all add: s'_def s1_def others_def)
  have "pos_of s i + unat n \<le> length (file_bytes dev s' a)" using len by (simp add: s'_def s1_def)
  then have "reg_open M dev A fd i a s' \<and> pos_of s' i = pos_of s i + unat n"
    using w(2) R by (intro reg_open_after[OF o]) (simp_all add: s'_def s1_def e)
  then show ?thesis using run D' unfolding m_def by blast
qed


lemma sys_read_ok:
  fixes s :: "('h, 'z) fistate_scheme"
  assumes o: "reg_open M dev A fd i a s" and n: "0 < unat n" "unat n < 2 ^ 63"
  shows "\<exists>s'. sys_read M fd n s = Ret (int (length (take (unat n) (drop (pos_of s i) (file_bytes dev s a)))),
        take (unat n) (drop (pos_of s i) (file_bytes dev s a))) s' \<and> reg_open M dev A fd i a s' \<and>
    file_bytes dev s' a = file_bytes dev s a \<and>
    pos_of s' i = pos_of s i + length (take (unat n) (drop (pos_of s i) (file_bytes dev s a))) \<and> others dev A a s s' \<and>
    inodes s' = inodes s \<and> blocks dev (hw s') = blocks dev (hw s) \<and> sb s' = sb s \<and> (\<exists>h F. s' = s\<lparr>hw := h, file_table := F\<rparr>)"
proof -
  note R = o[unfolded reg_open_def] and D = reg_openD[OF o]
  let ?data = "take (unat n) (drop (pos_of s i) (file_bytes dev s a))"
  let ?L = "\<lambda>t :: ('h, 'z) fistate_scheme. locked (InodeLock a) (locked FileTableLock t)"
  have inv: "fs_inv M dev A (?L s)" "a \<in> A" using R by auto
  have d: "di_ok (dinode (inodes s a))" using fs_invD(7)[OF inv] by (simp add: file_ok_def)
  obtain h where w: "inode_read M a n (of_int (f_pos (file_table s ! i))) (?L s) = Ret ?data (?L (s\<lparr>hw := h\<rparr>))"
      "blocks dev h = blocks dev (hw s)" "fs_inv M dev A (s\<lparr>hw := h\<rparr>)"
  proof (cases "pos_of s i < length (file_bytes dev s a)")
    case True
    then obtain h where h: "inode_read M a n (of_int (f_pos (file_table s ! i))) (?L s) = Ret ?data (?L (s\<lparr>hw := h\<rparr>))"
        "blocks dev h = blocks dev (hw s)" "bio_ok M dev (s\<lparr>hw := h\<rparr>)"
      using inode_read_ok[OF fs_invD(5,2)[OF inv(1)] D(4), of "dinode (inodes s a)" n "of_int (f_pos (file_table s ! i))"]
        d n D(5,7,8) by auto
    then show thesis using that fs_inv_hw[OF _ h(3,2)] R by blast
  next
    case False
    then have "file_size (dinode (inodes s a)) \<le> of_int (f_pos (file_table s ! i))" using D(5,7) by (simp add: word_le_nat_alt)
    then have "inode_read M a n (of_int (f_pos (file_table s ! i))) (?L s) = Ret [] (?L s)"
      using D(4) by (simp add: inode_read_def Let_def ret_def)
    then show thesis using that[of "hw s"] False R by simp
  qed
  define dat where "dat = ?data"
  define m where "m = int (length dat)"
  define F where "F = (file_table s)[i := (file_table s ! i)\<lparr>f_pos := f_pos (file_table s ! i) + m\<rparr>]"
  define s1 where "s1 = s\<lparr>hw := h\<rparr>"
  define s' where "s' = s1\<lparr>file_table := F\<rparr>"
  have free: "sema_free (InodeLock a) (locked FileTableLock s)" "sema_free (InodeLock a) (locked FileTableLock s1)" "sema_free FileTableLock s'"
    using R by (simp_all add: s1_def s'_def)
  have slot: "fd_slot (locked FileTableLock s) (ist2 s - PG_SIZE) fd i" "fd_slot (locked FileTableLock s1) (ist2 s - PG_SIZE) fd i"
      "fd_slot (locked FileTableLock s') (ist2 s - PG_SIZE) fd i"
    using R by (simp_all add: fd_slot_def locked_def s1_def s'_def F_def)
  have upd: "(if 0 < m then upd_file (int i) (\<lambda>f. f\<lparr>f_pos := f_pos f + m\<rparr>) else ret ()) (locked FileTableLock s1) = Ret () (locked FileTableLock s')"
  proof (cases "0 < m")
    case True
    then show ?thesis using fd_access(3)[OF slot(2)] by (simp add: s'_def s1_def F_def)
  next
    case False
    then have "m = 0" unfolding m_def by linarith
    then have "F = file_table s" by (simp add: F_def)
    then show ?thesis using False by (simp add: s'_def s1_def ret_def)
  qed
  have t: "ft_type (file_table s' ! i) = FT_REG" using R D(10) by (simp add: s'_def F_def)
  then have run: "sys_read M fd n s = Ret (int (length dat), dat) s'"
    using D(1-4) pool_section(1)[OF free(1)] pool_section(3)[OF free(2)] pool_section(3)[OF free(3)]
      w(1)[folded s1_def dat_def] upd[unfolded m_def] fd_access(2)[OF slot(1)] fd_access(2)[OF slot(3)] R
    by (simp add: sys_read_def Let_def ret_def FT_REG_def FT_CHR_def FT_FIFO_def)
  have e: "f_pos (file_table s ! i) + m = int (pos_of s i + length ?data)" using R by (simp add: m_def dat_def)
  have D': "file_bytes dev s' a = file_bytes dev s a" "others dev A a s s'" "inodes s' = inodes s" "blocks dev (hw s') = blocks dev (hw s)"
      "sb s' = sb s"
    using w(2) by (simp_all add: s'_def s1_def others_def)
  then have "pos_of s i + length ?data \<le> length (file_bytes dev s' a)" using D(6) by simp
  then have "reg_open M dev A fd i a s' \<and> pos_of s' i = pos_of s i + length ?data"
    using w(3) R by (intro reg_open_after[OF o]) (simp_all add: s'_def s1_def F_def e)
  moreover have "\<exists>h F. s' = s\<lparr>hw := h, file_table := F\<rparr>" unfolding s'_def s1_def by blast
  ultimately show ?thesis using run D' unfolding dat_def by blast
qed

lemma sys_lseek_ok:
  fixes s :: "('h, 'z) fistate_scheme"
  assumes o: "reg_open M dev A fd i a s"
    and p: "p = seek_pos whence offset (int (pos_of s i)) (int (length (file_bytes dev s a)))"
  shows "sys_lseek fd offset whence s =
    (if 0 \<le> p \<and> p \<le> int (length (file_bytes dev s a)) then Ret p (s\<lparr>file_table := (file_table s)[i := (file_table s ! i)\<lparr>f_pos := p\<rparr>]\<rparr>)
     else Ret (-1) s)"
proof -
  note R = o[unfolded reg_open_def] and D = reg_openD[OF o]
  have sz: "sint (file_size (dinode (inodes s a))) = int (length (file_bytes dev s a))"
    using sint_small[of "file_size (dinode (inodes s a))"] D(7,8) by simp
  have slot: "fd_slot (locked FileTableLock s) (ist2 s - PG_SIZE) fd i" using R by (simp add: fd_slot_def locked_def)
  have pos: "f_pos (file_table s ! i) = int (pos_of s i)" using R by simp
  have free: "sema_free FileTableLock s" "sema_free FileTableLock (s\<lparr>file_table := F\<rparr>)" for F using R by simp_all
  show ?thesis
    using D(1-4) free fd_access(2,3)[OF slot] R pool_section(3)[OF free(2)]
    by (auto simp: sys_lseek_def Let_def sz ret_def p FT_REG_def)
qed

section \<open>A full pipe\<close>

lemma sema_down_sleeps:
  fixes s :: "'z kstate_scheme"
  assumes "run_ok s cur rs ws" "cur \<noteq> idle_task s" "sema_value s p = 0" "candidates s rs = nxt # qs"
  shows "\<exists>s'. sema_down p s = Sleep s'"
proof -
  let ?s = "s\<lparr>intr_flag := intr_off\<rparr>"
  have r: "run_ok ?s cur rs ws" using assms(1) by (simp cong: run_ok_cong)
  have "running_task ?s = Ret cur ?s" using sched_okD(1,2)[OF run_okD(1)[OF assms(1)]] by simp
  moreover have "candidates ?s rs = nxt # qs" using assms(4) by (auto simp: candidates_def split: if_splits)
  ultimately show ?thesis
    using sema_down_cases[OF r, of p nxt qs "intr_flag s"] assms(2,3) by (auto simp: sema_down_def)
qed

lemma demo_fi_fs: "fs_inv demo_ata (\<lambda>d. d) {16} (demo_fi intr_on)"
proof -
  have e: "pool_of KernelPool (demo_fi intr_on) = pool_of KernelPool demo_in" by simp
  show ?thesis
    using demo_fs
    by (simp add: fs_inv_def map_ok_def bio_ok_def io_ready_def dk_ok_def lock_free_def cur_ok_def tq_def pool_ok_def room_def sema_free_def e)
qed

lemma demo_fi_free: "p \<noteq> DiskDone 0 \<Longrightarrow> sema_free p (demo_fi i)"
  using demo_in_lock[of p] by (simp add: sema_free_def lock_free_def cur_ok_def tq_def)

lemma demo_reg_open: "reg_open demo_ata (\<lambda>d. d) {16} 1 1 16 (demo_fi intr_on)" "file_bytes (\<lambda>d. d) (demo_fi intr_on) 16 = []"
  using demo_fi_fs demo_fi_free[of _ intr_on] demo_fi_slots(2)[of intr_on]
  by (auto simp: reg_open_def MAX_FILES_OPEN_PER_PROC_def fdata_def)

section \<open>Properties\<close>

text \<open>C28. Through a descriptor, an open regular file is its contents and a position: \<^verbatim>\<open>sys_write\<close> stores its bytes at the position,
  growing the file where needed, \<^verbatim>\<open>sys_read\<close> returns the bytes from the position on, as many as were asked for or are there, both
  move the position behind them, and \<^verbatim>\<open>sys_lseek\<close> sets the position, or answers -1 and changes nothing when it would be outside the
  file. Every call leaves the file open with the file system's invariant, and all other files as they were.\<close>

theorem file_calls_refine:
  fixes s :: "('h, 'z) fistate_scheme"
  assumes o: "reg_open M dev A fd i a s"
    and n: "0 < unat n" "unat n = length buf" "pos_of s i + unat n \<le> 49152"
    and space: "card (blk_used (blocks dev (hw s)) (sb s)) + nblk (pos_of s i + unat n) \<le> bbn (sb s) + nblk (length (file_bytes dev s a))"
    and p: "p = seek_pos whence offset (int (pos_of s i)) (int (length (file_bytes dev s a)))"
  shows "(\<exists>s'. sys_write M fd buf n s = Ret (int (unat n)) s' \<and> reg_open M dev A fd i a s' \<and>
      file_bytes dev s' a = splice_at (pos_of s i) buf (file_bytes dev s a) \<and> pos_of s' i = pos_of s i + unat n \<and> others dev A a s s') \<and>
    (\<exists>data s'. sys_read M fd n s = Ret (int (length data), data) s' \<and> data = take (unat n) (drop (pos_of s i) (file_bytes dev s a)) \<and>
      reg_open M dev A fd i a s' \<and> file_bytes dev s' a = file_bytes dev s a \<and> pos_of s' i = pos_of s i + length data \<and> others dev A a s s') \<and>
    (if 0 \<le> p \<and> p \<le> int (length (file_bytes dev s a))
     then \<exists>s'. sys_lseek fd offset whence s = Ret p s' \<and> reg_open M dev A fd i a s' \<and> pos_of s' i = nat p \<and>
       file_bytes dev s' a = file_bytes dev s a
     else sys_lseek fd offset whence s = Ret (-1) s)"
proof (intro conjI)
  show "\<exists>s'. sys_write M fd buf n s = Ret (int (unat n)) s' \<and> reg_open M dev A fd i a s' \<and>
      file_bytes dev s' a = splice_at (pos_of s i) buf (file_bytes dev s a) \<and> pos_of s' i = pos_of s i + unat n \<and> others dev A a s s'"
    using sys_write_ok[OF o n space] .
  show "\<exists>data s'. sys_read M fd n s = Ret (int (length data), data) s' \<and> data = take (unat n) (drop (pos_of s i) (file_bytes dev s a)) \<and>
      reg_open M dev A fd i a s' \<and> file_bytes dev s' a = file_bytes dev s a \<and> pos_of s' i = pos_of s i + length data \<and> others dev A a s s'"
    using sys_read_ok[OF o n(1)] n(3) by auto
  show "if 0 \<le> p \<and> p \<le> int (length (file_bytes dev s a))
     then \<exists>s'. sys_lseek fd offset whence s = Ret p s' \<and> reg_open M dev A fd i a s' \<and> pos_of s' i = nat p \<and>
       file_bytes dev s' a = file_bytes dev s a
     else sys_lseek fd offset whence s = Ret (-1) s"
  proof (cases "0 \<le> p \<and> p \<le> int (length (file_bytes dev s a))")
    case True
    let ?s = "s\<lparr>file_table := (file_table s)[i := (file_table s ! i)\<lparr>f_pos := p\<rparr>]\<rparr>"
    have "reg_open M dev A fd i a ?s \<and> pos_of ?s i = nat p"
      using o True by (intro reg_open_after[OF o]) (auto simp: reg_open_def)
    then show ?thesis using sys_lseek_ok[OF o p] True by auto
  next
    case False
    then show ?thesis using sys_lseek_ok[OF o p] by auto
  qed
qed

theorem file_calls_refine_witness:
  "\<exists>s'. sys_write demo_ata 1 [104, 105] 2 (demo_fi intr_on) = Ret 2 s' \<and> file_bytes (\<lambda>d. d) s' 16 = [104, 105] \<and> pos_of s' 1 = 2"
  using file_calls_refine[OF demo_reg_open(1), of 2 "[104, 105]" 0 SEEK_SET 0] demo_space[of 2] demo_reg_open(2)
  by (auto simp: splice_at_def seek_pos_def)

text \<open>C29. Writing through a descriptor, seeking back to where the write began and reading as many bytes gives exactly what was
  written.\<close>

theorem file_write_seek_read:
  fixes s :: "('h, 'z) fistate_scheme"
  assumes o: "reg_open M dev A fd i a s"
    and n: "0 < unat n" "unat n = length buf" "pos_of s i + unat n \<le> 49152"
    and space: "card (blk_used (blocks dev (hw s)) (sb s)) + nblk (pos_of s i + unat n) \<le> bbn (sb s) + nblk (length (file_bytes dev s a))"
  shows "\<exists>s1 s2 s3. sys_write M fd buf n s = Ret (int (unat n)) s1 \<and>
    sys_lseek fd (int (pos_of s i)) SEEK_SET s1 = Ret (int (pos_of s i)) s2 \<and> sys_read M fd n s2 = Ret (int (unat n), buf) s3"
proof -
  obtain s1 where s1: "sys_write M fd buf n s = Ret (int (unat n)) s1" "reg_open M dev A fd i a s1"
      "file_bytes dev s1 a = splice_at (pos_of s i) buf (file_bytes dev s a)"
    using sys_write_ok[OF o n space] by blast
  define s2 where "s2 = s1\<lparr>file_table := (file_table s1)[i := (file_table s1 ! i)\<lparr>f_pos := int (pos_of s i)\<rparr>]\<rparr>"
  have l: "pos_of s i \<le> length (file_bytes dev s a)" by (rule reg_openD(6)[OF o])
  then have l1: "pos_of s i \<le> length (file_bytes dev s1 a)" unfolding s1(3) by (simp add: splice_at_def)
  have "sys_lseek fd (int k) SEEK_SET s1 = Ret (int k) (s1\<lparr>file_table := (file_table s1)[i := (file_table s1 ! i)\<lparr>f_pos := int k\<rparr>]\<rparr>)"
    if "k \<le> length (file_bytes dev s1 a)" for k
    using sys_lseek_ok[OF s1(2), of "int k" SEEK_SET "int k"] that by (simp add: seek_pos_def)
  from this[OF l1] have s2: "sys_lseek fd (int (pos_of s i)) SEEK_SET s1 = Ret (int (pos_of s i)) s2" by (simp only: s2_def)
  have "reg_open M dev A fd i a s2 \<and> pos_of s2 i = pos_of s i"
    using s1(2) l1 by (intro reg_open_after[OF s1(2)]) (auto simp: reg_open_def s2_def)
  moreover have "take (unat n) (drop (pos_of s i) (file_bytes dev s2 a)) = buf"
    using l n(2) by (simp add: s2_def s1(3) splice_at_def)
  ultimately obtain s3 where "sys_read M fd n s2 = Ret (int (unat n), buf) s3"
    using sys_read_ok[of M dev A fd i a s2 n] n by auto
  then show ?thesis using s1(1) s2 by blast
qed

theorem file_write_seek_read_witness:
  "\<exists>s1 s2 s3. sys_write demo_ata 1 [104, 105] 2 (demo_fi intr_on) = Ret 2 s1 \<and>
    sys_lseek 1 0 SEEK_SET s1 = Ret 0 s2 \<and> sys_read demo_ata 1 2 s2 = Ret (2, [104, 105]) s3"
  using file_write_seek_read[OF demo_reg_open(1), of 2 "[104, 105]"] demo_space[of 2] demo_reg_open(2) by auto



end
