(* ===== verification/Fs.thy ===== *)
theory Fs
  imports Files
begin

text \<open>
  Setting up the file system (\<^verbatim>\<open>fs/fs.c\<close>): finding the partition, formatting it, creating the root directory and storing the
  programs. \<open>cur_part\<close> is the index of the entry of \<^verbatim>\<open>mbr.partition_table\<close> that the pointer of that name points to.

  \<open>partition_format\<close> writes the layout that the invariant \<open>fs_inv\<close> of theory \<open>Filedata\<close> asks for.
\<close>

section \<open>Data\<close>

record partition_table_entry =
  bootable :: u8
  start_head :: u8
  start_sec :: u8
  start_chs :: u8
  fs_type :: u8
  end_head :: u8
  end_sec :: u8
  end_chs :: u8
  start_lba :: u32
  sec_cnt :: u32

record boot_sector =
  code :: "u8 list"
  partition_table :: "partition_table_entry list"
  signature :: u16

record 'h fsstate = "'h fistate" +
  mbr :: boot_sector
  cur_part :: nat

definition sizeof_dirent :: int where "sizeof_dirent = 32"
definition SB_MAGIC :: u64 where "SB_MAGIC = 0x474d575a5a46594c"

definition dec_entry :: "u8 list \<Rightarrow> partition_table_entry" where
  "dec_entry bs = \<lparr>bootable = bs ! 0, start_head = bs ! 1, start_sec = bs ! 2, start_chs = bs ! 3, fs_type = bs ! 4,
     end_head = bs ! 5, end_sec = bs ! 6, end_chs = bs ! 7, start_lba = dec32 (drop 8 bs), sec_cnt = dec32 (drop 12 bs)\<rparr>"

definition dec_mbr :: "u8 list \<Rightarrow> boot_sector" where
  "dec_mbr bs = \<lparr>code = take 446 bs, partition_table = map (\<lambda>i. dec_entry (take 16 (drop (446 + 16 * i) bs))) [0..<4],
     signature = ucast (bs ! 510) OR push_bit 8 (ucast (bs ! 511))\<rparr>"

definition enc_super_block :: "super_block \<Rightarrow> u8 list" where
  "enc_super_block b = concat (map enc64 [magic b, block_bitmap_start b, block_bitmap_size b, inode_bitmap_start b,
     inode_table_start b, inode_cnt_max b, data_start b])"

definition dec_super_block :: "u8 list \<Rightarrow> super_block" where
  "dec_super_block bs = (let f = \<lambda>i. dec64 (drop (8 * i) bs) in
     \<lparr>magic = f 0, block_bitmap_start = f 1, block_bitmap_size = f 2, inode_bitmap_start = f 3,
      inode_table_start = f 4, inode_cnt_max = f 5, data_start = f 6\<rparr>)"

section \<open>The code\<close>

definition get_part :: "(('h, 'z) fsstate_scheme, partition_table_entry) kcall" where
  "get_part =
     bnd (kget mbr) (\<lambda>m. bnd (kget cur_part) (\<lambda>c.
     if c < length (partition_table m) then ret (partition_table m ! c) else fail OutOfBounds))"

text \<open>The loop of \<^verbatim>\<open>mbr_init\<close>, with \<open>k\<close> entries left to look at.\<close>

fun find_part :: "nat \<Rightarrow> nat \<Rightarrow> (('h, 'z) fsstate_scheme, unit) kcall" where
  "find_part i 0 = PANIC"
| "find_part i (Suc k) =
     bnd (kget mbr) (\<lambda>m.
     if i \<ge> length (partition_table m) then fail OutOfBounds
     else if bootable (partition_table m ! i) = 0x80 then kput (\<lambda>s. s\<lparr>cur_part := i\<rparr>)
     else find_part (Suc i) k)"

definition mbr_init :: "'h machine \<Rightarrow> (('h, 'z) fsstate_scheme, unit) kcall" where
  "mbr_init M =
     bnd (ide_read M 0 0 1) (\<lambda>bs.
     bnd (kput (\<lambda>s. s\<lparr>mbr := dec_mbr bs\<rparr>)) (\<lambda>_.
     bnd (kput (\<lambda>s. s\<lparr>cur_part := 0\<rparr>)) (\<lambda>_.
     find_part 0 4)))"

text \<open>The three \<^verbatim>\<open>memset\<close> calls on the buffer, and the loop that writes it.\<close>

definition format_buf :: "nat \<Rightarrow> nat \<Rightarrow> nat \<Rightarrow> mem res" where
  "format_buf bcnt sz occur =
     rbind (memset (replicate (bcnt * 4096) 0) 0 1 (bcnt * 4096)) (\<lambda>buf.
     rbind (memset buf 0 0 sz) (\<lambda>buf.
     memset buf 0 1 occur))"

definition bitmap_format :: "'h machine \<Rightarrow> u64 \<Rightarrow> u64 \<Rightarrow> u64 \<Rightarrow> u64 \<Rightarrow> (('h, 'z) fsstate_scheme, unit) kcall" where
  "bitmap_format M bid bcnt sz occur =
     bnd (alloc_pages (unat bcnt)) (\<lambda>p.
     bnd (of_res (format_buf (unat bcnt) (unat sz) (unat occur))) (\<lambda>buf.
     bnd (for_range 0 (unat bcnt) (\<lambda>i. bnd (block_modify M 0 (bid + of_nat i) buf BLOCK_SIZE 0) (\<lambda>_. ret ()))) (\<lambda>_.
     free_pages p (unat bcnt))))"

text \<open>The numbers of \<^verbatim>\<open>partition_format\<close>; \<open>formatted\<close> is the super block it fills in, with the fields it leaves alone.\<close>

definition block_bitmap_bcnt :: "u64 \<Rightarrow> u64" where "block_bitmap_bcnt block_cnt = DIV_ROUND_UP block_cnt BLOCK_SIZE"
definition inode_bitmap_bcnt :: u64 where "inode_bitmap_bcnt = DIV_ROUND_UP INODE_CNT_MAX BLOCK_SIZE"
definition inode_table_bcnt :: u64 where "inode_table_bcnt = DIV_ROUND_UP (INODE_CNT_MAX * DISK_INODE_SIZE) BLOCK_SIZE"

definition formatted :: "u64 \<Rightarrow> u64 \<Rightarrow> super_block \<Rightarrow> super_block" where
  "formatted super_block_bid block_cnt b =
     (let bbs = super_block_bid + 1; ibs = bbs + block_bitmap_bcnt block_cnt; its = ibs + inode_bitmap_bcnt in
      b\<lparr>block_bitmap_start := bbs, block_bitmap_size := block_cnt, inode_bitmap_start := ibs,
        inode_table_start := its, inode_cnt_max := INODE_CNT_MAX, data_start := its + inode_table_bcnt\<rparr>)"

definition partition_format :: "'h machine \<Rightarrow> (('h, 'z) fsstate_scheme, unit) kcall" where
  "partition_format M =
     bnd get_part (\<lambda>part.
     let super_block_bid = ucast (start_lba part) div SECTS_PER_BLOCK;
         block_cnt = ucast (sec_cnt part) div SECTS_PER_BLOCK in
     bnd (kput (\<lambda>s. s\<lparr>sb := formatted super_block_bid block_cnt (sb s)\<rparr>)) (\<lambda>_.
     bnd (kget (\<lambda>s. enc_super_block (sb s) @ sb_rest s)) (\<lambda>page.
     bnd (block_modify M 0 super_block_bid page BLOCK_SIZE 0) (\<lambda>_.
     bnd (kget sb) (\<lambda>b.
     bnd (bitmap_format M (block_bitmap_start b) (block_bitmap_bcnt block_cnt) block_cnt
            (1 + block_bitmap_bcnt block_cnt + inode_bitmap_bcnt + inode_table_bcnt)) (\<lambda>_.
     bitmap_format M (inode_bitmap_start b) inode_bitmap_bcnt INODE_CNT_MAX 0))))))"

definition create_root_dir :: "'h machine \<Rightarrow> dirent \<Rightarrow> (('h, 'z) fsstate_scheme, unit) kcall" where
  "create_root_dir M u =
     bnd (disk_inode_create M) (\<lambda>r.
     bnd (ASSERT (r = 0)) (\<lambda>_.
     bnd (inode_open M 0) (\<lambda>root_inode.
     let de = new_dirent u 0 (str_of ''..'') FT_DIR in
     bnd (dirent_add M root_inode de) (\<lambda>r.
     bnd (ASSERT (r > 0)) (\<lambda>_.
     let de = de\<lparr>filename := (filename de)[1 := 0]\<rparr> in
     bnd (dirent_add M root_inode de) (\<lambda>r.
     bnd (ASSERT (r > 0)) (\<lambda>_.
     inode_close root_inode)))))))"

definition pre_write_file :: "'h machine \<Rightarrow> dirent \<Rightarrow> u8 list \<Rightarrow> nat \<Rightarrow> (('h, 'z) fsstate_scheme, unit) kcall" where
  "pre_write_file M u name sec_start =
     bnd (alloc_pages 5) (\<lambda>file_buf.
     bnd (sys_mknod M u name FT_REG 0) (\<lambda>r.
     bnd (ASSERT (r \<ge> 0)) (\<lambda>_.
     bnd (ide_read M 0 sec_start 40) (\<lambda>data.
     bnd (sys_open M u name) (\<lambda>fd.
     bnd (ASSERT (fd \<ge> 0)) (\<lambda>_.
     bnd (sys_write M fd data (5 * PG_SIZE)) (\<lambda>_.
     bnd (sys_close fd) (\<lambda>_.
     free_pages file_buf 5))))))))"

text \<open>\<^verbatim>\<open>block_read\<close> of the super block into the page that \<^verbatim>\<open>sb\<close> points to.\<close>

definition read_super_block :: "'h machine \<Rightarrow> (('h, 'z) fsstate_scheme, unit) kcall" where
  "read_super_block M =
     bnd get_part (\<lambda>part.
     bnd (block_read M 0 (ucast (start_lba part) div SECTS_PER_BLOCK) BLOCK_SIZE 0) (\<lambda>page.
     kput (\<lambda>s. s\<lparr>sb := dec_super_block page, sb_rest := drop 56 page\<rparr>)))"

definition c_str :: "string \<Rightarrow> u8 list" where "c_str s = str_of s @ [0]"

text \<open>The end of \<^verbatim>\<open>filesys_init\<close> on a partition that was just formatted.\<close>

definition populate :: "'h machine \<Rightarrow> dirent \<Rightarrow> (('h, 'z) fsstate_scheme, unit) kcall" where
  "populate M u =
     bnd (create_root_dir M u) (\<lambda>_.
     bnd (sys_mkdir M u (c_str ''/dev'')) (\<lambda>r.
     bnd (ASSERT (r = 0)) (\<lambda>_.
     bnd (sys_mknod M u (c_str ''/dev/stdin'') FT_CHR 0) (\<lambda>r.
     bnd (ASSERT (r = 0)) (\<lambda>_.
     bnd (sys_mknod M u (c_str ''/dev/stdout'') FT_CHR 1) (\<lambda>r.
     bnd (ASSERT (r = 1)) (\<lambda>_.
     bnd (pre_write_file M u (c_str ''/init'') 200) (\<lambda>_.
     bnd (pre_write_file M u (c_str ''/shell'') 240) (\<lambda>_.
     bnd (pre_write_file M u (c_str ''/echo'') 280) (\<lambda>_.
     bnd (pre_write_file M u (c_str ''/snake'') 320) (\<lambda>_.
     pre_write_file M u (c_str ''/ls'') 360)))))))))))"

definition filesys_init :: "'h machine \<Rightarrow> dirent \<Rightarrow> (('h, 'z) fsstate_scheme, unit) kcall" where
  "filesys_init M u =
     bnd (put_str M (str_of ''filesys_init: start'' @ [10])) (\<lambda>_.
     bnd (ASSERT (sizeof_disk_inode \<le> DISK_INODE_SIZE)) (\<lambda>_.
     bnd (ASSERT (sizeof_dirent \<le> DIRENT_SIZE)) (\<lambda>_.
     bnd (mbr_init M) (\<lambda>_.
     bnd (alloc_pages 1) (\<lambda>p_sb.
     bnd (read_super_block M) (\<lambda>_.
     bnd (kget (\<lambda>s. magic (sb s) = SB_MAGIC)) (\<lambda>hasfs.
     bnd (if \<not> hasfs then bnd (partition_format M) (\<lambda>_. read_super_block M) else ret ()) (\<lambda>_.
     bnd (kget sb) (\<lambda>b.
     bnd (put_info M (str_of ''block_bitmap_start:'' @ [9] @ str_of ''0x'') (block_bitmap_start b)) (\<lambda>_.
     bnd (put_info M (str_of ''block_bitmap_size:'' @ [9] @ str_of ''0x'') (block_bitmap_size b)) (\<lambda>_.
     bnd (put_info M (str_of ''inode_bitmap_start:'' @ [9] @ str_of ''0x'') (inode_bitmap_start b)) (\<lambda>_.
     bnd (put_info M (str_of ''inode_table_start:'' @ [9] @ str_of ''0x'') (inode_table_start b)) (\<lambda>_.
     bnd (put_info M (str_of ''inode_cnt_max:'' @ [9, 9] @ str_of ''0x'') (inode_cnt_max b)) (\<lambda>_.
     bnd (put_info M (str_of ''data_start:'' @ [9, 9] @ str_of ''0x'') (data_start b)) (\<lambda>_.
     bnd (k_list_init OpenInodes) (\<lambda>_.
     bnd (sema_init OpenInodesLock 1) (\<lambda>_.
     bnd (sema_init FsBitmapLock 1) (\<lambda>_.
     bnd (alloc_pages 1) (\<lambda>p_table.
     bnd (kput (\<lambda>s. s\<lparr>file_table := replicate (Suc FILE_TABLE_SIZE) \<lparr>f_pos = 0, f_inode = 0, ft_type = 0\<rparr>\<rparr>)) (\<lambda>_.
     bnd (put_info M (str_of ''file table size:'' @ [9] @ str_of ''0x'') (of_nat FILE_TABLE_SIZE)) (\<lambda>_.
     bnd (sema_init FileTableLock 1) (\<lambda>_.
     bnd (if \<not> hasfs then populate M u else ret ()) (\<lambda>_.
     put_str M (str_of ''filesys_init: end'' @ [10]))))))))))))))))))))))))"

lemmas fs_init_defs [kdefs] =
  mbr_init_def bitmap_format_def partition_format_def create_root_dir_def pre_write_file_def read_super_block_def
  populate_def filesys_init_def

section \<open>Formatting\<close>

lemma format_buf_ok:
  assumes "sz \<le> bcnt * 4096" "occur \<le> bcnt * 4096"
  shows "\<exists>buf. format_buf bcnt sz occur = Inr buf \<and> length buf = bcnt * 4096 \<and>
    (\<forall>i < bcnt * 4096. buf ! i = (if i < occur then 1 else if i < sz then 0 else 1))"
proof -
  let ?n = "bcnt * 4096"
  obtain b1 where b1: "memset (replicate ?n 0) 0 1 ?n = Inr b1" "length b1 = ?n" "\<forall>i < ?n. b1 ! i = 1"
    using memset_ok[of 0 ?n "replicate ?n 0" 1] by auto
  obtain b2 where b2: "memset b1 0 0 sz = Inr b2" "length b2 = ?n" "\<forall>i < ?n. b2 ! i = (if i < sz then 0 else 1)"
    using memset_ok[of 0 sz b1 0] b1 assms(1) by auto
  obtain b3 where b3: "memset b2 0 1 occur = Inr b3" "length b3 = ?n"
      "\<forall>i < ?n. b3 ! i = (if i < occur then 1 else if i < sz then 0 else 1)"
    using memset_ok[of 0 occur b2 1] b2 assms(2) by auto
  then show ?thesis using b1 b2 by (simp add: format_buf_def)
qed

lemma write_copies:
  fixes s :: "('h, 'z) fsstate_scheme"
  assumes ok: "bio_ok M dev s" "blocks dev (hw s) = B" and k: "unat bid + k \<le> bio_limit" "4096 \<le> length buf"
  shows "\<exists>h. for_range 0 k (\<lambda>i. bnd (block_modify M 0 (bid + of_nat i) buf BLOCK_SIZE 0) (\<lambda>_. ret ())) s = Ret () (s\<lparr>hw := h\<rparr>) \<and>
    bio_ok M dev (s\<lparr>hw := h\<rparr>) \<and>
    blocks dev h = (\<lambda>j. if unat bid \<le> j \<and> j < unat bid + k then take 4096 buf else B j)"
proof -
  let ?P = "\<lambda>i t. \<exists>h. t = s\<lparr>hw := h\<rparr> \<and> bio_ok M dev (s\<lparr>hw := h\<rparr>) \<and>
    blocks dev h = (\<lambda>j. if unat bid \<le> j \<and> j < unat bid + i then take 4096 buf else B j)"
  have start: "?P 0 s" using ok by (intro exI[of _ "hw s"]) (auto simp: fun_eq_iff)
  have step: "\<exists>t'. bnd (block_modify M 0 (bid + of_nat i) buf BLOCK_SIZE 0) (\<lambda>_. ret ()) t = Ret () t' \<and> ?P (Suc i) t'"
    if i: "i < 0 + k" and t: "?P i t" for i t
  proof -
    obtain h where h: "t = s\<lparr>hw := h\<rparr>" "bio_ok M dev (s\<lparr>hw := h\<rparr>)"
        "blocks dev h = (\<lambda>j. if unat bid \<le> j \<and> j < unat bid + i then take 4096 buf else B j)"
      using t by blast
    have "unat (of_nat i :: u64) = i" using i k(1) by (intro small_nat) (simp add: bio_limit_def)
    then have b: "unat (bid + of_nat i) = unat bid + i" using i k(1)
      by (subst unat_add_lem[THEN iffD1]) (simp_all add: bio_limit_def)
    have len: "length (blocks dev h j) = 4096" for j using bd.block_length[OF h(2)] by simp
    have "unat (bid + of_nat i) < bio_limit" using b i k(1) by simp
    from bd.wr_law[OF h(2) this, of 0 BLOCK_SIZE buf] k(2) obtain h' where
      h': "block_modify M 0 (bid + of_nat i) buf BLOCK_SIZE 0 (s\<lparr>hw := h\<rparr>) = Ret BLOCK_SIZE (s\<lparr>hw := h'\<rparr>)"
        "blocks dev h' = (blocks dev h)(unat bid + i := splice_at 0 (take 4096 buf) (blocks dev h (unat bid + i)))" "bio_ok M dev (s\<lparr>hw := h'\<rparr>)"
      using b by (auto simp: BLOCK_SIZE_def)
    have "splice_at 0 (take 4096 buf) (blocks dev h (unat bid + i)) = take 4096 buf" using len k(2) by (simp add: splice_at_def)
    then have "blocks dev h' = (\<lambda>j. if unat bid \<le> j \<and> j < unat bid + Suc i then take 4096 buf else B j)"
      unfolding h'(2) h(3) by (auto simp: fun_eq_iff less_Suc_eq)
    then show ?thesis using h(1) h'(1,3) by (intro exI[of _ "s\<lparr>hw := h'\<rparr>"]) (auto simp: ret_def)
  qed
  have "\<exists>t. for_range 0 k (\<lambda>i. bnd (block_modify M 0 (bid + of_nat i) buf BLOCK_SIZE 0) (\<lambda>_. ret ())) s = Ret () t \<and> ?P (0 + k) t"
    by (rule for_range_inv[where P = ?P, OF start]) (rule step)
  then show ?thesis by (simp only: add_0) blast
qed

lemma bitmap_format_ok:
  fixes s :: "('h, 'z) fsstate_scheme"
  assumes ok: "bio_ok M dev s" "room (unat bcnt + 1) s" "0 < unat bcnt" "unat bid + unat bcnt \<le> bio_limit" "blocks dev (hw s) = B"
    and sz: "unat sz \<le> unat bcnt * 4096" "unat occur \<le> unat bcnt * 4096"
  shows "\<exists>h pg. bitmap_format M bid bcnt sz occur s = Ret () (s\<lparr>hw := h\<rparr>) \<and> bio_ok M dev (s\<lparr>hw := h\<rparr>) \<and>
    blocks dev h = (\<lambda>j. if unat bid \<le> j \<and> j < unat bid + unat bcnt then pg else B j) \<and>
    length pg = 4096 \<and> (\<forall>i < 4096. pg ! i = (if i < unat occur then 1 else if i < unat sz then 0 else 1))"
proof -
  obtain buf where buf: "format_buf (unat bcnt) (unat sz) (unat occur) = Inr buf" "length buf = unat bcnt * 4096"
      "\<forall>i < unat bcnt * 4096. buf ! i = (if i < unat occur then 1 else if i < unat sz then 0 else 1)"
    using format_buf_ok[OF sz] by blast
  have big: "4096 \<le> length buf" using buf(2) ok(3) by simp
  obtain p b where p: "alloc_pages (unat bcnt) s = Ret p (set_btmp KernelPool b s)" "pool_ok KernelPool (set_btmp KernelPool b s)"
      "room 1 (set_btmp KernelPool b s)" "\<forall>h. free_pages p (unat bcnt) (set_btmp KernelPool b (s\<lparr>hw := h\<rparr>)) = Ret () (s\<lparr>hw := h\<rparr>)"
    using page_bracket[of s "unat bcnt" 1] ok by (auto simp: bio_ok_def)
  have hwb: "blocks dev (hw (set_btmp KernelPool b s)) = B" using ok(5) by (simp add: set_btmp_def)
  have io: "bio_ok M dev (set_btmp KernelPool b s)" using bio_ok_btmp[OF ok(1) p(2,3)] .
  obtain h where h: "for_range 0 (unat bcnt) (\<lambda>i. bnd (block_modify M 0 (bid + of_nat i) buf BLOCK_SIZE 0) (\<lambda>_. ret ())) (set_btmp KernelPool b s) =
        Ret () (set_btmp KernelPool b (s\<lparr>hw := h\<rparr>))" "bio_ok M dev ((set_btmp KernelPool b s)\<lparr>hw := h\<rparr>)"
      "blocks dev h = (\<lambda>j. if unat bid \<le> j \<and> j < unat bid + unat bcnt then take 4096 buf else B j)"
    using write_copies[OF io hwb ok(4) big] by auto
  have "bitmap_format M bid bcnt sz occur s = Ret () (s\<lparr>hw := h\<rparr>)"
    using p(1,4) buf(1) h(1) by (simp add: bitmap_format_def)
  moreover have "bio_ok M dev (s\<lparr>hw := h\<rparr>)" using h(2) ok(1) by (simp add: bio_ok_def)
  ultimately show ?thesis using h(3) buf(2,3) big
    by (intro exI[of _ h] exI[of _ "take 4096 buf"]) auto
qed

lemma length_enc_super_block [simp]: "length (enc_super_block b) = 56"
  by (simp add: enc_super_block_def)

lemma dec_enc_super_block: "dec_super_block (enc_super_block b @ bs) = b"
proof -
  let ?ws = "[magic b, block_bitmap_start b, block_bitmap_size b, inode_bitmap_start b, inode_table_start b, inode_cnt_max b, data_start b]"
  have "dec64 (drop (8 * k) (enc_super_block b @ bs)) = ?ws ! k" if "k < 7" for k
    using concat_enc64[of k ?ws bs] that by (simp add: enc_super_block_def)
  from this[of 0] this[of 1] this[of 2] this[of 3] this[of 4] this[of 5] this[of 6] show ?thesis
    by (simp add: dec_super_block_def Let_def)
qed

lemma format_numbers:
  fixes bid cnt :: u64 and b0 b :: super_block
  assumes "1 + nblk (unat cnt) + 5 \<le> unat cnt" "unat bid + unat cnt \<le> bio_limit"
    and b_def: "b = formatted bid cnt b0"
  shows "bbs b = unat bid + 1" "bbn b = unat cnt" "unat (block_bitmap_bcnt cnt) = nblk (unat cnt)"
    "unat (inode_bitmap_start b) = unat bid + 1 + nblk (unat cnt)" "unat (inode_table_start b) = unat bid + 2 + nblk (unat cnt)"
    "unat (data_start b) = unat bid + 6 + nblk (unat cnt)" "inode_bitmap_bcnt = 1" "inode_table_bcnt = 4"
    "unat (1 + block_bitmap_bcnt cnt + inode_bitmap_bcnt + inode_table_bcnt) = 6 + nblk (unat cnt)"
proof -
  have lim: "unat cnt \<le> bio_limit" "unat bid + 6 + nblk (unat cnt) < 2 ^ 64" using assms(1,2) by (simp_all add: bio_limit_def)
  have "unat (cnt + 4095) = unat cnt + 4095" using lim by (subst unat_add_lem[THEN iffD1]) (simp_all add: bio_limit_def)
  moreover have "cnt + 4096 - 1 = cnt + 4095" by simp
  ultimately show m: "unat (block_bitmap_bcnt cnt) = nblk (unat cnt)"
    by (simp only: block_bitmap_bcnt_def DIV_ROUND_UP_def BLOCK_SIZE_def) (simp add: unat_div nblk_def)
  show one: "inode_bitmap_bcnt = 1" "inode_table_bcnt = 4"
    by (simp_all add: inode_bitmap_bcnt_def inode_table_bcnt_def DIV_ROUND_UP_def INODE_CNT_MAX_def DISK_INODE_SIZE_def BLOCK_SIZE_def)
  have a: "unat (bid + 1) = unat bid + 1" using lim by (subst unat_add_lem[THEN iffD1]) simp_all
  have b: "unat (bid + 1 + block_bitmap_bcnt cnt) = unat bid + 1 + nblk (unat cnt)"
    using lim a m by (subst unat_add_lem[THEN iffD1]) simp_all
  have c: "unat (bid + 1 + block_bitmap_bcnt cnt + 1) = unat bid + 2 + nblk (unat cnt)"
    using lim b by (subst unat_add_lem[THEN iffD1]) simp_all
  have d: "unat (bid + 1 + block_bitmap_bcnt cnt + 1 + 4) = unat bid + 6 + nblk (unat cnt)"
    using lim c by (subst unat_add_lem[THEN iffD1]) simp_all
  show "bbs b = unat bid + 1" "bbn b = unat cnt" "unat (inode_bitmap_start b) = unat bid + 1 + nblk (unat cnt)"
    "unat (inode_table_start b) = unat bid + 2 + nblk (unat cnt)" "unat (data_start b) = unat bid + 6 + nblk (unat cnt)"
    using a b c d by (simp_all add: b_def formatted_def Let_def one)
  have e: "unat (1 + block_bitmap_bcnt cnt) = 1 + nblk (unat cnt)" using lim m by (subst unat_add_lem[THEN iffD1]) simp_all
  have f: "unat (1 + block_bitmap_bcnt cnt + 1) = 2 + nblk (unat cnt)" using lim e by (subst unat_add_lem[THEN iffD1]) simp_all
  have "unat (1 + block_bitmap_bcnt cnt + 1 + 4) = 6 + nblk (unat cnt)" using lim f by (subst unat_add_lem[THEN iffD1]) simp_all
  then show "unat (1 + block_bitmap_bcnt cnt + inode_bitmap_bcnt + inode_table_bcnt) = 6 + nblk (unat cnt)" by (simp only: one)
qed

lemma sb_upd [simp]:
  fixes s :: "('h, 'z) instate_scheme"
  shows "bio_ok M dev (s\<lparr>sb := b\<rparr>) = bio_ok M dev s" "room n (s\<lparr>sb := b\<rparr>) = room n s" "(s\<lparr>sb := b\<rparr>)\<lparr>hw := h\<rparr> = s\<lparr>hw := h, sb := b\<rparr>"
proof -
  have p: "pool_of mp (s\<lparr>sb := b\<rparr>) = pool_of mp s" for mp by (cases mp) simp_all
  show r: "room n (s\<lparr>sb := b\<rparr>) = room n s" for n by (simp add: room_def p)
  show "bio_ok M dev (s\<lparr>sb := b\<rparr>) = bio_ok M dev s"
    by (simp add: bio_ok_def io_ready_def dk_ok_def lock_free_def cur_ok_def tq_def pool_ok_def r p sema_free_def)
qed simp

lemma partition_format_run:
  fixes s :: "('h, 'z) fsstate_scheme"
  assumes bid_def: "bid = ucast (start_lba part) div SECTS_PER_BLOCK" and cnt_def: "cnt = ucast (sec_cnt part) div SECTS_PER_BLOCK"
    and part: "cur_part s < length (partition_table (mbr s))" "part = partition_table (mbr s) ! cur_part s"
    and size: "1 + nblk (unat cnt) + 5 \<le> unat cnt" "6 + nblk (unat cnt) \<le> 4096" "unat bid + unat cnt \<le> bio_limit"
    and ok: "bio_ok M dev s" "room (nblk (unat cnt) + 1) s" "length (sb_rest s) = 4040" and b_def: "b = formatted bid cnt (sb s)"
  shows "\<exists>h pg ipg. partition_format M s = Ret () (s\<lparr>hw := h, sb := b\<rparr>) \<and> bio_ok M dev (s\<lparr>hw := h, sb := b\<rparr>) \<and>
    blocks dev h = (\<lambda>j. if j = unat (inode_bitmap_start b) then ipg
      else if unat bid + 1 \<le> j \<and> j < unat bid + 1 + nblk (unat cnt) then pg
      else if j = unat bid then enc_super_block b @ sb_rest s else blocks dev (hw s) j) \<and>
    (\<forall>i < 4096. pg ! i = (if i < 6 + nblk (unat cnt) then 1 else if i < unat cnt then 0 else 1)) \<and>
    (\<forall>i < 4096. ipg ! i = (if i < 128 then 0 else 1))"
proof -
  note N = format_numbers[OF size(1,3) b_def]
  let ?page = "enc_super_block b @ sb_rest s" and ?s0 = "s\<lparr>sb := b\<rparr>" and ?m = "6 + nblk (unat cnt)" and ?k = "nblk (unat cnt)"
  have nz: "0 < ?k" using size(1) by (simp add: nblk_def)
  have bid: "unat bid < bio_limit" using size(1,3) by simp
  have pl: "length ?page = 4096" using ok(3) by simp
  have len: "length (blocks dev (hw s) j) = 4096" for j using bd.block_length[OF ok(1)] .
  obtain h1 where h1: "block_modify M 0 bid ?page BLOCK_SIZE 0 ?s0 = Ret BLOCK_SIZE (s\<lparr>hw := h1, sb := b\<rparr>)"
      "blocks dev h1 = (blocks dev (hw s))(unat bid := ?page)" "bio_ok M dev (s\<lparr>hw := h1, sb := b\<rparr>)"
    using bd.wr_law[of M dev ?s0 bid 0 BLOCK_SIZE ?page] ok(1) bid pl len by (auto simp: splice_at_def)
  let ?s1 = "s\<lparr>hw := h1, sb := b\<rparr>"
  have "unat cnt \<le> ?k * 4096" using nblk_bounds(1)[of "unat cnt"] by (simp add: mult.commute)
  moreover have "?m \<le> ?k * 4096" using size(2) nz by (cases ?k) auto
  ultimately obtain h2 pg where h2: "bitmap_format M (block_bitmap_start b) (block_bitmap_bcnt cnt) cnt
        (1 + block_bitmap_bcnt cnt + inode_bitmap_bcnt + inode_table_bcnt) ?s1 = Ret () (s\<lparr>hw := h2, sb := b\<rparr>)"
      "bio_ok M dev (s\<lparr>hw := h2, sb := b\<rparr>)"
      "blocks dev h2 = (\<lambda>j. if unat bid + 1 \<le> j \<and> j < unat bid + 1 + ?k then pg else blocks dev h1 j)"
      "length pg = 4096" "\<forall>i < 4096. pg ! i = (if i < ?m then 1 else if i < unat cnt then 0 else 1)"
    using bitmap_format_ok[of M dev ?s1 "block_bitmap_bcnt cnt" "block_bitmap_start b" "blocks dev h1" cnt
        "1 + block_bitmap_bcnt cnt + inode_bitmap_bcnt + inode_table_bcnt"] h1(3) ok(2) N nz size by auto
  let ?s2 = "s\<lparr>hw := h2, sb := b\<rparr>"
  have i1: "unat INODE_CNT_MAX = 128" by (simp add: INODE_CNT_MAX_def)
  have "room (Suc (Suc 0)) s" using room_mono[OF ok(2), of "Suc (Suc 0)"] nz by simp
  then obtain h3 ipg where h3: "bitmap_format M (inode_bitmap_start b) inode_bitmap_bcnt INODE_CNT_MAX 0 ?s2 = Ret () (s\<lparr>hw := h3, sb := b\<rparr>)"
      "bio_ok M dev (s\<lparr>hw := h3, sb := b\<rparr>)"
      "blocks dev h3 = (\<lambda>j. if unat (inode_bitmap_start b) \<le> j \<and> j < unat (inode_bitmap_start b) + 1 then ipg else blocks dev h2 j)"
      "\<forall>i < 4096. ipg ! i = (if i < 128 then 0 else 1)"
    using bitmap_format_ok[of M dev ?s2 inode_bitmap_bcnt "inode_bitmap_start b" "blocks dev h2" INODE_CNT_MAX 0] h2(2) N i1 size by auto
  let ?s3 = "s\<lparr>hw := h3, sb := b\<rparr>"
  have "get_part s = Ret part s" using part by (simp add: get_part_def ret_def)
  then have run: "partition_format M s = Ret () ?s3"
    using h1(1) h2(1) h3(1) by (simp add: partition_format_def Let_def bid_def[symmetric] cnt_def[symmetric] b_def[symmetric])
  have "blocks dev h3 = (\<lambda>j. if j = unat (inode_bitmap_start b) then ipg
      else if unat bid + 1 \<le> j \<and> j < unat bid + 1 + ?k then pg else if j = unat bid then ?page else blocks dev (hw s) j)"
    using h3(3) h2(3) h1(2) by (auto simp: fun_eq_iff)
  then show ?thesis using run h3(2,4) h2(5) by blast
qed

section \<open>Properties\<close>

text \<open>C33. Formatting a partition establishes the invariant of the file system: the super block on the disk is the one in memory, the regions
  of the disk follow each other in the order the code computes, the super block, the maps and the inode table are marked as
  used in the block map and every block of the first map block behind them is free, and all inodes are free. Because every block of the map gets a copy of the first page
  of the buffer, the same number of blocks is marked at the start of every further map block, too.\<close>

theorem partition_format_establishes:
  fixes s :: "('h, 'z) fsstate_scheme"
  assumes bid_def: "bid = ucast (start_lba part) div SECTS_PER_BLOCK" and cnt_def: "cnt = ucast (sec_cnt part) div SECTS_PER_BLOCK"
    and part: "cur_part s < length (partition_table (mbr s))" "part = partition_table (mbr s) ! cur_part s"
    and size: "1 + nblk (unat cnt) + 5 \<le> unat cnt" "6 + nblk (unat cnt) \<le> 4096" "unat bid + unat cnt \<le> bio_limit"
    and ok: "bio_ok M dev s" "room (nblk (unat cnt) + 1) s" "length (sb_rest s) = 4040"
  shows "\<exists>s'. partition_format M s = Ret () s' \<and> bio_ok M dev s' \<and> layout (sb s') \<and> meta_used (blocks dev (hw s')) (sb s') \<and>
    sb s' = formatted bid cnt (sb s) \<and> dec_super_block (blocks dev (hw s') (unat bid)) = sb s' \<and>
    blk_used (blocks dev (hw s')) (sb s') = {i. i < unat cnt \<and> i mod 4096 < 6 + nblk (unat cnt)} \<and>
    bm_used (blocks dev (hw s')) (unat (inode_bitmap_start (sb s'))) 128 = {}"
proof -
  define b where "b = formatted bid cnt (sb s)"
  note N = format_numbers[OF size(1,3) b_def]
  let ?m = "6 + nblk (unat cnt)" and ?k = "nblk (unat cnt)"
  obtain h pg ipg where h: "partition_format M s = Ret () (s\<lparr>hw := h, sb := b\<rparr>)" "bio_ok M dev (s\<lparr>hw := h, sb := b\<rparr>)"
      "blocks dev h = (\<lambda>j. if j = unat (inode_bitmap_start b) then ipg else if unat bid + 1 \<le> j \<and> j < unat bid + 1 + ?k then pg
        else if j = unat bid then enc_super_block b @ sb_rest s else blocks dev (hw s) j)"
      "\<forall>i < 4096. pg ! i = (if i < ?m then 1 else if i < unat cnt then 0 else 1)" "\<forall>i < 4096. ipg ! i = (if i < 128 then 0 else 1)"
    using partition_format_run[OF assms b_def] by blast
  have map: "blocks dev h (bbs b + i div 4096) = pg" if "i < unat cnt" for i
  proof -
    have "i div 4096 < ?k" using that by (simp add: nblk_def)
    then show ?thesis using h(3) N by auto
  qed
  have used: "blk_used (blocks dev h) b = {i. i < unat cnt \<and> i mod 4096 < ?m}"
  proof -
    have "pg ! (i mod 4096) \<noteq> 0 \<longleftrightarrow> i mod 4096 < ?m" if "i < unat cnt" for i
      using h(4) that mod_less_eq_dividend[of i 4096] by (simp add: le_less_trans)
    then show ?thesis using map N(2) by (auto simp: bm_used_def bm_byte_def)
  qed
  have lay: "layout b" using N size by (simp add: layout_def nblk_def)
  have meta: "meta_used (blocks dev h) b"
  proof -
    have "unat (data_start b) - (bbs b - 1) = ?m" using N by simp
    moreover have "i < unat cnt \<and> i mod 4096 < ?m" if "i < ?m" for i
      using that size(1) mod_less_eq_dividend[of i 4096] by linarith
    ultimately show ?thesis unfolding meta_used_def used by auto
  qed
  have sup: "dec_super_block (blocks dev h (unat bid)) = b"
    using h(3) N dec_enc_super_block[of b "sb_rest s"] by auto
  have ino: "bm_used (blocks dev h) (unat (inode_bitmap_start b)) 128 = {}"
    using h(3,5) by (auto simp: bm_used_def bm_byte_def)
  show ?thesis
    using h(1,2) lay meta sup used ino by (intro exI[of _ "s\<lparr>hw := h, sb := b\<rparr>"]) (simp add: b_def)
qed

text \<open>A partition of 64 blocks at the start of the disk.\<close>

definition demo_part :: partition_table_entry where
  "demo_part = \<lparr>bootable = 0x80, start_head = 0, start_sec = 0, start_chs = 0, fs_type = 0, end_head = 0, end_sec = 0, end_chs = 0,
     start_lba = 0, sec_cnt = 512\<rparr>"

definition demo_fss :: "ata_dev fsstate" where
  "demo_fss = (fistate.extend (demo_fi intr_on) (fsstate.fields \<lparr>code = [], partition_table = [demo_part], signature = 0\<rparr> 0))
     \<lparr>sb_rest := replicate 4040 0\<rparr>"

lemma demo_fss_ok: "bio_ok demo_ata (\<lambda>d. d) demo_fss" "room 13 demo_fss" "partition_table (mbr demo_fss) = [demo_part]" "cur_part demo_fss = 0"
  "length (sb_rest demo_fss) = 4040" "hw demo_fss = demo_disk"
proof -
  have e: "kernel_mem_pool demo_fss = kernel_mem_pool (demo_fi intr_on)" "links demo_fss = links (demo_fi intr_on)"
      "sema_value demo_fss = sema_value (demo_fi intr_on)" "ist2 demo_fss = ist2 (demo_fi intr_on)" "hw demo_fss = hw (demo_fi intr_on)"
      "hd_cnt demo_fss = hd_cnt (demo_fi intr_on)" "expecting_intr demo_fss = expecting_intr (demo_fi intr_on)" "intr_flag demo_fss = intr_on"
    by (simp_all add: demo_fss_def fistate.extend_def fsstate.fields_def demo_fi_def)
  have p: "pool_of KernelPool demo_fss = pool_of KernelPool (demo_fi intr_on)" using e by simp
  show "room 13 demo_fss" using fs_invD(2)[OF demo_fi_fs] by (simp add: room_def p[simplified])
  show "bio_ok demo_ata (\<lambda>d. d) demo_fss"
    using fs_invD(5)[OF demo_fi_fs]
    by (simp add: bio_ok_def io_ready_def dk_ok_def lock_free_def cur_ok_def tq_def pool_ok_def room_def sema_free_def p[simplified] e)
  show "partition_table (mbr demo_fss) = [demo_part]" "cur_part demo_fss = 0" "length (sb_rest demo_fss) = 4040" "hw demo_fss = demo_disk"
    using e by (simp_all add: demo_fss_def fistate.extend_def fsstate.fields_def)
qed

theorem partition_format_establishes_witness:
  "\<exists>s'. partition_format demo_ata demo_fss = Ret () s' \<and> layout (sb s') \<and> blk_used (blocks (\<lambda>d. d) (hw s')) (sb s') = {..<7}"
proof -
  have m: "{i. i < (64 :: nat) \<and> i mod 4096 < 7} = {..<7}" by auto
  have r: "room (nblk 64 + 1) demo_fss" using room_mono[OF demo_fss_ok(2)] by (simp add: nblk_def)
  show ?thesis
    using partition_format_establishes[of 0 demo_part 64 demo_fss demo_ata "\<lambda>d. d"] demo_fss_ok r m
    by (auto simp: demo_part_def SECTS_PER_BLOCK_def BLOCK_SIZE_def SEC_SIZE_def nblk_def bio_limit_def)
qed

end
