(* ===== verification/Paging.thy ===== *)
theory Paging
  imports Fs
begin

text \<open>
  Virtual memory (the second half of \<^verbatim>\<open>kernel/memory.c\<close>, with \<^verbatim>\<open>copy_page\<close> of \<^verbatim>\<open>task/task.c\<close>).

  \<open>pmem\<close> is the physical memory, byte by byte. \<open>translate\<close> is the processor's walk through the four levels of tables
  that \<^verbatim>\<open>cr3\<close> leads to (4 KB pages; neither the translation cache nor the protection bits are modelled). Every access of the code below goes through it. The pages of the kernel's
  own structures are kept in the records of the other theories; \<open>pmem\<close> holds the tables and the pages of programs.

  When the kernel touches a page that is not mapped, the processor calls \<^verbatim>\<open>intr_page_handle\<close> and repeats the access:
  \<open>uload\<close> and \<open>ustore\<close> take what a fault does as an argument. A fault of the handler itself starts again at the top of the
  one stack \<^verbatim>\<open>tss.ist1\<close> and overwrites the frame of the first fault, so inside the handler that argument is a failure.
\<close>

unbundle bit_operations_syntax

section \<open>The machine\<close>

record 'h mmstate = "'h fsstate" +
  pmem :: "u64 \<Rightarrow> u8"
  cr2 :: u64
  global_stack_size :: u64

definition load64 :: "(u64 \<Rightarrow> u8) \<Rightarrow> u64 \<Rightarrow> u64" where
  "load64 m a = dec64 (map (\<lambda>i. m (a + of_nat i)) [0..<8])"

definition store64 :: "(u64 \<Rightarrow> u8) \<Rightarrow> u64 \<Rightarrow> u64 \<Rightarrow> u64 \<Rightarrow> u8" where
  "store64 m a v = (\<lambda>x. if unat (x - a) < 8 then enc64 v ! unat (x - a) else m x)"

definition PROT_P :: u64 where "PROT_P = 1"
definition PROT_W :: u64 where "PROT_W = 2"
definition PROT_U :: u64 where "PROT_U = 4"

text \<open>The address bits of an entry; the index of a level, counted from the top; the table a walk reaches after \<open>d\<close> steps,
  the fourth being the page itself.\<close>

definition entry_page :: "u64 \<Rightarrow> u64" where "entry_page e = e AND 0xffffffffff000"

definition idx_at :: "nat \<Rightarrow> u64 \<Rightarrow> u64" where "idx_at d va = drop_bit (39 - 9 * d) va AND 0x1ff"

definition canonical :: "u64 \<Rightarrow> bool" where "canonical va \<longleftrightarrow> va < 0x800000000000 \<or> 0xffff800000000000 \<le> va"

fun walk :: "(u64 \<Rightarrow> u8) \<Rightarrow> u64 \<Rightarrow> u64 \<Rightarrow> nat \<Rightarrow> u64 option" where
  "walk m c va 0 = Some c"
| "walk m c va (Suc d) =
     (case walk m c va d of
        None \<Rightarrow> None
      | Some t \<Rightarrow> let e = load64 m (t + 8 * idx_at d va) in if e AND PROT_P \<noteq> 0 then Some (entry_page e) else None)"

definition translate :: "(u64 \<Rightarrow> u8) \<Rightarrow> u64 \<Rightarrow> u64 \<Rightarrow> u64 option" where
  "translate m c va = (if canonical va then map_option (\<lambda>f. f + (va AND 0xfff)) (walk m c va 4) else None)"

definition vread64 :: "u64 \<Rightarrow> (('h, 'z) mmstate_scheme, u64) kcall" where
  "vread64 a =
     bnd (kget (\<lambda>s. translate (pmem s) (cr3 s) a)) (\<lambda>p.
     case p of None \<Rightarrow> fail PageFault | Some p \<Rightarrow> kget (\<lambda>s. load64 (pmem s) p))"

definition vwrite64 :: "u64 \<Rightarrow> u64 \<Rightarrow> (('h, 'z) mmstate_scheme, unit) kcall" where
  "vwrite64 a v =
     bnd (kget (\<lambda>s. translate (pmem s) (cr3 s) a)) (\<lambda>p.
     case p of None \<Rightarrow> fail PageFault | Some p \<Rightarrow> kput (\<lambda>s. s\<lparr>pmem := store64 (pmem s) p v\<rparr>))"

text \<open>The physical address of a byte, after the page fault \<open>pf\<close> if there is no mapping yet.\<close>

definition resolve :: "(('h, 'z) mmstate_scheme, unit) kcall \<Rightarrow> u64 \<Rightarrow> (('h, 'z) mmstate_scheme, u64) kcall" where
  "resolve pf a =
     bnd (kget (\<lambda>s. translate (pmem s) (cr3 s) a)) (\<lambda>p. case p of
       Some p \<Rightarrow> ret p
     | None \<Rightarrow>
         bnd (kput (\<lambda>s. s\<lparr>cr2 := a\<rparr>)) (\<lambda>_.
         bnd pf (\<lambda>_.
         bnd (kget (\<lambda>s. translate (pmem s) (cr3 s) a)) (\<lambda>p. case p of
           Some p \<Rightarrow> ret p
         | None \<Rightarrow> fail PageFault))))"

fun uload :: "(('h, 'z) mmstate_scheme, unit) kcall \<Rightarrow> u64 \<Rightarrow> nat \<Rightarrow> (('h, 'z) mmstate_scheme, u8 list) kcall" where
  "uload pf a 0 = ret []"
| "uload pf a (Suc n) =
     bnd (resolve pf a) (\<lambda>p.
     bnd (kget (\<lambda>s. pmem s p)) (\<lambda>b.
     bnd (uload pf (a + 1) n) (\<lambda>bs.
     ret (b # bs))))"

fun ustore :: "(('h, 'z) mmstate_scheme, unit) kcall \<Rightarrow> u64 \<Rightarrow> u8 list \<Rightarrow> (('h, 'z) mmstate_scheme, unit) kcall" where
  "ustore pf a [] = ret ()"
| "ustore pf a (b # bs) =
     bnd (resolve pf a) (\<lambda>p.
     bnd (kput (\<lambda>s. s\<lparr>pmem := (pmem s)(p := b)\<rparr>)) (\<lambda>_.
     ustore pf (a + 1) bs))"

section \<open>The code\<close>

definition mem_bytes_total :: u64 where "mem_bytes_total = 0x8000000"

definition map_all_phy_mem :: "(('h, 'z) mmstate_scheme, unit) kcall" where
  "map_all_phy_mem =
     (let pte_cnt = DIV_ROUND_UP mem_bytes_total PG_SIZE;
          pdte_cnt = DIV_ROUND_UP pte_cnt 512;
          pdt_virt = 0xffff800000102000;
          pml4_virt = 0xffff800000100000 in
      bnd (ASSERT (pdte_cnt < 512)) (\<lambda>_.
      bnd (vwrite64 pml4_virt 0) (\<lambda>_.
      bnd (alloc_pages (unat (pdte_cnt - 1))) (\<lambda>p.
      let pts = p - PG_SIZE in
      for_range 1 (unat pdte_cnt - 1) (\<lambda>i.
        let pt = pts + of_nat i * PG_SIZE in
        bnd (vwrite64 (pdt_virt + 8 * of_nat i) ((pt - kernel_addr_base) OR PROT_P OR PROT_W OR PROT_U)) (\<lambda>_.
        for_range 0 512 (\<lambda>j.
          vwrite64 (pt + 8 * of_nat j) ((of_nat i * 0x200000 + of_nat j * PG_SIZE) OR PROT_P OR PROT_W OR PROT_U))))))))"

datatype PML = pt | pdt | pdpt | pml4

fun pml_no :: "PML \<Rightarrow> nat" where
  "pml_no pt = 0" | "pml_no pdt = 1" | "pml_no pdpt = 2" | "pml_no pml4 = 3"

definition pml_of :: "nat \<Rightarrow> PML" where
  "pml_of n = (if n = 0 then pt else if n = 1 then pdt else if n = 2 then pdpt else pml4)"

definition page_entry_idx :: "u64 \<Rightarrow> PML \<Rightarrow> u64" where
  "page_entry_idx va pml = drop_bit (9 * pml_no pml + 12) va AND 0x1ff"

lemma pml_up: "pml \<noteq> pml4 \<Longrightarrow> 3 - pml_no (pml_of (Suc (pml_no pml))) < 3 - pml_no pml"
  by (cases pml) (simp_all add: pml_of_def)

text \<open>The addresses of this function are those of 64-bit entries, so an index counts 8 bytes.\<close>

function page_entry_ptr :: "u64 \<Rightarrow> PML \<Rightarrow> (('h, 'z) mmstate_scheme, u64) kcall" where
  "page_entry_ptr va pml =
     bnd (if pml \<noteq> pml4
          then bnd (page_entry_ptr va (pml_of (pml_no pml + 1))) (\<lambda>p.
               bnd (vread64 p) (\<lambda>page_entry.
               ret (kernel_addr_base + (page_entry AND NOT 0xfff))))
          else bnd (kget cr3) (\<lambda>c. ret (kernel_addr_base + c))) (\<lambda>page_entry_page.
     ret (page_entry_page + 8 * page_entry_idx va pml))"
  by pat_completeness auto
termination
  by (relation "measure (\<lambda>(va, pml). 3 - pml_no pml)") (simp_all add: pml_up)

declare page_entry_ptr.simps [simp del]

definition map_level :: "u64 \<Rightarrow> u64 \<Rightarrow> PML \<Rightarrow> (('h, 'z) mmstate_scheme, unit) kcall" where
  "map_level va paddr pml =
     bnd (page_entry_ptr va pml) (\<lambda>pep.
     bnd (vread64 pep) (\<lambda>e.
     if e AND PROT_P = 0
     then bnd (if pml = pt then ret paddr else pool_alloc PhyPool 1) (\<lambda>eaddr.
          vwrite64 pep (eaddr OR PROT_P OR PROT_W OR PROT_U))
     else ret ()))"

definition page_map :: "u64 \<Rightarrow> (('h, 'z) mmstate_scheme, unit) kcall" where
  "page_map va =
     bnd (pool_alloc PhyPool 1) (\<lambda>paddr.
     for_range 0 4 (\<lambda>i. map_level va paddr (pml_of (3 - i))))"

text \<open>The two loops of \<^verbatim>\<open>page_unmap\<close>: \<open>unmap_level\<close> is what ends up in \<^verbatim>\<open>paddr[pml]\<close>. \<^verbatim>\<open>invlpg\<close> has no effect without a
  translation cache.\<close>

fun present_scan :: "u64 \<Rightarrow> nat \<Rightarrow> nat \<Rightarrow> (('h, 'z) mmstate_scheme, nat) kcall" where
  "present_scan page i 0 = ret i"
| "present_scan page i (Suc k) =
     bnd (vread64 (page + 8 * of_nat i)) (\<lambda>e. if e AND 1 \<noteq> 0 then ret i else present_scan page (Suc i) k)"

definition unmap_level :: "u64 \<Rightarrow> PML \<Rightarrow> (('h, 'z) mmstate_scheme, u64) kcall" where
  "unmap_level va pml =
     bnd (page_entry_ptr va pml) (\<lambda>p.
     bnd (vread64 p) (\<lambda>e.
     let paddr = e AND NOT 0xfff in
     bnd (present_scan (kernel_addr_base + paddr) 0 512) (\<lambda>i.
     ret (if i \<noteq> 512 then 0 else paddr))))"

definition free_frame :: "u64 \<Rightarrow> (('h, 'z) mmstate_scheme, unit) kcall" where
  "free_frame paddr = (if paddr \<noteq> 0 then pool_free PhyPool paddr 1 else ret ())"

definition page_unmap :: "(('h, 'z) mmstate_scheme, unit) kcall \<Rightarrow> u64 \<Rightarrow> (('h, 'z) mmstate_scheme, unit) kcall" where
  "page_unmap pf va =
     bnd (ustore pf va (replicate (unat PG_SIZE) 0)) (\<lambda>_.
     bnd (unmap_level va pt) (\<lambda>paddr0.
     bnd (unmap_level va pdt) (\<lambda>paddr1.
     bnd (unmap_level va pdpt) (\<lambda>paddr2.
     bnd (unmap_level va pml4) (\<lambda>paddr3.
     bnd (free_frame paddr0) (\<lambda>_.
     bnd (free_frame paddr1) (\<lambda>_.
     bnd (free_frame paddr2) (\<lambda>_.
     free_frame paddr3))))))))"

definition copy_page :: "(('h, 'z) mmstate_scheme, unit) kcall \<Rightarrow> u64 \<Rightarrow> u64 \<Rightarrow> u64 \<Rightarrow> u64 \<Rightarrow> (('h, 'z) mmstate_scheme, unit) kcall" where
  "copy_page pf d_page s_page d_task s_task =
     bnd running_task (\<lambda>cur.
     bnd (get_task cur) (\<lambda>t.
     bnd (alloc_pages 1) (\<lambda>page_buf.
     bnd (get_task s_task) (\<lambda>st.
     bnd (kput (\<lambda>s. s\<lparr>cr3 := t_pml4 st - kernel_addr_base\<rparr>)) (\<lambda>_.
     bnd (uload pf s_page (unat PG_SIZE)) (\<lambda>bs.
     bnd (get_task d_task) (\<lambda>dt.
     bnd (kput (\<lambda>s. s\<lparr>cr3 := t_pml4 dt - kernel_addr_base\<rparr>)) (\<lambda>_.
     bnd (page_map d_page) (\<lambda>_.
     bnd (ustore pf d_page bs) (\<lambda>_.
     bnd (kput (\<lambda>s. s\<lparr>cr3 := t_pml4 t - kernel_addr_base\<rparr>)) (\<lambda>_.
     free_pages page_buf 1)))))))))))"

definition in_range :: "u64 \<Rightarrow> u64 \<Rightarrow> u64 \<Rightarrow> bool" where
  "in_range start sz va \<longleftrightarrow> start \<le> va \<and> va < start + sz"

definition in_segments :: "addr_space \<Rightarrow> u64 \<Rightarrow> bool" where
  "in_segments sp va \<longleftrightarrow> list_ex (\<lambda>(v, sz). in_range v sz va) (zip (vaddr sp) (filesz sp))"

definition intr_page_handle :: "'h machine \<Rightarrow> u8 \<Rightarrow> (nat \<Rightarrow> u64) \<Rightarrow> (('h, 'z) mmstate_scheme, unit) kcall" where
  "intr_page_handle M intr_nr fr =
     bnd (ASSERT (intr_nr = 0x0e)) (\<lambda>_.
     bnd running_task (\<lambda>cur_task.
     bnd (get_task cur_task) (\<lambda>t.
     bnd (kget cr2) (\<lambda>page_fault_vaddr.
     bnd (kget global_stack_size) (\<lambda>stack_size.
     let fault_page = page_fault_vaddr AND NOT 0xfff; sp = t_addr_space t;
         in_rg = in_segments sp page_fault_vaddr \<or> in_range (DEFAULT_STACK - stack_size) stack_size page_fault_vaddr in
     if in_rg then copy_page (fail PageFault) fault_page fault_page cur_task (t_parent_task t)
     else if in_range (heap_start sp) (heap_end sp - heap_start sp) page_fault_vaddr then page_map fault_page
     else bnd (put_intr_info M (ucast intr_nr) fr cur_task) (\<lambda>_.
          bnd (put_info M (str_of ''page_fault_vaddr:'' @ [9]) page_fault_vaddr) (\<lambda>_.
          fail Diverges)))))))"

definition page_fault :: "'h machine \<Rightarrow> (nat \<Rightarrow> u64) \<Rightarrow> (('h, 'z) mmstate_scheme, unit) kcall" where
  "page_fault M fr = intr_page_handle M 0x0e fr"

text \<open>The \<^verbatim>\<open>while\<close> loop of \<^verbatim>\<open>sys_brk\<close> assigns the same value in every round, so it ends after at most one round or never.\<close>

definition brk_task :: "(('h, 'z) mmstate_scheme, u64) kcall" where
  "brk_task =
     bnd running_task (\<lambda>cur.
     bnd (get_task cur) (\<lambda>t.
     if heap_start (t_addr_space t) \<noteq> 0 then ret cur
     else bnd (get_task (t_parent_task t)) (\<lambda>p.
          if heap_start (t_addr_space p) \<noteq> 0 then ret (t_parent_task t) else fail Diverges)))"

definition sys_brk :: "'h machine \<Rightarrow> (nat \<Rightarrow> u64) \<Rightarrow> u64 \<Rightarrow> (('h, 'z) mmstate_scheme, int) kcall" where
  "sys_brk M fr brk =
     bnd brk_task (\<lambda>cur_task.
     bnd (get_task cur_task) (\<lambda>t.
     let sp = t_addr_space t in
     if brk = 0 then ret (sint (heap_end sp))
     else if brk < heap_start sp \<or> DEFAULT_STACK - PG_SIZE < brk then ret (-1)
     else bnd (if brk < heap_end sp
               then let pg_idx_start = DIV_ROUND_UP brk PG_SIZE; pg_idx_end = DIV_ROUND_UP (heap_end sp) PG_SIZE in
                    for_range 0 (unat (pg_idx_end - pg_idx_start)) (\<lambda>i.
                      page_unmap (page_fault M fr) ((pg_idx_start + of_nat i) * PG_SIZE))
               else ret ()) (\<lambda>_.
          bnd (upd_task cur_task (\<lambda>t. t\<lparr>t_addr_space := (t_addr_space t)\<lparr>heap_end := brk\<rparr>\<rparr>)) (\<lambda>_.
          ret 0))))"

definition mem_init :: "'h machine \<Rightarrow> (('h, 'z) mmstate_scheme, unit) kcall" where
  "mem_init M =
     bnd (put_str M (str_of ''mem_init: start'' @ [10])) (\<lambda>_.
     bnd (mem_pool_init KernelPool 0xffff800000104000 (252 div 8) (replicate (252 div 8) 0) 0) (\<lambda>_.
     bnd block_desc_init (\<lambda>_.
     bnd (alloc_pages 1) (\<lambda>p.
     bnd (kput (\<lambda>s. s\<lparr>ist1 := p + PG_SIZE\<rparr>)) (\<lambda>_.
     bnd map_all_phy_mem (\<lambda>_.
     bnd (mem_pool_init PhyPool 0 (unat (drop_bit 1 mem_bytes_total)) (replicate (unat (drop_bit 1 mem_bytes_total)) 0)
            (0x200000 div 4096)) (\<lambda>_.
     bnd (register_intr_handle 0x0e Intr_page_handle) (\<lambda>_.
     put_str M (str_of ''mem_init: end'' @ [10])))))))))"

end
