(* ===== verification/Vm.thy ===== *)
theory Vm
  imports Paging
begin

text \<open>
  What the paging code of theory \<open>Paging\<close> does to address spaces.
\<close>

unbundle bit_operations_syntax

section \<open>Memory words\<close>

definition al8 :: "u64 \<Rightarrow> bool" where "al8 a \<longleftrightarrow> 8 dvd a"

lemma dvd_word_size: "8 dvd (2 ^ LENGTH(64) :: nat)" "4096 dvd (2 ^ LENGTH(64) :: nat)"
  by (rule dvdI[of _ _ "2 ^ 61"], simp, rule dvdI[of _ _ "2 ^ 52"], simp)

lemma al8_unat: "al8 a \<longleftrightarrow> 8 dvd unat a"
proof
  assume "al8 a"
  then obtain k where "a = 8 * k" by (auto simp: al8_def)
  then show "8 dvd unat a" using dvd_mod[OF _ dvd_word_size(1), of "8 * unat k"] by (simp add: unat_word_ariths)
next
  assume "8 dvd unat a"
  then obtain k where "unat a = 8 * k" by auto
  then have "of_nat (unat a) = (8 * of_nat k :: u64)" by simp
  then have "a = 8 * of_nat k" by simp
  then show "al8 a" by (simp add: al8_def)
qed

lemma word_bytes_apart:
  assumes "al8 a" "al8 b" "a \<noteq> b" "i < 8"
  shows "8 \<le> unat (b + of_nat i - a)"
proof -
  define d where "d = b - a"
  have "al8 d" using assms(1,2) by (simp add: d_def al8_def)
  then obtain k where k: "unat d = 8 * k" unfolding al8_unat by auto
  have nz: "unat d \<noteq> 0" using assms(3) by (simp add: d_def unsigned_eq_0_iff)
  have "unat d < 18446744073709551616" using unsigned_less[of d] by simp
  then have "unat d + i < 18446744073709551616" using k assms(4) by presburger
  then have "unat (d + of_nat i) = unat d + i" by (simp add: unat_word_ariths unat_of_nat)
  moreover have "b + of_nat i - a = d + of_nat i" by (simp add: d_def)
  ultimately have "unat (b + of_nat i - a) = 8 * k + i" using k by metis
  then show ?thesis using k nz by simp
qed

lemma load64_store64:
  assumes "al8 a" "al8 b"
  shows "load64 (store64 m a v) b = (if a = b then v else load64 m b)"
proof (cases "a = b")
  case True
  have "map (\<lambda>i. store64 m a v (b + of_nat i)) [0..<8] = enc64 v"
    by (rule nth_equalityI) (simp_all add: True store64_def unat_of_nat)
  then show ?thesis using True dec64_enc64[of v "[]"] by (simp add: load64_def)
next
  case False
  have "map (\<lambda>i. store64 m a v (b + of_nat i)) [0..<8] = map (\<lambda>i. m (b + of_nat i)) [0..<8]"
    using word_bytes_apart[OF assms False] by (auto simp: store64_def not_less[symmetric])
  then show ?thesis using False by (simp only: load64_def if_False)
qed

lemma load64_cong: "(\<And>i. i < 8 \<Longrightarrow> m (a + of_nat i) = m' (a + of_nat i)) \<Longrightarrow> load64 m a = load64 m' a"
  unfolding load64_def by (intro arg_cong[where f = dec64] map_cong) auto

lemma load64_zero: "(\<And>i. i < 8 \<Longrightarrow> m (a + of_nat i) = 0) \<Longrightarrow> load64 m a = 0"
  using load64_cong[of m a "\<lambda>_. 0"] by (simp add: load64_def dec64_def upt_rec)

section \<open>Slots of a page\<close>

definition page_of :: "u64 \<Rightarrow> u64" where "page_of a = a AND NOT 0xfff"

lemma not_fff: "NOT 0xfff = (0xfffffffffffff000 :: u64)" by simp

lemma page_of_add: "aligned t \<Longrightarrow> n < 4096 \<Longrightarrow> page_of (t + of_nat n) = t"
  unfolding page_of_def not_fff by (rule aligned_add_mask)

lemma page_of_aligned [simp]: "aligned t \<Longrightarrow> page_of t = t"
  using page_of_add[of t 0] by simp

lemma slot_nat: "i < 512 \<Longrightarrow> t + 8 * i = t + of_nat (8 * unat i)" for i t :: u64
  by simp

lemma page_of_slot: "aligned t \<Longrightarrow> i < 512 \<Longrightarrow> k < 8 \<Longrightarrow> page_of (t + 8 * i + of_nat k) = t"
  using page_of_add[of t "8 * unat i + k"] by (simp add: add.assoc word_less_nat_alt)

lemma page_of_slot0: "aligned t \<Longrightarrow> i < 512 \<Longrightarrow> page_of (t + 8 * i) = t"
  using page_of_slot[of t i 0] by simp

lemma slot_inj:
  assumes "aligned t" "aligned t'" "i < 512" "i' < 512" "t + 8 * i = t' + 8 * i'"
  shows "t = t' \<and> i = i'"
proof -
  have t: "t = t'" using page_of_slot0[OF assms(1,3)] page_of_slot0[OF assms(2,4)] assms(5) by simp
  then have "8 * i = 8 * i'" using assms(5) by simp
  then have "unat (8 * i) = unat (8 * i')" by simp
  then have "8 * unat i = 8 * unat i'" using assms(3,4) by (simp add: unat_word_ariths word_less_nat_alt)
  then show ?thesis using t by (simp add: unsigned_word_eqI)
qed

lemma unat_slot: "aligned t \<Longrightarrow> n < 4096 \<Longrightarrow> unat (t + of_nat n) = unat t + n"
proof -
  assume a: "aligned t" "n < 4096"
  obtain k where k: "unat t = 4096 * k" using a(1) unfolding aligned_unat by (blast elim: dvdE)
  have "unat t < 18446744073709551616" using unsigned_less[of t] by simp
  then have "k < 4503599627370496" using k by simp
  then have "unat t + n < 18446744073709551616" using k a(2) by linarith
  then show ?thesis by (simp add: unat_word_ariths unat_of_nat)
qed

lemma al8_slot: "aligned t \<Longrightarrow> i < 512 \<Longrightarrow> al8 (t + 8 * i)"
proof -
  assume a: "aligned t" "i < 512"
  have "unat (t + 8 * i) = unat t + 8 * unat i"
    using unat_slot[OF a(1), of "8 * unat i"] a(2) by (simp add: word_less_nat_alt)
  moreover have "8 dvd unat t" using a(1) dvd_trans[of 8 4096 "unat t"] unfolding aligned_unat by simp
  ultimately show ?thesis by (simp add: al8_unat)
qed

section \<open>Indices of a walk\<close>

definition same :: "nat \<Rightarrow> u64 \<Rightarrow> u64 \<Rightarrow> bool" where
  "same d va va' \<longleftrightarrow> drop_bit (48 - 9 * d) va = drop_bit (48 - 9 * d) va'"

lemma bit_1ff: "bit (0x1ff :: u64) n \<longleftrightarrow> n < 9"
proof -
  have eq: "(0x1ff :: u64) = mask 9" by (simp add: mask_eq_exp_minus_1)
  show ?thesis unfolding eq bit_mask_iff by auto
qed

lemma same_iff: "same d va va' \<longleftrightarrow> (\<forall>n \<ge> 48 - 9 * d. bit va n = bit va' n)"
proof
  assume s: "same d va va'"
  show "\<forall>n \<ge> 48 - 9 * d. bit va n = bit va' n"
  proof (intro allI impI)
    fix n
    assume n: "48 - 9 * d \<le> n"
    have "bit (drop_bit (48 - 9 * d) va) (n - (48 - 9 * d)) = bit (drop_bit (48 - 9 * d) va') (n - (48 - 9 * d))"
      using s by (simp only: same_def)
    then show "bit va n = bit va' n" using n by (simp add: bit_drop_bit_eq)
  qed
next
  assume "\<forall>n \<ge> 48 - 9 * d. bit va n = bit va' n"
  then show "same d va va'" unfolding same_def by (intro bit_eqI) (simp add: bit_drop_bit_eq)
qed

lemma bit_idx_at: "bit (idx_at d va) n \<longleftrightarrow> n < 9 \<and> bit va (39 - 9 * d + n)"
  unfolding idx_at_def bit_and_iff bit_1ff by (auto simp: bit_drop_bit_eq)

lemma idx_at_iff: "idx_at d va = idx_at d va' \<longleftrightarrow> (\<forall>n < 9. bit va (39 - 9 * d + n) = bit va' (39 - 9 * d + n))"
proof
  assume "idx_at d va = idx_at d va'"
  then show "\<forall>n < 9. bit va (39 - 9 * d + n) = bit va' (39 - 9 * d + n)" by (metis bit_idx_at)
next
  assume "\<forall>n < 9. bit va (39 - 9 * d + n) = bit va' (39 - 9 * d + n)"
  then show "idx_at d va = idx_at d va'" by (intro bit_eqI) (auto simp: bit_idx_at)
qed

lemma same_Suc:
  assumes "d < 4"
  shows "same (Suc d) va va' \<longleftrightarrow> same d va va' \<and> idx_at d va = idx_at d va'"
proof -
  have s: "48 - 9 * d = (39 - 9 * d) + 9" "48 - 9 * Suc d = 39 - 9 * d" using assms by auto
  have "(\<forall>n \<ge> k. P n) \<longleftrightarrow> (\<forall>n \<ge> k + 9. P n) \<and> (\<forall>n < 9. P (k + n))" for P and k :: nat
    by (auto simp: not_less) (metis add_less_cancel_left le_add_diff_inverse not_less)
  from this[of "39 - 9 * d" "\<lambda>n. bit va n = bit va' n"] show ?thesis unfolding same_iff idx_at_iff s .
qed

lemma same_mono: "same d va va' \<Longrightarrow> e \<le> d \<Longrightarrow> same e va va'"
  unfolding same_iff by auto

lemma same_refl [simp]: "same d va va" by (simp add: same_def)

lemma same_sym: "same d va va' \<Longrightarrow> same d va' va" by (simp add: same_def)

lemma same_trans: "same d a b \<Longrightarrow> same d b c \<Longrightarrow> same d a c" by (simp add: same_def)

lemma idx_at_less: "idx_at d va < 512"
proof -
  have "idx_at d va \<le> 0x1ff" unfolding idx_at_def by (rule word_and_le1)
  then show ?thesis by (rule le_less_trans) simp
qed

lemma walk_same: "d \<le> 4 \<Longrightarrow> same d va va' \<Longrightarrow> walk m c va d = walk m c va' d"
  by (induction d) (simp_all add: same_Suc cong: option.case_cong)

section \<open>Address spaces as trees of tables\<close>

text \<open>\<open>C\<close> are the physical addresses of the top tables, one per address space, which lie in the second megabyte of memory;
  every other table and page of a program is a frame behind it. \<open>trees m C F\<close>: all that programs' walks reach are frames of
  \<open>F\<close>, and no frame is reached in two ways.\<close>

definition user :: "u64 \<Rightarrow> bool" where "user va \<longleftrightarrow> va < DEFAULT_STACK"

definition low_page :: "u64 \<Rightarrow> bool" where "low_page t \<longleftrightarrow> aligned t \<and> t < 0x200000"

definition is_frame :: "u64 \<Rightarrow> bool" where "is_frame t \<longleftrightarrow> aligned t \<and> 0x200000 \<le> t \<and> t < mem_bytes_total"

definition plain_entry :: "u64 \<Rightarrow> bool" where "plain_entry e \<longleftrightarrow> (e AND PROT_P \<noteq> 0 \<longrightarrow> page_of e = entry_page e)"

definition trees :: "(u64 \<Rightarrow> u8) \<Rightarrow> u64 set \<Rightarrow> u64 set \<Rightarrow> bool" where
  "trees m C F \<longleftrightarrow> (\<forall>c \<in> C. low_page c) \<and>
     (\<forall>c \<in> C. \<forall>va d t. user va \<longrightarrow> 0 < d \<longrightarrow> d \<le> 4 \<longrightarrow> walk m c va d = Some t \<longrightarrow> t \<in> F \<and> is_frame t) \<and>
     (\<forall>c \<in> C. \<forall>va d t. user va \<longrightarrow> d < 4 \<longrightarrow> walk m c va d = Some t \<longrightarrow> plain_entry (load64 m (t + 8 * idx_at d va))) \<and>
     (\<forall>c \<in> C. \<forall>c' \<in> C. \<forall>va va' d d' t. user va \<longrightarrow> user va' \<longrightarrow> 0 < d \<longrightarrow> d \<le> 4 \<longrightarrow> 0 < d' \<longrightarrow> d' \<le> 4 \<longrightarrow>
        walk m c va d = Some t \<longrightarrow> walk m c' va' d' = Some t \<longrightarrow> c = c' \<and> d = d' \<and> same d va va')"

definition zeroed :: "(u64 \<Rightarrow> u8) \<Rightarrow> u64 \<Rightarrow> bool" where "zeroed m f \<longleftrightarrow> (\<forall>x. page_of x = f \<longrightarrow> m x = 0)"

text \<open>The kernel's half of every address space maps the whole physical memory, through tables \<open>K\<close> that are not in reach of programs.\<close>

definition direct_map :: "(u64 \<Rightarrow> u8) \<Rightarrow> u64 set \<Rightarrow> u64 set \<Rightarrow> bool" where
  "direct_map m C K \<longleftrightarrow> (\<forall>t \<in> K. low_page t) \<and> (\<forall>c \<in> C. low_page c) \<and> K \<inter> C = {} \<and>
     (\<forall>c \<in> C. \<forall>p < mem_bytes_total. (\<forall>d. 0 < d \<longrightarrow> d < 4 \<longrightarrow> (\<exists>t \<in> K. walk m c (kernel_addr_base + p) d = Some t)) \<and>
        walk m c (kernel_addr_base + p) 4 = Some (page_of p))"

lemma unat_drop: "unat (drop_bit n w) = unat w div 2 ^ n" for w :: u64
  unfolding unat_drop_bit_eq by (simp add: drop_bit_eq_div)

lemma same_0_user: "user va \<Longrightarrow> user va' \<Longrightarrow> same 0 va va'"
proof -
  assume u: "user va" "user va'"
  have "drop_bit 48 w = 0" if "user w" for w
  proof -
    have "unat w < 140737488355328" using that by (simp add: user_def DEFAULT_STACK_def word_less_nat_alt)
    then have "unat (drop_bit 48 w) = 0" by (simp add: unat_drop)
    then show ?thesis by (simp add: unsigned_eq_0_iff)
  qed
  then show ?thesis using u by (simp add: same_def)
qed

lemma user_idx_0: "user va \<Longrightarrow> idx_at 0 va < 256"
proof -
  assume u: "user va"
  then have n: "unat va < 140737488355328" by (simp add: user_def DEFAULT_STACK_def word_less_nat_alt)
  have "idx_at 0 va \<le> drop_bit 39 va" unfolding idx_at_def by (simp add: word_and_le2)
  moreover have "unat (drop_bit 39 va) < 256" using n by (simp add: unat_drop div_less_iff_less_mult)
  then have "drop_bit 39 va < 256" by (simp add: word_less_nat_alt)
  ultimately show ?thesis by (rule le_less_trans)
qed

lemma kernel_idx_0:
  assumes "p < mem_bytes_total"
  shows "idx_at 0 (kernel_addr_base + p) = 256"
proof -
  have p: "unat p < 134217728" using assms by (simp add: mem_bytes_total_def word_less_nat_alt)
  then have "unat (kernel_addr_base + p) = 18446603336221196288 + unat p" by (simp add: kernel_addr_base_def unat_word_ariths)
  then have "unat (drop_bit 39 (kernel_addr_base + p)) = 33554176"
    using p by (simp add: unat_drop)
  then have "drop_bit 39 (kernel_addr_base + p) = 33554176" by (simp add: word_unat_eq_iff)
  then show ?thesis by (simp add: idx_at_def)
qed

lemma store64_elsewhere:
  assumes "aligned t" "i < 512" "page_of x \<noteq> t"
  shows "store64 m (t + 8 * i) v x = m x"
proof -
  have "\<not> unat (x - (t + 8 * i)) < 8"
  proof
    assume k: "unat (x - (t + 8 * i)) < 8"
    have "x = t + 8 * i + of_nat (unat (x - (t + 8 * i)))" by simp
    then have "page_of x = t" using page_of_slot[OF assms(1,2) k] by simp
    then show False using assms(3) by simp
  qed
  then show ?thesis by (simp add: store64_def)
qed

lemma zeroed_store: "zeroed m f \<Longrightarrow> aligned t \<Longrightarrow> i < 512 \<Longrightarrow> f \<noteq> t \<Longrightarrow> zeroed (store64 m (t + 8 * i) v) f"
  by (auto simp: zeroed_def store64_elsewhere)

lemma zeroed_load: "zeroed m f \<Longrightarrow> aligned f \<Longrightarrow> i < 512 \<Longrightarrow> load64 m (f + 8 * i) = 0"
  by (rule load64_zero) (simp add: zeroed_def page_of_slot)

text \<open>The entry the kernel writes for a frame.\<close>

abbreviation entry_for :: "u64 \<Rightarrow> u64" where "entry_for f \<equiv> f OR PROT_P OR PROT_W OR PROT_U"

lemma frame_bits:
  assumes "aligned f" "f < mem_bytes_total"
  shows "\<forall>n. bit f n \<longrightarrow> 12 \<le> n \<and> n < 27"
proof (intro allI impI)
  fix n
  assume b: "bit f n"
  have "unat f < 134217728" using assms(2) by (simp add: mem_bytes_total_def word_less_nat_alt)
  then have "unat (drop_bit 27 f) = 0" by (simp add: unat_drop)
  then have d: "drop_bit 27 f = 0" by (simp add: unsigned_eq_0_iff)
  have "n < 27"
  proof (rule ccontr)
    assume "\<not> n < 27"
    then have "bit (drop_bit 27 f) (n - 27)" using b by (simp add: bit_drop_bit_eq)
    then show False unfolding d by simp
  qed
  then show "12 \<le> n \<and> n < 27" using aligned_bit[OF assms(1)] b by (meson not_less)
qed

lemma bit_entry_for: "bit (entry_for f) n \<longleftrightarrow> bit f n \<or> n < 3"
proof -
  have eq: "entry_for f = f OR mask 3" by (simp add: PROT_P_def PROT_W_def PROT_U_def mask_eq_exp_minus_1)
  show ?thesis unfolding eq bit_or_iff bit_mask_iff by auto
qed

lemma bit_page_masks:
  "bit (NOT 0xfff :: u64) n \<longleftrightarrow> 12 \<le> n \<and> n < 64" "bit (0xffffffffff000 :: u64) n \<longleftrightarrow> 12 \<le> n \<and> n < 52"
proof -
  have a: "(0xfff :: u64) = mask 12" "(0xffffffffff000 :: u64) = push_bit 12 (mask 40)" by (simp_all add: mask_eq_exp_minus_1)
  show "bit (NOT 0xfff :: u64) n \<longleftrightarrow> 12 \<le> n \<and> n < 64" unfolding a bit_not_iff bit_mask_iff by auto
  show "bit (0xffffffffff000 :: u64) n \<longleftrightarrow> 12 \<le> n \<and> n < 52" unfolding a bit_push_bit_iff bit_mask_iff by auto
qed

lemma entry_for_frame:
  assumes "aligned f" "f < mem_bytes_total"
  shows "entry_page (entry_for f) = f" "page_of (entry_for f) = f" "entry_for f AND PROT_P \<noteq> 0" "plain_entry (entry_for f)"
proof -
  note fb = frame_bits[OF assms]
  show e: "entry_page (entry_for f) = f" unfolding entry_page_def
    by (rule bit_eqI, unfold bit_and_iff bit_entry_for bit_page_masks) (use fb in auto)
  show p: "page_of (entry_for f) = f" unfolding page_of_def
    by (rule bit_eqI, unfold bit_and_iff bit_entry_for bit_page_masks) (use fb in auto)
  have "bit (entry_for f AND PROT_P) 0" unfolding bit_and_iff bit_entry_for by (simp add: PROT_P_def)
  then show "entry_for f AND PROT_P \<noteq> 0" by auto
  show "plain_entry (entry_for f)" using e p by (simp add: plain_entry_def)
qed

lemma trees_D:
  assumes "trees m C F" "c \<in> C" "user va" "walk m c va d = Some t"
  shows "d = 0 \<Longrightarrow> low_page t" "0 < d \<Longrightarrow> d \<le> 4 \<Longrightarrow> is_frame t" "0 < d \<Longrightarrow> d \<le> 4 \<Longrightarrow> t \<in> F" "d \<le> 4 \<Longrightarrow> aligned t"
    "d < 4 \<Longrightarrow> plain_entry (load64 m (t + 8 * idx_at d va))"
proof -
  show a: "d = 0 \<Longrightarrow> low_page t" using assms by (auto simp: trees_def)
  show b: "0 < d \<Longrightarrow> d \<le> 4 \<Longrightarrow> is_frame t" "0 < d \<Longrightarrow> d \<le> 4 \<Longrightarrow> t \<in> F"
    using assms unfolding trees_def by blast+
  show "d \<le> 4 \<Longrightarrow> aligned t" using a b(1) by (cases "d = 0") (auto simp: low_page_def is_frame_def)
  show "d < 4 \<Longrightarrow> plain_entry (load64 m (t + 8 * idx_at d va))" using assms unfolding trees_def by blast
qed

lemma low_not_frame: "low_page t \<Longrightarrow> \<not> is_frame t"
  by (auto simp: low_page_def is_frame_def)

text \<open>Two walks that meet in a table took the same way.\<close>

lemma trees_meet:
  assumes tr: "trees m C F" and c: "c \<in> C" "c' \<in> C" and u: "user va" "user va'" and d: "d \<le> 4" "d' \<le> 4"
    and w: "walk m c va d = Some t" "walk m c' va' d' = Some t"
  shows "c = c' \<and> d = d' \<and> same d va va'"
proof (cases "d = 0 \<or> d' = 0")
  case True
  then have "d = 0 \<and> d' = 0"
    using trees_D(1,2)[OF tr c(1) u(1) w(1)] trees_D(1,2)[OF tr c(2) u(2) w(2)] low_not_frame d by blast
  then show ?thesis using w same_0_user[OF u] by simp
next
  case False
  then show ?thesis using tr c u d w unfolding trees_def by blast
qed

text \<open>Linking a fresh frame into an empty entry: the walks through that entry now reach the frame, which has no entries itself;
  all other walks stay as they were.\<close>

definition relinked :: "(u64 \<Rightarrow> u8) \<Rightarrow> u64 \<Rightarrow> u64 \<Rightarrow> nat \<Rightarrow> u64 \<Rightarrow> u64 \<Rightarrow> u64 \<Rightarrow> nat \<Rightarrow> u64 option" where
  "relinked m c0 va0 d0 f c va d =
     (if c = c0 \<and> d0 < d \<and> same (Suc d0) va va0 then if d = Suc d0 then Some f else None else walk m c va d)"

lemma relinked_other: "\<not> (c = c0 \<and> d0 < d \<and> same (Suc d0) va va0) \<Longrightarrow> relinked m c0 va0 d0 f c va d = walk m c va d"
  unfolding relinked_def by (simp only: if_False)

lemma walk_link:
  assumes tr: "trees m C F" and c0: "c0 \<in> C" "user va0" "d0 < 4" "walk m c0 va0 d0 = Some t0"
    and f: "is_frame f" "f \<notin> F" "zeroed m f" and c: "c \<in> C" "user va" "d \<le> 4"
  shows "walk (store64 m (t0 + 8 * idx_at d0 va0) (entry_for f)) c va d = relinked m c0 va0 d0 f c va d"
  using c(3)
proof (induction d)
  case 0
  then show ?case by (simp add: relinked_def)
next
  case (Suc d)
  let ?m = "store64 m (t0 + 8 * idx_at d0 va0) (entry_for f)"
  have t0: "aligned t0" and ft: "f \<noteq> t0" and fa: "aligned f" "f < mem_bytes_total"
    using trees_D[OF tr c0(1,2,4)] c0(3) f low_not_frame by (auto simp: is_frame_def)
  have IH: "walk ?m c va d = relinked m c0 va0 d0 f c va d" using Suc by simp
  show ?case
  proof (cases "c = c0 \<and> d0 < d \<and> same (Suc d0) va va0")
    case True
    have "load64 ?m (f + 8 * idx_at d va) = 0"
      using zeroed_load[OF zeroed_store[OF f(3) t0 idx_at_less ft] fa(1) idx_at_less] .
    then show ?thesis using True IH by (auto simp: relinked_def Let_def)
  next
    case False
    then have eq: "walk ?m c va d = walk m c va d" using IH relinked_other by metis
    have here: "d = d0 \<and> walk m c va d = Some t0 \<and> idx_at d va = idx_at d0 va0"
      if "c = c0 \<and> d0 < Suc d \<and> same (Suc d0) va va0"
    proof -
      have "d = d0" using False that by auto
      then show ?thesis using that walk_same[of d0 va va0 m c] same_mono[of "Suc d0" va va0 d0] c0(3,4) same_Suc[OF c0(3), of va va0] by auto
    qed
    show ?thesis
    proof (cases "walk m c va d")
      case None
      then have "\<not> (c = c0 \<and> d0 < Suc d \<and> same (Suc d0) va va0)" using here by auto
      then show ?thesis using None eq by (simp add: relinked_def)
    next
      case (Some t)
      have ta: "aligned t" using trees_D(4)[OF tr c(1,2) Some] Suc.prems by simp
      have ld: "load64 ?m (t + 8 * idx_at d va) =
          (if t0 + 8 * idx_at d0 va0 = t + 8 * idx_at d va then entry_for f else load64 m (t + 8 * idx_at d va))"
        by (rule load64_store64[OF al8_slot[OF t0 idx_at_less] al8_slot[OF ta idx_at_less]])
      show ?thesis
      proof (cases "t = t0 \<and> idx_at d va = idx_at d0 va0")
        case True
        then have "c = c0 \<and> d = d0 \<and> same d va va0"
          using trees_meet[OF tr c(1) c0(1) c(2) c0(2) _ _ Some, of d0] c0(3,4) Suc.prems by auto
        then have "c = c0 \<and> d = d0 \<and> same (Suc d0) va va0" using same_Suc[OF c0(3), of va va0] True by auto
        then show ?thesis using eq Some ld True entry_for_frame[OF fa] by (simp add: relinked_def)
      next
        case ne: False
        then have "t0 + 8 * idx_at d0 va0 \<noteq> t + 8 * idx_at d va"
          using slot_inj[OF t0 ta idx_at_less idx_at_less] by metis
        moreover have "\<not> (c = c0 \<and> d0 < Suc d \<and> same (Suc d0) va va0)" using here ne Some by auto
        note relinked_other[OF this, of m f]
        ultimately show ?thesis using eq Some ld by simp
      qed
    qed
  qed
qed

lemma relinked_Some:
  assumes "relinked m c0 va0 d0 f c va d = Some t"
  shows "t = f \<and> c = c0 \<and> d = Suc d0 \<and> same (Suc d0) va va0 \<or> walk m c va d = Some t \<and> \<not> (c = c0 \<and> d0 < d \<and> same (Suc d0) va va0)"
  using assms by (auto simp: relinked_def split: if_splits)

lemma trees_link:
  assumes tr: "trees m C F" and c0: "c0 \<in> C" "user va0" "d0 < 4" "walk m c0 va0 d0 = Some t0"
    and f: "is_frame f" "f \<notin> F" "zeroed m f"
  shows "trees (store64 m (t0 + 8 * idx_at d0 va0) (entry_for f)) C (insert f F)"
proof -
  let ?m = "store64 m (t0 + 8 * idx_at d0 va0) (entry_for f)"
  note wl = walk_link[OF tr c0 f]
  have t0: "aligned t0" and ft: "f \<noteq> t0" and fa: "aligned f" "f < mem_bytes_total"
    using trees_D[OF tr c0(1,2,4)] c0(3) f low_not_frame by (auto simp: is_frame_def)
  have roots: "\<forall>c \<in> C. low_page c" using tr by (simp add: trees_def)
  have reach: "t \<in> insert f F \<and> is_frame t" if "c \<in> C" "user va" "0 < d" "d \<le> 4" "walk ?m c va d = Some t" for c va d t
    using wl[OF that(1,2,4)] that(5) relinked_Some[of m c0 va0 d0 f c va d t] trees_D(2,3)[OF tr that(1,2) _ that(3,4)] f(1) by auto
  have pl: "plain_entry (load64 ?m (t + 8 * idx_at d va))" if "c \<in> C" "user va" "d < 4" "walk ?m c va d = Some t" for c va d t
  proof (cases "t = f")
    case True
    then show ?thesis
      using zeroed_load[OF zeroed_store[OF f(3) t0 idx_at_less ft] fa(1) idx_at_less] by (simp add: plain_entry_def)
  next
    case False
    then have w: "walk m c va d = Some t" using wl[OF that(1,2)] that(3,4) relinked_Some[of m c0 va0 d0 f c va d t] by auto
    then have "aligned t" "plain_entry (load64 m (t + 8 * idx_at d va))" using trees_D(4,5)[OF tr that(1,2) w] that(3) by auto
    then show ?thesis
      using load64_store64[OF al8_slot[OF t0 idx_at_less] al8_slot[OF _ idx_at_less]] entry_for_frame(4)[OF fa] by simp
  qed
  have meet: "c = c' \<and> d = d' \<and> same d va va'"
    if "c \<in> C" "c' \<in> C" "user va" "user va'" "0 < d" "d \<le> 4" "0 < d'" "d' \<le> 4" "walk ?m c va d = Some t" "walk ?m c' va' d' = Some t"
    for c c' va va' d d' t
  proof -
    have l: "relinked m c0 va0 d0 f c va d = Some t" "relinked m c0 va0 d0 f c' va' d' = Some t"
      using wl[OF that(1,3,6)] wl[OF that(2,4,8)] that(9,10) by auto
    show ?thesis
    proof (cases "t = f")
      case True
      then have "\<not> walk m c va d = Some t" "\<not> walk m c' va' d' = Some t"
        using trees_D(3)[OF tr that(1,3) _ that(5,6)] trees_D(3)[OF tr that(2,4) _ that(7,8)] f(2) by auto
      then show ?thesis using relinked_Some[OF l(1)] relinked_Some[OF l(2)] same_trans same_sym by blast
    next
      case False
      then show ?thesis using trees_meet[OF tr that(1,2,3,4,6,8)] relinked_Some[OF l(1)] relinked_Some[OF l(2)] by blast
    qed
  qed
  show ?thesis unfolding trees_def using roots reach pl meet by (intro conjI ballI allI impI; metis)
qed

lemma direct_map_walk:
  assumes dm: "direct_map m C K" and c: "c \<in> C" and p: "p < mem_bytes_total" and d: "d < 4" and w: "walk m c (kernel_addr_base + p) d = Some t"
  shows "low_page t" "d = 0 \<and> t = c \<or> t \<in> K"
proof -
  show "d = 0 \<and> t = c \<or> t \<in> K" 
  proof (cases "d = 0")
    case False
    then obtain t' where "t' \<in> K" "walk m c (kernel_addr_base + p) d = Some t'" using dm c p d unfolding direct_map_def by blast
    then show ?thesis using w by simp
  qed (use w in simp)
  then show "low_page t" using dm c by (auto simp: direct_map_def)
qed

lemma direct_map_cong:
  assumes "direct_map m C K"
    and "\<And>c p d. c \<in> C \<Longrightarrow> p < mem_bytes_total \<Longrightarrow> d \<le> 4 \<Longrightarrow> walk m' c (kernel_addr_base + p) d = walk m c (kernel_addr_base + p) d"
  shows "direct_map m' C K"
  using assms unfolding direct_map_def by (metis less_imp_le order_refl)

lemma direct_map_link:
  assumes dm: "direct_map m C K" and tr: "trees m C F" and c0: "c0 \<in> C" "user va0" "d0 < 4" "walk m c0 va0 d0 = Some t0"
  shows "direct_map (store64 m (t0 + 8 * idx_at d0 va0) v) C K"
proof -
  let ?m = "store64 m (t0 + 8 * idx_at d0 va0) v"
  have t0: "aligned t0" using trees_D(4)[OF tr c0(1,2,4)] c0(3) by simp
  have "d0 = 0 \<Longrightarrow> t0 = c0" using c0(4) by simp
  then have t0K: "t0 \<notin> K"
    using trees_D(2)[OF tr c0(1,2,4)] c0(1,3) dm low_not_frame unfolding direct_map_def by (cases "d0 = 0") auto
  have "walk ?m c (kernel_addr_base + p) d = walk m c (kernel_addr_base + p) d" if "c \<in> C" "p < mem_bytes_total" "d \<le> 4" for c p d
    using that(3)
  proof (induction d)
    case (Suc d)
    show ?case
    proof (cases "walk m c (kernel_addr_base + p) d")
      case (Some t)
      note t = direct_map_walk[OF dm that(1,2) _ Some]
      have ta: "aligned t" using t(1) Suc.prems by (simp add: low_page_def)
      have "t0 + 8 * idx_at d0 va0 \<noteq> t + 8 * idx_at d (kernel_addr_base + p)"
      proof
        assume "t0 + 8 * idx_at d0 va0 = t + 8 * idx_at d (kernel_addr_base + p)"
        then have eq: "t0 = t" "idx_at d0 va0 = idx_at d (kernel_addr_base + p)"
          using slot_inj[OF t0 ta idx_at_less idx_at_less] by auto
        then have d: "d = 0" "t = c" using t(2) t0K Suc.prems by auto
        have "d0 = 0" using trees_D(2)[OF tr c0(1,2,4)] low_not_frame t(1) eq(1) c0(3) Suc.prems by fastforce
        then show False using eq(2) d(1) kernel_idx_0[OF that(2)] user_idx_0[OF c0(2)] by simp
      qed
      then have "load64 ?m (t + 8 * idx_at d (kernel_addr_base + p)) = load64 m (t + 8 * idx_at d (kernel_addr_base + p))"
        using load64_store64[OF al8_slot[OF t0 idx_at_less] al8_slot[OF ta idx_at_less]] by simp
      then show ?thesis using Suc Some by simp
    qed (use Suc in simp)
  qed simp
  then show ?thesis by (rule direct_map_cong[OF dm])
qed

section \<open>The invariant\<close>

text \<open>\<open>R\<close> are frames that were allocated and are not linked yet. Free frames hold zeros, because \<^verbatim>\<open>page_map\<close> links new tables
  without clearing them.\<close>

definition mm_inv :: "u64 set \<Rightarrow> u64 set \<Rightarrow> u64 set \<Rightarrow> ('h, 'z) mmstate_scheme \<Rightarrow> bool" where
  "mm_inv C K R s \<longleftrightarrow> pool_ok PhyPool s \<and> mp_start (phy_mem_pool s) = 0 \<and> 32768 \<le> nbits (pool_bitmap (phy_mem_pool s)) \<and>
     (\<forall>t. low_page t \<longrightarrow> t \<in> pages PhyPool s) \<and> trees (pmem s) C (pages PhyPool s - R) \<and> direct_map (pmem s) C K \<and>
     R \<subseteq> pages PhyPool s \<and> (\<forall>f \<in> R. is_frame f \<and> zeroed (pmem s) f) \<and>
     (\<forall>f. is_frame f \<longrightarrow> f \<notin> pages PhyPool s \<longrightarrow> zeroed (pmem s) f)"

definition free_frames :: "('h, 'z) mmstate_scheme \<Rightarrow> u64 set" where
  "free_frames s = {f. is_frame f \<and> f \<notin> pages PhyPool s}"

lemma set_btmp_mm [simp]:
  fixes s :: "('h, 'z) mmstate_scheme"
  shows "pmem (set_btmp mp b s) = pmem s" "cr3 (set_btmp mp b s) = cr3 s" "cr2 (set_btmp mp b s) = cr2 s"
    "global_stack_size (set_btmp mp b s) = global_stack_size s" "tasks (set_btmp mp b s) = tasks s" "ist2 (set_btmp mp b s) = ist2 s"
  by (cases mp; simp add: set_btmp_def)+

lemma pages_pmem [simp]:
  fixes s :: "('h, 'z) mmstate_scheme"
  shows "pages mp (s\<lparr>pmem := m\<rparr>) = pages mp s" "pool_ok mp (s\<lparr>pmem := m\<rparr>) = pool_ok mp s" "free_frames (s\<lparr>pmem := m\<rparr>) = free_frames s"
proof -
  have p: "pool_of mp (s\<lparr>pmem := m\<rparr>) = pool_of mp s" for mp by (cases mp) simp_all
  show a: "pages mp (s\<lparr>pmem := m\<rparr>) = pages mp s" for mp by (simp add: pages_def p)
  show "pool_ok mp (s\<lparr>pmem := m\<rparr>) = pool_ok mp s" by (simp add: pool_ok_def p sema_free_def lock_free_def tq_def cur_ok_def)
  show "free_frames (s\<lparr>pmem := m\<rparr>) = free_frames s" by (simp add: free_frames_def a)
qed

text \<open>Nothing but physical memory and its pool changes.\<close>

definition only_phys :: "('h, 'z) mmstate_scheme \<Rightarrow> ('h, 'z) mmstate_scheme \<Rightarrow> bool" where
  "only_phys s s' \<longleftrightarrow> s' = s\<lparr>phy_mem_pool := phy_mem_pool s', pmem := pmem s'\<rparr>"

lemma only_phys_refl [simp]: "only_phys s s" by (simp add: only_phys_def)

lemma only_phys_trans: "only_phys s s' \<Longrightarrow> only_phys s' s'' \<Longrightarrow> only_phys s s''"
  by (cases s; cases s'; cases s'') (simp add: only_phys_def)

lemma only_phys_pmem: "only_phys s s' \<Longrightarrow> only_phys s (s'\<lparr>pmem := m\<rparr>)"
  by (cases s; cases s') (simp add: only_phys_def)

lemma only_phys_btmp: "only_phys s (set_btmp PhyPool b s)"
  by (cases s) (simp add: only_phys_def set_btmp_def)

lemma only_phys_cr3: "only_phys s s' \<Longrightarrow> cr3 s' = cr3 s"
  by (cases s; cases s') (simp add: only_phys_def)

lemma frame_index:
  assumes "aligned f" "f < mem_bytes_total"
  shows "f = page_addr 0 (unat f div 4096)" "unat f div 4096 < 32768"
proof -
  have "unat f < 134217728" using assms(2) by (simp add: mem_bytes_total_def word_less_nat_alt)
  then show "unat f div 4096 < 32768" by (simp add: div_less_iff_less_mult)
  obtain k where k: "unat f = 4096 * k" using assms(1) unfolding aligned_unat by (blast elim: dvdE)
  have "f = of_nat (unat f)" by simp
  then have "f = of_nat (4096 * k)" unfolding k .
  then show "f = page_addr 0 (unat f div 4096)" using k by (simp add: page_addr_def PG_SIZE_def)
qed

lemma index_frame:
  assumes "i < 32768"
  shows "aligned (page_addr 0 i)" "page_addr 0 i < mem_bytes_total" "unat (page_addr 0 i) = 4096 * i"
proof -
  show "aligned (page_addr 0 i)" by (rule page_aligned) (simp add: aligned_def)
  show u: "unat (page_addr 0 i) = 4096 * i" using assms by (simp add: page_addr_def PG_SIZE_def unat_word_ariths unat_of_nat)
  show "page_addr 0 i < mem_bytes_total" unfolding word_less_nat_alt u using assms by (simp add: mem_bytes_total_def)
qed

lemma bitmap_alloc_first:
  assumes "bitmap_wf btmp" "0 < cnt" "free_run btmp cnt i0"
  shows "\<exists>i b. bitmap_alloc btmp cnt = Inr (int i, b) \<and> free_run btmp cnt i \<and> (\<forall>i' < i. \<not> free_run btmp cnt i') \<and>
    used b = used btmp \<union> {i..<i + cnt} \<and> bytes_len b = bytes_len btmp \<and> length (bits b) = length (bits btmp)"
  using bitmap_alloc_result[OF assms(1,2)] assms(3) unfolding alloc_result_def by (auto split: if_splits)

lemma phy_alloc:
  fixes s :: "('h, 'z) mmstate_scheme"
  assumes ok: "pool_ok PhyPool s" "mp_start (phy_mem_pool s) = 0" "32768 \<le> nbits (pool_bitmap (phy_mem_pool s))"
    and low: "\<forall>t. low_page t \<longrightarrow> t \<in> pages PhyPool s" and free: "free_frames s \<noteq> {}"
  shows "\<exists>f b. pool_alloc PhyPool 1 s = Ret f (set_btmp PhyPool b s) \<and> f \<in> free_frames s \<and>
    pages PhyPool (set_btmp PhyPool b s) = insert f (pages PhyPool s) \<and> pool_ok PhyPool (set_btmp PhyPool b s) \<and>
    nbits b = nbits (pool_bitmap (phy_mem_pool s))"
proof -
  let ?b = "btmp_of PhyPool s"
  have wf: "bitmap_wf ?b" and lk: "sema_free (pool_lock PhyPool) s" and n: "nbits ?b \<le> 2 ^ 52" using ok(1) by (auto simp: pool_ok_def)
  obtain f0 where f0: "is_frame f0" "f0 \<notin> pages PhyPool s" using free by (auto simp: free_frames_def)
  let ?i0 = "unat f0 div 4096"
  note i0 = frame_index[of f0]
  have fr: "free_run ?b 1 ?i0"
    unfolding free_run_1 using i0 f0 ok(2,3) by (auto simp: is_frame_def pages_def)
  obtain i b where r: "bitmap_alloc ?b 1 = Inr (int i, b)" "free_run ?b 1 i" "\<forall>i' < i. \<not> free_run ?b 1 i'" "used b = used ?b \<union> {i..<i + 1}"
      "bytes_len b = bytes_len ?b" "length (bits b) = length (bits ?b)"
    using bitmap_alloc_first[OF wf _ fr] by auto
  have "\<not> ?i0 < i" using r(3) fr by blast
  then have i: "i < 32768" "i \<notin> used ?b" using r(2)[unfolded free_run_1] i0(2) f0(1) by (auto simp: is_frame_def)
  have u: "used b = insert i (used ?b)" using r(4) by auto
  have run: "pool_alloc PhyPool 1 s = Ret (page_addr 0 i) (set_btmp PhyPool b s)"
    using pool_alloc_eq[OF lk r(1)] ok(2) by (simp add: page_addr_def)
  have "page_addr 0 i \<noteq> page_addr 0 j" if "j \<in> used ?b" for j
  proof -
    have "j < 2 ^ 52" using that n used_bound[of ?b] by auto
    then show ?thesis using i that page_addr_inj[of i j] by auto
  qed
  then have new: "page_addr 0 i \<notin> pages PhyPool s" using ok(2) by (auto simp: pages_def)
  then have "is_frame (page_addr 0 i)" using low index_frame[OF i(1)] by (auto simp: is_frame_def low_page_def not_less[symmetric])
  moreover have "nbits b = nbits ?b" "bitmap_wf b" using r(5,6) wf by (auto simp: bitmap_wf_def)
  moreover note pages_upd[OF ok(1) u r(5,6)]
  ultimately show ?thesis using run new ok(2) by (auto simp: free_frames_def pages_def u)
qed

section \<open>Reading and writing tables\<close>

lemma and_fff: "(w :: u64) AND 0xfff = take_bit 12 w"
proof -
  have "(0xfff :: u64) = mask 12" by (simp add: mask_eq_exp_minus_1)
  then show ?thesis by (simp add: take_bit_eq_mask)
qed

lemma bit_page_of: "bit (page_of p) n \<longleftrightarrow> 12 \<le> n \<and> bit p n"
  unfolding page_of_def bit_and_iff bit_page_masks using bit_imp_le_length[of p n] by auto

lemma page_split: "page_of p + (p AND 0xfff) = p" for p :: u64
proof -
  have "page_of p AND take_bit 12 p = 0" by (rule bit_eqI) (auto simp: bit_and_iff bit_page_of bit_take_bit_iff)
  then have "page_of p + take_bit 12 p = page_of p OR take_bit 12 p" by (rule disjunctive_add_eq_or)
  also have "\<dots> = p" by (rule bit_eqI) (auto simp: bit_or_iff bit_page_of bit_take_bit_iff)
  finally show ?thesis unfolding and_fff .
qed

lemma offset_add: "aligned t \<Longrightarrow> n < 4096 \<Longrightarrow> (t + of_nat n) AND 0xfff = of_nat n"
  using page_split[of "t + of_nat n"] page_of_add[of t n] by simp

lemma offset_less: "unat (p AND 0xfff) < 4096" for p :: u64
proof -
  have "p AND 0xfff \<le> 0xfff" by (rule word_and_le1)
  then show ?thesis by (simp add: word_le_nat_alt)
qed

lemma aligned_add: "aligned a \<Longrightarrow> aligned b \<Longrightarrow> aligned (a + b)"
  unfolding aligned_unat unat_word_ariths using dvd_mod[OF dvd_add dvd_word_size(2)] by blast

lemma aligned_page_of [simp]: "aligned (page_of p)"
  unfolding aligned_take_bit by (rule bit_eqI) (auto simp: bit_take_bit_iff bit_page_of)

lemma kernel_offset: "(kernel_addr_base + p) AND 0xfff = p AND 0xfff"
proof -
  have "aligned (kernel_addr_base + page_of p)" by (rule aligned_add, simp add: aligned_def kernel_addr_base_def, simp)
  from offset_add[OF this offset_less[of p]] show ?thesis using page_split[of p] by (simp add: add.assoc)
qed

lemma kernel_canonical: "p < mem_bytes_total \<Longrightarrow> canonical (kernel_addr_base + p)"
proof -
  assume "p < mem_bytes_total"
  then have "unat p < 134217728" by (simp add: mem_bytes_total_def word_less_nat_alt)
  then have "unat (kernel_addr_base + p) = 18446603336221196288 + unat p" by (simp add: kernel_addr_base_def unat_word_ariths)
  then show ?thesis by (simp add: canonical_def word_le_nat_alt)
qed

lemma translate_direct: "direct_map m C K \<Longrightarrow> c \<in> C \<Longrightarrow> p < mem_bytes_total \<Longrightarrow> translate m c (kernel_addr_base + p) = Some p"
  using kernel_canonical[of p] page_split[of p] by (simp add: translate_def kernel_offset direct_map_def del: walk.simps)

lemma table_rw:
  fixes s :: "('h, 'z) mmstate_scheme"
  assumes "direct_map (pmem s) C K" "cr3 s \<in> C" "p < mem_bytes_total"
  shows "vread64 (kernel_addr_base + p) s = Ret (load64 (pmem s) p) s"
    "vwrite64 (kernel_addr_base + p) v s = Ret () (s\<lparr>pmem := store64 (pmem s) p v\<rparr>)"
  using translate_direct[OF assms] by (simp_all add: vread64_def vwrite64_def kget_def kput_def)

lemma in_page: "4096 * k < 4096 * b \<Longrightarrow> n < 4096 \<Longrightarrow> 4096 * k + n < 4096 * b" for k b n :: nat
proof -
  assume "4096 * k < 4096 * b" "n < 4096"
  then have "k + 1 \<le> b" by simp
  then have "4096 * (k + 1) \<le> 4096 * b" by (rule mult_le_mono2)
  then show ?thesis using \<open>n < 4096\<close> by simp
qed

lemma slot_in_memory:
  assumes "aligned t" "t < mem_bytes_total" "n < 4096"
  shows "t + of_nat n < mem_bytes_total"
proof -
  have "unat t < 134217728" using assms(2) by (simp add: mem_bytes_total_def word_less_nat_alt)
  moreover obtain k where "unat t = 4096 * k" using assms(1) unfolding aligned_unat by (blast elim: dvdE)
  ultimately have "unat t + n < 134217728" using in_page[of k 32768 n] assms(3) by simp
  then show ?thesis unfolding word_less_nat_alt unat_slot[OF assms(1,3)] by (simp add: mem_bytes_total_def)
qed

lemma entry_in_memory: "aligned t \<Longrightarrow> t < mem_bytes_total \<Longrightarrow> i < 512 \<Longrightarrow> t + 8 * i < mem_bytes_total"
  using slot_in_memory[of t "8 * unat i"] by (simp add: word_less_nat_alt)

lemma walk_in_memory:
  assumes "trees m C F" "c \<in> C" "user va" "d \<le> 4" "walk m c va d = Some t"
  shows "aligned t" "t < mem_bytes_total"
  using trees_D(1,2,4)[OF assms(1,2,3,5)] assms(4)
  by (cases "d = 0"; auto simp: low_page_def is_frame_def mem_bytes_total_def elim: less_trans)+

lemma idx_eq: "d < 4 \<Longrightarrow> page_entry_idx va (pml_of (3 - d)) = idx_at d va"
proof -
  assume "d < 4"
  then have "d = 0 \<or> d = 1 \<or> d = 2 \<or> d = 3" by auto
  then show ?thesis by (auto simp: page_entry_idx_def idx_at_def pml_of_def)
qed

lemma page_entry_ptr_ok:
  fixes s :: "('h, 'z) mmstate_scheme"
  assumes tr: "trees (pmem s) C F" and dm: "direct_map (pmem s) C K" and c: "cr3 s \<in> C" and u: "user va"
  shows "d < 4 \<Longrightarrow> walk (pmem s) (cr3 s) va d = Some t \<Longrightarrow>
    page_entry_ptr va (pml_of (3 - d)) s = Ret (kernel_addr_base + (t + 8 * idx_at d va)) s"
proof (induction d arbitrary: t)
  case 0
  then show ?case using idx_eq[of 0 va] by (simp add: page_entry_ptr.simps pml_of_def add.assoc run_simps)
next
  case (Suc d)
  obtain t' where t': "walk (pmem s) (cr3 s) va d = Some t'" using Suc.prems(2) by (auto split: option.splits)
  let ?e = "load64 (pmem s) (t' + 8 * idx_at d va)"
  have e: "?e AND PROT_P \<noteq> 0" "t = entry_page ?e" using Suc.prems(2) t' by (auto simp: Let_def split: if_splits)
  have pg: "?e AND NOT 0xfff = t"
    using trees_D(5)[OF tr c u t'] e Suc.prems(1) by (simp add: plain_entry_def page_of_def)
  have up: "page_entry_ptr va (pml_of (3 - d)) s = Ret (kernel_addr_base + (t' + 8 * idx_at d va)) s" using Suc.IH t' Suc.prems(1) by simp
  have rd: "vread64 (kernel_addr_base + (t' + 8 * idx_at d va)) s = Ret ?e s"
    using table_rw(1)[OF dm c entry_in_memory[OF walk_in_memory[OF tr c u _ t'] idx_at_less]] Suc.prems(1) by simp
  have "Suc d = 1 \<or> Suc d = 2 \<or> Suc d = 3" using Suc.prems(1) by auto
  then have lv: "pml_of (3 - Suc d) \<noteq> pml4" "pml_of (Suc (pml_no (pml_of (3 - Suc d)))) = pml_of (3 - d)"
    by (auto simp: pml_of_def)
  show ?case
    unfolding page_entry_ptr.simps[of va "pml_of (3 - Suc d)"] using up rd lv pg idx_eq[OF Suc.prems(1), of va] by (simp add: add.assoc bnd_assoc ret_def)
qed

section \<open>Mapping a page\<close>

lemma mm_inv_D:
  assumes "mm_inv C K R s"
  shows "pool_ok PhyPool s" "mp_start (phy_mem_pool s) = 0" "32768 \<le> nbits (pool_bitmap (phy_mem_pool s))"
    "\<forall>t. low_page t \<longrightarrow> t \<in> pages PhyPool s" "trees (pmem s) C (pages PhyPool s - R)" "direct_map (pmem s) C K"
    "R \<subseteq> pages PhyPool s" "f \<in> R \<Longrightarrow> is_frame f \<and> zeroed (pmem s) f" "f \<in> free_frames s \<Longrightarrow> zeroed (pmem s) f"
  using assms unfolding mm_inv_def free_frames_def by auto

lemma mm_inv_alloc:
  fixes s :: "('h, 'z) mmstate_scheme"
  assumes inv: "mm_inv C K R s" and free: "free_frames s \<noteq> {}"
  shows "\<exists>f s'. pool_alloc PhyPool 1 s = Ret f s' \<and> f \<in> free_frames s \<and> mm_inv C K (insert f R) s' \<and> free_frames s' = free_frames s - {f} \<and>
    pages PhyPool s' = insert f (pages PhyPool s) \<and> pmem s' = pmem s \<and> only_phys s s'"
proof -
  note I = mm_inv_D[OF inv]
  obtain f b where f: "pool_alloc PhyPool 1 s = Ret f (set_btmp PhyPool b s)" "f \<in> free_frames s"
      "pages PhyPool (set_btmp PhyPool b s) = insert f (pages PhyPool s)" "pool_ok PhyPool (set_btmp PhyPool b s)"
      "nbits b = nbits (pool_bitmap (phy_mem_pool s))"
    using phy_alloc[OF I(1-4) free] by blast
  let ?s = "set_btmp PhyPool b s"
  have ff: "is_frame f" "f \<notin> pages PhyPool s" using f(2) by (auto simp: free_frames_def)
  have "insert f (pages PhyPool s) - insert f R = pages PhyPool s - R" using ff(2) I(7) by auto
  then have "mm_inv C K (insert f R) ?s"
    using I(2-7) f(3-5) ff I(8,9) f(2) by (simp add: mm_inv_def set_btmp_def) (auto simp: free_frames_def)
  moreover have "free_frames ?s = free_frames s - {f}" using f(3) by (auto simp: free_frames_def)
  ultimately show ?thesis using f(1-3) only_phys_btmp by auto
qed

text \<open>Linking a reserved frame keeps the invariant.\<close>

lemma mm_inv_link:
  fixes s :: "('h, 'z) mmstate_scheme"
  assumes inv: "mm_inv C K R s" and c0: "c0 \<in> C" "user va0" "d0 < 4" "walk (pmem s) c0 va0 d0 = Some t0" and f: "f \<in> R"
  shows "mm_inv C K (R - {f}) (s\<lparr>pmem := store64 (pmem s) (t0 + 8 * idx_at d0 va0) (entry_for f)\<rparr>)"
proof -
  note I = mm_inv_D[OF inv]
  have ff: "is_frame f" "zeroed (pmem s) f" using I(8) f by auto
  have t0: "aligned t0" "d0 = 0 \<Longrightarrow> t0 = c0" "0 < d0 \<Longrightarrow> t0 \<in> pages PhyPool s - R"
    using trees_D(3,4)[OF I(5) c0(1,2,4)] c0(3,4) by auto
  have "low_page c0" using I(5) c0(1) by (simp add: trees_def)
  then have ne: "g \<noteq> t0" if "is_frame g" "g \<in> R \<or> g \<notin> pages PhyPool s" for g
    using that t0(2,3) low_not_frame by (cases "d0 = 0") auto
  have "insert f (pages PhyPool s - R) = pages PhyPool s - (R - {f})" using f I(7) by auto
  then have tr: "trees (store64 (pmem s) (t0 + 8 * idx_at d0 va0) (entry_for f)) C (pages PhyPool s - (R - {f}))"
    using trees_link[OF I(5) c0 ff(1) _ ff(2)] f by simp
  note dm = direct_map_link[OF I(6,5) c0]
  have z: "zeroed (store64 (pmem s) (t0 + 8 * idx_at d0 va0) (entry_for f)) g" if "is_frame g" "g \<in> R \<or> g \<notin> pages PhyPool s" for g
    using zeroed_store[OF _ t0(1) idx_at_less ne[OF that]] I(8)[of g] I(9)[of g] that by (auto simp: free_frames_def)
  show ?thesis using I(1-4,7) tr dm z I(8) by (auto simp: mm_inv_def)
qed

lemma mm_inv_drop: "mm_inv C K R s \<Longrightarrow> mm_inv C K {} s"
proof -
  assume inv: "mm_inv C K R s"
  have "trees m C F \<Longrightarrow> F \<subseteq> F' \<Longrightarrow> trees m C F'" for m F F' unfolding trees_def by (intro conjI ballI allI impI; blast)
  from this[of "pmem s" "pages PhyPool s - R" "pages PhyPool s"] show ?thesis using inv by (auto simp: mm_inv_def)
qed

text \<open>What programs see of memory does not change.\<close>

definition keeps :: "u64 set \<Rightarrow> ('h, 'z) mmstate_scheme \<Rightarrow> ('h, 'z) mmstate_scheme \<Rightarrow> bool" where
  "keeps C s s' \<longleftrightarrow> only_phys s s' \<and> pages PhyPool s \<subseteq> pages PhyPool s' \<and>
     (\<forall>c \<in> C. \<forall>va. user va \<longrightarrow> walk (pmem s') c va 4 = walk (pmem s) c va 4) \<and>
     (\<forall>c \<in> C. \<forall>va x. user va \<longrightarrow> walk (pmem s) c va 4 = Some (page_of x) \<longrightarrow> pmem s' x = pmem s x)"

lemma keeps_refl [simp]: "keeps C s s" by (simp add: keeps_def)

lemma keeps_trans: "keeps C s s' \<Longrightarrow> keeps C s' s'' \<Longrightarrow> keeps C s s''"
  unfolding keeps_def by (auto simp del: walk.simps intro: only_phys_trans)

lemma present_walk:
  assumes "walk m c va d = Some t"
  shows "walk m c va (Suc d) = (if load64 m (t + 8 * idx_at d va) AND PROT_P = 0 then None else Some (entry_page (load64 m (t + 8 * idx_at d va))))"
  using assms by (simp add: Let_def)

lemma map_level_present:
  fixes s :: "('h, 'z) mmstate_scheme"
  assumes inv: "mm_inv C K R s" and c: "cr3 s \<in> C" "user va" "d < 4" "walk (pmem s) (cr3 s) va d = Some t"
    and e: "load64 (pmem s) (t + 8 * idx_at d va) AND PROT_P \<noteq> 0"
  shows "map_level va paddr (pml_of (3 - d)) s = Ret () s"
proof -
  note I = mm_inv_D[OF inv]
  have "t + 8 * idx_at d va < mem_bytes_total"
    using entry_in_memory[OF walk_in_memory[OF I(5) c(1,2) _ c(4)] idx_at_less] c(3) by simp
  then show ?thesis
    using page_entry_ptr_ok[OF I(5,6) c] table_rw(1)[OF I(6) c(1)] e by (simp add: map_level_def ret_def)
qed

lemma map_level_absent:
  fixes s :: "('h, 'z) mmstate_scheme"
  assumes inv: "mm_inv C K R s" and c: "cr3 s \<in> C" "user va" "d < 4" "walk (pmem s) (cr3 s) va d = Some t"
    and e: "load64 (pmem s) (t + 8 * idx_at d va) AND PROT_P = 0"
    and eaddr: "(if d = 3 then ret paddr else pool_alloc PhyPool 1) s = Ret f s1" and same: "pmem s1 = pmem s" "cr3 s1 = cr3 s"
    and inv1: "mm_inv C K R1 s1" "f \<in> R1"
  shows "map_level va paddr (pml_of (3 - d)) s = Ret () (s1\<lparr>pmem := store64 (pmem s) (t + 8 * idx_at d va) (entry_for f)\<rparr>)"
    "mm_inv C K (R1 - {f}) (s1\<lparr>pmem := store64 (pmem s) (t + 8 * idx_at d va) (entry_for f)\<rparr>)"
proof -
  note I = mm_inv_D[OF inv]
  have mem: "t + 8 * idx_at d va < mem_bytes_total"
    using entry_in_memory[OF walk_in_memory[OF I(5) c(1,2) _ c(4)] idx_at_less] c(3) by simp
  have "pml_of (3 - d) = pt \<longleftrightarrow> d = 3" using c(3) by (auto simp: pml_of_def)
  then show "map_level va paddr (pml_of (3 - d)) s = Ret () (s1\<lparr>pmem := store64 (pmem s) (t + 8 * idx_at d va) (entry_for f)\<rparr>)"
    using page_entry_ptr_ok[OF I(5,6) c] table_rw(1)[OF I(6) c(1) mem] table_rw(2)[of s1 C K, OF mm_inv_D(6)[OF inv1(1)] _ mem] c(1) e eaddr same
    by (simp add: map_level_def)
  show "mm_inv C K (R1 - {f}) (s1\<lparr>pmem := store64 (pmem s) (t + 8 * idx_at d va) (entry_for f)\<rparr>)"
    using mm_inv_link[OF inv1(1) c(1,2,3) _ inv1(2)] c(4) same by simp
qed

lemma map_table:
  fixes s :: "('h, 'z) mmstate_scheme"
  assumes inv: "mm_inv C K R s" and c: "cr3 s \<in> C" "user va" "d < 3" and w: "walk (pmem s) (cr3 s) va d \<noteq> None"
    and free: "free_frames s \<noteq> {}"
  shows "\<exists>s' f. map_level va paddr (pml_of (3 - d)) s = Ret () s' \<and> mm_inv C K R s' \<and> keeps C s s' \<and>
    walk (pmem s') (cr3 s') va (Suc d) \<noteq> None \<and> free_frames s - {f} \<subseteq> free_frames s'"
proof -
  note I = mm_inv_D[OF inv]
  obtain t where t: "walk (pmem s) (cr3 s) va d = Some t" using w by auto
  let ?a = "t + 8 * idx_at d va"
  show ?thesis
  proof (cases "load64 (pmem s) ?a AND PROT_P = 0")
    case False
    then show ?thesis using map_level_present[OF inv c(1,2) _ t False] c(3) inv present_walk[OF t] by (auto simp del: walk.simps)
  next
    case True
    obtain f s1 where f: "pool_alloc PhyPool 1 s = Ret f s1" "f \<in> free_frames s" "mm_inv C K (insert f R) s1"
        "free_frames s1 = free_frames s - {f}" "pages PhyPool s1 = insert f (pages PhyPool s)" "pmem s1 = pmem s" "cr3 s1 = cr3 s" "only_phys s s1"
      using mm_inv_alloc[OF inv free] only_phys_cr3 by blast
    let ?s = "s1\<lparr>pmem := store64 (pmem s) ?a (entry_for f)\<rparr>"
    have run: "map_level va paddr (pml_of (3 - d)) s = Ret () ?s" and inv': "mm_inv C K (insert f R - {f}) ?s"
      using map_level_absent[OF inv c(1,2) _ t True _ f(6,7,3)] c(3) f(1) by auto
    have fr: "is_frame f" "f \<notin> pages PhyPool s" using f(2) by (auto simp: free_frames_def)
    then have R: "insert f R - {f} = R" using I(7) by auto
    note wl = walk_link[OF I(5) c(1,2) _ t fr(1) _ I(9)[OF f(2)]]
    have wl4: "walk (pmem ?s) c' va' 4 = walk (pmem s) c' va' 4" if "c' \<in> C" "user va'" for c' va'
    proof -
      have "walk (pmem s) (cr3 s) va' 4 = None" if "same (Suc d) va' va"
      proof -
        have "walk (pmem s) (cr3 s) va' (Suc d) = None"
          using present_walk[OF t] True walk_same[OF _ that, of "pmem s" "cr3 s"] c(3) by simp
        then have "walk (pmem s) (cr3 s) va' (Suc d + k) = None" for k by (induction k) simp_all
        from this[of "3 - d"] show ?thesis using c(3) by simp
      qed
      then show ?thesis using wl[of c' va' 4] that c(3) fr(2) by (auto simp: relinked_def simp del: walk.simps)
    qed
    have mem: "pmem ?s x = pmem s x" if "c' \<in> C" "user va'" "walk (pmem s) c' va' 4 = Some (page_of x)" for c' va' x
    proof -
      have "page_of x \<noteq> t" using trees_meet[OF I(5) that(1) c(1) that(2) c(2) _ _ that(3), of d] t c(3) by auto
      then show ?thesis using store64_elsewhere[OF walk_in_memory(1)[OF I(5) c(1,2) _ t] idx_at_less] c(3) by simp
    qed
    have "walk (pmem ?s) (cr3 s) va (Suc d) = Some f" using wl[OF _ _ c(1,2), of "Suc d"] c(3) fr(2) by (simp add: relinked_def del: walk.simps)
    then show ?thesis using run inv' R f(4,5,7) only_phys_pmem[OF f(8)] wl4 mem
      by (auto simp: keeps_def simp del: walk.simps intro!: exI[of _ ?s] exI[of _ f])
  qed
qed

text \<open>The last level: \<open>mapped\<close> is the effect of a new page at \<open>f\<close>.\<close>

definition mapped :: "u64 set \<Rightarrow> u64 \<Rightarrow> u64 \<Rightarrow> ('h, 'z) mmstate_scheme \<Rightarrow> ('h, 'z) mmstate_scheme \<Rightarrow> bool" where
  "mapped C va f s s' \<longleftrightarrow> only_phys s s' \<and> pages PhyPool s \<subseteq> pages PhyPool s' \<and> zeroed (pmem s') f \<and>
     (\<forall>c \<in> C. \<forall>va'. user va' \<longrightarrow> walk (pmem s') c va' 4 = (if c = cr3 s \<and> same 4 va' va then Some f else walk (pmem s) c va' 4)) \<and>
     (\<forall>c \<in> C. \<forall>va' x. user va' \<longrightarrow> walk (pmem s) c va' 4 = Some (page_of x) \<longrightarrow> pmem s' x = pmem s x)"

lemma keeps_mapped: "keeps C s s' \<Longrightarrow> mapped C va f s' s'' \<Longrightarrow> mapped C va f s s''"
  using only_phys_cr3[of s s'] unfolding keeps_def mapped_def by (auto simp del: walk.simps intro: only_phys_trans)

lemma map_leaf:
  fixes s :: "('h, 'z) mmstate_scheme"
  assumes inv: "mm_inv C K R s" "paddr \<in> R" and c: "cr3 s \<in> C" "user va" and w: "walk (pmem s) (cr3 s) va 3 \<noteq> None"
  shows "\<exists>s'. map_level va paddr pt s = Ret () s' \<and> mm_inv C K (R - {paddr}) s' \<and> free_frames s' = free_frames s \<and>
    (if walk (pmem s) (cr3 s) va 4 = None then mapped C va paddr s s' else s' = s)"
proof -
  note I = mm_inv_D[OF inv(1)]
  obtain t where t: "walk (pmem s) (cr3 s) va 3 = Some t" using w by auto
  let ?a = "t + 8 * idx_at 3 va"
  have w4: "walk (pmem s) (cr3 s) va 4 = (if load64 (pmem s) ?a AND PROT_P = 0 then None else Some (entry_page (load64 (pmem s) ?a)))"
    using present_walk[OF t] by (simp del: walk.simps)
  have lv: "pt = pml_of (3 - 3)" by (simp add: pml_of_def)
  show ?thesis
  proof (cases "load64 (pmem s) ?a AND PROT_P = 0")
    case False
    have "mm_inv C K (R - {paddr}) s"
    proof -
      have "trees (pmem s) C (pages PhyPool s - (R - {paddr}))"
        using I(5) unfolding trees_def by (intro conjI ballI allI impI; blast)
      then show ?thesis using I(1-4,6-8) inv(1) by (auto simp: mm_inv_def)
    qed
    then show ?thesis using map_level_present[OF inv(1) c _ t False] False w4 unfolding lv by (simp del: walk.simps)
  next
    case True
    let ?s = "s\<lparr>pmem := store64 (pmem s) ?a (entry_for paddr)\<rparr>"
    have run: "map_level va paddr (pml_of (3 - 3)) s = Ret () ?s" and inv': "mm_inv C K (R - {paddr}) ?s"
      using map_level_absent[OF inv(1) c _ t True _ refl refl inv, of paddr] by (simp_all add: ret_def)
    have fr: "is_frame paddr" "zeroed (pmem s) paddr" "paddr \<notin> pages PhyPool s - R" using I(8) inv(2) by auto
    have ta: "aligned t" using walk_in_memory(1)[OF I(5) c _ t] by simp
    have "paddr \<noteq> t" using trees_D(3)[OF I(5) c t] fr(3) by auto
    then have z: "zeroed (pmem ?s) paddr" using zeroed_store[OF fr(2) ta idx_at_less] by simp
    have wl: "walk (pmem ?s) c' va' 4 = (if c' = cr3 s \<and> same 4 va' va then Some paddr else walk (pmem s) c' va' 4)"
      if "c' \<in> C" "user va'" for c' va'
      using walk_link[OF I(5) c _ t fr(1,3,2) that, of 4] by (auto simp: relinked_def simp del: walk.simps)
    have mem: "pmem ?s x = pmem s x" if "c' \<in> C" "user va'" "walk (pmem s) c' va' 4 = Some (page_of x)" for c' va' x
    proof -
      have "page_of x \<noteq> t" using trees_meet[OF I(5) that(1) c(1) that(2) c(2) _ _ that(3), of 3] t by auto
      then show ?thesis using store64_elsewhere[OF ta idx_at_less] by simp
    qed
    have "mapped C va paddr s ?s" using wl mem z only_phys_pmem[OF only_phys_refl] by (simp add: mapped_def del: walk.simps)
    then show ?thesis using run inv' w4 True unfolding lv by (simp del: walk.simps)
  qed
qed

lemma page_map_ok:
  fixes s :: "('h, 'z) mmstate_scheme"
  assumes inv: "mm_inv C K {} s" and c: "cr3 s \<in> C" "user va" and free: "4 \<le> card (free_frames s)"
  shows "\<exists>f s'. page_map va s = Ret () s' \<and> mm_inv C K {} s' \<and> f \<in> free_frames s \<and> f \<in> pages PhyPool s' \<and>
    card (free_frames s) \<le> card (free_frames s') + 4 \<and>
    (if walk (pmem s) (cr3 s) va 4 = None then mapped C va f s s' else keeps C s s')"
proof -
  have fin: "finite (free_frames x)" for x :: "('h, 'z) mmstate_scheme" by simp
  have sub: "card A \<le> card B + 1" if "A - {a} \<subseteq> B" "finite B" for A B and a :: u64
    using card_mono[OF that(2,1)] that(2) finite_subset[OF that(1,2)] by (cases "a \<in> A") (simp_all add: card_Diff_singleton)
  have ne: "free_frames x \<noteq> {}" if "1 \<le> card (free_frames x)" for x :: "('h, 'z) mmstate_scheme" using that by auto
  obtain f s0 where s0: "pool_alloc PhyPool 1 s = Ret f s0" "f \<in> free_frames s" "mm_inv C K {f} s0" "free_frames s0 = free_frames s - {f}"
      "pages PhyPool s0 = insert f (pages PhyPool s)" "pmem s0 = pmem s" "only_phys s s0"
    using mm_inv_alloc[OF inv ne] free by auto
  have k0: "keeps C s s0" using s0(5-7) by (auto simp: keeps_def)
  have c0: "3 \<le> card (free_frames s0)" using s0(2,4) free by simp
  have w0: "walk (pmem s0) (cr3 s0) va 0 \<noteq> None" by simp
  have c0C: "cr3 s0 \<in> C" using c(1) only_phys_cr3[OF s0(7)] by simp
  obtain s1 f1 where s1: "map_level va f (pml_of (3 - 0)) s0 = Ret () s1" "mm_inv C K {f} s1" "keeps C s0 s1"
      "walk (pmem s1) (cr3 s1) va (Suc 0) \<noteq> None" "free_frames s0 - {f1} \<subseteq> free_frames s1"
    using map_table[OF s0(3) c0C c(2) _ w0 ne, of f] c0 by auto
  have c1: "2 \<le> card (free_frames s1)" "cr3 s1 \<in> C" using sub[OF s1(5) fin] c0 s1(3) c0C by (auto simp: keeps_def dest: only_phys_cr3)
  obtain s2 f2 where s2: "map_level va f (pml_of (3 - Suc 0)) s1 = Ret () s2" "mm_inv C K {f} s2" "keeps C s1 s2"
      "walk (pmem s2) (cr3 s2) va (Suc (Suc 0)) \<noteq> None" "free_frames s1 - {f2} \<subseteq> free_frames s2"
    using map_table[OF s1(2) c1(2) c(2) _ s1(4) ne, of f] c1(1) by auto
  have c2: "1 \<le> card (free_frames s2)" "cr3 s2 \<in> C" using sub[OF s2(5) fin] c1 s2(3) by (auto simp: keeps_def dest: only_phys_cr3)
  obtain s3 f3 where s3: "map_level va f (pml_of (3 - Suc (Suc 0))) s2 = Ret () s3" "mm_inv C K {f} s3" "keeps C s2 s3"
      "walk (pmem s3) (cr3 s3) va (Suc (Suc (Suc 0))) \<noteq> None" "free_frames s2 - {f3} \<subseteq> free_frames s3"
    using map_table[OF s2(2) c2(2) c(2) _ s2(4) ne, of f] c2(1) by auto
  have c3: "cr3 s3 \<in> C" using c2(2) s3(3) by (auto simp: keeps_def dest: only_phys_cr3)
  obtain s4 where s4: "map_level va f pt s3 = Ret () s4" "mm_inv C K {} s4" "free_frames s4 = free_frames s3"
      "if walk (pmem s3) (cr3 s3) va 4 = None then mapped C va f s3 s4 else s4 = s3"
    using map_leaf[OF s3(2) _ c3 c(2)] s3(4) unfolding numeral_3_eq_3 by auto
  have k: "keeps C s s3" using k0 s1(3) s2(3) s3(3) keeps_trans by metis
  then have w: "walk (pmem s3) (cr3 s3) va 4 = walk (pmem s) (cr3 s) va 4" using c only_phys_cr3[of s s3] by (simp add: keeps_def del: walk.simps)
  have "pages PhyPool s0 \<subseteq> pages PhyPool s4"
    using s1(3) s2(3) s3(3) s4(4) by (auto simp: keeps_def mapped_def simp del: walk.simps split: if_splits)
  then have "f \<in> pages PhyPool s4" using s0(5) by auto
  moreover have "page_map va s = Ret () s4"
    using s0(1) s1(1) s2(1) s3(1) s4(1) by (simp add: page_map_def eval_nat_numeral pml_of_def ret_def)
  moreover have "card (free_frames s) \<le> card (free_frames s4) + 4"
    using sub[OF s1(5) fin] sub[OF s2(5) fin] sub[OF s3(5) fin] s4(3) s0(2,4) by simp
  moreover have "if walk (pmem s) (cr3 s) va 4 = None then mapped C va f s s4 else keeps C s s4"
    using s4(4) w k keeps_mapped[OF k] by (simp del: walk.simps split: if_splits)
  ultimately show ?thesis using s4(2) s0(2) by blast
qed

section \<open>Reading and writing the pages of a program\<close>

lemma same4_page: "same 4 va va' \<longleftrightarrow> page_of va = page_of va'"
proof
  assume "same 4 va va'"
  then show "page_of va = page_of va'" unfolding same_iff by (intro bit_eqI) (auto simp: bit_page_of)
next
  assume "page_of va = page_of va'"
  then show "same 4 va va'" unfolding same_iff by (auto simp: bit_page_of) (metis bit_page_of)+
qed

lemma user_add: "aligned va \<Longrightarrow> user va \<Longrightarrow> n < 4096 \<Longrightarrow> user (va + of_nat n)"
proof -
  assume a: "aligned va" "user va" "n < 4096"
  obtain k where "unat va = 4096 * k" using a(1) unfolding aligned_unat by (blast elim: dvdE)
  moreover have "unat va < 140737488355328" using a(2) by (simp add: user_def DEFAULT_STACK_def word_less_nat_alt)
  ultimately have "unat va + n < 140737488355328" using in_page[of k 34359738368 n] a(3) by simp
  then show ?thesis unfolding user_def word_less_nat_alt unat_slot[OF a(1,3)] by (simp add: DEFAULT_STACK_def)
qed

lemma translate_user:
  assumes "aligned va" "user va" "n < 4096"
  shows "translate m c (va + of_nat n) = map_option (\<lambda>f. f + of_nat n) (walk m c va 4)"
proof -
  have "same 4 (va + of_nat n) va" unfolding same4_page using page_of_add[OF assms(1,3)] assms(1) by simp
  then have "walk m c (va + of_nat n) 4 = walk m c va 4" by (rule walk_same[OF order_refl])
  moreover have "canonical (va + of_nat n)" using user_add[OF assms] by (simp add: canonical_def user_def DEFAULT_STACK_def)
  ultimately show ?thesis unfolding translate_def offset_add[OF assms(1,3)] by (simp del: walk.simps)
qed

lemma walk_cong:
  "(\<And>k t. k < d \<Longrightarrow> walk m c va k = Some t \<Longrightarrow> load64 m' (t + 8 * idx_at k va) = load64 m (t + 8 * idx_at k va)) \<Longrightarrow>
    walk m' c va d = walk m c va d"
  by (induction d) (auto split: option.splits)

lemma load_other_page:
  "(\<And>x. page_of x \<noteq> f \<Longrightarrow> m' x = m x) \<Longrightarrow> aligned t \<Longrightarrow> t \<noteq> f \<Longrightarrow> i < 512 \<Longrightarrow> load64 m' (t + 8 * i) = load64 m (t + 8 * i)"
  by (rule load64_cong) (simp add: page_of_slot)

lemma data_walk:
  assumes tr: "trees m C F" and c0: "c0 \<in> C" "user va0" "walk m c0 va0 4 = Some f" and m': "\<And>x. page_of x \<noteq> f \<Longrightarrow> m' x = m x"
    and c: "c \<in> C" "user va" "d \<le> 4"
  shows "walk m' c va d = walk m c va d"
proof (rule walk_cong)
  fix k t
  assume k: "k < d" "walk m c va k = Some t"
  have "t \<noteq> f" using trees_meet[OF tr c(1) c0(1) c(2) c0(2) _ _ k(2), of 4] c0(3) k(1) c(3) by auto
  then show "load64 m' (t + 8 * idx_at k va) = load64 m (t + 8 * idx_at k va)"
    using load_other_page[OF m' walk_in_memory(1)[OF tr c(1,2) _ k(2)] _ idx_at_less] k(1) c(3) by simp
qed

lemma data_direct:
  assumes dm: "direct_map m C K" and f: "is_frame f" and m': "\<And>x. page_of x \<noteq> f \<Longrightarrow> m' x = m x"
  shows "direct_map m' C K"
proof (rule direct_map_cong[OF dm], rule walk_cong)
  fix c p d k t
  assume a: "c \<in> C" "p < mem_bytes_total" "d \<le> 4" "k < d" "walk m c (kernel_addr_base + p) k = Some t"
  have "low_page t" using direct_map_walk(1)[OF dm a(1,2) _ a(5)] a(3,4) by simp
  then have "aligned t" "t \<noteq> f" using low_not_frame f by (auto simp: low_page_def)
  then show "load64 m' (t + 8 * idx_at k (kernel_addr_base + p)) = load64 m (t + 8 * idx_at k (kernel_addr_base + p))"
    using load_other_page[of f m' m t, OF m' _ _ idx_at_less] by simp
qed

lemma mm_inv_data:
  fixes s :: "('h, 'z) mmstate_scheme"
  assumes inv: "mm_inv C K R s" and c0: "c0 \<in> C" "user va0" "walk (pmem s) c0 va0 4 = Some f"
    and m': "\<And>x. page_of x \<noteq> f \<Longrightarrow> m' x = pmem s x"
  shows "mm_inv C K R (s\<lparr>pmem := m'\<rparr>)"
proof -
  note I = mm_inv_D[OF inv]
  have f: "is_frame f" "f \<in> pages PhyPool s - R" using trees_D(2,3)[OF I(5) c0] by auto
  note dw = data_walk[OF I(5) c0 m']
  have z: "zeroed m' g" if "is_frame g" "g \<in> R \<or> g \<notin> pages PhyPool s" for g
  proof -
    have "zeroed (pmem s) g" "g \<noteq> f" using I(8)[of g] I(9)[of g] that f(2) by (auto simp: free_frames_def)
    then show ?thesis using m' by (auto simp: zeroed_def)
  qed
  have ld: "load64 m' (t + 8 * idx_at d va) = load64 (pmem s) (t + 8 * idx_at d va)"
    if "c \<in> C" "user va" "d < 4" "walk (pmem s) c va d = Some t" for c va d t
  proof -
    have "t \<noteq> f" using trees_meet[OF I(5) that(1) c0(1) that(2) c0(2) _ _ that(4), of 4] c0(3) that(3) by auto
    then show ?thesis using load_other_page[OF m' walk_in_memory(1)[OF I(5) that(1,2) _ that(4)] _ idx_at_less] that(3) by simp
  qed
  have "trees m' C (pages PhyPool s - R)"
    using I(5) dw ld unfolding trees_def by (intro conjI ballI allI impI; metis less_imp_le)
  then show ?thesis using I(1-4,7) data_direct[OF I(6) f(1) m'] z I(8) by (auto simp: mm_inv_def)
qed

definition fill :: "(u64 \<Rightarrow> u8) \<Rightarrow> u64 \<Rightarrow> nat \<Rightarrow> u8 list \<Rightarrow> u64 \<Rightarrow> u8" where
  "fill m f n bs = (\<lambda>x. if n \<le> unat (x - f) \<and> unat (x - f) < n + length bs then bs ! (unat (x - f) - n) else m x)"

lemma fill_Nil [simp]: "fill m f n [] = m" by (rule ext) (auto simp: fill_def)

lemma fill_Cons: "n < 4096 \<Longrightarrow> fill (m(f + of_nat n := b)) f (Suc n) bs = fill m f n (b # bs)"
proof
  fix x
  assume n: "n < 4096"
  have "x = f + of_nat n \<longleftrightarrow> unat (x - f) = n"
  proof
    assume "unat (x - f) = n"
    then have "of_nat n = x - f" by auto
    then show "x = f + of_nat n" by simp
  qed (use n in \<open>simp add: unat_of_nat\<close>)
  then show "fill (m(f + of_nat n := b)) f (Suc n) bs x = fill m f n (b # bs) x"
    by (auto simp: fill_def nth_Cons' Suc_le_eq)
qed

lemma fill_page: "aligned f \<Longrightarrow> n + length bs \<le> 4096 \<Longrightarrow> page_of x \<noteq> f \<Longrightarrow> fill m f n bs x = m x"
proof -
  assume a: "aligned f" "n + length bs \<le> 4096" "page_of x \<noteq> f"
  have "\<not> unat (x - f) < 4096"
  proof
    assume "unat (x - f) < 4096"
    then have "page_of (f + of_nat (unat (x - f))) = f" by (rule page_of_add[OF a(1)])
    then show False using a(3) by simp
  qed
  then show ?thesis using a(2) by (simp add: fill_def)
qed

lemma fill_at: "k < length bs \<Longrightarrow> n + length bs \<le> 4096 \<Longrightarrow> fill m f n bs (f + of_nat (n + k)) = bs ! k"
proof -
  assume a: "k < length bs" "n + length bs \<le> 4096"
  have e: "unat (of_nat (n + k) :: u64) = n + k" using a unfolding unat_of_nat by simp
  have "unat (f + of_nat (n + k) - f) = n + k" unfolding add_diff_cancel_left' e ..
  then show ?thesis unfolding fill_def using a by simp
qed

text \<open>Bytes of one page, read and written through its mapping. The pages need no fault.\<close>

lemma ustore_page:
  fixes s :: "('h, 'z) mmstate_scheme"
  assumes "mm_inv C K R s" "cr3 s \<in> C" "aligned va" "user va" "walk (pmem s) (cr3 s) va 4 = Some f" "n + length bs \<le> 4096"
  shows "ustore pf (va + of_nat n) bs s = Ret () (s\<lparr>pmem := fill (pmem s) f n bs\<rparr>)"
  using assms
proof (induction bs arbitrary: n s)
  case Nil
  then show ?case by (simp add: ret_def)
next
  case (Cons b bs)
  note inv = Cons.prems(1) and I = mm_inv_D[OF Cons.prems(1)]
  have n: "n < 4096" using Cons.prems(6) by simp
  have fa: "aligned f" using walk_in_memory(1)[OF I(5) Cons.prems(2,4) _ Cons.prems(5)] by simp
  define m' where "m' = (pmem s)(f + of_nat n := b)"
  have m': "m' x = pmem s x" if "page_of x \<noteq> f" for x using that page_of_add[OF fa n] by (auto simp: m'_def)
  have inv': "mm_inv C K R (s\<lparr>pmem := m'\<rparr>)" by (rule mm_inv_data[OF inv Cons.prems(2,4,5) m'])
  have w': "walk m' (cr3 s) va 4 = Some f"
    using trans[OF data_walk[where m' = m', OF I(5) Cons.prems(2,4,5) m' Cons.prems(2,4) order_refl] Cons.prems(5)] .
  have r: "resolve pf (va + of_nat n) s = Ret (f + of_nat n) s"
    using translate_user[OF Cons.prems(3,4) n, of "pmem s" "cr3 s"] Cons.prems(5) by (simp add: resolve_def ret_def del: walk.simps)
  have st: "ustore pf (va + of_nat (Suc n)) bs (s\<lparr>pmem := m'\<rparr>) = Ret () (s\<lparr>pmem := fill m' f (Suc n) bs\<rparr>)"
    using Cons.IH[OF inv' _ Cons.prems(3,4), of "Suc n"] w' Cons.prems(2,6) by (simp del: walk.simps)
  have eq: "va + of_nat n + 1 = va + of_nat (Suc n)" by simp
  show ?case unfolding ustore.simps eq fill_Cons[OF n, of "pmem s" f b bs, symmetric, folded m'_def]
    using r st by (simp add: kput_def m'_def[symmetric] del: of_nat_Suc)
qed

lemma uload_page:
  fixes s :: "('h, 'z) mmstate_scheme"
  assumes "aligned va" "user va" "walk (pmem s) (cr3 s) va 4 = Some f" "n + k \<le> 4096"
  shows "uload pf (va + of_nat n) k s = Ret (map (\<lambda>i. pmem s (f + of_nat i)) [n..<n + k]) s"
  using assms(4)
proof (induction k arbitrary: n)
  case (Suc k)
  have "resolve pf (va + of_nat n) s = Ret (f + of_nat n) s"
    using translate_user[OF assms(1,2), of n "pmem s" "cr3 s"] assms(3) Suc.prems by (simp add: resolve_def ret_def del: walk.simps)
  moreover have "uload pf (va + of_nat (Suc n)) k s = Ret (map (\<lambda>i. pmem s (f + of_nat i)) [Suc n..<Suc n + k]) s"
    using Suc.IH[of "Suc n"] Suc.prems by simp
  moreover have "[n..<n + Suc k] = n # [Suc n..<Suc n + k]" by (simp add: upt_conv_Cons)
  moreover have eq: "va + of_nat n + 1 = va + of_nat (Suc n)" by simp
  ultimately show ?case unfolding uload.simps eq by (simp add: kget_def ret_def del: upt_Suc of_nat_Suc)
qed (simp add: ret_def)

section \<open>Unmapping a page\<close>

lemma present_scan_ok:
  fixes s :: "('h, 'z) mmstate_scheme"
  assumes dm: "direct_map (pmem s) C K" "cr3 s \<in> C" and t: "aligned t" "t < mem_bytes_total" and "i + k \<le> 512"
  shows "\<exists>r. present_scan (kernel_addr_base + t) i k s = Ret r s \<and> r \<le> i + k \<and>
    (r = i + k \<longleftrightarrow> (\<forall>j. i \<le> j \<longrightarrow> j < i + k \<longrightarrow> load64 (pmem s) (t + 8 * of_nat j) AND 1 = 0))"
  using assms(5)
proof (induction k arbitrary: i)
  case 0
  then show ?case by (simp add: ret_def)
next
  case (Suc k)
  have i: "i < 512" using Suc.prems by simp
  then have "(of_nat i :: u64) < 512" by (simp add: word_less_nat_alt unat_of_nat)
  then have rd: "vread64 (kernel_addr_base + t + 8 * of_nat i) s = Ret (load64 (pmem s) (t + 8 * of_nat i)) s"
    using table_rw(1)[OF dm entry_in_memory[OF t]] by (simp add: add.assoc)
  show ?case
  proof (cases "load64 (pmem s) (t + 8 * of_nat i) AND 1 = 0")
    case True
    obtain r where r: "present_scan (kernel_addr_base + t) (Suc i) k s = Ret r s" "r \<le> Suc i + k"
        "r = Suc i + k \<longleftrightarrow> (\<forall>j. Suc i \<le> j \<longrightarrow> j < Suc i + k \<longrightarrow> load64 (pmem s) (t + 8 * of_nat j) AND 1 = 0)"
      using Suc.IH[of "Suc i"] Suc.prems by auto
    have "(\<forall>j. i \<le> j \<longrightarrow> j < i + Suc k \<longrightarrow> load64 (pmem s) (t + 8 * of_nat j) AND 1 = 0) \<longleftrightarrow>
        (\<forall>j. Suc i \<le> j \<longrightarrow> j < Suc i + k \<longrightarrow> load64 (pmem s) (t + 8 * of_nat j) AND 1 = 0)"
      using True by (metis Suc_leD add_Suc_shift le_antisym not_less_eq_eq)
    then show ?thesis using True rd r by auto
  next
    case False
    then have "\<not> (\<forall>j. i \<le> j \<longrightarrow> j < i + Suc k \<longrightarrow> load64 (pmem s) (t + 8 * of_nat j) AND 1 = 0)" by auto
    then show ?thesis using False rd by (auto simp: ret_def)
  qed
qed

lemma unmap_level_ok:
  fixes s :: "('h, 'z) mmstate_scheme"
  assumes inv: "mm_inv C K R s" and c: "cr3 s \<in> C" "user va" "d < 4" and w: "walk (pmem s) (cr3 s) va d = Some t" "walk (pmem s) (cr3 s) va (Suc d) = Some t'"
  shows "unmap_level va (pml_of (3 - d)) s =
    Ret (if \<forall>j < 512. load64 (pmem s) (t' + 8 * of_nat j) AND 1 = 0 then t' else 0) s"
proof -
  note I = mm_inv_D[OF inv]
  let ?e = "load64 (pmem s) (t + 8 * idx_at d va)"
  have mem: "t + 8 * idx_at d va < mem_bytes_total"
    using entry_in_memory[OF walk_in_memory[OF I(5) c(1,2) _ w(1)] idx_at_less] c(3) by simp
  have "?e AND PROT_P \<noteq> 0" "t' = entry_page ?e" using present_walk[OF w(1)] w(2) by (auto simp del: walk.simps split: if_splits)
  then have pg: "?e AND NOT 0xfff = t'" using trees_D(5)[OF I(5) c(1,2) w(1) c(3)] by (simp add: plain_entry_def page_of_def)
  have t': "aligned t'" "t' < mem_bytes_total" using walk_in_memory[OF I(5) c(1,2) _ w(2)] c(3) by auto
  obtain r where r: "present_scan (kernel_addr_base + t') 0 512 s = Ret r s"
      "r = 512 \<longleftrightarrow> (\<forall>j < 512. load64 (pmem s) (t' + 8 * of_nat j) AND 1 = 0)"
    using present_scan_ok[OF I(6) c(1) t', of 0 512] by auto
  show ?thesis
    using page_entry_ptr_ok[OF I(5,6) c w(1)] table_rw(1)[OF I(6) c(1) mem] pg r by (auto simp: unmap_level_def Let_def ret_def)
qed

lemma unmap_level_kept:
  fixes s :: "('h, 'z) mmstate_scheme"
  assumes inv: "mm_inv C K R s" and c: "cr3 s \<in> C" "user va" "d < 3" and w: "walk (pmem s) (cr3 s) va (Suc (Suc d)) \<noteq> None"
  shows "unmap_level va (pml_of (3 - d)) s = Ret 0 s"
proof -
  obtain t t' where t: "walk (pmem s) (cr3 s) va d = Some t" "walk (pmem s) (cr3 s) va (Suc d) = Some t'"
    using w by (simp split: option.splits)
  have "load64 (pmem s) (t' + 8 * idx_at (Suc d) va) AND 1 \<noteq> 0"
    using w present_walk[OF t(2)] by (auto simp: PROT_P_def simp del: walk.simps)
  moreover have "idx_at (Suc d) va = of_nat (unat (idx_at (Suc d) va))" "unat (idx_at (Suc d) va) < 512"
    using idx_at_less[of "Suc d" va] by (simp_all add: word_less_nat_alt)
  ultimately have "\<not> (\<forall>j < 512. load64 (pmem s) (t' + 8 * of_nat j) AND 1 = 0)" by metis
  then show ?thesis using unmap_level_ok[OF inv c(1,2) _ t] c(3) by (auto simp del: walk.simps)
qed

end
