(* ===== verification/Fault.thy ===== *)
theory Fault
  imports Vm
begin

text \<open>
  Unmapping, page faults and copying between address spaces, on top of the trees of theory \<open>Vm\<close>; the properties of the paging code.
\<close>

unbundle bit_operations_syntax

section \<open>Unmapping\<close>

lemma page_zero_fill: "aligned f \<Longrightarrow> zeroed (fill m f 0 (replicate 4096 0)) f"
  unfolding zeroed_def
proof (intro allI impI)
  fix x
  assume f: "aligned f" "page_of x = f"
  have "x = f + (x AND 0xfff)" using page_split[of x] f(2) by simp
  then have "x - f = x AND 0xfff" by (metis add_diff_cancel_left')
  then have "unat (x - f) < 4096" using offset_less[of x] by simp
  then show "fill m f 0 (replicate 4096 0) x = 0" by (simp add: fill_def)
qed

lemma pool_free_state:
  fixes s :: "'z kstate_scheme"
  assumes ok: "pool_ok mp s" and "a \<in> pages mp s"
  shows "\<exists>b. pool_free mp a 1 s = Ret () (set_btmp mp b s) \<and> pages mp (set_btmp mp b s) = pages mp s - {a}"
proof -
  obtain s' where s': "pool_free mp a 1 s = Ret () s'" "pages mp s' = pages mp s - {a}" using pool_free_law[OF assms] by blast
  obtain i where i: "i \<in> used (btmp_of mp s)" "a = page_addr (mp_start (pool_of mp s)) i" using assms(2) by (auto simp: pages_def)
  have "i < 2 ^ 52" using i(1) ok used_bound[of "btmp_of mp s"] by (force simp: pool_ok_def)
  then have "\<exists>b. pool_free mp a 1 s = Ret () (set_btmp mp b s)"
    using pool_free_ok[of mp s a i 1] ok i page_idx[of i "mp_start (pool_of mp s)"] by (auto simp: pool_ok_def)
  then show ?thesis using s' by auto
qed

lemma page_unmap_ok:
  fixes s :: "('h, 'z) mmstate_scheme"
  assumes inv: "mm_inv C K {} s" and c: "cr3 s \<in> C" "user va" and va: "aligned va" and w: "walk (pmem s) (cr3 s) va 4 = Some f"
  shows "\<exists>s'. page_unmap pf va s = Ret () s' \<and> pages PhyPool s' = pages PhyPool s - {f} \<and>
    pmem s' = fill (pmem s) f 0 (replicate 4096 0) \<and> only_phys s s' \<and>
    (\<forall>c' \<in> C. \<forall>va'. user va' \<longrightarrow> walk (pmem s') c' va' 4 = walk (pmem s) c' va' 4)"
proof -
  note I = mm_inv_D[OF inv]
  define m' where "m' = fill (pmem s) f 0 (replicate 4096 0)"
  let ?s = "s\<lparr>pmem := m'\<rparr>"
  have fr: "is_frame f" "f \<in> pages PhyPool s" and fa: "aligned f"
    using trees_D(2,3,4)[OF I(5) c w] by auto
  have out: "m' x = pmem s x" if "page_of x \<noteq> f" for x using that by (simp add: m'_def fill_page[OF fa])
  have inv': "mm_inv C K {} ?s" by (rule mm_inv_data[OF inv c w out])
  have wk: "walk m' c' va' d = walk (pmem s) c' va' d" if "c' \<in> C" "user va'" "d \<le> 4" for c' va' d
    by (rule data_walk[OF I(5) c w out that])
  have w': "walk (pmem ?s) (cr3 ?s) va (Suc 3) = Some f" using w wk[OF c, of 4] by (simp del: walk.simps)
  have nn: "walk (pmem ?s) (cr3 ?s) va d \<noteq> None" if "d \<le> 4" for d
  proof
    assume "walk (pmem ?s) (cr3 ?s) va d = None"
    then have "walk (pmem ?s) (cr3 ?s) va (d + k) = None" for k by (induction k) simp_all
    from this[of "4 - d"] show False using that w' by (simp del: walk.simps)
  qed
  obtain t where t: "walk (pmem ?s) (cr3 ?s) va 3 = Some t" using nn[of 3] by auto
  have z: "load64 (pmem ?s) (f + 8 * of_nat j) AND 1 = 0" if "j < 512" for j
    using zeroed_load[OF page_zero_fill[OF fa] fa, of "of_nat j" "pmem s"] that
    by (simp add: m'_def word_less_nat_alt unat_of_nat)
  have st: "ustore pf va (replicate (unat PG_SIZE) 0) s = Ret () ?s"
    using ustore_page[OF inv c(1) va c(2) w, of 0 "replicate 4096 0" pf] by (simp add: PG_SIZE_def m'_def)
  have u0: "unmap_level va pt ?s = Ret f ?s"
    using unmap_level_ok[OF inv' _ c(2) _ t w'] z c(1) by (simp add: pml_of_def del: walk.simps)
  have u: "unmap_level va pdt ?s = Ret 0 ?s" "unmap_level va pdpt ?s = Ret 0 ?s" "unmap_level va pml4 ?s = Ret 0 ?s"
    using unmap_level_kept[OF inv' _ c(2) _ nn, of 2] unmap_level_kept[OF inv' _ c(2) _ nn, of 1] unmap_level_kept[OF inv' _ c(2) _ nn, of 0] c(1)
    by (simp_all add: pml_of_def del: walk.simps)
  have f0: "f \<noteq> 0" using fr(1) by (auto simp: is_frame_def)
  let ?b = "btmp_of PhyPool ?s"
  have "f \<in> pages PhyPool ?s" using fr(2) by simp
  obtain b where b: "pool_free PhyPool f 1 ?s = Ret () (set_btmp PhyPool b ?s)" "pages PhyPool (set_btmp PhyPool b ?s) = pages PhyPool ?s - {f}"
    using pool_free_state[OF mm_inv_D(1)[OF inv'] \<open>f \<in> pages PhyPool ?s\<close>] by blast
  have "page_unmap pf va s = Ret () (set_btmp PhyPool b ?s)"
    using st u0 u b(1) f0 by (simp add: page_unmap_def free_frame_def ret_def)
  moreover have "only_phys s (set_btmp PhyPool b ?s)"
    using only_phys_trans[OF only_phys_pmem[OF only_phys_refl] only_phys_btmp] .
  ultimately show ?thesis using b(2) wk by (auto simp: m'_def[symmetric] simp del: walk.simps)
qed

section \<open>Copying a page\<close>

lemma locks_mm [simp]:
  fixes s :: "('h, 'z) mmstate_scheme"
  shows "sema_free p (s\<lparr>pmem := m\<rparr>) = sema_free p s" "sema_free p (s\<lparr>cr3 := x\<rparr>) = sema_free p s" "sema_free p (s\<lparr>phy_mem_pool := q\<rparr>) = sema_free p s"
    "sema_free p (s\<lparr>cr2 := x\<rparr>) = sema_free p s"
  by (simp_all add: sema_free_def lock_free_def tq_def cur_ok_def)

lemma mm_inv_cong:
  assumes "mm_inv C K R s" "phy_mem_pool s' = phy_mem_pool s" "pmem s' = pmem s" "sema_free PhyPoolLock s' = sema_free PhyPoolLock s"
  shows "mm_inv C K R s'"
proof -
  have "pages PhyPool s' = pages PhyPool s" "pool_ok PhyPool s' = pool_ok PhyPool s" using assms(2,4) by (simp_all add: pages_def pool_ok_def)
  then show ?thesis using assms by (simp add: mm_inv_def)
qed

lemma sema_free_btmp [simp]: "sema_free p (set_btmp mp b s) = sema_free p s"
  by (cases mp; simp add: set_btmp_def sema_free_def lock_free_def tq_def cur_ok_def)

lemma free_frames_cong: "phy_mem_pool s' = phy_mem_pool s \<Longrightarrow> free_frames s' = free_frames s"
  by (simp add: free_frames_def pages_def)

lemma only_phys_fields:
  assumes "only_phys s s'"
  shows "cr3 s' = cr3 s" "kernel_mem_pool s' = kernel_mem_pool s" "tasks s' = tasks s" "ist2 s' = ist2 s" "sema_free p s' = sema_free p s"
    "links s' = links s" "sema_value s' = sema_value s" "global_stack_size s' = global_stack_size s" "cr2 s' = cr2 s"
proof -
  have e: "s' = s\<lparr>phy_mem_pool := phy_mem_pool s', pmem := pmem s'\<rparr>" using assms by (simp add: only_phys_def)
  show "cr3 s' = cr3 s" "kernel_mem_pool s' = kernel_mem_pool s" "tasks s' = tasks s" "ist2 s' = ist2 s"
    "links s' = links s" "sema_value s' = sema_value s" "global_stack_size s' = global_stack_size s" "cr2 s' = cr2 s"
    by (subst e, simp)+
  show "sema_free p s' = sema_free p s" by (subst e, simp)
qed

text \<open>\<open>copied\<close>: the address space \<open>cd\<close> has a new page at \<open>d_page\<close> that holds the bytes of the frame \<open>fs\<close>; nothing else that a program sees changes.\<close>

definition copied :: "u64 set \<Rightarrow> u64 \<Rightarrow> u64 \<Rightarrow> u64 \<Rightarrow> u64 \<Rightarrow> ('h, 'z) mmstate_scheme \<Rightarrow> ('h, 'z) mmstate_scheme \<Rightarrow> bool" where
  "copied C cd d_page f fs s s' \<longleftrightarrow>
     (\<forall>c \<in> C. \<forall>va. user va \<longrightarrow> walk (pmem s') c va 4 = (if c = cd \<and> page_of va = page_of d_page then Some f else walk (pmem s) c va 4)) \<and>
     (\<forall>i < 4096. pmem s' (f + of_nat i) = pmem s (fs + of_nat i)) \<and>
     (\<forall>c \<in> C. \<forall>va x. user va \<longrightarrow> walk (pmem s) c va 4 = Some (page_of x) \<longrightarrow> pmem s' x = pmem s x)"

lemma copy_page_ok:
  fixes s :: "('h, 'z) mmstate_scheme"
  assumes inv: "mm_inv C K {} s" and kp: "pool_ok KernelPool s" "room 1 s" and cur: "running_task s = Ret cur s"
    and cs: "cs = t_pml4 (tasks s s_task) - kernel_addr_base" "cs \<in> C" "aligned s_page" "user s_page" "walk (pmem s) cs s_page 4 = Some fs"
    and cd: "cd = t_pml4 (tasks s d_task) - kernel_addr_base" "cd \<in> C" "aligned d_page" "user d_page" "walk (pmem s) cd d_page 4 = None"
    and free: "4 \<le> card (free_frames s)"
  shows "\<exists>f s'. copy_page pf d_page s_page d_task s_task s = Ret () s' \<and> mm_inv C K {} s' \<and> f \<in> free_frames s \<and>
    only_phys (s\<lparr>cr3 := t_pml4 (tasks s cur) - kernel_addr_base\<rparr>) s' \<and> copied C cd d_page f fs s s' \<and> card (free_frames s) \<le> card (free_frames s') + 4"
proof -
  obtain a b where b: "alloc_pages 1 s = Ret a (set_btmp KernelPool b s)"
      "\<forall>t :: ('h, 'z) mmstate_scheme. sema_free KernelPoolLock t \<longrightarrow> kernel_mem_pool t = kernel_mem_pool (set_btmp KernelPool b s) \<longrightarrow>
        free_pages a 1 t = Ret () (set_btmp KernelPool (btmp_of KernelPool s) t)"
    using alloc_free_pages[OF kp(1), of 1 0] kp(2) by auto
  define s1 where "s1 = set_btmp KernelPool b s"
  have s1: "tasks s1 = tasks s" "pmem s1 = pmem s" "phy_mem_pool s1 = phy_mem_pool s" "sema_free p s1 = sema_free p s" for p
    by (simp_all add: s1_def, simp add: set_btmp_def)
  define bs where "bs = map (\<lambda>i. pmem s (fs + of_nat i)) [0..<4096]"
  have ld: "uload pf s_page (unat PG_SIZE) (s1\<lparr>cr3 := cs\<rparr>) = Ret bs (s1\<lparr>cr3 := cs\<rparr>)"
    using uload_page[OF cs(3,4), of "s1\<lparr>cr3 := cs\<rparr>" fs 0 4096 pf] cs(5) s1(2) by (simp add: PG_SIZE_def bs_def del: walk.simps)
  define s3 where "s3 = s1\<lparr>cr3 := cd\<rparr>"
  have s3: "tasks s3 = tasks s" "pmem s3 = pmem s" "phy_mem_pool s3 = phy_mem_pool s" "cr3 s3 = cd" "sema_free p s3 = sema_free p s"
      "kernel_mem_pool s3 = kernel_mem_pool s1" for p
    using s1 by (simp_all add: s3_def)
  have inv3: "mm_inv C K {} s3" using mm_inv_cong[OF inv, of s3] s3 by simp
  have ff: "free_frames s3 = free_frames s" using free_frames_cong s3(3) by auto
  obtain f s4 where s4: "page_map d_page s3 = Ret () s4" "mm_inv C K {} s4" "f \<in> free_frames s" "mapped C d_page f s3 s4"
      "card (free_frames s) \<le> card (free_frames s4) + 4"
    using page_map_ok[OF inv3, of d_page] cd(2,4,5) free s3(2,4) ff by (auto simp del: walk.simps)
  have op: "only_phys s3 s4" using s4(4) by (simp add: mapped_def)
  note of4 = only_phys_fields[OF op]
  have w4: "walk (pmem s4) c va 4 = (if c = cd \<and> page_of va = page_of d_page then Some f else walk (pmem s) c va 4)"
    if "c \<in> C" "user va" for c va
    using s4(4) that s3(2,4) by (simp add: mapped_def same4_page del: walk.simps)
  have wf: "walk (pmem s4) (cr3 s4) d_page 4 = Some f" using w4[OF cd(2,4)] of4(1) s3(4) by (simp del: walk.simps)
  have fa: "aligned f" "is_frame f" using s4(3) by (auto simp: free_frames_def is_frame_def)
  have c4: "cr3 s4 \<in> C" using of4(1) s3(4) cd(2) by simp
  define m5 where "m5 = fill (pmem s4) f 0 bs"
  have bl: "length bs = 4096" by (simp add: bs_def)
  have st: "ustore pf d_page bs s4 = Ret () (s4\<lparr>pmem := m5\<rparr>)"
    using ustore_page[OF s4(2) c4 cd(3,4) wf, of 0 bs pf] bl by (simp add: m5_def)
  have out: "m5 x = pmem s4 x" if "page_of x \<noteq> f" for x using fill_page[OF fa(1) _ that, of 0 bs] bl by (simp add: m5_def)
  have inv5: "mm_inv C K {} (s4\<lparr>pmem := m5\<rparr>)" by (rule mm_inv_data[OF s4(2) c4 cd(4) wf out])
  define s6 where "s6 = s4\<lparr>pmem := m5, cr3 := t_pml4 (tasks s cur) - kernel_addr_base\<rparr>"
  define s7 where "s7 = set_btmp KernelPool (btmp_of KernelPool s) s6"
  have fp: "free_pages a 1 s6 = Ret () s7"
    using b(2) of4(2,5) s3(5,6) kp(1) by (simp add: s6_def s7_def pool_ok_def s1_def)
  have run: "copy_page pf d_page s_page d_task s_task s = Ret () s7"
    using cur b(1) ld st s4(1) fp cs(1)[symmetric] cd(1)[symmetric] s1(1) of4(3) s3(1)
    by (simp add: copy_page_def get_task_def kget_def kput_def s1_def[symmetric] s3_def[symmetric] s6_def)
  have s7: "pmem s7 = m5" "phy_mem_pool s7 = phy_mem_pool s4" "sema_free PhyPoolLock s7 = sema_free PhyPoolLock s4"
    by (simp_all add: s7_def s6_def, simp add: set_btmp_def)
  have inv7: "mm_inv C K {} s7" using mm_inv_cong[OF inv5, of s7] s7 by simp
  have op7: "only_phys (s\<lparr>cr3 := t_pml4 (tasks s cur) - kernel_addr_base\<rparr>) s7"
    using op unfolding only_phys_def s7_def s6_def s3_def s1_def set_btmp_def by (cases s; cases s4) simp
  have mem: "m5 x = pmem s x" if "c \<in> C" "user va" "walk (pmem s) c va 4 = Some (page_of x)" for c va x
  proof -
    have "page_of x \<in> pages PhyPool s" using trees_D(3)[OF mm_inv_D(5)[OF inv] that] by simp
    then have "page_of x \<noteq> f" using s4(3) by (auto simp: free_frames_def)
    then show ?thesis using out s4(4) that s3(2) by (simp add: mapped_def del: walk.simps)
  qed
  have w7: "walk m5 c va 4 = walk (pmem s4) c va 4" if "c \<in> C" "user va" for c va
    by (rule data_walk[OF mm_inv_D(5)[OF s4(2)] c4 cd(4) wf out that order_refl])
  have "m5 (f + of_nat i) = pmem s (fs + of_nat i)" if "i < 4096" for i
    using fill_at[of i bs 0 "pmem s4" f] that by (simp add: m5_def bs_def)
  then have "copied C cd d_page f fs s s7" using w7 w4 mem s7(1) by (auto simp: copied_def simp del: walk.simps)
  moreover have "free_frames s7 = free_frames s4" using free_frames_cong[OF s7(2)] .
  ultimately show ?thesis using run inv7 op7 s4(3,5) by auto
qed

section \<open>Page faults\<close>

lemma user_page_of: "user va \<Longrightarrow> user (page_of va)"
proof -
  assume "user va"
  moreover have "page_of va \<le> va" unfolding page_of_def by (rule word_and_le2)
  ultimately show ?thesis unfolding user_def by simp
qed

lemma translate_walk:
  assumes "user va"
  shows "translate m c va = map_option (\<lambda>f. f + (va AND 0xfff)) (walk m c va 4)" "walk m c (page_of va) 4 = walk m c va 4"
proof -
  show "translate m c va = map_option (\<lambda>f. f + (va AND 0xfff)) (walk m c va 4)"
    using assms by (simp add: translate_def canonical_def user_def DEFAULT_STACK_def del: walk.simps)
  show "walk m c (page_of va) 4 = walk m c va 4" by (rule walk_same) (simp_all add: same4_page)
qed

lemma copy_page_faults:
  fixes s :: "('h, 'z) mmstate_scheme"
  assumes kp: "pool_ok KernelPool s" "room 1 s" and cur: "running_task s = Ret cur s"
    and cs: "walk (pmem s) (t_pml4 (tasks s s_task) - kernel_addr_base) s_page 4 = None" "aligned s_page" "user s_page"
  shows "copy_page (fail PageFault) d_page s_page d_task s_task s = Fail PageFault"
proof -
  obtain a b where b: "alloc_pages 1 s = Ret a (set_btmp KernelPool b s)" using alloc_free_pages[OF kp(1), of 1 0] kp(2) by auto
  define s2 where "s2 = (set_btmp KernelPool b s)\<lparr>cr3 := t_pml4 (tasks s s_task) - kernel_addr_base\<rparr>"
  have "translate (pmem s2) (cr3 s2) s_page = None" using translate_walk(1)[OF cs(3)] cs(1) by (simp add: s2_def del: walk.simps)
  then have r: "resolve (fail PageFault) s_page s2 = Fail PageFault" by (simp add: resolve_def run_simps)
  have pg: "unat PG_SIZE = Suc 4095" by (simp add: PG_SIZE_def)
  have u: "uload (fail PageFault) s_page (unat PG_SIZE) s2 = Fail PageFault" unfolding pg uload.simps using r by (simp add: bnd_def)
  show ?thesis
    using cur b u by (simp add: copy_page_def get_task_def kget_def kput_def s2_def[symmetric])
qed

lemma prints_put_intr_info: "prints (put_intr_info M n fr t)"
  unfolding put_intr_info_def get_task_def by (intro prints_bnd prints_get prints_put_info)

section \<open>The kernel's tables\<close>

lemma unat_idx: "unat (idx_at d va) = unat va div 2 ^ (39 - 9 * d) mod 512"
proof -
  have "(0x1ff :: u64) = mask 9" by (simp add: mask_eq_exp_minus_1)
  then have eq: "idx_at d va = take_bit 9 (drop_bit (39 - 9 * d) va)" unfolding idx_at_def take_bit_eq_mask by (rule arg_cong)
  show ?thesis unfolding eq unsigned_take_bit_eq unat_drop by (simp add: take_bit_eq_mod)
qed

lemma of_nat_unat_eq: "unat a = n \<Longrightarrow> a = of_nat n" for a :: u64
  by (drule sym) simp

lemma kernel_idx:
  assumes "p < mem_bytes_total"
  shows "idx_at 1 (kernel_addr_base + p) = 0" "idx_at 2 (kernel_addr_base + p) = of_nat (unat p div 2097152)"
    "idx_at 3 (kernel_addr_base + p) = of_nat (unat p div 4096 mod 512)"
proof -
  have p: "unat p < 134217728" using assms by (simp add: mem_bytes_total_def word_less_nat_alt)
  then have k: "unat (kernel_addr_base + p) = 18446603336221196288 + unat p" by (simp add: kernel_addr_base_def unat_word_ariths)
  have "(18446603336221196288 + unat p) div 1073741824 = 512 * 33554176 + unat p div 1073741824" by simp
  then have "unat (idx_at 1 (kernel_addr_base + p)) = 0" unfolding unat_idx k using p by simp
  then show "idx_at 1 (kernel_addr_base + p) = 0" by (simp add: unsigned_eq_0_iff)
  have q: "unat p div 2097152 < 64" using p by (simp add: div_less_iff_less_mult)
  have "(18446603336221196288 + unat p) div 2097152 = 512 * 17179738112 + unat p div 2097152" by simp
  moreover have "(512 * k + q) mod 512 = q" if "q < 512" for k q :: nat using that by simp
  note this[of "unat p div 2097152" 17179738112]
  ultimately have "unat (idx_at 2 (kernel_addr_base + p)) = unat p div 2097152" unfolding unat_idx k using q by simp
  then show "idx_at 2 (kernel_addr_base + p) = of_nat (unat p div 2097152)" by (rule of_nat_unat_eq)
  have "(18446603336221196288 + unat p) div 4096 = 512 * 8796025913344 + unat p div 4096" by simp
  moreover have "(512 * k + q) mod 512 = q mod 512" for k q :: nat by simp
  note this[of 8796025913344 "unat p div 4096"]
  ultimately have "unat (idx_at 3 (kernel_addr_base + p)) = unat p div 4096 mod 512" unfolding unat_idx k by simp
  then show "idx_at 3 (kernel_addr_base + p) = of_nat (unat p div 4096 mod 512)" by (rule of_nat_unat_eq)
qed

lemma page_of_nat: "page_of p = of_nat (unat p div 4096 * 4096)"
proof -
  have "unat p = unat (page_of p) + unat (p AND 0xfff)"
    using unat_slot[OF aligned_page_of offset_less, of p p] page_split[of p] by simp
  moreover have "4096 dvd unat (page_of p)" using aligned_page_of[of p] unfolding aligned_unat .
  ultimately have "unat (page_of p) = unat p div 4096 * 4096" using offset_less[of p] by auto
  then show ?thesis by (rule of_nat_unat_eq)
qed

text \<open>Tables that map the physical memory: one entry in the top table, one in the next, 64 in the third, and all entries of 64 tables.\<close>

definition leads :: "(u64 \<Rightarrow> u8) \<Rightarrow> u64 \<Rightarrow> u64 \<Rightarrow> bool" where
  "leads m a t \<longleftrightarrow> load64 m a AND PROT_P \<noteq> 0 \<and> entry_page (load64 m a) = t"

lemma walk_leads: "walk m c va d = Some t \<Longrightarrow> leads m (t + 8 * idx_at d va) t' \<Longrightarrow> walk m c va (Suc d) = Some t'"
  by (simp add: leads_def Let_def)

lemma direct_map_tables:
  assumes low: "low_page c" "low_page T1" "low_page T2" "\<And>i. i < 64 \<Longrightarrow> low_page (T3 i)"
    and ne: "c \<noteq> T1" "c \<noteq> T2" "\<And>i. i < 64 \<Longrightarrow> c \<noteq> T3 i"
    and e: "leads m (c + 8 * 256) T1" "leads m T1 T2" "\<And>i. i < 64 \<Longrightarrow> leads m (T2 + 8 * of_nat i) (T3 i)"
    and e3: "\<And>i j. i < 64 \<Longrightarrow> j < 512 \<Longrightarrow> leads m (T3 i + 8 * of_nat j) (of_nat ((i * 512 + j) * 4096))"
  shows "direct_map m {c} ({T1, T2} \<union> T3 ` {..<64})"
proof -
  have "(\<forall>d. 0 < d \<longrightarrow> d < 4 \<longrightarrow> (\<exists>t \<in> {T1, T2} \<union> T3 ` {..<64}. walk m c (kernel_addr_base + p) d = Some t)) \<and>
      walk m c (kernel_addr_base + p) 4 = Some (page_of p)" if p: "p < mem_bytes_total" for p
  proof -
    note ix = kernel_idx_0[OF p] kernel_idx[OF p]
    let ?i = "unat p div 2097152" and ?j = "unat p div 4096 mod 512" and ?va = "kernel_addr_base + p"
    have n: "unat p < 134217728" using p by (simp add: mem_bytes_total_def word_less_nat_alt)
    then have i: "?i < 64" by (simp add: div_less_iff_less_mult)
    have "unat p div 4096 div 512 = ?i" using div_mult2_eq[of "unat p" 4096 512] by simp
    then have ij: "?i * 512 + ?j = unat p div 4096" using div_mult_mod_eq[of "unat p div 4096" 512] by simp
    have w1: "walk m c ?va (Suc 0) = Some T1" by (rule walk_leads) (use ix e in simp_all)
    have w2: "walk m c ?va (Suc (Suc 0)) = Some T2" by (rule walk_leads[OF w1]) (use ix e in simp)
    have w3: "walk m c ?va (Suc (Suc (Suc 0))) = Some (T3 ?i)"
      by (rule walk_leads[OF w2]) (use ix e(3)[OF i] in \<open>simp add: numeral_2_eq_2\<close>)
    have w4: "walk m c ?va (Suc (Suc (Suc (Suc 0)))) = Some (page_of p)"
      by (rule walk_leads[OF w3]) (use ix e3[OF i, of ?j] ij in \<open>simp add: numeral_3_eq_3 page_of_nat\<close>)
    have four: "(4 :: nat) = Suc (Suc (Suc (Suc 0)))" by simp
    have "\<exists>t \<in> {T1, T2} \<union> T3 ` {..<64}. walk m c ?va d = Some t" if "0 < d" "d < 4" for d
    proof -
      have "d = Suc 0 \<or> d = Suc (Suc 0) \<or> d = Suc (Suc (Suc 0))" using that by auto
      then show ?thesis by (elim disjE; simp only: w1 w2 w3) (use i in auto)
    qed
    then show ?thesis using w4 unfolding four by blast
  qed
  then show ?thesis using low ne unfolding direct_map_def by (auto simp del: walk.simps)
qed

section \<open>Properties\<close>

text \<open>C34. Address spaces as maps. While at least four frames are free, \<^verbatim>\<open>page_map\<close> returns and adds exactly one page, filled with zeros, to the
  running address space, if that page was not mapped; it changes no other translation of any address space and no byte that any
  program can read. If the page was mapped already nothing changes, but the frame allocated first is lost.\<close>

theorem page_map_refines:
  fixes s :: "('h, 'z) mmstate_scheme"
  assumes inv: "mm_inv C K {} s" and c: "cr3 s \<in> C" "user va" and free: "4 \<le> card (free_frames s)"
  shows "\<exists>f s'. page_map va s = Ret () s' \<and> mm_inv C K {} s' \<and> f \<in> free_frames s \<and> f \<in> pages PhyPool s' \<and> only_phys s s' \<and>
    (\<forall>c \<in> C. \<forall>va'. user va' \<longrightarrow> translate (pmem s') c va' =
       (if c = cr3 s \<and> page_of va' = page_of va \<and> translate (pmem s) (cr3 s) va = None then Some (f + (va' AND 0xfff))
        else translate (pmem s) c va')) \<and>
    (\<forall>c \<in> C. \<forall>va' x. user va' \<longrightarrow> translate (pmem s) c va' = Some x \<longrightarrow> pmem s' x = pmem s x) \<and>
    (translate (pmem s) (cr3 s) va = None \<longrightarrow> (\<forall>x. page_of x = f \<longrightarrow> pmem s' x = 0))"
proof -
  note I = mm_inv_D[OF inv]
  obtain f s' where r: "page_map va s = Ret () s'" "mm_inv C K {} s'" "f \<in> free_frames s" "f \<in> pages PhyPool s'"
      "if walk (pmem s) (cr3 s) va 4 = None then mapped C va f s s' else keeps C s s'"
    using page_map_ok[OF assms] by blast
  have tn: "translate (pmem s) (cr3 s) va = None \<longleftrightarrow> walk (pmem s) (cr3 s) va 4 = None"
    using translate_walk(1)[OF c(2)] by (simp del: walk.simps)
  have pg: "walk (pmem s) c' va' 4 = Some (page_of x)" if "c' \<in> C" "user va'" "translate (pmem s) c' va' = Some x" for c' va' x
  proof -
    note h = that
    obtain g where g: "walk (pmem s) c' va' 4 = Some g" "x = g + (va' AND 0xfff)"
      using h(3) translate_walk(1)[OF h(2)] by (auto simp del: walk.simps)
    have "page_of (g + of_nat (unat (va' AND 0xfff))) = g"
      by (rule page_of_add[OF trees_D(4)[OF I(5) that(1,2) g(1) order_refl] offset_less])
    then show ?thesis using g by (simp del: walk.simps)
  qed
  have op: "only_phys s s'" using r(5) by (auto simp: mapped_def keeps_def simp del: walk.simps split: if_splits)
  have mem: "pmem s' x = pmem s x" if "c' \<in> C" "user va'" "translate (pmem s) c' va' = Some x" for c' va' x
    using r(5) pg[OF that] that(1,2) by (auto simp: mapped_def keeps_def simp del: walk.simps split: if_splits)
  have tr: "translate (pmem s') c' va' = (if c' = cr3 s \<and> page_of va' = page_of va \<and> translate (pmem s) (cr3 s) va = None
      then Some (f + (va' AND 0xfff)) else translate (pmem s) c' va')" if "c' \<in> C" "user va'" for c' va'
    using r(5) that tn translate_walk(1)[OF that(2)] by (auto simp: mapped_def keeps_def same4_page simp del: walk.simps split: if_splits)
  have "pmem s' x = 0" if "translate (pmem s) (cr3 s) va = None" "page_of x = f" for x
    using r(5) that tn by (simp add: mapped_def zeroed_def del: walk.simps)
  then show ?thesis using r(1-4) op mem tr by blast
qed

text \<open>C35. Unmapping leaves the mapping. \<^verbatim>\<open>page_unmap\<close> of a mapped page clears the page and gives its frame back to the pool, but never clears the
  entry that leads to it: every translation of every address space stays as it was, so the address still reaches the frame, which the next
  \<^verbatim>\<open>page_map\<close> may hand to another program.\<close>

theorem page_unmap_leaves_mapping:
  fixes s :: "('h, 'z) mmstate_scheme"
  assumes inv: "mm_inv C K {} s" and c: "cr3 s \<in> C" "user va" "aligned va" and w: "translate (pmem s) (cr3 s) va = Some f"
  shows "\<exists>s'. page_unmap pf va s = Ret () s' \<and> f \<in> pages PhyPool s \<and> f \<in> free_frames s' \<and> pages PhyPool s' = pages PhyPool s - {f} \<and>
    (\<forall>x. pmem s' x = (if page_of x = f then 0 else pmem s x)) \<and> only_phys s s' \<and>
    (\<forall>c \<in> C. \<forall>va'. user va' \<longrightarrow> translate (pmem s') c va' = translate (pmem s) c va')"
proof -
  note I = mm_inv_D[OF inv]
  have "va AND 0xfff = 0" using c(3) by (simp add: aligned_def)
  then have w4: "walk (pmem s) (cr3 s) va 4 = Some f" using w translate_walk(1)[OF c(2)] by (auto simp del: walk.simps)
  have f: "is_frame f" "f \<in> pages PhyPool s" "aligned f" using trees_D(2,3,4)[OF I(5) c(1,2) w4] by auto
  obtain s' where s': "page_unmap pf va s = Ret () s'" "pages PhyPool s' = pages PhyPool s - {f}"
      "pmem s' = fill (pmem s) f 0 (replicate 4096 0)" "only_phys s s'"
      "\<forall>c' \<in> C. \<forall>va'. user va' \<longrightarrow> walk (pmem s') c' va' 4 = walk (pmem s) c' va' 4"
    using page_unmap_ok[OF inv c w4] by blast
  have "pmem s' x = (if page_of x = f then 0 else pmem s x)" for x
    using page_zero_fill[OF f(3)] fill_page[OF f(3), of 0 "replicate 4096 0" x] s'(3) by (simp add: zeroed_def)
  then show ?thesis using s' f translate_walk(1) by (auto simp: free_frames_def simp del: walk.simps)
qed


section \<open>A memory with the kernel's tables\<close>

text \<open>The boot tables at \<^verbatim>\<open>0x100000\<close> and 64 tables behind them that map the whole memory; all else is zero.\<close>

definition words_mem :: "(u64 \<Rightarrow> u64) \<Rightarrow> u64 \<Rightarrow> u8" where
  "words_mem w x = enc64 (w (x - x mod 8)) ! unat (x mod 8)"

definition demo_word :: "u64 \<Rightarrow> u64" where
  "demo_word a = (if a = 0x100800 then 0x101003 else if a = 0x101000 then 0x102007
     else if 0x102000 \<le> a \<and> a < 0x102200 then entry_for (0x103000 + (a - 0x102000) div 8 * 4096)
     else if 0x103000 \<le> a \<and> a < 0x143000 then entry_for ((a - 0x103000) div 8 * 4096) else 0)"

definition demo_mm :: "ata_dev mmstate" where
  "demo_mm = (fsstate.extend demo_fss (mmstate.fields (words_mem demo_word) 0x401234 8192))
     \<lparr>cr3 := 0x100000, phy_mem_pool := \<lparr>mp_start = 0, pool_bitmap = \<lparr>bytes_len = 4096, bits = replicate 64 255 @ replicate 4032 0\<rparr>\<rparr>,
      tasks := (\<lambda>t. (tasks demo_fss t)\<lparr>t_pml4 := 0xffff800000100000, t_parent_task := 0x1000,
        t_addr_space := \<lparr>vaddr = replicate 4 0, filesz = replicate 4 0, heap_start = 0x400000, heap_end = 0x500000\<rparr>\<rparr>)\<rparr>"

lemma load64_words: "al8 a \<Longrightarrow> load64 (words_mem w) a = w a"
proof -
  assume a: "al8 a"
  have "words_mem w (a + of_nat i) = enc64 (w a) ! i" if "i < 8" for i
  proof -
    obtain k where k: "unat a = 8 * k" using a unfolding al8_unat by (blast elim: dvdE)
    have "unat a < 18446744073709551616" using unsigned_less[of a] by simp
    then have "unat a + i < 18446744073709551616" using k that by presburger
    then have u: "unat (a + of_nat i) = unat a + i" by (simp add: unat_word_ariths unat_of_nat)
    have "unat ((a + of_nat i) mod 8) = i" using u k that by (simp add: unat_mod)
    then have m: "(a + of_nat i) mod 8 = of_nat i" by (rule of_nat_unat_eq)
    then show ?thesis using that by (simp add: words_mem_def unat_of_nat)
  qed
  then have "map (\<lambda>i. words_mem w (a + of_nat i)) [0..<8] = enc64 (w a)" by (intro nth_equalityI) simp_all
  then show ?thesis using dec64_enc64[of "w a" "[]"] by (simp add: load64_def)
qed

lemma demo_load: "aligned t \<Longrightarrow> i < 512 \<Longrightarrow> load64 (words_mem demo_word) (t + 8 * i) = demo_word (t + 8 * i)"
  by (rule load64_words[OF al8_slot])

lemma demo_zero: "unat a \<ge> 0x200000 \<Longrightarrow> demo_word a = 0"
  by (auto simp: demo_word_def word_less_nat_alt)

lemma word_quot: "n < 0x100000 \<Longrightarrow> (of_nat (8 * n) :: u64) div 8 = of_nat n"
proof -
  assume n: "n < 0x100000"
  have "unat (of_nat (8 * n) :: u64) = 8 * n" using n unfolding unat_of_nat by simp
  then have "unat ((of_nat (8 * n) :: u64) div 8) = n" unfolding unat_div by simp
  then show ?thesis by (rule of_nat_unat_eq)
qed

lemma demo_pte: "n < 32768 \<Longrightarrow> demo_word (0x103000 + of_nat (8 * n)) = entry_for (page_addr 0 n)"
proof -
  assume n: "n < 32768"
  have u: "unat (of_nat (8 * n) :: u64) = 8 * n" using n unfolding unat_of_nat by simp
  have a: "unat (0x103000 + of_nat (8 * n) :: u64) = 0x103000 + 8 * n" using n unfolding unat_word_ariths u by simp
  have d: "(0x103000 + of_nat (8 * n) - 0x103000 :: u64) div 8 = of_nat n"
    unfolding add_diff_cancel_left' by (rule word_quot) (use n in simp)
  have r: "(0x103000 + of_nat (8 * n) :: u64) \<noteq> 0x100800" "(0x103000 + of_nat (8 * n) :: u64) \<noteq> 0x101000"
      "\<not> (0x103000 + of_nat (8 * n) :: u64) < 0x102200" "(0x103000 :: u64) \<le> 0x103000 + of_nat (8 * n)" "(0x103000 + of_nat (8 * n) :: u64) < 0x143000"
    unfolding word_less_nat_alt word_le_nat_alt word_unat_eq_iff a using n by auto
  show ?thesis unfolding demo_word_def d if_not_P[OF r(1)] if_not_P[OF r(2)] using r(3-5) by (simp add: page_addr_def PG_SIZE_def)
qed

lemma demo_pde: "i < 64 \<Longrightarrow> demo_word (0x102000 + of_nat (8 * i)) = entry_for (0x103000 + of_nat i * 4096)"
proof -
  assume n: "i < 64"
  have u: "unat (of_nat (8 * i) :: u64) = 8 * i" using n unfolding unat_of_nat by simp
  have a: "unat (0x102000 + of_nat (8 * i) :: u64) = 0x102000 + 8 * i" using n unfolding unat_word_ariths u by simp
  have d: "(0x102000 + of_nat (8 * i) - 0x102000 :: u64) div 8 = of_nat i"
    unfolding add_diff_cancel_left' by (rule word_quot) (use n in simp)
  have r: "(0x102000 + of_nat (8 * i) :: u64) \<noteq> 0x100800" "(0x102000 + of_nat (8 * i) :: u64) \<noteq> 0x101000"
      "(0x102000 :: u64) \<le> 0x102000 + of_nat (8 * i)" "(0x102000 + of_nat (8 * i) :: u64) < 0x102200"
    unfolding word_less_nat_alt word_le_nat_alt word_unat_eq_iff a using n by auto
  show ?thesis unfolding demo_word_def d if_not_P[OF r(1)] if_not_P[OF r(2)] using r(3,4) by simp
qed

lemma table_page:
  assumes "i < 64"
  shows "(0x103000 :: u64) + of_nat i * 4096 = page_addr 0 (259 + i)" "low_page (0x103000 + of_nat i * 4096)" "0x103000 + of_nat i * 4096 \<noteq> (0x100000 :: u64)"
    "0x103000 + of_nat i * 4096 < mem_bytes_total"
proof -
  show e: "(0x103000 :: u64) + of_nat i * 4096 = page_addr 0 (259 + i)" by (simp add: page_addr_def PG_SIZE_def algebra_simps)
  note p = index_frame[of "259 + i"]
  have l: "unat (page_addr 0 (259 + i)) = 4096 * (259 + i)" using p(3) assms by simp
  show "low_page (0x103000 + of_nat i * 4096)" unfolding e low_page_def word_less_nat_alt l using p(1) assms by simp
  show "0x103000 + of_nat i * 4096 \<noteq> (0x100000 :: u64)" unfolding e word_unat_eq_iff l by simp
  show "0x103000 + of_nat i * 4096 < mem_bytes_total" unfolding e using p(2) assms by simp
qed

lemma demo_direct: "direct_map (words_mem demo_word) {0x100000} ({0x101000, 0x102000} \<union> (\<lambda>i. 0x103000 + of_nat i * 4096) ` {..<64})"
proof (rule direct_map_tables)
  show "low_page 0x100000" "low_page 0x101000" "low_page 0x102000" by (simp_all add: low_page_def aligned_def)
  show "low_page (0x103000 + of_nat i * 4096)" "0x100000 \<noteq> (0x103000 + of_nat i * 4096 :: u64)" if "i < 64" for i using table_page[OF that] by auto
  show "0x100000 \<noteq> (0x101000 :: u64)" "0x100000 \<noteq> (0x102000 :: u64)" by simp_all
  show "leads (words_mem demo_word) (0x100000 + 8 * 256) 0x101000"
    using demo_load[of "0x100000" 256] by (simp add: leads_def demo_word_def aligned_def PROT_P_def entry_page_def)
  show "leads (words_mem demo_word) 0x101000 0x102000"
    using demo_load[of "0x101000" 0] by (simp add: leads_def demo_word_def aligned_def PROT_P_def entry_page_def)
  show "leads (words_mem demo_word) (0x102000 + 8 * of_nat i) (0x103000 + of_nat i * 4096)" if "i < 64" for i
  proof -
    have "(of_nat i :: u64) < 512" using that by (simp add: word_less_nat_alt unat_of_nat)
    then have "load64 (words_mem demo_word) (0x102000 + 8 * of_nat i) = entry_for (0x103000 + of_nat i * 4096)"
      using demo_load[of "0x102000" "of_nat i"] demo_pde[OF that] by (simp add: aligned_def)
    then show ?thesis using entry_for_frame[of "0x103000 + of_nat i * 4096"] table_page(2,4)[OF that] by (simp add: leads_def low_page_def)
  qed
  show "leads (words_mem demo_word) (0x103000 + of_nat i * 4096 + 8 * of_nat j) (of_nat ((i * 512 + j) * 4096))" if "i < 64" "j < 512" for i j
  proof -
    have "(of_nat j :: u64) < 512" using that by (simp add: word_less_nat_alt unat_of_nat)
    then have ld: "load64 (words_mem demo_word) (0x103000 + of_nat i * 4096 + 8 * of_nat j) = demo_word (0x103000 + of_nat i * 4096 + 8 * of_nat j)"
      using demo_load table_page(2)[OF that(1)] by (simp add: low_page_def)
    have n: "i * 512 + j < 32768" using that by simp
    have ad: "0x103000 + of_nat i * 4096 + 8 * of_nat j = (0x103000 + of_nat (8 * (i * 512 + j)) :: u64)" by (simp add: algebra_simps)
    have pe: "of_nat ((i * 512 + j) * 4096) = page_addr 0 (i * 512 + j)" by (simp add: page_addr_def PG_SIZE_def)
    show ?thesis
      unfolding leads_def ld unfolding ad demo_pte[OF n] pe using entry_for_frame[OF index_frame(1,2)[OF n]] by blast
  qed
qed

lemma demo_mm_simps [simp]:
  "pmem demo_mm = words_mem demo_word" "cr2 demo_mm = 0x401234" "global_stack_size demo_mm = 8192" "cr3 demo_mm = 0x100000"
  "mp_start (phy_mem_pool demo_mm) = 0" "pool_bitmap (phy_mem_pool demo_mm) = \<lparr>bytes_len = 4096, bits = replicate 64 255 @ replicate 4032 0\<rparr>"
  "links demo_mm = links demo_fss" "sema_value demo_mm = sema_value demo_fss" "ist2 demo_mm = ist2 demo_fss" "kernel_mem_pool demo_mm = kernel_mem_pool demo_fss"
  "tasks demo_mm t = (tasks demo_fss t)\<lparr>t_pml4 := 0xffff800000100000, t_parent_task := 0x1000,
     t_addr_space := \<lparr>vaddr = replicate 4 0, filesz = replicate 4 0, heap_start = 0x400000, heap_end = 0x500000\<rparr>\<rparr>"
  by (simp_all add: demo_mm_def fsstate.extend_def mmstate.fields_def)

lemma demo_fss_base: "links demo_fss = links demo_io" "sema_value demo_fss = sema_value demo_in" "ist2 demo_fss = ist2 demo_io"
  by (simp_all add: demo_fss_def fistate.extend_def fsstate.fields_def)

lemma demo_mm_lock: "p \<noteq> DiskDone 0 \<Longrightarrow> sema_free p demo_mm"
  using demo_in_lock[of p] by (simp add: sema_free_def lock_free_def tq_def cur_ok_def demo_fss_base)

lemma demo_mm_used: "used (pool_bitmap (phy_mem_pool demo_mm)) = {..<512}"
proof -
  have "bit_at (pool_bitmap (phy_mem_pool demo_mm)) i \<longleftrightarrow> i < 512" if "i < 32768" for i
  proof -
    have "bit (255 :: u8) (i mod 8)"
    proof -
      have m: "(255 :: u8) = mask 8" by (simp add: mask_eq_exp_minus_1)
      show ?thesis unfolding m bit_mask_iff by simp
    qed
    moreover have "i div 8 < 64 \<longleftrightarrow> i < 512" by (simp add: div_less_iff_less_mult)
    ultimately show ?thesis using that by (simp add: bit_at_def nth_append div_less_iff_less_mult)
  qed
  then show ?thesis by (auto simp: used_def)
qed

lemma demo_mm_pages: "pages PhyPool demo_mm = page_addr 0 ` {..<512}"
  using demo_mm_used by (simp add: pages_def)

lemma demo_mm_low: "low_page t \<longleftrightarrow> t \<in> page_addr 0 ` {..<512}"
proof
  assume t: "low_page t"
  then have "t < mem_bytes_total" by (auto simp: low_page_def mem_bytes_total_def elim: less_trans)
  then have "t = page_addr 0 (unat t div 4096)" using frame_index[of t] t by (simp add: low_page_def)
  moreover have "unat t div 4096 < 512" using t by (simp add: low_page_def word_less_nat_alt div_less_iff_less_mult)
  ultimately show "t \<in> page_addr 0 ` {..<512}" by blast
next
  assume "t \<in> page_addr 0 ` {..<512}"
  then obtain i where i: "i < 512" "t = page_addr 0 i" by auto
  then show "low_page t" using index_frame[of i] by (simp add: low_page_def word_less_nat_alt)
qed

lemma demo_mm_trees: "trees (words_mem demo_word) {0x100000} F"
proof -
  have w1: "walk (words_mem demo_word) 0x100000 va (Suc 0) = None" if "user va" for va
  proof -
    have i: "idx_at 0 va < 256" using user_idx_0[OF that] .
    have "unat (0x100000 + 8 * idx_at 0 va) = 0x100000 + 8 * unat (idx_at 0 va)"
      using i by (simp add: unat_word_ariths word_less_nat_alt)
    then have "demo_word (0x100000 + 8 * idx_at 0 va) = 0"
      using i by (auto simp: demo_word_def word_less_nat_alt word_le_nat_alt)
    then have "load64 (words_mem demo_word) (0x100000 + 8 * idx_at 0 va) = 0" using demo_load[of "0x100000", OF _ idx_at_less] by (simp add: aligned_def)
    then show ?thesis by simp
  qed
  have none: "walk (words_mem demo_word) 0x100000 va d = None" if "user va" "0 < d" for va d
    using that(2) w1[OF that(1)] by (induction d) (case_tac "d = 0"; simp)+
  have pl: "plain_entry (load64 (words_mem demo_word) (0x100000 + 8 * idx_at 0 va))" if "user va" for va
    using w1[OF that] by (auto simp: plain_entry_def Let_def split: if_splits)
  have "d = 0 \<and> t = 0x100000" if "user va" "walk (words_mem demo_word) 0x100000 va d = Some t" for va d t
    using none[OF that(1), of d] that(2) by (cases "d = 0") auto
  then show ?thesis using pl none unfolding trees_def by (auto simp: low_page_def aligned_def)
qed

abbreviation demo_K :: "u64 set" where
  "demo_K \<equiv> {0x101000, 0x102000} \<union> (\<lambda>i. 0x103000 + of_nat i * 4096) ` {..<64}"

lemma demo_mm_inv: "mm_inv {0x100000} demo_K {} demo_mm"
proof -
  have ok: "pool_ok PhyPool demo_mm" using demo_mm_lock[of PhyPoolLock] by (simp add: pool_ok_def bitmap_wf_def)
  have z: "zeroed (pmem demo_mm) f" if "is_frame f" for f
  proof -
    have "words_mem demo_word x = 0" if x: "page_of x = f" for x
    proof -
      have "0x200000 \<le> unat f" using \<open>is_frame f\<close> by (simp add: is_frame_def word_le_nat_alt)
      moreover have u: "unat x = unat f + unat (x AND 0xfff)"
        using unat_slot[OF aligned_page_of offset_less, of x x] page_split[of x] x by simp
      moreover have "unat (x mod 8) = unat x mod 8" by (simp add: unat_mod)
      then have "unat (x - x mod 8) = unat x - unat x mod 8" by (metis mod_less_eq_dividend unat_sub word_le_nat_alt)
      moreover have "0x200000 \<le> unat x - unat x mod 8" if "0x200000 \<le> unat x" using that by presburger
      ultimately have "demo_word (x - x mod 8) = 0" using demo_zero by simp
      moreover have "unat (x mod 8) < 8" by (simp add: unat_mod)
      ultimately show ?thesis by (simp add: words_mem_def enc64_def)
    qed
    then show ?thesis by (simp add: zeroed_def)
  qed
  show ?thesis unfolding mm_inv_def using ok demo_mm_low demo_mm_pages demo_mm_trees demo_direct z by auto
qed

lemma demo_mm_free: "4 \<le> card (free_frames demo_mm)"
proof -
  have "page_addr 0 ` {512..<516} \<subseteq> free_frames demo_mm"
  proof
    fix f
    assume "f \<in> page_addr 0 ` {512..<516}"
    then obtain i where i: "512 \<le> i" "i < 516" "f = page_addr 0 i" by auto
    then have fr: "is_frame f" using index_frame[of i] by (simp add: is_frame_def word_le_nat_alt)
    then have "f \<notin> pages PhyPool demo_mm" using demo_mm_low[of f] low_not_frame by (auto simp: demo_mm_pages)
    then show "f \<in> free_frames demo_mm" using fr by (simp add: free_frames_def)
  qed
  then have "card (page_addr 0 ` {512..<516}) \<le> card (free_frames demo_mm)" by (intro card_mono) simp_all
  moreover have "inj_on (page_addr 0) {512..<516}" by (rule inj_onI) (simp add: page_addr_inj)
  ultimately show ?thesis by (simp add: card_image)
qed

lemma demo_mm_running: "running_task demo_mm = Ret 0x1000 demo_mm"
  by (rule running_task_eq) (simp_all add: demo_fss_base PG_SIZE_def aligned_def demo_io_def kstate.extend_def demo_state_def)

lemma demo_mm_kernel: "pool_ok KernelPool demo_mm" "room 1 demo_mm"
proof -
  show "pool_ok KernelPool demo_mm"
    using demo_fss_ok(1) demo_mm_lock[of KernelPoolLock] by (simp add: bio_ok_def pool_ok_def)
  show "room 1 demo_mm" using room_mono[OF demo_fss_ok(2), of 1] by (simp add: room_def)
qed

lemma demo_mm_unmapped: "user va \<Longrightarrow> translate (words_mem demo_word) 0x100000 va = None"
  using demo_mm_trees[of "{}"] translate_walk(1)[of va] unfolding trees_def by (cases "walk (words_mem demo_word) 0x100000 va 4") (auto simp del: walk.simps)

theorem page_map_refines_witness:
  "\<exists>s'. page_map 0x401000 demo_mm = Ret () s' \<and> translate (pmem demo_mm) 0x100000 0x401234 = None \<and>
     translate (pmem s') 0x100000 0x401234 \<noteq> None \<and> translate (pmem s') 0x100000 0x402000 = None"
proof -
  have u: "user 0x401000" "user 0x401234" "user 0x402000" by (simp_all add: user_def DEFAULT_STACK_def)
  have p: "page_of 0x401234 = page_of 0x401000" "page_of 0x402000 \<noteq> page_of 0x401000" by (simp_all add: page_of_def)
  show ?thesis
    using page_map_refines[of "{0x100000}" demo_K demo_mm "0x401000"] demo_mm_inv demo_mm_free u p demo_mm_unmapped by auto
qed

theorem page_unmap_leaves_mapping_witness:
  "\<exists>s s' f. page_map 0x401000 demo_mm = Ret () s \<and> page_unmap (fail PageFault) 0x401000 s = Ret () s' \<and>
     translate (pmem s') 0x100000 0x401000 = Some f \<and> f \<in> free_frames s'"
proof -
  have u: "user 0x401000" "aligned 0x401000" by (simp_all add: user_def DEFAULT_STACK_def aligned_def)
  obtain f s where s: "page_map 0x401000 demo_mm = Ret () s" "mm_inv {0x100000} demo_K {} s"
      "if walk (pmem demo_mm) (cr3 demo_mm) 0x401000 4 = None then mapped {0x100000} 0x401000 f demo_mm s else keeps {0x100000} demo_mm s"
    using page_map_ok[OF demo_mm_inv _ u(1) demo_mm_free] by auto
  have "walk (pmem demo_mm) (cr3 demo_mm) 0x401000 4 = None" using demo_mm_unmapped[OF u(1)] translate_walk(1)[OF u(1)] by (simp del: walk.simps)
  then have m: "mapped {0x100000} 0x401000 f demo_mm s" using s(3) by (simp del: walk.simps)
  have c: "cr3 s = 0x100000" using m only_phys_cr3[of demo_mm s] by (simp add: mapped_def)
  have t: "translate (pmem s) (cr3 s) 0x401000 = Some f" using m translate_walk(1)[OF u(1)] u c by (simp add: mapped_def aligned_def del: walk.simps)
  show ?thesis
    using page_unmap_leaves_mapping[OF s(2) _ u t, of "fail PageFault"] s(1) c t u(1) by auto
qed


end
