(* ===== verification/Task.thy ===== *)
theory Task
  imports Fault
begin

text \<open>
  Creating and cloning tasks (\<^verbatim>\<open>task/task.c\<close>).

  The addresses of code that a new task starts with are those of assembler entry points: \<open>syms\<close> holds them. A task is the record at its
  address, and its saved frame \<^verbatim>\<open>*task->intr_stack\<close> is a field of it. The memory of programs is reached through \<open>uload\<close> and \<open>ustore\<close>; \<open>pf\<close> is what
  a page fault of the kernel does there (theory \<open>Paging\<close>). \<open>syscall_rbp\<close> is the word that \<^verbatim>\<open>(%rbp)\<close> holds, the frame of the system call.
\<close>

unbundle bit_operations_syntax

record syms =
  intr_exit :: u64
  system_ret :: u64
  idle :: u64

definition SELECTOR_K_DATA :: u64 where "SELECTOR_K_DATA = 0x10"
definition SELECTOR_U_CODE :: u64 where "SELECTOR_U_CODE = 0x30 + 3"
definition SELECTOR_U_DATA :: u64 where "SELECTOR_U_DATA = 0x28 + 3"
definition KERNEL_PML4 :: u64 where "KERNEL_PML4 = 0xffff800000100000"
definition CLONE_VM :: u64 where "CLONE_VM = 0x100"

text \<open>Offsets in \<^verbatim>\<open>struct task_struct\<close> and the size of \<^verbatim>\<open>struct intr_stack\<close>, which ends at the end of the task's page.\<close>

definition switch_rbp_off :: u64 where "switch_rbp_off = 472"
definition sizeof_intr_stack :: u64 where "sizeof_intr_stack = 80"
definition intr_rbp_off :: u64 where "intr_rbp_off = 24"

definition no_space :: addr_space where
  "no_space = \<lparr>vaddr = replicate 4 0, filesz = replicate 4 0, heap_start = 0, heap_end = 0\<rparr>"

definition upd_intr_stack :: "u64 \<Rightarrow> (intr_stack \<Rightarrow> intr_stack) \<Rightarrow> ('z kstate_scheme, unit) kcall" where
  "upd_intr_stack task f = upd_task task (\<lambda>t. t\<lparr>t_intr_stack := f (t_intr_stack t)\<rparr>)"

text \<open>The first page and the number of pages that a segment touches.\<close>

definition segment_pages :: "u64 \<Rightarrow> u64 \<Rightarrow> u64 \<times> nat" where
  "segment_pages va sz =
     (let page_start = va AND NOT 0xfff; page_end = PG_SIZE * DIV_ROUND_UP (va + sz) PG_SIZE in
      (page_start, unat ((page_end - page_start) div PG_SIZE)))"

section \<open>Creating tasks (task/task.c)\<close>

definition init_task :: "u64 \<Rightarrow> u8 \<Rightarrow> ('z kstate_scheme, unit) kcall" where
  "init_task task prio =
     bnd alloc_pid (\<lambda>pid.
     bnd (upd_task task (\<lambda>t. t\<lparr>t_pid := pid\<rparr>)) (\<lambda>_.
     bnd (if pid > 1 then running_task else ret task) (\<lambda>parent.
     bnd (upd_task task (\<lambda>t. t\<lparr>t_parent_task := parent\<rparr>)) (\<lambda>_.
     bnd (get_task parent) (\<lambda>p.
     bnd (upd_task task (\<lambda>t. t\<lparr>t_pml4 := t_pml4 p\<rparr>)) (\<lambda>_.
     bnd (upd_task task (\<lambda>t. t\<lparr>t_addr_space := no_space\<rparr>)) (\<lambda>_.
     bnd (upd_task task (\<lambda>t. t\<lparr>t_prio := prio, t_ticks := prio\<rparr>)) (\<lambda>_.
     bnd (upd_task task (\<lambda>t. t\<lparr>t_stack_magic := STACK_MAGIC\<rparr>)) (\<lambda>_.
     bnd (k_elem_find AllTasks (AllListTag task)) (\<lambda>found.
     bnd (ASSERT (\<not> found)) (\<lambda>_.
     bnd (k_list_append AllTasks (AllListTag task)) (\<lambda>_.
     upd_task task (\<lambda>t. t\<lparr>t_fd_table := replicate MAX_FILES_OPEN_PER_PROC (-1)\<rparr>)))))))))))))"

definition create_task_envi :: "syms \<Rightarrow> u64 \<Rightarrow> u64 \<Rightarrow> u64 \<Rightarrow> u64 \<Rightarrow> bool \<Rightarrow> ('z kstate_scheme, unit) kcall" where
  "create_task_envi A task stack entry args su =
     bnd (upd_task task (\<lambda>t. t\<lparr>t_rbp := task + switch_rbp_off\<rparr>)) (\<lambda>_.
     bnd (upd_task task (\<lambda>t. t\<lparr>t_switch_stack := (t_switch_stack t)\<lparr>ss_rip := intr_exit A\<rparr>\<rparr>)) (\<lambda>_.
     bnd (upd_task task (\<lambda>t. t\<lparr>t_switch_stack := (t_switch_stack t)\<lparr>ss_rbp := task + PG_SIZE - sizeof_intr_stack + intr_rbp_off\<rparr>\<rparr>)) (\<lambda>_.
     upd_intr_stack task (\<lambda>k. k\<lparr>is_rflags := 0x202,
       is_cs := if su then SELECTOR_U_CODE else ucast SELECTOR_K_CODE,
       is_ss := if su then SELECTOR_U_DATA else SELECTOR_K_DATA,
       is_sregs := 0, is_rsp := stack, is_rip := entry, is_rdi := args\<rparr>))))"

definition create_task :: "syms \<Rightarrow> u64 \<Rightarrow> u64 \<Rightarrow> u64 \<Rightarrow> u8 \<Rightarrow> bool \<Rightarrow> ('z kstate_scheme, u64) kcall" where
  "create_task A stack entry args prio su =
     bnd (alloc_pages 1) (\<lambda>task.
     bnd (init_task task prio) (\<lambda>_.
     bnd (set_status task TASK_READY) (\<lambda>_.
     bnd (k_elem_find ReadyTasks (GeneralTag task)) (\<lambda>found.
     bnd (ASSERT (\<not> found)) (\<lambda>_.
     bnd (k_list_append ReadyTasks (GeneralTag task)) (\<lambda>_.
     bnd (create_task_envi A task stack entry args su) (\<lambda>_.
     ret task)))))))"

definition make_main_task :: "'h machine \<Rightarrow> (('h, 'z) hwstate_scheme, unit) kcall" where
  "make_main_task M =
     bnd (alloc_pages 1) (\<lambda>main_task.
     bnd (put_info M (str_of ''main_task: '') main_task) (\<lambda>_.
     bnd (kput (\<lambda>s. s\<lparr>ist2 := main_task + PG_SIZE\<rparr>)) (\<lambda>_.
     bnd (put_info M (str_of ''ist2: '') (main_task + PG_SIZE)) (\<lambda>_.
     bnd (set_status main_task TASK_RUNNING) (\<lambda>_.
     bnd (init_task main_task 30) (\<lambda>_.
     bnd (upd_intr_stack main_task (\<lambda>k. k\<lparr>is_cs := ucast SELECTOR_K_CODE, is_ss := SELECTOR_K_DATA\<rparr>)) (\<lambda>_.
     bnd (upd_task main_task (\<lambda>t. t\<lparr>t_parent_task := main_task\<rparr>)) (\<lambda>_.
     bnd (upd_task main_task (\<lambda>t. t\<lparr>t_pml4 := KERNEL_PML4\<rparr>)) (\<lambda>_.
     kput (\<lambda>s. s\<lparr>init_proc := main_task\<rparr>))))))))))"

definition idle_task_init :: "syms \<Rightarrow> ('z kstate_scheme, unit) kcall" where
  "idle_task_init A =
     bnd (alloc_pages 1) (\<lambda>p.
     bnd (create_task A (p + PG_SIZE) (idle A) 0 30 False) (\<lambda>task.
     bnd (kput (\<lambda>s. s\<lparr>idle_task := task\<rparr>)) (\<lambda>_.
     bnd (upd_task task (\<lambda>t. t\<lparr>t_parent_task := task\<rparr>)) (\<lambda>_.
     bnd (upd_task task (\<lambda>t. t\<lparr>t_pml4 := KERNEL_PML4\<rparr>)) (\<lambda>_.
     upd_intr_stack task (\<lambda>k. k\<lparr>is_cs := ucast SELECTOR_K_CODE, is_ss := SELECTOR_K_DATA\<rparr>))))))"

definition task_init :: "'h machine \<Rightarrow> syms \<Rightarrow> (('h, 'z) hwstate_scheme, unit) kcall" where
  "task_init M A =
     bnd (put_str M (str_of ''task_init: start'' @ [10])) (\<lambda>_.
     bnd (k_list_init ReadyTasks) (\<lambda>_.
     bnd (k_list_init AllTasks) (\<lambda>_.
     bnd pid_pool_init (\<lambda>_.
     bnd (idle_task_init A) (\<lambda>_.
     bnd (make_main_task M) (\<lambda>_.
     put_str M (str_of ''task_init: end'' @ [10])))))))"

text \<open>One round of the idle task: block, then wait for an interrupt with interrupts on.\<close>

definition idle_round :: "('z kstate_scheme, unit) kcall" where
  "idle_round = bnd (task_block TASK_BLOCKED) (\<lambda>_. kput (\<lambda>s. s\<lparr>intr_flag := intr_on\<rparr>))"

section \<open>Cloning\<close>

text \<open>\<^verbatim>\<open>++pf->f_inode->open_cnts\<close>. The \<^verbatim>\<open>f_inode\<close> of a pipe is its queue: the counter of an inode, at offset 112, is there the eight
  bytes of the buffer from position 56 on.\<close>

definition bump_queue :: "ioqueue \<Rightarrow> ioqueue" where
  "bump_queue q = (let b = ioq_buf q in q\<lparr>ioq_buf := take 56 b @ enc64 (dec64 (drop 56 b) + 1) @ drop 64 b\<rparr>)"

definition bump_open :: "file_struct \<Rightarrow> (('h, 'z) fistate_scheme, unit) kcall" where
  "bump_open f =
     (if ft_type f = FT_FIFO then upd_ioq (f_inode f) bump_queue
      else upd_inode (f_inode f) (\<lambda>x. x\<lparr>open_cnts := open_cnts x + 1\<rparr>))"

definition inherit_fd :: "u64 \<Rightarrow> nat \<Rightarrow> (('h, 'z) fistate_scheme, unit) kcall" where
  "inherit_fd task i =
     bnd (get_fd task (int i)) (\<lambda>ft_idx.
     if ft_idx \<noteq> -1
     then bnd (get_file ft_idx) (\<lambda>f.
          bnd (if ft_type f = FT_FIFO then upd_file ft_idx (\<lambda>f. f\<lparr>f_pos := f_pos f + 1\<rparr>) else ret ()) (\<lambda>_.
          if ft_type f = FT_CHR then upd_file ft_idx (\<lambda>f. f\<lparr>f_pos := f_pos f + 1\<rparr>)
          else bump_open f))
     else ret ())"

definition new_address_space :: "(('h, 'z) mmstate_scheme, unit) kcall \<Rightarrow> u64 \<Rightarrow> (('h, 'z) mmstate_scheme, unit) kcall" where
  "new_address_space pf task =
     bnd (alloc_pages 1) (\<lambda>p.
     bnd (upd_task task (\<lambda>t. t\<lparr>t_pml4 := p\<rparr>)) (\<lambda>_.
     bnd (ustore pf p (replicate (unat PG_SIZE) 0)) (\<lambda>_.
     bnd (get_task task) (\<lambda>t.
     bnd (get_task (t_parent_task t)) (\<lambda>pt.
     bnd (uload pf (t_pml4 pt + 2048) (unat PG_SIZE div 2)) (\<lambda>bs.
     bnd (ustore pf (p + 2048) bs) (\<lambda>_.
     upd_task task (\<lambda>t. t\<lparr>t_addr_space := t_addr_space pt\<rparr>))))))))"

definition copy_stack_page :: "(('h, 'z) mmstate_scheme, unit) kcall \<Rightarrow> u64 \<Rightarrow> u64 \<Rightarrow> (('h, 'z) mmstate_scheme, unit) kcall" where
  "copy_stack_page pf task d_page =
     bnd (alloc_pages 1) (\<lambda>tmp_stack.
     bnd (get_task task) (\<lambda>t.
     bnd (copy_page pf d_page d_page task (t_parent_task t)) (\<lambda>_.
     free_pages tmp_stack 1)))"

definition sys_clone ::
  "'h machine \<Rightarrow> (nat \<Rightarrow> u64) \<Rightarrow> syms \<Rightarrow> u64 \<Rightarrow> u64 \<Rightarrow> u64 \<Rightarrow> u64 \<Rightarrow> u64 \<Rightarrow> (('h, 'z) mmstate_scheme, int) kcall" where
  "sys_clone M fr A syscall_rbp clone_flag stack child_fn args =
     (let pf = page_fault M fr; shared = clone_flag AND CLONE_VM \<noteq> 0;
          stack = if shared then stack else DEFAULT_STACK;
          child_fn = if shared then child_fn else system_ret A;
          args = if shared then args else 0 in
      bnd (create_task A stack child_fn args 30 shared) (\<lambda>task.
      bnd (if \<not> shared
           then bnd (ustore pf (syscall_rbp - 8) (enc64 0)) (\<lambda>_.
                bnd (upd_intr_stack task (\<lambda>k. k\<lparr>is_rbp := syscall_rbp\<rparr>)) (\<lambda>_.
                bnd (new_address_space pf task) (\<lambda>_.
                bnd (kget global_stack_size) (\<lambda>sz.
                for_range 0 (unat (sz div PG_SIZE)) (\<lambda>i.
                  copy_stack_page pf task (DEFAULT_STACK - sz + of_nat i * PG_SIZE))))))
           else ret ()) (\<lambda>_.
      bnd (get_task task) (\<lambda>t.
      bnd (get_task (t_parent_task t)) (\<lambda>pt.
      bnd (upd_task task (\<lambda>t. t\<lparr>t_fd_table := t_fd_table pt\<rparr>)) (\<lambda>_.
      bnd (for_range 0 MAX_FILES_OPEN_PER_PROC (inherit_fd task)) (\<lambda>_.
      bnd (get_task task) (\<lambda>t.
      ret (t_pid t)))))))))"

end
