(* ===== verification/WaitExit.thy ===== *)
theory WaitExit
  imports Task
begin

text \<open>
  Waiting for children and ending a task (\<^verbatim>\<open>userprog/wait_exit.c\<close>).

  \<open>sys_wait_resume\<close> is the rest of a \<^verbatim>\<open>sys_wait\<close> that slept in \<^verbatim>\<open>task_block\<close>. The predicates that \<^verbatim>\<open>list_traversal\<close> is called with see the state
  through the table of tasks; \<^verbatim>\<open>init_adopt_a_child\<close> changes it, so \<open>adopt_children\<close> is that traversal, element by element.
\<close>

unbundle bit_operations_syntax

section \<open>Waiting\<close>

definition find_child :: "(u64 \<Rightarrow> task_struct) \<Rightarrow> u64 \<Rightarrow> elem \<Rightarrow> bool" where
  "find_child ts parent e = (case e of AllListTag t \<Rightarrow> t_parent_task (ts t) = parent | _ \<Rightarrow> False)"

definition find_hanging_child :: "(u64 \<Rightarrow> task_struct) \<Rightarrow> u64 \<Rightarrow> elem \<Rightarrow> bool" where
  "find_hanging_child ts parent e =
     (case e of AllListTag t \<Rightarrow> t_parent_task (ts t) = parent \<and> t_status (ts t) = TASK_HANGING | _ \<Rightarrow> False)"

definition reap :: "u64 \<Rightarrow> u64 \<Rightarrow> ('z kstate_scheme, int \<times> int) kcall" where
  "reap task child =
     bnd (get_task child) (\<lambda>ct.
     bnd (set_status child TASK_DIED) (\<lambda>_.
     bnd (get_task task) (\<lambda>t.
     bnd (if t_pml4 t \<noteq> t_pml4 ct then free_pages (t_pml4 ct) 1 else ret ()) (\<lambda>_.
     bnd (k_elem_find ReadyTasks (GeneralTag child)) (\<lambda>found.
     bnd (if found then k_list_remove (GeneralTag child) else ret ()) (\<lambda>_.
     bnd (k_list_remove (AllListTag child)) (\<lambda>_.
     bnd (release_pid (t_pid ct)) (\<lambda>_.
     bnd (free_pages child 1) (\<lambda>_.
     ret (t_pid ct, t_exit_status ct))))))))))"

text \<open>The result is the pid and, where the code stores one, the status for \<^verbatim>\<open>*status\<close>.\<close>

fun sys_wait_loop :: "nat \<Rightarrow> u64 \<Rightarrow> ('z kstate_scheme, int \<times> int option) kcall" where
  "sys_wait_loop 0 task = fail Diverges"
| "sys_wait_loop (Suc n) task =
     bnd (kget tasks) (\<lambda>ts.
     bnd (k_list_traversal AllTasks (find_hanging_child ts task)) (\<lambda>child_elem.
     case child_elem of
       Some e \<Rightarrow>
         bnd (of_res (entry_all_list child_elem)) (\<lambda>child.
         bnd (reap task child) (\<lambda>(pid, st). ret (pid, Some st)))
     | None \<Rightarrow>
         bnd (k_list_traversal AllTasks (find_child ts task)) (\<lambda>child_elem.
         case child_elem of
           None \<Rightarrow> ret (-1, None)
         | Some e \<Rightarrow> bnd (task_block TASK_WAITING) (\<lambda>_. sys_wait_loop n task))))"

definition sys_wait :: "('z kstate_scheme, int \<times> int option) kcall" where
  "sys_wait = bnd running_task (\<lambda>task. sys_wait_loop 2 task)"

definition sys_wait_resume :: "u64 \<Rightarrow> intr_stat \<Rightarrow> ('z kstate_scheme, int \<times> int option) kcall" where
  "sys_wait_resume task old_stat = bnd (set_intr_stat old_stat) (\<lambda>_. sys_wait_loop 2 task)"

section \<open>Ending a task\<close>

definition init_adopt_a_child :: "u64 \<Rightarrow> u64 \<Rightarrow> elem \<Rightarrow> (u64 \<Rightarrow> task_struct) \<Rightarrow> (u64 \<Rightarrow> task_struct)" where
  "init_adopt_a_child init task e ts =
     (case e of AllListTag t \<Rightarrow> if t_parent_task (ts t) = task then ts(t := (ts t)\<lparr>t_parent_task := init\<rparr>) else ts | _ \<Rightarrow> ts)"

text \<open>The traversal of \<^verbatim>\<open>list_traversal\<close> with a function that never stops it.\<close>

partial_function (option) adopt_from ::
  "elem heap \<Rightarrow> u64 \<Rightarrow> u64 \<Rightarrow> elem option \<Rightarrow> (u64 \<Rightarrow> task_struct) \<Rightarrow> (u64 \<Rightarrow> task_struct) res option" where
  "adopt_from h init task elem ts =
     (if elem = Some (TailOf AllTasks) then Some (Inr ts)
      else (case elem of None \<Rightarrow> Some (Inl NullDeref)
            | Some e \<Rightarrow> adopt_from h init task (e_next (h e)) (init_adopt_a_child init task e ts)))"

definition adopt_children :: "u64 \<Rightarrow> ('z kstate_scheme, unit) kcall" where
  "adopt_children task s =
     (case adopt_from (links s) (init_proc s) task (e_next (links s (HeadOf AllTasks))) (tasks s) of
        None \<Rightarrow> Fail Diverges | Some (Inl e) \<Rightarrow> Fail e | Some (Inr ts) \<Rightarrow> Ret () (s\<lparr>tasks := ts\<rparr>))"

definition release_segment :: "(('h, 'z) mmstate_scheme, unit) kcall \<Rightarrow> u64 \<Rightarrow> u64 \<Rightarrow> (('h, 'z) mmstate_scheme, unit) kcall" where
  "release_segment pf va sz =
     (if va = 0 then ret ()
      else let (page_start, pg_cnt) = segment_pages va sz in
           for_range 0 pg_cnt (\<lambda>i. page_unmap pf (page_start + of_nat i * PG_SIZE)))"

fun release_segments :: "(('h, 'z) mmstate_scheme, unit) kcall \<Rightarrow> (u64 \<times> u64) list \<Rightarrow> (('h, 'z) mmstate_scheme, unit) kcall" where
  "release_segments pf [] = ret ()"
| "release_segments pf ((va, sz) # segs) = bnd (release_segment pf va sz) (\<lambda>_. release_segments pf segs)"

definition close_fd :: "u64 \<Rightarrow> nat \<Rightarrow> (('h, 'z) fistate_scheme, unit) kcall" where
  "close_fd task fd =
     bnd (get_fd task (int fd)) (\<lambda>v.
     if v \<noteq> -1 then bnd (sys_close (int fd)) (\<lambda>_. ret ()) else ret ())"

definition release_prog_resource :: "'h machine \<Rightarrow> (nat \<Rightarrow> u64) \<Rightarrow> u64 \<Rightarrow> (('h, 'z) mmstate_scheme, unit) kcall" where
  "release_prog_resource M fr task =
     bnd (for_range 0 MAX_FILES_OPEN_PER_PROC (close_fd task)) (\<lambda>_.
     bnd (get_task task) (\<lambda>t.
     if heap_start (t_addr_space t) = 0 then ret ()
     else bnd (sys_brk M fr (heap_start (t_addr_space t))) (\<lambda>_.
          bnd (get_task task) (\<lambda>t.
          bnd (release_segments (page_fault M fr) (zip (vaddr (t_addr_space t)) (filesz (t_addr_space t)))) (\<lambda>_.
          bnd (kget global_stack_size) (\<lambda>sz.
          page_unmap (page_fault M fr) (DEFAULT_STACK - sz)))))))"

definition sys_exit :: "'h machine \<Rightarrow> (nat \<Rightarrow> u64) \<Rightarrow> int \<Rightarrow> (('h, 'z) mmstate_scheme, unit) kcall" where
  "sys_exit M fr status =
     bnd running_task (\<lambda>task.
     bnd (upd_task task (\<lambda>t. t\<lparr>t_exit_status := status\<rparr>)) (\<lambda>_.
     bnd (get_task task) (\<lambda>t.
     bnd (ASSERT (t_pid t > 1)) (\<lambda>_.
     bnd (adopt_children task) (\<lambda>_.
     bnd (release_prog_resource M fr task) (\<lambda>_.
     bnd (get_task task) (\<lambda>t.
     bnd (get_task (t_parent_task t)) (\<lambda>p.
     bnd (if t_status p = TASK_WAITING then task_unblock (t_parent_task t) else ret ()) (\<lambda>_.
     task_block TASK_HANGING)))))))))"

end
