(* ===== verification/Family.thy ===== *)
theory Family
  imports WaitExit
begin

text \<open>
  The task table as a whole: which tasks exist, whose children they are, what they own.

  \<open>tasks_ok s cur rs ws al\<close> extends the invariant of the scheduler: \<open>al\<close> is the list of all tasks, each of them is a well formed
  structure on a page of its own, has a pid of its own and a parent in the list that has not ended. Creating a task and reaping one
  preserve it; from this follow what \<^verbatim>\<open>create_task\<close>, \<^verbatim>\<open>sys_wait\<close> and \<^verbatim>\<open>sys_exit\<close> do.
\<close>

unbundle bit_operations_syntax

section \<open>The invariant\<close>

definition task_wf :: "task_struct \<Rightarrow> bool" where
  "task_wf t \<longleftrightarrow> length (t_fd_table t) = MAX_FILES_OPEN_PER_PROC \<and> length (vaddr (t_addr_space t)) = 4 \<and>
     length (filesz (t_addr_space t)) = 4 \<and> t_stack_magic t = STACK_MAGIC"

definition family ::
  "(u64 \<Rightarrow> task_struct) \<Rightarrow> u64 set \<Rightarrow> int set \<Rightarrow> u64 \<Rightarrow> u64 \<Rightarrow> u64 \<Rightarrow> u64 list \<Rightarrow> (sema \<Rightarrow> u64 list) \<Rightarrow> u64 list \<Rightarrow> bool" where
  "family ts pg ps cur idl ini rs ws al \<longleftrightarrow>
     {cur, idl, ini} \<subseteq> set al \<and> set rs \<subseteq> set al \<and> (\<forall>p. set (ws p) \<subseteq> set al) \<and> set al \<subseteq> pg \<and>
     t_pid (ts idl) = 0 \<and> t_pid (ts ini) = 1 \<and>
     (\<forall>t \<in> set al. task_wf (ts t) \<and> t_pid (ts t) \<in> ps \<and> t_parent_task (ts t) \<in> set al \<and>
        t_status (ts (t_parent_task (ts t))) \<noteq> TASK_HANGING \<and> (1 < t_pid (ts t) \<longrightarrow> t_parent_task (ts t) \<noteq> t)) \<and>
     inj_on (\<lambda>t. t_pid (ts t)) (set al) \<and> (\<forall>t \<in> {idl, ini} \<union> set rs. t_status (ts t) \<noteq> TASK_HANGING)"

definition tasks_ok :: "'z kstate_scheme \<Rightarrow> u64 \<Rightarrow> u64 list \<Rightarrow> (sema \<Rightarrow> u64 list) \<Rightarrow> u64 list \<Rightarrow> bool" where
  "tasks_ok s cur rs ws al \<longleftrightarrow>
     run_ok s cur rs ws \<and> nq AllListTag s AllTasks al \<and>
     (\<forall>p \<in> {KernelPoolLock, PidLock}. ws p = [] \<and> sema_value s p = 1) \<and>
     bitmap_wf (btmp_of KernelPool s) \<and> nbits (btmp_of KernelPool s) \<le> 2 ^ 52 \<and> aligned (mp_start (kernel_mem_pool s)) \<and>
     bitmap_wf (pid_bitmap s) \<and> nbits (pid_bitmap s) < 2 ^ 63 \<and> pid_start s = 0 \<and>
     family (tasks s) (pages KernelPool s) (pids s) cur (idle_task s) (init_proc s) rs ws al"

lemma tasks_okD:
  assumes "tasks_ok s cur rs ws al"
  shows "run_ok s cur rs ws" "nq AllListTag s AllTasks al" "pool_ok KernelPool s" "pid_ok s" "sema_free PidLock s"
    "sema_free KernelPoolLock s" "aligned (mp_start (kernel_mem_pool s))" "pid_start s = 0"
    "family (tasks s) (pages KernelPool s) (pids s) cur (idle_task s) (init_proc s) rs ws al"
proof -
  show r: "run_ok s cur rs ws" and "nq AllListTag s AllTasks al" "aligned (mp_start (kernel_mem_pool s))" "pid_start s = 0"
    "family (tasks s) (pages KernelPool s) (pids s) cur (idle_task s) (init_proc s) rs ws al"
    using assms by (simp_all add: tasks_ok_def)
  have sok: "sched_ok s cur rs ws" using r by (simp add: run_ok_def)
  have "sema_free p s" if "p \<in> {KernelPoolLock, PidLock}" for p
    using sched_okD(6)[OF sok, of p] sched_okD(1,2)[OF sok] assms that
    by (auto simp: sema_free_def lock_free_def cur_ok_def tasks_ok_def)
  then show "sema_free PidLock s" "sema_free KernelPoolLock s" by simp_all
  then show "pool_ok KernelPool s" "pid_ok s" using assms by (simp_all add: tasks_ok_def pool_ok_def pid_ok_def)
qed

section \<open>Changing one list leaves the others\<close>

lemma tq_all_tasks:
  assumes "tq s l ts" "agree_off (nels AllListTag AllTasks A) (links s) h" "l \<noteq> AllTasks"
  shows "tq (s\<lparr>links := h\<rparr>) l ts"
  using assms by (auto intro!: tq_frame[OF assms(1)] simp: nels_def)

lemma nq_ready:
  assumes "nq AllListTag s AllTasks al" "agree_off (tags ReadyTasks rs) (links s) h"
  shows "nq AllListTag (s\<lparr>links := h\<rparr>) AllTasks al"
proof (rule nq_frame[OF assms(1)])
  show "agree_off (tags ReadyTasks rs) (links s) (links (s\<lparr>links := h\<rparr>))" using assms(2) by simp
  show "tags ReadyTasks rs \<inter> nels AllListTag AllTasks (set al) = {}" by (auto simp: nels_def tags_def)
qed

lemma run_ok_all_tasks:
  assumes "run_ok s cur rs ws" "agree_off (nels AllListTag AllTasks A) (links s) h"
  shows "run_ok (s\<lparr>links := h\<rparr>) cur rs ws"
proof -
  have sok: "sched_ok s cur rs ws" using assms(1) by (simp add: run_ok_def)
  have "tq (s\<lparr>links := h\<rparr>) ReadyTasks rs" by (rule tq_all_tasks[OF sched_okD(5)[OF sok] assms(2)]) simp
  moreover have "tq (s\<lparr>links := h\<rparr>) (Waiters p) (ws p)" for p by (rule tq_all_tasks[OF sched_okD(6)[OF sok] assms(2)]) simp
  ultimately show ?thesis using assms(1) by (auto simp: run_ok_def sched_ok_def)
qed

lemma run_ok_append:
  assumes ok: "run_ok s cur rs ws" and t: "aligned t" "\<forall>p. t \<notin> set (ws p)" "t \<noteq> cur"
    and "tq (s\<lparr>links := h\<rparr>) ReadyTasks (rs @ [t])" "agree_off (tags ReadyTasks (t # rs)) (links s) h"
  shows "run_ok (s\<lparr>links := h\<rparr>) cur (rs @ [t]) ws"
proof -
  have sok: "sched_ok s cur rs ws" using ok by (simp add: run_ok_def)
  have "tq (s\<lparr>links := h\<rparr>) (Waiters p) (ws p)" for p
  proof (rule tq_frame[OF sched_okD(6)[OF sok, of p]])
    show "agree_off (tags ReadyTasks (t # rs)) (links s) (links (s\<lparr>links := h\<rparr>))" using assms(6) by simp
    show "tags ReadyTasks (t # rs) \<inter> tags (Waiters p) (ws p) = {}"
      using sched_okD(7)[OF sok, of p] t(2) by (intro tags_disjoint) auto
  qed
  then show ?thesis using ok assms by (auto simp: run_ok_def sched_ok_def)
qed

text \<open>The status of a task that is in no list does not matter to the scheduler.\<close>

lemma run_ok_status:
  assumes "run_ok s cur rs ws" "\<And>t. t \<in> {cur, idle_task s} \<union> (\<Union>p. set (ws p)) \<Longrightarrow> t_status (ts t) = t_status (tasks s t)"
  shows "run_ok (s\<lparr>tasks := ts\<rparr>) cur rs ws"
proof -
  have "tq (s\<lparr>tasks := ts\<rparr>) l q = tq s l q" for l q by (simp add: tq_def)
  moreover have "t_status (ts t) = TASK_BLOCKED" if "t \<in> set (ws p)" for t p
    using assms(2)[of t] sched_okD(10)[of s cur rs ws t p] assms(1) that by (auto simp: run_ok_def)
  ultimately show ?thesis using assms by (auto simp: run_ok_def sched_ok_def)
qed

section \<open>Creating a task\<close>

text \<open>The structure that \<^verbatim>\<open>create_task\<close> leaves in the page \<open>a\<close>, on top of what was there.\<close>

definition created :: "syms \<Rightarrow> u64 \<Rightarrow> int \<Rightarrow> u64 \<Rightarrow> u64 \<Rightarrow> u64 \<Rightarrow> u64 \<Rightarrow> u64 \<Rightarrow> u8 \<Rightarrow> bool \<Rightarrow> task_struct \<Rightarrow> task_struct" where
  "created A a pid parent pm stack entry args prio su old =
     old\<lparr>t_pid := pid, t_parent_task := parent, t_pml4 := pm, t_addr_space := no_space, t_prio := prio, t_ticks := prio,
       t_stack_magic := STACK_MAGIC, t_fd_table := replicate MAX_FILES_OPEN_PER_PROC (-1), t_status := TASK_READY,
       t_rbp := a + switch_rbp_off,
       t_switch_stack := (t_switch_stack old)\<lparr>ss_rip := intr_exit A, ss_rbp := a + PG_SIZE - sizeof_intr_stack + intr_rbp_off\<rparr>,
       t_intr_stack := (t_intr_stack old)\<lparr>is_rflags := 0x202,
         is_cs := if su then SELECTOR_U_CODE else ucast SELECTOR_K_CODE,
         is_ss := if su then SELECTOR_U_DATA else SELECTOR_K_DATA,
         is_sregs := 0, is_rsp := stack, is_rip := entry, is_rdi := args\<rparr>\<rparr>"

lemma created_wf [simp]: "task_wf (created A a pid parent pm stack entry args prio su old)"
  by (simp add: task_wf_def created_def no_space_def)

lemma create_task_run:
  fixes s :: "'z kstate_scheme"
  assumes a: "alloc_pages 1 s = Ret a s1" and pid: "alloc_pid s1 = Ret pid s2" "pid > 1"
    and st: "tasks s2 = tasks s" "ist2 s2 = cur + PG_SIZE" "aligned cur" "a \<noteq> cur"
    and all: "elem_find (links s2) (lst_of AllTasks) (AllListTag a) = Inr False"
      "list_append (links s2) (lst_of AllTasks) (AllListTag a) = Inr h1"
    and rdy: "elem_find h1 (lst_of ReadyTasks) (GeneralTag a) = Inr False"
      "list_append h1 (lst_of ReadyTasks) (GeneralTag a) = Inr h2"
  shows "create_task A stack entry args prio su s =
    Ret a (s2\<lparr>links := h2, tasks := (tasks s)(a := created A a pid cur (t_pml4 (tasks s cur)) stack entry args prio su (tasks s a))\<rparr>)"
proof -
  let ?u = "s2\<lparr>links := h1, tasks := (tasks s)(a := (tasks s a)\<lparr>t_pid := pid, t_parent_task := cur,
    t_pml4 := t_pml4 (tasks s cur), t_addr_space := no_space, t_prio := prio, t_ticks := prio, t_stack_magic := STACK_MAGIC,
    t_fd_table := replicate MAX_FILES_OPEN_PER_PROC (-1)\<rparr>)\<rparr>"
  have i: "init_task a prio s1 = Ret () ?u"
    using pid st all by (simp add: init_task_def bnd_def[of alloc_pid] bnd_def[of running_task] bnd_def[of "k_list_append l e" for l e]
        bnd_def[of "k_elem_find l e" for l e] state_defs running_task_eq on_field'_def of_res_def ret_def kput_def)
  show ?thesis
    unfolding create_task_def bnd_run(1)[of "alloc_pages 1", OF a] bnd_run(1)[of "init_task a prio", OF i]
    using rdy by (simp add: set_status_def upd_task_def k_elem_find_def k_list_append_def bnd_assoc create_task_envi_def upd_intr_stack_def
        bnd_def[of "on_field' x y z" for x y z] on_field'_def created_def ret_def)
qed

lemma family_create:
  assumes "family ts pg ps cur idl ini rs ws al" "a \<notin> pg" "pid \<notin> ps"
    and T: "t_pid T = pid" "t_parent_task T = cur" "t_status T = TASK_READY" "task_wf T" and "t_status (ts cur) = TASK_RUNNING"
  shows "family (ts(a := T)) (insert a pg) (insert pid ps) cur idl ini (rs @ [a]) ws (al @ [a])"
proof -
  have a: "a \<notin> set al" "a \<noteq> cur" "a \<noteq> idl" "a \<noteq> ini" "a \<notin> set rs" and p: "t_pid (ts t) \<noteq> pid" if "t \<in> set al" for t
    using assms(1-3) that by (auto simp: family_def)
  have "cur \<in> set al" using assms(1) by (simp add: family_def)
  note a = a[OF this]
  have ball_p: "\<forall>t \<in> set al. t_pid (ts t) \<noteq> pid" using p by blast
  have pa: "t_parent_task (ts t) \<noteq> a" if "t \<in> set al" for t using assms(1) a(1) that by (auto simp: family_def)
  have "inj_on (\<lambda>t. t_pid ((ts(a := T)) t)) (set (al @ [a]))"
    using assms(1) a(1) T(1) ball_p by (auto simp: family_def inj_on_def)
  then show ?thesis using assms a pa by (auto simp: family_def)
qed

lemma fresh_pid:
  assumes ok: "tasks_ok s cur rs ws al" and "pids s \<noteq> pid_units s"
  shows "\<exists>pid b. alloc_pid s = Ret pid (s\<lparr>pid_bitmap := b\<rparr>) \<and> pid > 1 \<and> pid \<notin> pids s \<and> bitmap_wf b \<and>
    nbits b = nbits (pid_bitmap s) \<and> pids (s\<lparr>pid_bitmap := b\<rparr>) = insert pid (pids s)"
proof -
  have st: "pid_start s = 0" using tasks_okD(8)[OF ok] .
  have "{0, 1} \<subseteq> pids s" using tasks_okD(9)[OF ok] unfolding family_def by (metis bot.extremum insert_subset)
  then have u: "{0, 1} \<subseteq> used (pid_bitmap s)" using st by (auto simp: pids_def)
  have "used (pid_bitmap s) \<noteq> {..<nbits (pid_bitmap s)}" using assms(2) by (auto simp: pids_def pid_units_def)
  then obtain i b where i: "alloc_pid s = Ret (int i) (s\<lparr>pid_bitmap := b\<rparr>)" "i \<notin> used (pid_bitmap s)"
      "used b = insert i (used (pid_bitmap s))" "bitmap_wf b" "nbits b = nbits (pid_bitmap s)"
    using alloc_pid_cases[OF tasks_okD(4)[OF ok]] st by auto
  moreover have "i \<notin> {0, 1}" using u i(2) by blast
  ultimately show ?thesis using st by (intro exI[of _ "int i"] exI[of _ b]) (auto simp: pids_def)
qed

lemma create_task_ok:
  assumes ok: "tasks_ok s cur rs ws al" and room: "pages KernelPool s \<noteq> page_units KernelPool s" "pids s \<noteq> pid_units s"
  shows "\<exists>a pid s'. create_task A stack entry args prio su s = Ret a s' \<and> a \<notin> pages KernelPool s \<and> pid > 1 \<and> pid \<notin> pids s \<and>
    tasks_ok s' cur (rs @ [a]) ws (al @ [a]) \<and> pages KernelPool s' = insert a (pages KernelPool s) \<and> pids s' = insert pid (pids s) \<and>
    tasks s' = (tasks s)(a := created A a pid cur (t_pml4 (tasks s cur)) stack entry args prio su (tasks s a))"
proof -
  note D = tasks_okD[OF ok]
  have run: "sched_ok s cur rs ws" "cur \<in> set al" "t_status (tasks s cur) = TASK_RUNNING" using D(1,9) by (auto simp: run_ok_def family_def)
  obtain a b where a: "alloc_pages 1 s = Ret a (set_btmp KernelPool b s)" "a \<in> page_units KernelPool s" "a \<notin> pages KernelPool s"
      "pages KernelPool (set_btmp KernelPool b s) = insert a (pages KernelPool s)" "pool_ok KernelPool (set_btmp KernelPool b s)"
    using alloc_pages_one[OF D(3) room(1)] by blast
  let ?s1 = "set_btmp KernelPool b s"
  have na: "a \<notin> set al" "a \<noteq> cur" "a \<noteq> idle_task s" "a \<notin> set rs" "a \<notin> set (ws p)" for p
    using a(3) D(9) by (auto simp: family_def)
  have al: "aligned a" using pages_aligned[of KernelPool s a] D(7) a(2) by simp
  have bk: "bitmap_wf b" "nbits b \<le> 2 ^ 52" using a(5) by (simp_all add: pool_ok_def)
  have free: "sema_free PidLock ?s1" using D(5) by simp
  obtain pid b2 where p: "alloc_pid s = Ret pid (s\<lparr>pid_bitmap := b2\<rparr>)" "pid > 1" "pid \<notin> pids s" "bitmap_wf b2"
      "nbits b2 = nbits (pid_bitmap s)" "pids (s\<lparr>pid_bitmap := b2\<rparr>) = insert pid (pids s)"
    using fresh_pid[OF ok room(2)] by blast
  have same: "pid_bitmap ?s1 = pid_bitmap s" "pid_start ?s1 = pid_start s" "init_proc ?s1 = init_proc s"
    "kernel_mem_pool ?s1 = (kernel_mem_pool s)\<lparr>pool_bitmap := b\<rparr>" by (simp_all add: set_btmp_def)
  obtain i b3 where i: "bitmap_alloc (pid_bitmap s) 1 = Inr (i, b3)"
    using bm.alloc_one_cases[of "pid_bitmap s"] D(4) by (auto simp: pid_ok_def)
  have "i + pid_start s = pid" "b3 = b2"
    using alloc_pid_eq[OF D(5) i] p(1) by (auto dest: arg_cong[where f = pid_bitmap])
  then have pa: "alloc_pid ?s1 = Ret pid (?s1\<lparr>pid_bitmap := b2\<rparr>)" using alloc_pid_eq[OF free] i same by simp
  let ?s2 = "?s1\<lparr>pid_bitmap := b2\<rparr>"
  have nq2: "nq AllListTag ?s2 AllTasks al" using D(2) by (simp add: nq_def)
  obtain h1 where h1: "list_append (links ?s2) (lst_of AllTasks) (AllListTag a) = Inr h1" "nq AllListTag (?s2\<lparr>links := h1\<rparr>) AllTasks (al @ [a])"
      "agree_off (nels AllListTag AllTasks (set (a # al))) (links ?s2) h1"
    using nq_append[OF nq2 node_tags(1) na(1)] by blast
  define T where "T = created A a pid cur (t_pml4 (tasks s cur)) stack entry args prio su (tasks s a)"
  let ?s3 = "?s2\<lparr>links := h1, tasks := (tasks s)(a := T)\<rparr>"
  have r2: "run_ok ?s2 cur rs ws" using D(1) by simp
  have r3: "run_ok ?s3 cur rs ws"
    by (rule run_ok_status[OF run_ok_all_tasks[OF r2 h1(3)]]) (use na in \<open>auto simp: set_btmp_def\<close>)
  have t3: "tq ?s3 ReadyTasks rs" using r3 by (simp add: run_ok_def sched_ok_def)
  obtain h2 where h2: "list_append h1 (lst_of ReadyTasks) (GeneralTag a) = Inr h2" "tq (?s3\<lparr>links := h2\<rparr>) ReadyTasks (rs @ [a])"
      "agree_off (tags ReadyTasks (a # rs)) h1 h2"
    using tq_append[OF t3 na(4)] by auto
  have f: "elem_find h1 (lst_of ReadyTasks) (GeneralTag a) = Inr False" using tq_find[OF t3, of a] na(4) by simp
  have "create_task A stack entry args prio su s = Ret a (?s2\<lparr>links := h2, tasks := (tasks s)(a := T)\<rparr>)"
    unfolding T_def
    by (rule create_task_run[OF a(1) pa p(2) _ _ _ _ _ h1(1) f h2(1)])
      (use sched_okD(1,2)[OF run(1)] na nq_find[OF nq2 node_tags(1), of a] in auto)
  moreover have "run_ok (?s3\<lparr>links := h2\<rparr>) cur (rs @ [a]) ws"
    by (rule run_ok_append[OF r3 al _ na(2) h2(2)]) (use na h2(3) in auto)
  moreover have "nq AllListTag (?s3\<lparr>links := h2\<rparr>) AllTasks (al @ [a])"
    by (rule nq_ready[where rs = "a # rs"]) (use h1(2) h2(3) in \<open>auto simp: nq_def\<close>)
  moreover have "family ((tasks s)(a := T)) (insert a (pages KernelPool s)) (insert pid (pids s)) cur (idle_task s) (init_proc s) (rs @ [a]) ws (al @ [a])"
    by (rule family_create[OF D(9) a(3) p(3)]) (use run(3) in \<open>simp_all add: T_def, simp_all add: created_def\<close>)
  moreover have "pages KernelPool (?s2\<lparr>links := h2, tasks := (tasks s)(a := T)\<rparr>) = insert a (pages KernelPool s)"
    using a(4) by (simp add: pages_def set_btmp_def)
  moreover have "pids (?s2\<lparr>links := h2, tasks := (tasks s)(a := T)\<rparr>) = insert pid (pids s)" using p(6) same by (simp add: pids_def)
  ultimately show ?thesis
    using ok bk p same
    by (intro exI[of _ a] exI[of _ pid] exI[of _ "?s2\<lparr>links := h2, tasks := (tasks s)(a := T)\<rparr>"])
      (simp add: tasks_ok_def a(3) T_def[symmetric])
qed

section \<open>The steps of reaping a task\<close>

lemma family_mono:
  assumes "family ts pg ps cur idl ini rs ws al"
    and "\<And>t. task_wf (ts' t) = task_wf (ts t)" "\<And>t. t_pid (ts' t) = t_pid (ts t)" "\<And>t. t_parent_task (ts' t) = t_parent_task (ts t)"
    and "\<And>t. t_status (ts' t) = TASK_HANGING \<Longrightarrow> t_status (ts t) = TASK_HANGING"
  shows "family ts' pg ps cur idl ini rs ws al"
  using assms(1,5) unfolding family_def assms(2-4) by blast

lemma tasks_ok_status:
  assumes ok: "tasks_ok s cur rs ws al" and t: "t \<notin> {cur, idle_task s}" "t_status (tasks s t) \<noteq> TASK_BLOCKED" and st: "v \<noteq> TASK_HANGING"
  shows "tasks_ok (s\<lparr>tasks := (tasks s)(t := (tasks s t)\<lparr>t_status := v\<rparr>)\<rparr>) cur rs ws al"
proof -
  let ?s = "s\<lparr>tasks := (tasks s)(t := (tasks s t)\<lparr>t_status := v\<rparr>)\<rparr>"
  note D = tasks_okD[OF ok]
  have sok: "sched_ok s cur rs ws" using D(1) by (simp add: run_ok_def)
  have "t \<notin> set (ws p)" for p using sched_okD(10)[OF sok, of t p] t(2) by auto
  then have "run_ok ?s cur rs ws" by (intro run_ok_status[OF D(1)]) (use t(1) in auto)
  moreover have "family (tasks ?s) (pages KernelPool s) (pids s) cur (idle_task s) (init_proc s) rs ws al"
    by (rule family_mono[OF D(9)]) (use st in \<open>auto simp: task_wf_def split: if_splits\<close>)
  ultimately show ?thesis using ok by (simp add: tasks_ok_def nq_def pages_def pids_def)
qed

lemma tasks_ok_free_page:
  assumes ok: "tasks_ok s cur rs ws al" and a: "a \<in> pages KernelPool s" "a \<notin> set al"
  shows "\<exists>b. free_pages a 1 s = Ret () (set_btmp KernelPool b s) \<and> tasks_ok (set_btmp KernelPool b s) cur rs ws al \<and>
    pages KernelPool (set_btmp KernelPool b s) = pages KernelPool s - {a}"
proof -
  obtain b where b: "free_pages a 1 s = Ret () (set_btmp KernelPool b s)" "pool_ok KernelPool (set_btmp KernelPool b s)"
      "pages KernelPool (set_btmp KernelPool b s) = pages KernelPool s - {a}"
    using free_pages_one[OF tasks_okD(3)[OF ok] a(1)] by blast
  have same: "pid_bitmap (set_btmp KernelPool b s) = pid_bitmap s" "pid_start (set_btmp KernelPool b s) = pid_start s"
    "init_proc (set_btmp KernelPool b s) = init_proc s" "kernel_mem_pool (set_btmp KernelPool b s) = (kernel_mem_pool s)\<lparr>pool_bitmap := b\<rparr>"
    by (simp_all add: set_btmp_def)
  have "family (tasks s) (pages KernelPool s - {a}) (pids s) cur (idle_task s) (init_proc s) rs ws al"
    using tasks_okD(9)[OF ok] a(2) by (auto simp: family_def)
  then have "tasks_ok (set_btmp KernelPool b s) cur rs ws al"
    using ok b(2,3) same by (simp add: tasks_ok_def pool_ok_def nq_def pids_def)
  then show ?thesis using b by blast
qed

lemma tasks_ok_remove:
  assumes ok: "tasks_ok s cur rs ws al" and c: "c \<in> set al" "c \<notin> {cur, idle_task s, init_proc s} \<union> set rs" "t_status (tasks s c) \<noteq> TASK_BLOCKED"
    and kids: "\<forall>t \<in> set al. t \<noteq> c \<longrightarrow> t_parent_task (tasks s t) \<noteq> c"
  shows "\<exists>h. k_list_remove (AllListTag c) s = Ret () (s\<lparr>links := h\<rparr>) \<and> tasks_ok (s\<lparr>links := h\<rparr>) cur rs ws (remove1 c al)"
proof -
  note D = tasks_okD[OF ok]
  have sok: "sched_ok s cur rs ws" using D(1) by (simp add: run_ok_def)
  have nw: "c \<notin> set (ws p)" for p using sched_okD(10)[OF sok, of c p] c(3) by auto
  obtain h where h: "list_remove (links s) (Some (AllListTag c)) = Inr h" "nq AllListTag (s\<lparr>links := h\<rparr>) AllTasks (remove1 c al)"
      "agree_off (nels AllListTag AllTasks (set al)) (links s) h"
    using nq_remove[OF D(2) c(1)] by blast
  have set: "set (remove1 c al) = set al - {c}" using nq_distinct[OF D(2)] by simp
  have "family (tasks s) (pages KernelPool s) (pids s) cur (idle_task s) (init_proc s) rs ws (remove1 c al)"
    unfolding family_def set
  proof (intro conjI)
    show "inj_on (\<lambda>t. t_pid (tasks s t)) (set al - {c})" using D(9) by (auto simp: family_def inj_on_def)
    show "\<forall>p. set (ws p) \<subseteq> set al - {c}" using D(9) nw by (auto simp: family_def)
  qed (use D(9) c(2) kids in \<open>auto simp: family_def\<close>)
  then have "tasks_ok (s\<lparr>links := h\<rparr>) cur rs ws (remove1 c al)"
    using ok run_ok_all_tasks[OF D(1) h(3)] h(2) by (simp add: tasks_ok_def pages_def pids_def)
  moreover have "k_list_remove (AllListTag c) s = Ret () (s\<lparr>links := h\<rparr>)" using h(1) by (simp add: k_list_remove_def on_field'_def)
  ultimately show ?thesis by blast
qed

lemma release_pid_ok:
  assumes "pid_ok s" "x \<in> pids s"
  shows "\<exists>b. release_pid x s = Ret () (s\<lparr>pid_bitmap := b\<rparr>) \<and> bitmap_wf b \<and> nbits b = nbits (pid_bitmap s) \<and>
    pids (s\<lparr>pid_bitmap := b\<rparr>) = pids s - {x}"
proof -
  obtain i where i: "i \<in> used (pid_bitmap s)" "x = int i + pid_start s" using assms(2) by (auto simp: pids_def)
  have lt: "i < nbits (pid_bitmap s)" "i < 2 ^ 64" using i(1) assms(1) by (auto simp: pid_ok_def in_used)
  have idx: "unat (word_of_int (x - pid_start s) :: u64) = i" using i(2) lt(2) by (simp add: unat_of_nat take_bit_eq_mod)
  obtain b where b: "bitmap_set (pid_bitmap s) i 0 = Inr b" "used b = used (pid_bitmap s) - {i}" "bitmap_wf b" "nbits b = nbits (pid_bitmap s)"
    using bm.release_taken[OF _ lt(1)] assms(1) by (auto simp: pid_ok_def)
  have "release_pid x s = Ret () (s\<lparr>pid_bitmap := b\<rparr>)" using release_pid_eq[OF _ b(1) idx] assms(1) by (simp add: pid_ok_def)
  moreover have "(\<lambda>i. int i + pid_start s) ` (used (pid_bitmap s) - {i}) = pids s - {x}" using i(2) by (auto simp: pids_def)
  ultimately show ?thesis using b by (intro exI[of _ b]) (simp add: pids_def)
qed

lemma tasks_ok_release_pid:
  assumes ok: "tasks_ok s cur rs ws al" and x: "x \<in> pids s" "x \<notin> (\<lambda>t. t_pid (tasks s t)) ` set al"
  shows "\<exists>b. release_pid x s = Ret () (s\<lparr>pid_bitmap := b\<rparr>) \<and> tasks_ok (s\<lparr>pid_bitmap := b\<rparr>) cur rs ws al \<and>
    pids (s\<lparr>pid_bitmap := b\<rparr>) = pids s - {x}"
proof -
  obtain b where b: "release_pid x s = Ret () (s\<lparr>pid_bitmap := b\<rparr>)" "bitmap_wf b" "nbits b = nbits (pid_bitmap s)"
      "pids (s\<lparr>pid_bitmap := b\<rparr>) = pids s - {x}"
    using release_pid_ok[OF tasks_okD(4)[OF ok] x(1)] by blast
  have "family (tasks s) (pages KernelPool s) (pids s - {x}) cur (idle_task s) (init_proc s) rs ws al"
    using tasks_okD(9)[OF ok] x(2) by (auto simp: family_def)
  then have "tasks_ok (s\<lparr>pid_bitmap := b\<rparr>) cur rs ws al" using ok b(2-4) by (simp add: tasks_ok_def nq_def pages_def)
  then show ?thesis using b by blast
qed

section \<open>Waiting\<close>

definition own_space :: "'z kstate_scheme \<Rightarrow> u64 \<Rightarrow> u64 \<Rightarrow> u64 list \<Rightarrow> bool" where
  "own_space s cur c al \<longleftrightarrow> t_pml4 (tasks s c) = t_pml4 (tasks s cur) \<or> t_pml4 (tasks s c) \<in> pages KernelPool s - set al"

text \<open>The pages a reaped task gives back: its structure and, if it has an address space of its own, the table of it.\<close>

definition pages_of :: "'z kstate_scheme \<Rightarrow> u64 \<Rightarrow> u64 \<Rightarrow> u64 set" where
  "pages_of s cur c = {c} \<union> (if t_pml4 (tasks s c) = t_pml4 (tasks s cur) then {} else {t_pml4 (tasks s c)})"

lemma reap_ok:
  assumes ok: "tasks_ok s cur rs ws al" and c: "c \<in> set al" "t_status (tasks s c) = TASK_HANGING" and own: "own_space s cur c al"
  shows "\<exists>s'. reap cur c s = Ret (t_pid (tasks s c), t_exit_status (tasks s c)) s' \<and> tasks_ok s' cur rs ws (remove1 c al) \<and>
    pages KernelPool s' = pages KernelPool s - pages_of s cur c \<and> pids s' = pids s - {t_pid (tasks s c)} \<and>
    tasks s' = (tasks s)(c := (tasks s c)\<lparr>t_status := TASK_DIED\<rparr>)"
proof -
  note D = tasks_okD[OF ok]
  have nc: "c \<notin> {cur, idle_task s, init_proc s} \<union> set rs" using D(1,9) c by (auto simp: run_ok_def family_def)
  define s1 where "s1 = s\<lparr>tasks := (tasks s)(c := (tasks s c)\<lparr>t_status := TASK_DIED\<rparr>)\<rparr>"
  have s1: "tasks_ok s1 cur rs ws al" unfolding s1_def by (rule tasks_ok_status[OF ok]) (use nc c in auto)
  have st1: "idle_task s1 = idle_task s" "init_proc s1 = init_proc s" "pages KernelPool s1 = pages KernelPool s" "pids s1 = pids s"
    "tasks s1 = (tasks s)(c := (tasks s c)\<lparr>t_status := TASK_DIED\<rparr>)"
    by (simp_all add: s1_def pages_def pids_def)
  have "\<exists>b. (if t_pml4 (tasks s cur) \<noteq> t_pml4 (tasks s c) then free_pages (t_pml4 (tasks s c)) 1 else ret ()) s1 =
      Ret () (set_btmp KernelPool b s1) \<and> tasks_ok (set_btmp KernelPool b s1) cur rs ws al \<and>
      pages KernelPool (set_btmp KernelPool b s1) = pages KernelPool s - (pages_of s cur c - {c})"
  proof (cases "t_pml4 (tasks s c) = t_pml4 (tasks s cur)")
    case True
    then show ?thesis using s1 st1 by (intro exI[of _ "btmp_of KernelPool s1"]) (simp add: ret_def pages_of_def del: pool_of.simps)
  next
    case False
    then have "t_pml4 (tasks s c) \<in> pages KernelPool s1" "t_pml4 (tasks s c) \<notin> set al" using own st1 by (auto simp: own_space_def)
    moreover have "pages_of s cur c - {c} = {t_pml4 (tasks s c)}" using calculation c(1) False by (auto simp: pages_of_def)
    ultimately show ?thesis using tasks_ok_free_page[OF s1, of "t_pml4 (tasks s c)"] False st1(3) by simp
  qed
  then obtain b where b: "(if t_pml4 (tasks s cur) \<noteq> t_pml4 (tasks s c) then free_pages (t_pml4 (tasks s c)) 1 else ret ()) s1 =
      Ret () (set_btmp KernelPool b s1)" "tasks_ok (set_btmp KernelPool b s1) cur rs ws al"
      "pages KernelPool (set_btmp KernelPool b s1) = pages KernelPool s - (pages_of s cur c - {c})" by blast
  define s2 where "s2 = set_btmp KernelPool b s1"
  note b = b[folded s2_def]
  have st2: "tasks s2 = tasks s1" "idle_task s2 = idle_task s" "init_proc s2 = init_proc s" "pids s2 = pids s"
    using st1 by (simp_all add: s2_def set_btmp_def pids_def)
  have "tq s2 ReadyTasks rs" using tasks_okD(1)[OF b(2)] by (simp add: run_ok_def sched_ok_def)
  then have f: "k_elem_find ReadyTasks (GeneralTag c) s2 = Ret False s2" using tq_find[of s2 ReadyTasks rs c] nc by (simp add: k_elem_find_def of_res_def ret_def)
  have kids: "\<forall>t \<in> set al. t \<noteq> c \<longrightarrow> t_parent_task (tasks s2 t) \<noteq> c"
    using D(9) c st1 st2 by (auto simp: family_def)
  obtain h where h: "k_list_remove (AllListTag c) s2 = Ret () (s2\<lparr>links := h\<rparr>)" "tasks_ok (s2\<lparr>links := h\<rparr>) cur rs ws (remove1 c al)"
    using tasks_ok_remove[OF b(2) c(1) _ _ kids] nc st1 st2 by auto
  define s3 where "s3 = s2\<lparr>links := h\<rparr>"
  note h = h[folded s3_def]
  have st3: "tasks s3 = tasks s1" "pids s3 = pids s" "pages KernelPool s3 = pages KernelPool s2"
    using st2 by (simp_all add: s3_def pids_def pages_def)
  have rm: "set (remove1 c al) = set al - {c}" using nq_distinct[OF D(2)] by simp
  have "t_pid (tasks s c) \<in> pids s3" "t_pid (tasks s c) \<notin> (\<lambda>t. t_pid (tasks s3 t)) ` set (remove1 c al)"
    using D(9) c(1) st1 st3 rm by (auto simp: family_def inj_on_def)
  then obtain b3 where b3: "release_pid (t_pid (tasks s c)) s3 = Ret () (s3\<lparr>pid_bitmap := b3\<rparr>)"
      "tasks_ok (s3\<lparr>pid_bitmap := b3\<rparr>) cur rs ws (remove1 c al)" "pids (s3\<lparr>pid_bitmap := b3\<rparr>) = pids s3 - {t_pid (tasks s c)}"
    using tasks_ok_release_pid[OF h(2)] by blast
  define s4 where "s4 = s3\<lparr>pid_bitmap := b3\<rparr>"
  note b3 = b3[folded s4_def]
  have st4: "tasks s4 = tasks s1" "pages KernelPool s4 = pages KernelPool s2" using st3 by (simp_all add: s4_def pages_def)
  have "c \<in> pages KernelPool s4" "c \<notin> set (remove1 c al)" using D(9) c(1) rm b(3) st4 by (auto simp: family_def pages_of_def)
  then obtain b4 where b4: "free_pages c 1 s4 = Ret () (set_btmp KernelPool b4 s4)" "tasks_ok (set_btmp KernelPool b4 s4) cur rs ws (remove1 c al)"
      "pages KernelPool (set_btmp KernelPool b4 s4) = pages KernelPool s4 - {c}"
    using tasks_ok_free_page[OF b3(2)] by blast
  have cur: "tasks s1 cur = tasks s cur" using nc st1 by auto
  have s0: "set_status c TASK_DIED s = Ret () s1" by (simp add: set_status_def upd_task_def kput_def s1_def)
  have "reap cur c s = Ret (t_pid (tasks s c), t_exit_status (tasks s c)) (set_btmp KernelPool b4 s4)"
    unfolding reap_def get_task_def using s0 b(1) h(1) b3(1) b4(1) cur by (simp add: ret_def bnd_run(1)[of "k_elem_find ReadyTasks (GeneralTag c)", OF f])
  moreover have "pages KernelPool (set_btmp KernelPool b4 s4) = pages KernelPool s - pages_of s cur c"
    using b4(3) st4(2) b(3) by (auto simp: pages_of_def)
  moreover have "pids (set_btmp KernelPool b4 s4) = pids s - {t_pid (tasks s c)}" using b3(3) st3(2) by (simp add: pids_def set_btmp_def)
  ultimately show ?thesis using b4(2) st4(1) st1(5) by auto
qed

lemma candidates_in:
  assumes "candidates s rs = nxt # qs"
  shows "nxt \<in> {idle_task s} \<union> set rs" "set qs \<subseteq> set rs"
  using assms by (auto simp: candidates_def split: if_splits)

lemma tasks_ok_dispatched:
  assumes ok: "tasks_ok s cur rs ws al" and q: "candidates s rs = nxt # qs"
    and h: "run_ok (dispatched (leaving s cur v) cur nxt h) nxt qs ws" "agree_off (tags ReadyTasks (idle_task s # rs)) (links s) h"
    and hang: "v = TASK_HANGING \<Longrightarrow> cur \<notin> {idle_task s, init_proc s} \<and> (\<forall>t \<in> set al. t_parent_task (tasks s t) \<noteq> cur)"
  shows "tasks_ok (dispatched (leaving s cur v) cur nxt h) nxt qs ws al"
proof -
  let ?s = "dispatched (leaving s cur v) cur nxt h"
  note D = tasks_okD[OF ok]
  have nr: "cur \<notin> set rs" using D(1) by (simp add: run_ok_def)
  have ts: "task_wf (tasks ?s t) = task_wf (tasks s t)" "t_pid (tasks ?s t) = t_pid (tasks s t)" "t_parent_task (tasks ?s t) = t_parent_task (tasks s t)"
    "t_status (tasks ?s t) = (if t = nxt then TASK_RUNNING else if t = cur then v else t_status (tasks s t))" for t
    by (simp_all add: dispatched_def leaving_def Let_def task_wf_def)
  have same: "idle_task ?s = idle_task s" "init_proc ?s = init_proc s" "kernel_mem_pool ?s = kernel_mem_pool s" "pid_bitmap ?s = pid_bitmap s"
      "pid_start ?s = pid_start s" "sema_value ?s = sema_value s"
    by (simp_all add: dispatched_def leaving_def Let_def)
  then have same': "pages KernelPool ?s = pages KernelPool s" "pids ?s = pids s" by (simp_all add: pages_def pids_def)
  have "nq AllListTag ?s AllTasks al"
    using nq_ready[OF D(2), of "idle_task s # rs" h] h(2) by (simp add: nq_def)
  moreover have "family (tasks ?s) (pages KernelPool s) (pids s) nxt (idle_task s) (init_proc s) qs ws al"
    unfolding family_def ts
  proof (intro conjI ballI)
    fix t assume t: "t \<in> {idle_task s, init_proc s} \<union> set qs"
    then have "t_status (tasks s t) \<noteq> TASK_HANGING" using D(9) candidates_in[OF q] by (auto simp: family_def)
    then show "(if t = nxt then TASK_RUNNING else if t = cur then v else t_status (tasks s t)) \<noteq> TASK_HANGING"
      using hang t nr candidates_in[OF q] by auto
  next
    fix t assume "t \<in> set al"
    then show "(if t_parent_task (tasks s t) = nxt then TASK_RUNNING else if t_parent_task (tasks s t) = cur then v
        else t_status (tasks s (t_parent_task (tasks s t)))) \<noteq> TASK_HANGING"
      using D(9) hang by (auto simp: family_def)
  qed (use D(9) candidates_in[OF q] in \<open>auto simp: family_def\<close>)
  ultimately show ?thesis using ok h(1) same same' by (simp add: tasks_ok_def)
qed

definition children :: "'z kstate_scheme \<Rightarrow> u64 \<Rightarrow> u64 list \<Rightarrow> u64 list" where
  "children s p al = filter (\<lambda>t. t_parent_task (tasks s t) = p) al"

definition hanging :: "'z kstate_scheme \<Rightarrow> u64 \<Rightarrow> u64 list \<Rightarrow> u64 list" where
  "hanging s p al = filter (\<lambda>t. t_status (tasks s t) = TASK_HANGING) (children s p al)"

lemma find_map: "List.find f (map g xs) = map_option g (List.find (f \<circ> g) xs)"
  by (induction xs) auto

lemma find_filter: "List.find P xs = (case filter P xs of [] \<Rightarrow> None | x # _ \<Rightarrow> Some x)"
  by (induction xs) auto

lemma traversal_all:
  assumes "nq AllListTag s AllTasks al"
  shows "k_list_traversal AllTasks (find_hanging_child (tasks s) p) s =
      Ret (case hanging s p al of [] \<Rightarrow> None | c # _ \<Rightarrow> Some (AllListTag c)) s"
    "k_list_traversal AllTasks (find_child (tasks s) p) s = Ret (case children s p al of [] \<Rightarrow> None | c # _ \<Rightarrow> Some (AllListTag c)) s"
proof -
  have d: "list_traversal (links s) (lst_of AllTasks) f = Inr (map_option AllListTag (List.find (f \<circ> AllListTag) al))" for f
    using assms list_traversal_dlist[of "links s" "lst_of AllTasks" "map AllListTag al" f] by (simp add: nq_def find_map)
  have "find_hanging_child (tasks s) p \<circ> AllListTag = (\<lambda>t. t_parent_task (tasks s t) = p \<and> t_status (tasks s t) = TASK_HANGING)"
    "find_child (tasks s) p \<circ> AllListTag = (\<lambda>t. t_parent_task (tasks s t) = p)"
    by (auto simp: find_hanging_child_def find_child_def)
  then show "k_list_traversal AllTasks (find_hanging_child (tasks s) p) s =
      Ret (case hanging s p al of [] \<Rightarrow> None | c # _ \<Rightarrow> Some (AllListTag c)) s"
    "k_list_traversal AllTasks (find_child (tasks s) p) s = Ret (case children s p al of [] \<Rightarrow> None | c # _ \<Rightarrow> Some (AllListTag c)) s"
    by (auto simp: k_list_traversal_def d of_res_def ret_def find_filter hanging_def children_def conj_commute split: list.splits)
qed

lemma sys_wait_loop_reaps:
  assumes ok: "tasks_ok s cur rs ws al" and c: "hanging s cur al = c # cs" and own: "own_space s cur c al"
  shows "\<exists>s'. sys_wait_loop (Suc n) cur s = Ret (t_pid (tasks s c), Some (t_exit_status (tasks s c))) s' \<and>
    tasks_ok s' cur rs ws (remove1 c al) \<and> pages KernelPool s' = pages KernelPool s - pages_of s cur c \<and>
    pids s' = pids s - {t_pid (tasks s c)} \<and> tasks s' = (tasks s)(c := (tasks s c)\<lparr>t_status := TASK_DIED\<rparr>)"
proof -
  have "c \<in> set (hanging s cur al)" using c by simp
  then have "c \<in> set al" "t_status (tasks s c) = TASK_HANGING" by (auto simp: hanging_def children_def)
  then obtain s' where s': "reap cur c s = Ret (t_pid (tasks s c), t_exit_status (tasks s c)) s'" "tasks_ok s' cur rs ws (remove1 c al)"
      "pages KernelPool s' = pages KernelPool s - pages_of s cur c" "pids s' = pids s - {t_pid (tasks s c)}"
      "tasks s' = (tasks s)(c := (tasks s c)\<lparr>t_status := TASK_DIED\<rparr>)"
    using reap_ok[OF ok _ _ own] by blast
  have "sys_wait_loop (Suc n) cur s = Ret (t_pid (tasks s c), Some (t_exit_status (tasks s c))) s'"
    using traversal_all(1)[OF tasks_okD(2)[OF ok], of cur] c s'(1) by (simp add: ret_def)
  then show ?thesis using s'(2-5) by blast
qed

lemma sys_wait_loop_alone:
  assumes "tasks_ok s cur rs ws al" "children s cur al = []"
  shows "sys_wait_loop (Suc n) cur s = Ret (-1, None) s"
  using traversal_all[OF tasks_okD(2)[OF assms(1)], of cur] assms(2) by (simp add: hanging_def ret_def)

lemma sys_wait_loop_sleeps:
  assumes ok: "tasks_ok s cur rs ws al" and c: "hanging s cur al = []" "children s cur al \<noteq> []" and "cur \<noteq> idle_task s"
    and q: "candidates s rs = nxt # qs"
  shows "\<exists>s'. sys_wait_loop (Suc n) cur s = Sleep s' \<and> tasks_ok s' nxt qs ws al \<and> t_status (tasks s' cur) = TASK_WAITING \<and>
    (\<forall>t. t_parent_task (tasks s' t) = t_parent_task (tasks s t) \<and> t_pid (tasks s' t) = t_pid (tasks s t))"
proof -
  have r: "run_ok s cur rs ws" using tasks_okD(1)[OF ok] .
  have ne: "cur \<noteq> nxt" using candidates_in[OF q] r assms(4) by (auto simp: run_ok_def)
  have b: "blockable TASK_WAITING" by (simp add: blockable_def)
  obtain h where h: "task_block TASK_WAITING s = Sleep (dispatched (leaving s cur TASK_WAITING) cur nxt h)"
      "run_ok (dispatched (leaving s cur TASK_WAITING) cur nxt h) nxt qs ws" "agree_off (tags ReadyTasks (idle_task s # rs)) (links s) h"
    using task_block_ok[OF b sched_ok_leaving[OF r b] q ne] by blast
  have "tasks_ok (dispatched (leaving s cur TASK_WAITING) cur nxt h) nxt qs ws al" by (rule tasks_ok_dispatched[OF ok q h(2,3)]) simp
  moreover have "sys_wait_loop (Suc n) cur s = Sleep (dispatched (leaving s cur TASK_WAITING) cur nxt h)"
    using traversal_all[OF tasks_okD(2)[OF ok], of cur] c h(1) by (auto split: list.splits)
  ultimately show ?thesis using ne
    by (intro exI[of _ "dispatched (leaving s cur TASK_WAITING) cur nxt h"]) (simp add: leaving_def)
qed

section \<open>Ending a task\<close>

lemma adopt_from_linked:
  assumes "linked h (x # ys @ [TailOf AllTasks])" "TailOf AllTasks \<notin> set ys"
  shows "adopt_from h ini task (e_next (h x)) ts = Some (Inr (fold (init_adopt_a_child ini task) ys ts))"
  using assms
proof (induction ys arbitrary: x ts)
  case Nil
  then show ?case by (simp add: adopt_from.simps)
next
  case (Cons y ys)
  then show ?case by (auto simp: adopt_from.simps[of h ini task "Some y"])
qed

text \<open>All children of \<open>task\<close> in the list get \<open>ini\<close> as their parent.\<close>

definition adopted :: "u64 \<Rightarrow> u64 \<Rightarrow> u64 set \<Rightarrow> (u64 \<Rightarrow> task_struct) \<Rightarrow> u64 \<Rightarrow> task_struct" where
  "adopted ini task A ts = (\<lambda>t. if t \<in> A \<and> t_parent_task (ts t) = task then (ts t)\<lparr>t_parent_task := ini\<rparr> else ts t)"

lemma fold_adopt: "distinct al \<Longrightarrow> fold (init_adopt_a_child ini task) (map AllListTag al) ts = adopted ini task (set al) ts"
proof (induction al arbitrary: ts)
  case (Cons t al)
  then have "fold (init_adopt_a_child ini task) (map AllListTag (t # al)) ts = adopted ini task (set al) (init_adopt_a_child ini task (AllListTag t) ts)" by simp
  also have "\<dots> = adopted ini task (set (t # al)) ts" using Cons.prems by (auto simp: adopted_def init_adopt_a_child_def fun_eq_iff)
  finally show ?case .
qed (simp add: adopted_def)

lemma adopt_children_ok:
  assumes "nq AllListTag s AllTasks al"
  shows "adopt_children task s = Ret () (s\<lparr>tasks := adopted (init_proc s) task (set al) (tasks s)\<rparr>)"
proof -
  have d: "linked (links s) (HeadOf AllTasks # map AllListTag al @ [TailOf AllTasks])" using assms by (simp add: nq_def dlist_def)
  have "TailOf AllTasks \<notin> set (map AllListTag al)" by auto
  from adopt_from_linked[OF d this] show ?thesis
    using nq_distinct[OF assms] by (simp add: adopt_children_def fold_adopt)
qed

lemma family_adopted:
  assumes "family ts pg ps cur idl ini rs ws al"
  shows "family (adopted ini task (set al) ts) pg ps cur idl ini rs ws al"
proof -
  have "task_wf (adopted ini task (set al) ts t) = task_wf (ts t)" "t_pid (adopted ini task (set al) ts t) = t_pid (ts t)"
      "t_status (adopted ini task (set al) ts t) = t_status (ts t)"
      "t_parent_task (adopted ini task (set al) ts t) = (if t \<in> set al \<and> t_parent_task (ts t) = task then ini else t_parent_task (ts t))" for t
    by (simp_all add: adopted_def task_wf_def)
  moreover have "1 < t_pid (ts t) \<longrightarrow> ini \<noteq> t" for t using assms by (auto simp: family_def)
  ultimately show ?thesis using assms unfolding family_def by simp
qed

lemma no_resources:
  fixes s :: "('h, 'z) mmstate_scheme"
  assumes "t_fd_table (tasks s t) = replicate MAX_FILES_OPEN_PER_PROC (-1)" "heap_start (t_addr_space (tasks s t)) = 0"
  shows "release_prog_resource M fr t s = Ret () s"
proof -
  have "close_fd t i s = Ret () s" if "i < MAX_FILES_OPEN_PER_PROC" for i
    using assms(1) that by (simp add: close_fd_def get_fd_def get_task_def bnd_assoc ret_def)
  then have "\<exists>u. for_range 0 MAX_FILES_OPEN_PER_PROC (close_fd t) s = Ret () u \<and> u = s"
    by (intro for_range_inv[where P = "\<lambda>_ u. u = s"]) auto
  then show ?thesis using assms(2) by (simp add: release_prog_resource_def get_task_def ret_def)
qed

text \<open>The state in which a task that has ended leaves the processor.\<close>

definition ended :: "'z kstate_scheme \<Rightarrow> u64 \<Rightarrow> int \<Rightarrow> u64 list \<Rightarrow> 'z kstate_scheme" where
  "ended s cur v al = s\<lparr>tasks := adopted (init_proc s) cur (set al) ((tasks s)(cur := (tasks s cur)\<lparr>t_exit_status := v\<rparr>))\<rparr>"

lemma tasks_ended:
  "t_status (tasks (ended s cur v al) t) = t_status (tasks s t)" "t_pid (tasks (ended s cur v al) t) = t_pid (tasks s t)"
  "t_pml4 (tasks (ended s cur v al) t) = t_pml4 (tasks s t)" "t_fd_table (tasks (ended s cur v al) t) = t_fd_table (tasks s t)"
  "t_addr_space (tasks (ended s cur v al) t) = t_addr_space (tasks s t)" "task_wf (tasks (ended s cur v al) t) = task_wf (tasks s t)"
  "t_exit_status (tasks (ended s cur v al) cur) = v"
  "links (ended s cur v al) = links s" "idle_task (ended s cur v al) = idle_task s" "init_proc (ended s cur v al) = init_proc s"
  "kernel_mem_pool (ended s cur v al) = kernel_mem_pool s" "pid_bitmap (ended s cur v al) = pid_bitmap s" "ist2 (ended s cur v al) = ist2 s"
  "pid_start (ended s cur v al) = pid_start s" "sema_value (ended s cur v al) = sema_value s"
  by (simp_all add: ended_def adopted_def task_wf_def)

lemma parent_ended:
  "t_parent_task (tasks (ended s cur v al) t) = (if t \<in> set al \<and> t_parent_task (tasks s t) = cur then init_proc s else t_parent_task (tasks s t))"
  by (auto simp: ended_def adopted_def)

lemma tasks_ok_ended:
  assumes ok: "tasks_ok s cur rs ws al"
  shows "tasks_ok (ended s cur v al) cur rs ws al"
proof -
  note D = tasks_okD[OF ok]
  have "run_ok (ended s cur v al) cur rs ws = run_ok s cur rs ws" by (rule run_ok_cong) (simp_all add: tasks_ended)
  moreover have "family (tasks (ended s cur v al)) (pages KernelPool s) (pids s) cur (idle_task s) (init_proc s) rs ws al"
  proof -
    have "family ((tasks s)(cur := (tasks s cur)\<lparr>t_exit_status := v\<rparr>)) (pages KernelPool s) (pids s) cur (idle_task s) (init_proc s) rs ws al"
      by (rule family_mono[OF D(9)]) (auto simp: task_wf_def split: if_splits)
    from family_adopted[OF this] show ?thesis by (simp add: ended_def)
  qed
  ultimately show ?thesis using ok by (simp add: tasks_ok_def tasks_ended nq_def pages_def pids_def)
qed

lemma sys_exit_until:
  fixes s :: "('h, 'z) mmstate_scheme"
  assumes ok: "tasks_ok s cur rs ws al" and "t_pid (tasks s cur) > 1"
    and "t_fd_table (tasks s cur) = replicate MAX_FILES_OPEN_PER_PROC (-1)" "heap_start (t_addr_space (tasks s cur)) = 0"
  shows "sys_exit M fr v s = bnd (if t_status (tasks s (t_parent_task (tasks s cur))) = TASK_WAITING then task_unblock (t_parent_task (tasks s cur)) else ret ())
    (\<lambda>_. task_block TASK_HANGING) (ended s cur v al)"
proof -
  note D = tasks_okD[OF ok]
  have sok: "sched_ok s cur rs ws" using D(1) by (simp add: run_ok_def)
  let ?s1 = "s\<lparr>tasks := (tasks s)(cur := (tasks s cur)\<lparr>t_exit_status := v\<rparr>)\<rparr>"
  have a: "adopt_children cur ?s1 = Ret () (ended s cur v al)"
    using adopt_children_ok[of ?s1 al cur] D(2) by (simp add: nq_def ended_def)
  have r: "release_prog_resource M fr cur (ended s cur v al) = Ret () (ended s cur v al)"
    by (rule no_resources) (use assms(3,4) in \<open>simp_all add: tasks_ended\<close>)
  have "t_parent_task (tasks s cur) \<noteq> cur" using D(9) assms(2) by (auto simp: family_def)
  then show ?thesis
    using running_task_eq[OF sched_okD(1,2)[OF sok]] assms(2) a r
    by (simp add: sys_exit_def upd_task_def get_task_def tasks_ended parent_ended)
qed

lemma tasks_ok_unblock:
  assumes ok: "tasks_ok s cur rs ws al" and p: "p \<in> set al" "t_status (tasks s p) = TASK_WAITING" "p \<notin> set rs"
  shows "\<exists>h. task_unblock p s = Ret () (s\<lparr>links := h\<rparr>) \<and> tasks_ok (s\<lparr>links := h\<rparr>) cur (p # rs) ws al"
proof -
  note D = tasks_okD[OF ok]
  have sok: "sched_ok s cur rs ws" and cur: "t_status (tasks s cur) = TASK_RUNNING" using D(1) by (simp_all add: run_ok_def)
  have nw: "\<forall>q. p \<notin> set (ws q)" using sched_okD(10)[OF sok, of p] p(2) by auto
  obtain h where h: "task_unblock p s = Ret () (s\<lparr>links := h\<rparr>)" "tq (s\<lparr>links := h\<rparr>) ReadyTasks (p # rs)"
      "agree_off (tags ReadyTasks (p # rs)) (links s) h"
    using task_unblock_ok[OF sched_okD(5)[OF sok] p(3)] p(2) by (auto simp: blockable_def)
  have "pages KernelPool s \<subseteq> page_units KernelPool s" using used_bound[of "btmp_of KernelPool s"] by (auto simp: pages_def page_units_def)
  then have "p \<in> page_units KernelPool s" using D(9) p(1) by (auto simp: family_def)
  then have al: "aligned p" using pages_aligned[of KernelPool s p] D(7) by simp
  have "run_ok (s\<lparr>links := h\<rparr>) cur (p # rs) ws" by (rule run_ok_push[OF D(1) p(3) al nw _ h(2,3)]) (use cur p(2) in auto)
  moreover have "nq AllListTag (s\<lparr>links := h\<rparr>) AllTasks al" by (rule nq_ready[OF D(2) h(3)])
  moreover have "family (tasks s) (pages KernelPool s) (pids s) cur (idle_task s) (init_proc s) (p # rs) ws al"
    using D(9) p(1,2) by (auto simp: family_def)
  ultimately show ?thesis using ok h(1) by (auto simp: tasks_ok_def pages_def pids_def)
qed

lemma hang_ok:
  assumes ok: "tasks_ok s cur rs ws al" and "t_pid (tasks s cur) > 1" "\<forall>t \<in> set al. t_parent_task (tasks s t) \<noteq> cur"
    and q: "candidates s rs = nxt # qs"
  shows "\<exists>h. task_block TASK_HANGING s = Sleep (dispatched (leaving s cur TASK_HANGING) cur nxt h) \<and>
    tasks_ok (dispatched (leaving s cur TASK_HANGING) cur nxt h) nxt qs ws al \<and> cur \<noteq> nxt"
proof -
  note D = tasks_okD[OF ok]
  have nc: "cur \<notin> {idle_task s, init_proc s}" using D(9) assms(2) by (auto simp: family_def)
  then have ne: "cur \<noteq> nxt" using candidates_in[OF q] D(1) by (auto simp: run_ok_def)
  have b: "blockable TASK_HANGING" by (simp add: blockable_def)
  obtain h where h: "task_block TASK_HANGING s = Sleep (dispatched (leaving s cur TASK_HANGING) cur nxt h)"
      "run_ok (dispatched (leaving s cur TASK_HANGING) cur nxt h) nxt qs ws" "agree_off (tags ReadyTasks (idle_task s # rs)) (links s) h"
    using task_block_ok[OF b sched_ok_leaving[OF D(1) b] q ne] by blast
  have "tasks_ok (dispatched (leaving s cur TASK_HANGING) cur nxt h) nxt qs ws al"
    by (rule tasks_ok_dispatched[OF ok q h(2,3)]) (use nc assms(3) in simp)
  then show ?thesis using h(1) ne by blast
qed

lemma no_child_ended:
  assumes "tasks_ok s cur rs ws al" "t_pid (tasks s cur) > 1"
  shows "\<forall>t \<in> set al. t_parent_task (tasks (ended s cur v al) t) \<noteq> cur"
  using tasks_okD(9)[OF assms(1)] assms(2) by (auto simp: parent_ended family_def)

lemma sys_exit_unobserved:
  fixes s :: "('h, 'z) mmstate_scheme"
  assumes ok: "tasks_ok s cur rs ws al" and pid: "t_pid (tasks s cur) > 1"
    and res: "t_fd_table (tasks s cur) = replicate MAX_FILES_OPEN_PER_PROC (-1)" "heap_start (t_addr_space (tasks s cur)) = 0"
    and p: "t_status (tasks s (t_parent_task (tasks s cur))) \<noteq> TASK_WAITING" and q: "candidates s rs = nxt # qs"
  shows "\<exists>s'. sys_exit M fr v s = Sleep s' \<and> tasks_ok s' nxt qs ws al \<and> t_status (tasks s' cur) = TASK_HANGING \<and> t_exit_status (tasks s' cur) = v"
proof -
  let ?s = "ended s cur v al"
  have q': "candidates ?s rs = nxt # qs" using q by (auto simp: candidates_def tasks_ended split: if_splits)
  obtain h where h: "task_block TASK_HANGING ?s = Sleep (dispatched (leaving ?s cur TASK_HANGING) cur nxt h)"
      "tasks_ok (dispatched (leaving ?s cur TASK_HANGING) cur nxt h) nxt qs ws al" "cur \<noteq> nxt"
    using hang_ok[OF tasks_ok_ended[OF ok] _ no_child_ended[OF ok pid] q'] pid by (auto simp: tasks_ended)
  have "sys_exit M fr v s = Sleep (dispatched (leaving ?s cur TASK_HANGING) cur nxt h)"
    unfolding sys_exit_until[OF ok pid res] using p h(1) by simp
  moreover have "t_exit_status (tasks (dispatched (leaving ?s cur TASK_HANGING) cur nxt h) cur) = v"
    using h(3) tasks_ended(7) by (simp add: dispatched_def leaving_def Let_def)
  ultimately show ?thesis using h(2,3) by (intro exI[of _ "dispatched (leaving ?s cur TASK_HANGING) cur nxt h"]) simp
qed

lemma sys_exit_wakes:
  fixes s :: "('h, 'z) mmstate_scheme"
  assumes ok: "tasks_ok s cur rs ws al" and pid: "t_pid (tasks s cur) > 1"
    and res: "t_fd_table (tasks s cur) = replicate MAX_FILES_OPEN_PER_PROC (-1)" "heap_start (t_addr_space (tasks s cur)) = 0"
    and p: "p = t_parent_task (tasks s cur)" "t_status (tasks s p) = TASK_WAITING" "p \<notin> set rs"
  shows "\<exists>s'. sys_exit M fr v s = Sleep s' \<and> tasks_ok s' p rs ws al \<and> t_status (tasks s' cur) = TASK_HANGING \<and> t_exit_status (tasks s' cur) = v \<and>
    (\<forall>t. t \<notin> {cur, p} \<longrightarrow> t_status (tasks s' t) = t_status (tasks s t)) \<and> t_status (tasks s' p) = TASK_RUNNING \<and>
    (\<forall>t. t_parent_task (tasks s' t) = t_parent_task (tasks (ended s cur v al) t) \<and> t_pid (tasks s' t) = t_pid (tasks s t) \<and>
      t_pml4 (tasks s' t) = t_pml4 (tasks s t)) \<and> pages KernelPool s' = pages KernelPool s \<and> pids s' = pids s"
proof -
  let ?s = "ended s cur v al"
  have "cur \<in> set al" using tasks_okD(9)[OF ok] by (simp add: family_def)
  then have "p \<in> set al" using tasks_okD(9)[OF ok] p(1) by (auto simp: family_def)
  then obtain h1 where h1: "task_unblock p ?s = Ret () (?s\<lparr>links := h1\<rparr>)" "tasks_ok (?s\<lparr>links := h1\<rparr>) cur (p # rs) ws al"
    using tasks_ok_unblock[OF tasks_ok_ended[OF ok], of p v] p by (auto simp: tasks_ended)
  define s1 where "s1 = ?s\<lparr>links := h1\<rparr>"
  have ts1: "tasks s1 = tasks ?s" by (simp add: s1_def)
  have "candidates s1 (p # rs) = p # rs" by (simp add: candidates_def)
  then obtain h where h: "task_block TASK_HANGING s1 = Sleep (dispatched (leaving s1 cur TASK_HANGING) cur p h)"
      "tasks_ok (dispatched (leaving s1 cur TASK_HANGING) cur p h) p rs ws al" "cur \<noteq> p"
    using hang_ok[OF h1(2)[folded s1_def] _ _ ] no_child_ended[OF ok pid, of v] pid by (auto simp: ts1 tasks_ended)
  have "sys_exit M fr v s = Sleep (dispatched (leaving s1 cur TASK_HANGING) cur p h)"
    unfolding sys_exit_until[OF ok pid res] using p h(1) h1(1) by (simp add: s1_def)
  moreover have "t_exit_status (tasks (dispatched (leaving s1 cur TASK_HANGING) cur p h) cur) = v"
    using h(3) tasks_ended(7) by (simp add: dispatched_def leaving_def Let_def ts1)
  moreover have "t_parent_task (tasks (leaving s1 cur TASK_HANGING) t) = t_parent_task (tasks ?s t)"
      "t_pid (tasks (leaving s1 cur TASK_HANGING) t) = t_pid (tasks s t)" "t_pml4 (tasks (leaving s1 cur TASK_HANGING) t) = t_pml4 (tasks s t)" for t
    by (simp_all add: leaving_def ts1 tasks_ended)
  moreover have "pages KernelPool (dispatched (leaving s1 cur TASK_HANGING) cur p h) = pages KernelPool s"
      "pids (dispatched (leaving s1 cur TASK_HANGING) cur p h) = pids s"
    by (simp_all add: pages_def pids_def dispatched_def leaving_def Let_def s1_def tasks_ended)
  ultimately show ?thesis using h(2,3)
    by (intro exI[of _ "dispatched (leaving s1 cur TASK_HANGING) cur p h"]) (simp add: ts1 tasks_ended)
qed

lemma hanging_after:
  assumes "distinct al" "cur \<in> set al" "t_parent_task (tasks s' cur) = p" "t_status (tasks s' cur) = TASK_HANGING"
    and "\<And>t. t \<in> set al \<Longrightarrow> t_parent_task (tasks s' t) = p \<Longrightarrow> t_status (tasks s' t) = TASK_HANGING \<Longrightarrow> t = cur"
  shows "hanging s' p al = [cur]"
proof -
  have "hanging s' p al = filter (\<lambda>t. t = cur) al"
    using assms(3-5) unfolding hanging_def children_def filter_filter by (intro filter_cong) auto
  moreover have "filter (\<lambda>t. t = cur) al = [cur]" using assms(1,2) by (induction al) (auto simp: filter_empty_conv)
  ultimately show ?thesis by simp
qed

section \<open>A concrete family\<close>

text \<open>The idle task, the first process and a child of it that shares its address space, on the first three pages of the pool.\<close>

definition demo_links :: "elem heap" where
  "demo_links = empty_links
     (HeadOf ReadyTasks := \<lparr>e_prev = None, e_next = Some (GeneralTag 0xffff800000104000)\<rparr>,
      GeneralTag 0xffff800000104000 := \<lparr>e_prev = Some (HeadOf ReadyTasks), e_next = Some (TailOf ReadyTasks)\<rparr>,
      TailOf ReadyTasks := \<lparr>e_prev = Some (GeneralTag 0xffff800000104000), e_next = None\<rparr>,
      HeadOf AllTasks := \<lparr>e_prev = None, e_next = Some (AllListTag 0xffff800000104000)\<rparr>,
      AllListTag 0xffff800000104000 := \<lparr>e_prev = Some (HeadOf AllTasks), e_next = Some (AllListTag 0xffff800000105000)\<rparr>,
      AllListTag 0xffff800000105000 := \<lparr>e_prev = Some (AllListTag 0xffff800000104000), e_next = Some (AllListTag 0xffff800000106000)\<rparr>,
      AllListTag 0xffff800000106000 := \<lparr>e_prev = Some (AllListTag 0xffff800000105000), e_next = Some (TailOf AllTasks)\<rparr>,
      TailOf AllTasks := \<lparr>e_prev = Some (AllListTag 0xffff800000106000), e_next = None\<rparr>)"

definition demo_tasks :: "task_status \<Rightarrow> task_status \<Rightarrow> u64 \<Rightarrow> task_struct" where
  "demo_tasks a b t =
     (if t = 0xffff800000104000 then (demo_task TASK_READY 30)\<lparr>t_pid := 0, t_parent_task := t\<rparr>
      else if t = 0xffff800000105000 then (demo_task a 30)\<lparr>t_pid := 1, t_parent_task := t\<rparr>
      else (demo_task b 30)\<lparr>t_pid := 2, t_parent_task := 0xffff800000105000, t_exit_status := 7\<rparr>)"

definition demo_fam :: "u64 \<Rightarrow> task_status \<Rightarrow> task_status \<Rightarrow> ata_dev mmstate" where
  "demo_fam cur a b = demo_mm\<lparr>ist2 := cur + PG_SIZE, links := demo_links, tasks := demo_tasks a b,
     idle_task := 0xffff800000104000, init_proc := 0xffff800000105000, sema_value := \<lambda>_. 1, pid_bitmap := \<lparr>bytes_len = 1, bits = [7]\<rparr>, pid_start := 0,
     kernel_mem_pool := \<lparr>mp_start = 0xffff800000104000, pool_bitmap = \<lparr>bytes_len = 1, bits = [7]\<rparr>\<rparr>\<rparr>"

lemma demo_fam_simps [simp]:
  "ist2 (demo_fam cur a b) = cur + PG_SIZE" "links (demo_fam cur a b) = demo_links" "tasks (demo_fam cur a b) = demo_tasks a b"
  "idle_task (demo_fam cur a b) = 0xffff800000104000" "init_proc (demo_fam cur a b) = 0xffff800000105000" "sema_value (demo_fam cur a b) p = 1"
  "pid_bitmap (demo_fam cur a b) = \<lparr>bytes_len = 1, bits = [7]\<rparr>" "pid_start (demo_fam cur a b) = 0"
  "kernel_mem_pool (demo_fam cur a b) = \<lparr>mp_start = 0xffff800000104000, pool_bitmap = \<lparr>bytes_len = 1, bits = [7]\<rparr>\<rparr>"
  by (simp_all add: demo_fam_def)

abbreviation demo_al :: "u64 list" where
  "demo_al \<equiv> [0xffff800000104000, 0xffff800000105000, 0xffff800000106000]"

lemma demo_fam_used: "used \<lparr>bytes_len = Suc 0, bits = [7]\<rparr> = {0, 1, 2}"
  by (auto simp: used_list bit_at_def upt_rec)

lemma demo_pages: "pages KernelPool (demo_fam cur a b) = set demo_al" "pids (demo_fam cur a b) = {0, 1, 2}"
  by (simp_all add: pages_def pids_def demo_fam_used page_addr_def PG_SIZE_def)

lemma demo_fam_ok:
  assumes "cur = 0xffff800000105000 \<and> a = TASK_RUNNING \<or> cur = 0xffff800000106000 \<and> b = TASK_RUNNING" "a \<noteq> TASK_HANGING"
  shows "tasks_ok (demo_fam cur a b) cur [0xffff800000104000] (\<lambda>_. []) demo_al"
proof -
  let ?s = "demo_fam cur a b"
  have "tq ?s ReadyTasks [0xffff800000104000]" "tq ?s (Waiters p) []" "nq AllListTag ?s AllTasks demo_al" for p
    by (simp_all add: tq_def nq_def demo_links_def dlist_def empty_links_def)
  moreover have "family (demo_tasks a b) (set demo_al) {0, 1, 2} cur 0xffff800000104000 0xffff800000105000 [0xffff800000104000] (\<lambda>_. []) demo_al"
    using assms by (auto simp: family_def demo_tasks_def demo_task_def task_wf_def MAX_FILES_OPEN_PER_PROC_def inj_on_def)
  moreover have "run_ok ?s cur [0xffff800000104000] (\<lambda>_. [])"
    using assms calculation by (auto simp: run_ok_def sched_ok_def aligned_def demo_tasks_def demo_task_def)
  ultimately show ?thesis by (simp add: tasks_ok_def demo_pages bitmap_wf_def aligned_def)
qed

section \<open>Properties\<close>

text \<open>C5. Creating a task. In a state with the invariant of the task table, with a page and a pid left, \<^verbatim>\<open>create_task\<close> returns a page that was not in
  use, holding a well formed structure: 32 closed descriptors, an empty address space of four segments, the magic number, a pid above 1 that no task
  has, the running task as its parent and its page table; the saved frames lead through \<^verbatim>\<open>intr_exit\<close> to the entry point with the given stack and
  privilege. The task is the last of the ready list and of the list of all tasks, no other task changes, and the invariant holds again.\<close>

theorem create_task_well_formed:
  assumes "tasks_ok s cur rs ws al" "pages KernelPool s \<noteq> page_units KernelPool s" "pids s \<noteq> pid_units s"
  shows "\<exists>a pid s' T. create_task A stack entry args prio su s = Ret a s' \<and> a \<notin> pages KernelPool s \<and> pid > 1 \<and> pid \<notin> pids s \<and>
    tasks_ok s' cur (rs @ [a]) ws (al @ [a]) \<and> pages KernelPool s' = insert a (pages KernelPool s) \<and> pids s' = insert pid (pids s) \<and>
    tasks s' = (tasks s)(a := T) \<and> task_wf T \<and> t_pid T = pid \<and> t_parent_task T = cur \<and> t_pml4 T = t_pml4 (tasks s cur) \<and>
    t_status T = TASK_READY \<and> t_ticks T = prio \<and> t_fd_table T = replicate MAX_FILES_OPEN_PER_PROC (-1) \<and>
    t_rbp T = a + switch_rbp_off \<and> ss_rip (t_switch_stack T) = intr_exit A \<and> ss_rbp (t_switch_stack T) = a + PG_SIZE - sizeof_intr_stack + intr_rbp_off \<and>
    is_rip (t_intr_stack T) = entry \<and> is_rsp (t_intr_stack T) = stack \<and> is_rdi (t_intr_stack T) = args \<and>
    is_cs (t_intr_stack T) = (if su then SELECTOR_U_CODE else ucast SELECTOR_K_CODE)"
proof -
  obtain a pid s' where c: "create_task A stack entry args prio su s = Ret a s'" "a \<notin> pages KernelPool s" "pid > 1" "pid \<notin> pids s"
      "tasks_ok s' cur (rs @ [a]) ws (al @ [a])" "pages KernelPool s' = insert a (pages KernelPool s)" "pids s' = insert pid (pids s)"
      "tasks s' = (tasks s)(a := created A a pid cur (t_pml4 (tasks s cur)) stack entry args prio su (tasks s a))"
    using create_task_ok[OF assms] by blast
  show ?thesis
    using c created_wf[of A a pid cur "t_pml4 (tasks s cur)" stack entry args prio su "tasks s a"]
    by (intro exI[of _ a] exI[of _ pid] exI[of _ s'] exI[of _ "created A a pid cur (t_pml4 (tasks s cur)) stack entry args prio su (tasks s a)"] conjI)
      (simp_all add: created_def)
qed

theorem create_task_well_formed_witness:
  "\<exists>a s'. create_task \<lparr>intr_exit = 0x1500, system_ret = 0x1600, idle = 0x1700\<rparr> 0x9000 0x2000 5 30 True
      (demo_fam 0xffff800000105000 TASK_RUNNING TASK_BLOCKED) = Ret a s' \<and> t_pid (tasks s' a) \<notin> {0, 1, 2} \<and> a \<notin> set demo_al \<and>
    tasks_ok s' 0xffff800000105000 [0xffff800000104000, a] (\<lambda>_. []) (demo_al @ [a])"
proof -
  let ?s = "demo_fam 0xffff800000105000 TASK_RUNNING TASK_BLOCKED"
  have ok: "tasks_ok ?s 0xffff800000105000 [0xffff800000104000] (\<lambda>_. []) demo_al" by (rule demo_fam_ok) simp_all
  have "0xffff800000107000 \<in> page_units KernelPool ?s" "(3 :: int) \<in> pid_units ?s"
    unfolding page_units_def pid_units_def by (auto simp: page_addr_def PG_SIZE_def intro!: image_eqI[of _ _ 3])
  moreover have "0xffff800000107000 \<notin> pages KernelPool ?s" "(3 :: int) \<notin> pids ?s" by (simp_all add: demo_pages)
  ultimately have "pages KernelPool ?s \<noteq> page_units KernelPool ?s" "pids ?s \<noteq> pid_units ?s" by blast+
  from create_task_well_formed[OF ok this, of "\<lparr>intr_exit = 0x1500, system_ret = 0x1600, idle = 0x1700\<rparr>" "0x9000" "0x2000" 5 30 True]
  show ?thesis unfolding demo_pages by auto
qed

text \<open>C7. Waiting for a child. If a child of the running task has ended, \<^verbatim>\<open>sys_wait\<close> returns the pid and the status of the first of them in the list of
  all tasks, and gives back exactly its structure, its pid and, if it is not shared, its page table; all other tasks keep their structures and
  the invariant holds without it. If the task has no children the result is -1 and nothing changes. Otherwise the task sleeps as \<^verbatim>\<open>TASK_WAITING\<close> and the
  next ready task runs.\<close>

theorem sys_wait_reaps:
  assumes "tasks_ok s cur rs ws al" "cur \<noteq> idle_task s" "candidates s rs = nxt # qs"
    and "\<forall>c \<in> set (hanging s cur al). own_space s cur c al"
  shows "case hanging s cur al of
      c # _ \<Rightarrow> \<exists>s'. sys_wait s = Ret (t_pid (tasks s c), Some (t_exit_status (tasks s c))) s' \<and> tasks_ok s' cur rs ws (remove1 c al) \<and>
                 pages KernelPool s' = pages KernelPool s - pages_of s cur c \<and> pids s' = pids s - {t_pid (tasks s c)} \<and>
                 (\<forall>t. t \<noteq> c \<longrightarrow> tasks s' t = tasks s t)
    | [] \<Rightarrow> if children s cur al = [] then sys_wait s = Ret (-1, None) s
            else \<exists>s'. sys_wait s = Sleep s' \<and> tasks_ok s' nxt qs ws al \<and> t_status (tasks s' cur) = TASK_WAITING"
proof -
  have "sched_ok s cur rs ws" using tasks_okD(1)[OF assms(1)] by (simp add: run_ok_def)
  note run = running_task_eq[OF sched_okD(1,2)[OF this]]
  have w: "sys_wait s = sys_wait_loop (Suc (Suc 0)) cur s" using run by (simp add: sys_wait_def numeral_2_eq_2 del: sys_wait_loop.simps)
  show ?thesis
  proof (cases "hanging s cur al")
    case (Cons c cs)
    then show ?thesis using sys_wait_loop_reaps[OF assms(1) Cons, of "Suc 0"] assms(4) unfolding w by (auto simp del: sys_wait_loop.simps)
  next
    case Nil
    then show ?thesis
      using sys_wait_loop_alone[OF assms(1), of "Suc 0"] sys_wait_loop_sleeps[OF assms(1) Nil _ assms(2,3), of "Suc 0"] unfolding w
      by (auto simp del: sys_wait_loop.simps)
  qed
qed

theorem sys_wait_reaps_witness:
  "(\<exists>s'. sys_wait (demo_fam 0xffff800000105000 TASK_RUNNING TASK_HANGING) = Ret (2, Some 7) s' \<and>
      pids s' = {0, 1} \<and> pages KernelPool s' = {0xffff800000104000, 0xffff800000105000}) \<and>
   (\<exists>s'. sys_wait (demo_fam 0xffff800000105000 TASK_RUNNING TASK_BLOCKED) = Sleep s' \<and>
      t_status (tasks s' 0xffff800000105000) = TASK_WAITING)"
proof
  let ?s = "\<lambda>b. demo_fam 0xffff800000105000 TASK_RUNNING b"
  have ok: "tasks_ok (?s b) 0xffff800000105000 [0xffff800000104000] (\<lambda>_. []) demo_al" for b by (rule demo_fam_ok) simp_all
  have q: "candidates (?s b) [0xffff800000104000] = 0xffff800000104000 # []" for b by (simp add: candidates_def)
  have h: "hanging (?s TASK_HANGING) 0xffff800000105000 demo_al = [0xffff800000106000]" "hanging (?s TASK_BLOCKED) 0xffff800000105000 demo_al = []"
    "children (?s TASK_BLOCKED) 0xffff800000105000 demo_al \<noteq> []"
    by (simp_all add: hanging_def children_def demo_tasks_def demo_task_def)
  have own: "\<forall>c \<in> set (hanging (?s b) 0xffff800000105000 demo_al). own_space (?s b) 0xffff800000105000 c demo_al" for b
    by (simp add: own_space_def demo_tasks_def demo_task_def)
  show "\<exists>s'. sys_wait (?s TASK_HANGING) = Ret (2, Some 7) s' \<and> pids s' = {0, 1} \<and> pages KernelPool s' = {0xffff800000104000, 0xffff800000105000}"
    using sys_wait_reaps[OF ok _ q own, of TASK_HANGING] unfolding h demo_pages by (auto simp: pages_of_def demo_tasks_def demo_task_def)
  show "\<exists>s'. sys_wait (?s TASK_BLOCKED) = Sleep s' \<and> t_status (tasks s' 0xffff800000105000) = TASK_WAITING"
    using sys_wait_reaps[OF ok _ q own, of TASK_BLOCKED] h by auto
qed



end
