(* ===== verification/Exec.thy ===== *)
theory Exec
  imports Task
begin

text \<open>
  Loading a program (\<^verbatim>\<open>userprog/exec.c\<close>).

  The headers are decoded from the bytes that \<^verbatim>\<open>sys_read\<close> delivers; \<open>u\<close> is the content of the local \<^verbatim>\<open>struct dirent\<close> that \<^verbatim>\<open>sys_open\<close> fills in.
  The bytes of a segment go to the memory of the program when \<^verbatim>\<open>sys_read\<close> has them. \<open>argv\<close> is the array at that address up to its end.
  A program that starts never sees \<^verbatim>\<open>sys_execv\<close> return: the call ends with a jump to \<^verbatim>\<open>system_ret\<close> with new registers.
\<close>

unbundle bit_operations_syntax

section \<open>Headers\<close>

record Elf64_Ehdr =
  e_ident :: "u8 list"
  e_type :: u16
  e_machine :: u16
  e_version :: u32
  e_entry :: u64
  e_phoff :: u64
  e_shoff :: u64
  e_flags :: u32
  e_ehsize :: u16
  e_phentsize :: u16
  e_phnum :: u16
  e_shentsize :: u16
  e_shnum :: u16
  e_shstrndx :: u16

record Elf64_Phdr =
  p_type :: u32
  p_flags :: u32
  p_offset :: u64
  p_vaddr :: u64
  p_paddr :: u64
  p_filesz :: u64
  p_memsz :: u64
  p_align :: u64

definition EI_NIDENT :: nat where "EI_NIDENT = 16"
definition ET_EXEC :: u16 where "ET_EXEC = 2"
definition EM_X86_64 :: u16 where "EM_X86_64 = 62"
definition PT_LOAD :: u32 where "PT_LOAD = 1"
definition sizeof_Ehdr :: u64 where "sizeof_Ehdr = 64"
definition sizeof_Phdr :: u64 where "sizeof_Phdr = 56"

definition dec16 :: "u8 list \<Rightarrow> u16" where
  "dec16 bs = foldr (\<lambda>b w. ucast b OR push_bit 8 w) (take 2 bs) 0"

definition dec_Ehdr :: "u8 list \<Rightarrow> Elf64_Ehdr" where
  "dec_Ehdr bs = \<lparr>e_ident = take EI_NIDENT bs, e_type = dec16 (drop 16 bs), e_machine = dec16 (drop 18 bs), e_version = dec32 (drop 20 bs),
     e_entry = dec64 (drop 24 bs), e_phoff = dec64 (drop 32 bs), e_shoff = dec64 (drop 40 bs), e_flags = dec32 (drop 48 bs),
     e_ehsize = dec16 (drop 52 bs), e_phentsize = dec16 (drop 54 bs), e_phnum = dec16 (drop 56 bs), e_shentsize = dec16 (drop 58 bs),
     e_shnum = dec16 (drop 60 bs), e_shstrndx = dec16 (drop 62 bs)\<rparr>"

definition dec_Phdr :: "u8 list \<Rightarrow> Elf64_Phdr" where
  "dec_Phdr bs = \<lparr>p_type = dec32 bs, p_flags = dec32 (drop 4 bs), p_offset = dec64 (drop 8 bs), p_vaddr = dec64 (drop 16 bs),
     p_paddr = dec64 (drop 24 bs), p_filesz = dec64 (drop 32 bs), p_memsz = dec64 (drop 40 bs), p_align = dec64 (drop 48 bs)\<rparr>"

definition elf_magic :: "u8 list" where "elf_magic = [0x7f, 0x45, 0x4c, 0x46, 2, 1, 1]"

definition Ehdr_ok :: "Elf64_Ehdr \<Rightarrow> bool" where
  "Ehdr_ok h \<longleftrightarrow> take 7 (e_ident h) = elf_magic \<and> e_type h = ET_EXEC \<and> e_machine h = EM_X86_64 \<and> e_version h = 1 \<and>
     ucast (e_phentsize h) = sizeof_Phdr"

section \<open>The code\<close>

definition segment_load ::
  "'h machine \<Rightarrow> (('h, 'z) mmstate_scheme, unit) kcall \<Rightarrow> int \<Rightarrow> u64 \<Rightarrow> u64 \<Rightarrow> u64 \<Rightarrow> (('h, 'z) mmstate_scheme, unit) kcall" where
  "segment_load M pf fd offset fsz va =
     (let (page_start, pg_cnt) = segment_pages va fsz in
      bnd (for_range 0 pg_cnt (\<lambda>i. page_map (page_start + of_nat i * PG_SIZE))) (\<lambda>_.
      bnd (sys_lseek fd (sint offset) SEEK_SET) (\<lambda>_.
      bnd (sys_read M fd fsz) (\<lambda>(n, data).
      ustore pf va data))))"

text \<open>The assignments to the address space of the task for the loadable segment number \<open>i\<close>; the arrays have four entries.\<close>

definition note_segment :: "u64 \<Rightarrow> nat \<Rightarrow> Elf64_Phdr \<Rightarrow> ('z kstate_scheme, unit) kcall" where
  "note_segment task i ph =
     (if i < 4
      then upd_task task (\<lambda>t. let sp = t_addr_space t; newbrk = p_vaddr ph + p_memsz ph in
             t\<lparr>t_addr_space := sp\<lparr>filesz := (filesz sp)[i := p_memsz ph], vaddr := (vaddr sp)[i := p_vaddr ph],
                 heap_start := if heap_start sp > newbrk then heap_start sp else newbrk\<rparr>\<rparr>)
      else fail OutOfBounds)"

text \<open>The loop over the program headers, with \<open>k\<close> of them left; the result is \<^verbatim>\<open>load_idx\<close>, or the error code.\<close>

fun load_segments ::
  "'h machine \<Rightarrow> (('h, 'z) mmstate_scheme, unit) kcall \<Rightarrow> u64 \<Rightarrow> int \<Rightarrow> Elf64_Ehdr \<Rightarrow> nat \<Rightarrow> nat \<Rightarrow> nat \<Rightarrow>
    (('h, 'z) mmstate_scheme, int + nat) kcall" where
  "load_segments M pf task fd eh prog_idx load_idx 0 = ret (Inr load_idx)"
| "load_segments M pf task fd eh prog_idx load_idx (Suc k) =
     bnd (sys_lseek fd (sint (e_phoff eh + of_nat prog_idx * ucast (e_phentsize eh))) SEEK_SET) (\<lambda>_.
     bnd (sys_read M fd (ucast (e_phentsize eh))) (\<lambda>(n, bs).
     if n \<noteq> uint (e_phentsize eh) then ret (Inl (- 56))
     else let ph = dec_Phdr bs in
          if PT_LOAD = p_type ph
          then bnd (segment_load M pf fd (p_offset ph) (p_memsz ph) (p_vaddr ph)) (\<lambda>_.
               bnd (note_segment task load_idx ph) (\<lambda>_.
               load_segments M pf task fd eh (Suc prog_idx) (Suc load_idx) k))
          else load_segments M pf task fd eh (Suc prog_idx) load_idx k))"

definition elf_load :: "'h machine \<Rightarrow> (('h, 'z) mmstate_scheme, unit) kcall \<Rightarrow> u64 \<Rightarrow> int \<Rightarrow> (('h, 'z) mmstate_scheme, int) kcall" where
  "elf_load M pf task fd =
     bnd (sys_read M fd sizeof_Ehdr) (\<lambda>(nbyte, bs).
     if nbyte \<noteq> 64 then ret (- 64)
     else let eh = dec_Ehdr bs in
          if \<not> Ehdr_ok eh then ret (- 64)
          else bnd (load_segments M pf task fd eh 0 0 (unat (e_phnum eh))) (\<lambda>r.
               case r of
                 Inl e \<Rightarrow> ret e
               | Inr load_idx \<Rightarrow>
                   bnd (upd_task task (\<lambda>t. t\<lparr>t_addr_space := (t_addr_space t)\<lparr>heap_end := heap_start (t_addr_space t)\<rparr>\<rparr>)) (\<lambda>_.
                   bnd (ASSERT (load_idx \<le> 4)) (\<lambda>_.
                   ret (sint (e_entry eh))))))"

definition elf_parse :: "'h machine \<Rightarrow> (('h, 'z) mmstate_scheme, unit) kcall \<Rightarrow> dirent \<Rightarrow> u8 list \<Rightarrow> u64 \<Rightarrow> (('h, 'z) mmstate_scheme, int) kcall" where
  "elf_parse M pf u pathname task =
     bnd (sys_open M u pathname) (\<lambda>fd.
     if fd < 0 then ret fd
     else bnd (elf_load M pf task fd) (\<lambda>r.
          bnd (sys_close fd) (\<lambda>_.
          ret r)))"

datatype exec_result = Exec_error int | Exec_start nat

definition sys_execv ::
  "'h machine \<Rightarrow> (nat \<Rightarrow> u64) \<Rightarrow> dirent \<Rightarrow> u64 \<Rightarrow> u8 list \<Rightarrow> u64 list \<Rightarrow> (('h, 'z) mmstate_scheme, exec_result) kcall" where
  "sys_execv M fr u syscall_rbp pathname argv =
     bnd running_task (\<lambda>cur_task.
     bnd (upd_task cur_task (\<lambda>t. t\<lparr>t_addr_space := (t_addr_space t)\<lparr>heap_start := 0\<rparr>\<rparr>)) (\<lambda>_.
     bnd (elf_parse M (page_fault M fr) u pathname cur_task) (\<lambda>entry_point.
     if entry_point < 0 then ret (Exec_error entry_point)
     else bnd (ustore (page_fault M fr) (syscall_rbp - 16) (enc64 (of_int entry_point))) (\<lambda>_.
          if 0 \<in> set argv then ret (Exec_start (length (takeWhile (\<lambda>p. p \<noteq> 0) argv))) else fail OutOfBounds))))"

end
