(* ===== verification/Kernel.thy ===== *)
theory Kernel
  imports WaitExit Exec
begin

text \<open>
  The kernel as a whole: system calls (\<^verbatim>\<open>userprog/syscall-init.c\<close>, \<^verbatim>\<open>userprog/system-call.S\<close>, \<^verbatim>\<open>lib/syscall.c\<close>), the end of a failed check
  (\<^verbatim>\<open>kernel/debug.c\<close>), and the start of the system (\<^verbatim>\<open>kernel/main.c\<close>).

  A function pointer of \<^verbatim>\<open>syscall_table\<close> is the name of the function. A system call is a state of the argument registers: the stub of the C
  library sets the number and moves the fourth argument out of the way of the \<^verbatim>\<open>syscall\<close> instruction, which overwrites \<^verbatim>\<open>rcx\<close> and \<^verbatim>\<open>r11\<close>; the entry
  code moves it back and calls through the table without looking at the number. \<open>boot_params\<close> holds what the assembler, the linker
  and the firmware provide.
\<close>

unbundle bit_operations_syntax

section \<open>System call numbers and stubs (lib/syscall.h, lib/syscall.c)\<close>

datatype SYSCALL_NR =
    SYS_READ | SYS_WRITE | SYS_OPEN | SYS_CLOSE | SYS_STAT | SYS_BRK | SYS_PIPE | SYS_SCHED_YIELD | SYS_DUP2 | SYS_CLONE | SYS_EXECV
  | SYS_EXIT | SYS_WAIT | SYS_MKDIR | SYS_RMDIR | SYS_UNLINK | SYS_MKNODE | SYS_CLOCK_GETTIME | SYS_TRIAL

fun nr_of :: "SYSCALL_NR \<Rightarrow> nat" where
  "nr_of SYS_READ = 0" | "nr_of SYS_WRITE = 1" | "nr_of SYS_OPEN = 2" | "nr_of SYS_CLOSE = 3" | "nr_of SYS_STAT = 4"
| "nr_of SYS_BRK = 5" | "nr_of SYS_PIPE = 6" | "nr_of SYS_SCHED_YIELD = 7" | "nr_of SYS_DUP2 = 8" | "nr_of SYS_CLONE = 9"
| "nr_of SYS_EXECV = 10" | "nr_of SYS_EXIT = 11" | "nr_of SYS_WAIT = 12" | "nr_of SYS_MKDIR = 13" | "nr_of SYS_RMDIR = 14"
| "nr_of SYS_UNLINK = 15" | "nr_of SYS_MKNODE = 16" | "nr_of SYS_CLOCK_GETTIME = 17" | "nr_of SYS_TRIAL = 18"

datatype libfn =
    Read | Write | Open | Close | Stat | Clone | Execv | Wait | Exit | Pipe | Dup2 | Brk | Mknod | Unlink | Mkdir | Rmdir | Clock_gettime
  | Sched_yield | Trial

text \<open>The number each function of the library passes to \<^verbatim>\<open>_syscall\<close>.\<close>

fun stub_nr :: "libfn \<Rightarrow> SYSCALL_NR" where
  "stub_nr Read = SYS_READ" | "stub_nr Write = SYS_WRITE" | "stub_nr Open = SYS_OPEN" | "stub_nr Close = SYS_CLOSE" | "stub_nr Stat = SYS_STAT"
| "stub_nr Clone = SYS_CLONE" | "stub_nr Execv = SYS_EXECV" | "stub_nr Wait = SYS_WAIT" | "stub_nr Exit = SYS_EXIT" | "stub_nr Pipe = SYS_PIPE"
| "stub_nr Dup2 = SYS_DUP2" | "stub_nr Brk = SYS_BRK" | "stub_nr Mknod = SYS_MKNODE" | "stub_nr Unlink = SYS_UNLINK" | "stub_nr Mkdir = SYS_MKDIR"
| "stub_nr Rmdir = SYS_RMDIR" | "stub_nr Clock_gettime = SYS_CLOCK_GETTIME" | "stub_nr Sched_yield = SYS_SCHED_YIELD" | "stub_nr Trial = SYS_TRIAL"

record regs =
  rax :: u64
  rdi :: u64
  rsi :: u64
  rdx :: u64
  rcx :: u64
  r10 :: u64
  r11 :: u64

text \<open>\<^verbatim>\<open>_syscall(NUMBER)\<close>, up to and including the instruction: \<open>ip\<close> is the address after it, \<open>fl\<close> the flags.\<close>

definition lib_syscall :: "SYSCALL_NR \<Rightarrow> u64 \<Rightarrow> u64 \<Rightarrow> regs \<Rightarrow> regs" where
  "lib_syscall n ip fl r = (let r = r\<lparr>r10 := rcx r\<rparr>; r = r\<lparr>rax := of_nat (nr_of n)\<rparr> in r\<lparr>rcx := ip, r11 := fl\<rparr>)"

section \<open>The table (userprog/syscall-init.c)\<close>

datatype sysfn =
    Sys_read | Sys_write | Sys_open | Sys_close | Sys_stat | Sys_clone | Sys_execv | Sys_wait | Sys_exit | Sys_pipe | Sys_dup2 | Sys_brk
  | Sys_mknod | Sys_unlink | Sys_mkdir | Sys_rmdir | Sys_clock_gettime | Task_yield

definition syscall_nr :: nat where "syscall_nr = 64"

record 'h sysstate = "'h mmstate" +
  syscall_table :: "sysfn option list"
  msr_lstar :: u64
  msr_star :: u64

text \<open>\<^verbatim>\<open>wrmsr\<close> takes the two halves of the value from \<^verbatim>\<open>eax\<close> and \<^verbatim>\<open>edx\<close>.\<close>

definition wrmsr :: "u64 \<Rightarrow> u64 \<Rightarrow> u64" where
  "wrmsr a d = push_bit 32 d OR take_bit 32 a"

definition set_call :: "SYSCALL_NR \<Rightarrow> sysfn \<Rightarrow> (('h, 'z) sysstate_scheme, unit) kcall" where
  "set_call n f = kput (\<lambda>s. s\<lparr>syscall_table := (syscall_table s)[nr_of n := Some f]\<rparr>)"

definition syscall_init :: "'h machine \<Rightarrow> u64 \<Rightarrow> (('h, 'z) sysstate_scheme, unit) kcall" where
  "syscall_init M system_call =
     bnd (put_str M (str_of ''syscall_init: start'' @ [10])) (\<lambda>_.
     bnd (kput (\<lambda>s. s\<lparr>msr_lstar := wrmsr system_call (drop_bit 32 system_call)\<rparr>)) (\<lambda>_.
     bnd (kput (\<lambda>s. s\<lparr>msr_star := wrmsr 0 0x00200008\<rparr>)) (\<lambda>_.
     bnd (set_call SYS_READ Sys_read) (\<lambda>_.
     bnd (set_call SYS_WRITE Sys_write) (\<lambda>_.
     bnd (set_call SYS_OPEN Sys_open) (\<lambda>_.
     bnd (set_call SYS_CLOSE Sys_close) (\<lambda>_.
     bnd (set_call SYS_STAT Sys_stat) (\<lambda>_.
     bnd (set_call SYS_CLONE Sys_clone) (\<lambda>_.
     bnd (set_call SYS_EXECV Sys_execv) (\<lambda>_.
     bnd (set_call SYS_WAIT Sys_wait) (\<lambda>_.
     bnd (set_call SYS_EXIT Sys_exit) (\<lambda>_.
     bnd (set_call SYS_PIPE Sys_pipe) (\<lambda>_.
     bnd (set_call SYS_DUP2 Sys_dup2) (\<lambda>_.
     bnd (set_call SYS_BRK Sys_brk) (\<lambda>_.
     bnd (set_call SYS_MKNODE Sys_mknod) (\<lambda>_.
     bnd (set_call SYS_UNLINK Sys_unlink) (\<lambda>_.
     bnd (set_call SYS_MKDIR Sys_mkdir) (\<lambda>_.
     bnd (set_call SYS_RMDIR Sys_rmdir) (\<lambda>_.
     bnd (set_call SYS_CLOCK_GETTIME Sys_clock_gettime) (\<lambda>_.
     bnd (set_call SYS_SCHED_YIELD Task_yield) (\<lambda>_.
     put_str M (str_of ''syscall_init: end'' @ [10]))))))))))))))))))))))"

text \<open>\<^verbatim>\<open>system_call\<close>: the function called and its first four arguments. The shift of the number keeps its low 61 bits.\<close>

definition system_call :: "sysfn option list \<Rightarrow> regs \<Rightarrow> (sysfn \<times> u64 list) res" where
  "system_call tab r =
     (let i = take_bit 61 (rax r); rcx' = r10 r in
      if unat i < length tab
      then case tab ! unat i of None \<Rightarrow> Inl NullDeref | Some f \<Rightarrow> Inr (f, [rdi r, rsi r, rdx r, rcx'])
      else Inl OutOfBounds)"

section \<open>Failed checks (kernel/debug.c)\<close>

definition panic_spin :: "'h machine \<Rightarrow> u8 list \<Rightarrow> u64 \<Rightarrow> u8 list \<Rightarrow> u8 list \<Rightarrow> (('h, 'z) hwstate_scheme, unit) kcall" where
  "panic_spin M src line func condition =
     bnd (set_intr_stat intr_off) (\<lambda>_.
     bnd (put_str M ([0x1b, 0x0c, 10, 10] @ str_of ''!!!!!!!!   SOMETING WENT WRONG (ToT)   !!!!!!!!'' @ [10])) (\<lambda>_.
     bnd (put_str M (str_of ''file: '' @ [34])) (\<lambda>_.
     bnd (put_str M src) (\<lambda>_.
     bnd (put_str M ([34, 10] @ str_of ''line: 0x'')) (\<lambda>_.
     bnd (put_num M line) (\<lambda>_.
     bnd (put_str M ([10] @ str_of ''function: '' @ [34])) (\<lambda>_.
     bnd (put_str M func) (\<lambda>_.
     bnd (put_str M ([34, 10] @ str_of ''condition: '' @ [34])) (\<lambda>_.
     bnd (put_str M condition) (\<lambda>_.
     bnd (put_str M [34, 10]) (\<lambda>_.
     fail Diverges)))))))))))"

section \<open>The start (kernel/main.c)\<close>

record boot_params =
  intr_entries :: "nat \<Rightarrow> u64"
  idt_addr :: u64
  tss_addr :: u64
  bios_disks :: u8
  entry_points :: syms
  system_call_addr :: u64

definition init_all :: "'h machine \<Rightarrow> boot_params \<Rightarrow> dirent \<Rightarrow> (('h, 'z) sysstate_scheme, unit) kcall" where
  "init_all M B u =
     bnd (intr_init M (intr_entries B) (idt_addr B)) (\<lambda>_.
     bnd (tss_init M (tss_addr B)) (\<lambda>_.
     bnd (timer_init M) (\<lambda>_.
     bnd (mem_init M) (\<lambda>_.
     bnd (task_init M (entry_points B)) (\<lambda>_.
     bnd (keyboard_init M) (\<lambda>_.
     bnd (ide_init M (bios_disks B)) (\<lambda>_.
     bnd (filesys_init M u) (\<lambda>_.
     bnd (console_init M) (\<lambda>_.
     syscall_init M (system_call_addr B))))))))))"

text \<open>The loop over the pages of the stack ends because its size is a multiple of the page size. \<^verbatim>\<open>sys_execv\<close> returns only on an error, and
  then the kernel spins.\<close>

definition kernel_main :: "'h machine \<Rightarrow> boot_params \<Rightarrow> (nat \<Rightarrow> u64) \<Rightarrow> dirent \<Rightarrow> (('h, 'z) sysstate_scheme, nat) kcall" where
  "kernel_main M B fr u =
     bnd (put_char M 12) (\<lambda>_.
     bnd (put_str M (str_of ''Kernel start'' @ [10])) (\<lambda>_.
     bnd (init_all M B u) (\<lambda>_.
     bnd (set_intr_stat intr_on) (\<lambda>_.
     let rbp = DEFAULT_STACK - 8 in
     bnd (kget global_stack_size) (\<lambda>sz.
     bnd (for_range 0 (unat (sz div PG_SIZE)) (\<lambda>i. page_map (DEFAULT_STACK - sz + of_nat i * PG_SIZE))) (\<lambda>_.
     bnd (ustore (page_fault M fr) (rbp - 24) (enc64 0x202)) (\<lambda>_.
     bnd (sys_execv M fr u rbp (str_of ''/init'') [0]) (\<lambda>r.
     case r of Exec_start argc \<Rightarrow> ret argc | Exec_error e \<Rightarrow> fail Diverges))))))))"

section \<open>What the table holds\<close>

text \<open>The kernel function that a function of the library stands for.\<close>

fun kernel_fn :: "libfn \<Rightarrow> sysfn option" where
  "kernel_fn Read = Some Sys_read" | "kernel_fn Write = Some Sys_write" | "kernel_fn Open = Some Sys_open" | "kernel_fn Close = Some Sys_close"
| "kernel_fn Stat = Some Sys_stat" | "kernel_fn Clone = Some Sys_clone" | "kernel_fn Execv = Some Sys_execv" | "kernel_fn Wait = Some Sys_wait"
| "kernel_fn Exit = Some Sys_exit" | "kernel_fn Pipe = Some Sys_pipe" | "kernel_fn Dup2 = Some Sys_dup2" | "kernel_fn Brk = Some Sys_brk"
| "kernel_fn Mknod = Some Sys_mknod" | "kernel_fn Unlink = Some Sys_unlink" | "kernel_fn Mkdir = Some Sys_mkdir" | "kernel_fn Rmdir = Some Sys_rmdir"
| "kernel_fn Clock_gettime = Some Sys_clock_gettime" | "kernel_fn Sched_yield = Some Task_yield" | "kernel_fn Trial = None"

lemma wrmsr_halves: "wrmsr a (drop_bit 32 a) = a"
  by (rule bit_eqI) (auto simp: wrmsr_def bit_or_iff bit_push_bit_iff bit_take_bit_iff bit_drop_bit_eq)

lemma set_call_run [simp]: "bnd (set_call n f) k s = k () (s\<lparr>syscall_table := (syscall_table s)[nr_of n := Some f]\<rparr>)"
  by (simp add: set_call_def)

definition full_table :: "sysfn option list" where
  "full_table = map (\<lambda>f. kernel_fn f) [Read, Write, Open, Close, Stat, Brk, Pipe, Sched_yield, Dup2, Clone, Execv, Exit, Wait, Mkdir, Rmdir, Unlink,
     Mknod, Clock_gettime] @ replicate 46 None"

lemma syscall_init_table:
  fixes s :: "('h, 'z) sysstate_scheme"
  assumes "syscall_table s = replicate syscall_nr None"
  shows "\<exists>s'. syscall_init M a s = Ret () s' \<and> syscall_table s' = full_table \<and> msr_lstar s' = a"
proof -
  obtain h v d c where p: "put_str M (str_of ''syscall_init: start'' @ [10]) s = Ret () (screened h v d c s)"
    using printsD[OF prints_put_str[of M "str_of ''syscall_init: start'' @ [10]"], of s] by blast
  let ?t = "(screened h v d c s)\<lparr>msr_lstar := a, msr_star := wrmsr 0 0x00200008, syscall_table := full_table\<rparr>"
  obtain h' v' d' c' where q: "put_str M (str_of ''syscall_init: end'' @ [10]) ?t = Ret () (screened h' v' d' c' ?t)"
    using printsD[OF prints_put_str[of M "str_of ''syscall_init: end'' @ [10]"], of ?t] by blast
  have tab: "syscall_table (screened h v d c s) = replicate 64 None" using assms by (simp add: screened_def syscall_nr_def)
  have "syscall_init M a s = put_str M (str_of ''syscall_init: end'' @ [10]) ?t"
    unfolding syscall_init_def bnd_run(1)[of "put_str M (str_of ''syscall_init: start'' @ [10])", OF p] wrmsr_halves
    by (simp add: tab full_table_def eval_nat_numeral)
  then show ?thesis using q by (simp add: screened_def)
qed

lemma call_reg: "take_bit 61 (of_nat (nr_of n) :: u64) = of_nat (nr_of n)" "unat (of_nat (nr_of n) :: u64) = nr_of n"
  by (cases n; simp add: take_bit_eq_mod)+

lemma full_table_stub: "nr_of (stub_nr f) < length full_table" "full_table ! nr_of (stub_nr f) = kernel_fn f"
  by (cases f; simp add: full_table_def)+

section \<open>Properties\<close>

text \<open>C31. System calls. After \<^verbatim>\<open>syscall_init\<close> every function of the C library reaches the kernel function of its name with the four argument registers
  it was called with, although the instruction overwrites \<^verbatim>\<open>rcx\<close>; \<^verbatim>\<open>trial\<close> calls a NULL pointer, and a number of 64 or more makes the entry code
  read a function pointer outside the table.\<close>

theorem system_calls_dispatch:
  fixes s :: "('h, 'z) sysstate_scheme"
  assumes "syscall_table s = replicate syscall_nr None"
  shows "\<exists>s'. syscall_init M a s = Ret () s' \<and> msr_lstar s' = a \<and>
    (\<forall>f ip fl r. system_call (syscall_table s') (lib_syscall (stub_nr f) ip fl r) =
       (case kernel_fn f of Some g \<Rightarrow> Inr (g, [rdi r, rsi r, rdx r, rcx r]) | None \<Rightarrow> Inl NullDeref)) \<and>
    (\<forall>r. syscall_nr \<le> unat (take_bit 61 (rax r)) \<longrightarrow> system_call (syscall_table s') r = Inl OutOfBounds)"
proof -
  have "system_call full_table (lib_syscall (stub_nr f) ip fl r) =
      (case kernel_fn f of Some g \<Rightarrow> Inr (g, [rdi r, rsi r, rdx r, rcx r]) | None \<Rightarrow> Inl NullDeref)" for f ip fl r
    using full_table_stub[of f] by (simp add: system_call_def lib_syscall_def Let_def call_reg split: option.splits)
  moreover have "system_call full_table r = Inl OutOfBounds" if "syscall_nr \<le> unat (take_bit 61 (rax r))" for r
    using that by (simp add: system_call_def Let_def full_table_def syscall_nr_def)
  ultimately show ?thesis using syscall_init_table[OF assms, of M a] by metis
qed

definition demo_sys :: "ata_dev sysstate" where
  "demo_sys = mmstate.extend demo_mm \<lparr>syscall_table = replicate syscall_nr None, msr_lstar = 0, msr_star = 0\<rparr>"

theorem system_calls_dispatch_witness:
  "\<exists>s'. syscall_init demo_ata 0xffff800000002000 demo_sys = Ret () s' \<and>
     system_call (syscall_table s') (lib_syscall (stub_nr Write) 0x400100 0x202 \<lparr>rax = 0, rdi = 1, rsi = 0x7000, rdx = 5, rcx = 9, r10 = 0, r11 = 0\<rparr>) =
       Inr (Sys_write, [1, 0x7000, 5, 9])"
proof -
  have "syscall_table demo_sys = replicate syscall_nr None" by (simp add: demo_sys_def mmstate.defs)
  from system_calls_dispatch[OF this, of demo_ata "0xffff800000002000"] obtain s' where
    s': "syscall_init demo_ata 0xffff800000002000 demo_sys = Ret () s'"
      "\<forall>f ip fl r. system_call (syscall_table s') (lib_syscall (stub_nr f) ip fl r) =
        (case kernel_fn f of Some g \<Rightarrow> Inr (g, [rdi r, rsi r, rdx r, rcx r]) | None \<Rightarrow> Inl NullDeref)" by blast
  show ?thesis by (rule exI[of _ s']) (simp only: s' kernel_fn.simps option.simps regs.simps simp_thms)
qed

end
