(* ===== verification/Shell.thy ===== *)
theory Shell
  imports Print CString
begin

text \<open>
  The line editor and the argument splitter of the shell (\<^verbatim>\<open>command/shell.c\<close>).

  \<open>readline\<close> runs on the characters that \<^verbatim>\<open>read(0, pos, 1)\<close> delivers, one after the other, and collects what is written to descriptor 1;
  the memory is the buffer, which starts at address 0. \<open>cmd_parse\<close> runs on a memory that holds the command line. Both are compared with a
  reference definition on lists: \<open>edit\<close> and \<open>words\<close>.
\<close>

section \<open>Reading a line\<close>

definition MAX_PATH_LEN :: nat where "MAX_PATH_LEN = 512"

definition print_prompt :: "u8 list \<Rightarrow> u8 list" where
  "print_prompt cwd = [0x1b, 0x09] @ str_of ''[yu@recover '' @ cwd @ str_of '']$ '' @ [0x1b, 0x07]"

datatype line_end = Line "u8 list" | Too_long "u8 list" | Waiting

definition out :: "u8 list \<Rightarrow> (line_end \<times> mem \<times> u8 list) res \<Rightarrow> (line_end \<times> mem \<times> u8 list) res" where
  "out o1 r = rbind r (\<lambda>(e, m, o2). Inr (e, m, o1 @ o2))"

text \<open>\<^verbatim>\<open>while (buf != pos) { write(1, "\b", 1); *(pos--) = 0; }\<close>\<close>

fun wipe :: "mem \<Rightarrow> nat \<Rightarrow> mem res" where
  "wipe m 0 = Inr m"
| "wipe m (Suc pos) = rbind (st m (Suc pos) 0) (\<lambda>m. wipe m pos)"

fun readline_from :: "u8 list \<Rightarrow> nat \<Rightarrow> mem \<Rightarrow> nat \<Rightarrow> u8 list \<Rightarrow> (line_end \<times> mem \<times> u8 list) res" where
  "readline_from cwd count m pos [] = Inr (Waiting, m, [])"
| "readline_from cwd count m pos (c # cs) =
     rbind (st m pos c) (\<lambda>m.
     if \<not> pos < count then Inr (Too_long cs, m, str_of ''readline: exeed max command len'' @ [10])
     else if c = 10 \<or> c = 13 then rbind (st m pos 0) (\<lambda>m. Inr (Line cs, m, [10]))
     else if c = 8
     then rbind (ld m 0) (\<lambda>b.
          if b \<noteq> 8 then if pos = 0 then Inl OutOfBounds else out [8] (readline_from cwd count m (pos - 1) cs)
          else readline_from cwd count m pos cs)
     else if c = 11
     then rbind (st m pos 0) (\<lambda>m. out ([12] @ print_prompt cwd @ takeWhile (\<lambda>b. b \<noteq> 0) m) (readline_from cwd count m pos cs))
     else if c = 20 then rbind (wipe m pos) (\<lambda>m. out (replicate pos 8) (readline_from cwd count m 0 cs))
     else out [c] (readline_from cwd count m (pos + 1) cs))"

definition readline :: "u8 list \<Rightarrow> mem \<Rightarrow> nat \<Rightarrow> u8 list \<Rightarrow> (line_end \<times> mem \<times> u8 list) res" where
  "readline cwd buf count cs = readline_from cwd count buf 0 cs"

section \<open>Splitting it into arguments\<close>

definition MAX_ARG_NR :: nat where "MAX_ARG_NR = 16"

function skip_token :: "mem \<Rightarrow> u8 \<Rightarrow> nat \<Rightarrow> nat res" where
  "skip_token m token p =
     (if p < length m then if m ! p = token then skip_token m token (Suc p) else Inr p else Inl OutOfBounds)"
  by pat_completeness auto
termination
  by (relation "measure (\<lambda>(m, token, p). length m - p)") auto

function word_end :: "mem \<Rightarrow> u8 \<Rightarrow> nat \<Rightarrow> nat res" where
  "word_end m token p =
     (if p < length m then if m ! p \<noteq> 0 \<and> m ! p \<noteq> token then word_end m token (Suc p) else Inr p else Inl OutOfBounds)"
  by pat_completeness auto
termination
  by (relation "measure (\<lambda>(m, token, p). length m - p)") auto

declare skip_token.simps [simp del] word_end.simps [simp del]

lemma skip_token_Inr: "skip_token m token p = Inr q \<Longrightarrow> p \<le> q \<and> q < length m \<and> m ! q \<noteq> token"
proof (induction m token p rule: skip_token.induct)
  case (1 m token p)
  then show ?case using skip_token.simps[of m token p] by (auto split: if_splits)
qed

lemma word_end_Inr: "word_end m token p = Inr q \<Longrightarrow> p \<le> q \<and> q < length m \<and> (m ! p \<noteq> 0 \<and> m ! p \<noteq> token \<longrightarrow> p < q)"
proof (induction m token p rule: word_end.induct)
  case (1 m token p)
  then show ?case using word_end.simps[of m token p] by (auto split: if_splits)
qed

text \<open>The outer loop. The arguments are addresses; the array has \<^verbatim>\<open>MAX_ARG_NR\<close> elements.\<close>

function cmd_parse_from :: "mem \<Rightarrow> u8 \<Rightarrow> nat option list \<Rightarrow> nat \<Rightarrow> nat \<Rightarrow> (int \<times> mem \<times> nat option list) res" where
  "cmd_parse_from m token argv argc p =
     rbind (ld m p) (\<lambda>b.
     if b = 0 then Inr (int argc, m, argv)
     else rbind (skip_token m token p) (\<lambda>q.
          if m ! q = 0 then Inr (int argc, m, argv)
          else if argc \<ge> length argv then Inl OutOfBounds
          else let argv = argv[argc := Some q] in
               rbind (word_end m token q) (\<lambda>e.
               let (m, nxt) = if m ! e \<noteq> 0 then (m[e := 0], Suc e) else (m, e) in
               if argc > MAX_ARG_NR then Inr (-1, m, argv)
               else cmd_parse_from m token argv (Suc argc) nxt)))"
  by pat_completeness auto
termination
proof (relation "measure (\<lambda>(m, token, argv, argc, p). length m - p)", goal_cases)
  case 1
  then show ?case by simp
next
  case (2 m token argv argc p b q argv' e r m' nxt)
  have "p \<le> q" "m ! q \<noteq> token" using skip_token_Inr[OF 2(3)] by auto
  moreover have "q < e" "e < length m" using word_end_Inr[OF 2(7)] 2(4) calculation by auto
  ultimately show ?case using 2(8,9) by (auto split: if_splits)
qed

declare cmd_parse_from.simps [simp del]

definition cmd_parse :: "mem \<Rightarrow> nat \<Rightarrow> u8 \<Rightarrow> (int \<times> mem \<times> nat option list) res" where
  "cmd_parse m cmd_str token = cmd_parse_from m token (replicate MAX_ARG_NR None) 0 cmd_str"

section \<open>Reference definitions\<close>

text \<open>The words of a line: maximal runs of other characters than the token.\<close>

function words :: "u8 \<Rightarrow> u8 list \<Rightarrow> u8 list list" where
  "words token [] = []"
| "words token (x # xs) =
     (if x = token then words token xs
      else (x # takeWhile (\<lambda>c. c \<noteq> token) xs) # words token (dropWhile (\<lambda>c. c \<noteq> token) xs))"
  by pat_completeness auto
termination
  by (relation "measure (\<lambda>(token, xs). length xs)") (auto simp: length_dropWhile_le le_imp_less_Suc)

text \<open>A line editor on lists: \<open>t\<close> is what was typed so far; backspace removes the last character, \<^verbatim>\<open>ctrl+u\<close> all of them.\<close>

fun edit :: "u8 list \<Rightarrow> u8 list \<Rightarrow> (u8 list \<times> u8 list) option" where
  "edit t [] = None"
| "edit t (c # cs) =
     (if c = 10 \<or> c = 13 then Some (t, cs)
      else if c = 8 then edit (butlast t) cs
      else if c = 11 then edit t cs
      else if c = 20 then edit [] cs
      else edit (t @ [c]) cs)"

section \<open>The splitter\<close>

lemma word_end_cstr:
  "cstr m p s \<Longrightarrow> word_end m token p = Inr (p + length (takeWhile (\<lambda>c. c \<noteq> token) s))"
proof (induction s arbitrary: p)
  case Nil
  then show ?case by (simp add: word_end.simps)
next
  case (Cons x s)
  then show ?case by (auto simp: word_end.simps[of m token p])
qed

lemma cstr_drop: "cstr m p s \<Longrightarrow> k \<le> length s \<Longrightarrow> cstr m (p + k) (drop k s)"
proof (induction s arbitrary: p k)
  case (Cons x s)
  show ?case
  proof (cases k)
    case 0
    then show ?thesis using Cons.prems by simp
  next
    case (Suc j)
    then show ?thesis using Cons.IH[of "Suc p" j] Cons.prems by simp
  qed
qed simp

lemma cstr_cut:
  assumes "cstr m p s" "k \<le> length s"
  shows "cstr (m[p + k := 0]) p (take k s)"
  using assms
proof (induction s arbitrary: p k)
  case Nil
  then show ?case by simp
next
  case (Cons x s)
  show ?case
  proof (cases k)
    case 0
    then show ?thesis using Cons.prems by simp
  next
    case (Suc j)
    then show ?thesis using Cons.IH[of "Suc p" j] Cons.prems by simp
  qed
qed

lemma parse_skip:
  assumes "cstr m p (token # s)" "token \<noteq> 0"
  shows "cmd_parse_from m token argv argc p = cmd_parse_from m token argv argc (Suc p)"
proof -
  have p: "p < length m" "m ! p = token" "Suc p < length m" using assms(1) by (cases s; simp)+
  have sk: "skip_token m token p = skip_token m token (Suc p)" using p by (simp add: skip_token.simps[of m token p])
  show ?thesis
  proof (cases "m ! Suc p = 0")
    case True
    then have "skip_token m token (Suc p) = Inr (Suc p)" using p assms(2) by (simp add: skip_token.simps)
    then show ?thesis using p True sk assms(2) by (simp add: cmd_parse_from.simps[of m token argv argc p] cmd_parse_from.simps[of m token argv argc "Suc p"] ld_def)
  next
    case False
    then show ?thesis using p sk assms(2) by (simp add: cmd_parse_from.simps[of m token argv argc p] cmd_parse_from.simps[of m token argv argc "Suc p"] ld_def)
  qed
qed

lemma parse_word:
  assumes c: "cstr m p (x # s)" and x: "x \<noteq> token" and a: "argc < length argv" "length argv = MAX_ARG_NR"
    and w: "w = x # takeWhile (\<lambda>c. c \<noteq> token) s" and e: "e = p + length w"
  shows "cmd_parse_from m token argv argc p =
    (if m ! e \<noteq> 0 then cmd_parse_from (m[e := 0]) token (argv[argc := Some p]) (Suc argc) (Suc e)
     else cmd_parse_from m token (argv[argc := Some p]) (Suc argc) e)"
proof -
  have "skip_token m token p = Inr p" using c x by (simp add: skip_token.simps)
  moreover have "word_end m token p = Inr e" using word_end_cstr[OF c, of token] x by (simp add: w e)
  ultimately show ?thesis using c a by (subst cmd_parse_from.simps) (simp add: ld_def Let_def)
qed

lemma parse_full:
  assumes c: "cstr m p (x # s)" and x: "x \<noteq> token" and a: "length argv \<le> argc"
  shows "cmd_parse_from m token argv argc p = Inl OutOfBounds"
proof -
  have "skip_token m token p = Inr p" using c x by (simp add: skip_token.simps)
  then show ?thesis using c a by (subst cmd_parse_from.simps) (simp add: ld_def)
qed

text \<open>What a call leaves behind: \<open>n\<close> more arguments, each the address of its word, and no change outside the line.\<close>

definition parsed :: "mem \<Rightarrow> nat \<Rightarrow> nat \<Rightarrow> nat option list \<Rightarrow> nat \<Rightarrow> u8 list list \<Rightarrow> mem \<Rightarrow> nat option list \<Rightarrow> bool" where
  "parsed m p len argv argc ws m' argv' \<longleftrightarrow> length m' = length m \<and> (\<forall>i. i < p \<or> p + len \<le> i \<longrightarrow> m' ! i = m ! i) \<and>
     length argv' = length argv \<and> (\<forall>k < length ws. \<exists>q. argv' ! (argc + k) = Some q \<and> p \<le> q \<and> cstr m' q (ws ! k)) \<and>
     (\<forall>k < length argv. k < argc \<or> argc + length ws \<le> k \<longrightarrow> argv' ! k = argv ! k)"

lemma parsed_word:
  assumes w: "cstr m1 p w" and m1: "length m1 = length m" "\<forall>i. i < p \<or> p + len \<le> i \<longrightarrow> m1 ! i = m ! i" "p + length w < nxt" "nxt \<le> Suc (p + len)"
    and p: "parsed m1 nxt (p + len - nxt) (argv[argc := Some p]) (Suc argc) ws m' argv'" and a: "argc < length argv"
  shows "parsed m p len argv argc (w # ws) m' argv'"
proof -
  have out: "m' ! i = m1 ! i" if "i < nxt \<or> p + len \<le> i" for i
  proof (cases "i < nxt")
    case False
    then have "nxt + (p + len - nxt) \<le> i" using that m1(4) by linarith
    then show ?thesis using p by (simp add: parsed_def)
  qed (use p in \<open>simp add: parsed_def\<close>)
  have "cstr m' p w" by (rule cstr_frame[OF w]) (use p out m1(3) in \<open>auto simp: parsed_def\<close>)
  moreover have "argv' ! argc = Some p" using p a by (auto simp: parsed_def)
  ultimately have "\<exists>q. argv' ! (argc + k) = Some q \<and> p \<le> q \<and> cstr m' q ((w # ws) ! k)" if "k < length (w # ws)" for k
    using p that m1(3) unfolding parsed_def by (cases k) (auto simp: less_imp_le dest: spec)
  moreover have "argv' ! k = argv ! k" if "k < length argv" "k < argc \<or> argc + length (w # ws) \<le> k" for k
    using p that by (auto simp: parsed_def)
  ultimately show ?thesis using p out m1 unfolding parsed_def by auto
qed

lemma parse_words:
  assumes "cstr m p s" "token \<noteq> 0" "length argv = MAX_ARG_NR" "argc \<le> MAX_ARG_NR"
  shows "if argc + length (words token s) \<le> MAX_ARG_NR
    then \<exists>m' argv'. cmd_parse_from m token argv argc p = Inr (int (argc + length (words token s)), m', argv') \<and>
           parsed m p (length s) argv argc (words token s) m' argv'
    else cmd_parse_from m token argv argc p = Inl OutOfBounds"
  using assms
proof (induction "length s" arbitrary: s m p argv argc rule: less_induct)
  case less
  show ?case
  proof (cases s)
    case Nil
    then show ?thesis using less.prems by (subst cmd_parse_from.simps) (simp add: ld_def parsed_def)
  next
    case (Cons x xs)
    show ?thesis
    proof (cases "x = token")
      case True
      have c: "cstr m (Suc p) xs" using less.prems(1) Cons by simp
      have eq: "cmd_parse_from m token argv argc p = cmd_parse_from m token argv argc (Suc p)"
        using parse_skip[of m p token xs argv argc] less.prems(1,2) Cons True by simp
      have "parsed m p (length s) argv argc ws m' argv'" if "parsed m (Suc p) (length xs) argv argc ws m' argv'" for ws m' argv'
        using that Cons unfolding parsed_def by (auto simp: Suc_le_eq intro: less_imp_le)
      then show ?thesis
        using less.hyps[OF _ c less.prems(2-4)] Cons True unfolding eq by (auto split: if_splits)
    next
      case False
      define w where "w = x # takeWhile (\<lambda>c. c \<noteq> token) xs"
      define r where "r = dropWhile (\<lambda>c. c \<noteq> token) xs"
      have s: "s = w @ r" and ws: "words token s = w # words token r" using Cons False by (simp_all add: w_def r_def)
      have c: "cstr m p (x # xs)" using less.prems(1) Cons by simp
      show ?thesis
      proof (cases "argc < MAX_ARG_NR")
        case full: False
        then show ?thesis using parse_full[OF c False, of argv argc] less.prems(3,4) ws by simp
      next
        case room: True
        let ?e = "p + length w" and ?argv = "argv[argc := Some p]"
        note step = parse_word[OF c False _ less.prems(3) w_def refl, of argc]
        have ce: "cstr m ?e r" using cstr_drop[OF less.prems(1), of "length w"] s by simp
        show ?thesis
        proof (cases r)
          case Nil
          then have "m ! ?e = 0" "?e < length m" using ce by auto
          then have run: "cmd_parse_from m token argv argc p = Inr (int (argc + 1), m, ?argv)"
            using step room less.prems(3) cmd_parse_from.simps[of m token ?argv "Suc argc" ?e] by (simp add: ld_def)
          have "cstr m p w" using less.prems(1) s Nil by simp
          then have "parsed m p (length s) argv argc [w] m ?argv" using room less.prems(3) by (auto simp: parsed_def)
          then show ?thesis using run ws Nil room by simp
        next
          case (Cons y r')
          have y: "y = token" using Cons hd_dropWhile[of "\<lambda>c. c \<noteq> token" xs] by (simp add: r_def)
          have me: "m ! ?e = token" "?e < length m" using ce Cons y by auto
          let ?m = "m[?e := 0]"
          have run: "cmd_parse_from m token argv argc p = cmd_parse_from ?m token ?argv (Suc argc) (Suc ?e)"
            using step room less.prems(2,3) me by simp
          have cr: "cstr ?m (Suc ?e) r'" by (rule cstr_frame[of m]) (use ce Cons in auto)
          have cw: "cstr ?m p w" using cstr_cut[OF less.prems(1), of "length w"] s by simp
          have len: "length s = length w + Suc (length r')" using s Cons by simp
          have wr: "words token r = words token r'" using Cons y by simp
          have IH: "if Suc argc + length (words token r') \<le> MAX_ARG_NR
              then \<exists>m' argv'. cmd_parse_from ?m token ?argv (Suc argc) (Suc ?e) = Inr (int (Suc argc + length (words token r')), m', argv') \<and>
                parsed ?m (Suc ?e) (length r') ?argv (Suc argc) (words token r') m' argv'
              else cmd_parse_from ?m token ?argv (Suc argc) (Suc ?e) = Inl OutOfBounds"
            by (rule less.hyps[OF _ cr less.prems(2)]) (use len less.prems(3) room in auto)
          have "parsed m p (length s) argv argc (words token s) m' argv'" if "parsed ?m (Suc ?e) (length r') ?argv (Suc argc) (words token r') m' argv'" for m' argv'
          proof -
            have "p + length s - Suc ?e = length r'" using len by simp
            then show ?thesis
              unfolding ws wr by (intro parsed_word[OF cw, where nxt = "Suc ?e"]) (use that len room less.prems(3) in auto)
          qed
          then show ?thesis using IH run ws wr by (auto split: if_splits)
        qed
      qed
    qed
  qed
qed

section \<open>The line editor\<close>

lemma cstr_take:
  assumes "take n m = xs" "n < length m" "m ! n = 0" "0 \<notin> set xs"
  shows "cstr m 0 xs"
proof -
  have "cstr m p (drop p xs)" if "p \<le> n" for p
    using that
  proof (induction "n - p" arbitrary: p)
    case 0
    then have "p = n" "length xs = n" using assms(1,2) by auto
    then show ?case using assms(2,3) by simp
  next
    case (Suc k)
    have len: "length xs = n" using assms(1,2) by auto
    have "drop p xs = xs ! p # drop (Suc p) xs" using Suc.hyps(2) len by (simp add: Cons_nth_drop_Suc)
    moreover have "xs ! p = m ! p" using assms(1) Suc.hyps(2) by auto
    moreover have "xs ! p \<noteq> 0" using assms(4) len Suc.hyps(2) by (metis nth_mem zero_less_Suc zero_less_diff)
    ultimately show ?case using Suc.hyps(1)[of "Suc p"] Suc.hyps(2) assms(2) by simp
  qed
  from this[of 0] show ?thesis by simp
qed

lemma wipe_ok: "pos < length m \<Longrightarrow> \<exists>m'. wipe m pos = Inr m' \<and> length m' = length m"
proof (induction pos arbitrary: m)
  case (Suc pos)
  then show ?case using Suc.IH[of "m[Suc pos := 0]"] by (simp add: st_def)
qed simp

lemma readline_line:
  assumes "take (length xs) m = xs" "length m = count" "length xs + length cs \<le> count" "0 \<notin> set xs \<union> set cs" "8 \<notin> set xs" "edit xs cs = Some (line, rest)"
  shows "\<exists>m' o1. readline_from cwd count m (length xs) cs = Inr (Line rest, m', o1) \<and> cstr m' 0 line \<and> length m' = length m"
  using assms
proof (induction cs arbitrary: xs m)
  case Nil
  then show ?case by simp
next
  case (Cons c cs)
  let ?p = "length xs" and ?m = "m[length xs := c]"
  have p: "?p < length m" using Cons.prems(2,3) by simp
  have tk: "take ?p (m[?p := b]) = xs" for b using Cons.prems(1) by simp
  consider (line) "c = 10 \<or> c = 13" | (erase) "c = 8" | (clear) "c = 11" | (wipe) "c = 20" | (other) "c \<notin> {8, 10, 11, 13, 20}" by blast
  then show ?case
  proof cases
    case line
    have "cstr (m[?p := 0]) 0 xs" by (rule cstr_take[OF tk]) (use p Cons.prems(4) in auto)
    then show ?thesis using line Cons.prems p by (auto simp: st_def)
  next
    case erase
    show ?thesis
    proof (cases "xs = []")
      case True
      then show ?thesis using Cons.IH[of "[]" ?m] erase Cons.prems p by (auto simp: st_def ld_def)
    next
      case False
      have "?m ! 0 = xs ! 0" using False Cons.prems(1) tk by (metis length_greater_0_conv nth_take)
      moreover have "xs ! 0 \<noteq> 8" using False Cons.prems(5) by (metis length_greater_0_conv nth_mem)
      ultimately have b: "?m ! 0 \<noteq> 8" "0 < ?p" using False by simp_all
      have "take (length (butlast xs)) ?m = butlast xs" using tk[of c] by (simp add: butlast_conv_take) (metis diff_le_self min.absorb2 min.commute take_take)
      then have "\<exists>m' o1. readline_from cwd count ?m (length (butlast xs)) cs = Inr (Line rest, m', o1) \<and> cstr m' 0 line \<and> length m' = length ?m"
        using Cons.prems erase by (intro Cons.IH) (auto dest: in_set_butlastD)
      then show ?thesis using erase b p Cons.prems(2) by (auto simp: st_def ld_def out_def)
    qed
  next
    case clear
    have "\<exists>m' o1. readline_from cwd count (?m[?p := 0]) ?p cs = Inr (Line rest, m', o1) \<and> cstr m' 0 line \<and> length m' = length (?m[?p := 0])"
      using Cons.prems clear tk by (intro Cons.IH) auto
    then show ?thesis using clear p Cons.prems(2) by (auto simp: st_def out_def)
  next
    case wipe
    obtain m2 where m2: "wipe ?m ?p = Inr m2" "length m2 = length m" using wipe_ok[of ?p ?m] p by auto
    have "\<exists>m' o1. readline_from cwd count m2 (length ([] :: u8 list)) cs = Inr (Line rest, m', o1) \<and> cstr m' 0 line \<and> length m' = length m2"
      using Cons.prems wipe m2 by (intro Cons.IH) auto
    then show ?thesis using wipe p m2 Cons.prems(2) by (auto simp: st_def out_def)
  next
    case other
    have "take (Suc ?p) ?m = xs @ [c]" using p Cons.prems(1) by (simp add: take_Suc_conv_app_nth)
    then have "\<exists>m' o1. readline_from cwd count ?m (length (xs @ [c])) cs = Inr (Line rest, m', o1) \<and> cstr m' 0 line \<and> length m' = length ?m"
      using Cons.prems other by (intro Cons.IH) auto
    then show ?thesis using other p Cons.prems(2) by (auto simp: st_def out_def)
  qed
qed

lemma readline_overrun:
  assumes "length m = count" "pos \<le> count" "count < pos + length cs" "set cs \<inter> {8, 10, 11, 13, 20} = {}"
  shows "readline_from cwd count m pos cs = Inl OutOfBounds"
  using assms
proof (induction cs arbitrary: m pos)
  case (Cons c cs)
  show ?case
  proof (cases "pos < count")
    case True
    then show ?thesis using Cons.IH[of "m[pos := c]" "Suc pos"] Cons.prems by (simp add: st_def out_def)
  next
    case False
    then show ?thesis using Cons.prems by (simp add: st_def)
  qed
qed simp

lemma cmd_parse_ok:
  assumes "cstr m p s" "token \<noteq> 0"
  shows "if length (words token s) \<le> MAX_ARG_NR
    then \<exists>m' argv'. cmd_parse m p token = Inr (int (length (words token s)), m', argv') \<and> length argv' = MAX_ARG_NR \<and>
           (\<forall>k < length (words token s). \<exists>q. argv' ! k = Some q \<and> cstr m' q (words token s ! k)) \<and>
           (\<forall>k < MAX_ARG_NR. length (words token s) \<le> k \<longrightarrow> argv' ! k = None) \<and>
           length m' = length m \<and> (\<forall>i. i < p \<or> p + length s \<le> i \<longrightarrow> m' ! i = m ! i)
    else cmd_parse m p token = Inl OutOfBounds"
proof -
  have "if length (words token s) \<le> MAX_ARG_NR
      then \<exists>m' argv'. cmd_parse m p token = Inr (int (length (words token s)), m', argv') \<and>
        parsed m p (length s) (replicate MAX_ARG_NR None) 0 (words token s) m' argv'
      else cmd_parse m p token = Inl OutOfBounds"
    using parse_words[OF assms length_replicate le0, of None] unfolding cmd_parse_def by (simp only: add_0)
  moreover have "\<forall>k < MAX_ARG_NR. length (words token s) \<le> k \<longrightarrow> argv' ! k = None"
    if "parsed m p (length s) (replicate MAX_ARG_NR None) 0 (words token s) m' argv'" for m' argv'
    using that by (simp add: parsed_def)
  moreover have "\<forall>k < length (words token s). \<exists>q. argv' ! k = Some q \<and> cstr m' q (words token s ! k)"
    if "parsed m p (length s) (replicate MAX_ARG_NR None) 0 (words token s) m' argv'" for m' argv'
    using that by (auto simp: parsed_def)
  moreover have "length argv' = MAX_ARG_NR" "length m' = length m" "\<forall>i. i < p \<or> p + length s \<le> i \<longrightarrow> m' ! i = m ! i"
    if "parsed m p (length s) (replicate MAX_ARG_NR None) 0 (words token s) m' argv'" for m' argv'
    using that by (auto simp: parsed_def)
  ultimately show ?thesis by metis
qed

section \<open>Properties\<close>

text \<open>C37. The line editor. For up to 512 characters of input, none of them 0, \<^verbatim>\<open>readline\<close> leaves exactly the line in the buffer that the reference editor
  computes, whatever was in the buffer, and consumes the same input. But 513 ordinary characters without a newline make it write past the
  end of its buffer of \<^verbatim>\<open>MAX_PATH_LEN\<close> bytes, because it reads the character before it checks the position.\<close>

theorem readline_edits:
  assumes "length buf = MAX_PATH_LEN"
  shows "(length cs \<le> MAX_PATH_LEN \<and> 0 \<notin> set cs \<and> edit [] cs = Some (line, rest) \<longrightarrow>
      (\<exists>m' o1. readline cwd buf MAX_PATH_LEN cs = Inr (Line rest, m', o1) \<and> cstr m' 0 line \<and> length m' = length buf)) \<and>
    (MAX_PATH_LEN < length cs \<and> set cs \<inter> {8, 10, 11, 13, 20} = {} \<longrightarrow> readline cwd buf MAX_PATH_LEN cs = Inl OutOfBounds)"
  using readline_line[of "[]" buf MAX_PATH_LEN cs line rest cwd] readline_overrun[of buf MAX_PATH_LEN 0 cs cwd] assms
  by (auto simp: readline_def)

theorem readline_edits_witness:
  "(\<exists>m' o1. readline [47] (replicate 512 7) MAX_PATH_LEN [108, 120, 8, 115, 10, 33] = Inr (Line [33], m', o1) \<and> cstr m' 0 [108, 115]) \<and>
   readline [47] (replicate 512 7) MAX_PATH_LEN (replicate 513 120) = Inl OutOfBounds"
proof -
  have b: "length (replicate 512 7 :: u8 list) = MAX_PATH_LEN" by (simp add: MAX_PATH_LEN_def)
  show ?thesis
    using readline_edits[OF b, of "[108, 120, 8, 115, 10, 33]" "[108, 115]" "[33]" "[47]"] readline_edits[OF b, of "replicate 513 120" "[]" "[]" "[47]"]
    by (auto simp: MAX_PATH_LEN_def)
qed

text \<open>C40. Splitting a command. \<^verbatim>\<open>cmd_parse\<close> finds exactly the words of the line: it returns their number, \<^verbatim>\<open>argv[k]\<close> points to word \<open>k\<close>, now a string of
  its own, the other entries are \<^verbatim>\<open>NULL\<close>, and no byte outside the line changes. With more than \<^verbatim>\<open>MAX_ARG_NR\<close> words it writes past the end of
  \<^verbatim>\<open>argv\<close> before it looks at the number.\<close>

theorem cmd_parse_words:
  assumes "cstr m p s" "token \<noteq> 0"
  shows "if length (words token s) \<le> MAX_ARG_NR
    then \<exists>m' argv'. cmd_parse m p token = Inr (int (length (words token s)), m', argv') \<and> length argv' = MAX_ARG_NR \<and>
           (\<forall>k < length (words token s). \<exists>q. argv' ! k = Some q \<and> cstr m' q (words token s ! k)) \<and>
           (\<forall>k < MAX_ARG_NR. length (words token s) \<le> k \<longrightarrow> argv' ! k = None) \<and>
           length m' = length m \<and> (\<forall>i. i < p \<or> p + length s \<le> i \<longrightarrow> m' ! i = m ! i)
    else cmd_parse m p token = Inl OutOfBounds"
  by (rule cmd_parse_ok[OF assms])

theorem cmd_parse_words_witness:
  "\<exists>m' argv'. cmd_parse [108, 115, 32, 32, 47, 0] 0 32 = Inr (2, m', argv') \<and> (\<exists>q. argv' ! 1 = Some q \<and> cstr m' q [47])"
proof -
  have c: "cstr [108, 115, 32, 32, 47, 0] 0 [108, 115, 32, 32, 47]" by simp
  have w: "words 32 [108, 115, 32, 32, 47] = [[108, 115], [47]]" by simp
  obtain m' argv' where r: "cmd_parse [108, 115, 32, 32, 47, 0] 0 32 = Inr (2, m', argv')"
      "\<forall>k < 2. \<exists>q. argv' ! k = Some q \<and> cstr m' q ([[108, 115], [47]] ! k)"
    using cmd_parse_words[OF c, of 32] unfolding w by (auto simp: MAX_ARG_NR_def)
  show ?thesis using r(1) r(2)[rule_format, of 1] by simp
qed

end
