(* ===== verification/Command.thy ===== *)
theory Command
  imports Shell
begin

text \<open>
  Running commands: \<^verbatim>\<open>cmd_execute\<close> and the loop of \<^verbatim>\<open>main\<close> of \<^verbatim>\<open>command/shell.c\<close>.

  The shell is modelled by the system calls it makes, in order. The kernel is a parameter: \<open>sysret\<close> holds the results of the calls of one
  command. \<^verbatim>\<open>clone\<close> returns in two processes: \<open>Fork\<close> holds the calls of the child, and the calls after it are those of the parent. The memory starts
  with the buffer \<^verbatim>\<open>cmd_line\<close>; the string literals that are compared with a word are in the same memory, at the addresses in \<open>lits\<close>.
\<close>

section \<open>The code\<close>

datatype slot = Std nat | Pipe_fd nat

datatype act =
    Print "u8 list"
  | Print_status int int                    \<comment> \<open>the message with the pid and the status of a child\<close>
  | Print_name "u8 list" "u8 list"          \<comment> \<open>a message about a file name\<close>
  | Pipe_call | Dup2_call slot slot | Close_call slot
  | Fork "act list" | Wait_call | Stat_call "u8 list"
  | Execv_call "u8 list" "u8 list list option"
  | Exit_call int | Panic "u8 list"

record sysret =
  r_wait :: "int \<times> int"
  r_stat :: int
  r_execv :: int

record lits =
  lit_help :: nat
  lit_clear :: nat

definition help_text :: "u8 list" where
  "help_text = [10] @ str_of ''the buildin commands:'' @ [10] @
     [9] @ str_of ''help: print this help message and exit'' @ [10] @
     [9] @ str_of ''clear: clear the screen'' @ [10] @
     [10] @ str_of ''the extern commands:'' @ [10] @
     [9] @ str_of ''/echo: print the args'' @ [10] @
     [9] @ str_of ''/ls: show the files in root directory'' @ [10] @
     str_of ''shortcut key:'' @ [10] @
     [10] @ str_of ''ctrl+l: clear screen'' @ [10] @
     [10] @ str_of ''ctrl+u: clear input'' @ [10]"

text \<open>The string at an address and the strings of an argument array that ends with \<^verbatim>\<open>NULL\<close>.\<close>

definition str_at :: "mem \<Rightarrow> nat \<Rightarrow> u8 list" where
  "str_at m p = takeWhile (\<lambda>b. b \<noteq> 0) (drop p m)"

definition args_at :: "mem \<Rightarrow> nat option list \<Rightarrow> u8 list list option" where
  "args_at m argv = (if None \<in> set argv then Some (map (\<lambda>p. str_at m (the p)) (takeWhile (\<lambda>p. p \<noteq> None) argv)) else None)"

definition child_acts :: "sysret \<Rightarrow> u8 list \<Rightarrow> u8 list list option \<Rightarrow> act list" where
  "child_acts R path args =
     Stat_call path #
     (if r_stat R \<noteq> 0
      then [Print_name (str_of ''no such file or directory'') path, Exit_call (-1)]
      else Execv_call path args #
        (if r_execv R < 0 then [Print_name (str_of ''doesn't seems to be a executable file'') path, Exit_call (r_execv R)] else []))"

text \<open>The calls of one command, and whether the shell goes on after it.\<close>

definition cmd_execute :: "lits \<Rightarrow> sysret \<Rightarrow> mem \<Rightarrow> nat option list \<Rightarrow> (act list \<times> bool) res" where
  "cmd_execute L R m argv =
     (case argv ! 0 of
        None \<Rightarrow> Inl NullDeref
      | Some a \<Rightarrow>
          rbind (strcmp m (lit_help L) a) (\<lambda>r.
          if r = 0 then Inr ([Print help_text], True)
          else rbind (strcmp m (lit_clear L) a) (\<lambda>r.
               if r = 0 then Inr ([Print [12]], True)
               else let (child_pid, status) = r_wait R in
                    Inr (Fork (child_acts R (str_at m a) (args_at m argv)) # Wait_call #
                           (if child_pid = -1 then [Panic (str_of ''cmd_execute: no child'' @ [10])]
                            else if status \<noteq> 0 then [Print_status child_pid status] else []),
                         child_pid \<noteq> -1))))"

definition andthen :: "(act list \<times> bool) \<Rightarrow> (mem \<times> act list \<times> bool) res \<Rightarrow> (mem \<times> act list \<times> bool) res" where
  "andthen r k = (if snd r then rbind k (\<lambda>(m, as, go). Inr (m, fst r @ as, go)) else Inr ([], fst r, False))"

text \<open>\<^verbatim>\<open>cmd_parse(each_cmd, argv, ' ')\<close> and \<^verbatim>\<open>cmd_execute\<close> of the result.\<close>

definition parse_execute :: "lits \<Rightarrow> sysret \<Rightarrow> mem \<Rightarrow> nat \<Rightarrow> (mem \<times> act list \<times> bool) res" where
  "parse_execute L R m cmd =
     rbind (cmd_parse m cmd 32) (\<lambda>(argc, m, argv).
     rbind (cmd_execute L R m argv) (\<lambda>(as, go). Inr (m, as, go)))"

text \<open>The loop over further pipe symbols, with the number \<open>j\<close> of the command; each round overwrites one of them, so that there are no more rounds
  than bytes. \<open>k\<close> is the rest of the code after the loop.\<close>

fun pipe_loop ::
  "lits \<Rightarrow> (nat \<Rightarrow> sysret) \<Rightarrow> nat \<Rightarrow> nat \<Rightarrow> mem \<Rightarrow> nat \<Rightarrow> (nat \<Rightarrow> mem \<Rightarrow> nat \<Rightarrow> (mem \<times> act list \<times> bool) res) \<Rightarrow> (mem \<times> act list \<times> bool) res" where
  "pipe_loop L R j 0 m each_cmd k = Inl Diverges"
| "pipe_loop L R j (Suc n) m each_cmd k =
     rbind (strchr m 0 124) (\<lambda>ps.
     case ps of
       None \<Rightarrow> k j m each_cmd
     | Some q \<Rightarrow>
         rbind (st m q 0) (\<lambda>m.
         rbind (parse_execute L (R j) m each_cmd) (\<lambda>(m, as, go).
         andthen ([Dup2_call (Std 1) (Pipe_fd 1)] @ as, go) (pipe_loop L R (Suc j) n m (q + 1) k))))"

definition run_line :: "lits \<Rightarrow> (nat \<Rightarrow> sysret) \<Rightarrow> mem \<Rightarrow> (mem \<times> act list \<times> bool) res" where
  "run_line L R m =
     rbind (strchr m 0 124) (\<lambda>ps.
     case ps of
       Some q \<Rightarrow>
         rbind (st m q 0) (\<lambda>m.
         rbind (parse_execute L (R 0) m 0) (\<lambda>(m, as, go).
         andthen ([Pipe_call, Dup2_call (Std 1) (Pipe_fd 1)] @ as, go)
         (andthen ([Dup2_call (Std 0) (Pipe_fd 0)], True)
         (pipe_loop L R 1 (Suc (length m)) m (q + 1) (\<lambda>j m each_cmd.
            rbind (parse_execute L (R j) m each_cmd) (\<lambda>(m, as, go).
            andthen ([Dup2_call (Std 1) (Std 1)] @ as, go)
            (Inr (m, [Dup2_call (Std 0) (Std 0), Close_call (Pipe_fd 0), Close_call (Pipe_fd 1)], True))))))))
     | None \<Rightarrow>
         rbind (cmd_parse m 0 32) (\<lambda>(argc, m, argv).
         if argc = -1 then Inr (m, [Print (str_of ''shell: num of arguments exeed 16'' @ [10])], True)
         else rbind (cmd_execute L (R 0) m argv) (\<lambda>(as, go). Inr (m, as, go))))"

text \<open>One turn of the main loop: \<open>rest\<close> is the memory after \<^verbatim>\<open>cmd_line\<close>, \<open>cs\<close> the input.\<close>

definition shell_turn :: "lits \<Rightarrow> (nat \<Rightarrow> sysret) \<Rightarrow> u8 list \<Rightarrow> mem \<Rightarrow> u8 list \<Rightarrow> (u8 list option \<times> act list \<times> bool) res" where
  "shell_turn L R cwd rest cs =
     rbind (readline cwd (replicate MAX_PATH_LEN 0) MAX_PATH_LEN cs) (\<lambda>(e, buf, out1).
     let shown = [Print (print_prompt cwd), Print out1] in
     case e of
       Waiting \<Rightarrow> Inr (None, shown, True)
     | Line cs' \<Rightarrow>
         if buf ! 0 = 0 then Inr (Some cs', shown, True)
         else rbind (run_line L R (buf @ rest)) (\<lambda>(m, as, go). Inr (Some cs', shown @ as, go))
     | Too_long cs' \<Rightarrow>
         if buf ! 0 = 0 then Inr (Some cs', shown, True)
         else rbind (run_line L R (buf @ rest)) (\<lambda>(m, as, go). Inr (Some cs', shown @ as, go)))"

section \<open>The same on words\<close>

definition run_spec :: "sysret \<Rightarrow> u8 list list \<Rightarrow> act list \<times> bool" where
  "run_spec R ws =
     (if hd ws = str_of ''help'' then ([Print help_text], True)
      else if hd ws = str_of ''clear'' then ([Print [12]], True)
      else (Fork (child_acts R (hd ws) (Some ws)) # Wait_call #
              (if fst (r_wait R) = -1 then [Panic (str_of ''cmd_execute: no child'' @ [10])]
               else if snd (r_wait R) \<noteq> 0 then [Print_status (fst (r_wait R)) (snd (r_wait R))] else []),
            fst (r_wait R) \<noteq> -1))"

text \<open>What a line does: without a pipe symbol one command; otherwise two, split at the first pipe symbol.\<close>

definition first_part :: "u8 list \<Rightarrow> u8 list" where "first_part line = takeWhile (\<lambda>c. c \<noteq> 124) line"
definition second_part :: "u8 list \<Rightarrow> u8 list" where "second_part line = drop (Suc (length (first_part line))) line"

definition line_spec :: "(nat \<Rightarrow> sysret) \<Rightarrow> u8 list \<Rightarrow> act list \<times> bool" where
  "line_spec R line =
     (if 124 \<notin> set line then run_spec (R 0) (words 32 line)
      else let (a1, g1) = run_spec (R 0) (words 32 (first_part line)); a1 = [Pipe_call, Dup2_call (Std 1) (Pipe_fd 1)] @ a1 in
           if \<not> g1 then (a1, False)
           else let (a2, g2) = run_spec (R 1) (words 32 (second_part line));
                    a2 = a1 @ [Dup2_call (Std 0) (Pipe_fd 0), Dup2_call (Std 1) (Std 1)] @ a2 in
                if \<not> g2 then (a2, False)
                else (a2 @ [Dup2_call (Std 0) (Std 0), Close_call (Pipe_fd 0), Close_call (Pipe_fd 1)], True))"

lemma str_at_cstr: "cstr m p w \<Longrightarrow> str_at m p = w"
proof (induction w arbitrary: p)
  case Nil
  then have "drop p m = 0 # drop (Suc p) m" by (simp add: Cons_nth_drop_Suc[symmetric])
  then show ?case by (simp add: str_at_def)
next
  case (Cons x w)
  then have "drop p m = x # drop (Suc p) m" "x \<noteq> 0" by (auto simp: Cons_nth_drop_Suc[symmetric])
  then show ?case using Cons by (simp add: str_at_def)
qed

lemma args_at_words:
  assumes "length argv = n" "length ws < n" "\<And>k. k < length ws \<Longrightarrow> \<exists>q. argv ! k = Some q \<and> cstr m q (ws ! k)"
    "\<And>k. k < n \<Longrightarrow> length ws \<le> k \<Longrightarrow> argv ! k = None"
  shows "args_at m argv = Some ws"
proof -
  have none: "argv ! length ws = None" using assms(2,4) by simp
  have tw: "takeWhile (\<lambda>p. p \<noteq> None) argv = take (length ws) argv"
    using assms(1-3) none by (intro takeWhile_eq_take_P_nth) auto
  have "map (\<lambda>p. str_at m (the p)) (take (length ws) argv) = ws"
  proof (rule nth_equalityI)
    fix i assume "i < length (map (\<lambda>p. str_at m (the p)) (take (length ws) argv))"
    then have i: "i < length ws" by simp
    obtain q where "argv ! i = Some q" "cstr m q (ws ! i)" using assms(3)[OF i] by blast
    then show "map (\<lambda>p. str_at m (the p)) (take (length ws) argv) ! i = ws ! i" using i assms(1,2) by (simp add: str_at_cstr)
  qed (use assms(1,2) in simp)
  moreover have "None \<in> set argv" using none assms(1,2) by (metis nth_mem)
  ultimately show ?thesis using tw by (simp add: args_at_def)
qed

lemma execute_words:
  assumes ws: "ws \<noteq> []" "length ws < MAX_ARG_NR" "length argv = MAX_ARG_NR"
    and a: "\<forall>k < length ws. \<exists>q. argv ! k = Some q \<and> cstr m q (ws ! k)" "\<forall>k < MAX_ARG_NR. length ws \<le> k \<longrightarrow> argv ! k = None"
    and lit: "cstr m (lit_help L) (str_of ''help'')" "cstr m (lit_clear L) (str_of ''clear'')"
  shows "cmd_execute L R m argv = Inr (run_spec R ws)"
proof -
  obtain q where q: "argv ! 0 = Some q" "cstr m q (hd ws)" using a(1) ws(1) by (auto simp: hd_conv_nth)
  obtain r1 where r1: "strcmp m (lit_help L) q = Inr r1" "r1 = 0 \<longleftrightarrow> str_of ''help'' = hd ws" using strcmp_ok[OF lit(1) q(2)] by blast
  obtain r2 where r2: "strcmp m (lit_clear L) q = Inr r2" "r2 = 0 \<longleftrightarrow> str_of ''clear'' = hd ws" using strcmp_ok[OF lit(2) q(2)] by blast
  have "args_at m argv = Some ws" using args_at_words[OF ws(3,2)] a by blast
  then show ?thesis using q r1 r2 by (auto simp: cmd_execute_def run_spec_def str_at_cstr case_prod_beta eq_commute[of "hd ws"])
qed

definition fits :: "u8 list \<Rightarrow> bool" where
  "fits s \<longleftrightarrow> words 32 s \<noteq> [] \<and> length (words 32 s) < MAX_ARG_NR"

lemma parse_words_execute:
  assumes c: "cstr m p s" and f: "fits s" and past: "p + length s \<le> lit_help L" "p + length s \<le> lit_clear L"
    and lit: "cstr m (lit_help L) (str_of ''help'')" "cstr m (lit_clear L) (str_of ''clear'')"
  shows "\<exists>m' n argv. cmd_parse m p 32 = Inr (int n, m', argv) \<and> cmd_execute L R m' argv = Inr (run_spec R (words 32 s)) \<and> length m' = length m \<and>
    (\<forall>i. i < p \<or> p + length s \<le> i \<longrightarrow> m' ! i = m ! i)"
proof -
  have len: "length (words 32 s) \<le> MAX_ARG_NR" using f by (simp add: fits_def)
  obtain m' argv where r: "cmd_parse m p 32 = Inr (int (length (words 32 s)), m', argv)" "length argv = MAX_ARG_NR"
      "\<forall>k < length (words 32 s). \<exists>q. argv ! k = Some q \<and> cstr m' q (words 32 s ! k)"
      "\<forall>k < MAX_ARG_NR. length (words 32 s) \<le> k \<longrightarrow> argv ! k = None"
      "length m' = length m" "\<forall>i. i < p \<or> p + length s \<le> i \<longrightarrow> m' ! i = m ! i"
    using cmd_parse_ok[OF c, of 32] len by auto
  have "cstr m' (lit_help L) (str_of ''help'')" by (rule cstr_frame[OF lit(1) r(5)]) (use r(6) past in auto)
  moreover have "cstr m' (lit_clear L) (str_of ''clear'')" by (rule cstr_frame[OF lit(2) r(5)]) (use r(6) past in auto)
  ultimately have "cmd_execute L R m' argv = Inr (run_spec R (words 32 s))"
    using execute_words[OF _ _ r(2-4)] f by (auto simp: fits_def)
  then show ?thesis using r by blast
qed

text \<open>Splitting a command only writes zeros.\<close>

lemma cmd_parse_zeros:
  "cmd_parse_from m token argv argc p = Inr (r, m', argv') \<Longrightarrow> length m' = length m \<and> (\<forall>i. m' ! i = m ! i \<or> m' ! i = 0)"
proof (induction m token argv argc p rule: cmd_parse_from.induct)
  case (1 m token argv argc p)
  show ?case
  proof (cases "ld m p")
    case (Inr b)
    show ?thesis
    proof (cases "skip_token m token p")
      case q: (Inr q)
      show ?thesis
      proof (cases "word_end m token q")
        case e: (Inr e)
        have len: "e < length m" using word_end_Inr[OF e] by simp
        show ?thesis
          using "1.prems" "1.IH"[OF Inr _ q _ _ refl e] Inr q e len cmd_parse_from.simps[of m token argv argc p]
          by (auto simp: Let_def nth_list_update split: if_splits) (metis length_list_update nth_list_update)+
      qed (use "1.prems" Inr q cmd_parse_from.simps[of m token argv argc p] in \<open>auto split: if_splits\<close>)
    qed (use "1.prems" Inr cmd_parse_from.simps[of m token argv argc p] in \<open>auto split: if_splits\<close>)
  qed (use "1.prems" cmd_parse_from.simps[of m token argv argc p] in auto)
qed

section \<open>A line\<close>

lemma cstr_until:
  assumes "m ! j = 0" "j < length m" "p \<le> j"
  shows "\<exists>s. cstr m p s \<and> p + length s \<le> j \<and> (\<forall>c \<in> set s. \<exists>i. p \<le> i \<and> i < j \<and> c = m ! i)"
  using assms
proof (induction "j - p" arbitrary: p)
  case 0
  then show ?case by (intro exI[of _ "[]"]) auto
next
  case (Suc d)
  show ?case
  proof (cases "m ! p = 0")
    case True
    then show ?thesis using Suc.prems by (intro exI[of _ "[]"]) auto
  next
    case False
    obtain s where s: "cstr m (Suc p) s" "Suc p + length s \<le> j" "\<forall>c \<in> set s. \<exists>i. Suc p \<le> i \<and> i < j \<and> c = m ! i"
      using Suc.hyps(1)[OF _ Suc.prems(1,2), of "Suc p"] Suc.hyps(2) by fastforce
    have "p < j" using Suc.hyps(2) by simp
    then show ?thesis using s False Suc.prems by (intro exI[of _ "m ! p # s"]) (auto intro: Suc_leD)
  qed
qed

lemma no_more_pipes:
  assumes "m ! j = 0" "j < length m" "\<forall>i < j. m ! i \<noteq> 124"
  shows "strchr m 0 124 = Inr None"
proof -
  obtain s where "cstr m 0 s" "\<forall>c \<in> set s. \<exists>i. 0 \<le> i \<and> i < j \<and> c = m ! i" using cstr_until[OF assms(1,2), of 0] by auto
  then show ?thesis using strchr_ok[of m 0 s 124] assms(3) by auto
qed

definition has_lits :: "lits \<Rightarrow> mem \<Rightarrow> nat \<Rightarrow> bool" where
  "has_lits L m n \<longleftrightarrow> n \<le> lit_help L \<and> n \<le> lit_clear L \<and> cstr m (lit_help L) (str_of ''help'') \<and> cstr m (lit_clear L) (str_of ''clear'')"

lemma has_lits_frame: "has_lits L m n \<Longrightarrow> length m' = length m \<Longrightarrow> (\<And>i. n \<le> i \<Longrightarrow> m' ! i = m ! i) \<Longrightarrow> has_lits L m' n"
  unfolding has_lits_def by (auto intro: cstr_frame)

lemma parse_execute_ok:
  assumes "cstr m p s" "fits s" "has_lits L m n" "p + length s \<le> n"
  shows "\<exists>m'. parse_execute L R m p = Inr (m', run_spec R (words 32 s)) \<and> length m' = length m \<and>
    (\<forall>i. i < p \<or> p + length s \<le> i \<longrightarrow> m' ! i = m ! i) \<and> (\<forall>i. m' ! i = m ! i \<or> m' ! i = 0)"
proof -
  obtain m' k argv where r: "cmd_parse m p 32 = Inr (int k, m', argv)" "cmd_execute L R m' argv = Inr (run_spec R (words 32 s))" "length m' = length m"
      "\<forall>i. i < p \<or> p + length s \<le> i \<longrightarrow> m' ! i = m ! i"
    using parse_words_execute[OF assms(1,2), of L R] assms(3,4) by (auto simp: has_lits_def)
  have "\<forall>i. m' ! i = m ! i \<or> m' ! i = 0" using cmd_parse_zeros r(1) unfolding cmd_parse_def by blast
  then show ?thesis using r by (intro exI[of _ m']) (simp add: parse_execute_def case_prod_beta)
qed

lemma split_line:
  assumes "cstr m 0 line" "124 \<in> set line"
  shows "cstr (m[length (first_part line) := 0]) 0 (first_part line)"
    "cstr (m[length (first_part line) := 0]) (Suc (length (first_part line))) (second_part line)"
    "length (first_part line) + length (second_part line) < length line" "124 \<notin> set (first_part line)"
    "\<And>i. i < length (first_part line) \<Longrightarrow> m ! i \<noteq> 124"
proof -
  let ?k = "length (first_part line)"
  have k: "?k < length line" using assms(2) unfolding first_part_def by (induction line) auto
  have fp: "first_part line = take ?k line" unfolding first_part_def by (metis takeWhile_eq_take)
  show "cstr (m[?k := 0]) 0 (first_part line)" using cstr_cut[OF assms(1), of ?k] k fp by simp
  have "cstr m (Suc ?k) (second_part line)" using cstr_drop[OF assms(1), of "Suc ?k"] k by (simp add: second_part_def)
  then show "cstr (m[?k := 0]) (Suc ?k) (second_part line)" by (rule cstr_frame) auto
  show "length (first_part line) + length (second_part line) < length line" using k by (simp add: second_part_def)
  show n: "124 \<notin> set (first_part line)" unfolding first_part_def using set_takeWhileD by force
  show "m ! i \<noteq> 124" if "i < ?k" for i
  proof -
    have "m ! i = line ! i" using assms(1) that k cstr_drop[OF assms(1), of i] by (cases "drop i line") (auto simp: nth_via_drop)
    then show ?thesis using n that fp by (metis nth_mem nth_take)
  qed
qed

lemma run_line_ok:
  assumes c: "cstr m 0 line" and l: "has_lits L m n" "length line \<le> n" and "n \<le> length m"
    and f: "if 124 \<in> set line then fits (first_part line) \<and> fits (second_part line) else fits line"
  shows "\<exists>m'. run_line L R m = Inr (m', line_spec R line)"
proof (cases "124 \<in> set line")
  case False
  then have s: "strchr m 0 124 = Inr None" "fits line" using strchr_ok[OF c, of 124] f by auto
  obtain m' k argv where "cmd_parse m 0 32 = Inr (int k, m', argv)" "cmd_execute L (R 0) m' argv = Inr (run_spec (R 0) (words 32 line))"
    using parse_words_execute[OF c s(2), of L "R 0"] l by (auto simp: has_lits_def)
  then show ?thesis using s(1) False by (intro exI[of _ m']) (simp add: run_line_def line_spec_def case_prod_beta)
next
  case True
  let ?k = "length (first_part line)" and ?m = "m[length (first_part line) := 0]"
  note S = split_line[OF c True]
  have s: "strchr m 0 124 = Inr (Some ?k)" "fits (first_part line)" "fits (second_part line)"
    using strchr_ok[OF c, of 124] f True by (auto simp: first_part_def)
  have kl: "?k < length m" using S(3) l(2) assms(4) by simp
  have lit: "has_lits L ?m n" by (rule has_lits_frame[OF l(1)]) (use S(3) l(2) in auto)
  obtain m1 where m1: "parse_execute L (R 0) ?m 0 = Inr (m1, run_spec (R 0) (words 32 (first_part line)))" "length m1 = length m"
      "\<forall>i. ?k \<le> i \<longrightarrow> m1 ! i = ?m ! i" "\<forall>i. m1 ! i = ?m ! i \<or> m1 ! i = 0"
    using parse_execute_ok[OF S(1) s(2) lit, of "R 0"] S(3) l(2) by auto
  have "m1 ! ?k = 0" using m1(3) kl by simp
  moreover have "m1 ! i \<noteq> 124" if "i < ?k" for i using m1(4)[rule_format, of i] S(5)[OF that] that by auto
  ultimately have n1: "strchr m1 0 124 = Inr None" using no_more_pipes[of m1 ?k] m1(2) kl by simp
  have c2: "cstr m1 (Suc ?k) (second_part line)" by (rule cstr_frame[OF S(2)]) (use m1 in auto)
  have lit1: "has_lits L m1 n" by (rule has_lits_frame[OF lit]) (use m1 S(3) l(2) in auto)
  obtain m2 where m2: "parse_execute L (R 1) m1 (Suc ?k) = Inr (m2, run_spec (R 1) (words 32 (second_part line)))"
    using parse_execute_ok[OF c2 s(3) lit1, of "R 1"] S(3) l(2) by auto
  have st: "st m ?k 0 = Inr ?m" using kl by (simp add: st_def)
  show ?thesis
    using s(1) st m1(1) n1 m2 True by (auto simp: run_line_def line_spec_def andthen_def case_prod_beta Let_def)
qed

lemma cstr_append: "cstr m p s \<Longrightarrow> cstr (m @ rest) p s"
  by (induction s arbitrary: p) (auto simp: nth_append)

lemma shell_turn_ok:
  assumes cs: "length cs \<le> MAX_PATH_LEN" "0 \<notin> set cs" "edit [] cs = Some (line, cs')" and "line \<noteq> []"
    and lits: "has_lits L (replicate MAX_PATH_LEN 0 @ rest) MAX_PATH_LEN"
    and f: "if 124 \<in> set line then fits (first_part line) \<and> fits (second_part line) else fits line"
  shows "\<exists>o1. shell_turn L R cwd rest cs = Inr (Some cs', [Print (print_prompt cwd), Print o1] @ fst (line_spec R line), snd (line_spec R line))"
proof -
  obtain buf o1 where b: "readline cwd (replicate MAX_PATH_LEN 0) MAX_PATH_LEN cs = Inr (Line cs', buf, o1)" "cstr buf 0 line" "length buf = MAX_PATH_LEN"
    using readline_line[of "[]" "replicate MAX_PATH_LEN 0" MAX_PATH_LEN cs line cs' cwd] cs by (auto simp: readline_def)
  have l: "has_lits L (buf @ rest) MAX_PATH_LEN" by (rule has_lits_frame[OF lits]) (use b(3) in \<open>auto simp: nth_append\<close>)
  have len: "length line \<le> MAX_PATH_LEN" "MAX_PATH_LEN \<le> length (buf @ rest)" using cstr_bound[OF b(2)] b(3) by auto
  obtain m' where m': "run_line L R (buf @ rest) = Inr (m', line_spec R line)" using run_line_ok[OF cstr_append[OF b(2)] l len f] by blast
  have "buf ! 0 \<noteq> 0" using b(2) assms(4) by (cases line) auto
  then show ?thesis using b(1) m' by (intro exI[of _ o1]) (simp add: shell_turn_def case_prod_beta)
qed

lemma words_blank: "set s \<subseteq> {token} \<Longrightarrow> words token s = []"
  by (induction s) auto

lemma shell_turn_blank:
  assumes cs: "length cs \<le> MAX_PATH_LEN" "0 \<notin> set cs" "edit [] cs = Some (line, cs')" and "line \<noteq> []" "set line \<subseteq> {32}"
  shows "shell_turn L R cwd rest cs = Inl NullDeref"
proof -
  obtain buf o1 where b: "readline cwd (replicate MAX_PATH_LEN 0) MAX_PATH_LEN cs = Inr (Line cs', buf, o1)" "cstr buf 0 line" "length buf = MAX_PATH_LEN"
    using readline_line[of "[]" "replicate MAX_PATH_LEN 0" MAX_PATH_LEN cs line cs' cwd] cs by (auto simp: readline_def)
  have c: "cstr (buf @ rest) 0 line" by (rule cstr_append[OF b(2)])
  have "124 \<notin> set line" using assms(5) by auto
  then have "strchr (buf @ rest) 0 124 = Inr None" using strchr_ok[OF c, of 124] by auto
  moreover obtain m' argv where "cmd_parse (buf @ rest) 0 32 = Inr (0, m', argv)" "argv ! 0 = None"
    using cmd_parse_ok[OF c, of 32] words_blank[OF assms(5)] by (auto simp: MAX_ARG_NR_def)
  ultimately have "run_line L R (buf @ rest) = Inl NullDeref" by (simp add: run_line_def cmd_execute_def)
  moreover have "buf ! 0 \<noteq> 0" using b(2) assms(4) by (cases line) auto
  ultimately show ?thesis using b(1) by (simp add: shell_turn_def)
qed

section \<open>Properties\<close>

text \<open>C38. A command line. For any input that the line editor turns into a line of at most 15 words per command, one turn of the shell makes exactly
  the calls of the specification: \<^verbatim>\<open>help\<close> and \<^verbatim>\<open>clear\<close> are run by the shell itself; any other command is run in a new process with exactly the words
  of the line as its arguments, and the shell waits for it; a line with a pipe symbol runs the commands before and after the first one, one after
  the other, with their standard output and input redirected to a pipe. Further pipe symbols do not start further commands: they stay in the
  second command. And a line of spaces only makes the shell compare the name of the command through a NULL pointer.\<close>

theorem shell_runs_line:
  assumes "length cs \<le> MAX_PATH_LEN" "0 \<notin> set cs" "edit [] cs = Some (line, cs')" "line \<noteq> []"
    "has_lits L (replicate MAX_PATH_LEN 0 @ rest) MAX_PATH_LEN"
  shows "((if 124 \<in> set line then fits (first_part line) \<and> fits (second_part line) else fits line) \<longrightarrow>
      (\<exists>o1. shell_turn L R cwd rest cs = Inr (Some cs', [Print (print_prompt cwd), Print o1] @ fst (line_spec R line), snd (line_spec R line)))) \<and>
    (set line \<subseteq> {32} \<longrightarrow> shell_turn L R cwd rest cs = Inl NullDeref)"
  using shell_turn_ok[OF assms] shell_turn_blank[OF assms(1-4)] by blast

text \<open>The line \<^verbatim>\<open>a|b|c\<close> runs \<^verbatim>\<open>a\<close> and a program called \<^verbatim>\<open>b|c\<close>.\<close>

theorem shell_runs_line_witness:
  "\<exists>o1. shell_turn \<lparr>lit_help = 512, lit_clear = 517\<rparr> (\<lambda>_. \<lparr>r_wait = (5, 0), r_stat = 0, r_execv = 0\<rparr>) [47]
      (str_of ''help'' @ [0] @ str_of ''clear'' @ [0]) (str_of ''a|b|c'' @ [10]) =
    Inr (Some [], [Print (print_prompt [47]), Print o1,
      Pipe_call, Dup2_call (Std 1) (Pipe_fd 1), Fork [Stat_call (str_of ''a''), Execv_call (str_of ''a'') (Some [str_of ''a''])], Wait_call,
      Dup2_call (Std 0) (Pipe_fd 0), Dup2_call (Std 1) (Std 1),
      Fork [Stat_call (str_of ''b|c''), Execv_call (str_of ''b|c'') (Some [str_of ''b|c''])], Wait_call,
      Dup2_call (Std 0) (Std 0), Close_call (Pipe_fd 0), Close_call (Pipe_fd 1)], True)"
proof -
  let ?cs = "str_of ''a|b|c'' @ [10]" and ?line = "str_of ''a|b|c''" and ?L = "\<lparr>lit_help = 512, lit_clear = 517\<rparr>"
    and ?rest = "str_of ''help'' @ [0] @ str_of ''clear'' @ [0]" and ?R = "\<lambda>_ :: nat. \<lparr>r_wait = (5, 0), r_stat = 0, r_execv = 0\<rparr>"
  have i: "length ?cs \<le> MAX_PATH_LEN" "0 \<notin> set ?cs" "edit [] ?cs = Some (?line, [])" "?line \<noteq> []"
    by (simp_all add: MAX_PATH_LEN_def str_of_def)
  have c: "cstr (xs @ ys @ 0 # zs) (length xs) ys" if "0 \<notin> set ys" for xs ys zs using that by (intro cstr_nth) (auto simp: nth_append)
  have "cstr (replicate 512 0 @ ?rest) 512 (str_of ''help'')"
    using c[of "str_of ''help''" "replicate 512 0" "str_of ''clear'' @ [0]"] by (simp add: str_of_def)
  moreover have "cstr (replicate 512 0 @ ?rest) 517 (str_of ''clear'')"
    using c[of "str_of ''clear''" "replicate 512 0 @ str_of ''help'' @ [0]" "[]"] by (simp add: str_of_def)
  ultimately have l: "has_lits ?L (replicate MAX_PATH_LEN 0 @ ?rest) MAX_PATH_LEN" by (simp add: has_lits_def MAX_PATH_LEN_def)
  have f: "if 124 \<in> set ?line then fits (first_part ?line) \<and> fits (second_part ?line) else fits ?line"
    by (simp add: fits_def first_part_def second_part_def MAX_ARG_NR_def str_of_def)
  have s: "line_spec ?R ?line = ([Pipe_call, Dup2_call (Std 1) (Pipe_fd 1), Fork [Stat_call (str_of ''a''), Execv_call (str_of ''a'') (Some [str_of ''a''])], Wait_call,
      Dup2_call (Std 0) (Pipe_fd 0), Dup2_call (Std 1) (Std 1),
      Fork [Stat_call (str_of ''b|c''), Execv_call (str_of ''b|c'') (Some [str_of ''b|c''])], Wait_call,
      Dup2_call (Std 0) (Std 0), Close_call (Pipe_fd 0), Close_call (Pipe_fd 1)], True)"
    by (simp add: line_spec_def run_spec_def child_acts_def first_part_def second_part_def str_of_def)
  show ?thesis using shell_runs_line[OF i l, of ?R "[47]"] f unfolding s by auto
qed

end
