(* ===== verification/Snake.thy ===== *)
theory Snake
  imports Stdio
begin

text \<open>
  The snake game (\<^verbatim>\<open>command/snake.c\<close>): the keys, the random numbers and the moves.

  The child process of \<^verbatim>\<open>main\<close> is a step function on the game: the map, the ring buffer \<^verbatim>\<open>sites\<close> of the positions of the snake with the indices of its
  head (\<^verbatim>\<open>start\<close>) and of the place before its tail (\<^verbatim>\<open>end\<close>), the position of the head and of the food. The search for a free place for new
  food may not end; \<open>food\<close> is \<open>None\<close> then. The positions are 64-bit numbers: a step up adds \<^verbatim>\<open>(size_t)-20\<close>. \<^verbatim>\<open>sites\<close> is not initialised, so its first
  content is a parameter.
\<close>

section \<open>The code\<close>

definition HEI :: nat where "HEI = 20"
definition WID :: nat where "WID = 20"

datatype direct = LEFT | DOWN | UP | RIGHT | QUIT

fun code_of :: "direct \<Rightarrow> nat" where
  "code_of LEFT = 0" | "code_of DOWN = 1" | "code_of UP = 2" | "code_of RIGHT = 3" | "code_of QUIT = 4"

text \<open>\<^verbatim>\<open>input\<close> on the characters that are typed; other keys are skipped.\<close>

fun input :: "u8 list \<Rightarrow> (direct \<times> u8 list) option" where
  "input [] = None"
| "input (c # cs) =
     (if c = 104 then Some (LEFT, cs)
      else if c = 106 then Some (DOWN, cs)
      else if c = 107 then Some (UP, cs)
      else if c = 108 then Some (RIGHT, cs)
      else if c = 113 then Some (QUIT, cs)
      else input cs)"

definition rand :: "u64 \<Rightarrow> u64" where
  "rand seed = (seed * 6807) mod 2147483647"

text \<open>\<^verbatim>\<open>do { fsite = rand() % (WID * HEI); } while (map[fsite]);\<close> gives the place and the new seed.\<close>

partial_function (option) food :: "bool list \<Rightarrow> u64 \<Rightarrow> (u64 \<times> u64) option" where
  "food m s =
     (let s = rand s; f = s mod of_nat (WID * HEI) in
      if m ! unat f then food m s else Some (f, s))"

declare food.simps [code]

record game =
  g_map :: "bool list"
  sites :: "u64 list"
  g_start :: nat
  g_end :: nat
  fsite :: u64
  site :: u64
  seed :: u64

definition border :: "nat \<Rightarrow> bool" where
  "border i \<longleftrightarrow> \<not> (i div WID mod (HEI - 1) \<noteq> 0 \<and> i mod WID mod (WID - 1) \<noteq> 0)"

definition snake_init :: "u64 list \<Rightarrow> u64 \<Rightarrow> game option" where
  "snake_init junk clock =
     (let p = of_nat ((HEI div 2) * WID + WID div 2);
          m = map border [0..<WID * HEI];
          start = (0 + 1) mod (WID * HEI);
          m = m[unat p := True] in
      Option.bind (food m clock) (\<lambda>(f, s).
      Some \<lparr>g_map = m, sites = junk[start := p], g_start = start, g_end = 0, fsite = f, site = p, seed = s\<rparr>))"

definition dist :: "direct \<Rightarrow> u64" where
  "dist d = (if code_of d mod 2 \<noteq> 0 then 1 else -1) * (if d = UP \<or> d = DOWN then of_nat WID else 1)"

datatype outcome = Quit | Hit | Next game | Endless | Crash kerr

definition snake_step :: "direct \<Rightarrow> game \<Rightarrow> outcome" where
  "snake_step d g =
     (if d = QUIT then Quit
      else let p = site g + dist d in
        if \<not> unat p < length (g_map g) then Crash OutOfBounds
        else if g_map g ! unat p then Hit
        else let start = (g_start g + 1) mod (WID * HEI) in
          if \<not> start < length (sites g) then Crash OutOfBounds
          else let ss = (sites g)[start := p]; m = (g_map g)[unat p := True] in
            if p = fsite g
            then (case food m (seed g) of
                    None \<Rightarrow> Endless
                  | Some (f, s) \<Rightarrow> Next (g\<lparr>g_map := m, sites := ss, g_start := start, fsite := f, site := p, seed := s\<rparr>))
            else let e = (g_end g + 1) mod (WID * HEI) in
              if \<not> e < length ss \<or> \<not> unat (ss ! e) < length m then Crash OutOfBounds
              else Next (g\<lparr>g_map := m[unat (ss ! e) := False], sites := ss, g_start := start, g_end := e, site := p\<rparr>))"

fun snake_run :: "direct list \<Rightarrow> game \<Rightarrow> outcome" where
  "snake_run [] g = Next g"
| "snake_run (d # ds) g = (case snake_step d g of Next g' \<Rightarrow> snake_run ds g' | r \<Rightarrow> r)"

text \<open>The screen: a form feed, the place of the food, and two characters for each place.\<close>

definition output_screen :: "bool list \<Rightarrow> nat \<Rightarrow> u8 list" where
  "output_screen m f = [12] @ digits 10 f @ concat (map (\<lambda>idx.
     (if idx mod WID = 0 then [10] else []) @ (if idx = f then [40, 41] else if m ! idx then [91, 93] else [32, 32])) [0..<WID * HEI])"

section \<open>The invariant\<close>

definition inner :: "u64 \<Rightarrow> bool" where
  "inner p \<longleftrightarrow> unat p < 400 \<and> 1 \<le> unat p div 20 \<and> unat p div 20 \<le> 18 \<and> 1 \<le> unat p mod 20 \<and> unat p mod 20 \<le> 18"

text \<open>The positions in the ring buffer after the place \<open>e\<close>, from the tail to the head.\<close>

definition ring :: "u64 list \<Rightarrow> nat \<Rightarrow> nat \<Rightarrow> u64 list" where
  "ring ss e n = map (\<lambda>k. ss ! ((e + 1 + k) mod 400)) [0..<n]"

definition snake_inv :: "game \<Rightarrow> u64 list \<Rightarrow> bool" where
  "snake_inv g body \<longleftrightarrow>
     body \<noteq> [] \<and> distinct body \<and> (\<forall>p \<in> set body. inner p) \<and> site g = last body \<and>
     length (sites g) = 400 \<and> g_end g < 400 \<and> g_start g = (g_end g + length body) mod 400 \<and> ring (sites g) (g_end g) (length body) = body \<and>
     length (g_map g) = 400 \<and> (\<forall>i < 400. g_map g ! i \<longleftrightarrow> border i \<or> of_nat i \<in> set body) \<and>
     inner (fsite g) \<and> fsite g \<notin> set body"

lemma mod19: "x < 20 \<Longrightarrow> x mod 19 \<noteq> 0 \<longleftrightarrow> 1 \<le> x \<and> x \<le> 18" for x :: nat
  by (cases "x = 19") auto

lemma unat_small: "i < 400 \<Longrightarrow> unat (of_nat i :: u64) = i"
  by (simp add: unat_of_nat take_bit_eq_mod)

lemma border_inner: "i < 400 \<Longrightarrow> border i \<longleftrightarrow> \<not> inner (of_nat i)"
  using mod19[of "i div 20"] mod19[of "i mod 20"] by (auto simp: border_def inner_def unat_small HEI_def WID_def less_mult_imp_div_less)

lemma inner_range: "inner p \<Longrightarrow> 20 \<le> unat p \<and> unat p < 380"
  unfolding inner_def using div_mult_mod_eq[of "unat p" 20] by linarith

lemma move_bound:
  assumes "inner p" "d \<noteq> QUIT"
  shows "unat (p + dist d) < 400"
proof -
  have r: "20 \<le> unat p" "unat p < 380" using inner_range[OF assms(1)] by auto
  have le: "20 \<le> p" "1 \<le> p" using r by (simp_all add: word_le_nat_alt)
  have "unat (p - 20) = unat p - 20" "unat (p - 1) = unat p - 1" using unat_sub[OF le(1)] unat_sub[OF le(2)] by simp_all
  moreover have "unat (p + 20) = unat p + 20" "unat (p + 1) = unat p + 1" using r by (simp_all add: unat_word_ariths)
  ultimately show ?thesis using r assms(2) by (cases d) (simp_all add: dist_def WID_def)
qed

lemma body_short:
  assumes "distinct body" "\<forall>p \<in> set body. inner p"
  shows "length body < 400"
proof -
  have "length body = card (unat ` set body)" using assms(1) by (metis card_image distinct_card inj_on_def unsigned_word_eqI)
  also have "\<dots> \<le> card {20..<380 :: nat}" using assms(2) inner_range by (intro card_mono) auto
  finally show ?thesis by simp
qed

lemma ring_push:
  assumes "n < 400" "length ss = 400"
  shows "ring (ss[(e + n + 1) mod 400 := p]) e (Suc n) = ring ss e n @ [p]"
proof -
  have "(e + 1 + k) mod 400 \<noteq> (e + n + 1) mod 400" if "k < n" for k
    using that assms(1) mod_eq_dvd_iff_nat[of "e + 1 + k" "e + n + 1" 400] by (auto dest: dvd_imp_le)
  then have "ss[(e + n + 1) mod 400 := p] ! ((e + 1 + k) mod 400) = ss ! ((e + 1 + k) mod 400)" if "k < n" for k using that by (metis nth_list_update_neq)
  moreover have "ss[(e + n + 1) mod 400 := p] ! ((e + 1 + n) mod 400) = p" using assms(2) by (simp add: ac_simps)
  ultimately show ?thesis by (simp add: ring_def)
qed

lemma ring_drop: "ring ss ((e + 1) mod 400) n = tl (ring ss e (Suc n))" "ring ss e (Suc n) = ss ! ((e + 1) mod 400) # tl (ring ss e (Suc n))"
proof -
  have "((e + 1) mod 400 + 1 + k) mod 400 = (e + 1 + Suc k) mod 400" for k
    using mod_add_left_eq[of "e + 1" 400 "1 + k"] by (simp add: add.assoc)
  then have "ring ss ((e + 1) mod 400) n = map (\<lambda>k. ss ! ((e + 1 + Suc k) mod 400)) [0..<n]" by (simp only: ring_def)
  also have "\<dots> = map (\<lambda>k. ss ! ((e + 1 + k) mod 400)) [1..<Suc n]" by (simp add: map_Suc_upt[symmetric] o_def del: upt_Suc)
  also have "\<dots> = tl (ring ss e (Suc n))" by (simp add: ring_def upt_conv_Cons del: upt_Suc)
  finally show "ring ss ((e + 1) mod 400) n = tl (ring ss e (Suc n))" .
  show "ring ss e (Suc n) = ss ! ((e + 1) mod 400) # tl (ring ss e (Suc n))" by (simp add: ring_def upt_conv_Cons del: upt_Suc)
qed

lemma food_free: "food m s = Some r \<Longrightarrow> unat (fst r) < 400 \<and> \<not> m ! unat (fst r)"
proof (rule food.raw_induct[where P = "\<lambda>m s r. unat (fst r) < 400 \<and> \<not> m ! unat (fst r)"])
  fix rec m s r
  assume "\<And>m s r. rec m s = Some r \<Longrightarrow> unat (fst r) < 400 \<and> \<not> m ! unat (fst r)"
    and "(let s = rand s; f = s mod of_nat (WID * HEI) in if m ! unat f then rec m s else Some (f, s)) = Some r"
  then show "unat (fst r) < 400 \<and> \<not> m ! unat (fst r)"
    by (auto simp: Let_def WID_def HEI_def unat_mod split: if_splits)
qed

lemma food_zero: "food m s = Some r \<Longrightarrow> m ! 0 \<Longrightarrow> s \<noteq> 0"
proof -
  assume "food m s = Some r"
  then have "m ! 0 \<longrightarrow> s \<noteq> 0"
  proof (rule food.raw_induct[where P = "\<lambda>m s r. m ! 0 \<longrightarrow> s \<noteq> 0", rotated])
    fix rec m s r
    assume "\<And>m s r. rec m s = Some r \<Longrightarrow> m ! 0 \<longrightarrow> s \<noteq> (0 :: u64)"
      and "(let s = rand s; f = s mod of_nat (WID * HEI) in if m ! unat f then rec m s else Some (f, s)) = Some r"
    then show "m ! 0 \<longrightarrow> s \<noteq> 0" by (cases "s = 0") (fastforce simp: Let_def rand_def split: if_splits)+
  qed
  then show "m ! 0 \<Longrightarrow> s \<noteq> 0" by blast
qed

section \<open>A move\<close>

text \<open>The snake after a move to \<open>p\<close>, with the indices and positions that the code writes.\<close>

lemma moved_inv:
  assumes inv: "snake_inv g body" and p: "unat p < 400" "\<not> g_map g ! unat p"
  shows "inner p" "p \<notin> set body" "(g_start g + 1) mod 400 = (g_end g + length body + 1) mod 400"
    "ring ((sites g)[(g_start g + 1) mod 400 := p]) (g_end g) (Suc (length body)) = body @ [p]"
    "\<And>i. i < 400 \<Longrightarrow> (g_map g)[unat p := True] ! i \<longleftrightarrow> border i \<or> of_nat i \<in> set (body @ [p])"
proof -
  have m: "\<forall>i < 400. g_map g ! i \<longleftrightarrow> border i \<or> of_nat i \<in> set body" "length (g_map g) = 400" using inv by (simp_all add: snake_inv_def)
  have "\<not> border (unat p)" "of_nat (unat p) \<notin> set body" using m(1) p by blast+
  then show "inner p" "p \<notin> set body" using border_inner[OF p(1)] by simp_all
  have n: "length body < 400" using inv body_short by (simp add: snake_inv_def)
  show s: "(g_start g + 1) mod 400 = (g_end g + length body + 1) mod 400"
    using inv mod_add_left_eq[of "g_end g + length body" 400 1] by (simp add: snake_inv_def)
  have ring: "ring (sites g) (g_end g) (length body) = body" "length (sites g) = 400" using inv by (simp_all add: snake_inv_def)
  show "ring ((sites g)[(g_start g + 1) mod 400 := p]) (g_end g) (Suc (length body)) = body @ [p]"
    unfolding s using ring_push[OF n ring(2), of "g_end g" p] ring(1) by simp
  show "(g_map g)[unat p := True] ! i \<longleftrightarrow> border i \<or> of_nat i \<in> set (body @ [p])" if "i < 400" for i
    using m p that unat_small[OF that] by (auto simp: nth_list_update)
qed

text \<open>A move to a place without food: the last part of the snake leaves its place.\<close>

lemma snake_moves:
  assumes inv: "snake_inv g body" and d: "d \<noteq> QUIT" and p: "unat (site g + dist d) < 400" and free: "\<not> g_map g ! unat (site g + dist d)"
    and np: "site g + dist d \<noteq> fsite g"
  shows "\<exists>g'. snake_step d g = Next g' \<and> site g' = site g + dist d \<and> snake_inv g' (tl body @ [site g + dist d])"
proof -
  let ?p = "site g + dist d" and ?e = "(g_end g + 1) mod 400"
  have b: "body \<noteq> []" "distinct body" "\<forall>q \<in> set body. inner q" "site g = last body" and l: "length (sites g) = 400" "length (g_map g) = 400" "g_end g < 400"
    and fs: "inner (fsite g)" "fsite g \<notin> set body" using inv by (simp_all add: snake_inv_def)
  define ss where "ss = (sites g)[(g_start g + 1) mod 400 := ?p]"
  define m where "m = (g_map g)[unat ?p := True]"
  have lss: "length ss = 400" "length m = 400" using l by (simp_all add: ss_def m_def)
  note M = moved_inv[OF inv p free]
  note M = M(1-3) M(4)[folded ss_def] M(5)[folded m_def]
  have R: "body @ [?p] = ss ! ?e # tl (body @ [?p])" using ring_drop(2)[of ss "g_end g" "length body"] unfolding M(4) .
  then have hd: "ss ! ?e = hd body" using b(1) by (cases body) auto
  have ih: "inner (hd body)" using b by simp
  have hlt: "unat (hd body) < 400" using ih by (simp add: inner_def)
  let ?g = "g\<lparr>g_map := m[unat (hd body) := False], sites := ss, g_start := (g_start g + 1) mod 400, g_end := ?e, site := ?p\<rparr>"
  have tl: "tl (body @ [?p]) = tl body @ [?p]" "length (tl body @ [?p]) = length body" using b(1) by (cases body; simp)+
  have ring: "ring ss ?e (length body) = tl body @ [?p]" using ring_drop(1)[of ss "g_end g" "length body"] M(4) tl by simp
  have start: "(g_start g + 1) mod 400 = (?e + length body) mod 400" unfolding M(3) using mod_add_left_eq[of "g_end g + 1" 400 "length body"] by (simp add: add.commute add.left_commute)
  have dist: "distinct (tl body @ [?p])" "set (tl body @ [?p]) = set (body @ [?p]) - {hd body}"
    using b(1,2) M(2) by (cases body; auto)+
  have map: "m[unat (hd body) := False] ! i \<longleftrightarrow> border i \<or> of_nat i \<in> set (tl body @ [?p])" if "i < 400" for i
  proof (cases "i = unat (hd body)")
    case True
    then show ?thesis using dist(2) lss hlt border_inner[OF that] ih by simp
  next
    case False
    then have "of_nat i \<noteq> hd body" using unat_small[OF that] by auto
    then show ?thesis using False M(5)[OF that] dist(2) by auto
  qed
  have "snake_step d g = Next ?g" using d p l free np hd hlt by (simp add: snake_step_def Let_def WID_def HEI_def m_def ss_def)
  moreover have "snake_inv ?g (tl body @ [?p])"
    unfolding snake_inv_def using b M(1) lss l ring start dist map tl(2) fs np by (auto dest: list.set_sel(2))
  ultimately show ?thesis by (intro exI[of _ ?g]) simp
qed

lemma snake_step_inv:
  assumes inv: "snake_inv g body"
  shows "case snake_step d g of
      Crash e \<Rightarrow> False
    | Next g' \<Rightarrow> \<exists>body'. snake_inv g' body' \<and> body' = (if site g' = fsite g then body else tl body) @ [site g']
    | _ \<Rightarrow> True"
proof (cases "d = QUIT")
  case True
  then show ?thesis by (simp add: snake_step_def)
next
  case False
  let ?p = "site g + dist d"
  have b: "body \<noteq> []" "distinct body" "\<forall>q \<in> set body. inner q" "site g = last body" and l: "length (sites g) = 400" "length (g_map g) = 400" "g_end g < 400"
    and fs: "inner (fsite g)" "fsite g \<notin> set body" using inv by (simp_all add: snake_inv_def)
  have p: "unat ?p < 400" using move_bound[of "site g" d] b False last_in_set[OF b(1)] by simp
  show ?thesis
  proof (cases "g_map g ! unat ?p")
    case True
    then show ?thesis using False p l by (simp add: snake_step_def Let_def)
  next
    case free: False
    note M = moved_inv[OF inv p free]
    define ss where "ss = (sites g)[(g_start g + 1) mod 400 := ?p]"
    define m where "m = (g_map g)[unat ?p := True]"
    note M = M(1-3) M(4)[folded ss_def] M(5)[folded m_def]
    have lss: "length ss = 400" "length m = 400" using l by (simp_all add: ss_def m_def)
    show ?thesis
    proof (cases "?p = fsite g")
      case True
      show ?thesis
      proof (cases "food m (seed g)")
        case None
        then show ?thesis using False p l free True by (simp add: snake_step_def Let_def WID_def HEI_def m_def)
      next
        case (Some r)
        obtain f s where r: "r = (f, s)" by force
        have f: "unat f < 400" "\<not> m ! unat f" using food_free[OF Some] r by auto
        then have nf: "\<not> border (unat f)" "f \<notin> set (body @ [?p])" using M(5)[of "unat f"] by auto
        let ?g = "g\<lparr>g_map := m, sites := ss, g_start := (g_start g + 1) mod 400, fsite := f, site := ?p, seed := s\<rparr>"
        have "snake_step d g = Next ?g" using False p l free True Some r by (simp add: snake_step_def Let_def WID_def HEI_def m_def ss_def)
        moreover have "snake_inv ?g (body @ [?p])"
          using b M lss l nf border_inner[OF f(1)] by (auto simp: snake_inv_def add.commute)
        ultimately show ?thesis using True by auto
      qed
    next
      case np: False
      then show ?thesis using snake_moves[OF inv False p free np] by auto
    qed
  qed
qed

lemma snake_run_inv: "snake_inv g body \<Longrightarrow> case snake_run ds g of Crash e \<Rightarrow> False | Next g' \<Rightarrow> \<exists>body'. snake_inv g' body' | _ \<Rightarrow> True"
proof (induction ds arbitrary: g body)
  case (Cons d ds)
  show ?case
  proof (cases "snake_step d g")
    case (Next g')
    then obtain body' where "snake_inv g' body'" using snake_step_inv[OF Cons.prems, of d] by auto
    then show ?thesis using Cons.IH Next by simp
  qed (use snake_step_inv[OF Cons.prems, of d] in simp_all)
qed auto

lemma snake_init_inv:
  assumes "length junk = 400" "snake_init junk clock = Some g"
  shows "snake_inv g [210]"
proof -
  let ?m = "(map border [0..<400])[210 := True]"
  obtain f s where r: "food ?m clock = Some (f, s)" "g = \<lparr>g_map = ?m, sites = junk[1 := 210], g_start = 1, g_end = 0, fsite = f, site = 210, seed = s\<rparr>"
    using assms(2) by (auto simp: snake_init_def Let_def HEI_def WID_def split: Option.bind_splits)
  have f: "unat f < 400" "\<not> ?m ! unat f" using food_free[OF r(1)] by auto
  then have nb: "\<not> border (unat f)" "f \<noteq> 210" by (auto simp: nth_list_update split: if_splits)
  have "inner 210" by (simp add: inner_def)
  moreover have "of_nat i = (210 :: u64) \<longleftrightarrow> i = 210" if "i < 400" for i
    using unat_small[OF that] by (simp add: word_unat_eq_iff)
  ultimately show ?thesis
    using f nb border_inner[OF f(1)] assms(1) r(2) by (auto simp: snake_inv_def ring_def nth_list_update)
qed

section \<open>Properties\<close>

text \<open>C39. The game. Whatever keys are typed, no move reads or writes outside the arrays: the snake is always a chain of distinct places inside the walls,
  exactly these and the walls are blocked in the map, the ring buffer holds its places from tail to head, and the food is on a free place.
  Each move puts one place in front and takes the last one away unless the food was reached. But a clock value of 0 as the seed makes the
  search for a place for the first food go on for ever.\<close>

theorem snake_stays_inside:
  assumes "length junk = 400"
  shows "(snake_init junk clock = Some g \<longrightarrow>
      (case snake_run ds g of Crash e \<Rightarrow> False | Next g' \<Rightarrow> \<exists>body. snake_inv g' body | _ \<Rightarrow> True)) \<and>
    (snake_inv g body \<and> snake_step d g = Next g' \<longrightarrow>
      snake_inv g' ((if site g' = fsite g then body else tl body) @ [site g'])) \<and>
    snake_init junk 0 = None"
proof (intro conjI impI)
  show "case snake_run ds g of Crash e \<Rightarrow> False | Next g' \<Rightarrow> \<exists>body. snake_inv g' body | _ \<Rightarrow> True" if "snake_init junk clock = Some g"
    by (rule snake_run_inv[OF snake_init_inv[OF assms that]])
  show "snake_inv g' ((if site g' = fsite g then body else tl body) @ [site g'])" if "snake_inv g body \<and> snake_step d g = Next g'"
    using snake_step_inv[of g body d] that by simp
  have z: "food m 0 = None" if "m ! 0" for m using food_zero[of m 0] that by (cases "food m 0") auto
  have "(map border [0..<WID * HEI])[unat (of_nat ((HEI div 2) * WID + WID div 2) :: u64) := True] ! 0" by (simp add: HEI_def WID_def border_def)
  then show "snake_init junk 0 = None" unfolding snake_init_def Let_def by (simp add: z)
qed

theorem snake_stays_inside_witness:
  "\<exists>g g'. snake_init (replicate 400 0) 3 = Some g \<and> snake_step LEFT g = Next g' \<and> snake_inv g' [209]"
proof -
  let ?m = "(map border [0..<400])[210 := True]"
  have m: "\<not> ?m ! 21" by (simp add: border_def HEI_def WID_def)
  have f: "food ?m 3 = Some (21, 20421)" using m by (subst food.simps) (simp add: Let_def rand_def WID_def HEI_def del: upt_conv_Cons_Cons)
  obtain g where g: "snake_init (replicate 400 0) 3 = Some g" "fsite g = 21" "site g = 210" "g_map g = ?m" "length (sites g) = 400" "g_start g = 1" "g_end g = 0"
      "sites g = (replicate 400 0)[1 := 210]"
    using f by (auto simp: snake_init_def Let_def HEI_def WID_def)
  have "\<not> ?m ! 209" by (simp add: border_def HEI_def WID_def)
  then obtain g' where g': "snake_step LEFT g = Next g'" "site g' = 209"
    using g by (auto simp: snake_step_def Let_def dist_def HEI_def WID_def)
  have "snake_inv g [210]" by (rule snake_init_inv[OF _ g(1)]) simp
  then have "snake_inv g' ((if site g' = fsite g then [210] else tl [210]) @ [site g'])"
    using snake_stays_inside[of "replicate 400 0" 3 g "[]" "[210]" LEFT g'] g'(1) by simp
  then show ?thesis using g g' by auto
qed

end
