(* ===== verification/Loader.thy ===== *)
theory Loader
  imports Exec
begin

text \<open>
  What loading a program does to the memory that it sees: the file system and paging together.

  \<open>view s\<close> is the content of the running address space, an unmapped byte being \<open>None\<close>. Mapping a page, storing bytes and loading a segment
  are updates of this view; the files stay as they are.
\<close>

unbundle bit_operations_syntax

definition view :: "('h, 'z) mmstate_scheme \<Rightarrow> u64 \<Rightarrow> u8 option" where
  "view s va = map_option (pmem s) (translate (pmem s) (cr3 s) va)"

lemma view_walk: "user va \<Longrightarrow> view s va = map_option (\<lambda>f. pmem s (f + (va AND 0xfff))) (walk (pmem s) (cr3 s) va 4)"
  by (simp add: view_def translate_walk(1) option.map_comp o_def del: walk.simps)

lemma page_of_offset: "aligned f \<Longrightarrow> page_of (f + (va AND 0xfff)) = f"
  using page_of_add[OF _ offset_less[of va], of f] by simp

section \<open>Mapping a page\<close>

lemma page_map_view:
  fixes s :: "('h, 'z) mmstate_scheme"
  assumes inv: "mm_inv C K {} s" and c: "cr3 s \<in> C" "user va" and free: "4 \<le> card (free_frames s)"
  shows "\<exists>s'. page_map va s = Ret () s' \<and> mm_inv C K {} s' \<and> only_phys s s' \<and> card (free_frames s) \<le> card (free_frames s') + 4 \<and>
    (\<forall>w. user w \<longrightarrow> view s' w = (if page_of w = page_of va \<and> view s w = None then Some 0 else view s w))"
proof -
  note I = mm_inv_D[OF inv]
  obtain f s' where r: "page_map va s = Ret () s'" "mm_inv C K {} s'" "f \<in> free_frames s" "card (free_frames s) \<le> card (free_frames s') + 4"
      "if walk (pmem s) (cr3 s) va 4 = None then mapped C va f s s' else keeps C s s'"
    using page_map_ok[OF assms] by blast
  have op: "only_phys s s'" using r(5) by (auto simp: mapped_def keeps_def simp del: walk.simps split: if_splits)
  have cr: "cr3 s' = cr3 s" by (rule only_phys_cr3[OF op])
  have al: "aligned f" using r(3) by (simp add: free_frames_def is_frame_def)
  have same: "walk (pmem s) (cr3 s) w 4 = walk (pmem s) (cr3 s) va 4" if "page_of w = page_of va" for w
    using that by (intro walk_same) (simp_all add: same4_page)
  have kept: "pmem s' (g + (w AND 0xfff)) = pmem s (g + (w AND 0xfff))" if "user w" "walk (pmem s) (cr3 s) w 4 = Some g" for w g
  proof -
    have "walk (pmem s) (cr3 s) w 4 = Some (page_of (g + (w AND 0xfff)))"
      using that page_of_offset[OF trees_D(4)[OF I(5) c(1) that order_refl]] by simp
    then show ?thesis using r(5) c(1) that(1) by (auto simp: mapped_def keeps_def simp del: walk.simps split: if_splits)
  qed
  have "view s' w = (if page_of w = page_of va \<and> view s w = None then Some 0 else view s w)" if u: "user w" for w
  proof (cases "walk (pmem s) (cr3 s) va 4 = None \<and> page_of w = page_of va")
    case True
    then have "walk (pmem s') (cr3 s) w 4 = Some f" "zeroed (pmem s') f"
      using r(5) c(1) u by (simp_all add: mapped_def same4_page del: walk.simps)
    then show ?thesis using True same[of w] page_of_offset[OF al] u by (simp add: view_walk cr zeroed_def del: walk.simps)
  next
    case False
    then have w': "walk (pmem s') (cr3 s) w 4 = walk (pmem s) (cr3 s) w 4"
      using r(5) c(1) u by (auto simp: mapped_def keeps_def same4_page simp del: walk.simps split: if_splits)
    then have "view s' w = view s w" using kept[OF u] u by (cases "walk (pmem s) (cr3 s) w 4") (simp_all add: view_walk cr del: walk.simps)
    moreover have "view s w \<noteq> None" if "page_of w = page_of va" using False that same[OF that] u by (simp add: view_walk del: walk.simps)
    ultimately show ?thesis by auto
  qed
  then show ?thesis using r(1,2,4) op by blast
qed

section \<open>Storing bytes\<close>

lemma store_byte:
  fixes s :: "('h, 'z) mmstate_scheme"
  assumes inv: "mm_inv C K R s" and c: "cr3 s \<in> C" "user va" and x: "translate (pmem s) (cr3 s) va = Some x"
  shows "mm_inv C K R (s\<lparr>pmem := (pmem s)(x := b)\<rparr>)"
    "\<And>w. user w \<Longrightarrow> view (s\<lparr>pmem := (pmem s)(x := b)\<rparr>) w = (if w = va then Some b else view s w)"
proof -
  note I = mm_inv_D[OF inv]
  obtain f where f: "walk (pmem s) (cr3 s) va 4 = Some f" "x = f + (va AND 0xfff)" using x translate_walk(1)[OF c(2)] by (auto simp del: walk.simps)
  have al: "aligned f" using trees_D(4)[OF I(5) c f(1)] by simp
  have m': "((pmem s)(x := b)) y = pmem s y" if "page_of y \<noteq> f" for y using that page_of_offset[OF al, of va] f(2) by auto
  show "mm_inv C K R (s\<lparr>pmem := (pmem s)(x := b)\<rparr>)" by (rule mm_inv_data[OF inv c f(1) m'])
  fix w :: u64 assume w: "user w"
  have wk: "walk ((pmem s)(x := b)) (cr3 s) w 4 = walk (pmem s) (cr3 s) w 4" by (rule data_walk[OF I(5) c f(1) m' c(1) w order_refl])
  show "view (s\<lparr>pmem := (pmem s)(x := b)\<rparr>) w = (if w = va then Some b else view s w)"
  proof (cases "w = va")
    case True
    then show ?thesis using wk f w by (simp add: view_walk del: walk.simps)
  next
    case False
    have "g + (w AND 0xfff) \<noteq> x" if g: "walk (pmem s) (cr3 s) w 4 = Some g" for g
    proof
      assume e: "g + (w AND 0xfff) = x"
      have ag: "aligned g" using trees_D(4)[OF I(5) c(1) w g] by simp
      have "g = f" using page_of_offset[OF ag, of w] page_of_offset[OF al, of va] e f(2) by simp
      then have "same 4 w va" using I(5) c w g f(1) unfolding trees_def by (meson le_refl zero_less_numeral)
      moreover have "w AND 0xfff = va AND 0xfff" using e f(2) \<open>g = f\<close> by simp
      ultimately show False using False page_split[of w] page_split[of va] by (simp add: same4_page)
    qed
    then show ?thesis using wk w False by (cases "walk (pmem s) (cr3 s) w 4") (simp_all add: view_walk del: walk.simps)
  qed
qed

lemma ustore_view:
  fixes s :: "('h, 'z) mmstate_scheme"
  assumes "mm_inv C K R s" "cr3 s \<in> C" "unat va + length bs \<le> unat DEFAULT_STACK"
    and "\<And>w. unat va \<le> unat w \<Longrightarrow> unat w < unat va + length bs \<Longrightarrow> view s w \<noteq> None"
  shows "\<exists>m. ustore pf va bs s = Ret () (s\<lparr>pmem := m\<rparr>) \<and> mm_inv C K R (s\<lparr>pmem := m\<rparr>) \<and>
    (\<forall>w. user w \<longrightarrow> view (s\<lparr>pmem := m\<rparr>) w =
       (if unat va \<le> unat w \<and> unat w < unat va + length bs then Some (bs ! (unat w - unat va)) else view s w))"
  using assms
proof (induction bs arbitrary: va s)
  case Nil
  then show ?case by (intro exI[of _ "pmem s"]) (auto simp: ret_def)
next
  case (Cons b bs)
  have lim: "unat va < 2 ^ 47" using Cons.prems(3) by (simp add: DEFAULT_STACK_def)
  have u: "user va" using lim by (simp add: user_def word_less_nat_alt DEFAULT_STACK_def)
  have n: "unat (va + 1) = Suc (unat va)" using lim by (simp add: unat_word_ariths)
  obtain x where x: "translate (pmem s) (cr3 s) va = Some x" using Cons.prems(4)[of va] by (auto simp: view_def)
  let ?s = "s\<lparr>pmem := (pmem s)(x := b)\<rparr>"
  note B = store_byte[OF Cons.prems(1,2) u x, where b = b]
  have us: "user w" if "unat w < unat va + length (b # bs)" for w
    using that Cons.prems(3) by (simp add: user_def word_less_nat_alt)
  have mapped: "view ?s w \<noteq> None" if "unat (va + 1) \<le> unat w" "unat w < unat (va + 1) + length bs" for w
    using that Cons.prems(4)[of w] B(2)[OF us] unfolding n by simp
  have "unat (va + 1) + length bs \<le> unat DEFAULT_STACK" "cr3 ?s \<in> C" using Cons.prems(2,3) n by simp_all
  from Cons.IH[OF B(1) this(2,1) mapped] obtain m where m: "ustore pf (va + 1) bs ?s = Ret () (?s\<lparr>pmem := m\<rparr>)" "mm_inv C K R (?s\<lparr>pmem := m\<rparr>)"
      "\<And>w. user w \<Longrightarrow> view (?s\<lparr>pmem := m\<rparr>) w =
         (if unat (va + 1) \<le> unat w \<and> unat w < unat (va + 1) + length bs then Some (bs ! (unat w - unat (va + 1))) else view ?s w)"
    by blast
  have "view (s\<lparr>pmem := m\<rparr>) w = (if unat va \<le> unat w \<and> unat w < unat va + length (b # bs) then Some ((b # bs) ! (unat w - unat va)) else view s w)"
    if w: "user w" for w
    using m(3)[OF w] B(2)[OF w] unfolding n word_unat_eq_iff by (auto simp: nth_Cons' Suc_diff_Suc)
  moreover have "ustore pf va (b # bs) s = Ret () (s\<lparr>pmem := m\<rparr>)" using m(1) x by (simp add: resolve_def ret_def)
  ultimately show ?case using m(2) by auto
qed

section \<open>The pages of a segment\<close>

abbreviation page_nr :: "u64 \<Rightarrow> nat" where "page_nr w \<equiv> unat w div 4096"

lemma page_of_eq: "page_of w = page_of v \<longleftrightarrow> page_nr w = page_nr v"
proof -
  have f: "unat (page_of p) = page_nr p * 4096" for p :: u64
  proof -
    have "unat p < 2 ^ 64" using unsigned_less[of p, where 'a = nat] by simp
    then show ?thesis unfolding page_of_nat by (rule small_nat[OF le_less_trans[OF div_times_less_eq_dividend]])
  qed
  show ?thesis
  proof
    assume "page_of w = page_of v"
    then show "page_nr w = page_nr v" using f[of w] f[of v] by simp
  qed (simp add: page_of_nat)
qed

lemma page_nr_add:
  assumes "(page_nr va + k) * 4096 < 2 ^ 47"
  shows "page_nr (page_of va + of_nat k * PG_SIZE) = page_nr va + k" "user (page_of va + of_nat k * PG_SIZE)"
proof -
  have "page_of va + of_nat k * PG_SIZE = of_nat ((page_nr va + k) * 4096)" by (simp add: page_of_nat PG_SIZE_def algebra_simps)
  then have "unat (page_of va + of_nat k * PG_SIZE) = (page_nr va + k) * 4096" using small_nat[of "(page_nr va + k) * 4096"] assms by simp
  then show "page_nr (page_of va + of_nat k * PG_SIZE) = page_nr va + k" "user (page_of va + of_nat k * PG_SIZE)"
    using assms by (simp_all add: user_def word_less_nat_alt DEFAULT_STACK_def)
qed

lemma map_pages_view:
  fixes s :: "('h, 'z) mmstate_scheme"
  assumes inv: "mm_inv C K {} s" and c: "cr3 s \<in> C" and lim: "(page_nr va + n) * 4096 \<le> 2 ^ 47" and free: "4 * n \<le> card (free_frames s)"
  shows "\<exists>s'. for_range 0 n (\<lambda>i. page_map (page_of va + of_nat i * PG_SIZE)) s = Ret () s' \<and> mm_inv C K {} s' \<and> only_phys s s' \<and>
    card (free_frames s) \<le> card (free_frames s') + 4 * n \<and>
    (\<forall>w. user w \<longrightarrow> view s' w = (if page_nr va \<le> page_nr w \<and> page_nr w < page_nr va + n \<and> view s w = None then Some 0 else view s w))"
proof -
  define P where "P i t \<longleftrightarrow> mm_inv C K {} t \<and> only_phys s t \<and> card (free_frames s) \<le> card (free_frames t) + 4 * i \<and>
    (\<forall>w. user w \<longrightarrow> view t w = (if page_nr va \<le> page_nr w \<and> page_nr w < page_nr va + i \<and> view s w = None then Some 0 else view s w))" for i t
  have "\<exists>t'. page_map (page_of va + of_nat i * PG_SIZE) t = Ret () t' \<and> P (Suc i) t'" if i: "i < n" and t: "P i t" for i t
  proof -
    have T: "mm_inv C K {} t" "only_phys s t" "card (free_frames s) \<le> card (free_frames t) + 4 * i"
      "\<And>w. user w \<Longrightarrow> view t w = (if page_nr va \<le> page_nr w \<and> page_nr w < page_nr va + i \<and> view s w = None then Some 0 else view s w)"
      using t unfolding P_def by blast+
    have "(page_nr va + i) * 4096 < 2 ^ 47" using i lim by simp
    note A = page_nr_add[OF this]
    have "cr3 t \<in> C" "4 \<le> card (free_frames t)" using c only_phys_fields(1)[OF T(2)] i free T(3) by simp_all
    from page_map_view[OF T(1) this(1) A(2) this(2)] obtain t' where
      t': "page_map (page_of va + of_nat i * PG_SIZE) t = Ret () t'" "mm_inv C K {} t'" "only_phys t t'" "card (free_frames t) \<le> card (free_frames t') + 4"
        "\<And>w. user w \<Longrightarrow> view t' w = (if page_of w = page_of (page_of va + of_nat i * PG_SIZE) \<and> view t w = None then Some 0 else view t w)"
      by blast
    have "P (Suc i) t'" unfolding P_def
    proof (intro conjI allI impI)
      fix w :: u64 assume "user w"
      then show "view t' w = (if page_nr va \<le> page_nr w \<and> page_nr w < page_nr va + Suc i \<and> view s w = None then Some 0 else view s w)"
        using t'(5)[of w] T(4)[of w] unfolding page_of_eq A(1) by auto
    qed (use t' T only_phys_trans in \<open>auto\<close>)
    then show ?thesis using t'(1) by blast
  qed
  moreover have "P 0 s" using inv by (auto simp: P_def)
  ultimately have "\<exists>t. for_range 0 n (\<lambda>i. page_map (page_of va + of_nat i * PG_SIZE)) s = Ret () t \<and> P (0 + n) t"
    by (intro for_range_inv) auto
  then show ?thesis unfolding P_def by simp
qed

text \<open>The pages from the first byte of a segment to its last.\<close>

lemma segment_pages_eq:
  assumes "0 < unat sz" "unat va + unat sz \<le> unat DEFAULT_STACK"
  defines "n \<equiv> (unat va + unat sz - 1) div 4096 - page_nr va + 1"
  shows "segment_pages va sz = (page_of va, n)" "(page_nr va + n) * 4096 \<le> 2 ^ 47"
proof -
  have lim: "unat va + unat sz \<le> 2 ^ 47" using assms(2) by (simp add: DEFAULT_STACK_def)
  have "unat (va + sz + PG_SIZE - 1) = unat va + unat sz + 4095"
  proof -
    have "va + sz + PG_SIZE - 1 = of_nat (unat va + unat sz + 4095)" by (simp add: PG_SIZE_def)
    then show ?thesis by (simp only: ) (rule small_nat, use lim in simp)
  qed
  then have e: "unat (DIV_ROUND_UP (va + sz) PG_SIZE) = (unat va + unat sz + 4095) div 4096"
    by (simp add: DIV_ROUND_UP_def unat_div PG_SIZE_def)
  have q: "(unat va + unat sz + 4095) div 4096 = page_nr va + n"
  proof -
    have "unat va + unat sz + 4095 = (unat va + unat sz - 1) + 4096" using assms(1) by simp
    moreover have "page_nr va \<le> (unat va + unat sz - 1) div 4096" using assms(1) by (intro div_le_mono) simp
    ultimately show ?thesis unfolding n_def by simp
  qed
  show l: "(page_nr va + n) * 4096 \<le> 2 ^ 47"
  proof -
    have "(unat va + unat sz - 1) div 4096 < 2 ^ 35" using lim assms(1) by (intro div_less_iff_less_mult[THEN iffD2]) auto
    then have "(unat va + unat sz + 4095) div 4096 \<le> 2 ^ 35" using assms(1) by simp
    then show ?thesis unfolding q by simp
  qed
  have "DIV_ROUND_UP (va + sz) PG_SIZE = of_nat (page_nr va + n)" using e q by (metis of_nat_unat_eq)
  then have "PG_SIZE * DIV_ROUND_UP (va + sz) PG_SIZE - page_of va = of_nat (n * 4096)"
    by (simp add: PG_SIZE_def page_of_nat algebra_simps)
  moreover have "n * 4096 \<le> 2 ^ 47" using l by simp
  ultimately have "unat ((PG_SIZE * DIV_ROUND_UP (va + sz) PG_SIZE - page_of va) div PG_SIZE) = n"
    using small_nat[of "n * 4096"] by (simp add: unat_div PG_SIZE_def)
  then show "segment_pages va sz = (page_of va, n)" by (simp add: segment_pages_def Let_def page_of_def)
qed

section \<open>Loading a segment\<close>

text \<open>The files do not depend on physical memory, and the page tables do not depend on the file system.\<close>

lemma reg_open_phys:
  fixes s :: "('h, 'z) mmstate_scheme"
  assumes "reg_open M dev A fd i a s" "only_phys s s'"
  shows "reg_open M dev A fd i a s'" "\<And>a'. file_bytes dev s' a' = file_bytes dev s a'" "file_table s' = file_table s" "hw s' = hw s"
    "inodes s' = inodes s"
proof -
  have e: "s' = s\<lparr>phy_mem_pool := phy_mem_pool s', pmem := pmem s'\<rparr>" using assms(2) by (simp add: only_phys_def)
  have "fs_inv M dev A (s\<lparr>phy_mem_pool := x, pmem := y\<rparr>) = fs_inv M dev A s" for x y
    by (simp add: fs_inv_def map_ok_def bio_ok_def io_ready_def dk_ok_def lock_free_def cur_ok_def tq_def pool_ok_def room_def)
  then have "reg_open M dev A fd i a (s\<lparr>phy_mem_pool := x, pmem := y\<rparr>) = reg_open M dev A fd i a s" for x y
    by (simp add: reg_open_def fd_slot_def)
  then show "reg_open M dev A fd i a s'" using assms(1) by (subst e) blast
  show "\<And>a'. file_bytes dev s' a' = file_bytes dev s a'" "file_table s' = file_table s" "hw s' = hw s" "inodes s' = inodes s" by (subst e, simp)+
qed

lemma mm_inv_files:
  fixes s :: "('h, 'z) mmstate_scheme"
  shows "mm_inv C K R (s\<lparr>hw := h, file_table := F\<rparr>) = mm_inv C K R s" "view (s\<lparr>hw := h, file_table := F\<rparr>) = view s"
    "free_frames (s\<lparr>hw := h, file_table := F\<rparr>) = free_frames s"
  by (auto simp: mm_inv_def view_def pool_ok_def pages_def free_frames_def)

definition loading ::
  "'h machine \<Rightarrow> ('h \<Rightarrow> ata_dev) \<Rightarrow> u64 set \<Rightarrow> int \<Rightarrow> nat \<Rightarrow> u64 \<Rightarrow> u64 set \<Rightarrow> u64 set \<Rightarrow> u8 list \<Rightarrow> ('h, 'z) mmstate_scheme \<Rightarrow> bool" where
  "loading M dev A fd i a C K bs s \<longleftrightarrow> mm_inv C K {} s \<and> cr3 s \<in> C \<and> reg_open M dev A fd i a s \<and> file_bytes dev s a = bs"

lemma others_trans: "others dev A a s s1 \<Longrightarrow> others dev A a s1 s2 \<Longrightarrow> others dev A a s s2"
  unfolding others_def by (metis (no_types, lifting))

lemma others_pmem [simp]: "others dev A a s (s'\<lparr>pmem := m\<rparr>) = others dev A a s s'"
  by (simp add: others_def)

text \<open>What the steps of the loader leave alone: everything but memory, its pool, the position in the file, and the machine behind the disk.\<close>

definition quiet_load :: "('h \<Rightarrow> ata_dev) \<Rightarrow> u64 set \<Rightarrow> u64 \<Rightarrow> ('h, 'z) mmstate_scheme \<Rightarrow> ('h, 'z) mmstate_scheme \<Rightarrow> bool" where
  "quiet_load dev A a s s' \<longleftrightarrow> cr3 s' = cr3 s \<and> ist2 s' = ist2 s \<and> tasks s' = tasks s \<and> others dev A a s s'"

lemma quiet_load_trans: "quiet_load dev A a s s1 \<Longrightarrow> quiet_load dev A a s1 s2 \<Longrightarrow> quiet_load dev A a s s2"
  using others_trans by (auto simp: quiet_load_def)

lemma read_loading:
  fixes s :: "('h, 'z) mmstate_scheme"
  assumes l: "loading M dev A fd i a C K bs s" and n: "0 < unat n" "unat n < 2 ^ 63"
  shows "\<exists>s'. sys_read M fd n s = Ret (int (length (take (unat n) (drop (pos_of s i) bs))), take (unat n) (drop (pos_of s i) bs)) s' \<and>
    loading M dev A fd i a C K bs s' \<and> quiet_load dev A a s s' \<and> view s' = view s \<and> free_frames s' = free_frames s"
proof -
  have L: "mm_inv C K {} s" "cr3 s \<in> C" "reg_open M dev A fd i a s" "file_bytes dev s a = bs" using l by (auto simp: loading_def)
  obtain s' h F where r: "sys_read M fd n s = Ret (int (length (take (unat n) (drop (pos_of s i) bs))), take (unat n) (drop (pos_of s i) bs)) s'"
      "reg_open M dev A fd i a s'" "file_bytes dev s' a = bs" "others dev A a s s'" "s' = s\<lparr>hw := h, file_table := F\<rparr>"
    using sys_read_ok[OF L(3) n, unfolded L(4)] by blast
  then show ?thesis using L(1,2) mm_inv_files(1)[where s = s and C = C and K = K and R = "{}"] mm_inv_files(2,3)[where s = s] by (intro exI[of _ s']) (auto simp: loading_def quiet_load_def)
qed

lemma seek_loading:
  fixes s :: "('h, 'z) mmstate_scheme"
  assumes l: "loading M dev A fd i a C K bs s" and off: "unat (off :: u64) \<le> length bs"
  shows "\<exists>s'. sys_lseek fd (sint off) SEEK_SET s = Ret (int (unat off)) s' \<and> pos_of s' i = unat off \<and>
    loading M dev A fd i a C K bs s' \<and> quiet_load dev A a s s' \<and> view s' = view s \<and> free_frames s' = free_frames s"
proof -
  have L: "mm_inv C K {} s" "cr3 s \<in> C" "reg_open M dev A fd i a s" "file_bytes dev s a = bs" using l by (auto simp: loading_def)
  have so: "sint off = int (unat off)" using off reg_openD(8)[OF L(3)] L(4) by (intro sint_small) simp
  let ?s = "s\<lparr>file_table := (file_table s)[i := (file_table s ! i)\<lparr>f_pos := int (unat off)\<rparr>]\<rparr>"
  have run: "sys_lseek fd (sint off) SEEK_SET s = Ret (int (unat off)) ?s"
    using sys_lseek_ok[OF L(3) refl, where whence = SEEK_SET and offset = "sint off"] of_nat_mono[OF off, where 'a = int] L(4)
    by (simp add: so seek_pos_def)
  have o: "reg_open M dev A fd i a ?s \<and> pos_of ?s i = unat off"
    using L(3) off L(4) by (intro reg_open_after[OF L(3)]) (auto simp: reg_open_def)
  have "others dev A a s ?s" by (simp add: others_def)
  then show ?thesis
    using run o L(1,2,4) mm_inv_files(1)[where s = s and C = C and K = K and R = "{}" and h = "hw s"] mm_inv_files(2,3)[where s = s and h = "hw s"] by (intro exI[of _ ?s]) (simp add: loading_def quiet_load_def)
qed

text \<open>The memory of a program after a segment was loaded: the bytes of the file, zeros in the rest of pages that were not there before.
  \<open>x\<close> is the byte at the address \<open>w\<close> before.\<close>

definition segment_view :: "u8 list \<Rightarrow> u64 \<Rightarrow> u64 \<Rightarrow> u64 \<Rightarrow> u64 \<Rightarrow> u8 option \<Rightarrow> u8 option" where
  "segment_view bs off sz va w x =
     (let data = take (unat sz) (drop (unat off) bs) in
      if unat va \<le> unat w \<and> unat w < unat va + length data then Some (data ! (unat w - unat va))
      else if x = None \<and> page_nr va \<le> page_nr w \<and> page_nr w \<le> (unat va + unat sz - 1) div 4096 then Some 0
      else x)"

definition seg_pages :: "u64 \<Rightarrow> u64 \<Rightarrow> nat" where
  "seg_pages va sz = (unat va + unat sz - 1) div 4096 - page_nr va + 1"

definition seg_fits :: "u8 list \<Rightarrow> u64 \<Rightarrow> u64 \<Rightarrow> u64 \<Rightarrow> bool" where
  "seg_fits bs off sz va \<longleftrightarrow> 0 < unat sz \<and> unat va + unat sz \<le> unat DEFAULT_STACK \<and> unat off \<le> length bs"

lemma seg_data_pages:
  assumes "unat va \<le> unat w" "unat w < unat va + length (take (unat sz) ds)"
  shows "page_nr va \<le> page_nr w \<and> page_nr w \<le> (unat va + unat sz - 1) div 4096"
  using assms by (intro conjI div_le_mono) auto

lemma segment_load_ok:
  fixes s :: "('h, 'z) mmstate_scheme"
  assumes l: "loading M dev A fd i a C K bs s" and f: "seg_fits bs off sz va" and free: "4 * seg_pages va sz \<le> card (free_frames s)"
  shows "\<exists>s'. segment_load M pf fd off sz va s = Ret () s' \<and> loading M dev A fd i a C K bs s' \<and> quiet_load dev A a s s' \<and>
    card (free_frames s) \<le> card (free_frames s') + 4 * seg_pages va sz \<and>
    (\<forall>w. user w \<longrightarrow> view s' w = segment_view bs off sz va w (view s w))"
proof -
  let ?n = "seg_pages va sz" and ?data = "take (unat sz) (drop (unat off) bs)"
  have sz: "0 < unat sz" "unat va + unat sz \<le> unat DEFAULT_STACK" "unat off \<le> length bs" using f by (auto simp: seg_fits_def)
  have L: "mm_inv C K {} s" "cr3 s \<in> C" "reg_open M dev A fd i a s" "file_bytes dev s a = bs" using l by (auto simp: loading_def)
  note G = segment_pages_eq[OF sz(1,2), folded seg_pages_def]
  obtain s1 where s1: "for_range 0 ?n (\<lambda>i. page_map (page_of va + of_nat i * PG_SIZE)) s = Ret () s1" "mm_inv C K {} s1" "only_phys s s1"
      "card (free_frames s) \<le> card (free_frames s1) + 4 * ?n"
      "\<And>w. user w \<Longrightarrow> view s1 w = (if page_nr va \<le> page_nr w \<and> page_nr w < page_nr va + ?n \<and> view s w = None then Some 0 else view s w)"
    using map_pages_view[OF L(1,2) G(2) free] by blast
  have l1: "loading M dev A fd i a C K bs s1" "quiet_load dev A a s s1"
    using reg_open_phys[OF L(3) s1(3)] only_phys_fields[OF s1(3)] s1(2) L(2,4) by (simp_all add: loading_def quiet_load_def others_def)
  obtain s2 where s2: "sys_lseek fd (sint off) SEEK_SET s1 = Ret (int (unat off)) s2" "pos_of s2 i = unat off"
      "loading M dev A fd i a C K bs s2" "quiet_load dev A a s1 s2" "view s2 = view s1" "free_frames s2 = free_frames s1"
    using seek_loading[OF l1(1) sz(3)] by blast
  have "unat sz < 2 ^ 63" using sz(2) by (simp add: DEFAULT_STACK_def)
  from read_loading[OF s2(3) sz(1) this, unfolded s2(2)] obtain s3 where s3: "sys_read M fd sz s2 = Ret (int (length ?data), ?data) s3"
      "loading M dev A fd i a C K bs s3" "quiet_load dev A a s2 s3" "view s3 = view s2" "free_frames s3 = free_frames s2"
    by blast
  have q: "quiet_load dev A a s s3" using l1(2) s2(4) s3(3) quiet_load_trans by blast
  have last: "page_nr va + ?n = Suc ((unat va + unat sz - 1) div 4096)"
    using sz(1) div_le_mono[of "unat va" "unat va + unat sz - 1" 4096] by (simp add: seg_pages_def)
  have fits: "unat va + length ?data \<le> unat DEFAULT_STACK" using sz(2) by simp
  have "view s3 w \<noteq> None" if w: "unat va \<le> unat w" "unat w < unat va + length ?data" for w
  proof -
    have "user w" using w fits by (simp add: user_def word_less_nat_alt)
    then show ?thesis using s1(5)[of w] seg_data_pages[OF w] last s3(4) s2(5) by auto
  qed
  from ustore_view[OF _ _ fits this, of C K "{}" pf] obtain m where
    m: "ustore pf va ?data s3 = Ret () (s3\<lparr>pmem := m\<rparr>)" "mm_inv C K {} (s3\<lparr>pmem := m\<rparr>)"
      "\<And>w. user w \<Longrightarrow> view (s3\<lparr>pmem := m\<rparr>) w =
         (if unat va \<le> unat w \<and> unat w < unat va + length ?data then Some (?data ! (unat w - unat va)) else view s3 w)"
    using s3(2) unfolding loading_def by blast
  let ?s = "s3\<lparr>pmem := m\<rparr>"
  have v: "view ?s w = segment_view bs off sz va w (view s w)" if "user w" for w
    using m(3)[OF that] s1(5)[OF that] last unfolding s3(4) s2(5) segment_view_def Let_def by auto
  have run: "segment_load M pf fd off sz va s = Ret () ?s"
    using s1(1) s2(1) s3(1) m(1) by (simp add: segment_load_def G(1))
  have "loading M dev A fd i a C K bs ?s" "quiet_load dev A a s ?s"
    using reg_open_phys[OF _ only_phys_pmem[OF only_phys_refl], of M dev A fd i a s3 m] s3(2) m(2) q
    by (simp_all add: loading_def quiet_load_def)
  then show ?thesis using run v s1(4) s2(6) s3(5) by (intro exI[of _ ?s]) simp
qed

section \<open>Loading a program\<close>

definition phdr :: "u8 list \<Rightarrow> Elf64_Ehdr \<Rightarrow> nat \<Rightarrow> Elf64_Phdr" where
  "phdr bs eh j = dec_Phdr (take 56 (drop (unat (e_phoff eh) + 56 * j) bs))"

text \<open>The loadable segments among \<open>n\<close> headers from number \<open>j\<close> on.\<close>

fun loadable :: "u8 list \<Rightarrow> Elf64_Ehdr \<Rightarrow> nat \<Rightarrow> nat \<Rightarrow> Elf64_Phdr list" where
  "loadable bs eh j 0 = []"
| "loadable bs eh j (Suc n) = (if p_type (phdr bs eh j) = PT_LOAD then [phdr bs eh j] else []) @ loadable bs eh (Suc j) n"

abbreviation ph_view :: "u8 list \<Rightarrow> u64 \<Rightarrow> Elf64_Phdr \<Rightarrow> u8 option \<Rightarrow> u8 option" where
  "ph_view bs w ph \<equiv> segment_view bs (p_offset ph) (p_memsz ph) (p_vaddr ph) w"

abbreviation ph_pages :: "Elf64_Phdr \<Rightarrow> nat" where
  "ph_pages ph \<equiv> seg_pages (p_vaddr ph) (p_memsz ph)"

text \<open>The address space with the segments \<open>phs\<close> from entry \<open>k\<close> on; the heap starts behind all of them.\<close>

definition with_segments :: "nat \<Rightarrow> Elf64_Phdr list \<Rightarrow> addr_space \<Rightarrow> addr_space" where
  "with_segments k phs sp =
     sp\<lparr>filesz := take k (filesz sp) @ map p_memsz phs @ drop (k + length phs) (filesz sp),
        vaddr := take k (vaddr sp) @ map p_vaddr phs @ drop (k + length phs) (vaddr sp),
        heap_start := fold max (map (\<lambda>ph. p_vaddr ph + p_memsz ph) phs) (heap_start sp)\<rparr>"

definition put_space :: "u64 \<Rightarrow> addr_space \<Rightarrow> 'z kstate_scheme \<Rightarrow> 'z kstate_scheme" where
  "put_space task sp s = s\<lparr>tasks := (tasks s)(task := (tasks s task)\<lparr>t_addr_space := sp\<rparr>)\<rparr>"

abbreviation space_of :: "'z kstate_scheme \<Rightarrow> u64 \<Rightarrow> addr_space" where
  "space_of s task \<equiv> t_addr_space (tasks s task)"

lemma put_space_simps [simp]:
  fixes s :: "('h, 'z) mmstate_scheme"
  shows "view (put_space task sp s) = view s" "free_frames (put_space task sp s) = free_frames s"
    "loading M dev A fd i a C K bs (put_space task sp s) = loading M dev A fd i a C K bs s"
    "space_of (put_space task sp s) task = sp" "put_space task sp (put_space task sp' s) = put_space task sp s"
    "pos_of (put_space task sp s) i = pos_of s i"
proof -
  have p: "pool_of mp (s\<lparr>tasks := x\<rparr>) = pool_of mp s" for mp x by (cases mp) simp_all
  have "mm_inv C K {} (put_space task sp s) = mm_inv C K {} s"
    by (simp add: put_space_def mm_inv_def pool_ok_def pages_def sema_free_def lock_free_def cur_ok_def tq_def)
  moreover have "fs_inv M dev A (put_space task sp s) = fs_inv M dev A s"
    by (simp add: put_space_def fs_inv_def map_ok_def bio_ok_def io_ready_def dk_ok_def lock_free_def cur_ok_def tq_def pool_ok_def room_def sema_free_def p)
  ultimately show "loading M dev A fd i a C K bs (put_space task sp s) = loading M dev A fd i a C K bs s"
    by (simp add: loading_def reg_open_def fd_slot_def sema_free_def lock_free_def cur_ok_def tq_def)
      (simp add: put_space_def)
qed (auto simp: put_space_def view_def free_frames_def pages_def)

lemma note_segment_ok:
  assumes "k < 4" "length (filesz (space_of s task)) = 4" "length (vaddr (space_of s task)) = 4"
  shows "note_segment task k ph s = Ret () (put_space task (with_segments k [ph] (space_of s task)) s)"
proof -
  have "max (p_vaddr ph + p_memsz ph) h = (if h > p_vaddr ph + p_memsz ph then h else p_vaddr ph + p_memsz ph)" for h by (auto simp: max_def)
  then show ?thesis
    using assms by (simp add: note_segment_def upd_task_def kput_def put_space_def with_segments_def Let_def upd_conv_take_nth_drop)
qed

lemma with_segments_Cons:
  assumes "k < length (filesz sp)" "k < length (vaddr sp)"
  shows "with_segments (Suc k) phs (with_segments k [ph] sp) = with_segments k (ph # phs) sp"
  using assms by (simp add: with_segments_def add.commute)

lemma with_segments_Nil [simp]: "with_segments k [] sp = sp"
  by (simp add: with_segments_def)

lemma with_segments_length:
  assumes "k + length phs \<le> 4" "length (filesz sp) = 4" "length (vaddr sp) = 4"
  shows "length (filesz (with_segments k phs sp)) = 4" "length (vaddr (with_segments k phs sp)) = 4"
  using assms by (simp_all add: with_segments_def)

lemma header_read:
  fixes s :: "('h, 'z) mmstate_scheme"
  assumes l: "loading M dev A fd i a C K bs s" and eh: "e_phentsize eh = 56" "unat (e_phoff eh) + 56 * Suc j \<le> length bs"
  shows "\<exists>p s1 s2. sys_lseek fd (sint (e_phoff eh + of_nat j * ucast (e_phentsize eh))) SEEK_SET s = Ret p s1 \<and>
    sys_read M fd (ucast (e_phentsize eh)) s1 = Ret (56, take 56 (drop (unat (e_phoff eh) + 56 * j) bs)) s2 \<and>
    loading M dev A fd i a C K bs s2 \<and> quiet_load dev A a s s2 \<and> view s2 = view s \<and> free_frames s2 = free_frames s"
proof -
  let ?off = "e_phoff eh + of_nat j * ucast (e_phentsize eh)"
  have "length bs \<le> 49152" using reg_openD(8) l unfolding loading_def by blast
  then have "unat (of_nat (unat (e_phoff eh) + 56 * j) :: u64) = unat (e_phoff eh) + 56 * j" using eh(2) by (intro small_nat) simp
  then have o: "unat ?off = unat (e_phoff eh) + 56 * j" by (simp add: eh(1) mult.commute)
  obtain s1 where s1: "sys_lseek fd (sint ?off) SEEK_SET s = Ret (int (unat ?off)) s1" "pos_of s1 i = unat ?off"
      "loading M dev A fd i a C K bs s1" "quiet_load dev A a s s1" "view s1 = view s" "free_frames s1 = free_frames s"
    using seek_loading[OF l, of ?off] eh(2) o by auto
  have z: "unat (ucast (e_phentsize eh) :: u64) = 56" by (simp add: eh(1))
  have "length (take 56 (drop (unat (e_phoff eh) + 56 * j) bs)) = 56" using eh(2) by simp
  then obtain s2 where s2: "sys_read M fd (ucast (e_phentsize eh)) s1 = Ret (56, take 56 (drop (unat (e_phoff eh) + 56 * j) bs)) s2"
      "loading M dev A fd i a C K bs s2" "quiet_load dev A a s1 s2" "view s2 = view s1" "free_frames s2 = free_frames s1"
    using read_loading[OF s1(3), of "ucast (e_phentsize eh)"] unfolding z s1(2) o by auto
  have "quiet_load dev A a s s2" by (rule quiet_load_trans[OF s1(4) s2(3)])
  then show ?thesis using s1(1,5,6) s2 by (intro exI[of _ "int (unat ?off)"] exI[of _ s1] exI[of _ s2] conjI) simp_all
qed

lemma others_put [simp]:
  "others dev A a (put_space task sp s) s' = others dev A a s s'" "others dev A a s (put_space task sp s') = others dev A a s s'"
  by (simp_all add: others_def put_space_def)

lemma quiet_put: "quiet_load dev A a s s' \<Longrightarrow> quiet_load dev A a (put_space task sp s) (put_space task sp s')"
  by (simp add: quiet_load_def) (simp add: put_space_def)

lemma quiet_space: "quiet_load dev A a s s' \<Longrightarrow> space_of s' task = space_of s task"
  by (simp add: quiet_load_def)

lemma load_segments_ok:
  fixes s :: "('h, 'z) mmstate_scheme"
  assumes "loading M dev A fd i a C K bs s" and eh: "e_phentsize eh = 56" "unat (e_phoff eh) + 56 * (j + n) \<le> length bs"
    and "\<forall>ph \<in> set (loadable bs eh j n). seg_fits bs (p_offset ph) (p_memsz ph) (p_vaddr ph)"
    and "k + length (loadable bs eh j n) \<le> 4" "length (filesz (space_of s task)) = 4" "length (vaddr (space_of s task)) = 4"
    and "4 * sum_list (map ph_pages (loadable bs eh j n)) \<le> card (free_frames s)"
  shows "\<exists>s'. load_segments M pf task fd eh j k n s = Ret (Inr (k + length (loadable bs eh j n))) s' \<and> loading M dev A fd i a C K bs s' \<and>
    quiet_load dev A a (put_space task (with_segments k (loadable bs eh j n) (space_of s task)) s) s' \<and>
    (\<forall>w. user w \<longrightarrow> view s' w = fold (ph_view bs w) (loadable bs eh j n) (view s w))"
  using assms
proof (induction n arbitrary: j k s)
  case 0
  then show ?case by (auto simp: ret_def quiet_load_def others_def put_space_def)
next
  case (Suc n)
  let ?sp = "space_of s task" and ?ph = "phdr bs eh j" and ?rest = "loadable bs eh (Suc j) n"
  have tab: "unat (e_phoff eh) + 56 * Suc j \<le> length bs" "unat (e_phoff eh) + 56 * (Suc j + n) \<le> length bs" using Suc.prems(3) by simp_all
  obtain p s1 s2 where s2: "sys_lseek fd (sint (e_phoff eh + of_nat j * ucast (e_phentsize eh))) SEEK_SET s = Ret p s1"
      "sys_read M fd (ucast (e_phentsize eh)) s1 = Ret (56, take 56 (drop (unat (e_phoff eh) + 56 * j) bs)) s2"
      "loading M dev A fd i a C K bs s2" "quiet_load dev A a s s2" "view s2 = view s" "free_frames s2 = free_frames s"
    using header_read[OF Suc.prems(1,2) tab(1)] by blast
  note sp2 = quiet_space[OF s2(4), of task]
  show ?case
  proof (cases "p_type ?ph = PT_LOAD")
    case False
    then have run: "load_segments M pf task fd eh j k (Suc n) s = load_segments M pf task fd eh (Suc j) k n s2"
      using s2(1,2) Suc.prems(2) by (simp add: phdr_def Let_def)
    have ls: "loadable bs eh j (Suc n) = ?rest" using False by simp
    obtain s' where "load_segments M pf task fd eh (Suc j) k n s2 = Ret (Inr (k + length ?rest)) s'" "loading M dev A fd i a C K bs s'"
        "quiet_load dev A a (put_space task (with_segments k ?rest ?sp) s2) s'"
        "\<forall>w. user w \<longrightarrow> view s' w = fold (ph_view bs w) ?rest (view s w)"
      using Suc.IH[OF s2(3) Suc.prems(2) tab(2), where k = k] Suc.prems(4-8) unfolding ls sp2 s2(5,6) by blast
    then show ?thesis unfolding run ls using quiet_load_trans[OF quiet_put[OF s2(4)]] by blast
  next
    case True
    then have ls: "loadable bs eh j (Suc n) = ?ph # ?rest" by simp
    have fit: "seg_fits bs (p_offset ?ph) (p_memsz ?ph) (p_vaddr ?ph)" "4 * ph_pages ?ph \<le> card (free_frames s2)" "k < 4"
      using Suc.prems(4,5,8) s2(6) unfolding ls by simp_all
    obtain s3 where s3: "segment_load M pf fd (p_offset ?ph) (p_memsz ?ph) (p_vaddr ?ph) s2 = Ret () s3" "loading M dev A fd i a C K bs s3"
        "quiet_load dev A a s2 s3" "card (free_frames s2) \<le> card (free_frames s3) + 4 * ph_pages ?ph"
        "\<forall>w. user w \<longrightarrow> view s3 w = ph_view bs w ?ph (view s2 w)"
      using segment_load_ok[OF s2(3) fit(1,2)] by blast
    note sp3 = quiet_space[OF s3(3), of task, unfolded sp2]
    let ?s4 = "put_space task (with_segments k [?ph] ?sp) s3"
    have s4: "note_segment task k ?ph s3 = Ret () ?s4" using note_segment_ok[OF fit(3), of s3 task ?ph] Suc.prems(6,7) unfolding sp3 by blast
    have run: "load_segments M pf task fd eh j k (Suc n) s = load_segments M pf task fd eh (Suc j) (Suc k) n ?s4"
      using s2(1,2) s3(1) s4 Suc.prems(2) True by (simp add: phdr_def Let_def)
    have len: "length (filesz (with_segments k [?ph] ?sp)) = 4" "length (vaddr (with_segments k [?ph] ?sp)) = 4"
      using with_segments_length[of k "[?ph]" ?sp] Suc.prems(6,7) fit(3) by simp_all
    have "4 * sum_list (map ph_pages ?rest) \<le> card (free_frames s3)" using Suc.prems(8) s3(4) s2(6) unfolding ls by simp
    then obtain s' where s': "load_segments M pf task fd eh (Suc j) (Suc k) n ?s4 = Ret (Inr (Suc k + length ?rest)) s'" "loading M dev A fd i a C K bs s'"
        "quiet_load dev A a (put_space task (with_segments (Suc k) ?rest (with_segments k [?ph] ?sp)) s3) s'"
        "\<forall>w. user w \<longrightarrow> view s' w = fold (ph_view bs w) ?rest (view s3 w)"
      using Suc.IH[where s = ?s4 and k = "Suc k" and j = "Suc j"] s3(2) Suc.prems(2,4,5) tab(2) len unfolding ls by auto
    have "quiet_load dev A a (put_space task (with_segments k (?ph # ?rest) ?sp) s) s'"
      using s'(3) quiet_load_trans[OF quiet_put[OF quiet_load_trans[OF s2(4) s3(3)]]] with_segments_Cons[of k ?sp ?rest ?ph] Suc.prems(6,7) fit(3)
      by simp
    then show ?thesis unfolding run ls using s'(1,2,4) s3(5) s2(5) by simp
  qed
qed

text \<open>A file that the loader accepts, its header, its loadable segments, and the limits within which they can be loaded.\<close>

definition elf_header :: "u8 list \<Rightarrow> Elf64_Ehdr" where
  "elf_header bs = dec_Ehdr (take 64 bs)"

definition elf_program :: "u8 list \<Rightarrow> bool" where
  "elf_program bs \<longleftrightarrow> 64 \<le> length bs \<and> Ehdr_ok (elf_header bs)"

definition elf_segments :: "u8 list \<Rightarrow> Elf64_Phdr list" where
  "elf_segments bs = loadable bs (elf_header bs) 0 (unat (e_phnum (elf_header bs)))"

definition elf_fits :: "u8 list \<Rightarrow> nat \<Rightarrow> bool" where
  "elf_fits bs frames \<longleftrightarrow> unat (e_phoff (elf_header bs)) + 56 * unat (e_phnum (elf_header bs)) \<le> length bs \<and>
     (\<forall>ph \<in> set (elf_segments bs). seg_fits bs (p_offset ph) (p_memsz ph) (p_vaddr ph)) \<and>
     length (elf_segments bs) \<le> 4 \<and> 4 * sum_list (map ph_pages (elf_segments bs)) \<le> frames"

definition program_space :: "u8 list \<Rightarrow> addr_space \<Rightarrow> addr_space" where
  "program_space bs sp = (let sp' = with_segments 0 (elf_segments bs) sp in sp'\<lparr>heap_end := heap_start sp'\<rparr>)"

lemma elf_load_header:
  fixes s :: "('h, 'z) mmstate_scheme"
  assumes l: "loading M dev A fd i a C K bs s" and pos: "pos_of s i = 0"
  shows "\<exists>s'. sys_read M fd sizeof_Ehdr s = Ret (int (min 64 (length bs)), take 64 bs) s' \<and>
    loading M dev A fd i a C K bs s' \<and> quiet_load dev A a s s' \<and> view s' = view s \<and> free_frames s' = free_frames s"
  using read_loading[OF l, of sizeof_Ehdr] pos by (simp add: sizeof_Ehdr_def min.commute)

lemma elf_load_rejects:
  fixes s :: "('h, 'z) mmstate_scheme"
  assumes l: "loading M dev A fd i a C K bs s" and pos: "pos_of s i = 0" and no: "\<not> elf_program bs"
  shows "\<exists>s'. elf_load M pf task fd s = Ret (- 64) s' \<and> loading M dev A fd i a C K bs s' \<and> quiet_load dev A a s s' \<and> view s' = view s"
proof -
  obtain s' where s': "sys_read M fd sizeof_Ehdr s = Ret (int (min 64 (length bs)), take 64 bs) s'"
      "loading M dev A fd i a C K bs s'" "quiet_load dev A a s s'" "view s' = view s"
    using elf_load_header[OF l pos] by blast
  have "elf_load M pf task fd s = Ret (- 64) s'"
    using s'(1) no by (auto simp: elf_load_def elf_program_def elf_header_def ret_def Let_def)
  then show ?thesis using s' by blast
qed

lemma elf_load_ok:
  fixes s :: "('h, 'z) mmstate_scheme"
  assumes l: "loading M dev A fd i a C K bs s" and pos: "pos_of s i = 0" and ok: "elf_program bs" "elf_fits bs (card (free_frames s))"
    and sp: "length (filesz (space_of s task)) = 4" "length (vaddr (space_of s task)) = 4"
  shows "\<exists>s'. elf_load M pf task fd s = Ret (sint (e_entry (elf_header bs))) s' \<and> loading M dev A fd i a C K bs s' \<and>
    quiet_load dev A a (put_space task (program_space bs (space_of s task)) s) s' \<and>
    (\<forall>w. user w \<longrightarrow> view s' w = fold (ph_view bs w) (elf_segments bs) (view s w))"
proof -
  let ?eh = "elf_header bs" and ?sp = "with_segments 0 (elf_segments bs) (space_of s task)"
  obtain s1 where s1: "sys_read M fd sizeof_Ehdr s = Ret (int (min 64 (length bs)), take 64 bs) s1"
      "loading M dev A fd i a C K bs s1" "quiet_load dev A a s s1" "view s1 = view s" "free_frames s1 = free_frames s"
    using elf_load_header[OF l pos] by blast
  have eh: "64 \<le> length bs" "Ehdr_ok ?eh" using ok(1) by (auto simp: elf_program_def)
  have pe: "e_phentsize ?eh = 56"
  proof -
    have "ucast (e_phentsize ?eh) = (56 :: u64)" using eh(2) by (simp add: Ehdr_ok_def sizeof_Phdr_def)
    moreover have "unat (ucast x :: u64) = unat x" for x :: u16 by transfer (simp add: take_bit_take_bit)
    ultimately have "unat (e_phentsize ?eh) = unat (56 :: u64)" by metis
    then show ?thesis by (simp add: word_unat_eq_iff)
  qed
  obtain s2 where s2: "load_segments M pf task fd ?eh 0 0 (unat (e_phnum ?eh)) s1 = Ret (Inr (length (elf_segments bs))) s2"
      "loading M dev A fd i a C K bs s2" "quiet_load dev A a (put_space task ?sp s1) s2"
      "\<forall>w. user w \<longrightarrow> view s2 w = fold (ph_view bs w) (elf_segments bs) (view s w)"
    using load_segments_ok[OF s1(2) pe, of 0 "unat (e_phnum ?eh)" 0 task pf] ok(2) sp s1(4,5) quiet_space[OF s1(3), of task]
    unfolding elf_fits_def elf_segments_def by auto
  let ?s = "put_space task (program_space bs (space_of s task)) s2"
  have "space_of s2 task = ?sp" using quiet_space[OF s2(3), of task] by simp
  then have u: "upd_task task (\<lambda>t. t\<lparr>t_addr_space := (t_addr_space t)\<lparr>heap_end := heap_start (t_addr_space t)\<rparr>\<rparr>) s2 = Ret () ?s"
    by (simp add: upd_task_def kput_def put_space_def program_space_def Let_def)
  have run: "elf_load M pf task fd s = Ret (sint (e_entry ?eh)) ?s"
    using s1(1) s2(1) u eh ok(2) by (simp add: elf_load_def elf_header_def[symmetric] Let_def ret_def ASSERT_def elf_fits_def)
  have "quiet_load dev A a (put_space task (program_space bs (space_of s task)) s) ?s"
    using quiet_put[OF quiet_load_trans[OF quiet_put[OF s1(3)] s2(3)], of task "program_space bs (space_of s task)"] by simp
  then show ?thesis using run s2(2,4) by (intro exI[of _ ?s]) simp
qed

section \<open>Properties\<close>

definition demo_elf :: "u8 list" where
  "demo_elf =
     elf_magic @ [0, 0, 0, 0, 0, 0, 0, 0, 0] @ [2, 0] @ [62, 0] @ [1, 0, 0, 0] @ [0x78, 0, 0x40, 0, 0, 0, 0, 0] @ [64, 0, 0, 0, 0, 0, 0, 0] @
     [0, 0, 0, 0, 0, 0, 0, 0] @ [0, 0, 0, 0] @ [64, 0] @ [56, 0] @ [1, 0] @ [0, 0] @ [0, 0] @ [0, 0] @
     [1, 0, 0, 0] @ [5, 0, 0, 0] @ [0, 0, 0, 0, 0, 0, 0, 0] @ [0, 0, 0x40, 0, 0, 0, 0, 0] @ [0, 0, 0, 0, 0, 0, 0, 0] @
     [124, 0, 0, 0, 0, 0, 0, 0] @ [124, 0, 0, 0, 0, 0, 0, 0] @ [0, 16, 0, 0, 0, 0, 0, 0] @ [0xeb, 0xfe, 0x90, 0x90]"

lemma demo_elf_header:
  "length demo_elf = 124" "e_entry (elf_header demo_elf) = 0x400078" "e_phoff (elf_header demo_elf) = 64" "e_phnum (elf_header demo_elf) = 1"
  "elf_program demo_elf"
  by (simp_all add: demo_elf_def elf_program_def elf_header_def dec_Ehdr_def elf_magic_def EI_NIDENT_def dec16_def dec32_def dec64_def
      Ehdr_ok_def ET_EXEC_def EM_X86_64_def sizeof_Phdr_def)

lemma demo_elf_phdr:
  "p_type (phdr demo_elf (elf_header demo_elf) 0) = PT_LOAD" "p_offset (phdr demo_elf (elf_header demo_elf) 0) = 0"
  "p_vaddr (phdr demo_elf (elf_header demo_elf) 0) = 0x400000" "p_memsz (phdr demo_elf (elf_header demo_elf) 0) = 124"
  unfolding phdr_def demo_elf_header
  by (simp_all add: demo_elf_def elf_magic_def dec_Phdr_def dec32_def dec64_def PT_LOAD_def)

lemma demo_elf_segments: "elf_segments demo_elf = [phdr demo_elf (elf_header demo_elf) 0]"
  by (simp add: elf_segments_def demo_elf_header demo_elf_phdr)

lemma demo_elf_fits: "4 \<le> n \<Longrightarrow> elf_fits demo_elf n"
  by (simp add: elf_fits_def demo_elf_header demo_elf_segments demo_elf_phdr seg_fits_def seg_pages_def DEFAULT_STACK_def)

lemma demo_mm_fields:
  "kernel_mem_pool demo_mm = kernel_mem_pool (demo_fi intr_on)" "links demo_mm = links (demo_fi intr_on)" "sb demo_mm = sb (demo_fi intr_on)"
  "sema_value demo_mm = sema_value (demo_fi intr_on)" "ist2 demo_mm = ist2 (demo_fi intr_on)" "hw demo_mm = hw (demo_fi intr_on)"
  "hd_cnt demo_mm = hd_cnt (demo_fi intr_on)" "expecting_intr demo_mm = expecting_intr (demo_fi intr_on)" "intr_flag demo_mm = intr_on"
  "inodes demo_mm = inodes (demo_fi intr_on)" "file_table demo_mm = file_table (demo_fi intr_on)"
  "t_fd_table (tasks demo_mm t) = t_fd_table (tasks (demo_fi intr_on) t)"
  by (simp_all add: demo_mm_def fsstate.extend_def mmstate.fields_def demo_fss_def fistate.extend_def fsstate.fields_def demo_fi_def)

lemma demo_mm_fs: "fs_inv demo_ata (\<lambda>d. d) {16} demo_mm"
proof -
  have e: "pool_of KernelPool demo_mm = pool_of KernelPool (demo_fi intr_on)" by (simp add: demo_mm_fields(1) del: demo_mm_simps)
  show ?thesis
    using demo_fi_fs
    by (simp add: fs_inv_def map_ok_def bio_ok_def io_ready_def dk_ok_def lock_free_def cur_ok_def tq_def pool_ok_def room_def sema_free_def e
        demo_mm_fields del: demo_mm_simps demo_fi_simps demo_in_simps)
qed

text \<open>A state in which a file holds a program.\<close>

lemma demo_program:
  "\<exists>s :: ata_dev mmstate. loading demo_ata (\<lambda>d. d) {16} 1 1 16 {0x100000} demo_K demo_elf s \<and> pos_of s 1 = 0 \<and> view s = view demo_mm \<and>
     tasks s = tasks demo_mm \<and> 4 \<le> card (free_frames s)"
proof -
  obtain h d' where w: "fs_inv demo_ata (\<lambda>d. d) {16} (demo_mm\<lparr>hw := h, inodes := (inodes demo_mm)(16 := (inodes demo_mm 16)\<lparr>dinode := d'\<rparr>)\<rparr>)"
      "fdata (blocks (\<lambda>d. d) h) d' = demo_elf"
    using inode_write_ok[OF demo_mm_fs, of 16 124 0 demo_elf] demo_elf_header(1) demo_space[of 124]
    by (auto simp: demo_mm_fields splice_at_def fdata_def)
  let ?s = "demo_mm\<lparr>hw := h, inodes := (inodes demo_mm)(16 := (inodes demo_mm 16)\<lparr>dinode := d'\<rparr>)\<rparr>"
  have "mm_inv {0x100000} demo_K {} ?s" by (rule mm_inv_cong[OF demo_mm_inv]) simp_all
  moreover have "reg_open demo_ata (\<lambda>d. d) {16} 1 1 16 ?s"
    using w demo_mm_lock[of FileTableLock] demo_mm_lock[of "InodeLock 16"]
    by (simp add: reg_open_def fd_slot_def MAX_FILES_OPEN_PER_PROC_def demo_mm_fields(11,12) del: demo_mm_simps)
  ultimately show ?thesis using w(2) demo_mm_free
    by (intro exI[of _ ?s]) (simp add: loading_def view_def fun_eq_iff demo_mm_fields(11) free_frames_def pages_def)
qed



end
