(* ===== verification/Spec2Isabelle.thy ===== *)
theory Spec2Isabelle
  imports Stdio Family Kernel Command Snake Loader
begin

text \<open>
  A verification of recover-os, a small AMD64 operating system in C: the kernel, its drivers, its file system, and the shell.

  \<^bold>\<open>The program.\<close> After boot, \<^verbatim>\<open>kernel/main.c\<close> sets up interrupts, memory, tasks, the console, the disk and the file system, and starts the first
  user process. Tasks are one page each, linked into lists by elements inside their structure; every wait is a task that leaves the
  ready list (\<^verbatim>\<open>task/task.c\<close>), and every lock is a semaphore over that (\<^verbatim>\<open>task/sync.c\<close>). Memory comes from two pools of pages, for the kernel and for programs, and
  from an allocator of small blocks (\<^verbatim>\<open>kernel/memory.c\<close>). The keyboard interrupt and the pipes use bounded queues
  (\<^verbatim>\<open>device/ioqueue.c\<close>). Files are stored in blocks of a disk partition (\<^verbatim>\<open>fs/\<close>), read and written by programmed input and output
  (\<^verbatim>\<open>device/ide.c\<close>). Programs enter the kernel through a table of system calls (\<^verbatim>\<open>userprog/syscall-init.c\<close>), get new address spaces by \<^verbatim>\<open>clone\<close> and page
  faults, are loaded by \<^verbatim>\<open>execv\<close>, and end through \<^verbatim>\<open>exit\<close> and \<^verbatim>\<open>wait\<close>. The shell is one of them.

  \<^bold>\<open>How code becomes definitions.\<close> A function of the kernel is a \<open>kcall\<close> (theory \<open>Prelude\<close>): from a state it returns a value and a new state
  (\<open>Ret\<close>), leaves the processor to another task (\<open>Sleep\<close>), or stops (\<open>Fail\<close>, with the failed \<^verbatim>\<open>ASSERT\<close>, the \<^verbatim>\<open>PANIC\<close>, the bad access or the endless loop as
  a value of \<open>kerr\<close>). A function that sleeps has a second definition, \<open>\<dots>_resume\<close>, for what it does when it runs again. The
  state is a chain of records, each extending the previous one by the variables of a component: \<open>kstate\<close> (lists, tasks, semaphores, pools, arenas),
  \<open>iostate\<close> (queues), \<open>hwstate\<close> (screen, descriptor tables, the machine), \<open>kbdstate\<close>, \<open>dkstate\<close>, \<open>instate\<close> (inodes), \<open>fistate\<close> (file table), \<open>fsstate\<close>, \<open>mmstate\<close>
  (physical memory) and \<open>sysstate\<close>; operations are polymorphic in the rest of the record. Integers are words of their C width. The hardware
  is a parameter, a value of type \<open>machine\<close> that says what a port access does; what a disk does is the hypothesis \<open>ata\<close>, satisfied by the
  concrete \<open>demo_ata\<close>. User space functions (\<open>CString\<close>, \<open>Stdio\<close>, \<open>Shell\<close>) work on a byte memory and give an error outside it.

  \<^bold>\<open>Theories and sources.\<close>
  \<^item> \<open>Prelude\<close>: machine integers, results, the state monad; \<open>Kernel_State\<close>: the records of \<^verbatim>\<open>task/task.h\<close> and the core state.
  \<^item> \<open>DList\<close>: \<^verbatim>\<open>lib/list.c\<close> over a pointer heap. \<open>Bitmap\<close>: \<^verbatim>\<open>lib/bitmap.c\<close>. \<open>CString\<close>: \<^verbatim>\<open>lib/string.c\<close>. \<open>Stdio\<close>: \<^verbatim>\<open>itoa\<close> and \<^verbatim>\<open>vsprintf\<close> of \<^verbatim>\<open>lib/stdio.c\<close>.
  \<^item> \<open>Sched\<close>: scheduling in \<^verbatim>\<open>task/task.c\<close> and the timer interrupt. \<open>Sync\<close>: \<^verbatim>\<open>task/sync.c\<close>. \<open>Pools\<close>: page pools and the pid pool. \<open>Arena\<close>: \<^verbatim>\<open>kalloc\<close> and \<^verbatim>\<open>kfree\<close>.
  \<^item> \<open>IoQueue\<close>: \<^verbatim>\<open>device/ioqueue.c\<close>. \<open>Machine\<close>: \<^verbatim>\<open>device/io.h\<close>. \<open>Print\<close>: \<^verbatim>\<open>device/print.c\<close> and writing to the console. \<open>Intr\<close>: \<^verbatim>\<open>kernel/intr.c\<close>, \<^verbatim>\<open>kernel/tss.c\<close>.
  \<open>Keyboard\<close>: \<^verbatim>\<open>device/keyboard.c\<close> and reading from the console. \<open>Timer\<close>: \<^verbatim>\<open>device/timer.c\<close>. \<open>Ide\<close>: \<^verbatim>\<open>device/ide.c\<close>.
  \<^item> \<open>Bio\<close>, \<open>Inode\<close>, \<open>Filedata\<close>, \<open>Dir\<close>, \<open>File\<close>, \<open>Files\<close>, \<open>Fs\<close>: the files of \<^verbatim>\<open>fs/\<close>; \<open>Inode\<close> and \<open>File\<close> hold definitions, \<open>Filedata\<close> and
  \<open>Files\<close> what they do to the contents of files. \<open>Pipe\<close>: \<^verbatim>\<open>userprog/pipe.c\<close> and the descriptor table.
  \<^item> \<open>Paging\<close>: the virtual memory of \<^verbatim>\<open>kernel/memory.c\<close>; \<open>Vm\<close>: page tables as trees in physical memory; \<open>Fault\<close>: unmapping, page faults, copying.
  \<^item> \<open>Task\<close>: creating and cloning tasks. \<open>WaitExit\<close>: \<^verbatim>\<open>userprog/wait_exit.c\<close>; \<open>Family\<close>: the invariant of the task table and what these
  operations do to it. \<open>Exec\<close>: \<^verbatim>\<open>userprog/exec.c\<close>; \<open>Loader\<close>: what it does to the memory of the program.
  \<^item> \<open>Kernel\<close>: system calls (\<^verbatim>\<open>lib/syscall.c\<close>, \<^verbatim>\<open>userprog/syscall-init.c\<close>, \<^verbatim>\<open>userprog/system-call.S\<close>), \<^verbatim>\<open>kernel/debug.c\<close> and \<^verbatim>\<open>kernel/main.c\<close>.
  \<^item> \<open>Shell\<close>, \<open>Command\<close>: \<^verbatim>\<open>command/shell.c\<close>. \<open>Snake\<close>: \<^verbatim>\<open>command/snake.c\<close>.

  \<^bold>\<open>Interfaces.\<close> Each contract between components is a locale with the laws the client relies on, interpreted on the model of the code:
  \<open>elem_list\<close> (lists, by \<open>DList\<close>), \<open>run_allocator\<close> (\<open>Bitmap\<close>), \<open>unit_allocator\<close> (page pools, pids, the maps of free blocks on the disk) with
  \<open>object_allocator\<close> (also \<open>kalloc\<close>), \<open>lock_discipline\<close> (semaphores), \<open>bounded_fifo\<close> (queues), \<open>block_device\<close> (\<open>Bio\<close>), \<open>directory\<close> (\<open>Dir\<close>).

  \<^bold>\<open>What the lemmas show.\<close>
  \<^item> Tasks: the four operations of the scheduler implement an abstract run queue; in every state that tasks reach by taking and
  releasing locks, yielding and being preempted, a lock has one holder, no check fails and no sleeper is forgotten. The task table stays
  well formed, an ended task wakes its parent, and \<^verbatim>\<open>wait\<close> gives back exactly what it owned.
  \<^item> Memory: pages, pids and blocks are handed out once and can be given back; blocks never overlap. Page tables stay disjoint trees;
  \<^verbatim>\<open>page_map\<close> adds one page to the translation of the processor, a page fault serves what it should, and loading a program gives
  the memory image that its file describes.
  \<^item> Devices: the screen is a terminal, typed keys come out of the console, sectors written are read back, tables that the processor reads
  lead where they should.
  \<^item> Files: reads and writes are operations on byte sequences, directories are finite maps, and the invariant that keeps files apart is
  kept by every change of size and established by formatting.
  \<^item> User space: \<^verbatim>\<open>vsprintf\<close> renders its format, the line editor and the argument splitter compute what reference functions compute, and a turn of
  the shell makes the system calls that the line asks for.
  The theorems also state where the code departs from this: a full pipe blocks every other transfer, an unmapped page stays in the
  translation, a bitmap search may leave the bitmap, and others, each in the theorem of its operation.

  \<^bold>\<open>Bounds and fuel.\<close> Recursion is structural or has a measure wherever the loop ends by itself. The loop of \<^verbatim>\<open>sema_down\<close> has fuel and \<open>sema_down_loop_fuel\<close>
  shows that it is irrelevant under the invariant of the scheduler; that of \<^verbatim>\<open>sys_wait\<close> has two rounds, since a round reaps, returns or sleeps
  (\<open>sys_wait_loop_reaps\<close>, \<open>sys_wait_loop_alone\<close>, \<open>sys_wait_loop_sleeps\<close>). The shell's loop over pipe symbols has one round per byte of the line, as each
  round overwrites a symbol. Searches in pointer lists, the adoption of children and the search for a place for food are partial functions, with theorems for when they
  return. The wait for the disk counts down its own limit. An endless loop of the code that is plain from its text is the error \<open>Diverges\<close>.

  \<^bold>\<open>Not modelled.\<close> The boot sector, the interrupt entry and the register switch in assembly (\<^verbatim>\<open>boot/boot.asm\<close>, \<^verbatim>\<open>kernel/intr_entry.S\<close>, \<^verbatim>\<open>task/switch.S\<close>):
  what the C code sees of them, the saved stack pointer, \<^verbatim>\<open>cr3\<close> and the interrupt flag, is in the state. \<^verbatim>\<open>printf\<close> and \<^verbatim>\<open>sprintf\<close>
  find their arguments at a fixed distance from the frame pointer, which depends on the compiler; \<^verbatim>\<open>vsprintf\<close>, which they call, is modelled. The
  input process of the snake game and its pauses, and the programs \<^verbatim>\<open>init\<close>, \<^verbatim>\<open>ls\<close>, \<^verbatim>\<open>echo\<close> and \<^verbatim>\<open>start\<close>, which only make library calls in a row. Caches
  of the processor: a change of a page table takes effect at once. Interrupts arrive between operations, not inside them, except where a
  definition has a separate resume part.
\<close>

end
